(* ===== verification/Tunnel_Prelude.thy ===== *)
theory Tunnel_Prelude
  imports Main "HOL-Library.Word" "HOL-Library.Monad_Syntax"
begin

text \<open>
  The ground the component theories stand on: the machine types of the C code (pointers
  and fixed-width integers as words), the packing of a flag into the low bits of an
  aligned pointer, network byte order, C strings and memory comparison, and the few facts
  about lists and about the option monad that the component proofs share.

  A C computation that can fault (a load or a store through a null or unallocated pointer)
  or fail to return is an \<open>option\<close>: \<open>None\<close> is the fault, so a theorem that concludes
  \<open>f s = Some s'\<close> also says that every access of \<open>f\<close> was to allocated memory and that
  its loops ended. An error return of the C code (\<open>-1\<close>, \<open>NULL\<close>) is an ordinary value of
  the result.
\<close>

unbundle bit_operations_syntax

named_theorems pack_simps \<open>reading back a parent pointer and a colour packed into one word\<close>
named_theorems heap_simps \<open>loads after stores, and representation predicates after stores elsewhere\<close>
named_theorems bytes_simps \<open>reading back what a byte-order writer wrote\<close>

section \<open>Machine types\<close>

type_synonym ptr = "64 word"
type_synonym byte = "8 word"
type_synonym u16 = "16 word"
type_synonym u32 = "32 word"

abbreviation NULL :: ptr where
  "NULL \<equiv> 0"

section \<open>Total correctness of a computation that may fault\<close>

definition returns :: "'a option \<Rightarrow> ('a \<Rightarrow> bool) \<Rightarrow> bool" where
  "returns m Q \<longleftrightarrow> (\<exists>x. m = Some x \<and> Q x)"

lemma returns_Some [simp]: "returns (Some x) Q \<longleftrightarrow> Q x"
  by (simp add: returns_def)

lemma returns_None [simp]: "\<not> returns None Q"
  by (simp add: returns_def)

lemma returns_bind [simp]: "returns (m \<bind> f) Q \<longleftrightarrow> returns m (\<lambda>x. returns (f x) Q)"
  by (cases m) auto

lemma returns_mono: "returns m P \<Longrightarrow> (\<And>x. m = Some x \<Longrightarrow> P x \<Longrightarrow> Q x) \<Longrightarrow> returns m Q"
  by (auto simp: returns_def)

section \<open>Tagged pointers\<close>

definition aligned :: "ptr \<Rightarrow> bool" where
  "aligned p \<longleftrightarrow> p AND 3 = 0"

lemma three_mask: "(3 :: ptr) = mask 2"
  by (simp add: mask_eq_exp_minus_1)

lemma aligned_bits: "aligned p \<longleftrightarrow> \<not> bit p 0 \<and> \<not> bit p (Suc 0)"
proof -
  have "p AND mask 2 = 0 \<longleftrightarrow> (\<forall>n<64. n < 2 \<longrightarrow> \<not> bit p n)"
    by (auto simp: bit_eq_iff bit_and_iff bit_mask_iff)
  also have "\<dots> \<longleftrightarrow> \<not> bit p 0 \<and> \<not> bit p (Suc 0)"
    by (auto simp: less_2_cases_iff dest: spec [of _ 0] spec [of _ "Suc 0"])
  finally show ?thesis by (simp only: aligned_def three_mask)
qed

lemma bit_not_3: "bit (NOT 3 :: ptr) n \<longleftrightarrow> n < 64 \<and> n \<noteq> 0 \<and> n \<noteq> Suc 0"
  unfolding three_mask by (auto simp: bit_not_iff bit_mask_iff)

lemma aligned_0 [simp]: "aligned 0"
  by (simp add: aligned_def)

lemma tag_clear: "aligned p \<Longrightarrow> (p OR 1) AND NOT 3 = p"
  unfolding aligned_bits
  by (rule bit_word_eqI, unfold bit_and_iff bit_or_iff bit_not_3 bit_1_iff, auto) (metis gr0I)

lemma untagged_clear: "aligned p \<Longrightarrow> p AND NOT 3 = p"
  unfolding aligned_bits
  by (rule bit_word_eqI, unfold bit_and_iff bit_or_iff bit_not_3 bit_1_iff, auto) (metis gr0I)

lemma tag_read: "aligned p \<Longrightarrow> (p OR 1) AND 1 = 1"
  unfolding aligned_bits
  by (rule bit_word_eqI) (auto simp: bit_and_iff bit_or_iff bit_1_iff)

lemma untagged_read: "aligned p \<Longrightarrow> p AND 1 = 0"
  unfolding aligned_bits
  by (rule bit_word_eqI) (auto simp: bit_and_iff bit_or_iff bit_1_iff; metis gr0I)

section \<open>Invariants of step relations\<close>

text \<open>What holds at the start and is kept by every step holds in every reachable state.\<close>

locale step_invariant =
  fixes step :: "'s \<Rightarrow> 's \<Rightarrow> bool" and inv :: "'s \<Rightarrow> bool"
  assumes keep: "step s s' \<Longrightarrow> inv s \<Longrightarrow> inv s'"
begin

lemma reach: "step\<^sup>*\<^sup>* s s' \<Longrightarrow> inv s \<Longrightarrow> inv s'"
  by (induction rule: rtranclp_induct) (auto intro: keep)

end

end
