(* ===== verification/RBTree.thy ===== *)
theory RBTree
  imports Tunnel_Prelude
begin

text \<open>
  The intrusive red-black tree of core/src/hev-rbtree.c, operation by operation, on an
  explicit heap. A node is the C struct: one word that packs the parent pointer with the
  colour in bit 0, and the two child pointers. \<open>hev_rbtree\<close> is the heap together with
  the root pointer of the one tree a caller works on; a pointer to a node is the address
  of its struct. Loads and stores go through \<open>ld\<close> and \<open>st\<close>, which fault (\<open>None\<close>) on an
  address that is not allocated, so NULL dereferences are visible in the model. The
  rebalancing loops are \<open>while (1)\<close> in the source and are partial functions here; that
  they return is a theorem of the refinement theories.
\<close>

section \<open>Nodes, the heap and field access\<close>

record hev_rbtree_node =
  parent_color :: ptr
  node_right :: ptr
  node_left :: ptr

record hev_rbtree =
  nodes :: "ptr \<rightharpoonup> hev_rbtree_node"
  root :: ptr

definition HEV_RBTREE_RED :: ptr where
  "HEV_RBTREE_RED = 0"

definition HEV_RBTREE_BLACK :: ptr where
  "HEV_RBTREE_BLACK = 1"

definition ld :: "hev_rbtree \<Rightarrow> ptr \<Rightarrow> hev_rbtree_node option" where
  "ld s p = nodes s p"

definition st :: "hev_rbtree \<Rightarrow> ptr \<Rightarrow> (hev_rbtree_node \<Rightarrow> hev_rbtree_node) \<Rightarrow> hev_rbtree option" where
  "st s p f = (case nodes s p of
      None \<Rightarrow> None
    | Some n \<Rightarrow> Some (s\<lparr>nodes := (nodes s)(p \<mapsto> f n)\<rparr>))"

definition set_left :: "hev_rbtree \<Rightarrow> ptr \<Rightarrow> ptr \<Rightarrow> hev_rbtree option" where
  "set_left s p q = st s p (\<lambda>n. n\<lparr>node_left := q\<rparr>)"

definition set_right :: "hev_rbtree \<Rightarrow> ptr \<Rightarrow> ptr \<Rightarrow> hev_rbtree option" where
  "set_right s p q = st s p (\<lambda>n. n\<lparr>node_right := q\<rparr>)"

definition set_pc :: "hev_rbtree \<Rightarrow> ptr \<Rightarrow> ptr \<Rightarrow> hev_rbtree option" where
  "set_pc s p w = st s p (\<lambda>n. n\<lparr>parent_color := w\<rparr>)"

definition get_left :: "hev_rbtree \<Rightarrow> ptr \<Rightarrow> ptr option" where
  "get_left s p = map_option node_left (ld s p)"

definition get_right :: "hev_rbtree \<Rightarrow> ptr \<Rightarrow> ptr option" where
  "get_right s p = map_option node_right (ld s p)"

definition get_pc :: "hev_rbtree \<Rightarrow> ptr \<Rightarrow> ptr option" where
  "get_pc s p = map_option parent_color (ld s p)"

section \<open>Colour and parent accessors\<close>

definition pc_color :: "ptr \<Rightarrow> ptr" where
  "pc_color pc = pc AND 1"

definition pc_is_black :: "ptr \<Rightarrow> bool" where
  "pc_is_black pc \<longleftrightarrow> pc AND HEV_RBTREE_BLACK \<noteq> 0"

definition pc_parent :: "ptr \<Rightarrow> ptr" where
  "pc_parent pc = pc AND NOT 3"

definition hev_rbtree_node_color :: "hev_rbtree \<Rightarrow> ptr \<Rightarrow> ptr option" where
  "hev_rbtree_node_color s p = do { pc \<leftarrow> get_pc s p; Some (pc_color pc) }"

definition hev_rbtree_node_is_red :: "hev_rbtree \<Rightarrow> ptr \<Rightarrow> bool option" where
  "hev_rbtree_node_is_red s p =
     do { c \<leftarrow> hev_rbtree_node_color s p; Some (c AND HEV_RBTREE_BLACK = 0) }"

definition hev_rbtree_node_is_black :: "hev_rbtree \<Rightarrow> ptr \<Rightarrow> bool option" where
  "hev_rbtree_node_is_black s p =
     do { c \<leftarrow> hev_rbtree_node_color s p; Some (c AND HEV_RBTREE_BLACK \<noteq> 0) }"

definition hev_rbtree_node_parent :: "hev_rbtree \<Rightarrow> ptr \<Rightarrow> ptr option" where
  "hev_rbtree_node_parent s p = do { pc \<leftarrow> get_pc s p; Some (pc_parent pc) }"

definition hev_rbtree_node_red_parent :: "hev_rbtree \<Rightarrow> ptr \<Rightarrow> ptr option" where
  "hev_rbtree_node_red_parent s p = get_pc s p"

definition hev_rbtree_node_set_black :: "hev_rbtree \<Rightarrow> ptr \<Rightarrow> hev_rbtree option" where
  "hev_rbtree_node_set_black s p =
     do { pc \<leftarrow> get_pc s p; set_pc s p (pc OR HEV_RBTREE_BLACK) }"

definition hev_rbtree_node_set_parent :: "hev_rbtree \<Rightarrow> ptr \<Rightarrow> ptr \<Rightarrow> hev_rbtree option" where
  "hev_rbtree_node_set_parent s p parent =
     do { c \<leftarrow> hev_rbtree_node_color s p; set_pc s p (c OR parent) }"

definition hev_rbtree_node_set_parent_color ::
  "hev_rbtree \<Rightarrow> ptr \<Rightarrow> ptr \<Rightarrow> ptr \<Rightarrow> hev_rbtree option" where
  "hev_rbtree_node_set_parent_color s p parent color = set_pc s p (parent OR color)"

definition hev_rbtree_node_empty :: "hev_rbtree \<Rightarrow> ptr \<Rightarrow> bool option" where
  "hev_rbtree_node_empty s p = do { pc \<leftarrow> get_pc s p; Some (pc = p) }"

section \<open>Linking and rotating\<close>

datatype link = LinkRoot | LinkLeft ptr | LinkRight ptr

text \<open>
  The \<open>HevRBTreeNode **link\<close> argument of \<open>hev_rbtree_node_link\<close> is the address of the
  pointer to overwrite: the root field, or a child field of a node.
\<close>

definition store_link :: "hev_rbtree \<Rightarrow> link \<Rightarrow> ptr \<Rightarrow> hev_rbtree option" where
  "store_link s l p = (case l of
      LinkRoot \<Rightarrow> Some (s\<lparr>root := p\<rparr>)
    | LinkLeft q \<Rightarrow> set_left s q p
    | LinkRight q \<Rightarrow> set_right s q p)"

definition hev_rbtree_node_link :: "hev_rbtree \<Rightarrow> ptr \<Rightarrow> ptr \<Rightarrow> link \<Rightarrow> hev_rbtree option" where
  "hev_rbtree_node_link s node parent l = do {
     s \<leftarrow> set_pc s node parent;
     s \<leftarrow> set_right s node NULL;
     s \<leftarrow> set_left s node NULL;
     store_link s l node }"

definition hev_rbtree_change_child ::
  "hev_rbtree \<Rightarrow> ptr \<Rightarrow> ptr \<Rightarrow> ptr \<Rightarrow> hev_rbtree option" where
  "hev_rbtree_change_child s old new parent =
     (if parent \<noteq> NULL then do {
        l \<leftarrow> get_left s parent;
        if l = old then set_left s parent new else set_right s parent new }
      else Some (s\<lparr>root := new\<rparr>))"

definition hev_rbtree_rotate_set_parents ::
  "hev_rbtree \<Rightarrow> ptr \<Rightarrow> ptr \<Rightarrow> ptr \<Rightarrow> hev_rbtree option" where
  "hev_rbtree_rotate_set_parents s old new color = do {
     parent \<leftarrow> hev_rbtree_node_parent s old;
     pc \<leftarrow> get_pc s old;
     s \<leftarrow> set_pc s new pc;
     s \<leftarrow> hev_rbtree_node_set_parent_color s old new color;
     hev_rbtree_change_child s old new parent }"

section \<open>Traversal\<close>

partial_function (option) go_left :: "hev_rbtree \<Rightarrow> ptr \<Rightarrow> ptr option" where
  "go_left s n = do { l \<leftarrow> get_left s n; if l \<noteq> NULL then go_left s l else Some n }"

partial_function (option) go_right :: "hev_rbtree \<Rightarrow> ptr \<Rightarrow> ptr option" where
  "go_right s n = do { r \<leftarrow> get_right s n; if r \<noteq> NULL then go_right s r else Some n }"

partial_function (option) up_while_left :: "hev_rbtree \<Rightarrow> ptr \<Rightarrow> ptr option" where
  "up_while_left s node = do {
     parent \<leftarrow> hev_rbtree_node_parent s node;
     if parent \<noteq> NULL then do {
       l \<leftarrow> get_left s parent;
       if node = l then up_while_left s parent else Some parent }
     else Some parent }"

partial_function (option) up_while_right :: "hev_rbtree \<Rightarrow> ptr \<Rightarrow> ptr option" where
  "up_while_right s node = do {
     parent \<leftarrow> hev_rbtree_node_parent s node;
     if parent \<noteq> NULL then do {
       r \<leftarrow> get_right s parent;
       if node = r then up_while_right s parent else Some parent }
     else Some parent }"

definition hev_rbtree_node_prev :: "hev_rbtree \<Rightarrow> ptr \<Rightarrow> ptr option" where
  "hev_rbtree_node_prev s node = do {
     e \<leftarrow> hev_rbtree_node_empty s node;
     if e then Some NULL else do {
     l \<leftarrow> get_left s node;
     if l \<noteq> NULL then go_right s l
     else up_while_left s node } }"

definition hev_rbtree_node_next :: "hev_rbtree \<Rightarrow> ptr \<Rightarrow> ptr option" where
  "hev_rbtree_node_next s node = do {
     e \<leftarrow> hev_rbtree_node_empty s node;
     if e then Some NULL else do {
     r \<leftarrow> get_right s node;
     if r \<noteq> NULL then go_left s r
     else up_while_right s node } }"

definition hev_rbtree_first :: "hev_rbtree \<Rightarrow> ptr option" where
  "hev_rbtree_first s = (if root s = NULL then Some NULL else go_left s (root s))"

definition hev_rbtree_last :: "hev_rbtree \<Rightarrow> ptr option" where
  "hev_rbtree_last s = (if root s = NULL then Some NULL else go_right s (root s))"

section \<open>Insertion\<close>

definition when_ptr :: "ptr \<Rightarrow> (ptr \<Rightarrow> hev_rbtree option) \<Rightarrow> hev_rbtree \<Rightarrow> hev_rbtree option" where
  "when_ptr p f s = (if p \<noteq> NULL then f p else Some s)"

text \<open>The uncle test \<open>tmp && hev_rbtree_node_is_red (tmp)\<close>.\<close>

definition ptr_is_red :: "hev_rbtree \<Rightarrow> ptr \<Rightarrow> bool option" where
  "ptr_is_red s p = (if p \<noteq> NULL then hev_rbtree_node_is_red s p else Some False)"

text \<open>
  The tails of the two halves of the loop body: cases 2 and 3 for a parent that is a
  left child, and their mirror images.
\<close>

definition insert_rotate_left :: "hev_rbtree \<Rightarrow> ptr \<Rightarrow> ptr \<Rightarrow> ptr \<Rightarrow> hev_rbtree option" where
  "insert_rotate_left s node parent gparent = do {
     tmp \<leftarrow> get_right s parent;
     (s, parent, tmp) \<leftarrow>
       (if node = tmp then do {
          tmp \<leftarrow> get_left s node;
          s \<leftarrow> set_right s parent tmp;
          s \<leftarrow> set_left s node parent;
          s \<leftarrow> when_ptr tmp (\<lambda>t. hev_rbtree_node_set_parent_color s t parent HEV_RBTREE_BLACK) s;
          s \<leftarrow> hev_rbtree_node_set_parent_color s parent node HEV_RBTREE_RED;
          tmp \<leftarrow> get_right s node;
          Some (s, node, tmp) }
        else Some (s, parent, tmp));
     s \<leftarrow> set_left s gparent tmp;
     s \<leftarrow> set_right s parent gparent;
     s \<leftarrow> when_ptr tmp (\<lambda>t. hev_rbtree_node_set_parent_color s t gparent HEV_RBTREE_BLACK) s;
     hev_rbtree_rotate_set_parents s gparent parent HEV_RBTREE_RED }"

definition insert_rotate_right :: "hev_rbtree \<Rightarrow> ptr \<Rightarrow> ptr \<Rightarrow> ptr \<Rightarrow> hev_rbtree option" where
  "insert_rotate_right s node parent gparent = do {
     tmp \<leftarrow> get_left s parent;
     (s, parent, tmp) \<leftarrow>
       (if node = tmp then do {
          tmp \<leftarrow> get_right s node;
          s \<leftarrow> set_left s parent tmp;
          s \<leftarrow> set_right s node parent;
          s \<leftarrow> when_ptr tmp (\<lambda>t. hev_rbtree_node_set_parent_color s t parent HEV_RBTREE_BLACK) s;
          s \<leftarrow> hev_rbtree_node_set_parent_color s parent node HEV_RBTREE_RED;
          tmp \<leftarrow> get_left s node;
          Some (s, node, tmp) }
        else Some (s, parent, tmp));
     s \<leftarrow> set_right s gparent tmp;
     s \<leftarrow> set_left s parent gparent;
     s \<leftarrow> when_ptr tmp (\<lambda>t. hev_rbtree_node_set_parent_color s t gparent HEV_RBTREE_BLACK) s;
     hev_rbtree_rotate_set_parents s gparent parent HEV_RBTREE_RED }"

text \<open>Case 1, the colour flip, which is the same code in both halves.\<close>

definition insert_flip :: "hev_rbtree \<Rightarrow> ptr \<Rightarrow> ptr \<Rightarrow> ptr \<Rightarrow> (hev_rbtree \<times> ptr) option" where
  "insert_flip s tmp parent gparent = do {
     s \<leftarrow> hev_rbtree_node_set_parent_color s tmp gparent HEV_RBTREE_BLACK;
     s \<leftarrow> hev_rbtree_node_set_parent_color s parent gparent HEV_RBTREE_BLACK;
     parent' \<leftarrow> hev_rbtree_node_parent s gparent;
     s \<leftarrow> hev_rbtree_node_set_parent_color s gparent parent' HEV_RBTREE_RED;
     Some (s, parent') }"

partial_function (option) insert_color_loop ::
  "hev_rbtree \<Rightarrow> ptr \<Rightarrow> ptr \<Rightarrow> hev_rbtree option" where
  "insert_color_loop s node parent =
     (if parent = NULL then hev_rbtree_node_set_parent_color s node NULL HEV_RBTREE_BLACK
      else do {
        black \<leftarrow> hev_rbtree_node_is_black s parent;
        if black then Some s
        else do {
          gparent \<leftarrow> hev_rbtree_node_red_parent s parent;
          tmp \<leftarrow> get_right s gparent;
          if parent \<noteq> tmp then do {
            red \<leftarrow> ptr_is_red s tmp;
            if red then do {
              (s, parent') \<leftarrow> insert_flip s tmp parent gparent;
              insert_color_loop s gparent parent' }
            else insert_rotate_left s node parent gparent }
          else do {
            tmp \<leftarrow> get_left s gparent;
            red \<leftarrow> ptr_is_red s tmp;
            if red then do {
              (s, parent') \<leftarrow> insert_flip s tmp parent gparent;
              insert_color_loop s gparent parent' }
            else insert_rotate_right s node parent gparent } } })"

definition hev_rbtree_insert_color :: "hev_rbtree \<Rightarrow> ptr \<Rightarrow> hev_rbtree option" where
  "hev_rbtree_insert_color s node = do {
     parent \<leftarrow> hev_rbtree_node_red_parent s node;
     insert_color_loop s node parent }"

section \<open>Replacement\<close>

definition hev_rbtree_replace :: "hev_rbtree \<Rightarrow> ptr \<Rightarrow> ptr \<Rightarrow> hev_rbtree option" where
  "hev_rbtree_replace s victim new = do {
     parent \<leftarrow> hev_rbtree_node_parent s victim;
     v \<leftarrow> ld s victim;
     s \<leftarrow> st s new (\<lambda>_. v);
     l \<leftarrow> get_left s victim;
     s \<leftarrow> when_ptr l (\<lambda>p. hev_rbtree_node_set_parent s p new) s;
     r \<leftarrow> get_right s victim;
     s \<leftarrow> when_ptr r (\<lambda>p. hev_rbtree_node_set_parent s p new) s;
     hev_rbtree_change_child s victim new parent }"

section \<open>Erasure\<close>

text \<open>The \<open>do ... while (tmp)\<close> walk to the leftmost node, keeping its parent.\<close>

partial_function (option) erase_successor :: "hev_rbtree \<Rightarrow> ptr \<Rightarrow> ptr \<Rightarrow> (ptr \<times> ptr) option" where
  "erase_successor s successor tmp = do {
     tmp' \<leftarrow> get_left s tmp;
     if tmp' \<noteq> NULL then erase_successor s tmp tmp' else Some (successor, tmp) }"

text \<open>
  Cases 2 and 3 of \<open>_hev_rbtree_erase\<close>: the successor of the node is its right child, or the
  leftmost node below it, which is cut out and put in place of the right child's parent.
\<close>

definition erase_splice ::
  "hev_rbtree \<Rightarrow> ptr \<Rightarrow> (hev_rbtree \<times> ptr \<times> ptr \<times> ptr) option" where
  "erase_splice s child = do {
     tmp \<leftarrow> get_left s child;
     if tmp = NULL then do {
       child2 \<leftarrow> get_right s child;
       Some (s, child, child, child2) }
     else do {
       (parent, successor) \<leftarrow> erase_successor s child tmp;
       child2 \<leftarrow> get_right s successor;
       s \<leftarrow> set_left s parent child2;
       s \<leftarrow> set_right s successor child;
       s \<leftarrow> hev_rbtree_node_set_parent s child successor;
       Some (s, parent, successor, child2) } }"

text \<open>The rest of cases 2 and 3: the successor takes the left subtree, the place and the colour
  of the node; the result is the node to rebalance at, NULL when there is nothing to do.\<close>

definition erase_transplant :: "hev_rbtree \<Rightarrow> ptr \<Rightarrow> ptr \<Rightarrow> ptr \<Rightarrow> ptr \<Rightarrow> (hev_rbtree \<times> ptr) option" where
  "erase_transplant s node parent successor child2 = do {
     tmp \<leftarrow> get_left s node;
     s \<leftarrow> set_left s successor tmp;
     s \<leftarrow> hev_rbtree_node_set_parent s tmp successor;
     pc \<leftarrow> get_pc s node;
     let tmp = pc_parent pc;
     s \<leftarrow> hev_rbtree_change_child s node successor tmp;
     (s, rebalance) \<leftarrow>
       (if child2 \<noteq> NULL then do {
          s \<leftarrow> hev_rbtree_node_set_parent_color s child2 parent HEV_RBTREE_BLACK;
          Some (s, NULL) }
        else do {
          black \<leftarrow> hev_rbtree_node_is_black s successor;
          Some (s, if black then parent else NULL) });
     s \<leftarrow> set_pc s successor pc;
     Some (s, rebalance) }"

definition erase_unlink :: "hev_rbtree \<Rightarrow> ptr \<Rightarrow> (hev_rbtree \<times> ptr) option" where
  "erase_unlink s node = do {
     child \<leftarrow> get_right s node;
     tmp \<leftarrow> get_left s node;
     if tmp = NULL then do {
       pc \<leftarrow> get_pc s node;
       let parent = pc_parent pc;
       s \<leftarrow> hev_rbtree_change_child s node child parent;
       if child \<noteq> NULL then do { s \<leftarrow> set_pc s child pc; Some (s, NULL) }
       else Some (s, if pc_is_black pc then parent else NULL) }
     else if child = NULL then do {
       pc \<leftarrow> get_pc s node;
       s \<leftarrow> set_pc s tmp pc;
       let parent = pc_parent pc;
       s \<leftarrow> hev_rbtree_change_child s node tmp parent;
       Some (s, NULL) }
     else do {
       (s, parent, successor, child2) \<leftarrow> erase_splice s child;
       erase_transplant s node parent successor child2 } }"

text \<open>The test \<open>!tmp || hev_rbtree_node_is_black (tmp)\<close>.\<close>

definition ptr_is_black :: "hev_rbtree \<Rightarrow> ptr \<Rightarrow> bool option" where
  "ptr_is_black s p = (if p = NULL then Some True else hev_rbtree_node_is_black s p)"

text \<open>
  One iteration of \<open>_hev_rbtree_erase_color\<close> for \<open>node == parent->left\<close>: case 1 makes the
  sibling black, then the colour flip (case 2), which either finishes or hands the next
  \<open>parent\<close> back to the loop, or the rotations of cases 3 and 4.
\<close>

definition erase_sibling_left :: "hev_rbtree \<Rightarrow> ptr \<Rightarrow> (hev_rbtree \<times> ptr) option" where
  "erase_sibling_left s parent = do {
     sibling \<leftarrow> get_right s parent;
     red \<leftarrow> hev_rbtree_node_is_red s sibling;
     if red then do {
       tmp1 \<leftarrow> get_left s sibling;
       s \<leftarrow> set_right s parent tmp1;
       s \<leftarrow> set_left s sibling parent;
       s \<leftarrow> hev_rbtree_node_set_parent_color s tmp1 parent HEV_RBTREE_BLACK;
       s \<leftarrow> hev_rbtree_rotate_set_parents s parent sibling HEV_RBTREE_RED;
       Some (s, tmp1) }
     else Some (s, sibling) }"

definition erase_flip :: "hev_rbtree \<Rightarrow> ptr \<Rightarrow> ptr \<Rightarrow> (hev_rbtree \<times> ptr) option" where
  "erase_flip s parent sibling = do {
     s \<leftarrow> hev_rbtree_node_set_parent_color s sibling parent HEV_RBTREE_RED;
     red \<leftarrow> hev_rbtree_node_is_red s parent;
     if red then do { s \<leftarrow> hev_rbtree_node_set_black s parent; Some (s, NULL) }
     else do { parent' \<leftarrow> hev_rbtree_node_parent s parent; Some (s, parent') } }"

definition erase_rotate_left :: "hev_rbtree \<Rightarrow> ptr \<Rightarrow> ptr \<Rightarrow> ptr \<Rightarrow> hev_rbtree option" where
  "erase_rotate_left s parent sibling tmp1 = do {
     tmp2 \<leftarrow> get_left s sibling;
     s \<leftarrow> set_right s parent tmp2;
     s \<leftarrow> set_left s sibling parent;
     s \<leftarrow> hev_rbtree_node_set_parent_color s tmp1 sibling HEV_RBTREE_BLACK;
     s \<leftarrow> when_ptr tmp2 (\<lambda>t. hev_rbtree_node_set_parent s t parent) s;
     hev_rbtree_rotate_set_parents s parent sibling HEV_RBTREE_BLACK }"

definition erase_black_left :: "hev_rbtree \<Rightarrow> ptr \<Rightarrow> ptr \<Rightarrow> (hev_rbtree \<times> ptr) option" where
  "erase_black_left s parent sibling = do {
     tmp1 \<leftarrow> get_right s sibling;
     black1 \<leftarrow> ptr_is_black s tmp1;
     if black1 then do {
       tmp2 \<leftarrow> get_left s sibling;
       black2 \<leftarrow> ptr_is_black s tmp2;
       if black2 then erase_flip s parent sibling
       else do {
         tmp1 \<leftarrow> get_right s tmp2;
         s \<leftarrow> set_left s sibling tmp1;
         s \<leftarrow> set_right s tmp2 sibling;
         s \<leftarrow> set_right s parent tmp2;
         s \<leftarrow> when_ptr tmp1 (\<lambda>t. hev_rbtree_node_set_parent_color s t sibling HEV_RBTREE_BLACK) s;
         s \<leftarrow> erase_rotate_left s parent tmp2 sibling;
         Some (s, NULL) } }
     else do { s \<leftarrow> erase_rotate_left s parent sibling tmp1; Some (s, NULL) } }"

definition erase_step_left :: "hev_rbtree \<Rightarrow> ptr \<Rightarrow> (hev_rbtree \<times> ptr) option" where
  "erase_step_left s parent = do {
     (s, sibling) \<leftarrow> erase_sibling_left s parent;
     erase_black_left s parent sibling }"

text \<open>The mirror images, for \<open>node == parent->right\<close>.\<close>

definition erase_sibling_right :: "hev_rbtree \<Rightarrow> ptr \<Rightarrow> (hev_rbtree \<times> ptr) option" where
  "erase_sibling_right s parent = do {
     sibling \<leftarrow> get_left s parent;
     red \<leftarrow> hev_rbtree_node_is_red s sibling;
     if red then do {
       tmp1 \<leftarrow> get_right s sibling;
       s \<leftarrow> set_left s parent tmp1;
       s \<leftarrow> set_right s sibling parent;
       s \<leftarrow> hev_rbtree_node_set_parent_color s tmp1 parent HEV_RBTREE_BLACK;
       s \<leftarrow> hev_rbtree_rotate_set_parents s parent sibling HEV_RBTREE_RED;
       Some (s, tmp1) }
     else Some (s, sibling) }"

definition erase_rotate_right :: "hev_rbtree \<Rightarrow> ptr \<Rightarrow> ptr \<Rightarrow> ptr \<Rightarrow> hev_rbtree option" where
  "erase_rotate_right s parent sibling tmp1 = do {
     tmp2 \<leftarrow> get_right s sibling;
     s \<leftarrow> set_left s parent tmp2;
     s \<leftarrow> set_right s sibling parent;
     s \<leftarrow> hev_rbtree_node_set_parent_color s tmp1 sibling HEV_RBTREE_BLACK;
     s \<leftarrow> when_ptr tmp2 (\<lambda>t. hev_rbtree_node_set_parent s t parent) s;
     hev_rbtree_rotate_set_parents s parent sibling HEV_RBTREE_BLACK }"

definition erase_black_right :: "hev_rbtree \<Rightarrow> ptr \<Rightarrow> ptr \<Rightarrow> (hev_rbtree \<times> ptr) option" where
  "erase_black_right s parent sibling = do {
     tmp1 \<leftarrow> get_left s sibling;
     black1 \<leftarrow> ptr_is_black s tmp1;
     if black1 then do {
       tmp2 \<leftarrow> get_right s sibling;
       black2 \<leftarrow> ptr_is_black s tmp2;
       if black2 then erase_flip s parent sibling
       else do {
         tmp1 \<leftarrow> get_left s tmp2;
         s \<leftarrow> set_right s sibling tmp1;
         s \<leftarrow> set_left s tmp2 sibling;
         s \<leftarrow> set_left s parent tmp2;
         s \<leftarrow> when_ptr tmp1 (\<lambda>t. hev_rbtree_node_set_parent_color s t sibling HEV_RBTREE_BLACK) s;
         s \<leftarrow> erase_rotate_right s parent tmp2 sibling;
         Some (s, NULL) } }
     else do { s \<leftarrow> erase_rotate_right s parent sibling tmp1; Some (s, NULL) } }"

definition erase_step_right :: "hev_rbtree \<Rightarrow> ptr \<Rightarrow> (hev_rbtree \<times> ptr) option" where
  "erase_step_right s parent = do {
     (s, sibling) \<leftarrow> erase_sibling_right s parent;
     erase_black_right s parent sibling }"

partial_function (option) erase_color_loop ::
  "hev_rbtree \<Rightarrow> ptr \<Rightarrow> ptr \<Rightarrow> hev_rbtree option" where
  "erase_color_loop s node parent = do {
     sibling \<leftarrow> get_right s parent;
     (s, parent') \<leftarrow>
       (if node \<noteq> sibling then erase_step_left s parent else erase_step_right s parent);
     if parent' \<noteq> NULL then erase_color_loop s parent parent' else Some s }"

definition hev_rbtree_erase :: "hev_rbtree \<Rightarrow> ptr \<Rightarrow> hev_rbtree option" where
  "hev_rbtree_erase s node = do {
     (s, rebalance) \<leftarrow> erase_unlink s node;
     if rebalance \<noteq> NULL then erase_color_loop s NULL rebalance else Some s }"

end
