(* ===== verification/RBTree_Shape.thy ===== *)
theory RBTree_Shape
  imports RBTree
begin

text \<open>
  What a heap of red-black nodes represents. A tree shape \<open>rbt\<close> records, at every node,
  the address of its struct and its colour; a \<open>frame list\<close> is the path from a position in
  the tree up to the root (a zipper). \<open>tree_at\<close> and \<open>ctx_at\<close> say that the heap holds
  exactly the words of such a shape: child pointers, and the parent pointer packed with the
  colour. \<open>rep\<close> is the representation of a whole tree. The red-black invariants are stated
  on shapes (\<open>rbt_ok\<close>), and on zippers by what a path demands of the subtree in its hole
  (\<open>ctx_ok\<close>).
\<close>

section \<open>Shapes and zippers\<close>

datatype color = Red | Black

datatype rbt = Lf | Nd rbt color ptr rbt

datatype frame = FL color ptr rbt | FR rbt color ptr

fun ptr_of :: "rbt \<Rightarrow> ptr" where
  "ptr_of Lf = NULL"
| "ptr_of (Nd l c a r) = a"

fun inorder :: "rbt \<Rightarrow> ptr list" where
  "inorder Lf = []"
| "inorder (Nd l c a r) = inorder l @ a # inorder r"

fun rb_color :: "rbt \<Rightarrow> color" where
  "rb_color Lf = Black"
| "rb_color (Nd l c a r) = c"

fun paint :: "color \<Rightarrow> rbt \<Rightarrow> rbt" where
  "paint c Lf = Lf"
| "paint c (Nd l _ a r) = Nd l c a r"

fun frame_addr :: "frame \<Rightarrow> ptr" where
  "frame_addr (FL c a r) = a"
| "frame_addr (FR l c a) = a"

fun frame_color :: "frame \<Rightarrow> color" where
  "frame_color (FL c a r) = c"
| "frame_color (FR l c a) = c"

fun fill :: "rbt \<Rightarrow> frame \<Rightarrow> rbt" where
  "fill t (FL c a r) = Nd t c a r"
| "fill t (FR l c a) = Nd l c a t"

fun plug :: "rbt \<Rightarrow> frame list \<Rightarrow> rbt" where
  "plug t [] = t"
| "plug t (f # k) = plug (fill t f) k"

fun parent_of :: "frame list \<Rightarrow> ptr" where
  "parent_of [] = NULL"
| "parent_of (f # k) = frame_addr f"

text \<open>The nodes to the left and to the right of a hole, in key order.\<close>

fun before :: "frame list \<Rightarrow> ptr list" where
  "before [] = []"
| "before (FL c a r # k) = before k"
| "before (FR l c a # k) = before k @ inorder l @ [a]"

fun after :: "frame list \<Rightarrow> ptr list" where
  "after [] = []"
| "after (FL c a r # k) = a # inorder r @ after k"
| "after (FR l c a # k) = after k"

abbreviation ctx_addrs :: "frame list \<Rightarrow> ptr list" where
  "ctx_addrs k \<equiv> before k @ after k"

lemma fill_inorder: "inorder (fill t f) = before [f] @ inorder t @ after [f]"
  by (cases f) auto

lemma inorder_plug [simp]: "inorder (plug t k) = before k @ inorder t @ after k"
  by (induction k arbitrary: t rule: before.induct) auto

lemma inorder_paint [simp]: "inorder (paint c t) = inorder t"
  by (cases t) auto

lemma ptr_of_paint [simp]: "ptr_of (paint c t) = ptr_of t"
  by (cases t) auto

lemma plug_append: "plug t (k @ k') = plug (plug t k) k'"
  by (induction k arbitrary: t) auto

lemma before_append: "before (k @ k') = before k' @ before k"
  by (induction k rule: before.induct) auto

lemma after_append: "after (k @ k') = after k @ after k'"
  by (induction k rule: after.induct) auto

section \<open>The heap of a shape\<close>

fun colw :: "color \<Rightarrow> ptr" where
  "colw Red = HEV_RBTREE_RED"
| "colw Black = HEV_RBTREE_BLACK"

definition pcw :: "ptr \<Rightarrow> color \<Rightarrow> ptr" where
  "pcw p c = p OR colw c"

fun tree_at :: "(ptr \<rightharpoonup> hev_rbtree_node) \<Rightarrow> ptr \<Rightarrow> rbt \<Rightarrow> bool" where
  "tree_at h p Lf \<longleftrightarrow> True"
| "tree_at h p (Nd l c a r) \<longleftrightarrow>
     h a = Some \<lparr>parent_color = pcw p c, node_right = ptr_of r, node_left = ptr_of l\<rparr>
     \<and> aligned a \<and> a \<noteq> NULL \<and> tree_at h a l \<and> tree_at h a r"

fun ctx_at :: "(ptr \<rightharpoonup> hev_rbtree_node) \<Rightarrow> ptr \<Rightarrow> ptr \<Rightarrow> frame list \<Rightarrow> bool" where
  "ctx_at h rt p [] \<longleftrightarrow> rt = p"
| "ctx_at h rt p (FL c a r # k) \<longleftrightarrow>
     h a = Some \<lparr>parent_color = pcw (parent_of k) c, node_right = ptr_of r, node_left = p\<rparr>
     \<and> aligned a \<and> a \<noteq> NULL \<and> tree_at h a r \<and> ctx_at h rt a k"
| "ctx_at h rt p (FR l c a # k) \<longleftrightarrow>
     h a = Some \<lparr>parent_color = pcw (parent_of k) c, node_right = p, node_left = ptr_of l\<rparr>
     \<and> aligned a \<and> a \<noteq> NULL \<and> tree_at h a l \<and> ctx_at h rt a k"

definition rep :: "hev_rbtree \<Rightarrow> rbt \<Rightarrow> bool" where
  "rep s t \<longleftrightarrow> tree_at (nodes s) NULL t \<and> root s = ptr_of t \<and> distinct (inorder t)"

text \<open>A heap in which a position of the tree is in focus.\<close>

definition focus :: "hev_rbtree \<Rightarrow> rbt \<Rightarrow> frame list \<Rightarrow> bool" where
  "focus s t k \<longleftrightarrow> tree_at (nodes s) (parent_of k) t \<and> ctx_at (nodes s) (root s) (ptr_of t) k
     \<and> distinct (before k @ inorder t @ after k)"

lemma tree_ctx_plug:
  "tree_at h NULL (plug t k) \<and> rt = ptr_of (plug t k)
   \<longleftrightarrow> tree_at h (parent_of k) t \<and> ctx_at h rt (ptr_of t) k"
proof (induction k arbitrary: t)
  case Nil
  then show ?case by auto
next
  case (Cons f k)
  then show ?case by (cases f) auto
qed

lemma rep_plug: "rep s (plug t k) \<longleftrightarrow> focus s t k"
  using tree_ctx_plug [of "nodes s" t k "root s"] by (auto simp: rep_def focus_def)

lemma tree_at_cong:
  "(\<And>a. a \<in> set (inorder t) \<Longrightarrow> h' a = h a) \<Longrightarrow> tree_at h' p t = tree_at h p t"
  by (induction t arbitrary: p) auto

lemma tree_at_same:
  "tree_at h p t \<Longrightarrow> (\<And>a. a \<in> set (inorder t) \<Longrightarrow> h' a = h a) \<Longrightarrow> tree_at h' p t"
  using tree_at_cong by blast

lemma tree_at_upd [simp, heap_simps]:
  "a \<notin> set (inorder t) \<Longrightarrow> tree_at (h(a := v)) p t = tree_at h p t"
  by (rule tree_at_cong) auto

lemma ctx_at_cong:
  "(\<And>a. a \<in> set (ctx_addrs k) \<Longrightarrow> h' a = h a) \<Longrightarrow> ctx_at h' rt p k = ctx_at h rt p k"
proof (induction k arbitrary: p)
  case Nil
  then show ?case by simp
next
  case (Cons f k)
  then show ?case
    by (cases f) (auto cong: tree_at_cong)
qed

lemma ctx_at_upd [simp, heap_simps]:
  "a \<notin> set (before k) \<Longrightarrow> a \<notin> set (after k) \<Longrightarrow> ctx_at (h(a := v)) rt p k = ctx_at h rt p k"
  by (rule ctx_at_cong) auto

lemma tree_at_alloc: "tree_at h p t \<Longrightarrow> a \<in> set (inorder t) \<Longrightarrow> h a \<noteq> None \<and> aligned a \<and> a \<noteq> NULL"
  by (induction t arbitrary: p) auto

lemma ptr_of_in: "t \<noteq> Lf \<Longrightarrow> ptr_of t \<in> set (inorder t)"
  by (cases t) auto

lemma ptr_of_null: "tree_at h p t \<Longrightarrow> ptr_of t = NULL \<longleftrightarrow> t = Lf"
  by (cases t) auto

lemma aligned_parent_of [simp]: "ctx_at h rt p k \<Longrightarrow> aligned (parent_of k)"
  by (cases k rule: before.cases) auto

lemma parent_of_null: "ctx_at h rt p k \<Longrightarrow> parent_of k = NULL \<longleftrightarrow> k = []"
  by (cases k rule: before.cases) auto

lemma parent_of_in: "k \<noteq> [] \<Longrightarrow> parent_of k \<in> set (ctx_addrs k)"
  by (cases k rule: before.cases) auto

section \<open>Reading a packed parent and colour back\<close>

lemma pc_parent_pcw [simp, pack_simps]: "aligned p \<Longrightarrow> pc_parent (pcw p c) = p"
  unfolding pc_parent_def pcw_def
  by (cases c) (simp_all only: colw.simps HEV_RBTREE_RED_def HEV_RBTREE_BLACK_def
      tag_clear untagged_clear or.right_neutral)

lemma pc_is_black_pcw [simp, pack_simps]: "aligned p \<Longrightarrow> pc_is_black (pcw p c) \<longleftrightarrow> c = Black"
  by (cases c) (simp_all add: pc_is_black_def pcw_def HEV_RBTREE_RED_def HEV_RBTREE_BLACK_def
      tag_read untagged_read)

lemma pc_color_pcw [simp, pack_simps]: "aligned p \<Longrightarrow> pc_color (pcw p c) = colw c"
  by (cases c) (simp_all add: pc_color_def pcw_def HEV_RBTREE_RED_def HEV_RBTREE_BLACK_def
      tag_read untagged_read)

lemma pcw_Red [simp, pack_simps]: "pcw p Red = p"
  by (simp add: pcw_def HEV_RBTREE_RED_def)

lemmas pc_untagged [simp, pack_simps] =
  pc_parent_pcw [where c = Red, unfolded pcw_Red]
  pc_is_black_pcw [where c = Red, unfolded pcw_Red]
  pc_color_pcw [where c = Red, unfolded pcw_Red]

lemma pcw_fold [pack_simps]:
  "p OR HEV_RBTREE_BLACK = pcw p Black" "p OR HEV_RBTREE_RED = p" "colw c OR p = pcw p c"
  by (simp_all add: pcw_def HEV_RBTREE_RED_def or.commute)

lemma HEV_RBTREE_BLACK_neq [simp]: "HEV_RBTREE_BLACK \<noteq> 0"
  by (simp add: HEV_RBTREE_BLACK_def)

lemma color_and_black [simp]:
  "HEV_RBTREE_RED AND HEV_RBTREE_BLACK = 0" "HEV_RBTREE_BLACK AND HEV_RBTREE_BLACK = HEV_RBTREE_BLACK"
  by (simp_all add: HEV_RBTREE_RED_def)

lemma colw_black [simp]: "colw c AND HEV_RBTREE_BLACK = 0 \<longleftrightarrow> c = Red"
  by (cases c) (simp_all add: HEV_RBTREE_RED_def HEV_RBTREE_BLACK_def)

lemma pcw_set_black [pack_simps]: "pcw p c OR HEV_RBTREE_BLACK = pcw p Black"
  by (cases c) (simp_all add: pcw_def HEV_RBTREE_RED_def or.assoc)

section \<open>The red-black invariants\<close>

fun bheight :: "rbt \<Rightarrow> nat" where
  "bheight Lf = 0"
| "bheight (Nd l c a r) = (if c = Black then Suc (bheight l) else bheight l)"

fun invc :: "rbt \<Rightarrow> bool" where
  "invc Lf \<longleftrightarrow> True"
| "invc (Nd l c a r) \<longleftrightarrow>
     (c = Red \<longrightarrow> rb_color l = Black \<and> rb_color r = Black) \<and> invc l \<and> invc r"

fun invh :: "rbt \<Rightarrow> bool" where
  "invh Lf \<longleftrightarrow> True"
| "invh (Nd l c a r) \<longleftrightarrow> bheight l = bheight r \<and> invh l \<and> invh r"

definition rbt_ok :: "rbt \<Rightarrow> bool" where
  "rbt_ok t \<longleftrightarrow> invc t \<and> invh t \<and> rb_color t = Black"

text \<open>
  \<open>ctx_ok k c n\<close>: the path \<open>k\<close> makes a red-black tree out of a subtree with root colour
  \<open>c\<close> and black height \<open>n\<close>.
\<close>

fun ctx_ok :: "frame list \<Rightarrow> color \<Rightarrow> nat \<Rightarrow> bool" where
  "ctx_ok [] c n \<longleftrightarrow> c = Black"
| "ctx_ok (FL pc a r # k) c n \<longleftrightarrow>
     (pc = Red \<longrightarrow> c = Black \<and> rb_color r = Black) \<and> invc r \<and> invh r \<and> bheight r = n
     \<and> ctx_ok k pc (if pc = Black then Suc n else n)"
| "ctx_ok (FR l pc a # k) c n \<longleftrightarrow>
     (pc = Red \<longrightarrow> c = Black \<and> rb_color l = Black) \<and> invc l \<and> invh l \<and> bheight l = n
     \<and> ctx_ok k pc (if pc = Black then Suc n else n)"

lemma neq_Black [simp]: "c \<noteq> Black \<longleftrightarrow> c = Red"
  by (cases c) auto

lemma neq_Red [simp]: "c \<noteq> Red \<longleftrightarrow> c = Black"
  by (cases c) auto

lemma rbt_ok_plug:
  "rbt_ok (plug t k) \<longleftrightarrow> invc t \<and> invh t \<and> ctx_ok k (rb_color t) (bheight t)"
proof (induction k arbitrary: t)
  case Nil
  then show ?case by (auto simp: rbt_ok_def)
next
  case (Cons f k)
  then show ?case by (cases f) auto
qed

lemma ctx_ok_Black: "ctx_ok k c n \<Longrightarrow> ctx_ok k Black n"
  by (cases k rule: before.cases) auto

lemma paint_id [simp]: "paint (rb_color t) t = t"
  by (cases t) auto

lemma paint_same: "rb_color t = c \<Longrightarrow> paint c t = t"
  by (cases t) auto

lemma invc_paint_Black [simp]: "invc t \<Longrightarrow> invc (paint Black t)"
  by (cases t) auto

lemma invh_paint [simp]: "invh (paint c t) = invh t"
  by (cases t) auto

lemma rb_color_paint_Black [simp]: "rb_color (paint Black t) = Black"
  by (cases t) auto

lemma bheight_paint_Black:
  "bheight (paint Black t) = (if rb_color t = Red then Suc (bheight t) else bheight t)"
  by (cases t) auto

lemma bheight_0_color:
  "invh t \<Longrightarrow> invc t \<Longrightarrow> bheight t = 0 \<Longrightarrow> rb_color t = Black \<Longrightarrow> t = Lf"
  by (cases t) auto

end
