(* ===== verification/RBTree_Insert.thy ===== *)
theory RBTree_Insert
  imports RBTree_Shape
begin

text \<open>
  Insertion. \<open>ins_fix\<close> is the effect of \<open>hev_rbtree_insert_color\<close> on a zipper, case by case
  as the source's comments draw it; \<open>insert_color_loop_refines\<close> shows that the pointer code
  computes it without a fault, and \<open>ins_fix_ok\<close> that it restores the red-black invariants
  and keeps the order of the nodes.
\<close>

section \<open>Executing the pointer code on a known heap\<close>

lemmas rb_access_defs =
  ld_def st_def set_left_def set_right_def set_pc_def get_left_def get_right_def get_pc_def
  hev_rbtree_node_color_def hev_rbtree_node_is_red_def hev_rbtree_node_is_black_def
  hev_rbtree_node_parent_def hev_rbtree_node_red_parent_def hev_rbtree_node_set_black_def
  hev_rbtree_node_set_parent_def ptr_is_red_def ptr_is_black_def when_ptr_def

lemma set_parent_color_pcw:
  "hev_rbtree_node_set_parent_color s p q (colw c) = set_pc s p (pcw q c)"
  "hev_rbtree_node_set_parent_color s p q HEV_RBTREE_RED = set_pc s p q"
  "hev_rbtree_node_set_parent_color s p q HEV_RBTREE_BLACK = set_pc s p (pcw q Black)"
  by (simp_all add: hev_rbtree_node_set_parent_color_def pcw_def HEV_RBTREE_RED_def)

lemmas rb_exec = rb_access_defs set_parent_color_pcw pcw_fold pcw_set_black

lemma change_child_returns:
  assumes "ctx_at (nodes s) (root s) old k" and "old \<noteq> NULL" and "old \<notin> set (ctx_addrs k)"
    and "distinct (ctx_addrs k)"
    and Q: "\<And>s'. ctx_at (nodes s') (root s') new k \<Longrightarrow>
      (\<And>a. a \<notin> set (ctx_addrs k) \<Longrightarrow> nodes s' a = nodes s a) \<Longrightarrow> Q s'"
  shows "returns (hev_rbtree_change_child s old new (parent_of k)) Q"
proof (cases k rule: before.cases)
  case 1
  with assms(1-4) show ?thesis
    by (auto simp: hev_rbtree_change_child_def intro!: Q)
next
  case (2 c a r k')
  with assms(1-4) show ?thesis
    by (auto simp: hev_rbtree_change_child_def rb_exec intro!: Q)
next
  case (3 l c a k')
  have "ptr_of l \<noteq> old"
    using assms(1-4) 3 by (cases l) auto
  with assms(1-4) 3 show ?thesis
    by (auto simp: hev_rbtree_change_child_def rb_exec intro!: Q)
qed

text \<open>
  A rotation hands the parent link and the colour of \<open>old\<close> to \<open>new\<close> and hangs \<open>old\<close> below
  \<open>new\<close>; the rest of the heap, child links included, is untouched.
\<close>

lemma rotate_set_parents_returns:
  assumes ctx: "ctx_at (nodes s) (root s) old k" and "distinct (ctx_addrs k)"
    and "nodes s old \<noteq> None" "nodes s new \<noteq> None"
    and "parent_color (the (nodes s old)) = pcw (parent_of k) c"
    and "old \<noteq> NULL" "old \<notin> set (ctx_addrs k)" "new \<notin> set (ctx_addrs k)" "old \<noteq> new"
    and Q: "\<And>s'. ctx_at (nodes s') (root s') new k \<Longrightarrow>
      nodes s' new = Some ((the (nodes s new))\<lparr>parent_color := pcw (parent_of k) c\<rparr>) \<Longrightarrow>
      nodes s' old = Some ((the (nodes s old))\<lparr>parent_color := pcw new c'\<rparr>) \<Longrightarrow>
      (\<And>a. a \<notin> set (ctx_addrs k) \<Longrightarrow> a \<noteq> old \<Longrightarrow> a \<noteq> new \<Longrightarrow> nodes s' a = nodes s a) \<Longrightarrow> Q s'"
  shows "returns (hev_rbtree_rotate_set_parents s old new (colw c')) Q"
proof -
  obtain no nn where n: "nodes s old = Some no" "nodes s new = Some nn"
    using assms by auto
  show ?thesis
    using assms(1-9) n aligned_parent_of [OF ctx]
    by (simp add: hev_rbtree_rotate_set_parents_def rb_exec)
      (rule change_child_returns; auto intro!: Q)
qed

definition same_outside :: "ptr set \<Rightarrow> hev_rbtree \<Rightarrow> hev_rbtree \<Rightarrow> bool" where
  "same_outside A s s' \<longleftrightarrow> (\<forall>a. a \<notin> A \<longrightarrow> nodes s' a = nodes s a)"

lemma same_outside_trans:
  "same_outside S s0 s \<Longrightarrow> (\<And>a. a \<notin> S \<Longrightarrow> nodes s' a = nodes s a) \<Longrightarrow> same_outside S s0 s'"
  by (simp add: same_outside_def)

text \<open>The two rotations, as the zipper sees them.\<close>

lemma rotate_right_focus:
  assumes ctx: "ctx_at (nodes s) (root s) old k"
    and old: "nodes s old = Some \<lparr>parent_color = pcw (parent_of k) c, node_right = ptr_of C, node_left = ptr_of B\<rparr>"
    and new: "nodes s new = Some \<lparr>parent_color = w, node_right = old, node_left = ptr_of A\<rparr>"
    and sub: "tree_at (nodes s) new A" "tree_at (nodes s) old B" "tree_at (nodes s) old C"
    and al: "aligned old" "old \<noteq> NULL" "aligned new" "new \<noteq> NULL"
    and d: "distinct (before k @ inorder A @ new # inorder B @ old # inorder C @ after k)"
    and S: "same_outside S s0 s" "insert old (insert new (set (ctx_addrs k))) \<subseteq> S"
  shows "returns (hev_rbtree_rotate_set_parents s old new (colw c')) (\<lambda>s'.
      focus s' (Nd A c new (Nd B c' old C)) k \<and> same_outside S s0 s')"
proof (rule rotate_set_parents_returns [OF ctx, where c = c])
  fix s' :: hev_rbtree
  assume o: "\<And>a. a \<notin> set (ctx_addrs k) \<Longrightarrow> a \<noteq> old \<Longrightarrow> a \<noteq> new \<Longrightarrow> nodes s' a = nodes s a"
    and n: "ctx_at (nodes s') (root s') new k"
      "nodes s' new = Some ((the (nodes s new))\<lparr>parent_color := pcw (parent_of k) c\<rparr>)"
      "nodes s' old = Some ((the (nodes s old))\<lparr>parent_color := pcw new c'\<rparr>)"
  have "tree_at (nodes s') new A" "tree_at (nodes s') old B" "tree_at (nodes s') old C"
    using d by (auto intro!: tree_at_same [OF sub(1)] tree_at_same [OF sub(2)] tree_at_same [OF sub(3)] o)
  with n old new al d have "focus s' (Nd A c new (Nd B c' old C)) k"
    by (auto simp: focus_def)
  moreover have "same_outside S s0 s'"
    using S(1) by (rule same_outside_trans, intro o) (use S(2) in auto)
  ultimately show "focus s' (Nd A c new (Nd B c' old C)) k \<and> same_outside S s0 s'" ..
qed (use assms in auto)

lemma rotate_left_focus:
  assumes ctx: "ctx_at (nodes s) (root s) old k"
    and old: "nodes s old = Some \<lparr>parent_color = pcw (parent_of k) c, node_right = ptr_of B, node_left = ptr_of A\<rparr>"
    and new: "nodes s new = Some \<lparr>parent_color = w, node_right = ptr_of C, node_left = old\<rparr>"
    and sub: "tree_at (nodes s) old A" "tree_at (nodes s) old B" "tree_at (nodes s) new C"
    and al: "aligned old" "old \<noteq> NULL" "aligned new" "new \<noteq> NULL"
    and d: "distinct (before k @ inorder A @ old # inorder B @ new # inorder C @ after k)"
    and S: "same_outside S s0 s" "insert old (insert new (set (ctx_addrs k))) \<subseteq> S"
  shows "returns (hev_rbtree_rotate_set_parents s old new (colw c')) (\<lambda>s'.
      focus s' (Nd (Nd A c' old B) c new C) k \<and> same_outside S s0 s')"
proof (rule rotate_set_parents_returns [OF ctx, where c = c])
  fix s' :: hev_rbtree
  assume o: "\<And>a. a \<notin> set (ctx_addrs k) \<Longrightarrow> a \<noteq> old \<Longrightarrow> a \<noteq> new \<Longrightarrow> nodes s' a = nodes s a"
    and n: "ctx_at (nodes s') (root s') new k"
      "nodes s' new = Some ((the (nodes s new))\<lparr>parent_color := pcw (parent_of k) c\<rparr>)"
      "nodes s' old = Some ((the (nodes s old))\<lparr>parent_color := pcw new c'\<rparr>)"
  have "tree_at (nodes s') old A" "tree_at (nodes s') old B" "tree_at (nodes s') new C"
    using d by (auto intro!: tree_at_same [OF sub(1)] tree_at_same [OF sub(2)] tree_at_same [OF sub(3)] o)
  with n old new al d have "focus s' (Nd (Nd A c' old B) c new C) k"
    by (auto simp: focus_def)
  moreover have "same_outside S s0 s'"
    using S(1) by (rule same_outside_trans, intro o) (use S(2) in auto)
  ultimately show "focus s' (Nd (Nd A c' old B) c new C) k \<and> same_outside S s0 s'" ..
qed (use assms in auto)

lemmas rotate_focus =
  rotate_right_focus [where c' = Red, simplified colw.simps]
  rotate_right_focus [where c' = Black, simplified colw.simps]
  rotate_left_focus [where c' = Red, simplified colw.simps]
  rotate_left_focus [where c' = Black, simplified colw.simps]

section \<open>The effect on shapes\<close>

fun ins_fix :: "rbt \<Rightarrow> frame list \<Rightarrow> rbt option" where
  "ins_fix t [] = Some (paint Black t)"
| "ins_fix t [f] = (if frame_color f = Black then Some (plug t [f]) else None)"
| "ins_fix t (f # g # k) =
     (if frame_color f = Black then Some (plug t (f # g # k))
      else case g of
        FL gc ga u \<Rightarrow>
          if rb_color u = Red
          then ins_fix (Nd (paint Black (fill t f)) Red ga (paint Black u)) k
          else (case f of
              FL _ pa b \<Rightarrow> Some (plug (Nd t gc pa (Nd (paint Black b) Red ga u)) k)
            | FR a _ pa \<Rightarrow> (case t of
                Lf \<Rightarrow> None
              | Nd x _ n y \<Rightarrow>
                  Some (plug (Nd (Nd a Red pa (paint Black x)) gc n (Nd (paint Black y) Red ga u)) k)))
      | FR u gc ga \<Rightarrow>
          if rb_color u = Red
          then ins_fix (Nd (paint Black u) Red ga (paint Black (fill t f))) k
          else (case f of
              FR b _ pa \<Rightarrow> Some (plug (Nd (Nd u Red ga (paint Black b)) gc pa t) k)
            | FL _ pa a \<Rightarrow> (case t of
                Lf \<Rightarrow> None
              | Nd x _ n y \<Rightarrow>
                  Some (plug (Nd (Nd u Red ga (paint Black x)) gc n (Nd (paint Black y) Red pa a)) k))))"

theorem ins_fix_inorder:
  "ins_fix t k = Some t' \<Longrightarrow> inorder t' = before k @ inorder t @ after k"
proof (induction t k arbitrary: t' rule: ins_fix.induct)
  case (3 t f g k)
  then show ?case
    by (cases f; cases g; cases t) (auto split: if_splits)
qed (auto split: if_splits simp: fill_inorder)

theorem ins_fix_ok:
  assumes "rb_color t = Red" "invc t" "invh t" "ctx_ok k Black (bheight t)"
  shows "\<exists>t'. ins_fix t k = Some t' \<and> rbt_ok t'"
  using assms
proof (induction t k rule: ins_fix.induct)
  case (1 t)
  then show ?case by (auto simp: rbt_ok_def)
next
  case (2 t f)
  then show ?case by (cases f) (auto simp: rbt_ok_def)
next
  case (3 t f g k)
  show ?case
  proof (cases "frame_color f = Black")
    case True
    with 3 show ?thesis by (cases f; cases g) (auto simp: rbt_ok_plug)
  next
    case False
    with 3 show ?thesis
      by (cases f; cases g; cases t)
        (auto simp: rbt_ok_plug paint_same bheight_paint_Black)
  qed
qed

section \<open>The pointer code computes that effect\<close>

text \<open>
  Once the stores before the rotation are executed, what is left is one of the
  \<open>rotate_focus\<close> rules, whose premises are facts about the stored-to heap.
\<close>

lemma focus_ne_sibling:
  "focus s t (FL c a r # k) \<Longrightarrow> t \<noteq> Lf \<Longrightarrow> ptr_of t \<noteq> ptr_of r"
  "focus s t (FR l c a # k) \<Longrightarrow> t \<noteq> Lf \<Longrightarrow> ptr_of t \<noteq> ptr_of l"
  by (cases t; cases r; auto simp: focus_def) (cases t; cases l; auto simp: focus_def)

lemma insert_rotate_left_outer:
  assumes "focus s t (FL Red pa b # FL gc ga u # k)" and "t \<noteq> Lf"
  shows "returns (insert_rotate_left s (ptr_of t) pa ga) (\<lambda>s'.
      focus s' (Nd t gc pa (Nd (paint Black b) Red ga u)) k
      \<and> same_outside (set (inorder (plug t (FL Red pa b # FL gc ga u # k)))) s s')"
  using assms(1) [unfolded focus_def] focus_ne_sibling(1) [OF assms]
  by (cases b; clarsimp simp: insert_rotate_left_def rb_exec)
    (rule rotate_focus; auto simp: same_outside_def)+

lemma insert_rotate_left_inner:
  assumes "focus s (Nd x tc n y) (FR a Red pa # FL gc ga u # k)"
  shows "returns (insert_rotate_left s n pa ga) (\<lambda>s'.
      focus s' (Nd (Nd a Red pa (paint Black x)) gc n (Nd (paint Black y) Red ga u)) k
      \<and> same_outside (set (inorder (plug (Nd x tc n y) (FR a Red pa # FL gc ga u # k)))) s s')"
  using assms(1) [unfolded focus_def]
  by (cases x; cases y; clarsimp; simp add: insert_rotate_left_def rb_exec)
    (rule rotate_focus; auto simp: same_outside_def)+

lemma insert_rotate_right_outer:
  assumes "focus s t (FR b Red pa # FR u gc ga # k)" and "t \<noteq> Lf"
  shows "returns (insert_rotate_right s (ptr_of t) pa ga) (\<lambda>s'.
      focus s' (Nd (Nd u Red ga (paint Black b)) gc pa t) k
      \<and> same_outside (set (inorder (plug t (FR b Red pa # FR u gc ga # k)))) s s')"
  using assms(1) [unfolded focus_def] focus_ne_sibling(2) [OF assms]
  by (cases b; clarsimp simp: insert_rotate_right_def rb_exec)
    (rule rotate_focus; auto simp: same_outside_def)+

lemma insert_rotate_right_inner:
  assumes "focus s (Nd x tc n y) (FL Red pa a # FR u gc ga # k)"
  shows "returns (insert_rotate_right s n pa ga) (\<lambda>s'.
      focus s' (Nd (Nd u Red ga (paint Black x)) gc n (Nd (paint Black y) Red pa a)) k
      \<and> same_outside (set (inorder (plug (Nd x tc n y) (FL Red pa a # FR u gc ga # k)))) s s')"
  using assms(1) [unfolded focus_def]
  by (cases x; cases y; clarsimp; simp add: insert_rotate_right_def rb_exec)
    (rule rotate_focus; auto simp: same_outside_def)+


lemma same_outside_refl [simp]: "same_outside A s s"
  by (simp add: same_outside_def)

lemma same_outside_chain:
  "same_outside A s s' \<Longrightarrow> same_outside A s' s'' \<Longrightarrow> same_outside A s s''"
  by (simp add: same_outside_def)

lemma insert_flip_left:
  assumes "focus s t (f # FL gc ga u # k)" "rb_color u = Red"
  shows "returns (insert_flip s (ptr_of u) (frame_addr f) ga) (\<lambda>(s', p). p = parent_of k
      \<and> focus s' (Nd (paint Black (fill t f)) Red ga (paint Black u)) k
      \<and> same_outside (set (inorder (plug t (f # FL gc ga u # k)))) s s')"
  using assms [unfolded focus_def] aligned_parent_of [of "nodes s" "root s" ga k]
  by (cases f; cases u; clarsimp; simp add: insert_flip_def rb_exec focus_def same_outside_def; blast)

lemma insert_flip_right:
  assumes "focus s t (f # FR u gc ga # k)" "rb_color u = Red"
  shows "returns (insert_flip s (ptr_of u) (frame_addr f) ga) (\<lambda>(s', p). p = parent_of k
      \<and> focus s' (Nd (paint Black u) Red ga (paint Black (fill t f))) k
      \<and> same_outside (set (inorder (plug t (f # FR u gc ga # k)))) s s')"
  using assms [unfolded focus_def] aligned_parent_of [of "nodes s" "root s" ga k]
  by (cases f; cases u; clarsimp; simp add: insert_flip_def rb_exec focus_def same_outside_def; blast)

lemma focus_is_black:
  "focus s t (f # k) \<Longrightarrow> hev_rbtree_node_is_black s (frame_addr f) = Some (frame_color f = Black)"
  by (cases f) (auto simp: rb_exec focus_def dest: aligned_parent_of)

lemma focus_red_parent:
  "focus s t (f # k) \<Longrightarrow> frame_color f = Red \<Longrightarrow>
   hev_rbtree_node_red_parent s (frame_addr f) = Some (parent_of k)"
  by (cases f) (auto simp: rb_exec focus_def)

lemma ptr_is_red_tree:
  "tree_at (nodes s) p u \<Longrightarrow> aligned p \<Longrightarrow> ptr_is_red s (ptr_of u) = Some (rb_color u = Red)"
  by (cases u) (auto simp: rb_exec)

lemma focus_up: "focus s t (f # k) \<longleftrightarrow> focus s (fill t f) k"
  by (simp flip: rep_plug)

lemma ptr_of_fill [simp]: "ptr_of (fill t f) = frame_addr f" and fill_neq_Lf [simp]: "fill t f \<noteq> Lf"
  by (cases f; simp)+

text \<open>One pass through the loop body, up to the branch on the uncle's colour.\<close>

lemma insert_color_loop_left:
  assumes "focus s t (f # FL gc ga u # k)" "frame_color f = Red"
  shows "insert_color_loop s n (frame_addr f) =
    (if rb_color u = Red
     then insert_flip s (ptr_of u) (frame_addr f) ga \<bind> (\<lambda>(s, p). insert_color_loop s ga p)
     else insert_rotate_left s n (frame_addr f) ga)"
proof -
  have up: "focus s (fill t f) (FL gc ga u # k)"
    using assms(1) focus_up by blast
  have "frame_addr f \<noteq> ptr_of u" "frame_addr f \<noteq> NULL"
    using focus_ne_sibling(1) [OF up] up by (auto simp: focus_def) (cases f; auto)
  moreover have "get_right s ga = Some (ptr_of u)" "ptr_is_red s (ptr_of u) = Some (rb_color u = Red)"
    using up ptr_is_red_tree [of s ga u] by (auto simp: focus_def rb_exec)
  ultimately show ?thesis
    using assms by (subst insert_color_loop.simps) (simp add: focus_is_black [OF assms(1)] focus_red_parent)
qed

lemma insert_color_loop_right:
  assumes "focus s t (f # FR u gc ga # k)" "frame_color f = Red"
  shows "insert_color_loop s n (frame_addr f) =
    (if rb_color u = Red
     then insert_flip s (ptr_of u) (frame_addr f) ga \<bind> (\<lambda>(s, p). insert_color_loop s ga p)
     else insert_rotate_right s n (frame_addr f) ga)"
proof -
  have up: "focus s (fill t f) (FR u gc ga # k)"
    using assms(1) focus_up by blast
  have "frame_addr f \<noteq> NULL"
    using up by (cases f) (auto simp: focus_def)
  moreover have "get_right s ga = Some (frame_addr f)" "get_left s ga = Some (ptr_of u)"
    "ptr_is_red s (ptr_of u) = Some (rb_color u = Red)"
    using up ptr_is_red_tree [of s ga u] by (auto simp: focus_def rb_exec)
  ultimately show ?thesis
    using assms by (subst insert_color_loop.simps) (simp add: focus_is_black [OF assms(1)] focus_red_parent)
qed

lemma insert_color_loop_black:
  assumes "focus s t (f # k)" "frame_color f = Black"
  shows "insert_color_loop s n (frame_addr f) = Some s"
  using focus_is_black [OF assms(1)] assms
  by (subst insert_color_loop.simps) (cases f; auto simp: focus_def)

definition rebalanced :: "rbt \<Rightarrow> frame list \<Rightarrow> hev_rbtree \<Rightarrow> rbt \<Rightarrow> hev_rbtree \<Rightarrow> bool" where
  "rebalanced t k s t' s' \<longleftrightarrow> rep s' t' \<and> same_outside (set (inorder (plug t k))) s s'"

lemma rebalanced_focus:
  "returns m (\<lambda>s'. focus s' u k \<and> same_outside (set (inorder (plug t k'))) s s') \<Longrightarrow> t' = plug u k \<Longrightarrow>
   returns m (rebalanced t k' s t')"
  by (erule returns_mono) (simp add: rebalanced_def rep_plug)


lemma insert_step_left:
  assumes fc: "focus s t (f # FL gc ga u # k)" "frame_color f = Red" and "t \<noteq> Lf"
    and ins: "ins_fix t (f # FL gc ga u # k) = Some t'"
    and rec: "\<And>s'. rb_color u = Red \<Longrightarrow> focus s' (Nd (paint Black (fill t f)) Red ga (paint Black u)) k \<Longrightarrow>
      returns (insert_color_loop s' ga (parent_of k))
        (rebalanced (Nd (paint Black (fill t f)) Red ga (paint Black u)) k s' t')"
  shows "returns (insert_color_loop s (ptr_of t) (frame_addr f)) (rebalanced t (f # FL gc ga u # k) s t')"
proof (cases "rb_color u = Red")
  case True
  show ?thesis
    using insert_flip_left [OF fc(1) True] rec [OF True] True
    by (force simp: insert_color_loop_left [OF fc] rebalanced_def
        intro: same_outside_chain elim!: returns_mono)
next
  case False
  then show ?thesis
    using assms(1-4) unfolding insert_color_loop_left [OF fc]
    by (cases f; cases t) (use rebalanced_focus [OF insert_rotate_left_outer [of s t]] in
        \<open>auto intro: rebalanced_focus insert_rotate_left_inner\<close>)
qed

lemma insert_step_right:
  assumes fc: "focus s t (f # FR u gc ga # k)" "frame_color f = Red" and "t \<noteq> Lf"
    and ins: "ins_fix t (f # FR u gc ga # k) = Some t'"
    and rec: "\<And>s'. rb_color u = Red \<Longrightarrow> focus s' (Nd (paint Black u) Red ga (paint Black (fill t f))) k \<Longrightarrow>
      returns (insert_color_loop s' ga (parent_of k))
        (rebalanced (Nd (paint Black u) Red ga (paint Black (fill t f))) k s' t')"
  shows "returns (insert_color_loop s (ptr_of t) (frame_addr f)) (rebalanced t (f # FR u gc ga # k) s t')"
proof (cases "rb_color u = Red")
  case True
  show ?thesis
    using insert_flip_right [OF fc(1) True] rec [OF True] True
    by (force simp: insert_color_loop_right [OF fc] rebalanced_def
        intro: same_outside_chain elim!: returns_mono)
next
  case False
  then show ?thesis
    using assms(1-4) unfolding insert_color_loop_right [OF fc]
    by (cases f; cases t) (use rebalanced_focus [OF insert_rotate_right_outer [of s t]] in
        \<open>auto intro: rebalanced_focus insert_rotate_right_inner\<close>)
qed

theorem insert_color_loop_refines:
  assumes "ins_fix t k = Some t'" "focus s t k" "t \<noteq> Lf"
  shows "returns (insert_color_loop s (ptr_of t) (parent_of k)) (rebalanced t k s t')"
  using assms
proof (induction t k arbitrary: s rule: ins_fix.induct)
  case (1 t)
  then show ?case
    by (cases t) (auto simp: insert_color_loop.simps rb_exec rep_def focus_def same_outside_def rebalanced_def)
next
  case (2 t f)
  then show ?case
    by (auto simp: insert_color_loop_black rebalanced_def rep_plug [of s t "[f]", simplified]
        split: if_splits)
next
  case (3 t f g k)
  consider (black) "frame_color f = Black" | (red) "frame_color f = Red" by (cases "frame_color f")
  then show ?case
  proof cases
    case black
    with 3 show ?thesis
      by (auto simp: insert_color_loop_black rebalanced_def rep_plug [of s t "f # g # k", simplified])
  next
    case red
    show ?thesis
    proof (cases g)
      case (FL gc ga u)
      show ?thesis
        using insert_step_left [OF _ red 3(5), of s gc ga u k t'] 3(1) [OF _ FL] 3(3,4) FL red
        by (cases "rb_color u") auto
    next
      case (FR u gc ga)
      show ?thesis
        using insert_step_right [OF _ red 3(5), of s u gc ga k t'] 3(2) [OF _ FR] 3(3,4) FR red
        by (cases "rb_color u") auto
    qed
  qed
qed


section \<open>Linking a new node and rebalancing\<close>

fun link_of :: "frame list \<Rightarrow> link" where
  "link_of [] = LinkRoot"
| "link_of (FL c a r # k) = LinkLeft a"
| "link_of (FR l c a # k) = LinkRight a"

definition rb_insert_at :: "hev_rbtree \<Rightarrow> ptr \<Rightarrow> ptr \<Rightarrow> link \<Rightarrow> hev_rbtree option" where
  "rb_insert_at s node parent l = do {
     s \<leftarrow> hev_rbtree_node_link s node parent l;
     hev_rbtree_insert_color s node }"

lemma node_link_focus:
  assumes "rep s (plug Lf k)" "nodes s n \<noteq> None" "aligned n" "n \<noteq> NULL" "n \<notin> set (ctx_addrs k)"
  shows "returns (hev_rbtree_node_link s n (parent_of k) (link_of k)) (\<lambda>s'.
      focus s' (Nd Lf Red n Lf) k \<and> same_outside (insert n (set (ctx_addrs k))) s s')"
  using assms(1) [unfolded rep_plug focus_def] assms(2-)
  by (cases k rule: before.cases)
    (clarsimp; simp add: hev_rbtree_node_link_def store_link_def rb_exec focus_def same_outside_def; blast)+

theorem rb_insert_at_correct:
  assumes "rep s (plug Lf k)" "rbt_ok (plug Lf k)"
    and "nodes s n \<noteq> None" "aligned n" "n \<noteq> NULL" "n \<notin> set (ctx_addrs k)"
  shows "\<exists>s' t'. rb_insert_at s n (parent_of k) (link_of k) = Some s' \<and> rep s' t' \<and> rbt_ok t'
      \<and> inorder t' = before k @ n # after k \<and> same_outside (insert n (set (ctx_addrs k))) s s'"
proof -
  obtain s1 where s1: "hev_rbtree_node_link s n (parent_of k) (link_of k) = Some s1"
    "focus s1 (Nd Lf Red n Lf) k" "same_outside (insert n (set (ctx_addrs k))) s s1"
    using node_link_focus [OF assms(1,3-)] by (auto simp: returns_def)
  have "ctx_ok k Black 0"
    using assms(2) by (simp add: rbt_ok_plug)
  then obtain t' where t': "ins_fix (Nd Lf Red n Lf) k = Some t'" "rbt_ok t'"
    using ins_fix_ok [of "Nd Lf Red n Lf" k] by auto
  have "hev_rbtree_insert_color s1 n = insert_color_loop s1 n (parent_of k)"
    using s1(2) by (simp add: hev_rbtree_insert_color_def focus_def rb_exec)
  then show ?thesis
    using insert_color_loop_refines [OF t'(1) s1(2)] s1 t' ins_fix_inorder [OF t'(1)]
    by (auto simp: returns_def rb_insert_at_def rebalanced_def intro: same_outside_chain)
qed


end
