(* ===== verification/RBTree_Erase.thy ===== *)
theory RBTree_Erase
  imports RBTree_Insert
begin

text \<open>
  The second half of erasure. \<open>del_fix\<close> is what \<open>_hev_rbtree_erase_color\<close> does to a position
  whose subtree is one black node short; \<open>del_fix_ok\<close> shows that it restores the red-black
  invariants and keeps the order of the nodes, \<open>erase_color_loop_refines\<close> that the pointer
  code computes it, without a fault and in finitely many iterations.
\<close>

section \<open>The effect of rebalancing on shapes\<close>

fun del_black_left :: "rbt \<Rightarrow> color \<Rightarrow> ptr \<Rightarrow> rbt \<Rightarrow> ptr \<Rightarrow> rbt \<Rightarrow> rbt \<times> bool" where
  "del_black_left t pc pa sl sa sr =
     (if rb_color sr = Black then
        (if rb_color sl = Black then (Nd t Black pa (Nd sl Red sa sr), pc = Black)
         else case sl of
             Lf \<Rightarrow> (Lf, False)
           | Nd x _ b y \<Rightarrow> (Nd (Nd t Black pa x) pc b (Nd (paint Black y) Black sa sr), False))
      else (Nd (Nd t Black pa sl) pc sa (paint Black sr), False))"

fun del_black_right :: "rbt \<Rightarrow> color \<Rightarrow> ptr \<Rightarrow> rbt \<Rightarrow> ptr \<Rightarrow> rbt \<Rightarrow> rbt \<times> bool" where
  "del_black_right t pc pa sl sa sr =
     (if rb_color sl = Black then
        (if rb_color sr = Black then (Nd (Nd sl Red sa sr) Black pa t, pc = Black)
         else case sr of
             Lf \<Rightarrow> (Lf, False)
           | Nd x _ b y \<Rightarrow> (Nd (Nd sl Black sa (paint Black x)) pc b (Nd y Black pa t), False))
      else (Nd (paint Black sl) pc sa (Nd sr Black pa t), False))"

text \<open>
  A red sibling is rotated away first; its parent is red afterwards, so that the second half
  of the step never hands the deficit further up.
\<close>

fun del_fix :: "rbt \<Rightarrow> frame list \<Rightarrow> rbt option" where
  "del_fix t [] = Some t"
| "del_fix t (FL pc pa (Nd sl Black sa sr) # k) =
     (case del_black_left t pc pa sl sa sr of (u, up) \<Rightarrow> if up then del_fix u k else Some (plug u k))"
| "del_fix t (FL pc pa (Nd (Nd a _ b c) Red sa sr) # k) =
     Some (plug (fst (del_black_left t Red pa a b c)) (FL pc sa sr # k))"
| "del_fix t (FR (Nd sl Black sa sr) pc pa # k) =
     (case del_black_right t pc pa sl sa sr of (u, up) \<Rightarrow> if up then del_fix u k else Some (plug u k))"
| "del_fix t (FR (Nd sl Red sa (Nd a _ b c)) pc pa # k) =
     Some (plug (fst (del_black_right t Red pa a b c)) (FR sl pc sa # k))"
| "del_fix t _ = None"

lemma del_black_left_ok:
  assumes "invc t" "invh t" "rb_color t = Black" "invc sl" "invh sl" "invc sr" "invh sr"
    and "bheight sl = bheight t" "bheight sr = bheight t" "del_black_left t pc pa sl sa sr = (u, up)"
  shows "inorder u = inorder t @ pa # inorder sl @ sa # inorder sr" "invc u" "invh u"
    "if up then rb_color u = Black \<and> pc = Black \<and> bheight u = Suc (bheight t)
     else rb_color u \<in> {pc, Black} \<and> bheight u = (if pc = Red then Suc (bheight t) else Suc (Suc (bheight t)))"
  using assms by (cases sl; cases sr; auto split: if_splits simp: bheight_paint_Black paint_same)+

lemma del_black_right_ok:
  assumes "invc t" "invh t" "rb_color t = Black" "invc sl" "invh sl" "invc sr" "invh sr"
    and "bheight sl = bheight t" "bheight sr = bheight t" "del_black_right t pc pa sl sa sr = (u, up)"
  shows "inorder u = inorder sl @ sa # inorder sr @ pa # inorder t" "invc u" "invh u"
    "if up then rb_color u = Black \<and> pc = Black \<and> bheight u = Suc (bheight t)
     else rb_color u \<in> {pc, Black} \<and> bheight u = (if pc = Red then Suc (bheight t) else Suc (Suc (bheight t)))"
  using assms by (cases sl; cases sr; auto split: if_splits simp: bheight_paint_Black paint_same)+


lemma ctx_ok_weaken: "ctx_ok k c n \<Longrightarrow> c' \<in> {c, Black} \<Longrightarrow> ctx_ok k c' n"
  using ctx_ok_Black by auto

theorem del_fix_ok:
  assumes "invc t" "invh t" "rb_color t = Black" "ctx_ok k Black (Suc (bheight t))"
  shows "\<exists>t'. del_fix t k = Some t' \<and> rbt_ok t' \<and> inorder t' = before k @ inorder t @ after k"
  using assms
proof (induction t k rule: del_fix.induct)
  case (1 t)
  then show ?case by (simp add: rbt_ok_def)
next
  case (2 t pc pa sl sa sr k)
  obtain u up where u: "del_black_left t pc pa sl sa sr = (u, up)" by fastforce
  have pre: "invc sl" "invh sl" "invc sr" "invh sr" "bheight sl = bheight t" "bheight sr = bheight t"
    using 2(5) by auto
  note ok = del_black_left_ok [OF 2(2-4) pre u]
  show ?case
  proof (cases up)
    case True
    with 2 ok u show ?thesis by (simp del: del_black_left.simps)
  next
    case False
    with 2 ok u show ?thesis
      by (auto simp: rbt_ok_plug simp del: del_black_left.simps intro: ctx_ok_weaken)
  qed
next
  case (3 t pc pa a cc b c sa sr k)
  obtain u up where u: "del_black_left t Red pa a b c = (u, up)" by fastforce
  have pre: "invc a" "invh a" "invc c" "invh c" "bheight a = bheight t" "bheight c = bheight t"
    using 3(4) by auto
  show ?case
    using del_black_left_ok [OF 3(1-3) pre u] 3 u
    by (auto simp: rbt_ok_plug simp del: del_black_left.simps split: if_splits)
next
  case (4 t sl sa sr pc pa k)
  obtain u up where u: "del_black_right t pc pa sl sa sr = (u, up)" by fastforce
  have pre: "invc sl" "invh sl" "invc sr" "invh sr" "bheight sl = bheight t" "bheight sr = bheight t"
    using 4(5) by auto
  note ok = del_black_right_ok [OF 4(2-4) pre u]
  show ?case
  proof (cases up)
    case True
    with 4 ok u show ?thesis by (simp del: del_black_right.simps)
  next
    case False
    with 4 ok u show ?thesis
      by (auto simp: rbt_ok_plug simp del: del_black_right.simps intro: ctx_ok_weaken)
  qed
next
  case (5 t sl sa a cc b c pc pa k)
  obtain u up where u: "del_black_right t Red pa a b c = (u, up)" by fastforce
  have pre: "invc a" "invh a" "invc c" "invh c" "bheight a = bheight t" "bheight c = bheight t"
    using 5(4) by auto
  show ?case
    using del_black_right_ok [OF 5(1-3) pre u] 5 u
    by (auto simp: rbt_ok_plug simp del: del_black_right.simps split: if_splits)
qed auto

section \<open>The pointer code computes that effect\<close>

lemma ptr_is_black_tree:
  "tree_at (nodes s) p u \<Longrightarrow> aligned p \<Longrightarrow> ptr_is_black s (ptr_of u) = Some (rb_color u = Black)"
  by (cases u) (auto simp: rb_exec)

lemma erase_flip_left:
  assumes "focus s t (FL pc pa (Nd sl Black sa sr) # k)"
  shows "returns (erase_flip s pa sa) (\<lambda>(s', p). p = (if pc = Black then parent_of k else NULL)
      \<and> focus s' (Nd t Black pa (Nd sl Red sa sr)) k
      \<and> same_outside (set (inorder (plug t (FL pc pa (Nd sl Black sa sr) # k)))) s s')"
  using assms [unfolded focus_def] aligned_parent_of [of "nodes s" "root s" pa k]
  by (cases pc; clarsimp; simp add: erase_flip_def rb_exec focus_def same_outside_def)

lemma erase_flip_right:
  assumes "focus s t (FR (Nd sl Black sa sr) pc pa # k)"
  shows "returns (erase_flip s pa sa) (\<lambda>(s', p). p = (if pc = Black then parent_of k else NULL)
      \<and> focus s' (Nd (Nd sl Red sa sr) Black pa t) k
      \<and> same_outside (set (inorder (plug t (FR (Nd sl Black sa sr) pc pa # k)))) s s')"
  using assms [unfolded focus_def] aligned_parent_of [of "nodes s" "root s" pa k]
  by (cases pc; clarsimp; simp add: erase_flip_def rb_exec focus_def same_outside_def)

lemma erase_rotate_left_focus:
  assumes "focus s t (FL pc pa (Nd sl sc sa sr) # k)" "sr \<noteq> Lf"
  shows "returns (erase_rotate_left s pa sa (ptr_of sr)) (\<lambda>s'.
      focus s' (Nd (Nd t Black pa sl) pc sa (paint Black sr)) k
      \<and> same_outside (set (inorder (plug t (FL pc pa (Nd sl sc sa sr) # k)))) s s')"
  using assms(1) [unfolded focus_def] assms(2)
  by (cases sl; cases sr; clarsimp; simp add: erase_rotate_left_def rb_exec)
    (rule rotate_focus; auto simp: same_outside_def)+

lemma erase_rotate_right_focus:
  assumes "focus s t (FR (Nd sl sc sa sr) pc pa # k)" "sl \<noteq> Lf"
  shows "returns (erase_rotate_right s pa sa (ptr_of sl)) (\<lambda>s'.
      focus s' (Nd (paint Black sl) pc sa (Nd sr Black pa t)) k
      \<and> same_outside (set (inorder (plug t (FR (Nd sl sc sa sr) pc pa # k)))) s s')"
  using assms(1) [unfolded focus_def] assms(2)
  by (cases sl; cases sr; clarsimp; simp add: erase_rotate_right_def rb_exec)
    (rule rotate_focus; auto simp: same_outside_def)+


lemma erase_sibling_left_red:
  assumes "focus s t (FL pc pa (Nd sl Red sa sr) # k)" "sl \<noteq> Lf"
  shows "returns (erase_sibling_left s pa) (\<lambda>(s', sib). sib = ptr_of sl
      \<and> focus s' (Nd t Red pa (paint Black sl)) (FL pc sa sr # k)
      \<and> same_outside (set (inorder (plug t (FL pc pa (Nd sl Red sa sr) # k)))) s s')"
  unfolding focus_up fill.simps
  using assms(1) [unfolded focus_def] assms(2)
  by (cases sl; clarsimp; simp add: erase_sibling_left_def rb_exec)
    (rule rotate_focus; auto simp: same_outside_def)+

lemma erase_sibling_right_red:
  assumes "focus s t (FR (Nd sl Red sa sr) pc pa # k)" "sr \<noteq> Lf"
  shows "returns (erase_sibling_right s pa) (\<lambda>(s', sib). sib = ptr_of sr
      \<and> focus s' (Nd (paint Black sr) Red pa t) (FR sl pc sa # k)
      \<and> same_outside (set (inorder (plug t (FR (Nd sl Red sa sr) pc pa # k)))) s s')"
  unfolding focus_up fill.simps
  using assms(1) [unfolded focus_def] assms(2)
  by (cases sr; clarsimp; simp add: erase_sibling_right_def rb_exec)
    (rule rotate_focus; auto simp: same_outside_def)+


definition erase_stepped :: "rbt \<Rightarrow> frame list \<Rightarrow> hev_rbtree \<Rightarrow> rbt \<times> bool \<Rightarrow> frame list \<Rightarrow>
    hev_rbtree \<times> ptr \<Rightarrow> bool" where
  "erase_stepped t k s r k' = (\<lambda>(s', p). p = (if snd r then parent_of k' else NULL)
      \<and> focus s' (fst r) k' \<and> same_outside (set (inorder (plug t k))) s s')"

lemma erase_near_left:
  assumes "focus s t (FL pc pa (Nd (Nd x Red b y) Black sa sr) # k)" "rb_color sr = Black"
  shows "returns (erase_black_left s pa sa)
    (\<lambda>(s', p). p = NULL \<and> focus s' (Nd (Nd t Black pa x) pc b (Nd (paint Black y) Black sa sr)) k
      \<and> same_outside (set (inorder (plug t (FL pc pa (Nd (Nd x Red b y) Black sa sr) # k)))) s s')"
proof -
  have "ptr_is_black s (ptr_of sr) = Some True"
    using assms ptr_is_black_tree [of s sa sr] by (simp add: focus_def)
  then show ?thesis
    using assms(1) [unfolded focus_def]
    by (cases x; cases y; clarsimp;
        simp add: erase_black_left_def erase_rotate_left_def rb_exec)
      (rule rotate_focus; auto simp: same_outside_def)+
qed

lemma erase_near_right:
  assumes "focus s t (FR (Nd sl Black sa (Nd x Red b y)) pc pa # k)" "rb_color sl = Black"
  shows "returns (erase_black_right s pa sa)
    (\<lambda>(s', p). p = NULL \<and> focus s' (Nd (Nd sl Black sa (paint Black x)) pc b (Nd y Black pa t)) k
      \<and> same_outside (set (inorder (plug t (FR (Nd sl Black sa (Nd x Red b y)) pc pa # k)))) s s')"
proof -
  have "ptr_is_black s (ptr_of sl) = Some True"
    using assms ptr_is_black_tree [of s sa sl] by (simp add: focus_def)
  then show ?thesis
    using assms(1) [unfolded focus_def]
    by (cases x; cases y; clarsimp;
        simp add: erase_black_right_def erase_rotate_right_def rb_exec)
      (rule rotate_focus; auto simp: same_outside_def)+
qed

lemma erase_black_left_focus:
  assumes "focus s t (FL pc pa (Nd sl Black sa sr) # k)"
  shows "returns (erase_black_left s pa sa)
    (erase_stepped t (FL pc pa (Nd sl Black sa sr) # k) s (del_black_left t pc pa sl sa sr) k)"
proof -
  have "get_right s sa = Some (ptr_of sr)" "get_left s sa = Some (ptr_of sl)"
    using assms by (auto simp: focus_def rb_access_defs)
  moreover have "ptr_is_black s (ptr_of sr) = Some (rb_color sr = Black)"
    "ptr_is_black s (ptr_of sl) = Some (rb_color sl = Black)"
    using assms ptr_is_black_tree [of s sa] by (auto simp: focus_def)
  moreover consider (far) "rb_color sr = Red" | (flip) "rb_color sr = Black" "rb_color sl = Black"
    | (near) x b y where "rb_color sr = Black" "sl = Nd x Red b y"
    by (cases "rb_color sr"; cases sl) (auto, metis color.exhaust)
  then show ?thesis
  proof cases
    case far
    then have "sr \<noteq> Lf" by auto
    with far calculation show ?thesis
      using erase_rotate_left_focus [OF assms]
      by (simp add: erase_black_left_def erase_stepped_def) 
  next
    case flip
    with calculation show ?thesis
      using erase_flip_left [OF assms]
      by (simp add: erase_black_left_def erase_stepped_def) 
  next
    case near
    then show ?thesis
      using erase_near_left [of s t pc pa x b y sa sr k] assms
      by (simp add: erase_stepped_def)
  qed
qed

lemma erase_black_right_focus:
  assumes "focus s t (FR (Nd sl Black sa sr) pc pa # k)"
  shows "returns (erase_black_right s pa sa)
    (erase_stepped t (FR (Nd sl Black sa sr) pc pa # k) s (del_black_right t pc pa sl sa sr) k)"
proof -
  have "get_right s sa = Some (ptr_of sr)" "get_left s sa = Some (ptr_of sl)"
    using assms by (auto simp: focus_def rb_access_defs)
  moreover have "ptr_is_black s (ptr_of sr) = Some (rb_color sr = Black)"
    "ptr_is_black s (ptr_of sl) = Some (rb_color sl = Black)"
    using assms ptr_is_black_tree [of s sa] by (auto simp: focus_def)
  moreover consider (far) "rb_color sl = Red" | (flip) "rb_color sl = Black" "rb_color sr = Black"
    | (near) x b y where "rb_color sl = Black" "sr = Nd x Red b y"
    by (cases "rb_color sl"; cases sr) (auto, metis color.exhaust)
  then show ?thesis
  proof cases
    case far
    then have "sl \<noteq> Lf" by auto
    with far calculation show ?thesis
      using erase_rotate_right_focus [OF assms]
      by (simp add: erase_black_right_def erase_stepped_def) 
  next
    case flip
    with calculation show ?thesis
      using erase_flip_right [OF assms]
      by (simp add: erase_black_right_def erase_stepped_def) 
  next
    case near
    then show ?thesis
      using erase_near_right [of s t sl sa x b y pc pa k] assms
      by (simp add: erase_stepped_def)
  qed
qed

text \<open>A whole iteration: the sibling is black, or red and rotated away first.\<close>

lemma erase_step_left_black:
  assumes "focus s t (FL pc pa (Nd sl Black sa sr) # k)"
  shows "erase_step_left s pa = erase_black_left s pa sa"
  using assms by (auto simp: erase_step_left_def erase_sibling_left_def focus_def rb_access_defs)

lemma erase_step_right_black:
  assumes "focus s t (FR (Nd sl Black sa sr) pc pa # k)"
  shows "erase_step_right s pa = erase_black_right s pa sa"
  using assms by (auto simp: erase_step_right_def erase_sibling_right_def focus_def rb_access_defs)

lemma del_black_Red [simp]:
  "snd (del_black_left t Red pa sl sa sr) = False" "snd (del_black_right t Red pa sl sa sr) = False"
  by (auto split: rbt.split)

lemma erase_stepped_after:
  assumes "erase_stepped t k s1 r k' x" "same_outside (set (inorder (plug t k))) s s1"
    and "inorder (plug t k) = inorder (plug t k0)"
  shows "erase_stepped t k0 s r k' x"
  using assms same_outside_chain by (auto simp: erase_stepped_def simp del: inorder_plug)

lemma erase_step_left_red:
  assumes "focus s t (FL pc pa (Nd (Nd a ac b c) Red sa sr) # k)"
  shows "returns (erase_step_left s pa)
    (erase_stepped t (FL pc pa (Nd (Nd a ac b c) Red sa sr) # k) s
      (del_black_left t Red pa a b c) (FL pc sa sr # k))"
proof -
  obtain s1 where s1: "erase_sibling_left s pa = Some (s1, b)"
    and f1: "focus s1 t (FL Red pa (Nd a Black b c) # FL pc sa sr # k)"
    and so: "same_outside (set (inorder (plug t (FL pc pa (Nd (Nd a ac b c) Red sa sr) # k)))) s s1"
    using erase_sibling_left_red [OF assms]
    by (auto simp: returns_def focus_up [of _ t] simp del: inorder_plug)
  show ?thesis
    using erase_black_left_focus [OF f1]
    by (simp add: erase_step_left_def s1 del: del_black_left.simps)
      (erule returns_mono, erule erase_stepped_after, use so in auto)
qed

lemma erase_step_right_red:
  assumes "focus s t (FR (Nd sl Red sa (Nd a ac b c)) pc pa # k)"
  shows "returns (erase_step_right s pa)
    (erase_stepped t (FR (Nd sl Red sa (Nd a ac b c)) pc pa # k) s
      (del_black_right t Red pa a b c) (FR sl pc sa # k))"
proof -
  obtain s1 where s1: "erase_sibling_right s pa = Some (s1, b)"
    and f1: "focus s1 t (FR (Nd a Black b c) Red pa # FR sl pc sa # k)"
    and so: "same_outside (set (inorder (plug t (FR (Nd sl Red sa (Nd a ac b c)) pc pa # k)))) s s1"
    using erase_sibling_right_red [OF assms]
    by (auto simp: returns_def focus_up [of _ t] simp del: inorder_plug)
  show ?thesis
    using erase_black_right_focus [OF f1]
    by (simp add: erase_step_right_def s1 del: del_black_right.simps)
      (erule returns_mono, erule erase_stepped_after, use so in auto)
qed

text \<open>The branch of the loop: a missing black node on the left has a sibling, so the test
  \<open>node != parent->right\<close> takes the left half even when \<open>node\<close> is NULL.\<close>

lemma erase_loop_left:
  assumes "focus s t (FL pc pa u # k)" "u \<noteq> Lf"
  shows "erase_color_loop s (ptr_of t) pa = do {
     (s, p) \<leftarrow> erase_step_left s pa;
     if p \<noteq> NULL then erase_color_loop s pa p else Some s }"
proof -
  have "ptr_of t \<noteq> ptr_of u"
    using assms focus_ne_sibling(1) [OF assms(1)] by (cases t; cases u) (auto simp: focus_def)
  with assms show ?thesis
    by (subst erase_color_loop.simps) (simp add: focus_def rb_access_defs)
qed

lemma erase_loop_right:
  assumes "focus s t (FR u pc pa # k)"
  shows "erase_color_loop s (ptr_of t) pa = do {
     (s, p) \<leftarrow> erase_step_right s pa;
     if p \<noteq> NULL then erase_color_loop s pa p else Some s }"
  using assms by (subst erase_color_loop.simps) (simp add: focus_def rb_access_defs)

lemma erase_loop_continue:
  assumes "returns m (erase_stepped t k s r k')" "inorder (plug t k) = inorder (plug (fst r) k')"
    and "snd r \<Longrightarrow> k' \<noteq> [] \<Longrightarrow> (\<And>s'. focus s' (fst r) k' \<Longrightarrow>
      returns (erase_color_loop s' pa (parent_of k')) (rebalanced (fst r) k' s' t'))"
    and "\<not> snd r \<or> k' = [] \<Longrightarrow> t' = plug (fst r) k'"
  shows "returns (do { (s, p) \<leftarrow> m; if p \<noteq> NULL then erase_color_loop s pa p else Some s })
    (rebalanced t k s t')"
proof -
  obtain s1 p where s1: "m = Some (s1, p)" "p = (if snd r then parent_of k' else NULL)" "focus s1 (fst r) k'"
    "same_outside (set (inorder (plug t k))) s s1"
    using assms(1) by (auto simp: returns_def erase_stepped_def simp del: inorder_plug)
  have null: "parent_of k' = NULL \<longleftrightarrow> k' = []"
    using s1(3) parent_of_null by (auto simp: focus_def)
  show ?thesis
  proof (cases "snd r \<and> k' \<noteq> []")
    case True
    then show ?thesis
      using s1 null returns_mono [OF assms(3) [OF _ _ s1(3)]] assms(2) same_outside_chain
      by (auto simp: rebalanced_def simp del: inorder_plug)
  next
    case False
    then show ?thesis
      using s1 assms(4) null by (auto simp: rebalanced_def rep_plug simp del: inorder_plug)
  qed
qed

lemma del_black_inorder:
  "inorder (fst (del_black_left t pc pa sl sa sr)) = inorder t @ pa # inorder sl @ sa # inorder sr"
  "inorder (fst (del_black_right t pc pa sl sa sr)) = inorder sl @ sa # inorder sr @ pa # inorder t"
  by (auto split: rbt.split)

lemma del_black_up:
  "snd (del_black_left t pc pa sl sa sr) \<Longrightarrow> ptr_of (fst (del_black_left t pc pa sl sa sr)) = pa"
  "snd (del_black_right t pc pa sl sa sr) \<Longrightarrow> ptr_of (fst (del_black_right t pc pa sl sa sr)) = pa"
  by (auto split: rbt.splits if_splits)

theorem erase_color_loop_refines:
  assumes "del_fix t k = Some t'" "focus s t k" "k \<noteq> []"
  shows "returns (erase_color_loop s (ptr_of t) (parent_of k)) (rebalanced t k s t')"
  using assms
proof (induction t k arbitrary: s rule: del_fix.induct)
  case (2 t pc pa sl sa sr k)
  let ?r = "del_black_left t pc pa sl sa sr"
  have "returns (do { (s, p) \<leftarrow> erase_step_left s pa; if p \<noteq> NULL then erase_color_loop s pa p else Some s })
    (rebalanced t (FL pc pa (Nd sl Black sa sr) # k) s t')"
  proof (rule erase_loop_continue)
    show "returns (erase_step_left s pa) (erase_stepped t (FL pc pa (Nd sl Black sa sr) # k) s ?r k)"
      using erase_black_left_focus [OF 2(3)] by (simp add: erase_step_left_black [OF 2(3)] del: del_black_left.simps)
    fix s' assume "snd ?r" "k \<noteq> []" "focus s' (fst ?r) k"
    then show "returns (erase_color_loop s' pa (parent_of k)) (rebalanced (fst ?r) k s' t')"
      using 2(1) [OF prod.collapse, of s'] 2(2) del_black_up(1) [of t pc pa sl sa sr]
      by (simp add: case_prod_beta del: del_black_left.simps)
  qed (use 2(2) del_black_inorder(1) [of t pc pa sl sa sr] in \<open>auto simp: case_prod_beta simp del: del_black_left.simps split: if_splits\<close>)
  then show ?case
    by (simp add: erase_loop_left [OF 2(3)])
next
  case (3 t pc pa a ac b c sa sr k)
  let ?r = "del_black_left t Red pa a b c"
  have "returns (do { (s, p) \<leftarrow> erase_step_left s pa; if p \<noteq> NULL then erase_color_loop s pa p else Some s })
    (rebalanced t (FL pc pa (Nd (Nd a ac b c) Red sa sr) # k) s t')"
    by (rule erase_loop_continue [OF erase_step_left_red [OF 3(2)]])
      (use 3(1) del_black_inorder(1) [of t Red pa a b c] in
        \<open>auto simp del: del_black_left.simps\<close>)
  then show ?case
    by (simp add: erase_loop_left [OF 3(2)])
next
  case (4 t sl sa sr pc pa k)
  let ?r = "del_black_right t pc pa sl sa sr"
  have "returns (do { (s, p) \<leftarrow> erase_step_right s pa; if p \<noteq> NULL then erase_color_loop s pa p else Some s })
    (rebalanced t (FR (Nd sl Black sa sr) pc pa # k) s t')"
  proof (rule erase_loop_continue)
    show "returns (erase_step_right s pa) (erase_stepped t (FR (Nd sl Black sa sr) pc pa # k) s ?r k)"
      using erase_black_right_focus [OF 4(3)] by (simp add: erase_step_right_black [OF 4(3)] del: del_black_right.simps)
    fix s' assume "snd ?r" "k \<noteq> []" "focus s' (fst ?r) k"
    then show "returns (erase_color_loop s' pa (parent_of k)) (rebalanced (fst ?r) k s' t')"
      using 4(1) [OF prod.collapse, of s'] 4(2) del_black_up(2) [of t pc pa sl sa sr]
      by (simp add: case_prod_beta del: del_black_right.simps)
  qed (use 4(2) del_black_inorder(2) [of t pc pa sl sa sr] in \<open>auto simp: case_prod_beta simp del: del_black_right.simps split: if_splits\<close>)
  then show ?case
    by (simp add: erase_loop_right [OF 4(3)])
next
  case (5 t sl sa a ac b c pc pa k)
  let ?r = "del_black_right t Red pa a b c"
  have "returns (do { (s, p) \<leftarrow> erase_step_right s pa; if p \<noteq> NULL then erase_color_loop s pa p else Some s })
    (rebalanced t (FR (Nd sl Red sa (Nd a ac b c)) pc pa # k) s t')"
    by (rule erase_loop_continue [OF erase_step_right_red [OF 5(2)]])
      (use 5(1) del_black_inorder(2) [of t Red pa a b c] in
        \<open>auto simp del: del_black_right.simps\<close>)
  then show ?case
    by (simp add: erase_loop_right [OF 5(2)])
qed auto

end
