(* ===== verification/RBTree_Unlink.thy ===== *)
theory RBTree_Unlink
  imports RBTree_Erase
begin

text \<open>
  The first half of erasure: \<open>del_unlink\<close> is what \<open>_hev_rbtree_erase\<close> does to a zipper (the
  node is cut out, or its in-order successor takes its place) and \<open>erase_unlink_refines\<close>
  that the pointer code computes it. Joined with the rebalancing of \<open>RBTree_Erase\<close>,
  \<open>hev_rbtree_erase\<close> removes exactly its argument and keeps the invariants.
\<close>

section \<open>Unlinking on shapes\<close>

text \<open>The leftmost node of a tree: its colour, address and right child, and the path to it.\<close>

fun split_min :: "rbt \<Rightarrow> color \<times> ptr \<times> rbt \<times> frame list" where
  "split_min Lf = (Black, NULL, Lf, [])"
| "split_min (Nd Lf c a r) = (c, a, r, [])"
| "split_min (Nd (Nd ll lc la lr) c a r) =
     (case split_min (Nd ll lc la lr) of (sc, sa, sr, p) \<Rightarrow> (sc, sa, sr, p @ [FL c a r]))"

fun del_unlink :: "rbt \<Rightarrow> color \<Rightarrow> rbt \<Rightarrow> frame list \<Rightarrow> rbt \<times> frame list \<times> bool" where
  "del_unlink Lf c Lf k = (Lf, k, c = Black)"
| "del_unlink Lf c r k = (paint c r, k, False)"
| "del_unlink l c Lf k = (paint c l, k, False)"
| "del_unlink l c r k = (case split_min r of (sc, sa, sr, p) \<Rightarrow>
     (paint Black sr, p @ FR l c sa # k, sr = Lf \<and> sc = Black))"

lemma split_min_plug:
  "split_min r = (sc, sa, sr, p) \<Longrightarrow> r \<noteq> Lf \<Longrightarrow> plug (Nd Lf sc sa sr) p = r"
  by (induction r arbitrary: p rule: split_min.induct) (auto simp: plug_append split: prod.splits)

lemma split_min_before: "split_min r = (sc, sa, sr, p) \<Longrightarrow> before p = []"
  by (induction r arbitrary: p rule: split_min.induct) (auto simp: before_append split: prod.splits)

lemma ctx_ok_FR_addr: "ctx_ok (p @ FR l c a # k) d n = ctx_ok (p @ FR l c b # k) d n"
  by (induction p d n rule: ctx_ok.induct) auto

lemma rbt_bheight_0:
  "invh t \<Longrightarrow> invc t \<Longrightarrow> bheight t = 0 \<Longrightarrow> t = Lf \<or> (\<exists>a. t = Nd Lf Red a Lf)"
  by (cases t) (auto dest!: bheight_0_color split: if_splits)

lemma del_unlink_ok:
  assumes "rbt_ok (plug (Nd l c n r) k)" "del_unlink l c r k = (u, k', short)"
  shows "before k' @ inorder u @ after k' = before k @ inorder l @ inorder r @ after k"
    and "if short then u = Lf \<and> ctx_ok k' Black 1 else rbt_ok (plug u k')"
proof -
  note ok = assms(1) [unfolded rbt_ok_plug]
  consider (leaf) "l = Lf" "r = Lf" | (r) "l = Lf" "r \<noteq> Lf" | (l) "l \<noteq> Lf" "r = Lf"
    | (two) sc sa sr p where "l \<noteq> Lf" "r \<noteq> Lf" "split_min r = (sc, sa, sr, p)"
    by (cases "split_min r") blast
  then have "before k' @ inorder u @ after k' = before k @ inorder l @ inorder r @ after k
    \<and> (if short then u = Lf \<and> ctx_ok k' Black 1 else rbt_ok (plug u k'))"
  proof cases
    case leaf
    with assms ok show ?thesis by (auto simp: rbt_ok_plug intro: ctx_ok_Black)
  next
    case r
    then obtain a where "r = Nd Lf Red a Lf" using ok rbt_bheight_0 [of r] by auto
    with r assms(2) ok show ?thesis by (auto simp: rbt_ok_plug)
  next
    case l
    then obtain a where "l = Nd Lf Red a Lf" using ok rbt_bheight_0 [of l] by auto
    with l assms(2) ok show ?thesis by (auto simp: rbt_ok_plug)
  next
    case two
    have res: "u = paint Black sr" "k' = p @ FR l c sa # k" "short \<longleftrightarrow> sr = Lf \<and> sc = Black"
      using two assms(2) by (cases l; cases r; simp)+
    have plug: "plug (Nd Lf sc sa sr) p = r"
      using split_min_plug two by simp
    then have "rbt_ok (plug (Nd Lf sc sa sr) (p @ FR l c n # k))"
      using assms(1) by (simp add: plug_append)
    then have sub: "invc sr" "invh sr" "bheight sr = 0" "sc = Red \<longrightarrow> rb_color sr = Black"
      and ctx: "ctx_ok k' sc (if sc = Black then 1 else 0)"
      unfolding rbt_ok_plug ctx_ok_FR_addr [of p l c n k _ _ sa] by (simp_all add: res(2) split: if_splits)
    have "inorder r = sa # inorder sr @ after p"
      using split_min_before [OF two(3)] by (simp flip: plug)
    moreover have "if short then u = Lf \<and> ctx_ok k' Black 1 else rbt_ok (plug u k')"
      using rbt_bheight_0 [OF sub(2,1,3)] sub(4) ctx
      by (auto simp: res(1,3) rbt_ok_plug split: if_splits intro: ctx_ok_Black)
    ultimately show ?thesis
      using split_min_before [OF two(3)] by (simp add: res before_append after_append)
  qed
  then show "before k' @ inorder u @ after k' = before k @ inorder l @ inorder r @ after k"
    and "if short then u = Lf \<and> ctx_ok k' Black 1 else rbt_ok (plug u k')" by blast+
qed

section \<open>The pointer code computes it\<close>

lemma change_child_obtain:
  assumes "ctx_at (nodes s) (root s) old k" "old \<noteq> NULL" "old \<notin> set (ctx_addrs k)" "distinct (ctx_addrs k)"
  obtains s' where "hev_rbtree_change_child s old new (parent_of k) = Some s'"
    "ctx_at (nodes s') (root s') new k" "\<And>a. a \<notin> set (ctx_addrs k) \<Longrightarrow> nodes s' a = nodes s a"
  using change_child_returns [OF assms, where Q = "\<lambda>s'. ctx_at (nodes s') (root s') new k
      \<and> (\<forall>a. a \<notin> set (ctx_addrs k) \<longrightarrow> nodes s' a = nodes s a)"]
  by (auto simp: returns_def)

lemma tree_at_keep:
  "tree_at h p t \<Longrightarrow> (\<And>a. a \<notin> B \<Longrightarrow> h' a = h a) \<Longrightarrow> set (inorder t) \<inter> B = {} \<Longrightarrow> tree_at h' p t"
  by (erule tree_at_same) auto

lemma erase_unlink_left_leaf:
  assumes f: "focus s (Nd Lf c n r) k" and u: "del_unlink Lf c r k = (u, k', short)"
  shows "returns (erase_unlink s n) (erase_stepped (Nd Lf c n r) k s (u, short) k')"
proof -
  note f' = f [unfolded focus_def, simplified]
  have al: "aligned (parent_of k)" using f' aligned_parent_of by blast
  obtain s1 where s1: "hev_rbtree_change_child s n (ptr_of r) (parent_of k) = Some s1"
    "ctx_at (nodes s1) (root s1) (ptr_of r) k" "\<And>a. a \<notin> set (ctx_addrs k) \<Longrightarrow> nodes s1 a = nodes s a"
    using change_child_obtain [of s n k "ptr_of r"] f' by auto
  show ?thesis
  proof (cases r)
    case Lf
    with s1 f' al u show ?thesis
      by (auto simp: erase_unlink_def rb_access_defs erase_stepped_def focus_def same_outside_def)
  next
    case (Nd x xc a y)
    have "tree_at (nodes s1) a x" "tree_at (nodes s1) a y"
      using f' Nd by (auto intro!: tree_at_keep [OF _ s1(3)])
    with s1 f' al u Nd show ?thesis
      by (auto simp: erase_unlink_def rb_access_defs erase_stepped_def focus_def same_outside_def)
  qed
qed

lemma erase_unlink_right_leaf:
  assumes f: "focus s (Nd l c n Lf) k" "l \<noteq> Lf" and u: "del_unlink l c Lf k = (u, k', short)"
  shows "returns (erase_unlink s n) (erase_stepped (Nd l c n Lf) k s (u, short) k')"
proof -
  note f' = f(1) [unfolded focus_def, simplified]
  have al: "aligned (parent_of k)" using f' aligned_parent_of by blast
  obtain x xc a y where Nd: "l = Nd x xc a y" using f(2) by (cases l) auto
  define s0 where "s0 = s\<lparr>nodes := (nodes s)(a \<mapsto> (the (nodes s a))\<lparr>parent_color := pcw (parent_of k) c\<rparr>)\<rparr>"
  have "ctx_at (nodes s0) (root s0) n k" "n \<notin> set (ctx_addrs k)" "distinct (ctx_addrs k)"
    using f' Nd by (auto simp: s0_def)
  then obtain s1 where s1: "hev_rbtree_change_child s0 n a (parent_of k) = Some s1"
    "ctx_at (nodes s1) (root s1) a k" "\<And>b. b \<notin> set (ctx_addrs k) \<Longrightarrow> nodes s1 b = nodes s0 b"
    using change_child_obtain [of s0 n k a] f' by blast
  have "nodes s1 b = nodes s b" if "b \<notin> insert a (set (ctx_addrs k))" for b
    using that s1(3) by (simp add: s0_def)
  then have "tree_at (nodes s1) a x" "tree_at (nodes s1) a y"
    using f' Nd by (auto intro!: tree_at_keep [of "nodes s" _ _ "insert a (set (ctx_addrs k))"])
  with s1 f' al u Nd show ?thesis
    by (auto simp: s0_def erase_unlink_def rb_access_defs erase_stepped_def focus_def same_outside_def)
qed

text \<open>The walk to the successor, and the nodes it finds.\<close>

lemma split_min_left:
  assumes "split_min (Nd l c a r) = (sc, sa, sr, p)" "l \<noteq> Lf"
  obtains p' where "split_min l = (sc, sa, sr, p')" "p = p' @ [FL c a r]"
  using assms by (cases l) (auto split: prod.splits)

lemma parent_of_append: "parent_of (p @ [f]) = (if p = [] then frame_addr f else parent_of p)"
  by (cases p) auto

lemma split_min_tree:
  assumes "tree_at h q r" "split_min r = (sc, sa, sr, p)" "r \<noteq> Lf"
  shows "tree_at h (if p = [] then q else parent_of p) (Nd Lf sc sa sr)
    \<and> (p = [] \<longrightarrow> r = Nd Lf sc sa sr)
    \<and> (p \<noteq> [] \<longrightarrow> (\<forall>x. ptr_of (plug x p) = ptr_of r) \<and> parent_of p \<in> set (inorder r)
      \<and> node_left (the (h (parent_of p))) = sa)"
  using assms
proof (induction r arbitrary: p q)
  case (Nd l c a r)
  show ?case
  proof (cases "l = Lf")
    case True
    with Nd show ?thesis by auto
  next
    case False
    then obtain p' where p': "split_min l = (sc, sa, sr, p')" "p = p' @ [FL c a r]"
      using Nd(4) split_min_left by metis
    then show ?thesis
      using Nd(1) [of a p'] Nd(3) False by (auto simp: plug_append parent_of_append)
  qed
qed simp

lemma erase_successor_split_min:
  assumes "tree_at (nodes s) q t" "split_min t = (sc, sa, sr, p)" "t \<noteq> Lf"
  shows "erase_successor s par (ptr_of t) = Some (if p = [] then par else parent_of p, sa)"
  using assms
proof (induction t arbitrary: p q par)
  case (Nd l c a r)
  show ?case
  proof (cases "l = Lf")
    case True
    with Nd show ?thesis by (subst erase_successor.simps) (auto simp: rb_access_defs)
  next
    case False
    then obtain p' where p': "split_min l = (sc, sa, sr, p')" "p = p' @ [FL c a r]"
      using Nd(4) split_min_left by metis
    then show ?thesis
      using Nd(1) [of a p' a] Nd(3) False ptr_of_null [of "nodes s" a l]
      by (subst erase_successor.simps) (auto simp: rb_access_defs parent_of_append)
  qed
qed simp

text \<open>
  The right subtree after its leftmost node \<open>sa\<close> is cut out: the parent of \<open>sa\<close> points to
  the right child of \<open>sa\<close>, which is black and points back; the root of the subtree points
  to its new parent \<open>q'\<close>.
\<close>

definition cut_min :: "(ptr \<rightharpoonup> hev_rbtree_node) \<Rightarrow> (ptr \<rightharpoonup> hev_rbtree_node) \<Rightarrow> ptr \<Rightarrow> rbt \<Rightarrow> bool" where
  "cut_min h h' q' r \<longleftrightarrow> (case split_min r of (sc, sa, sr, p) \<Rightarrow>
     (\<forall>a \<in> set (inorder r). a \<noteq> sa \<longrightarrow> a \<noteq> ptr_of sr \<longrightarrow>
        h' a = Some ((the (h a))
          \<lparr>parent_color := (if a = ptr_of r then pcw q' (rb_color r) else parent_color (the (h a))),
           node_left := (if a = parent_of p then ptr_of sr else node_left (the (h a)))\<rparr>))
     \<and> (sr \<noteq> Lf \<longrightarrow> h' (ptr_of sr) = Some ((the (h (ptr_of sr)))\<lparr>parent_color := pcw (parent_of p) Black\<rparr>)))"

lemma cut_min_tree:
  assumes "tree_at h q r" "split_min r = (sc, sa, sr, p)" "p \<noteq> []" "cut_min h h' q' r" "distinct (inorder r)"
  shows "tree_at h' q' (plug (paint Black sr) p)"
  using assms
proof (induction r arbitrary: p q q')
  case (Nd l c a r)
  have "l \<noteq> Lf" using Nd(4,5) by auto
  then obtain p' where p': "split_min l = (sc, sa, sr, p')" "p = p' @ [FL c a r]"
    using Nd(4) split_min_left by metis
  note cut = Nd(6) [unfolded cut_min_def Nd(4) prod.case]
  note t = Nd(3) [unfolded tree_at.simps]
  have inl: "sa \<in> set (inorder l)" "set (inorder sr) \<subseteq> set (inorder l)"
    using split_min_plug [OF p'(1) \<open>l \<noteq> Lf\<close>] inorder_plug [of "Nd Lf sc sa sr" p'] by auto
  have par: "parent_of p = (if p' = [] then a else parent_of p')" "p' \<noteq> [] \<Longrightarrow> parent_of p' \<in> set (inorder l)"
    using split_min_tree [of h a l, OF _ p'(1) \<open>l \<noteq> Lf\<close>] t p' by (auto simp: parent_of_append)
  have sr: "ptr_of sr = NULL \<or> ptr_of sr \<in> set (inorder l)"
    using inl by (cases sr) auto
  have keep: "h' b = h b" if "b \<in> set (inorder r)" for b
  proof -
    have "b \<noteq> NULL" "h b \<noteq> None"
      using t tree_at_alloc that by blast+
    moreover have "b \<noteq> sa" "b \<noteq> ptr_of sr" "b \<noteq> a" "b \<noteq> parent_of p"
      using that Nd(7) inl sr par \<open>b \<noteq> NULL\<close> by auto
    ultimately show ?thesis
      using cut that by auto
  qed
  have r: "tree_at h' a r"
    using t keep tree_at_same by blast
  have top: "h' a = Some \<lparr>parent_color = pcw q' c, node_right = ptr_of r,
      node_left = (if p' = [] then ptr_of sr else ptr_of l)\<rparr>"
    using cut t inl sr Nd(7) par by auto
  show ?case
  proof (cases "p' = []")
    case True
    then have l: "l = Nd Lf sc sa sr"
      using split_min_tree [of h a l, OF _ p'(1) \<open>l \<noteq> Lf\<close>] t by auto
    have "tree_at h' a (paint Black sr)" 
    proof (cases sr)
      case (Nd x xc b y)
      have "h' d = h d" if "d \<in> set (inorder x) \<union> set (inorder y)" for d
      proof -
        have "h d \<noteq> None" using that t l Nd tree_at_alloc by fastforce
        moreover have "d \<noteq> sa" "d \<noteq> a" "d \<noteq> b" "d \<in> set (inorder l)"
          using that l Nd \<open>distinct (inorder (Nd l c a r))\<close> by auto
        ultimately show ?thesis
          using cut Nd par True by auto
      qed
      then show ?thesis
        using cut t l Nd par True tree_at_same [of h b] by (auto simp: pcw_def)
    qed simp
    with True top r t p' show ?thesis by simp
  next
    case False
    have "parent_color (the (h (ptr_of l))) = pcw a (rb_color l)"
      using t \<open>l \<noteq> Lf\<close> by (cases l) auto
    then have "cut_min h h' a l"
      using cut p' par False Nd(7) by (auto simp: cut_min_def)
    then show ?thesis
      using Nd(1) [of a p' a] Nd(3,7) False p' r top split_min_tree [of h a l, OF _ p'(1) \<open>l \<noteq> Lf\<close>]
      by (auto simp: plug_append) 
  qed
qed simp

lemma tree_at_reroot:
  assumes "tree_at h q t" "distinct (inorder t)"
    and "\<And>b. b \<in> set (inorder t) \<Longrightarrow> b \<noteq> ptr_of t \<Longrightarrow> h' b = h b"
    and "t \<noteq> Lf \<Longrightarrow> h' (ptr_of t) = Some ((the (h (ptr_of t)))\<lparr>parent_color := pcw q' c'\<rparr>)"
  shows "tree_at h' q' (paint c' t)"
proof (cases t)
  case (Nd x xc b y)
  have "tree_at h' b x" "tree_at h' b y"
    using assms(1,2) Nd by (auto intro!: tree_at_same [of h] assms(3))
  with assms Nd show ?thesis by auto
qed simp

definition spliced :: "rbt \<Rightarrow> (ptr \<rightharpoonup> hev_rbtree_node) \<Rightarrow> ptr \<Rightarrow> hev_rbtree_node option" where
  "spliced r h b = (case split_min r of (sc, sa, sr, p) \<Rightarrow>
     if p = [] then h b
     else map_option (\<lambda>x. x
         \<lparr>parent_color := (if b = ptr_of r then pcw sa (rb_color r) else parent_color x),
          node_right := (if b = sa then ptr_of r else node_right x),
          node_left := (if b = parent_of p then ptr_of sr else node_left x)\<rparr>) (h b))"

lemma split_min_addrs:
  assumes "split_min r = (sc, sa, sr, p)" "r \<noteq> Lf" "distinct (inorder r)"
  shows "sa \<in> set (inorder r)" "set (inorder sr) \<subseteq> set (inorder r)" "sa \<notin> set (inorder sr)"
    "distinct (inorder sr)"
    "p \<noteq> [] \<Longrightarrow> parent_of p \<in> set (inorder r) \<and> parent_of p \<noteq> sa \<and> parent_of p \<notin> set (inorder sr)"
    "p \<noteq> [] \<Longrightarrow> ptr_of r \<noteq> sa \<and> ptr_of r \<notin> set (inorder sr)"
proof -
  have io: "inorder r = before p @ sa # inorder sr @ after p"
    using split_min_plug [OF assms(1,2)] inorder_plug [of "Nd Lf sc sa sr" p] by simp
  then show "sa \<in> set (inorder r)" "set (inorder sr) \<subseteq> set (inorder r)" "sa \<notin> set (inorder sr)"
    "distinct (inorder sr)"
    using assms(3) by auto
  show "p \<noteq> [] \<Longrightarrow> parent_of p \<in> set (inorder r) \<and> parent_of p \<noteq> sa \<and> parent_of p \<notin> set (inorder sr)"
    using parent_of_in [of p] io assms(3) by auto
  assume "p \<noteq> []"
  then have "ptr_of r = frame_addr (last p)"
    using split_min_plug [OF assms(1,2)] 
    by (cases p rule: rev_cases) (auto simp: plug_append)
  moreover have "frame_addr f \<in> set (ctx_addrs k)" if "f \<in> set k" for f k
    using that by (induction k rule: before.induct) auto
  ultimately have "ptr_of r \<in> set (ctx_addrs p)"
    using \<open>p \<noteq> []\<close> last_in_set by metis
  then show "ptr_of r \<noteq> sa \<and> ptr_of r \<notin> set (inorder sr)"
    using io assms(3) by auto
qed

lemma spliced_none: "split_min r = (sc, sa, sr, []) \<Longrightarrow> spliced r h = h"
  by (auto simp: spliced_def fun_eq_iff)

lemma erase_splice_spliced:
  assumes t: "tree_at (nodes s) q r" "r \<noteq> Lf" "aligned q" "distinct (inorder r)"
    and sp: "split_min r = (sc, sa, sr, p)"
  shows "erase_splice s (ptr_of r) =
    Some (s\<lparr>nodes := spliced r (nodes s)\<rparr>, if p = [] then sa else parent_of p, sa, ptr_of sr)"
proof -
  obtain l c a y where r: "r = Nd l c a y" using t(2) by (cases r) auto
  note min = split_min_tree [OF t(1) sp t(2)]
  show ?thesis
  proof (cases "p = []")
    case True
    then show ?thesis
      using min t sp by (auto simp: erase_splice_def rb_access_defs spliced_none)
  next
    case False
    then have "l \<noteq> Lf" using sp r by auto
    then obtain p' where p': "split_min l = (sc, sa, sr, p')" "p = p' @ [FL c a y]"
      using sp r split_min_left by metis
    have succ: "erase_successor s a (ptr_of l) = Some (parent_of p, sa)"
      using erase_successor_split_min [of s a l, OF _ p'(1) \<open>l \<noteq> Lf\<close>] t(1) r p'
      by (auto simp: parent_of_append)
    obtain np where np: "nodes s (parent_of p) = Some np"
      using min False tree_at_alloc [OF t(1)] by auto
    have ne: "parent_of p \<noteq> sa" "a \<noteq> sa" "ptr_of l \<noteq> NULL"
      using split_min_addrs(5,6) [OF sp t(2,4) False] t(1) r \<open>l \<noteq> Lf\<close> by (auto simp: ptr_of_null)
    have n: "nodes s a = Some \<lparr>parent_color = pcw q c, node_right = ptr_of y, node_left = ptr_of l\<rparr>"
      "nodes s sa = Some \<lparr>parent_color = pcw (parent_of p) sc, node_right = ptr_of sr, node_left = NULL\<rparr>"
      using t r min False by auto
    show ?thesis
      using t(3) r sp False succ np ne n
      by (auto simp: erase_splice_def rb_access_defs spliced_def pcw_fold
          intro!: arg_cong [where f = "\<lambda>h. s\<lparr>nodes := h\<rparr>"])
        (rule ext, simp add: spliced_def option.map_ident)+
  qed
qed


text \<open>
  The rest of the two-child case, once the successor is spliced out: it takes the left
  subtree, the colour and the place of the erased node.
\<close>

definition transplanted :: "hev_rbtree \<Rightarrow> hev_rbtree \<Rightarrow> frame list \<Rightarrow> color \<Rightarrow> rbt \<Rightarrow> ptr \<Rightarrow> ptr \<Rightarrow> ptr \<Rightarrow> bool" where
  "transplanted s s' k c l par sa child2 \<longleftrightarrow>
     ctx_at (nodes s') (root s') sa k
     \<and> nodes s' sa = Some ((the (nodes s sa))\<lparr>parent_color := pcw (parent_of k) c, node_left := ptr_of l\<rparr>)
     \<and> nodes s' (ptr_of l) = Some ((the (nodes s (ptr_of l)))\<lparr>parent_color := pcw sa (rb_color l)\<rparr>)
     \<and> (child2 \<noteq> NULL \<longrightarrow> nodes s' child2 = Some ((the (nodes s child2))\<lparr>parent_color := pcw par Black\<rparr>))
     \<and> (\<forall>b. b \<notin> {sa, ptr_of l} \<union> set (ctx_addrs k) \<longrightarrow> b \<noteq> child2 \<or> child2 = NULL \<longrightarrow> nodes s' b = nodes s b)"

lemma erase_transplant_transplanted:
  assumes n: "nodes s n = Some \<lparr>parent_color = pcw (parent_of k) c, node_right = rp, node_left = ptr_of l\<rparr>"
    and l: "tree_at (nodes s) n l" "l \<noteq> Lf" "aligned n"
    and ctx: "ctx_at (nodes s) (root s) n k" "distinct (ctx_addrs k)" "n \<noteq> NULL"
    and sa: "nodes s sa = Some ns" "parent_color ns = pcw q sc" "aligned q"
    and c2: "child2 \<noteq> NULL \<Longrightarrow> nodes s child2 \<noteq> None"
    and d: "distinct ([n, sa, ptr_of l] @ (if child2 = NULL then [] else [child2]) @ ctx_addrs k)"
  shows "\<exists>s'. erase_transplant s n par sa child2 = Some (s', if child2 = NULL \<and> sc = Black then par else NULL)
      \<and> transplanted s s' k c l par sa child2"
proof -
  have al: "aligned (parent_of k)" using ctx aligned_parent_of by blast
  obtain x xc a y where Nd: "l = Nd x xc a y" using l(2) by (cases l) auto
  define s0 where "s0 = s\<lparr>nodes := (nodes s)(sa \<mapsto> ns\<lparr>node_left := a\<rparr>,
      a \<mapsto> (the (nodes s a))\<lparr>parent_color := pcw sa xc\<rparr>)\<rparr>"
  have "ctx_at (nodes s0) (root s0) n k" "n \<notin> set (ctx_addrs k)"
    using ctx d Nd by (auto simp: s0_def)
  then obtain s1 where s1: "hev_rbtree_change_child s0 n sa (parent_of k) = Some s1"
    "ctx_at (nodes s1) (root s1) sa k" "\<And>b. b \<notin> set (ctx_addrs k) \<Longrightarrow> nodes s1 b = nodes s0 b"
    using change_child_obtain [of s0 n k sa] ctx by blast
  have "hev_rbtree_node_is_black s1 sa = Some (sc = Black)"
    using s1(3) [of sa] sa d Nd by (auto simp: s0_def rb_access_defs)
  moreover have "\<exists>nc. nodes s1 child2 = Some nc" if "child2 \<noteq> NULL"
    using that c2 s1(3) [of child2] d Nd by (auto simp: s0_def)
  ultimately show ?thesis
    using s1 n l al sa d Nd c2
    apply (cases "child2 = NULL")
    apply (auto simp: erase_transplant_def rb_exec s0_def transplanted_def)
    done
qed

lemma spliced_outside:
  assumes "split_min r = (sc, sa, sr, p)" "r \<noteq> Lf" "distinct (inorder r)" "b \<notin> set (inorder r)"
  shows "spliced r h b = h b"
proof -
  have "b \<noteq> ptr_of r" "b \<noteq> sa" "p \<noteq> [] \<Longrightarrow> b \<noteq> parent_of p"
    using assms(4) split_min_addrs [OF assms(1-3)] ptr_of_in [OF assms(2)] by auto
  then show ?thesis using assms(1) by (simp add: spliced_def option.map_ident)
qed

lemma transplanted_subtrees:
  assumes tr: "transplanted (s\<lparr>nodes := spliced r (nodes s)\<rparr>) s' k c l par sa (ptr_of sr)"
    and f: "focus s (Nd l c n r) k" "l \<noteq> Lf" "r \<noteq> Lf" and sp: "split_min r = (sc, sa, sr, p)"
    and par: "par = (if p = [] then sa else parent_of p)"
  shows "tree_at (nodes s') sa l" "tree_at (nodes s') sa (plug (paint Black sr) p)"
proof -
  have tl: "tree_at (nodes s) n l" "tree_at (nodes s) n r"
    and d: "distinct (inorder l)" "distinct (inorder r)" "set (inorder l) \<inter> set (inorder r) = {}"
      "(set (inorder l) \<union> set (inorder r)) \<inter> set (ctx_addrs k) = {}"
    using f(1) by (auto simp: focus_def)
  note ad = split_min_addrs [OF sp f(3) d(2)]
  have new: "nodes s' (ptr_of l) = Some ((the (spliced r (nodes s) (ptr_of l)))\<lparr>parent_color := pcw sa (rb_color l)\<rparr>)"
    "sr \<noteq> Lf \<Longrightarrow> nodes s' (ptr_of sr) = Some ((the (spliced r (nodes s) (ptr_of sr)))\<lparr>parent_color := pcw par Black\<rparr>)"
    and same: "\<And>b. b \<notin> {sa, ptr_of l, ptr_of sr} \<union> set (ctx_addrs k) \<Longrightarrow> nodes s' b = spliced r (nodes s) b"
    using tr ptr_of_null [of "nodes s" _ sr] split_min_tree [OF tl(2) sp f(3)] by (auto simp: transplanted_def)
  have lp: "ptr_of l \<in> set (inorder l)" "ptr_of r \<in> set (inorder r)"
    using f ptr_of_in by blast+
  have sr: "ptr_of sr = NULL \<or> ptr_of sr \<in> set (inorder r)"
    using ad by (cases sr) auto
  have keep_l: "spliced r (nodes s) b = nodes s b" if "b \<in> set (inorder l)" for b
    using that d(3) spliced_outside [OF sp f(3) d(2)] by auto
  have rest_l: "nodes s' b = nodes s b" if "b \<in> set (inorder l)" "b \<noteq> ptr_of l" for b
  proof -
    have "b \<noteq> NULL" using tree_at_alloc [OF tl(1) that(1)] by simp
    then have "b \<notin> {sa, ptr_of l, ptr_of sr} \<union> set (ctx_addrs k)"
      using that d(3,4) ad(1) sr by auto
    then show ?thesis using same keep_l that by simp
  qed
  have "tree_at (nodes s') sa (paint (rb_color l) l)"
    by (rule tree_at_reroot [OF tl(1) d(1) rest_l]) (simp_all add: new keep_l lp)
  then show "tree_at (nodes s') sa l" by simp
  have rest_r: "nodes s' b = spliced r (nodes s) b" if "b \<in> set (inorder r)" "b \<noteq> sa" "b \<noteq> ptr_of sr" for b
    using that d(3,4) lp by (intro same) auto
  show "tree_at (nodes s') sa (plug (paint Black sr) p)"
  proof (cases "p = []")
    case True
    then have "r = Nd Lf sc sa sr"
      using split_min_tree [OF tl(2) sp f(3)] by auto
    then show ?thesis
      using tl(2) new(2) True par spliced_none [of r sc sa sr] sp rest_r ad
      by (auto intro!: tree_at_reroot [of "nodes s" sa])
  next
    case False
    have alloc: "\<exists>x. nodes s a = Some x" if "a \<in> set (inorder r)" for a
      using that tree_at_alloc [OF tl(2)] by auto
    have "spliced r (nodes s) (ptr_of sr) = nodes s (ptr_of sr)" if "sr \<noteq> Lf"
    proof -
      have "ptr_of sr \<noteq> ptr_of r" "ptr_of sr \<noteq> sa" "ptr_of sr \<noteq> parent_of p"
        using that ptr_of_in [OF that] ad(3) ad(5,6) [OF False] by auto
      then show ?thesis using sp by (simp add: spliced_def option.map_ident)
    qed
    with new(2) rest_r sp False par have "cut_min (nodes s) (nodes s') sa r"
      by (auto simp: cut_min_def spliced_def dest!: alloc)
    then show ?thesis
      using cut_min_tree [OF tl(2) sp False _ d(2)] by auto
  qed
qed


lemma erase_unlink_two:
  assumes f: "focus s (Nd l c n r) k" "l \<noteq> Lf" "r \<noteq> Lf" and sp: "split_min r = (sc, sa, sr, p)"
  shows "returns (erase_unlink s n) (erase_stepped (Nd l c n r) k s
      (paint Black sr, sr = Lf \<and> sc = Black) (p @ FR l c sa # k))"
proof -
  define s1 where "s1 = s\<lparr>nodes := spliced r (nodes s)\<rparr>"
  define par where "par = (if p = [] then sa else parent_of p)"
  note f' = f(1) [unfolded focus_def, simplified]
  have tr: "tree_at (nodes s) n r" "tree_at (nodes s) n l" "distinct (inorder r)" and al: "aligned n" "n \<noteq> NULL"
    using f' by auto
  have heap: "ptr_of l \<noteq> NULL" "ptr_of r \<noteq> NULL" "ptr_of sr = NULL \<longleftrightarrow> sr = Lf"
    using f' f(2,3) ptr_of_null split_min_tree [OF tr(1) sp f(3)] by auto
  note ad = split_min_addrs [OF sp f(3) tr(3)]
  note min = split_min_tree [OF tr(1) sp f(3)] and out = spliced_outside [OF sp f(3) tr(3)]
  have keep: "spliced r (nodes s) b = nodes s b" if "b \<in> insert n (set (inorder l) \<union> set (ctx_addrs k))" for b
    using that f' by (intro out) auto
  have srin: "sr \<noteq> Lf \<Longrightarrow> ptr_of sr \<in> set (inorder r) \<and> ptr_of sr \<noteq> sa"
    using ad(2,3) ptr_of_in [of sr] by auto
  have un: "erase_unlink s n = erase_transplant s1 n par sa (ptr_of sr)"
    using f' heap erase_splice_spliced [OF tr(1) f(3) al(1) tr(3) sp]
    by (simp add: erase_unlink_def rb_access_defs s1_def par_def)
  have "\<exists>s'. erase_transplant s1 n par sa (ptr_of sr) = Some (s', if ptr_of sr = NULL \<and> sc = Black then par else NULL)
      \<and> transplanted s1 s' k c l par sa (ptr_of sr)"
  proof (rule erase_transplant_transplanted)
    show "nodes s1 n = Some \<lparr>parent_color = pcw (parent_of k) c, node_right = ptr_of r, node_left = ptr_of l\<rparr>"
      using f' keep by (simp add: s1_def)
    show "tree_at (nodes s1) n l"
      using keep by (intro tree_at_same [OF tr(2)]) (auto simp: s1_def)
    show "ctx_at (nodes s1) (root s1) n k"
      using f' keep by (subst ctx_at_cong [of k _ "nodes s"]) (auto simp: s1_def)
    show "nodes s1 sa = Some (the (nodes s1 sa))" "parent_color (the (nodes s1 sa)) = pcw (if p = [] then n else parent_of p) sc"
      "aligned (if p = [] then n else parent_of p)"
      using min sp ad al tree_at_alloc [OF tr(1)] by (auto simp: s1_def spliced_def)
    show "nodes s1 (ptr_of sr) \<noteq> None" if "ptr_of sr \<noteq> NULL"
      using that heap(3) tree_at_alloc [OF tr(1)] ptr_of_in [of sr] ad(2) sp by (auto simp: s1_def spliced_def)
    show "distinct ([n, sa, ptr_of l] @ (if ptr_of sr = NULL then [] else [ptr_of sr]) @ ctx_addrs k)"
      using f' ad(1) srin ptr_of_in [OF f(2)] heap(3) by auto
  qed (use f' f(2) in auto)
  then obtain s' where s': "erase_unlink s n = Some (s', if sr = Lf \<and> sc = Black then par else NULL)"
    "transplanted s1 s' k c l par sa (ptr_of sr)"
    using un heap by auto
  note t = s'(2) [unfolded transplanted_def]
  have io: "inorder r = sa # inorder sr @ after p" "before p = []"
    using split_min_plug [OF sp f(3)] inorder_plug [of "Nd Lf sc sa sr" p] split_min_before [OF sp] by auto
  have "nodes s' sa = Some \<lparr>parent_color = pcw (parent_of k) c,
      node_right = ptr_of (plug (paint Black sr) p), node_left = ptr_of l\<rparr>"
    using t min sp by (cases "p = []") (auto simp: s1_def spliced_def)
  moreover have "tree_at (nodes s') sa l" "tree_at (nodes s') sa (plug (paint Black sr) p)"
    using transplanted_subtrees [OF s'(2) [unfolded s1_def] f sp par_def] by auto
  moreover have "distinct (before k @ inorder (Nd l c n r) @ after k)"
    using f(1) by (simp only: focus_def)
  then have "distinct (before k @ inorder (Nd l c sa (plug (paint Black sr) p)) @ after k)"
    using io by auto
  ultimately have "focus s' (Nd l c sa (plug (paint Black sr) p)) k"
    using t min by (simp only: focus_def tree_at.simps ptr_of.simps simp_thms)
  then have "focus s' (paint Black sr) (p @ FR l c sa # k)"
    by (simp flip: rep_plug add: plug_append)
  moreover have "same_outside (set (inorder (plug (Nd l c n r) k))) s s'"
    unfolding same_outside_def
  proof (intro allI impI)
    fix b assume "b \<notin> set (inorder (plug (Nd l c n r) k))"
    then have b: "b \<notin> set (inorder r)" "b \<notin> set (inorder l)" "b \<notin> set (ctx_addrs k)" by auto
    then have "b \<notin> {sa, ptr_of l} \<union> set (ctx_addrs k)" "b \<noteq> ptr_of sr \<or> ptr_of sr = NULL"
      using ad(1) ptr_of_in [OF f(2)] srin heap(3) by auto
    with t out [OF b(1)] show "nodes s' b = nodes s b" by (simp add: s1_def)
  qed
  moreover have "par = parent_of (p @ FR l c sa # k)"
    by (cases p) (auto simp: par_def)
  ultimately show ?thesis
    using s'(1) by (auto simp: erase_stepped_def simp del: inorder_plug)
qed


lemma erase_unlink_refines:
  assumes "focus s (Nd l c n r) k" "del_unlink l c r k = (u, k', short)"
  shows "returns (erase_unlink s n) (erase_stepped (Nd l c n r) k s (u, short) k')"
proof -
  consider "l = Lf" | "l \<noteq> Lf" "r = Lf" | (two) sc sa sr p where "l \<noteq> Lf" "r \<noteq> Lf" "split_min r = (sc, sa, sr, p)"
    by (cases "split_min r") blast
  then show ?thesis
  proof cases
    case two
    then have "u = paint Black sr" "k' = p @ FR l c sa # k" "short \<longleftrightarrow> sr = Lf \<and> sc = Black"
      using assms(2) by (cases l; cases r; simp)+
    then show ?thesis
      using erase_unlink_two [OF assms(1) two] by simp
  qed (use assms erase_unlink_left_leaf erase_unlink_right_leaf in blast)+
qed

text \<open>Erasing a node of a well-formed tree.\<close>

theorem hev_rbtree_erase_correct:
  assumes "rep s (plug (Nd l c n r) k)" "rbt_ok (plug (Nd l c n r) k)"
  shows "\<exists>s' t'. hev_rbtree_erase s n = Some s' \<and> rep s' t' \<and> rbt_ok t'
      \<and> inorder t' = before k @ inorder l @ inorder r @ after k
      \<and> same_outside (set (inorder (plug (Nd l c n r) k))) s s'"
proof -
  obtain u k' short where u: "del_unlink l c r k = (u, k', short)"
    by (cases "del_unlink l c r k") auto
  note ok = del_unlink_ok [OF assms(2) u]
  obtain s1 p where s1: "erase_unlink s n = Some (s1, p)" "p = (if short then parent_of k' else NULL)"
    "focus s1 u k'" "same_outside (set (inorder (plug (Nd l c n r) k))) s s1"
    using erase_unlink_refines [OF assms(1) [unfolded rep_plug] u]
    by (auto simp: returns_def erase_stepped_def simp del: inorder_plug)
  have null: "parent_of k' = NULL \<longleftrightarrow> k' = []"
    using s1(3) parent_of_null by (auto simp: focus_def)
  show ?thesis
  proof (cases "short \<and> k' \<noteq> []")
    case True
    then have "u = Lf" "ctx_ok k' Black 1" using ok(2) by auto
    then obtain t' where t': "del_fix u k' = Some t'" "rbt_ok t'" "inorder t' = before k' @ inorder u @ after k'"
      using del_fix_ok [of Lf k'] by auto
    have "set (inorder (plug u k')) \<subseteq> set (inorder (plug (Nd l c n r) k))"
      using ok(1) [THEN arg_cong, of set] by auto
    moreover obtain s2 where s2: "erase_color_loop s1 NULL (parent_of k') = Some s2" "rep s2 t'"
      "same_outside (set (inorder (plug u k'))) s1 s2"
      using erase_color_loop_refines [OF t'(1) s1(3)] True \<open>u = Lf\<close>
      by (auto simp: returns_def rebalanced_def simp del: inorder_plug)
    ultimately have "same_outside (set (inorder (plug (Nd l c n r) k))) s s2"
      using s1(4) by (auto simp: same_outside_def simp del: inorder_plug)
    moreover have "hev_rbtree_erase s n = Some s2"
      using s1 s2 True null by (simp add: hev_rbtree_erase_def)
    ultimately show ?thesis
      using s2 t' ok(1) by (metis (no_types))
  next
    case False
    then have "rbt_ok (plug u k')" "p = NULL"
      using ok(2) s1(2) null by (auto simp: rbt_ok_def split: if_splits)
    moreover have "hev_rbtree_erase s n = Some s1"
      using s1(1) \<open>p = NULL\<close> by (simp add: hev_rbtree_erase_def)
    ultimately show ?thesis
      using s1(3,4) ok(1) rep_plug [of s1 u k'] by (metis inorder_plug)
  qed
qed

end
