(* ===== verification/RBTree_Iter.thy ===== *)
theory RBTree_Iter
  imports RBTree_Unlink
begin

text \<open>
  Iteration and replacement: \<open>hev_rbtree_first\<close> and \<open>hev_rbtree_last\<close> return the ends of
  the in-order sequence, \<open>hev_rbtree_node_next\<close> and \<open>hev_rbtree_node_prev\<close> its neighbours
  (NULL past either end), and \<open>hev_rbtree_replace\<close> puts another struct in a node's place.
\<close>

section \<open>Descents\<close>

lemma go_left_tree:
  "tree_at (nodes s) q t \<Longrightarrow> t \<noteq> Lf \<Longrightarrow> go_left s (ptr_of t) = Some (hd (inorder t))"
proof (induction t arbitrary: q)
  case (Nd l c a r)
  then show ?case
    using ptr_of_null [of "nodes s" a l]
    by (cases "l = Lf"; subst go_left.simps) (auto simp: rb_access_defs hd_append dest: ptr_of_in)
qed simp

lemma go_right_tree:
  "tree_at (nodes s) q t \<Longrightarrow> t \<noteq> Lf \<Longrightarrow> go_right s (ptr_of t) = Some (last (inorder t))"
proof (induction t arbitrary: q)
  case (Nd l c a r)
  then show ?case
    using ptr_of_null [of "nodes s" a r]
    by (cases "r = Lf"; subst go_right.simps) (auto simp: rb_access_defs dest: ptr_of_in)
qed simp

lemma inorder_Nil [simp]: "inorder t = [] \<longleftrightarrow> t = Lf"
  by (cases t) auto

theorem hev_rbtree_first_correct:
  "rep s t \<Longrightarrow> hev_rbtree_first s = Some (hd (inorder t @ [NULL]))"
  by (cases "t = Lf") (auto simp: hev_rbtree_first_def rep_def go_left_tree ptr_of_null hd_append)

theorem hev_rbtree_last_correct:
  "rep s t \<Longrightarrow> hev_rbtree_last s = Some (last (NULL # inorder t))"
  by (cases "t = Lf") (auto simp: hev_rbtree_last_def rep_def go_right_tree ptr_of_null last_append)

section \<open>Climbs\<close>

lemma focus_ctx:
  assumes "focus s t k"
  shows "ctx_at (nodes s) (root s) (ptr_of t) k" "aligned (parent_of k)" "distinct (ctx_addrs k)"
  using assms by (auto simp: focus_def dest: aligned_parent_of)

lemma focus_parent: "focus s t k \<Longrightarrow> t \<noteq> Lf \<Longrightarrow> hev_rbtree_node_parent s (ptr_of t) = Some (parent_of k)"
  using focus_ctx(2) [of s t k] by (cases t) (auto simp: focus_def rb_access_defs)

lemma focus_ne_parent: "focus s t k \<Longrightarrow> t \<noteq> Lf \<Longrightarrow> ptr_of t \<noteq> parent_of k"
  using parent_of_in [of k] ptr_of_in [of t] parent_of_null [of "nodes s" "root s" "ptr_of t" k]
    ptr_of_null [of "nodes s" "parent_of k" t]
  by (cases "k = []") (auto simp: focus_def)

lemma up_while_left_focus:
  "focus s t k \<Longrightarrow> t \<noteq> Lf \<Longrightarrow> up_while_left s (ptr_of t) = Some (last (NULL # before k))"
proof (induction k arbitrary: t)
  case Nil
  then show ?case by (subst up_while_left.simps) (simp add: focus_parent)
next
  case (Cons f k)
  have up: "focus s (fill t f) k" using Cons focus_up by blast
  show ?case
  proof (cases f)
    case (FL c a r)
    then have "get_left s a = Some (ptr_of t)" "a \<noteq> NULL"
      using Cons by (auto simp: focus_def rb_access_defs)
    then show ?thesis
      using FL focus_parent [OF Cons(2,3)] Cons(1) [OF up]
      by (subst up_while_left.simps) auto
  next
    case (FR l c a)
    then have "get_left s a = Some (ptr_of l)" "a \<noteq> NULL"
      using Cons by (auto simp: focus_def rb_access_defs)
    then show ?thesis
      using FR focus_parent [OF Cons(2,3)] focus_ne_sibling(2) [OF Cons(2) [unfolded FR] Cons(3)]
      by (subst up_while_left.simps) auto
  qed
qed

lemma up_while_right_focus:
  "focus s t k \<Longrightarrow> t \<noteq> Lf \<Longrightarrow> up_while_right s (ptr_of t) = Some (hd (after k @ [NULL]))"
proof (induction k arbitrary: t)
  case Nil
  then show ?case by (subst up_while_right.simps) (simp add: focus_parent)
next
  case (Cons f k)
  have up: "focus s (fill t f) k" using Cons focus_up by blast
  show ?case
  proof (cases f)
    case (FR l c a)
    then have "get_right s a = Some (ptr_of t)" "a \<noteq> NULL"
      using Cons by (auto simp: focus_def rb_access_defs)
    then show ?thesis
      using FR focus_parent [OF Cons(2,3)] Cons(1) [OF up]
      by (subst up_while_right.simps) auto
  next
    case (FL c a r)
    then have "get_right s a = Some (ptr_of r)" "a \<noteq> NULL"
      using Cons by (auto simp: focus_def rb_access_defs)
    then show ?thesis
      using FL focus_parent [OF Cons(2,3)] focus_ne_sibling(1) [OF Cons(2) [unfolded FL] Cons(3)]
      by (subst up_while_right.simps) auto
  qed
qed

section \<open>In-order neighbours\<close>

lemma pcw_Black_not_aligned: "aligned a \<Longrightarrow> aligned p \<Longrightarrow> pcw p Black \<noteq> a"
  by (metis color.distinct(1) pc_is_black_pcw pcw_Red)

lemma focus_not_empty: "focus s (Nd l c n r) k \<Longrightarrow> hev_rbtree_node_empty s n = Some False"
  using focus_ne_parent [of s "Nd l c n r" k] pcw_Black_not_aligned [of n "parent_of k"]
    focus_ctx(2) [of s "Nd l c n r" k]
  by (cases c) (auto simp: hev_rbtree_node_empty_def focus_def rb_access_defs)

theorem hev_rbtree_node_next_focus:
  assumes "focus s (Nd l c n r) k"
  shows "hev_rbtree_node_next s n = Some (hd (inorder r @ after k @ [NULL]))"
  using assms focus_not_empty [OF assms] go_left_tree [of s n r] up_while_right_focus [OF assms] ptr_of_null [of "nodes s" n r]
  by (cases "r = Lf") (auto simp: hev_rbtree_node_next_def focus_def rb_access_defs hd_append)

theorem hev_rbtree_node_prev_focus:
  assumes "focus s (Nd l c n r) k"
  shows "hev_rbtree_node_prev s n = Some (last (NULL # before k @ inorder l))"
  using assms focus_not_empty [OF assms] go_right_tree [of s n l] up_while_left_focus [OF assms] ptr_of_null [of "nodes s" n l]
  by (cases "l = Lf") (auto simp: hev_rbtree_node_prev_def focus_def rb_access_defs last_append)

lemma plug_at:
  "a \<in> set (inorder t) \<Longrightarrow> \<exists>l c r k. t = plug (Nd l c a r) k"
proof (induction t)
  case (Nd l c b r)
  consider "a \<in> set (inorder l)" | "a = b" | "a \<in> set (inorder r)" using Nd by auto
  then show ?case
  proof cases
    case 1
    then obtain l' c' r' k where "l = plug (Nd l' c' a r') k" using Nd by blast
    then have "Nd l c b r = plug (Nd l' c' a r') (k @ [FL c b r])" by (simp add: plug_append)
    then show ?thesis by blast
  next
    case 2
    have "Nd l c b r = plug (Nd l c b r) []" by simp
    with 2 show ?thesis by blast
  next
    case 3
    then obtain l' c' r' k where "r = plug (Nd l' c' a r') k" using Nd by blast
    then have "Nd l c b r = plug (Nd l' c' a r') (k @ [FR l c b])" by (simp add: plug_append)
    then show ?thesis by blast
  qed
qed simp

text \<open>The position of a node in the order determines both neighbours.\<close>

lemma neighbours:
  assumes "rep s t" "i < length (inorder t)"
  shows "hev_rbtree_node_next s (inorder t ! i) = Some ((inorder t @ [NULL]) ! Suc i)"
    and "hev_rbtree_node_prev s (inorder t ! i) = Some ((NULL # inorder t) ! i)"
proof -
  obtain l c r k where t: "t = plug (Nd l c (inorder t ! i) r) k"
    using plug_at nth_mem assms(2) by blast
  obtain n where n: "n = inorder t ! i" by blast
  obtain A where A: "A = before k @ inorder l" by blast
  obtain B where B: "B = inorder r @ after k" by blast
  have f: "focus s (Nd l c n r) k" using assms(1) t rep_plug n by metis
  have io: "inorder t = A @ n # B"
    using t unfolding n A B by (metis append.assoc append_Cons inorder.simps(2) inorder_plug)
  have "distinct (inorder t)" using assms(1) by (simp add: rep_def)
  moreover have "inorder t ! length A = n" "length A < length (inorder t)"
    by (simp_all add: io)
  ultimately have i: "i = length A"
    using nth_eq_iff_index_eq assms(2) n by metis
  have "hev_rbtree_node_next s n = Some (hd (B @ [NULL]))"
    using hev_rbtree_node_next_focus [OF f] by (simp add: B)
  then show "hev_rbtree_node_next s (inorder t ! i) = Some ((inorder t @ [NULL]) ! Suc i)"
    unfolding n [symmetric] by (cases B) (auto simp: io i nth_append)
  have "hev_rbtree_node_prev s n = Some (last (NULL # A))"
    using hev_rbtree_node_prev_focus [OF f] by (simp add: A)
  then show "hev_rbtree_node_prev s (inorder t ! i) = Some ((NULL # inorder t) ! i)"
    unfolding n [symmetric] by (cases A rule: rev_cases) (auto simp: io i nth_append)
qed

text \<open>Replacing a node by another struct at the same place.\<close>

lemma change_child_focus:
  assumes "ctx_at (nodes s) (root s) old k" "old \<noteq> NULL" "old \<notin> set (ctx_addrs k)"
    and t: "tree_at (nodes s) (parent_of k) t" "ptr_of t = new" "distinct (before k @ inorder t @ after k)"
  shows "returns (hev_rbtree_change_child s old new (parent_of k)) (\<lambda>s'. focus s' t k)"
proof (rule change_child_returns [OF assms(1-3)])
  show "distinct (ctx_addrs k)" using t(3) by auto
  fix s' :: hev_rbtree
  assume s': "ctx_at (nodes s') (root s') new k" "\<And>a. a \<notin> set (ctx_addrs k) \<Longrightarrow> nodes s' a = nodes s a"
  have "tree_at (nodes s') (parent_of k) t"
    using t(3) by (intro tree_at_same [OF t(1)] s'(2)) auto
  then show "focus s' t k" using s'(1) t(2,3) by (simp add: focus_def)
qed

theorem hev_rbtree_replace_correct:
  assumes "rep s (plug (Nd l c n r) k)" and new: "nodes s m \<noteq> None" "aligned m" "m \<noteq> NULL"
    "m \<notin> set (inorder (plug (Nd l c n r) k))"
  shows "\<exists>s'. hev_rbtree_replace s n m = Some s' \<and> rep s' (plug (Nd l c m r) k)"
proof -
  note f = assms(1) [unfolded rep_plug]
  have "returns (hev_rbtree_replace s n m) (\<lambda>s'. focus s' (Nd l c m r) k)"
    using f [unfolded focus_def] focus_ctx(2) [OF f] new
    by (cases l; cases r; clarsimp; simp add: hev_rbtree_replace_def rb_exec)
      (rule change_child_focus; auto)+
  then show ?thesis by (auto simp: returns_def rep_plug)
qed

end
