(* ===== verification/RBTree_Search.thy ===== *)
theory RBTree_Search
  imports RBTree_Iter
begin

text \<open>
  Searching an intrusive tree by key. The two clients of the tree (the mapped-DNS cache and
  the authenticator) each write out the same descent with their own comparison; \<open>rb_descend\<close>
  and \<open>rb_lookup\<close> are those loops with the comparison as an argument. The locale
  \<open>key_order\<close> is what a comparison has to satisfy, and inside it search, insertion and
  erasure are specified on the set of nodes of the tree (\<open>keyed_tree\<close>).
\<close>

section \<open>Comparison of byte strings\<close>

text \<open>
  The C library specifies only the sign of the results of \<open>strcmp\<close> and \<open>memcmp\<close>. A C string
  is the list of its bytes before the terminator.
\<close>

fun strcmp :: "byte list \<Rightarrow> byte list \<Rightarrow> int" where
  "strcmp [] [] = 0"
| "strcmp [] (y # ys) = -1"
| "strcmp (x # xs) [] = 1"
| "strcmp (x # xs) (y # ys) = (if x < y then -1 else if y < x then 1 else strcmp xs ys)"

definition memcmp :: "byte list \<Rightarrow> byte list \<Rightarrow> nat \<Rightarrow> int" where
  "memcmp xs ys n = strcmp (take n xs) (take n ys)"

lemma strcmp_eq_0 [simp]: "strcmp xs ys = 0 \<longleftrightarrow> xs = ys"
  by (induction xs ys rule: strcmp.induct) auto

lemma strcmp_sym: "strcmp xs ys < 0 \<longleftrightarrow> 0 < strcmp ys xs"
  by (induction xs ys rule: strcmp.induct) auto

lemma strcmp_trans: "strcmp xs ys < 0 \<Longrightarrow> strcmp ys zs < 0 \<Longrightarrow> strcmp xs zs < 0"
proof (induction xs ys arbitrary: zs rule: strcmp.induct)
  case (2 y ys)
  then show ?case by (cases zs) auto
next
  case (4 x xs y ys)
  then show ?case by (cases zs) (auto split: if_splits)
qed auto

section \<open>The search loop\<close>

definition load_link :: "hev_rbtree \<Rightarrow> link \<Rightarrow> ptr option" where
  "load_link s l = (case l of
      LinkRoot \<Rightarrow> Some (root s)
    | LinkLeft p \<Rightarrow> get_left s p
    | LinkRight p \<Rightarrow> get_right s p)"

text \<open>
  \<open>while (*new)\<close> with the address of a child field as the cursor: the result is the cursor,
  the parent and the node whose comparison was 0 (NULL when the loop ran off the tree).
\<close>

partial_function (option) rb_descend ::
  "(ptr \<Rightarrow> int option) \<Rightarrow> hev_rbtree \<Rightarrow> link \<Rightarrow> ptr \<Rightarrow> (link \<times> ptr \<times> ptr) option" where
  "rb_descend cmp s new parent = do {
     p \<leftarrow> load_link s new;
     if p = NULL then Some (new, parent, NULL)
     else do {
       res \<leftarrow> cmp p;
       if res < 0 then rb_descend cmp s (LinkLeft p) p
       else if res > 0 then rb_descend cmp s (LinkRight p) p
       else Some (new, p, p) } }"

text \<open>The simpler loop with the node itself as the cursor.\<close>

partial_function (option) rb_lookup ::
  "(ptr \<Rightarrow> int option) \<Rightarrow> hev_rbtree \<Rightarrow> ptr \<Rightarrow> ptr option" where
  "rb_lookup cmp s node =
     (if node = NULL then Some NULL
      else do {
        res \<leftarrow> cmp node;
        if res < 0 then do { l \<leftarrow> get_left s node; rb_lookup cmp s l }
        else if res > 0 then do { r \<leftarrow> get_right s node; rb_lookup cmp s r }
        else Some node })"

lemma load_link_focus: "focus s t k \<Longrightarrow> load_link s (link_of k) = Some (ptr_of t)"
  by (cases k rule: before.cases) (auto simp: load_link_def focus_def rb_access_defs)

text \<open>
  A comparator \<open>c\<close> against a fixed key splits the tree when the nodes above the key come
  first in the order and the nodes below it last.
\<close>

definition splits :: "(ptr \<Rightarrow> int) \<Rightarrow> ptr list \<Rightarrow> bool" where
  "splits c xs \<longleftrightarrow> sorted_wrt (\<lambda>x y. 0 \<le> c y \<longrightarrow> 0 < c x) xs"

lemma splits_append:
  "splits c (xs @ ys) \<longleftrightarrow> splits c xs \<and> splits c ys \<and> (\<forall>x\<in>set xs. \<forall>y\<in>set ys. 0 \<le> c y \<longrightarrow> 0 < c x)"
  by (auto simp: splits_def sorted_wrt_append)

lemma splits_Cons: "splits c (x # xs) \<longleftrightarrow> (\<forall>y\<in>set xs. 0 \<le> c y \<longrightarrow> 0 < c x) \<and> splits c xs"
  by (auto simp: splits_def)

lemma splits_at:
  assumes "splits c (xs @ n # ys)"
  shows "c n < 0 \<Longrightarrow> y \<in> set ys \<Longrightarrow> c y < 0" "0 < c n \<Longrightarrow> x \<in> set xs \<Longrightarrow> 0 < c x"
  using assms by (force simp: splits_append splits_Cons)+

definition descended :: "(ptr \<Rightarrow> int) \<Rightarrow> rbt \<Rightarrow> (link \<times> ptr \<times> ptr) option \<Rightarrow> bool" where
  "descended c t res \<longleftrightarrow>
     (\<exists>l pc n r k. t = plug (Nd l pc n r) k \<and> c n = 0 \<and> res = Some (link_of k, n, n))
     \<or> (\<exists>k. t = plug Lf k \<and> (\<forall>a\<in>set (before k). 0 < c a) \<and> (\<forall>a\<in>set (after k). c a < 0)
         \<and> res = Some (link_of k, parent_of k, NULL))"

lemma rb_descend_focus:
  assumes "focus s t k" and "\<And>a. a \<in> set (inorder (plug t k)) \<Longrightarrow> cmp a = Some (c a)"
    and "splits c (inorder (plug t k))"
    and "\<forall>a\<in>set (before k). 0 < c a" "\<forall>a\<in>set (after k). c a < 0"
  shows "descended c (plug t k) (rb_descend cmp s (link_of k) (parent_of k))"
  using assms
proof (induction t arbitrary: k)
  case Lf
  have "rb_descend cmp s (link_of k) (parent_of k) = Some (link_of k, parent_of k, NULL)"
    using load_link_focus [OF Lf(1)] by (subst rb_descend.simps) simp
  with Lf(4,5) show ?case unfolding descended_def by blast
next
  case (Nd l pc n r)
  have n: "n \<noteq> NULL" "load_link s (link_of k) = Some n" "cmp n = Some (c n)"
    using Nd(3,4) load_link_focus [OF Nd(3)] by (auto simp: focus_def)
  consider "c n = 0" | "c n < 0" | "c n > 0" by linarith
  then show ?case
  proof cases
    case 1
    have "rb_descend cmp s (link_of k) (parent_of k) = Some (link_of k, n, n)"
      using n 1 by (subst rb_descend.simps) simp
    with 1 show ?thesis unfolding descended_def by blast
  next
    case 2
    have "\<forall>a\<in>set (after (FL pc n r # k)). c a < 0"
      using 2 Nd(7) splits_at(1) [of c "before k @ inorder l" n "inorder r @ after k"] Nd(5) by auto
    moreover have "rb_descend cmp s (link_of k) (parent_of k) = rb_descend cmp s (link_of (FL pc n r # k)) n"
      using n 2 by (subst rb_descend.simps) simp
    ultimately show ?thesis
      using Nd(1) [of "FL pc n r # k"] Nd(3-6) focus_up [of s l "FL pc n r" k] by simp
  next
    case 3
    have "\<forall>a\<in>set (before (FR l pc n # k)). 0 < c a"
      using 3 Nd(6) splits_at(2) [of c "before k @ inorder l" n "inorder r @ after k"] Nd(5) by auto
    moreover have "rb_descend cmp s (link_of k) (parent_of k) = rb_descend cmp s (link_of (FR l pc n # k)) n"
      using n 3 by (subst rb_descend.simps) simp
    ultimately show ?thesis
      using Nd(2) [of "FR l pc n # k"] Nd(3-5,7) focus_up [of s r "FR l pc n" k] by simp
  qed
qed

lemma rb_lookup_descend:
  assumes "focus s t k" and "\<And>a. a \<in> set (inorder t) \<Longrightarrow> cmp a = Some (c a)"
  shows "rb_lookup cmp s (ptr_of t) = map_option (\<lambda>(l, p, n). n) (rb_descend cmp s (link_of k) (parent_of k))"
  using assms
proof (induction t arbitrary: k)
  case Lf
  then show ?case
    using load_link_focus [OF Lf(1)] by (subst rb_descend.simps, subst rb_lookup.simps) simp
next
  case (Nd l pc n r)
  have n: "n \<noteq> NULL" "load_link s (link_of k) = Some n" "cmp n = Some (c n)"
    "get_left s n = Some (ptr_of l)" "get_right s n = Some (ptr_of r)"
    using Nd(3,4) load_link_focus [OF Nd(3)] by (auto simp: focus_def rb_access_defs)
  then show ?case
    using Nd(1) [of "FL pc n r # k"] Nd(2) [of "FR l pc n # k"] Nd(3,4)
      focus_up [of s l "FL pc n r" k] focus_up [of s r "FR l pc n" k]
    by (subst rb_descend.simps, subst rb_lookup.simps) auto
qed

section \<open>Trees ordered by a key\<close>

text \<open>
  Both users of the tree walk left when the node compares below the key, so the in-order
  sequence is descending.
\<close>

definition key_desc :: "('k \<Rightarrow> 'k \<Rightarrow> int) \<Rightarrow> (ptr \<Rightarrow> 'k) \<Rightarrow> ptr list \<Rightarrow> bool" where
  "key_desc cmp key xs \<longleftrightarrow> sorted_wrt (\<lambda>x y. cmp (key y) (key x) < 0) xs"

definition keyed_tree :: "('k \<Rightarrow> 'k \<Rightarrow> int) \<Rightarrow> (ptr \<Rightarrow> 'k) \<Rightarrow> hev_rbtree \<Rightarrow> ptr set \<Rightarrow> bool" where
  "keyed_tree cmp key s N \<longleftrightarrow>
     (\<exists>t. rep s t \<and> rbt_ok t \<and> key_desc cmp key (inorder t) \<and> set (inorder t) = N)"

lemma keyed_tree_cong:
  assumes "keyed_tree cmp key s N" "root s' = root s" "\<And>a. a \<in> N \<Longrightarrow> nodes s' a = nodes s a"
    and "\<And>a. a \<in> N \<Longrightarrow> key' a = key a"
  shows "keyed_tree cmp key' s' N"
proof -
  obtain t where t: "rep s t" "rbt_ok t" "key_desc cmp key (inorder t)" "set (inorder t) = N"
    using assms(1) by (auto simp: keyed_tree_def)
  have "rep s' t"
    using t(1) tree_at_same [of "nodes s" NULL t "nodes s'"] assms(2,3) t(4) by (auto simp: rep_def)
  moreover have "key_desc cmp key' (inorder t)"
    using t(3,4) assms(4) by (auto simp: key_desc_def intro: sorted_wrt_mono_rel [rotated])
  ultimately show ?thesis using t by (auto simp: keyed_tree_def)
qed

lemma keyed_tree_empty: "keyed_tree cmp key \<lparr>nodes = h, root = NULL\<rparr> {}"
  by (auto simp: keyed_tree_def rep_def rbt_ok_def key_desc_def intro: exI [of _ Lf])

lemma keyed_tree_alloc: "keyed_tree cmp key s N \<Longrightarrow> n \<in> N \<Longrightarrow> nodes s n \<noteq> None \<and> aligned n \<and> n \<noteq> NULL"
  using tree_at_alloc unfolding keyed_tree_def rep_def by blast

lemma keyed_tree_finite: "keyed_tree cmp key s N \<Longrightarrow> finite N"
  by (auto simp: keyed_tree_def)

lemma keyed_tree_first:
  assumes "keyed_tree cmp key s N"
  shows "\<exists>p. hev_rbtree_first s = Some p \<and> (if N = {} then p = NULL else p \<in> N)"
proof -
  obtain t where t: "rep s t" "set (inorder t) = N" using assms by (auto simp: keyed_tree_def)
  then show ?thesis
    using hev_rbtree_first_correct [OF t(1)] by (cases "inorder t") auto
qed

text \<open>
  A cursor \<open>l\<close> with parent \<open>p\<close> is where a node with key \<open>k\<close> belongs: linking it there, in a
  heap that has not changed on the nodes of the tree, keeps the tree ordered and balanced.
\<close>

definition link_fits ::
  "('k \<Rightarrow> 'k \<Rightarrow> int) \<Rightarrow> (ptr \<Rightarrow> 'k) \<Rightarrow> hev_rbtree \<Rightarrow> ptr set \<Rightarrow> 'k \<Rightarrow> link \<Rightarrow> ptr \<Rightarrow> bool" where
  "link_fits cmp key s N k l p \<longleftrightarrow>
     (\<forall>s1 n key'. root s1 = root s \<longrightarrow> (\<forall>a\<in>N. nodes s1 a = nodes s a \<and> key' a = key a)
        \<longrightarrow> nodes s1 n \<noteq> None \<longrightarrow> aligned n \<longrightarrow> n \<noteq> NULL \<longrightarrow> n \<notin> N \<longrightarrow> key' n = k
        \<longrightarrow> (\<exists>s2. rb_insert_at s1 n p l = Some s2 \<and> keyed_tree cmp key' s2 (insert n N)
              \<and> same_outside (insert n N) s1 s2))"

lemma link_fitsD:
  assumes "link_fits cmp key s N k l p" "root s1 = root s"
    "\<And>a. a \<in> N \<Longrightarrow> nodes s1 a = nodes s a" "\<And>a. a \<in> N \<Longrightarrow> key' a = key a"
    "nodes s1 n \<noteq> None" "aligned n" "n \<noteq> NULL" "n \<notin> N" "key' n = k"
  obtains s2 where "rb_insert_at s1 n p l = Some s2" "keyed_tree cmp key' s2 (insert n N)"
    "same_outside (insert n N) s1 s2"
  using assms unfolding link_fits_def by blast

locale key_order =
  fixes cmp :: "'k \<Rightarrow> 'k \<Rightarrow> int"
  assumes cmp_eq: "cmp a b = 0 \<longleftrightarrow> a = b"
    and cmp_sym: "cmp a b < 0 \<longleftrightarrow> 0 < cmp b a"
    and cmp_trans: "cmp a b < 0 \<Longrightarrow> cmp b c < 0 \<Longrightarrow> cmp a c < 0"
begin

lemma desc_splits:
  assumes "key_desc cmp key xs"
  shows "splits (\<lambda>p. cmp (key p) k) xs"
  unfolding splits_def
proof (rule sorted_wrt_mono_rel [OF _ assms [unfolded key_desc_def]])
  fix x y assume xy: "cmp (key y) (key x) < 0"
  show "0 \<le> cmp (key y) k \<longrightarrow> 0 < cmp (key x) k"
  proof
    assume "0 \<le> cmp (key y) k"
    then have "cmp k (key y) < 0 \<or> key y = k"
      using cmp_eq cmp_sym by (metis less_le)
    then show "0 < cmp (key x) k"
      using xy cmp_trans cmp_sym by blast
  qed
qed

lemma desc_unique:
  "key_desc cmp key xs \<Longrightarrow> x \<in> set xs \<Longrightarrow> y \<in> set xs \<Longrightarrow> key x = key y \<Longrightarrow> x = y"
proof (induction xs)
  case (Cons a xs)
  have "cmp (key a) (key a) = 0" using cmp_eq by simp
  with Cons show ?case by (force simp: key_desc_def)
qed simp

lemma desc_insert:
  assumes "key_desc cmp key (xs @ ys)"
    and "\<And>a. a \<in> set xs \<Longrightarrow> 0 < cmp (key a) (key n)" "\<And>a. a \<in> set ys \<Longrightarrow> cmp (key a) (key n) < 0"
  shows "key_desc cmp key (xs @ n # ys)"
  using assms cmp_sym by (auto simp: key_desc_def sorted_wrt_append)

lemma desc_remove: "key_desc cmp key (xs @ n # ys) \<Longrightarrow> key_desc cmp key (xs @ ys)"
  by (auto simp: key_desc_def sorted_wrt_append)

lemma keyed_unique:
  "keyed_tree cmp key s N \<Longrightarrow> x \<in> N \<Longrightarrow> y \<in> N \<Longrightarrow> key x = key y \<Longrightarrow> x = y"
  unfolding keyed_tree_def using desc_unique by blast

lemma keyed_descended:
  assumes "rep s t" "key_desc cmp key (inorder t)"
    and "\<And>a. a \<in> set (inorder t) \<Longrightarrow> f a = Some (cmp (key a) k)"
  shows "descended (\<lambda>p. cmp (key p) k) t (rb_descend f s LinkRoot NULL)"
  using rb_descend_focus [of s t "[]" f] assms desc_splits rep_plug [of s t "[]"] by simp

lemma keyed_lookup:
  assumes "keyed_tree cmp key s N" "\<And>a. a \<in> N \<Longrightarrow> f a = Some (cmp (key a) k)"
  shows "rb_lookup f s (root s) = map_option (\<lambda>(l, p, n). n) (rb_descend f s LinkRoot NULL)"
proof -
  obtain t where t: "rep s t" "set (inorder t) = N" using assms(1) by (auto simp: keyed_tree_def)
  then show ?thesis
    using rb_lookup_descend [of s t "[]" f "\<lambda>p. cmp (key p) k"] assms(2) rep_plug [of s t "[]"]
    by (simp add: rep_def)
qed

text \<open>A key that is in the tree is found.\<close>

lemma keyed_found:
  assumes kt: "keyed_tree cmp key s N" and "n \<in> N"
    and f: "\<And>a. a \<in> N \<Longrightarrow> f a = Some (cmp (key a) (key n))"
  shows "\<exists>l. rb_descend f s LinkRoot NULL = Some (l, n, n)" "rb_lookup f s (root s) = Some n"
proof -
  obtain t where t: "rep s t" "rbt_ok t" "key_desc cmp key (inorder t)" "set (inorder t) = N"
    using kt by (auto simp: keyed_tree_def)
  have d: "descended (\<lambda>p. cmp (key p) (key n)) t (rb_descend f s LinkRoot NULL)"
    using keyed_descended [OF t(1,3)] f t(4) by blast
  have "cmp (key n) (key n) = 0" using cmp_eq by simp
  then have "\<not> (t = plug Lf k \<and> (\<forall>a\<in>set (before k). 0 < cmp (key a) (key n))
      \<and> (\<forall>a\<in>set (after k). cmp (key a) (key n) < 0))" for k
    using \<open>n \<in> N\<close> t(4) by force
  then obtain l pc m r k where "t = plug (Nd l pc m r) k" "cmp (key m) (key n) = 0"
    and res: "rb_descend f s LinkRoot NULL = Some (link_of k, m, m)"
    using d unfolding descended_def by blast
  then have "m = n"
    using t desc_unique [OF t(3)] \<open>n \<in> N\<close> cmp_eq by auto
  with res show "\<exists>l. rb_descend f s LinkRoot NULL = Some (l, n, n)" by blast
  then show "rb_lookup f s (root s) = Some n"
    using keyed_lookup [OF kt f] by auto
qed

text \<open>
  A key that is not there is missed, and the cursor the loop stops at is where a node with
  that key can be linked; the node may have been allocated in the meantime.
\<close>

lemma keyed_absent:
  assumes kt: "keyed_tree cmp key s N" and new: "\<And>a. a \<in> N \<Longrightarrow> key a \<noteq> k"
    and f: "\<And>a. a \<in> N \<Longrightarrow> f a = Some (cmp (key a) k)"
  shows "\<exists>l p. rb_descend f s LinkRoot NULL = Some (l, p, NULL) \<and> rb_lookup f s (root s) = Some NULL
    \<and> link_fits cmp key s N k l p"
proof -
  obtain t where t: "rep s t" "rbt_ok t" "key_desc cmp key (inorder t)" "set (inorder t) = N"
    using kt by (auto simp: keyed_tree_def)
  have "descended (\<lambda>p. cmp (key p) k) t (rb_descend f s LinkRoot NULL)"
    using keyed_descended [OF t(1,3)] f t(4) by blast
  moreover have "cmp (key m) k \<noteq> 0" if "t = plug (Nd l pc m r) k'" for l pc m r k'
    using that new [of m] t(4) cmp_eq by auto
  ultimately obtain c where c: "t = plug Lf c" "\<forall>a\<in>set (before c). 0 < cmp (key a) k"
      "\<forall>a\<in>set (after c). cmp (key a) k < 0"
    and res: "rb_descend f s LinkRoot NULL = Some (link_of c, parent_of c, NULL)"
    unfolding descended_def by blast
  have N: "N = set (ctx_addrs c)" using c(1) t(4) by auto
  have "\<exists>s2. rb_insert_at s1 n (parent_of c) (link_of c) = Some s2 \<and> keyed_tree cmp key' s2 (insert n N)
      \<and> same_outside (insert n N) s1 s2"
    if s1: "root s1 = root s" "\<forall>a\<in>N. nodes s1 a = nodes s a \<and> key' a = key a"
      and n: "nodes s1 n \<noteq> None" "aligned n" "n \<noteq> NULL" "n \<notin> N" "key' n = k" for s1 n key'
  proof -
    have "rep s1 t"
      using t(1,4) tree_at_same [of "nodes s" NULL t "nodes s1"] s1 by (auto simp: rep_def)
    then obtain s2 t' where s2: "rb_insert_at s1 n (parent_of c) (link_of c) = Some s2" "rep s2 t'" "rbt_ok t'"
        "inorder t' = before c @ n # after c" "same_outside (insert n N) s1 s2"
      using rb_insert_at_correct [of s1 c n] t(2) n N c(1) by auto
    have "key_desc cmp key' (before c @ after c)"
      using t(3,4) c(1) s1(2) N
      by (auto simp: key_desc_def intro: sorted_wrt_mono_rel [rotated])
    then have "key_desc cmp key' (inorder t')"
      unfolding s2(4) using c(2,3) s1(2) n(5) N by (intro desc_insert) auto
    with s2 N show ?thesis by (auto simp: keyed_tree_def)
  qed
  then show ?thesis
    using res keyed_lookup [OF kt f] by (auto simp: link_fits_def)
qed

lemma keyed_erase:
  assumes "keyed_tree cmp key s N" "n \<in> N"
  shows "\<exists>s'. hev_rbtree_erase s n = Some s' \<and> keyed_tree cmp key s' (N - {n}) \<and> same_outside N s s'"
proof -
  obtain t where t: "rep s t" "rbt_ok t" "key_desc cmp key (inorder t)" "set (inorder t) = N"
    using assms(1) by (auto simp: keyed_tree_def)
  obtain l c r k where k: "t = plug (Nd l c n r) k" using plug_at assms(2) t(4) by metis
  obtain s' t' where s': "hev_rbtree_erase s n = Some s'" "rep s' t'" "rbt_ok t'"
    "inorder t' = before k @ inorder l @ inorder r @ after k" "same_outside N s s'"
    using hev_rbtree_erase_correct [of s l c n r k] t k by auto
  have io: "inorder t = (before k @ inorder l) @ n # (inorder r @ after k)" using k by simp
  then have "key_desc cmp key (inorder t')"
    using desc_remove [of key "before k @ inorder l" n "inorder r @ after k"] t(3) s'(4) by simp
  moreover have "distinct (inorder t)" using t(1) by (simp add: rep_def)
  then have "set (inorder t') = N - {n}"
    using s'(4) io t(4) by auto
  ultimately show ?thesis using s' by (auto simp: keyed_tree_def)
qed

end

interpretation by_name: key_order strcmp
  by unfold_locales (use strcmp_eq_0 strcmp_sym strcmp_trans in blast)+

end
