(* ===== verification/Tree_Theorems.thy ===== *)
theory Tree_Theorems
  imports RBTree_Search
begin

text \<open>
  What the red-black tree of \<open>hev-rbtree.c\<close> promises to its users, over the words in memory: insertion
  and erasure keep a balanced tree of exactly the right nodes and touch no other memory, the
  iterators enumerate it in order in both directions, a node can be replaced in place, and the
  search loops that the users run over it find a key exactly if it is there.
\<close>

section \<open>Height\<close>

fun rb_height :: "rbt \<Rightarrow> nat" where
  "rb_height Lf = 0"
| "rb_height (Nd l c a r) = Suc (max (rb_height l) (rb_height r))"

lemma height_bheight:
  "invc t \<Longrightarrow> invh t \<Longrightarrow> rb_height t \<le> 2 * bheight t + (if rb_color t = Black then 0 else 1)"
proof (induction t)
  case (Nd l c a r)
  then show ?case by (cases c; cases "rb_color l"; cases "rb_color r") auto
qed simp

lemma bheight_size: "invc t \<Longrightarrow> invh t \<Longrightarrow> 2 ^ bheight t \<le> Suc (length (inorder t))"
  by (induction t) auto

text \<open>A search visits at most \<open>2 * log2 (n + 1)\<close> nodes.\<close>

definition balanced :: "rbt \<Rightarrow> bool" where
  "balanced t \<longleftrightarrow> 2 ^ ((rb_height t + 1) div 2) \<le> Suc (length (inorder t))"

lemma rbt_ok_balanced: "rbt_ok t \<Longrightarrow> balanced t"
proof -
  assume ok: "rbt_ok t"
  then have "rb_height t \<le> 2 * bheight t" using height_bheight [of t] by (simp add: rbt_ok_def)
  then have "(rb_height t + 1) div 2 \<le> bheight t" by linarith
  then have "2 ^ ((rb_height t + 1) div 2) \<le> (2 :: nat) ^ bheight t" by (intro power_increasing) auto
  also have "\<dots> \<le> Suc (length (inorder t))" using ok bheight_size by (simp add: rbt_ok_def)
  finally show ?thesis by (simp add: balanced_def)
qed

section \<open>Properties\<close>

text \<open>A tree of one black node, with a second block of memory beside it.\<close>

definition tree1 :: hev_rbtree where
  "tree1 = \<lparr>nodes = [8 \<mapsto> \<lparr>parent_color = pcw NULL Black, node_right = NULL, node_left = NULL\<rparr>,
     16 \<mapsto> \<lparr>parent_color = 7, node_right = 7, node_left = 7\<rparr>], root = 8\<rparr>"

lemma tree1_rep: "rep tree1 (Nd Lf Black 8 Lf)" "rbt_ok (Nd Lf Black 8 Lf)"
  by (simp_all add: rep_def tree1_def rbt_ok_def aligned_def)

text \<open>
  C6. Insertion. Linking an allocated, aligned block that is not in the tree at any free position
  (the hole of \<open>k\<close>) and rebalancing terminates without a fault; the words in memory then form a
  red-black tree with the new node at that position of the sequence, of logarithmic height, and
  no memory outside the nodes of the tree has changed.
\<close>

theorem rbtree_insert_correct:
  assumes "rep s (plug Lf k)" "rbt_ok (plug Lf k)"
    and "nodes s n \<noteq> None" "aligned n" "n \<noteq> NULL" "n \<notin> set (inorder (plug Lf k))"
  shows "\<exists>s1 s' t'. hev_rbtree_node_link s n (parent_of k) (link_of k) = Some s1 \<and> hev_rbtree_insert_color s1 n = Some s'
    \<and> rep s' t' \<and> rbt_ok t' \<and> balanced t' \<and> inorder t' = before k @ n # after k
    \<and> same_outside (insert n (set (inorder (plug Lf k)))) s s'"
proof -
  obtain s' t' where "rb_insert_at s n (parent_of k) (link_of k) = Some s'" "rep s' t'" "rbt_ok t'"
    "inorder t' = before k @ n # after k" "same_outside (insert n (set (ctx_addrs k))) s s'"
    using rb_insert_at_correct [OF assms(1-5)] assms(6) by auto
  then show ?thesis
    using rbt_ok_balanced [of t'] by (fastforce simp: rb_insert_at_def bind_eq_Some_conv)
qed

theorem rbtree_insert_correct_witness:
  "\<exists>s1 s' t'. hev_rbtree_node_link tree1 16 8 (LinkLeft 8) = Some s1 \<and> hev_rbtree_insert_color s1 16 = Some s'
    \<and> rep s' t' \<and> rbt_ok t' \<and> inorder t' = [16, 8]"
  using rbtree_insert_correct [of tree1 "[FL Black 8 Lf]" 16] tree1_rep by (auto simp: tree1_def aligned_def)

text \<open>
  C5. Erasure. Erasing any node of the tree terminates without a fault; the words in memory then
  form a red-black tree of the remaining nodes in the same order, of logarithmic height, and no
  memory outside the tree has changed.
\<close>

theorem rbtree_erase_correct:
  assumes "rep s t" "rbt_ok t" "inorder t = xs @ n # ys"
  shows "\<exists>s' t'. hev_rbtree_erase s n = Some s' \<and> rep s' t' \<and> rbt_ok t' \<and> balanced t' \<and> inorder t' = xs @ ys
    \<and> same_outside (set (inorder t)) s s'"
proof -
  obtain l c r k where t: "t = plug (Nd l c n r) k" using plug_at [of n t] assms(3) by auto
  obtain s' t' where s': "hev_rbtree_erase s n = Some s'" "rep s' t'" "rbt_ok t'"
    "inorder t' = before k @ inorder l @ inorder r @ after k" "same_outside (set (inorder t)) s s'"
    using hev_rbtree_erase_correct [of s l c n r k] assms(1,2) t by auto
  have "distinct (xs @ n # ys)" using assms(1,3) by (simp add: rep_def)
  moreover have "xs @ n # ys = (before k @ inorder l) @ n # inorder r @ after k" using t assms(3) by simp
  ultimately have "xs = before k @ inorder l" "ys = inorder r @ after k"
    by (metis append_Cons_eq_iff distinct_append not_distinct_conv_prefix distinct.simps(2))+
  with s' rbt_ok_balanced [OF s'(3)] show ?thesis by auto
qed

theorem rbtree_erase_correct_witness:
  "\<exists>s' t'. hev_rbtree_erase tree1 8 = Some s' \<and> rep s' t' \<and> rbt_ok t' \<and> inorder t' = []"
  using rbtree_erase_correct [OF tree1_rep, of "[]" 8 "[]"] by auto

text \<open>
  Iteration. \<open>first\<close> and \<open>last\<close> are the ends of the sequence, or NULL for an empty tree, and \<open>next\<close>
  and \<open>prev\<close> lead from each node to its neighbour, or to NULL at the ends.
\<close>

theorem rbtree_iteration:
  assumes "rep s t"
  shows "hev_rbtree_first s = Some (hd (inorder t @ [NULL])) \<and> hev_rbtree_last s = Some (last (NULL # inorder t))
    \<and> (\<forall>i < length (inorder t). hev_rbtree_node_next s (inorder t ! i) = Some ((inorder t @ [NULL]) ! Suc i)
        \<and> hev_rbtree_node_prev s (inorder t ! i) = Some ((NULL # inorder t) ! i))"
  using hev_rbtree_first_correct [OF assms] hev_rbtree_last_correct [OF assms] neighbours [OF assms] by simp

theorem rbtree_iteration_witness:
  "hev_rbtree_first tree1 = Some 8 \<and> hev_rbtree_last tree1 = Some 8 \<and> hev_rbtree_node_next tree1 8 = Some NULL
    \<and> hev_rbtree_node_prev tree1 8 = Some NULL"
  using rbtree_iteration [OF tree1_rep(1)] by simp

text \<open>
  Replacement. A block that is not in the tree takes the place of a node: the tree keeps its
  shape and colours.
\<close>

theorem rbtree_replace_correct:
  assumes "rep s (plug (Nd l c n r) k)" "nodes s m \<noteq> None" "aligned m" "m \<noteq> NULL" "m \<notin> set (inorder (plug (Nd l c n r) k))"
  shows "\<exists>s'. hev_rbtree_replace s n m = Some s' \<and> rep s' (plug (Nd l c m r) k)"
  by (rule hev_rbtree_replace_correct [OF assms])

theorem rbtree_replace_correct_witness:
  "\<exists>s'. hev_rbtree_replace tree1 8 16 = Some s' \<and> rep s' (Nd Lf Black 16 Lf)"
  using rbtree_replace_correct [of tree1 Lf Black 8 Lf "[]" 16] tree1_rep by (auto simp: tree1_def aligned_def)

text \<open>
  Search. In a tree that is ordered by names, both search loops end; they find the node with a
  given name if there is one, and otherwise report NULL, the first of them with a link at which a
  node of that name can be inserted to give a tree that is ordered again.
\<close>

theorem rbtree_search_by_name:
  assumes "keyed_tree strcmp key s N" "\<And>a. a \<in> N \<Longrightarrow> f a = Some (strcmp (key a) nm)"
  shows "(\<forall>n\<in>N. key n = nm \<longrightarrow> rb_lookup f s (root s) = Some n \<and> (\<exists>l. rb_descend f s LinkRoot NULL = Some (l, n, n)))
    \<and> (nm \<notin> key ` N \<longrightarrow> rb_lookup f s (root s) = Some NULL \<and> (\<exists>l p. rb_descend f s LinkRoot NULL = Some (l, p, NULL)
        \<and> (\<forall>n. nodes s n \<noteq> None \<and> aligned n \<and> n \<noteq> NULL \<and> n \<notin> N \<and> key n = nm \<longrightarrow>
            (\<exists>s'. rb_insert_at s n p l = Some s' \<and> keyed_tree strcmp key s' (insert n N)))))"
proof (intro conjI ballI impI)
  fix n assume "n \<in> N" "key n = nm"
  then show "rb_lookup f s (root s) = Some n" "\<exists>l. rb_descend f s LinkRoot NULL = Some (l, n, n)"
    using by_name.keyed_found [OF assms(1), of n f] assms(2) by auto
next
  assume "nm \<notin> key ` N"
  then obtain l p where lp: "rb_descend f s LinkRoot NULL = Some (l, p, NULL)" "rb_lookup f s (root s) = Some NULL"
    "link_fits strcmp key s N nm l p"
    using by_name.keyed_absent [OF assms(1), of nm f] assms(2) by blast
  then show "rb_lookup f s (root s) = Some NULL" by simp
  show "\<exists>l p. rb_descend f s LinkRoot NULL = Some (l, p, NULL)
      \<and> (\<forall>n. nodes s n \<noteq> None \<and> aligned n \<and> n \<noteq> NULL \<and> n \<notin> N \<and> key n = nm \<longrightarrow>
          (\<exists>s'. rb_insert_at s n p l = Some s' \<and> keyed_tree strcmp key s' (insert n N)))"
  proof (rule exI [of _ l], rule exI [of _ p], rule conjI [OF lp(1)], intro allI impI)
    fix n assume "nodes s n \<noteq> None \<and> aligned n \<and> n \<noteq> NULL \<and> n \<notin> N \<and> key n = nm"
    then obtain s' where "rb_insert_at s n p l = Some s'" "keyed_tree strcmp key s' (insert n N)"
      using link_fitsD [OF lp(3) refl, of key n] by auto
    then show "\<exists>s'. rb_insert_at s n p l = Some s' \<and> keyed_tree strcmp key s' (insert n N)" by blast
  qed
qed

theorem rbtree_search_by_name_witness:
  "rb_lookup (\<lambda>a. Some (strcmp [97] [97])) tree1 (root tree1) = Some 8
    \<and> rb_lookup (\<lambda>a. Some (strcmp [97] [98])) tree1 (root tree1) = Some NULL"
proof -
  have kt: "keyed_tree strcmp (\<lambda>_. [97]) tree1 {8}"
    unfolding keyed_tree_def using tree1_rep by (intro exI [of _ "Nd Lf Black 8 Lf"]) (simp add: key_desc_def)
  show ?thesis
    using rbtree_search_by_name [OF kt, of "\<lambda>a. Some (strcmp [97] [97])" "[97]"]
      rbtree_search_by_name [OF kt, of "\<lambda>a. Some (strcmp [97] [98])" "[98]"] by simp
qed

end
