(* ===== verification/Hev_List.thy ===== *)
theory Hev_List
  imports Tunnel_Prelude
begin

text \<open>
  The intrusive doubly linked list of misc/hev-list.c and hev-list.h, on an explicit heap of
  list nodes. \<open>list_rep s xs\<close> says that the heap holds the list of the node addresses
  \<open>xs\<close>, from head to tail. The operations are shown to append, to delete and to walk; the
  locale \<open>lru_list\<close> is what a client that keeps its nodes in order of use relies on.
\<close>

section \<open>The structs and operations\<close>

record hev_list_node =
  list_next :: ptr
  list_prev :: ptr

record hev_list =
  lnodes :: "ptr \<rightharpoonup> hev_list_node"
  head :: ptr
  tail :: ptr

definition lst :: "hev_list \<Rightarrow> ptr \<Rightarrow> (hev_list_node \<Rightarrow> hev_list_node) \<Rightarrow> hev_list option" where
  "lst s p f = (case lnodes s p of
      None \<Rightarrow> None
    | Some n \<Rightarrow> Some (s\<lparr>lnodes := (lnodes s)(p \<mapsto> f n)\<rparr>))"

definition hev_list_node_prev :: "hev_list \<Rightarrow> ptr \<Rightarrow> ptr option" where
  "hev_list_node_prev s p = map_option list_prev (lnodes s p)"

definition hev_list_node_next :: "hev_list \<Rightarrow> ptr \<Rightarrow> ptr option" where
  "hev_list_node_next s p = map_option list_next (lnodes s p)"

definition hev_list_first :: "hev_list \<Rightarrow> ptr" where
  "hev_list_first s = head s"

definition hev_list_last :: "hev_list \<Rightarrow> ptr" where
  "hev_list_last s = tail s"

definition hev_list_add_tail :: "hev_list \<Rightarrow> ptr \<Rightarrow> hev_list option" where
  "hev_list_add_tail s new = do {
     s \<leftarrow> lst s new (\<lambda>n. n\<lparr>list_prev := tail s\<rparr>);
     s \<leftarrow> lst s new (\<lambda>n. n\<lparr>list_next := NULL\<rparr>);
     s \<leftarrow> (if tail s \<noteq> NULL then lst s (tail s) (\<lambda>n. n\<lparr>list_next := new\<rparr>)
          else Some (s\<lparr>head := new\<rparr>));
     Some (s\<lparr>tail := new\<rparr>) }"

definition hev_list_del :: "hev_list \<Rightarrow> ptr \<Rightarrow> hev_list option" where
  "hev_list_del s node = do {
     p \<leftarrow> hev_list_node_prev s node;
     n \<leftarrow> hev_list_node_next s node;
     s \<leftarrow> (if p \<noteq> NULL then lst s p (\<lambda>x. x\<lparr>list_next := n\<rparr>) else Some (s\<lparr>head := n\<rparr>));
     p \<leftarrow> hev_list_node_prev s node;
     n \<leftarrow> hev_list_node_next s node;
     if n \<noteq> NULL then lst s n (\<lambda>x. x\<lparr>list_prev := p\<rparr>) else Some (s\<lparr>tail := p\<rparr>) }"

lemmas hev_list_defs = lst_def hev_list_node_prev_def hev_list_node_next_def

section \<open>What a heap of list nodes represents\<close>

text \<open>\<open>chain h p xs n\<close>: the nodes \<open>xs\<close> are linked in order, between \<open>p\<close> and \<open>n\<close>.\<close>

fun chain :: "(ptr \<rightharpoonup> hev_list_node) \<Rightarrow> ptr \<Rightarrow> ptr list \<Rightarrow> ptr \<Rightarrow> bool" where
  "chain h p [] n \<longleftrightarrow> True"
| "chain h p (x # xs) n \<longleftrightarrow>
     h x = Some \<lparr>list_next = hd (xs @ [n]), list_prev = p\<rparr> \<and> x \<noteq> NULL \<and> chain h x xs n"

definition list_rep :: "hev_list \<Rightarrow> ptr list \<Rightarrow> bool" where
  "list_rep s xs \<longleftrightarrow> chain (lnodes s) NULL xs NULL \<and> head s = hd (xs @ [NULL])
     \<and> tail s = last (NULL # xs) \<and> distinct xs"

lemma chain_append [simp]:
  "chain h p (xs @ ys) n \<longleftrightarrow> chain h p xs (hd (ys @ [n])) \<and> chain h (last (p # xs)) ys n"
proof (induction xs arbitrary: p)
  case (Cons x xs)
  then show ?case by (cases xs) auto
qed simp

lemma chain_upd [simp, heap_simps]:
  "a \<notin> set xs \<Longrightarrow> chain (h(a := v)) p xs n = chain h p xs n"
  by (induction xs arbitrary: p) auto

lemma chain_keep: "(\<And>a. a \<in> set xs \<Longrightarrow> h' a = h a) \<Longrightarrow> chain h' p xs n = chain h p xs n"
  by (induction xs arbitrary: p) auto

lemma chain_alloc: "chain h p xs n \<Longrightarrow> x \<in> set xs \<Longrightarrow> x \<noteq> NULL \<and> h x \<noteq> None"
  by (induction xs arbitrary: p) auto

lemma chain_last: "chain h p xs n \<Longrightarrow> xs \<noteq> [] \<Longrightarrow>
    h (last xs) = Some \<lparr>list_next = n, list_prev = last (p # butlast xs)\<rparr>"
  by (cases xs rule: rev_cases) auto

lemma list_rep_alloc: "list_rep s xs \<Longrightarrow> x \<in> set xs \<Longrightarrow> x \<noteq> NULL \<and> lnodes s x \<noteq> None"
  using chain_alloc [of "lnodes s" NULL xs NULL x] by (simp add: list_rep_def)

definition list_same :: "ptr set \<Rightarrow> hev_list \<Rightarrow> hev_list \<Rightarrow> bool" where
  "list_same A s s' \<longleftrightarrow> (\<forall>a. (a \<notin> A \<longrightarrow> lnodes s' a = lnodes s a) \<and> (lnodes s' a = None \<longleftrightarrow> lnodes s a = None))"

theorem hev_list_add_tail_rep:
  assumes "list_rep s xs" "x \<notin> set xs" "x \<noteq> NULL" "lnodes s x \<noteq> None"
  shows "\<exists>s'. hev_list_add_tail s x = Some s' \<and> list_rep s' (xs @ [x]) \<and> list_same (insert x (set xs)) s s'"
proof (cases xs rule: rev_cases)
  case Nil
  with assms show ?thesis
    by (auto simp: hev_list_add_tail_def list_rep_def hev_list_defs list_same_def)
next
  case (snoc ys y)
  with assms show ?thesis
    by (auto simp: hev_list_add_tail_def list_rep_def hev_list_defs list_same_def hd_append split: if_splits)
qed

theorem hev_list_del_rep:
  assumes "list_rep s (xs @ x # ys)"
  shows "\<exists>s'. hev_list_del s x = Some s' \<and> list_rep s' (xs @ ys) \<and> list_same (set xs \<union> set ys) s s'"
  using assms
  by (cases xs rule: rev_cases; cases ys)
    (auto simp: hev_list_del_def list_rep_def hev_list_defs list_same_def hd_append split: if_splits)

theorem hev_list_node_next_rep:
  assumes "list_rep s (xs @ x # ys)"
  shows "hev_list_node_next s x = Some (hd (ys @ [NULL]))"
  using assms by (auto simp: list_rep_def hev_list_defs)

theorem hev_list_first_rep: "list_rep s xs \<Longrightarrow> hev_list_first s = hd (xs @ [NULL])"
  by (simp add: list_rep_def hev_list_first_def)


lemma list_rep_outside:
  "x \<notin> set xs \<Longrightarrow> list_rep (s\<lparr>lnodes := (lnodes s)(x := v)\<rparr>) xs = list_rep s xs"
  by (simp add: list_rep_def)

lemma list_rep_empty: "list_rep \<lparr>lnodes = h, head = NULL, tail = NULL\<rparr> []"
  by (simp add: list_rep_def)

section \<open>The interface of a list kept in order of use\<close>

locale lru_list =
  fixes add_tail :: "'s \<Rightarrow> ptr \<Rightarrow> 's option"
    and del :: "'s \<Rightarrow> ptr \<Rightarrow> 's option"
    and first :: "'s \<Rightarrow> ptr"
    and holds :: "'s \<Rightarrow> ptr list \<Rightarrow> bool"
    and allocated :: "'s \<Rightarrow> ptr set"
  assumes add_tail_holds: "holds s xs \<Longrightarrow> x \<notin> set xs \<Longrightarrow> x \<noteq> NULL \<Longrightarrow> x \<in> allocated s \<Longrightarrow>
      \<exists>s'. add_tail s x = Some s' \<and> holds s' (xs @ [x]) \<and> allocated s' = allocated s"
    and del_holds: "holds s (xs @ x # ys) \<Longrightarrow>
      \<exists>s'. del s x = Some s' \<and> holds s' (xs @ ys) \<and> allocated s' = allocated s"
    and first_holds: "holds s (x # xs) \<Longrightarrow> first s = x"
    and holds_sound: "holds s xs \<Longrightarrow> distinct xs \<and> NULL \<notin> set xs \<and> set xs \<subseteq> allocated s"
begin

text \<open>Deleting a node and adding it at the tail marks it as the most recently used.\<close>

lemma touch_holds:
  assumes "holds s (xs @ x # ys)"
  shows "\<exists>s1 s2. del s x = Some s1 \<and> add_tail s1 x = Some s2 \<and> holds s2 (xs @ ys @ [x])
      \<and> allocated s2 = allocated s"
proof -
  have sound: "x \<notin> set (xs @ ys)" "x \<noteq> NULL" "x \<in> allocated s"
    using holds_sound [OF assms] by auto
  obtain s1 where s1: "del s x = Some s1" "holds s1 (xs @ ys)" "allocated s1 = allocated s"
    using del_holds [OF assms] by blast
  with sound add_tail_holds [OF s1(2)] show ?thesis by auto
qed

text \<open>The node to evict is the head, and taking it out leaves the rest in order.\<close>

lemma evict_holds:
  assumes "holds s (x # xs)"
  shows "first s = x \<and> (\<exists>s'. del s x = Some s' \<and> holds s' xs \<and> allocated s' = allocated s)"
  using first_holds [OF assms] del_holds [of s "[]"] assms by auto

end

definition list_allocated :: "hev_list \<Rightarrow> ptr set" where
  "list_allocated s = dom (lnodes s)"

lemma list_same_allocated: "list_same A s s' \<Longrightarrow> list_allocated s' = list_allocated s"
  by (rule set_eqI) (simp add: list_same_def list_allocated_def domIff)

interpretation lru: lru_list hev_list_add_tail hev_list_del hev_list_first list_rep list_allocated
proof
  show "\<exists>s'. hev_list_add_tail s x = Some s' \<and> list_rep s' (xs @ [x]) \<and> list_allocated s' = list_allocated s"
    if "list_rep s xs" "x \<notin> set xs" "x \<noteq> NULL" "x \<in> list_allocated s" for s xs x
    using hev_list_add_tail_rep [OF that(1-3)] that(4) list_same_allocated
    by (fastforce simp: list_allocated_def)
  show "\<exists>s'. hev_list_del s x = Some s' \<and> list_rep s' (xs @ ys) \<and> list_allocated s' = list_allocated s"
    if "list_rep s (xs @ x # ys)" for s xs x ys
    using hev_list_del_rep [OF that] list_same_allocated by fastforce
  show "hev_list_first s = x" if "list_rep s (x # xs)" for s x xs
    using hev_list_first_rep [OF that] by simp
  show "distinct xs \<and> NULL \<notin> set xs \<and> set xs \<subseteq> list_allocated s" if "list_rep s xs" for s xs
    using that list_rep_alloc [OF that] by (auto simp: list_rep_def list_allocated_def)
qed

end
