(* ===== verification/LRU_Cache.thy ===== *)
theory LRU_Cache
  imports Tunnel_Prelude
begin

text \<open>
  What the mapped-DNS cache promises, independently of how it is stored: a list of names with
  their indices, least recently used first, of at most \<open>cap\<close> entries. A name that is asked
  for keeps its index; a new name takes the next free index, or the index of the least
  recently used name once the cache is full. \<open>lru_run_retains\<close> is the guarantee that makes
  the cache usable: a binding survives as long as fewer than \<open>cap\<close> other names are touched.
\<close>

type_synonym lru = "(byte list \<times> int) list"

definition lru_touch :: "byte list \<Rightarrow> lru \<Rightarrow> lru" where
  "lru_touch name c = filter (\<lambda>e. fst e \<noteq> name) c @ filter (\<lambda>e. fst e = name) c"

definition lru_find :: "nat \<Rightarrow> byte list \<Rightarrow> lru \<Rightarrow> lru \<times> int" where
  "lru_find cap name c = (case map_of c name of
      Some i \<Rightarrow> (lru_touch name c, i)
    | None \<Rightarrow> if length c < cap then (c @ [(name, int (length c))], int (length c))
              else (tl c @ [(name, snd (hd c))], snd (hd c)))"

definition lru_name :: "lru \<Rightarrow> int \<Rightarrow> byte list option" where
  "lru_name c i = map_of (map prod.swap c) i"

definition lru_lookup :: "int \<Rightarrow> lru \<Rightarrow> lru \<times> byte list option" where
  "lru_lookup i c = (case lru_name c i of
      None \<Rightarrow> (c, None)
    | Some nm \<Rightarrow> (lru_touch nm c, Some nm))"

datatype cache_op = Find "byte list" | Lookup int

text \<open>An operation, with the name it touches.\<close>

fun lru_op :: "nat \<Rightarrow> cache_op \<Rightarrow> lru \<Rightarrow> lru \<times> byte list option" where
  "lru_op cap (Find nm) c = (fst (lru_find cap nm c), Some nm)"
| "lru_op cap (Lookup i) c = (fst (lru_lookup i c), lru_name c i)"

fun lru_run :: "nat \<Rightarrow> cache_op list \<Rightarrow> lru \<Rightarrow> lru \<times> byte list set" where
  "lru_run cap [] c = (c, {})"
| "lru_run cap (x # xs) c = (case lru_op cap x c of (c', nm) \<Rightarrow>
     case lru_run cap xs c' of (c'', used) \<Rightarrow> (c'', set_option nm \<union> used))"

definition lru_ok :: "nat \<Rightarrow> lru \<Rightarrow> bool" where
  "lru_ok cap c \<longleftrightarrow> distinct (map fst c) \<and> length c \<le> cap"

lemma lru_touch_length [simp]: "length (lru_touch nm c) = length c"
  using sum_length_filter_compl [of "\<lambda>e. fst e = nm" c] by (simp add: lru_touch_def)

lemma lru_touch_set [simp]: "set (lru_touch nm c) = set c"
  by (auto simp: lru_touch_def)

lemma lru_touch_distinct: "distinct (map fst c) \<Longrightarrow> distinct (map fst (lru_touch nm c))"
proof -
  assume d: "distinct (map fst c)"
  have "distinct (map fst (filter P c))" for P
    using d by (induction c) auto
  then show ?thesis by (auto simp: lru_touch_def)
qed

lemma lru_name_Some: "lru_name c i = Some nm \<Longrightarrow> (nm, i) \<in> set c"
  by (auto simp: lru_name_def dest: map_of_SomeD)

section \<open>A binding is retained\<close>

text \<open>\<open>kept nm i U c\<close>: \<open>nm\<close> is bound to \<open>i\<close>, and only names of \<open>U\<close> were used after it.\<close>

definition kept :: "byte list \<Rightarrow> int \<Rightarrow> byte list set \<Rightarrow> lru \<Rightarrow> bool" where
  "kept nm i U c \<longleftrightarrow> (\<exists>A B. c = A @ (nm, i) # B \<and> fst ` set B \<subseteq> U - {nm})"

lemma kept_touch:
  assumes "kept nm i U c" "distinct (map fst c)"
  shows "kept nm i (insert x U) (lru_touch x c)"
proof -
  obtain A B where c: "c = A @ (nm, i) # B" "fst ` set B \<subseteq> U - {nm}" using assms(1) by (auto simp: kept_def)
  show ?thesis
  proof (cases "x = nm")
    case True
    have "filter (\<lambda>e. fst e = nm) A = []" "filter (\<lambda>e. fst e = nm) B = []"
      using assms(2) c(1) by (force simp: filter_empty_conv)+
    then have "lru_touch x c = filter (\<lambda>e. fst e \<noteq> nm) (A @ B) @ (nm, i) # []"
      using True c(1) by (simp add: lru_touch_def)
    then show ?thesis unfolding kept_def by fastforce
  next
    case False
    then have "lru_touch x c = filter (\<lambda>e. fst e \<noteq> x) A @ (nm, i) #
        (filter (\<lambda>e. fst e \<noteq> x) B @ filter (\<lambda>e. fst e = x) c)"
      using c(1) by (simp add: lru_touch_def)
    moreover have "fst ` set (filter (\<lambda>e. fst e \<noteq> x) B @ filter (\<lambda>e. fst e = x) c) \<subseteq> insert x U - {nm}"
      using c(2) False by auto
    ultimately show ?thesis unfolding kept_def by blast
  qed
qed

lemma kept_append: "kept nm i U c \<Longrightarrow> x \<noteq> nm \<Longrightarrow> kept nm i (insert x U) (c @ [(x, j)])"
  unfolding kept_def by (elim exE conjE, rule_tac x = A in exI, rule_tac x = "B @ [(x, j)]" in exI) auto

lemma kept_evict:
  assumes "kept nm i U c" "x \<notin> fst ` set c" "distinct (map fst c)" "finite U"
    and "card (insert x U - {nm}) < length c"
  shows "kept nm i U (tl c)"
proof -
  obtain A B where c: "c = A @ (nm, i) # B" "fst ` set B \<subseteq> U - {nm}" using assms(1) by (auto simp: kept_def)
  have "A \<noteq> []"
  proof
    assume "A = []"
    then have sub: "insert x (fst ` set B) \<subseteq> insert x U - {nm}" using c assms(2) by auto
    have "distinct (map fst B)" "x \<notin> fst ` set B" using assms(2,3) c(1) by auto
    then have "card (insert x (fst ` set B)) = Suc (length B)"
      using distinct_card [of "map fst B"] by simp
    then have "Suc (length B) \<le> card (insert x U - {nm})"
      using card_mono [OF _ sub] assms(4) by simp
    with assms(5) c(1) \<open>A = []\<close> show False by simp
  qed
  then have "tl c = tl A @ (nm, i) # B" using c(1) by (cases A) auto
  with c(2) show ?thesis unfolding kept_def by blast
qed

lemma lru_op_kept:
  assumes ok: "lru_ok cap c" "0 < cap" and k: "kept nm i U c" "finite U"
    and few: "card ((set_option (snd (lru_op cap x c)) \<union> U) - {nm}) < cap"
  shows "lru_ok cap (fst (lru_op cap x c)) \<and> kept nm i (set_option (snd (lru_op cap x c)) \<union> U) (fst (lru_op cap x c))"
proof (cases x)
  case (Find y)
  have inc: "(nm, i) \<in> set c" using k(1) by (auto simp: kept_def)
  show ?thesis
  proof (cases "map_of c y")
    case (Some j)
    then show ?thesis
      using Find ok k kept_touch lru_touch_distinct by (auto simp: lru_find_def lru_ok_def)
  next
    case None
    then have new: "y \<notin> fst ` set c" "y \<noteq> nm" using inc by (force simp: map_of_eq_None_iff)+
    show ?thesis
    proof (cases "length c < cap")
      case True
      then show ?thesis
        using Find None ok k new kept_append [OF k(1) new(2)] by (auto simp: lru_find_def lru_ok_def)
    next
      case False
      then have len: "length c = cap" using ok by (simp add: lru_ok_def)
      have "kept nm i U (tl c)"
        using kept_evict [OF k(1) new(1) _ k(2)] ok few Find len by (simp add: lru_ok_def)
      moreover have "distinct (map fst (tl c))" "set (tl c) \<subseteq> set c"
        using ok by (cases c; auto simp: lru_ok_def)+
      ultimately show ?thesis
        using Find None False new ok len kept_append [of nm i U "tl c" y "snd (hd c)"]
        by (auto simp: lru_find_def lru_ok_def)
    qed
  qed
next
  case (Lookup j)
  then show ?thesis
    using ok k kept_touch lru_touch_distinct
    by (auto simp: lru_lookup_def lru_ok_def split: option.splits)
qed

lemma lru_run_finite [simp]: "finite (snd (lru_run cap ops c))"
proof (induction ops arbitrary: c)
  case (Cons x xs)
  then show ?case
    using Cons.IH [of "fst (lru_op cap x c)"] by (simp add: case_prod_beta)
qed simp

theorem lru_run_retains:
  assumes "lru_ok cap c" "0 < cap" "kept nm i U c" "finite U"
    and "card ((snd (lru_run cap ops c) \<union> U) - {nm}) < cap"
  shows "map_of (fst (lru_run cap ops c)) nm = Some i"
  using assms
proof (induction ops arbitrary: c U)
  case Nil
  have "distinct (map fst c)" "(nm, i) \<in> set c"
    using Nil by (auto simp: lru_ok_def kept_def)
  then show ?case by simp
next
  case (Cons x xs)
  obtain c' y where step: "lru_op cap x c = (c', y)" by fastforce
  obtain c'' used where run: "lru_run cap xs c' = (c'', used)" by fastforce
  have fin: "finite used" "finite (set_option y \<union> U)"
    using Cons.prems(4) lru_run_finite [of cap xs c'] run by auto
  have "card ((set_option y \<union> U) - {nm}) \<le> card ((snd (lru_run cap (x # xs) c) \<union> U) - {nm})"
    using step run fin by (intro card_mono) auto
  then have "lru_ok cap c' \<and> kept nm i (set_option y \<union> U) c'"
    using lru_op_kept [OF Cons.prems(1-4), of x] Cons.prems(5) step by simp
  then show ?case
    using Cons.IH [of c' "set_option y \<union> U"] Cons.prems(2,5) fin step run by (simp add: Un_ac)
qed

end
