(* ===== verification/MappedDNS.thy ===== *)
theory MappedDNS
  imports RBTree_Search Hev_List LRU_Cache
begin

text \<open>
  The mapped-DNS cache of hev-mapped-dns.c: names are handed small indices, which become fake
  addresses \<open>net | idx\<close>, and an address is mapped back to the name it stands for. A C node
  is one struct with a tree node, a list node, a name and an index; the model keeps the four
  parts in separate heaps under the same address. \<open>dns_inv\<close> ties the list, the tree, the
  index array and the counters together; \<open>hev_mapped_dns_find\<close> and \<open>hev_mapped_dns_lookup\<close>
  are shown to implement the bounded cache of \<open>LRU_Cache\<close> on it.
\<close>

section \<open>State\<close>

record dns_node =
  dn_name :: "byte list option"
  dn_idx :: int

record hev_mapped_dns =
  dns_use :: int
  dns_max :: int
  dns_net :: u32
  dns_mask :: u32
  dns_list :: hev_list
  dns_tree :: hev_rbtree
  dns_records :: "ptr list"
  dns_nodes :: "ptr \<rightharpoonup> dns_node"

text \<open>
  What the two allocations of a new node return: the address from \<open>hev_malloc0\<close> (NULL when
  it fails) and whether \<open>strdup\<close> succeeds.
\<close>

record dns_mem =
  mem_node :: ptr
  mem_dup :: bool

definition zero_rbtree_node :: hev_rbtree_node where
  "zero_rbtree_node = \<lparr>parent_color = 0, node_right = NULL, node_left = NULL\<rparr>"

definition zero_list_node :: hev_list_node where
  "zero_list_node = \<lparr>list_next = NULL, list_prev = NULL\<rparr>"

definition hev_mapped_dns_construct ::
  "hev_mapped_dns \<Rightarrow> u32 \<Rightarrow> u32 \<Rightarrow> int \<Rightarrow> hev_mapped_dns \<times> int" where
  "hev_mapped_dns_construct self net msk mx =
     (if mx > sint (NOT msk) then (self, -1)
      else (self\<lparr>dns_max := mx, dns_net := net, dns_mask := msk\<rparr>, 0))"

definition dns_zeroed :: "int \<Rightarrow> hev_mapped_dns" where
  "dns_zeroed mx = \<lparr>dns_use = 0, dns_max = 0, dns_net = 0, dns_mask = 0,
     dns_list = \<lparr>lnodes = Map.empty, head = NULL, tail = NULL\<rparr>,
     dns_tree = \<lparr>nodes = Map.empty, root = NULL\<rparr>,
     dns_records = replicate (nat mx) NULL, dns_nodes = Map.empty\<rparr>"

definition hev_mapped_dns_new :: "bool \<Rightarrow> u32 \<Rightarrow> u32 \<Rightarrow> int \<Rightarrow> hev_mapped_dns option" where
  "hev_mapped_dns_new malloced net msk mx =
     (if \<not> malloced then None
      else case hev_mapped_dns_construct (dns_zeroed mx) net msk mx of
        (self, res) \<Rightarrow> if res < 0 then None else Some self)"

definition hev_mapped_dns_node_alloc ::
  "hev_mapped_dns \<Rightarrow> dns_mem \<Rightarrow> byte list \<Rightarrow> hev_mapped_dns \<times> ptr" where
  "hev_mapped_dns_node_alloc self mem name =
     (let node = mem_node mem in
      if node = NULL then (self, NULL)
      else (self\<lparr>
        dns_tree := (dns_tree self)\<lparr>nodes := (nodes (dns_tree self))(node \<mapsto> zero_rbtree_node)\<rparr>,
        dns_list := (dns_list self)\<lparr>lnodes := (lnodes (dns_list self))(node \<mapsto> zero_list_node)\<rparr>,
        dns_nodes := (dns_nodes self)(node \<mapsto>
          \<lparr>dn_name = (if mem_dup mem then Some name else None), dn_idx = 0\<rparr>)\<rparr>, node))"

definition hev_mapped_dns_node_free :: "hev_mapped_dns \<Rightarrow> ptr \<Rightarrow> hev_mapped_dns" where
  "hev_mapped_dns_node_free self node = self\<lparr>
     dns_tree := (dns_tree self)\<lparr>nodes := (nodes (dns_tree self))(node := None)\<rparr>,
     dns_list := (dns_list self)\<lparr>lnodes := (lnodes (dns_list self))(node := None)\<rparr>,
     dns_nodes := (dns_nodes self)(node := None)\<rparr>"

section \<open>Find and lookup\<close>

text \<open>\<open>strcmp (node->name, name)\<close>, which faults on a name that \<open>strdup\<close> failed to copy.\<close>

definition dns_cmp :: "hev_mapped_dns \<Rightarrow> byte list \<Rightarrow> ptr \<Rightarrow> int option" where
  "dns_cmp self name p = do {
     n \<leftarrow> dns_nodes self p;
     nm \<leftarrow> dn_name n;
     Some (strcmp nm name) }"

definition dns_touch :: "hev_mapped_dns \<Rightarrow> ptr \<Rightarrow> hev_mapped_dns option" where
  "dns_touch self node = do {
     l \<leftarrow> hev_list_del (dns_list self) node;
     l \<leftarrow> hev_list_add_tail l node;
     Some (self\<lparr>dns_list := l\<rparr>) }"

text \<open>The eviction branch: the index of the least recently used node, which is freed.\<close>

definition dns_evict :: "hev_mapped_dns \<Rightarrow> (hev_mapped_dns \<times> int) option" where
  "dns_evict self = do {
     let nf = hev_list_first (dns_list self);
     n \<leftarrow> dns_nodes self nf;
     let idx = dn_idx n;
     t \<leftarrow> hev_rbtree_erase (dns_tree self) nf;
     l \<leftarrow> hev_list_del (dns_list self) nf;
     Some (hev_mapped_dns_node_free (self\<lparr>dns_tree := t, dns_list := l\<rparr>) nf, idx) }"

definition dns_set_record :: "hev_mapped_dns \<Rightarrow> int \<Rightarrow> ptr \<Rightarrow> hev_mapped_dns option" where
  "dns_set_record self idx node = do {
     if 0 \<le> idx \<and> idx < int (length (dns_records self)) then do {
       n \<leftarrow> dns_nodes self node;
       Some (self\<lparr>dns_records := (dns_records self)[nat idx := node],
                  dns_nodes := (dns_nodes self)(node \<mapsto> n\<lparr>dn_idx := idx\<rparr>)\<rparr>) }
     else None }"

definition hev_mapped_dns_find ::
  "hev_mapped_dns \<Rightarrow> dns_mem \<Rightarrow> byte list \<Rightarrow> (hev_mapped_dns \<times> int) option" where
  "hev_mapped_dns_find self mem name = do {
     let idx = dns_use self;
     (new, parent, node) \<leftarrow> rb_descend (dns_cmp self name) (dns_tree self) LinkRoot NULL;
     if node \<noteq> NULL then do {
       self \<leftarrow> dns_touch self node;
       n \<leftarrow> dns_nodes self node;
       Some (self, dn_idx n) }
     else do {
       let (self, node) = hev_mapped_dns_node_alloc self mem name;
       if node = NULL then Some (self, -1)
       else do {
         t \<leftarrow> hev_rbtree_node_link (dns_tree self) node parent new;
         t \<leftarrow> hev_rbtree_insert_color t node;
         l \<leftarrow> hev_list_add_tail (dns_list self) node;
         let self = self\<lparr>dns_tree := t, dns_list := l\<rparr>;
         (self, idx) \<leftarrow>
           (if dns_use self < dns_max self then Some (self\<lparr>dns_use := dns_use self + 1\<rparr>, idx)
            else dns_evict self);
         self \<leftarrow> dns_set_record self idx node;
         n \<leftarrow> dns_nodes self node;
         Some (self, dn_idx n) } } }"

definition hev_mapped_dns_lookup :: "hev_mapped_dns \<Rightarrow> u32 \<Rightarrow> (hev_mapped_dns \<times> byte list option) option" where
  "hev_mapped_dns_lookup self ip = do {
     let idx = sint (ip AND NOT (dns_mask self));
     if idx \<ge> dns_max self then Some (self, None)
     else if idx < 0 \<or> idx \<ge> int (length (dns_records self)) then None
     else do {
       let node = dns_records self ! nat idx;
       if node = NULL then Some (self, None)
       else do {
         self \<leftarrow> dns_touch self node;
         n \<leftarrow> dns_nodes self node;
         Some (self, dn_name n) } } }"

partial_function (option) dns_destruct_loop :: "hev_mapped_dns \<Rightarrow> ptr \<Rightarrow> hev_mapped_dns option" where
  "dns_destruct_loop self n =
     (if n = NULL then Some self
      else do {
        n' \<leftarrow> hev_list_node_next (dns_list self) n;
        _ \<leftarrow> dns_nodes self n;
        dns_destruct_loop (hev_mapped_dns_node_free self n) n' })"

definition hev_mapped_dns_destruct :: "hev_mapped_dns \<Rightarrow> hev_mapped_dns option" where
  "hev_mapped_dns_destruct self = dns_destruct_loop self (hev_list_first (dns_list self))"

section \<open>Invariant\<close>

definition dns_key :: "hev_mapped_dns \<Rightarrow> ptr \<Rightarrow> byte list" where
  "dns_key self p = the (dn_name (the (dns_nodes self p)))"

definition dns_index :: "hev_mapped_dns \<Rightarrow> ptr \<Rightarrow> int" where
  "dns_index self p = dn_idx (the (dns_nodes self p))"

definition dns_linked :: "hev_mapped_dns \<Rightarrow> ptr list \<Rightarrow> bool" where
  "dns_linked self xs \<longleftrightarrow> list_rep (dns_list self) xs
     \<and> keyed_tree strcmp (dns_key self) (dns_tree self) (set xs)
     \<and> dom (dns_nodes self) = set xs
     \<and> (\<forall>p\<in>set xs. \<exists>nm i. dns_nodes self p = Some \<lparr>dn_name = Some nm, dn_idx = i\<rparr>)"

definition dns_indexed :: "hev_mapped_dns \<Rightarrow> ptr list \<Rightarrow> bool" where
  "dns_indexed self xs \<longleftrightarrow>
     dns_use self = int (length xs) \<and> int (length (dns_records self)) = dns_max self
     \<and> dns_use self \<le> dns_max self \<and> dns_max self \<le> sint (NOT (dns_mask self))
     \<and> dns_index self ` set xs = {0..<dns_use self}
     \<and> (\<forall>p\<in>set xs. dns_records self ! nat (dns_index self p) = p)
     \<and> (\<forall>i. length xs \<le> i \<longrightarrow> i < length (dns_records self) \<longrightarrow> dns_records self ! i = NULL)"

text \<open>
  \<open>dns_inv self xs\<close>: the nodes \<open>xs\<close>, least recently used first, are exactly the nodes of the
  list and of the tree, their indices are exactly \<open>0..use-1\<close>, and \<open>records\<close> is the inverse.
\<close>

definition dns_inv :: "hev_mapped_dns \<Rightarrow> ptr list \<Rightarrow> bool" where
  "dns_inv self xs \<longleftrightarrow> dns_linked self xs \<and> dns_indexed self xs"

text \<open>The cache as its client sees it: names with their indices, least recently used first.\<close>

definition dns_lru :: "hev_mapped_dns \<Rightarrow> ptr list \<Rightarrow> (byte list \<times> int) list" where
  "dns_lru self xs = map (\<lambda>p. (dns_key self p, dns_index self p)) xs"

section \<open>Nodes in the list and in the tree\<close>

lemma dns_key_simps [simp]:
  "dns_key (self\<lparr>dns_list := l\<rparr>) = dns_key self" "dns_key (self\<lparr>dns_tree := t\<rparr>) = dns_key self"
  "dns_key (self\<lparr>dns_use := u\<rparr>) = dns_key self" "dns_key (self\<lparr>dns_records := r\<rparr>) = dns_key self"
  "dns_index (self\<lparr>dns_list := l\<rparr>) = dns_index self" "dns_index (self\<lparr>dns_tree := t\<rparr>) = dns_index self"
  "dns_index (self\<lparr>dns_use := u\<rparr>) = dns_index self" "dns_index (self\<lparr>dns_records := r\<rparr>) = dns_index self"
  by (auto simp: fun_eq_iff dns_key_def dns_index_def)

lemma dns_cmp_linked:
  "dns_linked self xs \<Longrightarrow> p \<in> set xs \<Longrightarrow> dns_cmp self name p = Some (strcmp (dns_key self p) name)"
  by (force simp: dns_linked_def dns_cmp_def dns_key_def)

lemma dns_touch_linked:
  assumes "dns_linked self (xs @ p # ys)"
  shows "\<exists>l. dns_touch self p = Some (self\<lparr>dns_list := l\<rparr>) \<and> dns_linked (self\<lparr>dns_list := l\<rparr>) (xs @ ys @ [p])"
proof -
  have "list_rep (dns_list self) (xs @ p # ys)" using assms by (simp add: dns_linked_def)
  from lru.touch_holds [OF this] show ?thesis
    using assms by (auto simp: dns_touch_def dns_linked_def)
qed

lemma dns_evict_linked:
  assumes "dns_linked self (x # xs)"
  shows "\<exists>t l. let self' = self\<lparr>dns_tree := t, dns_list := l, dns_nodes := (dns_nodes self)(x := None)\<rparr> in
    dns_evict self = Some (self', dns_index self x) \<and> dns_linked self' xs"
proof -
  have d: "x \<notin> set xs" and lr: "list_rep (dns_list self) (x # xs)"
    using assms by (auto simp: dns_linked_def list_rep_def)
  obtain l where l: "hev_list_first (dns_list self) = x" "hev_list_del (dns_list self) x = Some l" "list_rep l xs"
    using lru.evict_holds [OF lr] by auto
  obtain t where t: "hev_rbtree_erase (dns_tree self) x = Some t" "keyed_tree strcmp (dns_key self) t (set xs)"
    using by_name.keyed_erase [of "dns_key self" "dns_tree self" "set (x # xs)" x] assms d
    by (auto simp: dns_linked_def)
  define t' where "t' = t\<lparr>nodes := (nodes t)(x := None)\<rparr>"
  define l' where "l' = l\<lparr>lnodes := (lnodes l)(x := None)\<rparr>"
  define self' where "self' = self\<lparr>dns_tree := t', dns_list := l', dns_nodes := (dns_nodes self)(x := None)\<rparr>"
  have "keyed_tree strcmp (dns_key self') t' (set xs)"
    by (rule keyed_tree_cong [OF t(2)]) (use d in \<open>auto simp: t'_def self'_def dns_key_def\<close>)
  moreover have "list_rep l' xs"
    using l(3) d by (simp add: l'_def list_rep_outside)
  ultimately have "dns_linked self' xs"
    using assms d by (auto simp: dns_linked_def self'_def)
  moreover have "dns_evict self = Some (self', dns_index self x)"
    using l t assms by (auto simp: dns_evict_def dns_linked_def dns_index_def hev_mapped_dns_node_free_def
        self'_def t'_def l'_def)
  ultimately show ?thesis
    unfolding self'_def Let_def by blast
qed

lemma dns_find_hit:
  assumes "dns_linked self xs" "p \<in> set xs" "dns_key self p = name"
  shows "hev_mapped_dns_find self mem name = do {
     self \<leftarrow> dns_touch self p; n \<leftarrow> dns_nodes self p; Some (self, dn_idx n) }"
proof -
  have "p \<noteq> NULL" using assms list_rep_alloc by (auto simp: dns_linked_def)
  moreover obtain l where "rb_descend (dns_cmp self name) (dns_tree self) LinkRoot NULL = Some (l, p, p)"
    using by_name.keyed_found(1) [of "dns_key self" "dns_tree self" "set xs" p "dns_cmp self name"]
      dns_cmp_linked [OF assms(1)] assms by (auto simp: dns_linked_def)
  ultimately show ?thesis by (simp add: hev_mapped_dns_find_def)
qed

text \<open>A miss up to the point where the index of the new node is chosen.\<close>

definition dns_place :: "hev_mapped_dns \<Rightarrow> int \<Rightarrow> ptr \<Rightarrow> (hev_mapped_dns \<times> int) option" where
  "dns_place self idx node = do {
     (self, idx) \<leftarrow>
       (if dns_use self < dns_max self then Some (self\<lparr>dns_use := dns_use self + 1\<rparr>, idx)
        else dns_evict self);
     self \<leftarrow> dns_set_record self idx node;
     n \<leftarrow> dns_nodes self node;
     Some (self, dn_idx n) }"

lemma dns_find_miss_fail:
  assumes "dns_linked self xs" "name \<notin> dns_key self ` set xs" "mem_node mem = NULL"
  shows "hev_mapped_dns_find self mem name = Some (self, -1)"
proof -
  obtain l p where "rb_descend (dns_cmp self name) (dns_tree self) LinkRoot NULL = Some (l, p, NULL)"
    using by_name.keyed_absent [of "dns_key self" "dns_tree self" "set xs" name "dns_cmp self name"]
      dns_cmp_linked [OF assms(1)] assms(1,2) unfolding dns_linked_def by blast
  then show ?thesis
    using assms(3) by (simp add: hev_mapped_dns_find_def hev_mapped_dns_node_alloc_def)
qed

lemma dns_find_miss:
  assumes lk: "dns_linked self xs" "name \<notin> dns_key self ` set xs"
    and mem: "mem_node mem = p" "p \<noteq> NULL" "aligned p" "p \<notin> set xs" "mem_dup mem"
  shows "\<exists>t l. let self' = self\<lparr>dns_nodes := (dns_nodes self)(p \<mapsto> \<lparr>dn_name = Some name, dn_idx = 0\<rparr>),
        dns_tree := t, dns_list := l\<rparr> in
      hev_mapped_dns_find self mem name = dns_place self' (dns_use self) p \<and> dns_linked self' (xs @ [p])"
proof -
  define nds where "nds = (dns_nodes self)(p \<mapsto> \<lparr>dn_name = Some name, dn_idx = 0\<rparr>)"
  define t1 where "t1 = (dns_tree self)\<lparr>nodes := (nodes (dns_tree self))(p \<mapsto> zero_rbtree_node)\<rparr>"
  define l1 where "l1 = (dns_list self)\<lparr>lnodes := (lnodes (dns_list self))(p \<mapsto> zero_list_node)\<rparr>"
  define key where "key = dns_key (self\<lparr>dns_nodes := nds\<rparr>)"
  have keys: "key p = name" "\<And>a. a \<in> set xs \<Longrightarrow> key a = dns_key self a"
    using mem(4) by (auto simp: key_def dns_key_def nds_def)
  obtain lk' par where d: "rb_descend (dns_cmp self name) (dns_tree self) LinkRoot NULL = Some (lk', par, NULL)"
    and fits: "link_fits strcmp (dns_key self) (dns_tree self) (set xs) name lk' par"
    using by_name.keyed_absent [of "dns_key self" "dns_tree self" "set xs" name "dns_cmp self name"]
      dns_cmp_linked [OF lk(1)] lk unfolding dns_linked_def by blast
  obtain t where t: "rb_insert_at t1 p par lk' = Some t" "keyed_tree strcmp key t (insert p (set xs))"
    by (rule link_fitsD [OF fits, of t1 key p]) (use keys mem in \<open>auto simp: t1_def\<close>)
  have "list_rep l1 xs" "p \<in> list_allocated l1"
    using lk mem(4) by (auto simp: l1_def dns_linked_def list_rep_outside list_allocated_def)
  then obtain l where l: "hev_list_add_tail l1 p = Some l" "list_rep l (xs @ [p])"
    using lru.add_tail_holds [of l1 xs p] mem by auto
  define self' where "self' = self\<lparr>dns_nodes := nds, dns_tree := t, dns_list := l\<rparr>"
  have keyk: "dns_key self' = key"
    by (simp add: self'_def key_def dns_key_def fun_eq_iff)
  have "dns_linked self' (xs @ [p])"
    using lk(1) t(2) l(2) keyk by (auto simp: dns_linked_def self'_def nds_def)
  moreover obtain t0 where "hev_rbtree_node_link t1 p par lk' = Some t0" "hev_rbtree_insert_color t0 p = Some t"
    using t(1) by (auto simp: rb_insert_at_def bind_eq_Some_conv)
  then have "hev_mapped_dns_find self mem name = dns_place self' (dns_use self) p"
    using d l(1) mem
    by (simp add: hev_mapped_dns_find_def hev_mapped_dns_node_alloc_def dns_place_def rb_insert_at_def
        self'_def nds_def t1_def l1_def Let_def)
  ultimately show ?thesis unfolding self'_def nds_def Let_def by blast
qed

section \<open>The abstraction to the cache\<close>

lemma dns_linked_distinct: "dns_linked self xs \<Longrightarrow> distinct xs"
  by (simp add: dns_linked_def list_rep_def)

lemma dns_key_inj: "dns_linked self xs \<Longrightarrow> inj_on (dns_key self) (set xs)"
  using by_name.keyed_unique by (fastforce simp: dns_linked_def inj_on_def)

lemma dns_index_inj:
  assumes "dns_inv self xs"
  shows "inj_on (dns_index self) (set xs)"
proof (rule eq_card_imp_inj_on)
  show "card (dns_index self ` set xs) = card (set xs)"
    using assms distinct_card [OF dns_linked_distinct] by (auto simp: dns_inv_def dns_indexed_def)
qed simp

lemma dns_lru_simps:
  "dns_lru self (xs @ ys) = dns_lru self xs @ dns_lru self ys" "length (dns_lru self xs) = length xs"
  "dns_lru self (p # xs) = (dns_key self p, dns_index self p) # dns_lru self xs" "dns_lru self [] = []"
  by (simp_all add: dns_lru_def)

lemma map_of_dns_lru_None: "map_of (dns_lru self xs) name = None \<longleftrightarrow> name \<notin> dns_key self ` set xs"
  by (auto simp: map_of_eq_None_iff dns_lru_def image_image)

lemma map_of_dns_lru:
  "dns_linked self xs \<Longrightarrow> p \<in> set xs \<Longrightarrow> map_of (dns_lru self xs) (dns_key self p) = Some (dns_index self p)"
proof -
  assume lk: "dns_linked self xs" and p: "p \<in> set xs"
  have "distinct (map fst (dns_lru self xs))"
    using dns_key_inj [OF lk] dns_linked_distinct [OF lk] by (simp add: dns_lru_def distinct_map comp_def)
  then show ?thesis
    using p by (intro map_of_is_SomeI) (auto simp: dns_lru_def)
qed

lemma lru_touch_at:
  assumes "dns_linked self (xs @ p # ys)"
  shows "lru_touch (dns_key self p) (dns_lru self (xs @ p # ys)) = dns_lru self (xs @ ys @ [p])"
proof -
  have "\<forall>a\<in>set xs \<union> set ys. dns_key self a \<noteq> dns_key self p"
    using dns_key_inj [OF assms] dns_linked_distinct [OF assms] by (auto simp: inj_on_def)
  then have "filter (\<lambda>e. fst e \<noteq> dns_key self p) (dns_lru self zs) = dns_lru self zs"
    "filter (\<lambda>e. fst e = dns_key self p) (dns_lru self zs) = []" if "set zs \<subseteq> set xs \<union> set ys" for zs
    using that by (auto simp: dns_lru_def filter_empty_conv filter_id_conv)
  then show ?thesis
    by (simp add: lru_touch_def dns_lru_simps)
qed

section \<open>Touching a node\<close>

lemma dns_touch_inv:
  assumes "dns_inv self xs" "p \<in> set xs"
  obtains l xs' where "dns_touch self p = Some (self\<lparr>dns_list := l\<rparr>)" "dns_inv (self\<lparr>dns_list := l\<rparr>) xs'"
    "dns_lru (self\<lparr>dns_list := l\<rparr>) xs' = lru_touch (dns_key self p) (dns_lru self xs)"
proof -
  obtain ys zs where xs: "xs = ys @ p # zs" using assms(2) split_list by metis
  have lk: "dns_linked self (ys @ p # zs)" using assms(1) xs by (simp add: dns_inv_def)
  obtain l where l: "dns_touch self p = Some (self\<lparr>dns_list := l\<rparr>)" "dns_linked (self\<lparr>dns_list := l\<rparr>) (ys @ zs @ [p])"
    using dns_touch_linked [OF lk] by blast
  moreover have "dns_indexed (self\<lparr>dns_list := l\<rparr>) (ys @ zs @ [p])"
    using assms(1) xs by (auto simp: dns_inv_def dns_indexed_def)
  moreover have "dns_lru (self\<lparr>dns_list := l\<rparr>) (ys @ zs @ [p]) = lru_touch (dns_key self p) (dns_lru self xs)"
    unfolding xs lru_touch_at [OF lk] by (simp add: dns_lru_def)
  ultimately show thesis using that by (auto simp: dns_inv_def)
qed

section \<open>Placing a new node\<close>

lemma dns_set_record_ok:
  assumes "dns_linked self xs" "p \<in> set xs" "0 \<le> i" "i < int (length (dns_records self))"
  shows "\<exists>nds. dns_set_record self i p = Some (self\<lparr>dns_records := (dns_records self)[nat i := p], dns_nodes := nds\<rparr>)
    \<and> (let self' = self\<lparr>dns_records := (dns_records self)[nat i := p], dns_nodes := nds\<rparr> in
        dns_linked self' xs \<and> dns_key self' = dns_key self \<and> dns_index self' = (dns_index self)(p := i)
        \<and> (\<exists>n. nds p = Some n \<and> dn_idx n = i))"
proof -
  obtain nm j where n: "dns_nodes self p = Some \<lparr>dn_name = Some nm, dn_idx = j\<rparr>"
    using assms by (auto simp: dns_linked_def)
  define nds where "nds = (dns_nodes self)(p \<mapsto> \<lparr>dn_name = Some nm, dn_idx = i\<rparr>)"
  define self' where "self' = self\<lparr>dns_records := (dns_records self)[nat i := p], dns_nodes := nds\<rparr>"
  have k: "dns_key self' = dns_key self" "dns_index self' = (dns_index self)(p := i)"
    using n by (auto simp: self'_def dns_key_def dns_index_def nds_def fun_eq_iff)
  have "dns_linked self' xs"
    using assms(1,2) k(1) by (auto simp: dns_linked_def self'_def nds_def)
  moreover have "dns_set_record self i p = Some self'"
    using assms(3,4) n by (simp add: dns_set_record_def self'_def nds_def)
  moreover have "\<exists>n. nds p = Some n \<and> dn_idx n = i" by (simp add: nds_def)
  ultimately show ?thesis
    using k unfolding self'_def Let_def by blast
qed

lemma dns_index_range:
  "dns_inv self xs \<Longrightarrow> p \<in> set xs \<Longrightarrow> 0 \<le> dns_index self p \<and> dns_index self p < int (length xs)"
proof -
  assume inv: "dns_inv self xs" and p: "p \<in> set xs"
  then have "dns_index self p \<in> {0..<dns_use self}" unfolding dns_inv_def dns_indexed_def by blast
  then show ?thesis using inv by (auto simp: dns_inv_def dns_indexed_def)
qed

definition dns_config :: "hev_mapped_dns \<Rightarrow> int \<times> u32 \<times> u32" where
  "dns_config self = (dns_max self, dns_net self, dns_mask self)"

lemma dns_place_room:
  assumes inv: "dns_inv self xs" and room: "dns_use self < dns_max self" and p: "p \<notin> set xs"
    and s2: "dns_linked s2 (xs @ [p])" "dns_use s2 = dns_use self" "dns_config s2 = dns_config self"
      "dns_records s2 = dns_records self" "dns_key s2 p = name"
    and same: "\<And>a. a \<in> set xs \<Longrightarrow> dns_key s2 a = dns_key self a \<and> dns_index s2 a = dns_index self a"
  shows "\<exists>s3. dns_place s2 (dns_use self) p = Some (s3, dns_use self) \<and> dns_inv s3 (xs @ [p])
      \<and> dns_lru s3 (xs @ [p]) = dns_lru self xs @ [(name, dns_use self)] \<and> dns_config s3 = dns_config self"
proof -
  let ?s = "s2\<lparr>dns_use := dns_use s2 + 1\<rparr>"
  note ix = inv [unfolded dns_inv_def dns_indexed_def]
  have "dns_linked ?s (xs @ [p])" using s2(1) by (simp add: dns_linked_def)
  then obtain nds where set: "dns_set_record ?s (dns_use self) p
      = Some (?s\<lparr>dns_records := (dns_records self)[nat (dns_use self) := p], dns_nodes := nds\<rparr>)"
    and new: "let s3 = ?s\<lparr>dns_records := (dns_records self)[nat (dns_use self) := p], dns_nodes := nds\<rparr> in
        dns_linked s3 (xs @ [p]) \<and> dns_key s3 = dns_key s2 \<and> dns_index s3 = (dns_index s2)(p := dns_use self)
        \<and> (\<exists>n. nds p = Some n \<and> dn_idx n = dns_use self)"
    using dns_set_record_ok [of ?s "xs @ [p]" p "dns_use self"] ix room s2(3,4) by (auto simp: dns_config_def)
  define s3 where "s3 = ?s\<lparr>dns_records := (dns_records self)[nat (dns_use self) := p], dns_nodes := nds\<rparr>"
  note n3 = new [unfolded Let_def, folded s3_def]
  have f3: "dns_use s3 = dns_use self + 1" "dns_records s3 = (dns_records self)[length xs := p]"
    "dns_config s3 = dns_config self"
    using s2 ix by (auto simp: s3_def dns_config_def)
  have i3: "dns_index s3 p = int (length xs)" "\<And>a. a \<in> set xs \<Longrightarrow> dns_index s3 a = dns_index self a"
    using n3 same p ix by auto
  have "dns_index s3 ` set (xs @ [p]) = insert (int (length xs)) (dns_index self ` set xs)"
    using i3 by auto
  also have "\<dots> = {0..<int (length xs) + 1}" using ix by auto
  finally have "dns_indexed s3 (xs @ [p])"
    unfolding dns_indexed_def using f3 i3 ix room dns_index_range [OF inv]
    by (auto simp: dns_config_def nth_list_update)
  then have "dns_inv s3 (xs @ [p])" using n3 by (auto simp: dns_inv_def)
  moreover have "dns_lru s3 (xs @ [p]) = dns_lru self xs @ [(name, dns_use self)]"
    using n3 same s2(5) i3 ix by (auto simp: dns_lru_def)
  moreover have "dns_place s2 (dns_use self) p = Some (s3, dns_use self)"
    using set n3 room s2(2,3) by (auto simp: dns_place_def s3_def dns_config_def)
  ultimately show ?thesis using f3(3) by blast
qed

lemma dns_place_full:
  assumes inv: "dns_inv self (x # xs)" and full: "dns_use self = dns_max self" and p: "p \<notin> set (x # xs)"
    and s2: "dns_linked s2 (x # xs @ [p])" "dns_use s2 = dns_use self" "dns_config s2 = dns_config self"
      "dns_records s2 = dns_records self" "dns_key s2 p = name"
    and same: "\<And>a. a \<in> set (x # xs) \<Longrightarrow> dns_key s2 a = dns_key self a \<and> dns_index s2 a = dns_index self a"
  shows "\<exists>s3. dns_place s2 (dns_use self) p = Some (s3, dns_index self x) \<and> dns_inv s3 (xs @ [p])
      \<and> dns_lru s3 (xs @ [p]) = dns_lru self xs @ [(name, dns_index self x)] \<and> dns_config s3 = dns_config self"
proof -
  let ?i = "dns_index self x"
  note ix = inv [unfolded dns_inv_def dns_indexed_def]
  have i: "0 \<le> ?i" "?i < int (length (dns_records self))"
    using dns_index_range [OF inv, of x] ix by auto
  obtain t l where ev: "dns_evict s2 = Some (s2\<lparr>dns_tree := t, dns_list := l, dns_nodes := (dns_nodes s2)(x := None)\<rparr>, ?i)"
    and lk: "dns_linked (s2\<lparr>dns_tree := t, dns_list := l, dns_nodes := (dns_nodes s2)(x := None)\<rparr>) (xs @ [p])"
    using dns_evict_linked [OF s2(1)] same [of x] by (auto simp: Let_def)
  define s where "s = s2\<lparr>dns_tree := t, dns_list := l, dns_nodes := (dns_nodes s2)(x := None)\<rparr>"
  have s: "dns_key s a = dns_key s2 a" "dns_index s a = dns_index s2 a" if "a \<noteq> x" for a
    using that by (auto simp: s_def dns_key_def dns_index_def)
  obtain nds where set: "dns_set_record s ?i p
      = Some (s\<lparr>dns_records := (dns_records self)[nat ?i := p], dns_nodes := nds\<rparr>)"
    and new: "let s3 = s\<lparr>dns_records := (dns_records self)[nat ?i := p], dns_nodes := nds\<rparr> in
        dns_linked s3 (xs @ [p]) \<and> dns_key s3 = dns_key s \<and> dns_index s3 = (dns_index s)(p := ?i)
        \<and> (\<exists>n. nds p = Some n \<and> dn_idx n = ?i)"
    using dns_set_record_ok [OF lk [folded s_def], of p ?i] i s2(4) by (auto simp: s_def)
  define s3 where "s3 = s\<lparr>dns_records := (dns_records self)[nat ?i := p], dns_nodes := nds\<rparr>"
  note n3 = new [unfolded Let_def, folded s3_def]
  have f3: "dns_use s3 = dns_use self" "dns_records s3 = (dns_records self)[nat ?i := p]"
    "dns_config s3 = dns_config self"
    using s2 by (auto simp: s3_def s_def dns_config_def)
  have nx: "x \<notin> set xs" "p \<noteq> x" using dns_linked_distinct [of self "x # xs"] ix p by auto
  have sx: "dns_key s a = dns_key self a" "dns_index s a = dns_index self a" if "a \<in> set xs" for a
    using that s [of a] same [of a] nx by auto
  have i3: "dns_index s3 p = ?i" "\<And>a. a \<in> set xs \<Longrightarrow> dns_index s3 a = dns_index self a"
    "\<And>a. a \<in> set xs \<Longrightarrow> dns_index self a \<noteq> ?i"
    using n3 p sx nx dns_index_inj [OF inv] by (auto simp: inj_on_def)
  have rp: "(dns_records self)[nat ?i := p] ! nat ?i = p"
    using i by simp
  have rx: "(dns_records self)[nat ?i := p] ! nat (dns_index self a) = a" if "a \<in> set xs" for a
    using that i i3(3) [of a] ix dns_index_range [OF inv, of a] by (auto simp: nth_list_update)
  have "dns_index s3 ` set (xs @ [p]) = dns_index self ` set (x # xs)"
    using i3 by auto
  then have "dns_indexed s3 (xs @ [p])"
    unfolding dns_indexed_def using f3 i3 ix full rp rx by (auto simp: dns_config_def)
  then have "dns_inv s3 (xs @ [p])" using n3 by (auto simp: dns_inv_def)
  moreover have "dns_lru s3 (xs @ [p]) = dns_lru self xs @ [(name, ?i)]"
    using n3 s2(5) i3 s [of p] sx nx by (auto simp: dns_lru_def)
  moreover have "dns_place s2 (dns_use self) p = Some (s3, ?i)"
    using set n3 full s2(2,3) ev by (auto simp: dns_place_def s3_def s_def dns_config_def)
  ultimately show ?thesis using f3(3) by blast
qed


section \<open>The cache refines its specification\<close>

text \<open>Memory that \<open>hev_malloc0\<close> and \<open>strdup\<close> can hand out: a fresh, aligned block.\<close>

definition dns_mem_ok :: "dns_mem \<Rightarrow> ptr list \<Rightarrow> bool" where
  "dns_mem_ok mem xs \<longleftrightarrow> mem_node mem \<noteq> NULL \<and> aligned (mem_node mem) \<and> mem_node mem \<notin> set xs \<and> mem_dup mem"

theorem hev_mapped_dns_find_refines:
  assumes inv: "dns_inv self xs" and cap: "0 < dns_max self" and mem: "dns_mem_ok mem xs"
  obtains self' xs' where
    "hev_mapped_dns_find self mem name = Some (self', snd (lru_find (nat (dns_max self)) name (dns_lru self xs)))"
    "dns_inv self' xs'" "dns_lru self' xs' = fst (lru_find (nat (dns_max self)) name (dns_lru self xs))"
    "dns_config self' = dns_config self"
proof (cases "name \<in> dns_key self ` set xs")
  case True
  then obtain p where p: "p \<in> set xs" "dns_key self p = name" by auto
  have lk: "dns_linked self xs" using inv by (simp add: dns_inv_def)
  obtain l xs' where l: "dns_touch self p = Some (self\<lparr>dns_list := l\<rparr>)" "dns_inv (self\<lparr>dns_list := l\<rparr>) xs'"
    "dns_lru (self\<lparr>dns_list := l\<rparr>) xs' = lru_touch name (dns_lru self xs)"
    using dns_touch_inv [OF inv p(1)] p(2) by metis
  have "map_of (dns_lru self xs) name = Some (dns_index self p)"
    using map_of_dns_lru [OF lk p(1)] p(2) by simp
  moreover have "hev_mapped_dns_find self mem name = Some (self\<lparr>dns_list := l\<rparr>, dns_index self p)"
    using dns_find_hit [OF lk p] l(1) lk p(1) by (auto simp: dns_linked_def dns_index_def)
  ultimately show thesis
    using l(2,3) by (intro that [of "self\<lparr>dns_list := l\<rparr>" xs']) (simp_all add: lru_find_def dns_config_def)
next
  case False
  have lk: "dns_linked self xs" using inv by (simp add: dns_inv_def)
  define p where "p = mem_node mem"
  have m: "p \<noteq> NULL" "aligned p" "p \<notin> set xs" "mem_dup mem"
    using mem by (auto simp: dns_mem_ok_def p_def)
  obtain t l where find: "hev_mapped_dns_find self mem name = dns_place
      (self\<lparr>dns_nodes := (dns_nodes self)(p \<mapsto> \<lparr>dn_name = Some name, dn_idx = 0\<rparr>), dns_tree := t, dns_list := l\<rparr>)
      (dns_use self) p"
    and lk2: "dns_linked (self\<lparr>dns_nodes := (dns_nodes self)(p \<mapsto> \<lparr>dn_name = Some name, dn_idx = 0\<rparr>),
      dns_tree := t, dns_list := l\<rparr>) (xs @ [p])"
    using dns_find_miss [OF lk False p_def [symmetric] m] by (auto simp: Let_def)
  define s2 where "s2 = self\<lparr>dns_nodes := (dns_nodes self)(p \<mapsto> \<lparr>dn_name = Some name, dn_idx = 0\<rparr>),
      dns_tree := t, dns_list := l\<rparr>"
  have s2: "dns_linked s2 (xs @ [p])" "dns_use s2 = dns_use self" "dns_config s2 = dns_config self"
    "dns_records s2 = dns_records self" "dns_key s2 p = name"
    using lk2 by (auto simp: s2_def dns_config_def dns_key_def)
  have same: "dns_key s2 a = dns_key self a \<and> dns_index s2 a = dns_index self a" if "a \<in> set xs" for a
    using that m(3) by (auto simp: s2_def dns_key_def dns_index_def)
  have none: "map_of (dns_lru self xs) name = None"
    using False map_of_dns_lru_None by blast
  have use: "dns_use self = int (length xs)" "dns_use self \<le> dns_max self"
    using inv by (auto simp: dns_inv_def dns_indexed_def)
  show thesis
  proof (cases "dns_use self < dns_max self")
    case True
    then obtain s3 where "dns_place s2 (dns_use self) p = Some (s3, dns_use self)" "dns_inv s3 (xs @ [p])"
      "dns_lru s3 (xs @ [p]) = dns_lru self xs @ [(name, dns_use self)]" "dns_config s3 = dns_config self"
      using dns_place_room [OF inv True m(3) s2 same] by blast
    then show thesis
      using find none use True
      by (intro that [of s3 "xs @ [p]"]) (auto simp: lru_find_def dns_lru_simps s2_def)
  next
    case full: False
    then obtain y ys where xs: "xs = y # ys" using use cap by (cases xs) auto
    obtain s3 where "dns_place s2 (dns_use self) p = Some (s3, dns_index self y)" "dns_inv s3 (ys @ [p])"
      "dns_lru s3 (ys @ [p]) = dns_lru self ys @ [(name, dns_index self y)]" "dns_config s3 = dns_config self"
      using dns_place_full [of self y ys p s2 name] inv full use(2) m(3) s2 same xs by auto
    then show thesis
      using find none use full xs
      by (intro that [of s3 "ys @ [p]"]) (auto simp: lru_find_def dns_lru_simps s2_def)
  qed
qed

lemma sint_and_nonneg: "0 \<le> sint (w :: u32) \<Longrightarrow> 0 \<le> sint (v AND w)"
  using bit_last_iff [of w] bit_last_iff [of "v AND w"] by (auto simp: bit_and_iff)

lemma lru_name_dns_lru:
  assumes "dns_inv self xs" "p \<in> set xs"
  shows "lru_name (dns_lru self xs) (dns_index self p) = Some (dns_key self p)"
proof -
  have "distinct (map fst (map prod.swap (dns_lru self xs)))"
    using dns_index_inj [OF assms(1)] dns_linked_distinct assms(1)
    by (auto simp: dns_lru_def distinct_map comp_def dns_inv_def)
  then show ?thesis
    using assms(2) unfolding lru_name_def by (intro map_of_is_SomeI) (auto simp: dns_lru_def)
qed

lemma lru_name_dns_lru_None:
  assumes "dns_inv self xs" "\<not> (0 \<le> i \<and> i < dns_use self)"
  shows "lru_name (dns_lru self xs) i = None"
proof -
  have "i \<notin> dns_index self ` set xs" using assms by (auto simp: dns_inv_def dns_indexed_def)
  then show ?thesis by (auto simp: lru_name_def map_of_eq_None_iff dns_lru_def image_image comp_def)
qed

theorem hev_mapped_dns_lookup_refines:
  assumes inv: "dns_inv self xs"
  obtains self' xs' where
    "hev_mapped_dns_lookup self ip
       = Some (self', snd (lru_lookup (sint (ip AND NOT (dns_mask self))) (dns_lru self xs)))"
    "dns_inv self' xs'"
    "dns_lru self' xs' = fst (lru_lookup (sint (ip AND NOT (dns_mask self))) (dns_lru self xs))"
    "dns_config self' = dns_config self"
proof -
  define i where "i = sint (ip AND NOT (dns_mask self))"
  note ix = inv [unfolded dns_inv_def dns_indexed_def]
  have i0: "0 \<le> i" unfolding i_def using ix by (intro sint_and_nonneg) linarith
  show thesis
  proof (cases "i < dns_use self")
    case True
    then have "i \<in> dns_index self ` set xs" using ix i0 by auto
    then obtain p where p: "p \<in> set xs" "dns_index self p = i" by blast
    obtain nm j where rec: "dns_records self ! nat i = p" "p \<noteq> NULL" "dns_nodes self p = Some \<lparr>dn_name = Some nm, dn_idx = j\<rparr>"
      using ix p list_rep_alloc [of "dns_list self" xs p] by (auto simp: dns_linked_def)
    obtain l xs' where l: "dns_touch self p = Some (self\<lparr>dns_list := l\<rparr>)" "dns_inv (self\<lparr>dns_list := l\<rparr>) xs'"
      "dns_lru (self\<lparr>dns_list := l\<rparr>) xs' = lru_touch (dns_key self p) (dns_lru self xs)"
      using dns_touch_inv [OF inv p(1)] by metis
    have "hev_mapped_dns_lookup self ip = Some (self\<lparr>dns_list := l\<rparr>, Some (dns_key self p))"
      using True i0 ix rec l(1) p(1)
      by (auto simp: hev_mapped_dns_lookup_def i_def [symmetric] dns_key_def dns_linked_def)
    moreover have "lru_lookup i (dns_lru self xs) = (lru_touch (dns_key self p) (dns_lru self xs), Some (dns_key self p))"
      using lru_name_dns_lru [OF inv p(1)] p(2) by (simp add: lru_lookup_def)
    ultimately show thesis
      using l(2,3) by (intro that [of "self\<lparr>dns_list := l\<rparr>" xs']) (simp_all add: i_def dns_config_def)
  next
    case False
    have "hev_mapped_dns_lookup self ip = Some (self, None)"
      using False i0 ix by (auto simp: hev_mapped_dns_lookup_def i_def [symmetric] Let_def)
    moreover have "lru_lookup i (dns_lru self xs) = (dns_lru self xs, None)"
      using lru_name_dns_lru_None [OF inv] False by (simp add: lru_lookup_def)
    ultimately show thesis
      using inv by (intro that [of self xs]) (simp_all add: i_def)
  qed
qed

theorem hev_mapped_dns_new_inv:
  "hev_mapped_dns_new malloced net msk mx = Some self \<Longrightarrow> 0 \<le> mx \<Longrightarrow>
   dns_inv self [] \<and> dns_config self = (mx, net, msk)"
  by (auto simp: hev_mapped_dns_new_def hev_mapped_dns_construct_def dns_zeroed_def dns_inv_def dns_linked_def
      dns_indexed_def dns_config_def list_rep_empty keyed_tree_empty split: if_splits)

section \<open>Freeing the cache\<close>

lemma dns_destruct_loop_frees:
  assumes "chain (lnodes (dns_list self)) q ys NULL" "distinct ys" "\<And>p. p \<in> set ys \<Longrightarrow> dns_nodes self p \<noteq> None"
  shows "\<exists>self'. dns_destruct_loop self (hd (ys @ [NULL])) = Some self'
      \<and> dns_nodes self' = (dns_nodes self) |` (- set ys)"
  using assms
proof (induction ys arbitrary: self q)
  case Nil
  then show ?case by (subst dns_destruct_loop.simps) (simp add: restrict_map_def)
next
  case (Cons y ys)
  let ?s = "hev_mapped_dns_node_free self y"
  have "\<exists>self'. dns_destruct_loop ?s (hd (ys @ [NULL])) = Some self' \<and> dns_nodes self' = (dns_nodes ?s) |` (- set ys)"
  proof (rule Cons.IH [of _ y])
    show "chain (lnodes (dns_list ?s)) y ys NULL" "distinct ys"
      using Cons.prems by (simp_all add: hev_mapped_dns_node_free_def)
    show "dns_nodes ?s p \<noteq> None" if "p \<in> set ys" for p
      using that Cons.prems by (auto simp: hev_mapped_dns_node_free_def)
  qed
  moreover have "(dns_nodes ?s) |` (- set ys) = (dns_nodes self) |` (- set (y # ys))"
    by (auto simp: hev_mapped_dns_node_free_def restrict_map_def fun_eq_iff)
  moreover obtain n where "dns_nodes self y = Some n" using Cons.prems(3) [of y] by auto
  ultimately show ?case
    using Cons.prems by (subst dns_destruct_loop.simps) (auto simp: hev_list_node_next_def)
qed

theorem hev_mapped_dns_destruct_frees:
  assumes "dns_inv self xs"
  shows "\<exists>self'. hev_mapped_dns_destruct self = Some self' \<and> dns_nodes self' = Map.empty"
proof -
  have "dom (dns_nodes self) = set xs" using assms by (simp add: dns_inv_def dns_linked_def)
  moreover have "chain (lnodes (dns_list self)) NULL xs NULL" "distinct xs" "hev_list_first (dns_list self) = hd (xs @ [NULL])"
    using assms by (auto simp: dns_inv_def dns_linked_def list_rep_def hev_list_first_def)
  moreover from calculation(1) have "dns_nodes self p \<noteq> None" if "p \<in> set xs" for p
    using that by (metis domIff)
  moreover from calculation(1) have "(dns_nodes self) |` (- set xs) = Map.empty"
    by (auto simp: restrict_map_def fun_eq_iff domIff)
  ultimately show ?thesis
    using dns_destruct_loop_frees [of self NULL xs] by (simp add: hev_mapped_dns_destruct_def)
qed

end
