(* ===== verification/MappedDNS_Runs.thy ===== *)
theory MappedDNS_Runs
  imports MappedDNS
begin

text \<open>
  Sequences of cache operations from a freshly constructed cache: every run refines the
  specification, so the address handed out for a name maps back to that name for as long as
  fewer than \<open>max\<close> other names are used, whatever the order of the operations.
\<close>

section \<open>Runs of the cache\<close>

text \<open>
  A sequence of operations. \<open>hev_mapped_dns_find\<close> is given the memory its allocations return
  at that moment by \<open>alloc\<close>, which sees the addresses in use.
\<close>

fun dns_op :: "(ptr set \<Rightarrow> dns_mem) \<Rightarrow> cache_op \<Rightarrow> hev_mapped_dns \<Rightarrow> hev_mapped_dns option" where
  "dns_op alloc (Find nm) self = map_option fst (hev_mapped_dns_find self (alloc (dom (dns_nodes self))) nm)"
| "dns_op alloc (Lookup i) self =
     map_option fst (hev_mapped_dns_lookup self (dns_net self OR word_of_int i))"

fun dns_run :: "(ptr set \<Rightarrow> dns_mem) \<Rightarrow> cache_op list \<Rightarrow> hev_mapped_dns \<Rightarrow> hev_mapped_dns option" where
  "dns_run alloc [] self = Some self"
| "dns_run alloc (x # xs) self = do { self \<leftarrow> dns_op alloc x self; dns_run alloc xs self }"

definition alloc_ok :: "nat \<Rightarrow> (ptr set \<Rightarrow> dns_mem) \<Rightarrow> bool" where
  "alloc_ok cap alloc \<longleftrightarrow> (\<forall>U. card U \<le> cap \<longrightarrow> mem_node (alloc U) \<noteq> NULL \<and> aligned (mem_node (alloc U))
     \<and> mem_node (alloc U) \<notin> U \<and> mem_dup (alloc U))"

text \<open>
  A network whose mask leaves \<open>k\<close> host bits, none of which is set in the network address.
\<close>

definition dns_subnet :: "hev_mapped_dns \<Rightarrow> nat \<Rightarrow> bool" where
  "dns_subnet self k \<longleftrightarrow> k < 32 \<and> NOT (dns_mask self) = mask k \<and> dns_net self AND mask k = 0"

lemma and_or_distrib: "((a :: u32) OR b) AND c = (a AND c) OR (b AND c)"
  by (rule bit_word_eqI) (auto simp: bit_and_iff bit_or_iff)

lemma sint_small: "uint (w :: u32) < 2 ^ 31 \<Longrightarrow> sint w = uint w"
  using signed_take_bit_int_eq_self [of 31 "uint w"] uint_ge_0 [of w]
  by (simp add: sint_uint)

lemma uint_mask: "k < 32 \<Longrightarrow> uint (mask k :: u32) = 2 ^ k - 1"
proof -
  assume "k < 32"
  have "uint (mask k :: u32) = take_bit k (uint (-1 :: u32))"
    by (simp only: unsigned_take_bit_eq [symmetric] take_bit_minus_one_eq_mask)
  also have "\<dots> = mask (min k 32)" by (simp only: unsigned_minus_1_eq_mask take_bit_of_mask) simp
  finally show ?thesis using \<open>k < 32\<close> by (simp add: mask_eq_exp_minus_1)
qed

lemma subnet_mask: "k < 32 \<Longrightarrow> sint (mask k :: u32) = 2 ^ k - 1"
proof -
  assume k: "k < 32"
  then have "(2 :: int) ^ k \<le> 2 ^ 31" by (intro power_increasing) auto
  then show ?thesis using k by (simp add: sint_small uint_mask)
qed

lemma subnet_index:
  assumes "dns_subnet self k" "0 \<le> i" "i \<le> sint (NOT (dns_mask self))"
  shows "sint ((dns_net self OR word_of_int i) AND NOT (dns_mask self)) = i"
proof -
  have k: "k < 32" "NOT (dns_mask self) = mask k" "dns_net self AND mask k = 0"
    using assms(1) by (auto simp: dns_subnet_def)
  have i: "i < 2 ^ k" using assms(3) k subnet_mask by simp
  also have "(2 :: int) ^ k \<le> 2 ^ 31" using k(1) by (intro power_increasing) auto
  finally have u: "uint (word_of_int i :: u32) = i"
    using assms(2) by (simp add: uint_word_of_int)
  have "uint ((word_of_int i :: u32) AND mask k) = take_bit k i"
    by (simp add: take_bit_eq_mask [symmetric] unsigned_take_bit_eq u)
  also have "\<dots> = i" using i assms(2) by (simp add: take_bit_int_eq_self)
  finally have "uint ((word_of_int i :: u32) AND mask k) = i" .
  then have "sint ((word_of_int i :: u32) AND mask k) = i"
    using i \<open>(2 :: int) ^ k \<le> 2 ^ 31\<close> by (simp add: sint_small)
  then show ?thesis using k by (simp add: and_or_distrib)
qed


fun op_ok :: "hev_mapped_dns \<Rightarrow> cache_op \<Rightarrow> bool" where
  "op_ok self (Find nm) \<longleftrightarrow> True"
| "op_ok self (Lookup i) \<longleftrightarrow> 0 \<le> i \<and> i < dns_max self"

lemma dns_config_eq:
  "dns_config self' = dns_config self \<Longrightarrow> dns_max self' = dns_max self \<and> dns_net self' = dns_net self
     \<and> dns_mask self' = dns_mask self"
  by (simp add: dns_config_def)

lemma dns_op_refines:
  assumes inv: "dns_inv self xs" and cap: "0 < dns_max self" and sub: "dns_subnet self k"
    and al: "alloc_ok (nat (dns_max self)) alloc" and ok: "op_ok self x"
  obtains self' xs' where "dns_op alloc x self = Some self'" "dns_inv self' xs'"
    "dns_lru self' xs' = fst (lru_op (nat (dns_max self)) x (dns_lru self xs))"
    "dns_config self' = dns_config self"
proof (cases x)
  case (Find nm)
  have xs: "dom (dns_nodes self) = set xs" "length xs \<le> nat (dns_max self)"
    using inv by (auto simp: dns_inv_def dns_linked_def dns_indexed_def)
  then have "dns_mem_ok (alloc (dom (dns_nodes self))) xs"
    using al card_length [of xs] unfolding alloc_ok_def dns_mem_ok_def by (metis order_trans)
  then show thesis
    using hev_mapped_dns_find_refines [OF inv cap, of "alloc (dom (dns_nodes self))" nm] that Find
    by (metis (no_types, lifting) dns_op.simps(1) fst_conv lru_op.simps(1) option.map(2))
next
  case (Lookup i)
  have "i \<le> sint (NOT (dns_mask self))" "0 \<le> i"
    using ok Lookup inv by (auto simp: dns_inv_def dns_indexed_def)
  then have ip: "sint ((dns_net self OR word_of_int i) AND NOT (dns_mask self)) = i"
    using subnet_index [OF sub] by blast
  show thesis
    using hev_mapped_dns_lookup_refines [OF inv, of "dns_net self OR word_of_int i"] that Lookup
    by (metis (no_types, lifting) dns_op.simps(2) fst_conv ip lru_op.simps(2) option.map(2))
qed

lemma dns_run_refines:
  assumes "dns_inv self xs" "0 < dns_max self" "dns_subnet self k"
    "alloc_ok (nat (dns_max self)) alloc" "\<forall>x\<in>set ops. op_ok self x"
  shows "\<exists>self' xs'. dns_run alloc ops self = Some self' \<and> dns_inv self' xs'
    \<and> dns_lru self' xs' = fst (lru_run (nat (dns_max self)) ops (dns_lru self xs))
    \<and> dns_config self' = dns_config self"
  using assms
proof (induction ops arbitrary: self xs)
  case (Cons x ops)
  obtain s1 ys where s1: "dns_op alloc x self = Some s1" "dns_inv s1 ys"
    "dns_lru s1 ys = fst (lru_op (nat (dns_max self)) x (dns_lru self xs))" "dns_config s1 = dns_config self"
    using dns_op_refines [OF Cons.prems(1-4), of x] Cons.prems(5) by auto
  have c: "dns_max s1 = dns_max self" "dns_net s1 = dns_net self" "dns_mask s1 = dns_mask self"
    using dns_config_eq [OF s1(4)] by auto
  have "op_ok s1 y" if "op_ok self y" for y using that c by (cases y) auto
  then obtain s2 zs where "dns_run alloc ops s1 = Some s2" "dns_inv s2 zs"
    "dns_lru s2 zs = fst (lru_run (nat (dns_max self)) ops (dns_lru s1 ys))" "dns_config s2 = dns_config self"
    using Cons.IH [of s1 ys] s1 Cons.prems c by (auto simp: dns_subnet_def)
  then show ?case
    using s1 by (auto simp: case_prod_beta)
qed auto

text \<open>The address handed out for a name maps back to it.\<close>

lemma dns_lookup_bound:
  assumes inv: "dns_inv self xs" and sub: "dns_subnet self k" and b: "map_of (dns_lru self xs) nm = Some i"
  shows "\<exists>self'. hev_mapped_dns_lookup self (dns_net self OR word_of_int i) = Some (self', Some nm)"
proof -
  have "(nm, i) \<in> set (dns_lru self xs)" using b map_of_SomeD by fast
  then obtain p where p: "p \<in> set xs" "nm = dns_key self p" "i = dns_index self p" by (auto simp: dns_lru_def)
  have "0 \<le> i" "i \<le> sint (NOT (dns_mask self))"
    using dns_index_range [OF inv p(1)] p(3) inv by (auto simp: dns_inv_def dns_indexed_def)
  then have ip: "sint ((dns_net self OR word_of_int i) AND NOT (dns_mask self)) = i"
    using subnet_index [OF sub] by blast
  have "lru_lookup i (dns_lru self xs) = (lru_touch nm (dns_lru self xs), Some nm)"
    using lru_name_dns_lru [OF inv p(1)] p by (simp add: lru_lookup_def)
  then show ?thesis
    using hev_mapped_dns_lookup_refines [OF inv, of "dns_net self OR word_of_int i"] ip by (metis snd_conv)
qed

lemma lru_ok_dns_lru: "dns_inv self xs \<Longrightarrow> lru_ok (nat (dns_max self)) (dns_lru self xs)"
  using dns_key_inj dns_linked_distinct
  by (fastforce simp: lru_ok_def dns_lru_def distinct_map comp_def dns_inv_def dns_indexed_def)

lemma lru_find_last:
  assumes "lru_ok cap c" "0 < cap"
  shows "kept nm (snd (lru_find cap nm c)) {} (fst (lru_find cap nm c))"
proof (cases "map_of c nm")
  case (Some i)
  then obtain A B where c: "c = A @ (nm, i) # B" using map_of_SomeD split_list by metis
  then have "filter (\<lambda>e. fst e = nm) A = []" "filter (\<lambda>e. fst e = nm) B = []"
    using assms by (force simp: filter_empty_conv lru_ok_def)+
  then have "lru_touch nm c = filter (\<lambda>e. fst e \<noteq> nm) c @ (nm, i) # []"
    using c by (simp add: lru_touch_def)
  then show ?thesis using Some by (auto simp: lru_find_def kept_def)
qed (auto simp: lru_find_def kept_def)

lemma dns_find_retained:
  assumes inv: "dns_inv self xs" and cap: "0 < dns_max self" and sub: "dns_subnet self k"
    and al: "alloc_ok (nat (dns_max self)) alloc" and ok: "\<forall>x\<in>set ops. op_ok self x"
    and few: "card (snd (lru_run (nat (dns_max self)) ops
        (fst (lru_find (nat (dns_max self)) nm (dns_lru self xs)))) - {nm}) < nat (dns_max self)"
  shows "\<exists>s1 i s2 s3. hev_mapped_dns_find self (alloc (dom (dns_nodes self))) nm = Some (s1, i)
    \<and> dns_run alloc ops s1 = Some s2
    \<and> hev_mapped_dns_lookup s2 (dns_net self OR word_of_int i) = Some (s3, Some nm)"
proof -
  let ?cap = "nat (dns_max self)" and ?f = "lru_find (nat (dns_max self)) nm (dns_lru self xs)"
  have xs: "dom (dns_nodes self) = set xs" "length xs \<le> ?cap"
    using inv by (auto simp: dns_inv_def dns_linked_def dns_indexed_def)
  then have "dns_mem_ok (alloc (dom (dns_nodes self))) xs"
    using al card_length [of xs] unfolding alloc_ok_def dns_mem_ok_def by (metis order_trans)
  then obtain s1 ys where s1: "hev_mapped_dns_find self (alloc (dom (dns_nodes self))) nm = Some (s1, snd ?f)"
    "dns_inv s1 ys" "dns_lru s1 ys = fst ?f" "dns_config s1 = dns_config self"
    using hev_mapped_dns_find_refines [OF inv cap] by metis
  have c1: "dns_max s1 = dns_max self" "dns_net s1 = dns_net self" "dns_mask s1 = dns_mask self"
    using dns_config_eq [OF s1(4)] by auto
  have "op_ok s1 y" if "op_ok self y" for y using that c1 by (cases y) auto
  then obtain s2 zs where s2: "dns_run alloc ops s1 = Some s2" "dns_inv s2 zs"
    "dns_lru s2 zs = fst (lru_run ?cap ops (fst ?f))" "dns_config s2 = dns_config self"
    using dns_run_refines [OF s1(2), of k alloc ops] cap sub al ok c1 s1(3,4) by (auto simp: dns_subnet_def)
  have c2: "dns_net s2 = dns_net self" "dns_mask s2 = dns_mask self"
    using dns_config_eq [OF s2(4)] by auto
  have "lru_ok ?cap (fst ?f)" using lru_ok_dns_lru [OF s1(2)] c1 s1(3) by simp
  then have "map_of (dns_lru s2 zs) nm = Some (snd ?f)"
    unfolding s2(3) using lru_find_last [OF lru_ok_dns_lru [OF inv]] cap few
    by (intro lru_run_retains [where U = "{}"]) auto
  then show ?thesis
    using dns_lookup_bound [OF s2(2), of k nm "snd ?f"] s1(1) s2(1) sub c2 by (auto simp: dns_subnet_def)
qed

lemma new_run:
  assumes new: "hev_mapped_dns_new True net msk mx = Some self" "0 < mx" "dns_subnet self k"
    and al: "alloc_ok (nat mx) alloc" and ok: "\<forall>x\<in>set ops. op_ok self x"
  obtains s xs where "dns_run alloc ops self = Some s" "dns_inv s xs"
    "dns_lru s xs = fst (lru_run (nat mx) ops [])" "dns_config s = (mx, net, msk)"
proof -
  have inv: "dns_inv self []" "dns_config self = (mx, net, msk)"
    using hev_mapped_dns_new_inv [OF new(1)] new(2) by auto
  then show thesis
    using dns_run_refines [OF inv(1), of k alloc ops] new al ok that by (auto simp: dns_config_def dns_lru_simps)
qed

text \<open>
  C1. The address returned for a name maps back to it. Take a cache that \<open>hev_mapped_dns_new\<close> built with a
  positive \<open>max\<close>, a mask of leading ones and a network address without host bits (which the code does not
  check), while memory is available. After any operations \<open>ops1\<close>, the index that
  \<open>hev_mapped_dns_find\<close> returns for a name leads \<open>hev_mapped_dns_lookup\<close> of the address \<open>net | idx\<close> back to
  that name, also after further operations \<open>ops2\<close>, as long as those touch fewer than \<open>max\<close> other names.
  The operations are finds of any names and lookups of addresses with an index below \<open>max\<close>; none of them faults.
\<close>

theorem mapped_dns_roundtrip:
  assumes new: "hev_mapped_dns_new True net msk mx = Some self" "0 < mx" "dns_subnet self k"
    and al: "alloc_ok (nat mx) alloc" and ok: "\<forall>x\<in>set ops1 \<union> set ops2. op_ok self x"
    and few: "card (snd (lru_run (nat mx) ops2
        (fst (lru_find (nat mx) nm (fst (lru_run (nat mx) ops1 []))))) - {nm}) < nat mx"
  shows "\<exists>s0 s1 i s2 s3. dns_run alloc ops1 self = Some s0
    \<and> hev_mapped_dns_find s0 (alloc (dom (dns_nodes s0))) nm = Some (s1, i)
    \<and> dns_run alloc ops2 s1 = Some s2
    \<and> hev_mapped_dns_lookup s2 (net OR word_of_int i) = Some (s3, Some nm)"
proof -
  obtain s0 xs where s0: "dns_run alloc ops1 self = Some s0" "dns_inv s0 xs"
    "dns_lru s0 xs = fst (lru_run (nat mx) ops1 [])" "dns_config s0 = (mx, net, msk)"
    using new_run [OF new al, of ops1] ok by auto
  have "dns_config self = (mx, net, msk)" using hev_mapped_dns_new_inv [OF new(1)] new(2) by auto
  then have "op_ok s0 x" if "op_ok self x" for x using that s0(4) by (cases x) (auto simp: dns_config_def)
  then show ?thesis
    using dns_find_retained [OF s0(2), of k alloc ops2 nm] s0 new al ok few \<open>dns_config self = (mx, net, msk)\<close>
    by (auto simp: dns_config_def dns_subnet_def)
qed

definition alloc3 :: "ptr set \<Rightarrow> dns_mem" where
  "alloc3 U = \<lparr>mem_node = (if 8 \<notin> U then 8 else if 16 \<notin> U then 16 else 24), mem_dup = True\<rparr>"

lemma alloc3_ok: "alloc_ok 2 alloc3"
proof -
  have "24 \<notin> U" if "card U \<le> 2" "(8 :: ptr) \<in> U" "(16 :: ptr) \<in> U" for U :: "ptr set"
  proof
    assume "24 \<in> U"
    then have "card {8, 16, 24 :: ptr} \<le> card U" using that by (intro card_mono) auto
    with that(1) show False by simp
  qed
  then show ?thesis by (auto simp: alloc_ok_def alloc3_def aligned_def)
qed

theorem mapped_dns_roundtrip_witness:
  "\<exists>self s0 s1 i s2 s3. hev_mapped_dns_new True 0x64400000 0xffc00000 2 = Some self
    \<and> dns_run alloc3 [Find [97], Find [98]] self = Some s0
    \<and> hev_mapped_dns_find s0 (alloc3 (dom (dns_nodes s0))) [99] = Some (s1, i)
    \<and> dns_run alloc3 [Find [98], Lookup 1] s1 = Some s2
    \<and> hev_mapped_dns_lookup s2 (0x64400000 OR word_of_int i) = Some (s3, Some [99])"
proof -
  obtain self where s: "hev_mapped_dns_new True 0x64400000 0xffc00000 2 = Some self"
    by (simp add: hev_mapped_dns_new_def hev_mapped_dns_construct_def dns_zeroed_def)
  then have "dns_subnet self 22" "dns_max self = 2"
    by (auto simp: hev_mapped_dns_new_def hev_mapped_dns_construct_def dns_zeroed_def dns_subnet_def mask_eq_exp_minus_1)
  then show ?thesis
    using mapped_dns_roundtrip [OF s _ \<open>dns_subnet self 22\<close>, of alloc3 "[Find [97], Find [98]]" "[Find [98], Lookup 1]" "[99]"]
      alloc3_ok s
    by (simp add: lru_find_def lru_touch_def lru_lookup_def lru_name_def)
qed

end
