(* ===== verification/Cache_Theorems.thy ===== *)
theory Cache_Theorems
  imports MappedDNS_Runs
begin

text \<open>
  What the cache of mapped names promises: each operation refines the cache of least recently used
  names (\<open>LRU_Cache\<close>) that the addresses are drawn from, also when memory runs out; nothing is
  left when it is destructed; and which addresses a lookup answers for.
\<close>

lemma alloc3_mem_ok: "dns_mem_ok (alloc3 {}) []"
  by (simp add: dns_mem_ok_def alloc3_def aligned_def)

lemma new_cache: "\<exists>self. hev_mapped_dns_new True 0x64400000 0xffc00000 2 = Some self \<and> dns_max self = 2 \<and> dns_inv self []
    \<and> dns_mask self = 0xffc00000"
proof -
  obtain self where s: "hev_mapped_dns_new True 0x64400000 0xffc00000 2 = Some self"
    by (simp add: hev_mapped_dns_new_def hev_mapped_dns_construct_def dns_zeroed_def)
  then show ?thesis using hev_mapped_dns_new_inv [OF s] by (simp add: dns_config_def)
qed

section \<open>Properties\<close>

text \<open>
  C30. Finding a name refines the abstract cache: the operation on tree, list, records and heap
  terminates without a fault, returns the index that the least-recently-used cache assigns to
  the name, keeps the invariant, and its new contents are those of the abstract cache: the name
  moves to the young end, and if it is new and the cache is full it takes over the index of the
  oldest name, which is dropped.
\<close>

theorem dns_find_refines_lru:
  assumes "dns_inv self xs" "0 < dns_max self" "dns_mem_ok mem xs"
  shows "\<exists>self' xs'. hev_mapped_dns_find self mem name = Some (self', snd (lru_find (nat (dns_max self)) name (dns_lru self xs)))
    \<and> dns_inv self' xs' \<and> dns_lru self' xs' = fst (lru_find (nat (dns_max self)) name (dns_lru self xs))
    \<and> dns_config self' = dns_config self"
  using hev_mapped_dns_find_refines [OF assms, of name] by metis

theorem dns_find_refines_lru_witness:
  "\<exists>self self' xs'. hev_mapped_dns_new True 0x64400000 0xffc00000 2 = Some self
    \<and> hev_mapped_dns_find self (alloc3 {}) [97] = Some (self', 0) \<and> dns_inv self' xs' \<and> dns_lru self' xs' = [([97], 0)]"
proof -
  obtain self where "hev_mapped_dns_new True 0x64400000 0xffc00000 2 = Some self" "dns_max self = 2" "dns_inv self []"
    using new_cache by blast
  then show ?thesis
    using dns_find_refines_lru [OF _ _ alloc3_mem_ok, of self "[97]"] by (auto simp: lru_find_def dns_lru_simps)
qed

text \<open>
  C39. Looking up an address refines the abstract cache, for every well-formed cache and every address: no fault, the name that
  has the index in the host part of the address if there is one, which becomes the youngest, and
  nothing otherwise.
\<close>

theorem dns_lookup_refines_lru:
  assumes "dns_inv self xs"
  shows "\<exists>self' xs'. hev_mapped_dns_lookup self ip
      = Some (self', snd (lru_lookup (sint (ip AND NOT (dns_mask self))) (dns_lru self xs)))
    \<and> dns_inv self' xs' \<and> dns_lru self' xs' = fst (lru_lookup (sint (ip AND NOT (dns_mask self))) (dns_lru self xs))
    \<and> dns_config self' = dns_config self"
  using hev_mapped_dns_lookup_refines [OF assms, of ip] by metis

theorem dns_lookup_refines_lru_witness:
  "\<exists>self self'. hev_mapped_dns_new True 0x64400000 0xffc00000 2 = Some self
    \<and> hev_mapped_dns_lookup self 0x64400001 = Some (self', None)"
proof -
  obtain self where "hev_mapped_dns_new True 0x64400000 0xffc00000 2 = Some self" "dns_inv self []"
    using new_cache by blast
  then show ?thesis
    using dns_lookup_refines_lru [of self "[]" "0x64400001"] by (auto simp: lru_lookup_def lru_name_def dns_lru_simps)
qed

text \<open>
  Neither the constructor nor the configuration asks for a network address without host bits. With one that has some, two
  names can be given the same address: here the indices 0 and 1 both stand for 10.0.0.1.
\<close>

lemma dns_host_bits_ambiguous:
  "\<exists>self s1 s2. hev_mapped_dns_new True 0x0a000001 0xffffff00 2 = Some self
    \<and> hev_mapped_dns_find self (alloc3 (dom (dns_nodes self))) [97] = Some (s1, 0)
    \<and> hev_mapped_dns_find s1 (alloc3 (dom (dns_nodes s1))) [98] = Some (s2, 1)
    \<and> dns_net s2 OR word_of_int 0 = dns_net s2 OR word_of_int 1"
proof -
  obtain self where s: "hev_mapped_dns_new True 0x0a000001 0xffffff00 2 = Some self"
    by (simp add: hev_mapped_dns_new_def hev_mapped_dns_construct_def dns_zeroed_def)
  have i: "dns_inv self []" "dns_max self = 2" "dns_net self = 0x0a000001"
    using hev_mapped_dns_new_inv [OF s] by (auto simp: dns_config_def)
  have mem: "dns_mem_ok (alloc3 (dom (dns_nodes v))) ys" if "dns_inv v ys" "dns_max v = 2" for v ys
  proof -
    have "dom (dns_nodes v) = set ys" "card (set ys) \<le> 2"
      using that card_length [of ys] by (auto simp: dns_inv_def dns_linked_def dns_indexed_def)
    then show ?thesis using alloc3_ok unfolding alloc_ok_def dns_mem_ok_def by metis
  qed
  obtain s1 xs where s1: "hev_mapped_dns_find self (alloc3 (dom (dns_nodes self))) [97] = Some (s1, 0)" "dns_inv s1 xs"
    "dns_lru s1 xs = [([97], 0)]" "dns_config s1 = dns_config self"
    using hev_mapped_dns_find_refines [OF i(1) _ mem [OF i(1,2)], of "[97]"] i(2) by (auto simp: lru_find_def dns_lru_simps)
  have m1: "dns_max s1 = 2" "dns_net s1 = 0x0a000001" using dns_config_eq [OF s1(4)] i by auto
  obtain s2 ys where "hev_mapped_dns_find s1 (alloc3 (dom (dns_nodes s1))) [98] = Some (s2, 1)" "dns_config s2 = dns_config s1"
    using hev_mapped_dns_find_refines [OF s1(2) _ mem [OF s1(2) m1(1)], of "[98]"] m1(1) s1(3) by (auto simp: lru_find_def)
  then show ?thesis using s s1(1) m1 dns_config_eq [of s2 s1] by auto
qed

text \<open>
  Out of memory: when a name is new and no node can be allocated, finding it returns -1 and the
  cache is as it was.
\<close>

theorem dns_find_no_memory:
  assumes "dns_inv self xs" "name \<notin> dns_key self ` set xs" "mem_node mem = NULL"
  shows "hev_mapped_dns_find self mem name = Some (self, -1)"
  using dns_find_miss_fail [of self xs name mem] assms by (simp add: dns_inv_def)

theorem dns_find_no_memory_witness:
  "\<exists>self. hev_mapped_dns_new True 0x64400000 0xffc00000 2 = Some self
    \<and> hev_mapped_dns_find self \<lparr>mem_node = NULL, mem_dup = True\<rparr> [97] = Some (self, -1)"
  using new_cache dns_find_no_memory [where xs = "[]" and mem = "\<lparr>mem_node = NULL, mem_dup = True\<rparr>" and name = "[97]"]
  by (metis dns_mem.select_convs(1) image_empty empty_iff list.set(1))

text \<open>
  The destruction of a cache walks its list without touching a freed node and frees every node.
\<close>

theorem dns_destruct_frees_all:
  assumes "dns_inv self xs"
  shows "\<exists>self'. hev_mapped_dns_destruct self = Some self' \<and> dns_nodes self' = Map.empty"
  by (rule hev_mapped_dns_destruct_frees [OF assms])

theorem dns_destruct_frees_all_witness:
  "\<exists>self s0 s1. hev_mapped_dns_new True 0x64400000 0xffc00000 2 = Some self
    \<and> dns_run alloc3 [Find [97], Find [98], Find [99]] self = Some s0
    \<and> hev_mapped_dns_destruct s0 = Some s1 \<and> dns_nodes s1 = Map.empty"
proof -
  obtain self where s: "hev_mapped_dns_new True 0x64400000 0xffc00000 2 = Some self" "dns_mask self = 0xffc00000" "dns_max self = 2"
    using new_cache by blast
  have "dns_net self = 0x64400000" using hev_mapped_dns_new_inv [OF s(1)] by (simp add: dns_config_def)
  then have sub: "dns_subnet self 22" using s(2) by (simp add: dns_subnet_def mask_eq_exp_minus_1)
  obtain s0 xs where "dns_run alloc3 [Find [97], Find [98], Find [99]] self = Some s0" "dns_inv s0 xs"
    by (rule new_run [OF s(1), of 22 alloc3 "[Find [97], Find [98], Find [99]]"]) (use alloc3_ok sub in simp_all)
  then show ?thesis using s(1) dns_destruct_frees_all by blast
qed

text \<open>
  A lookup does not compare the network: any two addresses with the same host part get the same
  answer, also one that lies outside the mapped network.
\<close>

theorem dns_lookup_ignores_network:
  "hev_mapped_dns_lookup self ip = hev_mapped_dns_lookup self ((ip AND NOT (dns_mask self)) OR (other AND dns_mask self))"
proof -
  have "((ip AND NOT (dns_mask self)) OR (other AND dns_mask self)) AND NOT (dns_mask self) = ip AND NOT (dns_mask self)"
    by (rule bit_word_eqI) (auto simp: bit_simps)
  then show ?thesis by (simp add: hev_mapped_dns_lookup_def)
qed

end
