(* ===== verification/Bytes.thy ===== *)
theory Bytes
  imports Tunnel_Prelude
begin

text \<open>
  Byte buffers: loads and stores of single bytes and of blocks, which fault outside the buffer,
  C strings inside a buffer, and 16-bit fields in the memory order of a little-endian host with
  the conversion to network order.
\<close>

section \<open>Loads and stores\<close>

definition get8 :: "byte list \<Rightarrow> nat \<Rightarrow> byte option" where
  "get8 b i = (if i < length b then Some (b ! i) else None)"

definition put8 :: "byte list \<Rightarrow> nat \<Rightarrow> byte \<Rightarrow> byte list option" where
  "put8 b i v = (if i < length b then Some (b[i := v]) else None)"

definition get_block :: "byte list \<Rightarrow> nat \<Rightarrow> nat \<Rightarrow> byte list option" where
  "get_block b i n = (if i + n \<le> length b then Some (take n (drop i b)) else None)"

definition put_block :: "byte list \<Rightarrow> nat \<Rightarrow> byte list \<Rightarrow> byte list option" where
  "put_block b i xs = (if i + length xs \<le> length b then Some (take i b @ xs @ drop (i + length xs) b) else None)"

text \<open>The C string at an offset, up to its terminator, which has to be in the buffer.\<close>

definition cstr_at :: "byte list \<Rightarrow> nat \<Rightarrow> byte list option" where
  "cstr_at b i = (if 0 \<in> set (drop i b) then Some (takeWhile (\<lambda>c. c \<noteq> 0) (drop i b)) else None)"

section \<open>16-bit fields\<close>

definition store16 :: "u16 \<Rightarrow> byte list" where
  "store16 v = [ucast v, ucast (drop_bit 8 v)]"

definition load16 :: "byte list \<Rightarrow> u16" where
  "load16 b = (case b of l # h # _ \<Rightarrow> push_bit 8 (ucast h) OR ucast l | _ \<Rightarrow> 0)"

definition ntohs :: "u16 \<Rightarrow> u16" where
  "ntohs v = push_bit 8 v OR drop_bit 8 v"

abbreviation htons :: "u16 \<Rightarrow> u16" where
  "htons \<equiv> ntohs"

lemma load16_store16 [bytes_simps, simp]: "load16 (store16 v @ xs) = v"
  unfolding load16_def store16_def
  by (rule bit_word_eqI) (auto simp: bit_simps)

lemma load16_store16_nil [bytes_simps, simp]: "load16 (store16 v) = v"
  using load16_store16 [of v "[]"] by simp

lemma length_store16 [simp]: "length (store16 v) = 2"
  by (simp add: store16_def)

lemma ntohs_ntohs [bytes_simps, simp]: "ntohs (ntohs v) = v"
  unfolding ntohs_def by (rule bit_word_eqI) (auto simp: bit_simps)

lemma store16_load16: "length b = 2 \<Longrightarrow> store16 (load16 b) = b"
proof -
  assume "length b = 2"
  then obtain l h where "b = [l, h]" by (auto simp: length_Suc_conv numeral_2_eq_2)
  moreover have "ucast (push_bit 8 (ucast h :: u16) OR ucast l) = l"
    by (rule bit_word_eqI) (auto simp: bit_simps)
  moreover have "ucast (drop_bit 8 (push_bit 8 (ucast h :: u16) OR ucast l)) = h"
    by (rule bit_word_eqI) (auto simp: bit_simps dest: bit_imp_le_length)
  ultimately show ?thesis by (simp add: store16_def load16_def)
qed

section \<open>Blocks\<close>

lemma put_block_length: "put_block b i xs = Some b' \<Longrightarrow> length b' = length b"
  by (auto simp: put_block_def split: if_splits)

lemma get_put_block [bytes_simps]:
  "i + length xs \<le> length b \<Longrightarrow> get_block (take i b @ xs @ drop (i + length xs) b) i (length xs) = Some xs"
  by (simp add: get_block_def)

lemma cstr_at_terminated [bytes_simps]:
  "0 \<notin> set s \<Longrightarrow> length pre = i \<Longrightarrow> cstr_at (pre @ s @ 0 # post) i = Some s"
  by (auto simp: cstr_at_def) (subst takeWhile_append2, auto)

text \<open>Filling a buffer from the front: what has been written so far is its prefix.\<close>

lemma put8_front: "0 < length b \<Longrightarrow> \<exists>b'. put8 b 0 v = Some b' \<and> take 1 b' = [v] \<and> length b' = length b"
  by (cases b) (auto simp: put8_def)

lemma put_block_front:
  assumes "take (length pre) b = pre" "length pre + length xs \<le> length b"
  shows "\<exists>b'. put_block b (length pre) xs = Some b' \<and> take (length pre + length xs) b' = pre @ xs \<and> length b' = length b"
  using assms by (auto simp: put_block_def)

lemma get_block_front:
  "take (length pre + length xs) b = pre @ xs \<Longrightarrow> get_block b (length pre) (length xs) = Some xs"
  by (smt (verit, best) add.commute append_eq_conv_conj drop_take get_block_def length_append length_take min.cobounded1
      add_diff_cancel_left')

end
