(* ===== verification/DNS_Wire.thy ===== *)
theory DNS_Wire
  imports MappedDNS_Runs Bytes
begin

text \<open>
  \<open>hev_mapped_dns_handle\<close>: the DNS messages the cache answers. The request and the response
  are byte buffers; \<open>qlen\<close> and \<open>slen\<close> are the lengths the caller passes, and an access
  outside the buffer itself is a fault. Shown here: the handler stays inside its buffers when
  the request buffer has at least one byte more than the message, the cache stays well formed,
  the length it returns fits the response buffer, and a well-formed query for an address record
  is answered with the address of its name.
\<close>

section \<open>Buffers and byte order\<close>

definition read_u16 :: "byte list \<Rightarrow> nat \<Rightarrow> u16 option" where
  "read_u16 b i = do {
     h \<leftarrow> get8 b i;
     l \<leftarrow> get8 b (i + 1);
     Some (push_bit 8 (ucast h) OR ucast l) }"

definition write_u16 :: "byte list \<Rightarrow> nat \<Rightarrow> u16 \<Rightarrow> byte list option" where
  "write_u16 b i v = do {
     b \<leftarrow> put8 b i (ucast (drop_bit 8 v));
     put8 b (i + 1) (ucast v) }"

definition write_u32 :: "byte list \<Rightarrow> nat \<Rightarrow> u32 \<Rightarrow> byte list option" where
  "write_u32 b i v = do {
     b \<leftarrow> put8 b i (ucast (drop_bit 24 v));
     b \<leftarrow> put8 b (i + 1) (ucast (drop_bit 16 v));
     b \<leftarrow> put8 b (i + 2) (ucast (drop_bit 8 v));
     put8 b (i + 3) (ucast v) }"

text \<open>\<open>x = ntohs (x)\<close> on a 16-bit field in memory of a little-endian host: the bytes change places.\<close>

definition swap16 :: "byte list \<Rightarrow> nat \<Rightarrow> byte list option" where
  "swap16 b i = do {
     h \<leftarrow> get8 b i;
     l \<leftarrow> get8 b (i + 1);
     b \<leftarrow> put8 b i l;
     put8 b (i + 1) h }"

section \<open>The handler\<close>

text \<open>
  Results of a part of the handler: \<open>None\<close> is an access outside a buffer, \<open>Some (Inl r)\<close> an
  early \<open>return r\<close>, \<open>Some (Inr x)\<close> the values at its end.
\<close>

text \<open>The loop over the labels of a name; each length byte that is passed becomes a dot.\<close>

function dns_labels :: "nat \<Rightarrow> byte list \<Rightarrow> nat \<Rightarrow> (int + (byte list \<times> nat)) option" where
  "dns_labels qlen rb off = (case get8 rb off of
      None \<Rightarrow> None
    | Some n \<Rightarrow>
        if n = 0 then Some (Inr (rb, off))
        else let off' = off + 1 + unat n in
          if off' \<ge> qlen then Some (Inl (-1))
          else dns_labels qlen (rb[off := 46]) off')"
  by pat_completeness auto
termination by (relation "measure (\<lambda>(qlen, rb, off). qlen - off)") auto

declare dns_labels.simps [simp del]

type_synonym dns_answers = "(nat \<times> u32) list"

definition dns_question ::
  "(ptr set \<Rightarrow> dns_mem) \<Rightarrow> nat \<Rightarrow> hev_mapped_dns \<Rightarrow> byte list \<Rightarrow> nat \<Rightarrow> dns_answers
   \<Rightarrow> (hev_mapped_dns \<times> (int + (byte list \<times> nat \<times> dns_answers))) option" where
  "dns_question alloc qlen self rb off ips = do {
     let ipo = off;
     r \<leftarrow> dns_labels qlen rb off;
     case r of Inl e \<Rightarrow> Some (self, Inl e)
     | Inr (rb, off) \<Rightarrow> do {
         let off = off + 1;
         if off + 3 \<ge> qlen then Some (self, Inl (-1))
         else do {
           ty \<leftarrow> read_u16 rb off;
           cl \<leftarrow> read_u16 rb (off + 2);
           (self, ips) \<leftarrow>
             (if ty = 1 \<and> cl = 1 then do {
                name \<leftarrow> cstr_at rb (ipo + 1);
                (self, idx) \<leftarrow> hev_mapped_dns_find self (alloc (dom (dns_nodes self))) name;
                if idx \<ge> 0 then
                  if length ips < 32
                  then Some (self, ips @ [(ipo, dns_net self OR word_of_int idx)]) else None
                else Some (self, ips) }
              else Some (self, ips));
           Some (self, Inr (rb, off + 4, ips)) } } }"

primrec dns_questions ::
  "nat \<Rightarrow> (ptr set \<Rightarrow> dns_mem) \<Rightarrow> nat \<Rightarrow> hev_mapped_dns \<Rightarrow> byte list \<Rightarrow> nat \<Rightarrow> dns_answers
   \<Rightarrow> (hev_mapped_dns \<times> (int + (byte list \<times> nat \<times> dns_answers))) option" where
  "dns_questions 0 alloc qlen self rb off ips = Some (self, Inr (rb, off, ips))"
| "dns_questions (Suc n) alloc qlen self rb off ips = do {
     (self, r) \<leftarrow> dns_question alloc qlen self rb off ips;
     case r of Inl e \<Rightarrow> Some (self, Inl e)
     | Inr (rb, off, ips) \<Rightarrow> dns_questions n alloc qlen self rb off ips }"

definition dns_answer :: "byte list \<Rightarrow> nat \<Rightarrow> nat \<Rightarrow> u32 \<Rightarrow> byte list option" where
  "dns_answer sb off ipo ip = do {
     sb \<leftarrow> put8 sb off 0xc0;
     sb \<leftarrow> put8 sb (off + 1) (of_nat ipo);
     sb \<leftarrow> write_u16 sb (off + 2) 1;
     sb \<leftarrow> write_u16 sb (off + 4) 1;
     sb \<leftarrow> write_u32 sb (off + 6) 1;
     sb \<leftarrow> write_u16 sb (off + 10) 4;
     write_u32 sb (off + 12) ip }"

fun dns_answers :: "nat \<Rightarrow> byte list \<Rightarrow> nat \<Rightarrow> dns_answers \<Rightarrow> (byte list \<times> (int + nat)) option" where
  "dns_answers slen sb off [] = Some (sb, Inr off)"
| "dns_answers slen sb off ((ipo, ip) # ips) =
     (if off + 15 \<ge> slen then Some (sb, Inl (-1))
      else do {
        sb \<leftarrow> dns_answer sb off ipo ip;
        dns_answers slen sb (off + 16) ips })"

definition hev_mapped_dns_handle ::
  "(ptr set \<Rightarrow> dns_mem) \<Rightarrow> hev_mapped_dns \<Rightarrow> byte list \<Rightarrow> nat \<Rightarrow> byte list \<Rightarrow> nat
   \<Rightarrow> (hev_mapped_dns \<times> byte list \<times> int) option" where
  "hev_mapped_dns_handle alloc self req qlen res slen = do {
     if slen < qlen then Some (self, res, -1)
     else if qlen > length req \<or> qlen > length res then None
     else do {
       let sb = take qlen req @ drop qlen res;
       qd \<leftarrow> read_u16 req 4;
       rb \<leftarrow> swap16 req 4;
       fl \<leftarrow> read_u16 sb 2;
       sb \<leftarrow> swap16 sb 2;
       sb \<leftarrow> write_u16 sb 8 0;
       sb \<leftarrow> write_u16 sb 6 0;
       sb \<leftarrow> write_u16 sb 10 0;
       if qd > 32 then Some (self, sb, -1)
       else do {
         (self, r) \<leftarrow> dns_questions (unat qd) alloc qlen self rb 12 [];
         case r of Inl e \<Rightarrow> Some (self, sb, e)
         | Inr (rb, off, ips) \<Rightarrow> do {
             (sb, r) \<leftarrow> dns_answers slen sb off ips;
             case r of Inl e \<Rightarrow> Some (self, sb, e)
             | Inr off \<Rightarrow> do {
                 sb \<leftarrow> write_u16 sb 2 (fl OR 0x8000 OR drop_bit 1 (fl AND 0x100));
                 sb \<leftarrow> write_u16 sb 6 (of_nat (length ips));
                 Some (self, sb, int off) } } } } }"

section \<open>Every access is inside the buffers\<close>

lemma get8_in [simp]: "i < length b \<Longrightarrow> get8 b i = Some (b ! i)"
  by (simp add: get8_def)

lemma put8_in [simp]: "i < length b \<Longrightarrow> put8 b i v = Some (b[i := v])"
  by (simp add: put8_def)

lemma read_u16_in: "i + 1 < length b \<Longrightarrow> read_u16 b i = Some (push_bit 8 (ucast (b ! i)) OR ucast (b ! (i + 1)))"
  by (simp add: read_u16_def)

lemma write_u16_in: "i + 1 < length b \<Longrightarrow> write_u16 b i v = Some (b[i := ucast (drop_bit 8 v), i + 1 := ucast v])"
  by (simp add: write_u16_def)

lemma write_u32_in:
  "i + 3 < length b \<Longrightarrow> write_u32 b i v = Some (b[i := ucast (drop_bit 24 v), i + 1 := ucast (drop_bit 16 v),
     i + 2 := ucast (drop_bit 8 v), i + 3 := ucast v])"
  by (simp add: write_u32_def)

lemma swap16_in: "i + 1 < length b \<Longrightarrow> swap16 b i = Some (b[i := b ! (i + 1), i + 1 := b ! i])"
  by (simp add: swap16_def)

text \<open>The label loop stays inside the request and keeps its length.\<close>

lemma dns_labels_safe:
  assumes "qlen \<le> length rb" "off < length rb"
  shows "dns_labels qlen rb off = Some (Inl (-1))
    \<or> (\<exists>rb' off'. dns_labels qlen rb off = Some (Inr (rb', off')) \<and> length rb' = length rb
        \<and> off \<le> off' \<and> off' < length rb \<and> rb' ! off' = 0)"
  using assms
proof (induction qlen rb off rule: dns_labels.induct)
  case (1 qlen rb off)
  let ?off = "off + 1 + unat (rb ! off)"
  show ?case
  proof (cases "rb ! off = 0 \<or> ?off \<ge> qlen")
    case True
    with 1 show ?thesis by (subst (1 2) dns_labels.simps) auto
  next
    case False
    then have "dns_labels qlen rb off = dns_labels qlen (rb[off := 46]) ?off"
      using 1 by (subst dns_labels.simps) (auto simp: Let_def)
    then show ?thesis
      using 1(1) [of "rb ! off" ?off] 1(2,3) False by fastforce
  qed
qed

lemma u16_be_one: "push_bit 8 (ucast (h :: byte)) OR ucast (l :: byte) = (1 :: u16) \<Longrightarrow> h = 0"
proof -
  assume eq: "push_bit 8 (ucast h) OR ucast l = (1 :: u16)"
  have "\<not> bit h n" for n
  proof
    assume n: "bit h n"
    then have "n < 8" using bit_imp_le_length by fastforce
    with n have "bit (push_bit 8 (ucast h) OR ucast l :: u16) (n + 8)"
      by (simp add: bit_or_iff bit_push_bit_iff bit_ucast_iff)
    then show False unfolding eq by (simp add: bit_1_iff)
  qed
  then show "h = 0" by (simp add: bit_eq_iff)
qed

lemma cstr_at_in: "i \<le> j \<Longrightarrow> j < length b \<Longrightarrow> b ! j = 0 \<Longrightarrow> \<exists>name. cstr_at b i = Some name"
proof -
  assume "i \<le> j" "j < length b" "b ! j = 0"
  then have "drop i b ! (j - i) = 0" "j - i < length (drop i b)" by auto
  then have "0 \<in> set (drop i b)" by (metis nth_mem)
  then show ?thesis by (simp add: cstr_at_def)
qed

definition dns_ready :: "(ptr set \<Rightarrow> dns_mem) \<Rightarrow> int \<times> u32 \<times> u32 \<Rightarrow> hev_mapped_dns \<Rightarrow> bool" where
  "dns_ready alloc cfg self \<longleftrightarrow> (\<exists>xs. dns_inv self xs) \<and> dns_config self = cfg \<and> 0 < dns_max self
     \<and> alloc_ok (nat (dns_max self)) alloc"

lemma dns_find_ready:
  assumes "dns_ready alloc cfg self"
  obtains self' i where "hev_mapped_dns_find self (alloc (dom (dns_nodes self))) nm = Some (self', i)"
    "dns_ready alloc cfg self'" "0 \<le> i"
proof -
  obtain xs where inv: "dns_inv self xs" and c: "dns_config self = cfg" "0 < dns_max self" "alloc_ok (nat (dns_max self)) alloc"
    using assms by (auto simp: dns_ready_def)
  have "dns_mem_ok (alloc (dom (dns_nodes self))) xs"
    using c(3) inv card_length [of xs] by (auto simp: alloc_ok_def dns_mem_ok_def dns_inv_def dns_linked_def dns_indexed_def)
  then obtain s' xs' where s': "hev_mapped_dns_find self (alloc (dom (dns_nodes self))) nm
      = Some (s', snd (lru_find (nat (dns_max self)) nm (dns_lru self xs)))"
    "dns_inv s' xs'" "dns_lru s' xs' = fst (lru_find (nat (dns_max self)) nm (dns_lru self xs))"
    "dns_config s' = dns_config self"
    using hev_mapped_dns_find_refines [OF inv c(2)] by metis
  have "(nm, snd (lru_find (nat (dns_max self)) nm (dns_lru self xs))) \<in> set (dns_lru s' xs')"
    using lru_find_last [OF lru_ok_dns_lru [OF inv], of nm] c(2) s'(3) by (auto simp: kept_def)
  then have "0 \<le> snd (lru_find (nat (dns_max self)) nm (dns_lru self xs))"
    using dns_index_range [OF s'(2)] by (auto simp: dns_lru_def)
  moreover have "dns_ready alloc cfg s'"
    using s' c dns_config_eq [OF s'(4)] by (auto simp: dns_ready_def)
  ultimately show thesis using s'(1) that by blast
qed

lemma dns_question_safe:
  assumes rdy: "dns_ready alloc cfg self" and q: "qlen < length rb" "off < length rb" "length ips < 32"
  shows "\<exists>self' r. dns_question alloc qlen self rb off ips = Some (self', r) \<and> dns_ready alloc cfg self'
    \<and> (case r of Inl e \<Rightarrow> e = -1
       | Inr (rb', off', ips') \<Rightarrow> length rb' = length rb \<and> off' \<le> qlen \<and> off + 5 \<le> off' \<and> length ips' \<le> Suc (length ips))"
proof -
  consider (err) "dns_labels qlen rb off = Some (Inl (-1))"
    | (ok) rb' o' where "dns_labels qlen rb off = Some (Inr (rb', o'))" "length rb' = length rb" "off \<le> o'"
      "o' < length rb" "rb' ! o' = 0"
    using dns_labels_safe [of qlen rb off] q by auto
  then show ?thesis
  proof cases
    case err
    with rdy show ?thesis by (auto simp: dns_question_def)
  next
    case ok
    show ?thesis
    proof (cases "o' + 1 + 3 \<ge> qlen")
      case True
      with ok rdy show ?thesis by (auto simp: dns_question_def)
    next
      case False
      define ty where "ty \<longleftrightarrow> push_bit 8 (ucast (rb' ! Suc o')) OR ucast (rb' ! Suc (Suc o')) = (1 :: u16)"
      define cl where "cl \<longleftrightarrow> push_bit 8 (ucast (rb' ! Suc (Suc (Suc o')))) OR ucast (rb' ! Suc (Suc (Suc (Suc o')))) = (1 :: u16)"
      show ?thesis
      proof (cases "ty \<and> cl")
        case True
        have "\<exists>j\<ge>off + 1. j < length rb' \<and> rb' ! j = 0"
        proof (cases "o' = off")
          case True
          then show ?thesis
            using \<open>ty \<and> cl\<close> u16_be_one ok(2) q(1) False by (auto simp: ty_def intro!: exI [of _ "off + 1"])
        next
          case False
          then show ?thesis using ok by (auto intro!: exI [of _ o'])
        qed
        then obtain nm where nm: "cstr_at rb' (off + 1) = Some nm" using cstr_at_in by blast
        obtain s' i where s': "hev_mapped_dns_find self (alloc (dom (dns_nodes self))) nm = Some (s', i)"
          "dns_ready alloc cfg s'" "0 \<le> i"
          using dns_find_ready [OF rdy] by blast
        then show ?thesis
          using ok nm True q False rdy
          by (auto simp: dns_question_def read_u16_in Let_def ty_def [symmetric] cl_def [symmetric])
      next
        case nf: False
        then show ?thesis
          using ok rdy q False
          by (auto simp: dns_question_def read_u16_in Let_def ty_def [symmetric] cl_def [symmetric])
      qed
    qed
  qed
qed

definition questions_ok :: "nat \<Rightarrow> nat \<Rightarrow> (int + (byte list \<times> nat \<times> dns_answers)) \<Rightarrow> bool" where
  "questions_ok qlen off r \<longleftrightarrow> (case r of Inl e \<Rightarrow> e = -1
     | Inr (rb, off', ips) \<Rightarrow> 12 \<le> off' \<and> (off' \<le> qlen \<or> off' = off \<and> ips = []) \<and> length ips \<le> 32)"

lemma dns_questions_safe:
  assumes "dns_ready alloc cfg self" "qlen < length rb" "off < length rb" "length ips + n \<le> 32" "12 \<le> off"
    and "off \<le> qlen \<or> ips = []"
  shows "returns (dns_questions n alloc qlen self rb off ips) (\<lambda>(self', r). dns_ready alloc cfg self' \<and> questions_ok qlen off r)"
  using assms
proof (induction n arbitrary: self rb off ips)
  case 0
  then show ?case by (auto simp: questions_ok_def)
next
  case (Suc n)
  obtain s1 r where s1: "dns_question alloc qlen self rb off ips = Some (s1, r)" "dns_ready alloc cfg s1"
    "case r of Inl e \<Rightarrow> e = -1
       | Inr (rb', off', ips') \<Rightarrow> length rb' = length rb \<and> off' \<le> qlen \<and> off + 5 \<le> off' \<and> length ips' \<le> Suc (length ips)"
    using dns_question_safe [OF Suc.prems(1-3), of ips] Suc.prems(4) by auto
  show ?case
  proof (cases r)
    case (Inl e)
    with s1 show ?thesis by (simp add: questions_ok_def)
  next
    case (Inr y)
    then obtain rb' off' ips' where y: "y = (rb', off', ips')" by (cases y) auto
    have pre: "qlen < length rb'" "off' < length rb'" "length ips' + n \<le> 32" "12 \<le> off'" "off' \<le> qlen"
      using s1(3) Inr y Suc.prems by auto
    have "questions_ok qlen off' r' \<Longrightarrow> questions_ok qlen off r'" for r'
      using pre(5) by (auto simp: questions_ok_def split: sum.splits)
    then show ?thesis
      using Suc.IH [OF s1(2) pre(1-4)] pre(5) s1(1) Inr y by (auto elim!: returns_mono)
  qed
qed

lemma dns_answer_in:
  "off + 15 < length sb \<Longrightarrow> \<exists>sb'. dns_answer sb off ipo ip = Some sb' \<and> length sb' = length sb"
  by (simp add: dns_answer_def write_u16_in write_u32_in)

lemma dns_answers_safe:
  assumes "slen \<le> length sb"
  shows "returns (dns_answers slen sb off ips) (\<lambda>(sb', r). length sb' = length sb
    \<and> (r = Inl (-1) \<or> r = Inr (off + 16 * length ips) \<and> (ips = [] \<or> off + 16 * length ips \<le> slen)))"
  using assms
proof (induction slen sb off ips rule: dns_answers.induct)
  case (2 slen sb off ipo ip ips)
  show ?case
  proof (cases "off + 15 \<ge> slen")
    case False
    then have "off + 15 < length sb" using 2(2) by simp
    then obtain sb' where sb': "dns_answer sb off ipo ip = Some sb'" "length sb' = length sb"
      using dns_answer_in by blast
    show ?thesis
      using 2(1) [OF False, of sb'] sb' False 2(2) by (auto elim!: returns_mono)
  qed simp
qed simp

text \<open>What is left of the handler once the header has been read and cleared.\<close>

definition dns_respond ::
  "(ptr set \<Rightarrow> dns_mem) \<Rightarrow> hev_mapped_dns \<Rightarrow> nat \<Rightarrow> nat \<Rightarrow> u16 \<Rightarrow> u16 \<Rightarrow> byte list \<Rightarrow> byte list
   \<Rightarrow> (hev_mapped_dns \<times> byte list \<times> int) option" where
  "dns_respond alloc self qlen slen qd fl rb sb =
    (if qd > 32 then Some (self, sb, -1)
     else do {
       (self, r) \<leftarrow> dns_questions (unat qd) alloc qlen self rb 12 [];
       case r of Inl e \<Rightarrow> Some (self, sb, e)
       | Inr (rb, off, ips) \<Rightarrow> do {
           (sb, r) \<leftarrow> dns_answers slen sb off ips;
           case r of Inl e \<Rightarrow> Some (self, sb, e)
           | Inr off \<Rightarrow> do {
               sb \<leftarrow> write_u16 sb 2 (fl OR 0x8000 OR drop_bit 1 (fl AND 0x100));
               sb \<leftarrow> write_u16 sb 6 (of_nat (length ips));
               Some (self, sb, int off) } } })"

lemma dns_handle_respond:
  assumes "qlen \<le> slen" "qlen < length req" "12 < length req" "length res = slen" "12 \<le> slen"
  shows "\<exists>qd fl rb sb. hev_mapped_dns_handle alloc self req qlen res slen = dns_respond alloc self qlen slen qd fl rb sb
    \<and> length rb = length req \<and> length sb = slen"
proof -
  define sb0 where "sb0 = take qlen req @ drop qlen res"
  have len: "length sb0 = slen" using assms by (simp add: sb0_def)
  define qd where "qd = (push_bit 8 (ucast (req ! 4)) OR ucast (req ! 5) :: u16)"
  define rb where "rb = req[4 := req ! 5, 5 := req ! 4]"
  define fl where "fl = (push_bit 8 (ucast (sb0 ! 2)) OR ucast (sb0 ! 3) :: u16)"
  define sb where "sb = sb0[2 := sb0 ! 3, 3 := sb0 ! 2, 8 := 0, 9 := 0, 6 := 0, 7 := 0, 10 := 0, 11 := 0]"
  have rd: "read_u16 req 4 = Some qd" "swap16 req 4 = Some rb" "read_u16 sb0 2 = Some fl"
    using assms len by (simp_all add: read_u16_in swap16_in qd_def rb_def fl_def)
  have wr: "swap16 sb0 2 \<bind> (\<lambda>sb. write_u16 sb 8 0 \<bind> (\<lambda>sb. write_u16 sb 6 0 \<bind> (\<lambda>sb. write_u16 sb 10 0 \<bind> f))) = f sb"
    for f :: "byte list \<Rightarrow> 'b option"
    using len assms by (simp add: swap16_in write_u16_in sb_def)
  have "hev_mapped_dns_handle alloc self req qlen res slen = dns_respond alloc self qlen slen qd fl rb sb"
    using assms unfolding hev_mapped_dns_handle_def dns_respond_def
    by (simp add: sb0_def [symmetric] rd wr)
  moreover have "length rb = length req" "length sb = slen" by (simp_all add: rb_def sb_def len)
  ultimately show ?thesis by blast
qed

lemma dns_respond_safe:
  assumes rdy: "dns_ready alloc cfg self" and q: "qlen < length rb" "12 < length rb" "qlen \<le> slen"
    and s: "length sb = slen" "12 \<le> slen"
  shows "returns (dns_respond alloc self qlen slen qd fl rb sb) (\<lambda>(self', sb, r).
      dns_ready alloc cfg self' \<and> length sb = slen \<and> (r = -1 \<or> 12 \<le> r \<and> r \<le> int slen))"
proof (cases "qd > 32")
  case True
  then show ?thesis using rdy s by (simp add: dns_respond_def)
next
  case small: False
  then have n: "unat qd \<le> 32" by (simp add: word_less_nat_alt)
  obtain s1 r where s1: "dns_questions (unat qd) alloc qlen self rb 12 [] = Some (s1, r)"
    "dns_ready alloc cfg s1" "questions_ok qlen 12 r"
    using dns_questions_safe [OF rdy, of qlen rb 12 "[]" "unat qd"] q n by (auto simp: returns_def)
  show ?thesis
  proof (cases r)
    case (Inl e)
    then show ?thesis using s1 small s by (simp add: dns_respond_def questions_ok_def)
  next
    case (Inr y)
    obtain rb1 off ips where y: "y = (rb1, off, ips)" by (cases y) auto
    have off: "12 \<le> off" "off \<le> qlen \<or> off = 12" using s1(3) Inr y by (auto simp: questions_ok_def)
    obtain sb2 r2 where sb2: "dns_answers slen sb off ips = Some (sb2, r2)" "length sb2 = slen"
      "r2 = Inl (-1) \<or> r2 = Inr (off + 16 * length ips) \<and> (ips = [] \<or> off + 16 * length ips \<le> slen)"
      using dns_answers_safe [of slen sb off ips] s by (auto simp: returns_def)
    then show ?thesis
      using small s1 Inr y off q(3) s(2) by (auto simp: dns_respond_def write_u16_in)
  qed
qed

lemma dns_handle_safe:
  assumes rdy: "dns_ready alloc cfg self" and q: "qlen < length req" "12 < length req"
    and s: "length res = slen" "12 \<le> slen"
  shows "returns (hev_mapped_dns_handle alloc self req qlen res slen) (\<lambda>(self', sb, r).
      dns_ready alloc cfg self' \<and> length sb = slen \<and> (r = -1 \<or> 12 \<le> r \<and> r \<le> int slen))"
proof (cases "slen < qlen")
  case True
  then show ?thesis using rdy s by (simp add: hev_mapped_dns_handle_def)
next
  case False
  obtain qd fl rb sb where "hev_mapped_dns_handle alloc self req qlen res slen = dns_respond alloc self qlen slen qd fl rb sb"
    "length rb = length req" "length sb = slen"
    using dns_handle_respond [of qlen slen req res alloc self] False q s by auto
  then show ?thesis
    using dns_respond_safe [OF rdy, of qlen rb slen sb qd fl] q s False by simp
qed

section \<open>Answering a query\<close>

definition enc_name :: "byte list list \<Rightarrow> byte list" where
  "enc_name ls = concat (map (\<lambda>l. of_nat (length l) # l) ls) @ [0]"

fun dotted :: "byte list list \<Rightarrow> byte list" where
  "dotted [] = []"
| "dotted [l] = l"
| "dotted (l # ls) = l @ 46 # dotted ls"

definition labels_ok :: "byte list list \<Rightarrow> bool" where
  "labels_ok ls \<longleftrightarrow> ls \<noteq> [] \<and> (\<forall>l\<in>set ls. l \<noteq> [] \<and> length l \<le> 63 \<and> 0 \<notin> set l)"

abbreviation dots :: "byte list list \<Rightarrow> byte list" where
  "dots ls \<equiv> concat (map (\<lambda>l. 46 # l) ls)"

lemma dots_dotted: "ls \<noteq> [] \<Longrightarrow> dots ls = 46 # dotted ls"
  by (induction ls rule: dotted.induct) auto

lemma length_dots: "length (dots ls) = length (concat (map (\<lambda>l. of_nat (length l) # l :: byte list) ls))"
  by (induction ls) auto

lemma dns_labels_parse:
  assumes "\<forall>l\<in>set ls. l \<noteq> [] \<and> length l \<le> 63"
    and "length pre + length (dots ls) < qlen"
  shows "dns_labels qlen (pre @ concat (map (\<lambda>l. of_nat (length l) # l) ls) @ 0 # post) (length pre)
    = Some (Inr (pre @ dots ls @ 0 # post, length pre + length (dots ls)))"
  using assms
proof (induction ls arbitrary: pre)
  case Nil
  then show ?case by (subst dns_labels.simps) (simp add: nth_append)
next
  case (Cons l ls)
  let ?rest = "concat (map (\<lambda>l. of_nat (length l) # l) ls) @ 0 # post"
  let ?b = "pre @ (of_nat (length l) # l) @ ?rest"
  have n: "unat (of_nat (length l) :: byte) = length l" "(of_nat (length l) :: byte) \<noteq> 0"
    using Cons.prems(1) by (simp_all add: unat_of_nat of_nat_eq_0_iff take_bit_nat_eq_self word_of_nat_eq_0_iff nat_dvd_not_less)
  have get: "get8 ?b (length pre) = Some (of_nat (length l))" by (simp add: nth_append)
  have "dns_labels qlen ?b (length pre)
      = dns_labels qlen ((pre @ 46 # l) @ ?rest) (length (pre @ 46 # l))"
    using Cons.prems(2) n get by (subst dns_labels.simps) (simp add: list_update_append)
  also have "\<dots> = Some (Inr ((pre @ 46 # l) @ dots ls @ 0 # post, length (pre @ 46 # l) + length (dots ls)))"
    using Cons.prems by (intro Cons.IH) auto
  finally show ?case by simp
qed

lemma dotted_nonzero: "\<forall>l\<in>set ls. 0 \<notin> set l \<Longrightarrow> 0 \<notin> set (dotted ls)"
  by (induction ls rule: dotted.induct) auto

lemma cstr_at_dotted:
  assumes "labels_ok ls"
  shows "cstr_at (pre @ dots ls @ 0 # post) (length pre + 1) = Some (dotted ls)"
proof -
  have d: "dots ls = 46 # dotted ls" using assms by (simp add: labels_ok_def dots_dotted)
  have "drop (length pre + 1) (pre @ dots ls @ 0 # post) = dotted ls @ 0 # post"
    unfolding d by simp
  moreover have "0 \<notin> set (dotted ls)"
    using assms dotted_nonzero by (auto simp: labels_ok_def)
  ultimately show ?thesis
    by (simp add: cstr_at_def takeWhile_append takeWhile_eq_all_conv)
qed

text \<open>Writes behind a prefix of the buffer do not depend on it.\<close>

lemma map_option_bind: "map_option f m \<bind> g = m \<bind> (\<lambda>x. g (f x))"
  by (cases m) auto

lemma bind_map_option: "m \<bind> (\<lambda>x. map_option f (g x)) = map_option f (m \<bind> g)"
  by (cases m) auto

lemma put8_append: "put8 (P @ R) (length P + k) v = map_option ((@) P) (put8 R k v)"
  by (simp add: put8_def list_update_append)

lemma write_append:
  "write_u16 (P @ R) (length P + k) w = map_option ((@) P) (write_u16 R k w)"
  "write_u32 (P @ R) (length P + k) v = map_option ((@) P) (write_u32 R k v)"
  by (simp_all only: write_u16_def write_u32_def put8_append map_option_bind bind_map_option add.assoc)

lemma dns_answer_append:
  "dns_answer (P @ R) (length P) ipo ip = map_option ((@) P) (dns_answer R 0 ipo ip)"
  using put8_append [of P _ 0]
  by (simp only: dns_answer_def write_append put8_append map_option_bind bind_map_option add_0_left add_0_right)

lemma list_update_numeral: "(x # xs)[numeral k := v] = x # xs[pred_numeral k := v]"
  by (simp add: numeral_eq_Suc)

definition be32 :: "u32 \<Rightarrow> byte list" where
  "be32 v = [ucast (drop_bit 24 v), ucast (drop_bit 16 v), ucast (drop_bit 8 v), ucast v]"

lemma dns_answer_bytes:
  assumes "length R = 16"
  shows "dns_answer (P @ R @ S) (length P) ipo ip
    = Some (P @ [0xc0, of_nat ipo, 0, 1, 0, 1, 0, 0, 0, 1, 0, 4] @ be32 ip @ S)"
proof -
  obtain r0 r1 r2 r3 r4 r5 r6 r7 r8 r9 r10 r11 r12 r13 r14 r15 where
    R: "R = [r0, r1, r2, r3, r4, r5, r6, r7, r8, r9, r10, r11, r12, r13, r14, r15]"
    using assms by (auto simp: length_Suc_conv eval_nat_numeral)
  show ?thesis
    unfolding R dns_answer_append
    by (simp add: dns_answer_def write_u16_def write_u32_def put8_def be32_def list_update_numeral)
qed

lemma bit_flags:
  "bit (0x8000 :: u16) n \<longleftrightarrow> n = 15" "bit (0x100 :: u16) n \<longleftrightarrow> n = 8" "bit (0x80 :: byte) n \<longleftrightarrow> n = 7"
proof -
  have "(0x8000 :: u16) = 2 ^ 15" "(0x100 :: u16) = 2 ^ 8" "(0x80 :: byte) = 2 ^ 7" by simp_all
  then show "bit (0x8000 :: u16) n \<longleftrightarrow> n = 15" "bit (0x100 :: u16) n \<longleftrightarrow> n = 8" "bit (0x80 :: byte) n \<longleftrightarrow> n = 7"
    by (simp_all only: bit_exp_iff possible_bit_word) auto
qed

lemma bit_byte_small: "bit (b :: byte) n \<Longrightarrow> n < 8"
  using bit_imp_le_length by fastforce

lemmas bits_only = bit_ucast_iff bit_or_iff bit_and_iff bit_drop_bit_eq bit_push_bit_iff bit_flags bit_1_iff
  comp_apply possible_bit_word

lemma response_flags:
  fixes f1 f2 :: byte
  defines "fl \<equiv> push_bit 8 (ucast f1) OR ucast f2 :: u16"
  shows "ucast (drop_bit 8 (fl OR 0x8000 OR drop_bit 1 (fl AND 0x100))) = f1 OR 0x80"
    and "ucast (fl OR 0x8000 OR drop_bit 1 (fl AND 0x100)) = f2 OR push_bit 7 (f1 AND 1)"
  unfolding fl_def
  subgoal by (rule bit_word_eqI, simp only: bits_only, auto dest: bit_byte_small)
  subgoal by (rule bit_word_eqI, simp only: bits_only, auto dest: bit_byte_small)
  done


definition a_query :: "byte list \<Rightarrow> byte \<Rightarrow> byte \<Rightarrow> byte list \<Rightarrow> byte list list \<Rightarrow> byte list" where
  "a_query qid f1 f2 counts ls = qid @ [f1, f2, 0, 1] @ counts @ enc_name ls @ [0, 1, 0, 1]"

definition a_response :: "byte list \<Rightarrow> byte \<Rightarrow> byte \<Rightarrow> byte list list \<Rightarrow> u32 \<Rightarrow> byte list" where
  "a_response qid f1 f2 ls ip = qid @ [f1 OR 0x80, f2 OR push_bit 7 (f1 AND 1), 0, 1]
     @ [0, 1, 0, 0, 0, 0] @ enc_name ls @ [0, 1, 0, 1]
     @ [0xc0, 12, 0, 1, 0, 1, 0, 0, 0, 1, 0, 4] @ be32 ip"

lemma u16_be_numeral: "push_bit 8 (ucast (0 :: byte)) OR ucast (1 :: byte) = (1 :: u16)"
  by simp

lemma read_u16_append: "read_u16 (P @ a # b # S) (length P) = Some (push_bit 8 (ucast a) OR ucast b)"
  by (simp add: read_u16_in nth_append)

lemma dns_question_query:
  assumes "labels_ok ls" "length pre = 12" "qlen = 12 + length (enc_name ls) + 4"
    and find: "hev_mapped_dns_find self (alloc (dom (dns_nodes self))) (dotted ls) = Some (self', idx)" "0 \<le> idx"
  shows "dns_question alloc qlen self (pre @ enc_name ls @ [0, 1, 0, 1] @ rest) 12 []
    = Some (self', Inr (pre @ dots ls @ 0 # [0, 1, 0, 1] @ rest, qlen, [(12, dns_net self' OR word_of_int idx)]))"
proof -
  let ?rb = "pre @ dots ls @ 0 # [0, 1, 0, 1] @ rest"
  have len: "length (enc_name ls) = length (dots ls) + 1"
    by (simp add: enc_name_def length_dots)
  have lab: "dns_labels qlen (pre @ enc_name ls @ [0, 1, 0, 1] @ rest) 12 = Some (Inr (?rb, 12 + length (dots ls)))"
    using dns_labels_parse [of ls pre qlen "[0, 1, 0, 1] @ rest"] assms(1-3) len
    by (simp add: enc_name_def labels_ok_def)
  have "read_u16 ((pre @ dots ls @ [0]) @ 0 # 1 # 0 # 1 # rest) (length (pre @ dots ls @ [0])) = Some 1"
    "read_u16 ((pre @ dots ls @ [0, 0, 1]) @ 0 # 1 # rest) (length (pre @ dots ls @ [0, 0, 1])) = Some 1"
    by (simp_all only: read_u16_append u16_be_numeral)
  then have rd: "read_u16 ?rb (12 + length (dots ls) + 1) = Some 1" "read_u16 ?rb (12 + length (dots ls) + 1 + 2) = Some 1"
    using assms(2) by (simp_all add: add.commute)
  have "cstr_at ?rb (12 + 1) = Some (dotted ls)"
    using cstr_at_dotted [OF assms(1), of pre "[0, 1, 0, 1] @ rest"] assms(2) by simp
  then show ?thesis
    using lab rd find len assms(3) by (simp add: dns_question_def)
qed

text \<open>The header fields the handler reads and writes.\<close>

lemma header_access:
  "read_u16 ([b0, b1, b2, b3, b4, b5, b6, b7, b8, b9, b10, b11] @ X) 4 = Some (push_bit 8 (ucast b4) OR ucast b5)"
  "read_u16 ([b0, b1, b2, b3, b4, b5, b6, b7, b8, b9, b10, b11] @ X) 2 = Some (push_bit 8 (ucast b2) OR ucast b3)"
  "swap16 ([b0, b1, b2, b3, b4, b5, b6, b7, b8, b9, b10, b11] @ X) 4
     = Some ([b0, b1, b2, b3, b5, b4, b6, b7, b8, b9, b10, b11] @ X)"
  "swap16 ([b0, b1, b2, b3, b4, b5, b6, b7, b8, b9, b10, b11] @ X) 2
     = Some ([b0, b1, b3, b2, b4, b5, b6, b7, b8, b9, b10, b11] @ X)"
  "write_u16 ([b0, b1, b2, b3, b4, b5, b6, b7, b8, b9, b10, b11] @ X) 2 v
     = Some ([b0, b1, ucast (drop_bit 8 v), ucast v, b4, b5, b6, b7, b8, b9, b10, b11] @ X)"
  "write_u16 ([b0, b1, b2, b3, b4, b5, b6, b7, b8, b9, b10, b11] @ X) 6 v
     = Some ([b0, b1, b2, b3, b4, b5, ucast (drop_bit 8 v), ucast v, b8, b9, b10, b11] @ X)"
  "write_u16 ([b0, b1, b2, b3, b4, b5, b6, b7, b8, b9, b10, b11] @ X) 8 v
     = Some ([b0, b1, b2, b3, b4, b5, b6, b7, ucast (drop_bit 8 v), ucast v, b10, b11] @ X)"
  "write_u16 ([b0, b1, b2, b3, b4, b5, b6, b7, b8, b9, b10, b11] @ X) 10 v
     = Some ([b0, b1, b2, b3, b4, b5, b6, b7, b8, b9, ucast (drop_bit 8 v), ucast v] @ X)"
  by (simp_all add: read_u16_def swap16_def write_u16_def get8_def put8_def list_update_numeral)

theorem hev_mapped_dns_handle_a_query:
  assumes ls: "labels_ok ls" and hd: "length qid = 2" "length counts = 6"
    and q: "qlen = length (a_query qid f1 f2 counts ls)" and s: "length res = slen" "qlen + 16 \<le> slen"
    and find: "hev_mapped_dns_find self (alloc (dom (dns_nodes self))) (dotted ls) = Some (self', idx)" "0 \<le> idx"
  shows "\<exists>sb. hev_mapped_dns_handle alloc self (a_query qid f1 f2 counts ls @ rest) qlen res slen
      = Some (self', sb, int (qlen + 16))
    \<and> take (qlen + 16) sb = a_response qid f1 f2 ls (dns_net self' OR word_of_int idx)"
proof -
  obtain i1 i2 where qid: "qid = [i1, i2]" using hd(1) by (auto simp: length_Suc_conv eval_nat_numeral)
  obtain a1 a2 n1 n2 r1 r2 where cnt: "counts = [a1, a2, n1, n2, r1, r2]"
    using hd(2) by (auto simp: length_Suc_conv eval_nat_numeral)
  define Q where "Q = enc_name ls @ [0, 1, 0, 1]"
  define R where "R = take 16 (drop qlen res)"
  define S where "S = drop (qlen + 16) res"
  have qlen: "qlen = 12 + length (enc_name ls) + 4" "qlen = 12 + length Q" using q by (simp_all add: a_query_def qid cnt Q_def)
  have RS: "drop qlen res = R @ S" "length R = 16"
    using s append_take_drop_id [of 16 "drop qlen res"] by (simp_all add: R_def S_def add.commute)
  let ?ip = "dns_net self' OR word_of_int idx"
  let ?h = "[i1, i2, f2, f1, 0, 1, 0, 0, 0, 0, 0, 0]"
  have quest: "dns_questions (unat (1 :: u16)) alloc qlen self ([i1, i2, f1, f2, 1, 0, a1, a2, n1, n2, r1, r2] @ Q @ rest) 12 []
     = Some (self', Inr ([i1, i2, f1, f2, 1, 0, a1, a2, n1, n2, r1, r2] @ dots ls @ 0 # [0, 1, 0, 1] @ rest, qlen, [(12, ?ip)]))"
    using dns_question_query [where pre = "[i1, i2, f1, f2, 1, 0, a1, a2, n1, n2, r1, r2]" and alloc = alloc
        and rest = rest, OF ls _ qlen(1) find] by (simp add: Q_def)
  have ans: "dns_answers slen ((?h @ Q) @ R @ S) qlen [(12, ?ip)]
      = Some ((?h @ Q) @ [0xc0, 12, 0, 1, 0, 1, 0, 0, 0, 1, 0, 4] @ be32 ?ip @ S, Inr (qlen + 16))"
  proof -
    have "length (?h @ Q) = qlen" using qlen(2) by simp
    then have "dns_answer ((?h @ Q) @ R @ S) qlen 12 ?ip
        = Some ((?h @ Q) @ [0xc0, 12, 0, 1, 0, 1, 0, 0, 0, 1, 0, 4] @ be32 ?ip @ S)"
      using dns_answer_bytes [OF RS(2), of "?h @ Q" S 12 ?ip] by simp
    then show ?thesis using s(2) by simp
  qed
  have len: "length (a_response qid f1 f2 ls ?ip) = qlen + 16"
    using qlen(1) hd(1) by (simp add: a_response_def be32_def)
  have "hev_mapped_dns_handle alloc self (a_query qid f1 f2 counts ls @ rest) qlen res slen =
    Some (self', a_response qid f1 f2 ls ?ip @ S, int (qlen + 16))"
  proof -
    have req: "a_query qid f1 f2 counts ls @ rest = [i1, i2, f1, f2, 0, 1, a1, a2, n1, n2, r1, r2] @ Q @ rest"
      by (simp add: a_query_def qid cnt Q_def)
    have sb: "take qlen ([i1, i2, f1, f2, 0, 1, a1, a2, n1, n2, r1, r2] @ Q @ rest) @ drop qlen res
        = [i1, i2, f1, f2, 0, 1, a1, a2, n1, n2, r1, r2] @ Q @ R @ S"
    proof -
      have "qlen = length ([i1, i2, f1, f2, 0, 1, a1, a2, n1, n2, r1, r2] @ Q)" using qlen(2) by simp
      then show ?thesis unfolding RS(1) by (simp only: append_assoc [symmetric] append_eq_conv_conj) simp
    qed
    have bounds: "\<not> slen < qlen" "\<not> (qlen > length ([i1, i2, f1, f2, 0, 1, a1, a2, n1, n2, r1, r2] @ Q @ rest) \<or> qlen > length res)"
      using s qlen(2) by simp_all
    have one16: "push_bit 8 0 OR 1 = (1 :: u16)" "(32 < (1 :: u16)) = False" by simp_all
    show ?thesis
      unfolding hev_mapped_dns_handle_def req if_not_P [OF bounds(1)] if_not_P [OF bounds(2)] Let_def sb
        header_access bind.simps
      using quest ans [unfolded append_assoc]
      by (simp only: drop_bit_of_0 unsigned_0 unsigned_1 one16 if_False bind.simps prod.case sum.case
          append_assoc header_access response_flags list.size)
        (simp add: a_response_def qid Q_def)
  qed
  with len show ?thesis by simp
qed

text \<open>
  C7. The handler stays in its buffers: whatever bytes the message holds, if the buffer of the request extends at least one
  byte past the message and is longer than a header of 12 bytes, the buffer of the response has room for a header, the cache is well formed
  with a positive size and memory for a new node and its name is available, then no access leaves the buffers, the cache remains
  well formed for its configuration, and the result is -1 or a length that fits the response. The code checks none of the conditions on the
  request: it reads the header of a shorter message past its end, and the byte after a bare one (\<open>dns_handle_header_overread\<close>).
\<close>

theorem dns_handle_in_bounds:
  assumes "dns_ready alloc cfg self" "qlen < length req" "12 < length req" "length res = slen" "12 \<le> slen"
  shows "\<exists>self' sb r. hev_mapped_dns_handle alloc self req qlen res slen = Some (self', sb, r)
    \<and> dns_ready alloc cfg self' \<and> length sb = slen \<and> (r = -1 \<or> 12 \<le> r \<and> r \<le> int slen)"
  using dns_handle_safe [OF assms] by (auto simp: returns_def)

definition dns_zero :: hev_mapped_dns where
  "dns_zero = the (hev_mapped_dns_new True 0x64400000 0xffc00000 2)"

lemma dns_zero_ready: "dns_ready alloc3 (2, 0x64400000, 0xffc00000) dns_zero"
proof -
  have "hev_mapped_dns_new True 0x64400000 0xffc00000 2 = Some dns_zero"
    by (simp add: dns_zero_def hev_mapped_dns_new_def hev_mapped_dns_construct_def)
  from hev_mapped_dns_new_inv [OF this] show ?thesis
    using alloc3_ok by (auto simp: dns_ready_def dns_config_def)
qed

theorem dns_handle_in_bounds_witness:
  "\<exists>self' sb r. hev_mapped_dns_handle alloc3 dns_zero (replicate 20 (1 :: byte)) 19 (replicate 64 0) 64 = Some (self', sb, r)
    \<and> dns_ready alloc3 (2, 0x64400000, 0xffc00000) self' \<and> length sb = 64 \<and> (r = -1 \<or> 12 \<le> r \<and> r \<le> int 64)"
  by (rule dns_handle_in_bounds [OF dns_zero_ready]) auto

text \<open>
  C31. A well-formed query for one address record is answered: the response repeats the id and
  the question, sets the response flag and copies the recursion flag, and carries one answer,
  whose name points at the question and whose address is \<open>net | idx\<close> for the index of the
  dotted name in the cache.
\<close>

theorem dns_handle_answers:
  assumes ls: "labels_ok ls" and hd: "length qid = 2" "length counts = 6"
    and q: "qlen = length (a_query qid fa fb counts ls)" and s: "length res = slen" "qlen + 16 \<le> slen"
    and rdy: "dns_ready alloc (mx, net, msk) self"
  shows "\<exists>self' idx sb. hev_mapped_dns_find self (alloc (dom (dns_nodes self))) (dotted ls) = Some (self', idx)
    \<and> hev_mapped_dns_handle alloc self (a_query qid fa fb counts ls @ rest) qlen res slen
      = Some (self', sb, int (qlen + 16))
    \<and> take (qlen + 16) sb = a_response qid fa fb ls (net OR word_of_int idx)"
proof -
  obtain self' idx where f: "hev_mapped_dns_find self (alloc (dom (dns_nodes self))) (dotted ls) = Some (self', idx)"
    "dns_ready alloc (mx, net, msk) self'" "0 \<le> idx"
    using dns_find_ready [OF rdy] by blast
  then show ?thesis
    using hev_mapped_dns_handle_a_query [where alloc = alloc and rest = rest, OF ls hd q s f(1,3)] by (auto simp: dns_ready_def dns_config_def)
qed

theorem dns_handle_answers_witness:
  "\<exists>self' idx sb. hev_mapped_dns_find dns_zero (alloc3 (dom (dns_nodes dns_zero))) [97, 46, 98] = Some (self', idx)
    \<and> hev_mapped_dns_handle alloc3 dns_zero (a_query [7, 7] 1 0 [0, 0, 0, 0, 0, 0] [[97], [98]] @ []) 21 (replicate 64 0) 64
      = Some (self', sb, int (21 + 16))
    \<and> take (21 + 16) sb = a_response [7, 7] 1 0 [[97], [98]] (0x64400000 OR word_of_int idx)"
  using dns_handle_answers [where ls = "[[97], [98]]" and qid = "[7, 7]" and counts = "[0, 0, 0, 0, 0, 0]" and qlen = 21
      and fa = 1 and fb = 0 and res = "replicate 64 0" and slen = 64 and alloc = alloc3 and mx = 2 and net = "0x64400000"
      and msk = "0xffc00000" and self = dns_zero and rest = "[]"] dns_zero_ready
  by (simp add: labels_ok_def a_query_def enc_name_def)

text \<open>
  A message that is a bare header announcing one question makes the handler read past the
  end of the message: with a request buffer of exactly the 12 bytes, the model faults.
\<close>

theorem dns_handle_header_overread:
  "hev_mapped_dns_handle alloc self [i1, i2, f1, f2, 0, 1, a1, a2, n1, n2, r1, r2] 12 (replicate 1500 0) 1500 = None"
proof -
  have q: "dns_question alloc 12 s [i1, i2, f1, f2, 1, 0, a1, a2, n1, n2, r1, r2] 12 [] = None" for s
    by (simp add: dns_question_def dns_labels.simps get8_def)
  show ?thesis
    using q by (simp add: hev_mapped_dns_handle_def header_access(1-4) [where X = "[]", simplified]
        swap16_in read_u16_in write_u16_in)
qed

end
