(* ===== verification/RingBuffer.thy ===== *)
theory RingBuffer
  imports Tunnel_Prelude
begin

text \<open>
  \<open>misc/hev-ring-buffer.c\<close>: the buffer between a SOCKS connection and the TCP stack. Bytes are
  written at \<open>wp\<close>, handed out at \<open>rp\<close>, and stay allocated after they were read until the TCP
  stack acknowledges them (\<open>hev_ring_buffer_read_release\<close>), so the buffer has three regions:
  in flight, readable and free. The operations are shown to refine a bounded queue, stated as the
  locale \<open>bounded_queue\<close>, and the segments given to a writer to be the free region.
\<close>

section \<open>The struct and its operations\<close>

record hev_ring_buffer =
  rp :: nat
  wp :: nat
  rda_size :: nat
  use_size :: nat
  max_size :: nat
  ring_data :: "byte list"

text \<open>\<open>size_t\<close> arithmetic, which wraps at \<open>2^64\<close>.\<close>

definition sz_add :: "nat \<Rightarrow> nat \<Rightarrow> nat" where
  "sz_add a b = (a + b) mod 2 ^ 64"

definition sz_sub :: "nat \<Rightarrow> nat \<Rightarrow> nat" where
  "sz_sub a b = (a + 2 ^ 64 - b) mod 2 ^ 64"

text \<open>An \<open>iovec\<close>: an offset into \<open>data\<close> and a length.\<close>

type_synonym iovec = "nat \<times> nat"

definition hev_ring_buffer_alloca :: "byte list \<Rightarrow> hev_ring_buffer" where
  "hev_ring_buffer_alloca d = \<lparr>rp = 0, wp = 0, rda_size = 0, use_size = 0, max_size = length d, ring_data = d\<rparr>"

definition hev_ring_buffer_get_max_size :: "hev_ring_buffer \<Rightarrow> nat" where
  "hev_ring_buffer_get_max_size self = max_size self"

definition hev_ring_buffer_get_use_size :: "hev_ring_buffer \<Rightarrow> nat" where
  "hev_ring_buffer_get_use_size self = use_size self"

definition hev_ring_buffer_reading :: "hev_ring_buffer \<Rightarrow> iovec list" where
  "hev_ring_buffer_reading self =
     (if rda_size self = 0 then []
      else let upper_size = sz_sub (max_size self) (rp self) in
        if rda_size self \<le> upper_size then [(rp self, rda_size self)]
        else [(rp self, upper_size), (0, sz_sub (rda_size self) upper_size)])"

definition hev_ring_buffer_read_finish :: "hev_ring_buffer \<Rightarrow> nat \<Rightarrow> hev_ring_buffer" where
  "hev_ring_buffer_read_finish self sz = self\<lparr>
     rp := sz_add (rp self) sz mod max_size self,
     rda_size := sz_sub (rda_size self) sz\<rparr>"

definition hev_ring_buffer_read_release :: "hev_ring_buffer \<Rightarrow> nat \<Rightarrow> hev_ring_buffer" where
  "hev_ring_buffer_read_release self sz =
     (let self = self\<lparr>use_size := sz_sub (use_size self) sz\<rparr> in
      if use_size self = 0 then self\<lparr>rp := 0, wp := 0\<rparr> else self)"

definition hev_ring_buffer_writing :: "hev_ring_buffer \<Rightarrow> iovec list" where
  "hev_ring_buffer_writing self =
     (if use_size self = max_size self then []
      else let upper_size = sz_sub (max_size self) (wp self);
               spc_size = sz_sub (max_size self) (use_size self) in
        if spc_size \<le> upper_size then [(wp self, spc_size)]
        else [(wp self, upper_size), (0, sz_sub spc_size upper_size)])"

definition hev_ring_buffer_write_finish :: "hev_ring_buffer \<Rightarrow> nat \<Rightarrow> hev_ring_buffer" where
  "hev_ring_buffer_write_finish self sz = self\<lparr>
     wp := sz_add (wp self) sz mod max_size self,
     use_size := sz_add (use_size self) sz,
     rda_size := sz_add (rda_size self) sz\<rparr>"

text \<open>What a reader gathers from, and a writer scatters to, the segments of an \<open>iovec\<close>.\<close>

definition gather :: "byte list \<Rightarrow> iovec list \<Rightarrow> byte list" where
  "gather d iov = concat (map (\<lambda>(b, n). take n (drop b d)) iov)"

fun scatter :: "byte list \<Rightarrow> iovec list \<Rightarrow> byte list \<Rightarrow> byte list" where
  "scatter d [] bs = d"
| "scatter d ((b, n) # iov) bs =
     (let seg = take n bs in scatter (take b d @ seg @ drop (b + length seg) d) iov (drop n bs))"

section \<open>The queue a buffer holds\<close>

text \<open>
  \<open>ring_rep self fl rd\<close>: the buffer holds the bytes \<open>fl\<close> that were read but not released
  (they are still referenced by the TCP stack) followed by the readable bytes \<open>rd\<close>, laid out
  circularly from some offset \<open>t\<close>.
\<close>

definition ring_at :: "hev_ring_buffer \<Rightarrow> nat \<Rightarrow> byte list \<Rightarrow> byte list \<Rightarrow> bool" where
  "ring_at self t fl rd \<longleftrightarrow>
     0 < max_size self \<and> max_size self < 2 ^ 62 \<and> length (ring_data self) = max_size self \<and> t < max_size self
     \<and> length fl + length rd \<le> max_size self
     \<and> rda_size self = length rd \<and> use_size self = length fl + length rd
     \<and> rp self = (t + length fl) mod max_size self
     \<and> wp self = (t + length fl + length rd) mod max_size self
     \<and> (\<forall>i<length fl + length rd. ring_data self ! ((t + i) mod max_size self) = (fl @ rd) ! i)"

definition ring_rep :: "hev_ring_buffer \<Rightarrow> byte list \<Rightarrow> byte list \<Rightarrow> bool" where
  "ring_rep self fl rd \<longleftrightarrow> (\<exists>t. ring_at self t fl rd)"

lemma sz_simps [simp]:
  "a < 2 ^ 62 \<Longrightarrow> b < 2 ^ 62 \<Longrightarrow> sz_add a b = a + b"
  "b \<le> a \<Longrightarrow> a < 2 ^ 62 \<Longrightarrow> sz_sub a b = a - b"
  by (auto simp: sz_add_def sz_sub_def mod_if)

lemma ring_bounds:
  "ring_at self t fl rd \<Longrightarrow> rp self < max_size self \<and> wp self < max_size self"
  by (auto simp: ring_at_def)

lemma mod_shift: "n \<le> L \<Longrightarrow> ((t + n) mod m + (L - n)) mod m = (t + L) mod (m :: nat)"
  by (metis add.assoc le_add_diff_inverse mod_add_left_eq)

lemma ring_read_finish_at:
  assumes r: "ring_at self t fl rd" and n: "n \<le> length rd"
  shows "ring_at (hev_ring_buffer_read_finish self n) t (fl @ take n rd) (drop n rd)"
proof -
  have "max_size self < 2 ^ 62" "length rd \<le> max_size self" "rda_size self = length rd"
    using r by (auto simp: ring_at_def)
  then have "rp self < 2 ^ 62" "n < 2 ^ 62" "rda_size self = length rd" "length rd < 2 ^ 62"
    using n ring_bounds [OF r] by linarith+
  then have "sz_add (rp self) n = rp self + n" "sz_sub (rda_size self) n = length rd - n"
    using n sz_simps by (simp_all only:)
  then show ?thesis
    using r n by (auto simp: ring_at_def hev_ring_buffer_read_finish_def mod_simps add.assoc)
qed

lemma ring_read_release_at:
  assumes r: "ring_at self t fl rd" and n: "n \<le> length fl"
  shows "ring_rep (hev_ring_buffer_read_release self n) (drop n fl) rd"
proof (cases "length fl + length rd = n")
  case True
  then have "ring_at (hev_ring_buffer_read_release self n) 0 (drop n fl) rd"
    using r n by (auto simp: ring_at_def hev_ring_buffer_read_release_def)
  then show ?thesis by (auto simp: ring_rep_def)
next
  case False
  let ?m = "max_size self" and ?t = "(t + n) mod max_size self"
  have byte: "ring_data self ! ((?t + i) mod ?m) = (drop n fl @ rd) ! i" if "i < length fl - n + length rd" for i
  proof -
    have "ring_data self ! ((t + (n + i)) mod ?m) = (fl @ rd) ! (n + i)"
      using r that n by (auto simp: ring_at_def)
    moreover have "(fl @ rd) ! (n + i) = (drop n fl @ rd) ! i"
      using n by (auto simp: nth_append less_diff_conv add.commute)
    ultimately show ?thesis by (simp add: mod_simps add.assoc)
  qed
  have "(?t + (length fl - n)) mod ?m = rp self" "(?t + (length fl - n) + length rd) mod ?m = wp self"
    using r n mod_shift [of n "length fl" t ?m] mod_shift [of n "length fl + length rd" t ?m]
    by (auto simp: ring_at_def add.assoc)
  moreover have "sz_sub (use_size self) n = length fl - n + length rd"
    using r n by (auto simp: ring_at_def)
  ultimately have "ring_at (hev_ring_buffer_read_release self n) ?t (drop n fl) rd"
    using r n False byte by (auto simp: ring_at_def hev_ring_buffer_read_release_def)
  then show ?thesis by (auto simp: ring_rep_def)
qed

section \<open>Gathering and scattering\<close>

lemma ring_reading_gather:
  assumes r: "ring_at self t fl rd"
  shows "gather (ring_data self) (hev_ring_buffer_reading self) = rd"
proof -
  let ?m = "max_size self" and ?d = "ring_data self"
  have m: "0 < ?m" "?m < 2 ^ 62" "length ?d = ?m" "rp self < ?m" "rda_size self = length rd" "length rd \<le> ?m"
    using r ring_bounds [OF r] by (auto simp: ring_at_def)
  have b: "?d ! ((rp self + i) mod ?m) = rd ! i" if "i < length rd" for i
  proof -
    have "?d ! ((t + (length fl + i)) mod ?m) = (fl @ rd) ! (length fl + i)"
      using r that by (auto simp: ring_at_def)
    then show ?thesis using r by (simp add: ring_at_def mod_simps add.assoc)
  qed
  have "sz_sub ?m (rp self) = ?m - rp self" using m by simp
  moreover have "take (length rd) (drop (rp self) ?d) = rd" if "length rd \<le> ?m - rp self"
    using that m b by (intro nth_equalityI) (auto simp: less_diff_conv)
  moreover have "take (?m - rp self) (drop (rp self) ?d) @ take (length rd - (?m - rp self)) ?d = rd"
    if "?m - rp self < length rd"
  proof (rule nth_equalityI)
    show "length (take (?m - rp self) (drop (rp self) ?d) @ take (length rd - (?m - rp self)) ?d) = length rd"
      using that m by auto
    fix i assume i: "i < length (take (?m - rp self) (drop (rp self) ?d) @ take (length rd - (?m - rp self)) ?d)"
    then have "i < length rd" using that m by auto
    show "(take (?m - rp self) (drop (rp self) ?d) @ take (length rd - (?m - rp self)) ?d) ! i = rd ! i"
    proof (cases "i < ?m - rp self")
      case True
      then show ?thesis using b [OF \<open>i < length rd\<close>] m by (simp add: nth_append less_diff_conv)
    next
      case False
      then have "(rp self + i) mod ?m = i - (?m - rp self)"
        using m \<open>i < length rd\<close> by (subst le_mod_geq) auto
      then show ?thesis
        using b [OF \<open>i < length rd\<close>] False \<open>i < length rd\<close> m that by (simp add: nth_append)
    qed
  qed
  ultimately show ?thesis
    using m by (auto simp: hev_ring_buffer_reading_def gather_def Let_def not_le)
qed


lemma mod_offset_inj: "a < m \<Longrightarrow> b < m \<Longrightarrow> (t + a) mod m = (t + b) mod (m :: nat) \<Longrightarrow> a = b"
proof (induction a b rule: linorder_wlog)
  case (le a b)
  then have "m dvd (t + b) - (t + a)" by (metis add_le_mono1 add.commute mod_eq_dvd_iff_nat)
  then have "m dvd b - a" by simp
  then show ?case using le by (auto dest: dvd_imp_le)
next
  case (sym a b)
  then show ?case by metis
qed

lemma mod_distance:
  assumes "i < m" "n \<le> m"
  shows "((t + i) mod m + m - (t + n) mod m) mod m = (if i < n then i + m - n else i - n) mod (m :: nat)"
proof -
  let ?x = "(t + i) mod m + m - (t + n) mod m"
  have "(t + n) mod m < m" using assms by simp
  then have "(t + n) mod m \<le> (t + i) mod m + m" by linarith
  then have "int ?x = int ((t + i) mod m) + int m - int ((t + n) mod m)" by (simp add: of_nat_diff)
  then have "int (?x mod m) = (int ((t + i) mod m) + int m - int ((t + n) mod m)) mod int m"
    by (simp only: zmod_int)
  also have "\<dots> = (int ((t + i) mod m) - int ((t + n) mod m)) mod int m"
    by (metis add_diff_eq add.commute mod_add_self2)
  also have "\<dots> = ((int t + int i) - (int t + int n)) mod int m" by (simp only: zmod_int mod_diff_eq of_nat_add)
  finally have "int (?x mod m) = (int i - int n) mod int m" by simp
  moreover have "int ((if i < n then i + m - n else i - n) mod m) = (int i - int n) mod int m"
  proof (cases "i < n")
    case True
    then have "int (i + m - n) = (int i - int n) + int m" using assms by simp
    then have "int (i + m - n) mod int m = (int i - int n) mod int m" by (metis mod_add_self2)
    then show ?thesis using True by (simp add: zmod_int)
  qed (simp add: zmod_int of_nat_diff)
  ultimately show ?thesis by (metis of_nat_eq_iff)
qed

lemma splice_nth:
  assumes "b + length s \<le> length d" "j < length d"
  shows "(take b d @ s @ drop (b + length s) d) ! j = (if b \<le> j \<and> j < b + length s then s ! (j - b) else d ! j)"
    "length (take b d @ s @ drop (b + length s) d) = length d"
  using assms by (auto simp: nth_append)

text \<open>Bytes written through the segments of \<open>hev_ring_buffer_writing\<close>.\<close>

lemma ring_writing_scatter:
  assumes r: "ring_at self t fl rd" and bs: "length bs \<le> max_size self - use_size self"
  defines "d' \<equiv> scatter (ring_data self) (hev_ring_buffer_writing self) bs"
  shows "length d' = max_size self"
    and "j < max_size self \<Longrightarrow> d' ! j = (let i = (j + max_size self - wp self) mod max_size self in
        if i < length bs then bs ! i else ring_data self ! j)"
proof -
  let ?m = "max_size self" and ?d = "ring_data self" and ?u = "max_size self - wp self" and ?w = "wp self"
  have m: "0 < ?m" "?m < 2 ^ 62" "length ?d = ?m" "?w < ?m" "use_size self \<le> ?m"
    using r ring_bounds [OF r] by (auto simp: ring_at_def)
  have sub: "sz_sub ?m ?w = ?u" "sz_sub ?m (use_size self) = ?m - use_size self"
    using m by simp_all
  have idx: "(j + ?m - ?w) mod ?m = (if ?w \<le> j then j - ?w else j + ?u)" if "j < ?m" for j
    using that m by (auto simp: mod_if)
  have "length d' = ?m \<and> (j < ?m \<longrightarrow> d' ! j = (let i = (j + ?m - ?w) mod ?m in if i < length bs then bs ! i else ?d ! j))" for j
  proof (cases "length bs \<le> ?u")
    case True
    then have d: "d' = take ?w ?d @ bs @ drop (?w + length bs) ?d"
      using bs m sub by (auto simp: d'_def hev_ring_buffer_writing_def Let_def)
    have "?w + length bs \<le> length ?d" using True m by simp
    then show ?thesis using splice_nth [of ?w bs ?d] True m idx by (auto simp: d Let_def)
  next
    case False
    let ?a = "take ?u bs" and ?b = "drop ?u bs"
    let ?e = "take ?w ?d @ ?a"
    have a: "length ?a = ?u" "?w + length ?a = ?m" using False m by auto
    have b: "length ?b = length bs - ?u" "length ?b \<le> ?w" using bs m False by auto
    have "d' = take 0 ?e @ ?b @ drop (0 + length ?b) ?e"
      using bs m sub False a by (auto simp: d'_def hev_ring_buffer_writing_def Let_def)
    then show ?thesis using splice_nth [of 0 ?b ?e] a b m idx False by (auto simp: nth_append Let_def add.commute)
  qed
  then show "length d' = ?m" "j < ?m \<Longrightarrow> d' ! j = (let i = (j + ?m - ?w) mod ?m in if i < length bs then bs ! i else ?d ! j)"
    by blast+
qed


definition ring_write :: "hev_ring_buffer \<Rightarrow> byte list \<Rightarrow> hev_ring_buffer" where
  "ring_write self bs = hev_ring_buffer_write_finish
     (self\<lparr>ring_data := scatter (ring_data self) (hev_ring_buffer_writing self) bs\<rparr>) (length bs)"

lemma ring_write_at:
  assumes r: "ring_at self t fl rd" and bs: "length bs \<le> max_size self - use_size self"
  shows "ring_at (ring_write self bs) t fl (rd @ bs)"
proof -
  let ?m = "max_size self" and ?n = "length fl + length rd"
  define d' where "d' = scatter (ring_data self) (hev_ring_buffer_writing self) bs"
  have m: "0 < ?m" "?m < 2 ^ 62" "length (ring_data self) = ?m" "use_size self = ?n" "rda_size self = length rd"
    "wp self = (t + ?n) mod ?m" "t < ?m" "rp self = (t + length fl) mod ?m"
    and old: "\<And>i. i < ?n \<Longrightarrow> ring_data self ! ((t + i) mod ?m) = (fl @ rd) ! i"
    using r by (auto simp: ring_at_def add.assoc)
  have n: "?n + length bs \<le> ?m" using bs r by (auto simp: ring_at_def)
  have w: "wp self < 2 ^ 62" using ring_bounds [OF r] m(2) by linarith
  have sum: "sz_add (wp self) (length bs) = wp self + length bs" "sz_add (use_size self) (length bs) = ?n + length bs"
    "sz_add (rda_size self) (length bs) = length rd + length bs"
    using n m(2,4,5) by (auto intro!: sz_simps(1) [OF w] sz_simps(1) simp del: sz_simps)
  have byte: "d' ! ((t + i) mod ?m) = (fl @ rd @ bs) ! i" if i: "i < ?n + length bs" for i
  proof -
    have off: "((t + i) mod ?m + ?m - wp self) mod ?m = (if i < ?n then i + ?m - ?n else i - ?n)"
      using mod_distance [of i ?m ?n t] i n m(6) by (simp split: if_splits)
    then show ?thesis
      using ring_writing_scatter(2) [OF r bs, of "(t + i) mod ?m"] i n m old
      by (auto simp: d'_def Let_def nth_append)
  qed
  show ?thesis
    using m n sum byte ring_writing_scatter(1) [OF r bs]
    by (auto simp: ring_at_def ring_write_def hev_ring_buffer_write_finish_def d'_def add.assoc mod_simps)
qed


section \<open>The interface of the buffer\<close>

text \<open>
  A bounded queue of bytes whose consumed front stays allocated until it is released: \<open>rep s fl rd\<close>
  relates a state to the bytes read but not released and to the bytes still to be read.
\<close>

datatype ring_op = Put "byte list" | Get nat | Drop nat

fun queue_op :: "nat \<Rightarrow> ring_op \<Rightarrow> byte list \<times> byte list \<Rightarrow> ((byte list \<times> byte list) \<times> byte list) option" where
  "queue_op cap (Put bs) (fl, rd) =
     (if length fl + length rd + length bs \<le> cap then Some ((fl, rd @ bs), []) else None)"
| "queue_op cap (Get n) (fl, rd) =
     (if n \<le> length rd then Some ((fl @ take n rd, drop n rd), take n rd) else None)"
| "queue_op cap (Drop n) (fl, rd) = (if n \<le> length fl then Some ((drop n fl, rd), []) else None)"

fun queue_run :: "nat \<Rightarrow> ring_op list \<Rightarrow> byte list \<times> byte list \<Rightarrow> ((byte list \<times> byte list) \<times> byte list) option" where
  "queue_run cap [] q = Some (q, [])"
| "queue_run cap (x # xs) q = do {
     (q, out1) \<leftarrow> queue_op cap x q;
     (q, out2) \<leftarrow> queue_run cap xs q;
     Some (q, out1 @ out2) }"

definition puts :: "ring_op list \<Rightarrow> byte list" where
  "puts xs = concat (map (\<lambda>x. case x of Put bs \<Rightarrow> bs | _ \<Rightarrow> []) xs)"

locale bounded_queue =
  fixes rep :: "'s \<Rightarrow> byte list \<Rightarrow> byte list \<Rightarrow> bool"
    and capacity :: "'s \<Rightarrow> nat"
    and do_op :: "ring_op \<Rightarrow> 's \<Rightarrow> 's \<times> byte list"
  assumes op_rep: "rep s fl rd \<Longrightarrow> queue_op (capacity s) x (fl, rd) = Some ((fl', rd'), out)
      \<Longrightarrow> snd (do_op x s) = out \<and> rep (fst (do_op x s)) fl' rd' \<and> capacity (fst (do_op x s)) = capacity s"
begin

fun run :: "ring_op list \<Rightarrow> 's \<Rightarrow> 's \<times> byte list" where
  "run [] s = (s, [])"
| "run (x # xs) s = (let (s, out1) = do_op x s; (s, out2) = run xs s in (s, out1 @ out2))"

lemma run_rep:
  "rep s fl rd \<Longrightarrow> queue_run (capacity s) xs (fl, rd) = Some ((fl', rd'), out)
    \<Longrightarrow> snd (run xs s) = out \<and> rep (fst (run xs s)) fl' rd' \<and> capacity (fst (run xs s)) = capacity s"
proof (induction xs arbitrary: s fl rd out)
  case (Cons x xs)
  then obtain fl1 rd1 o1 o2 where q: "queue_op (capacity s) x (fl, rd) = Some ((fl1, rd1), o1)"
    "queue_run (capacity s) xs (fl1, rd1) = Some ((fl', rd'), o2)" "out = o1 @ o2"
    by (auto split: Option.bind_splits)
  then show ?case
    using op_rep [OF Cons.prems(1) q(1)] Cons.IH [of "fst (do_op x s)" fl1 rd1 o2]
    by (auto simp: case_prod_beta Let_def)
qed simp

end

lemma queue_op_bytes:
  "queue_op cap x (fl, rd) = Some ((fl', rd'), out) \<Longrightarrow> out @ rd' = rd @ puts [x]
    \<and> (\<exists>u. u @ fl' = fl @ out) \<and> (length fl + length rd \<le> cap \<longrightarrow> length fl' + length rd' \<le> cap)"
  by (cases x) (auto simp: puts_def split: if_splits intro: append_take_drop_id)

lemma queue_run_bytes:
  "queue_run cap xs (fl, rd) = Some ((fl', rd'), out) \<Longrightarrow> out @ rd' = rd @ puts xs
    \<and> (\<exists>u. u @ fl' = fl @ out) \<and> (length fl + length rd \<le> cap \<longrightarrow> length fl' + length rd' \<le> cap)"
proof (induction xs arbitrary: fl rd out)
  case (Cons x xs)
  then obtain fl1 rd1 o1 o2 where q: "queue_op cap x (fl, rd) = Some ((fl1, rd1), o1)"
    "queue_run cap xs (fl1, rd1) = Some ((fl', rd'), o2)" "out = o1 @ o2"
    by (auto split: Option.bind_splits)
  have a: "o1 @ rd1 = rd @ puts [x]" "\<exists>u. u @ fl1 = fl @ o1" "length fl + length rd \<le> cap \<longrightarrow> length fl1 + length rd1 \<le> cap"
    and b: "o2 @ rd' = rd1 @ puts xs" "\<exists>u. u @ fl' = fl1 @ o2"
      "length fl1 + length rd1 \<le> cap \<longrightarrow> length fl' + length rd' \<le> cap"
    using queue_op_bytes [OF q(1)] Cons.IH [OF q(2)] by auto
  have "puts (x # xs) = puts [x] @ puts xs" by (simp add: puts_def)
  moreover have "\<exists>u. u @ fl' = fl @ out"
    using a(2) b(2) q(3) by (metis append.assoc)
  ultimately show ?case using a b q(3) by (metis append.assoc)
qed (simp add: puts_def)

definition ring_read :: "hev_ring_buffer \<Rightarrow> nat \<Rightarrow> hev_ring_buffer \<times> byte list" where
  "ring_read self n =
     (hev_ring_buffer_read_finish self n, take n (gather (ring_data self) (hev_ring_buffer_reading self)))"

fun ring_do :: "ring_op \<Rightarrow> hev_ring_buffer \<Rightarrow> hev_ring_buffer \<times> byte list" where
  "ring_do (Put bs) self = (ring_write self bs, [])"
| "ring_do (Get n) self = ring_read self n"
| "ring_do (Drop n) self = (hev_ring_buffer_read_release self n, [])"

lemma ring_max_size [simp]:
  "max_size (ring_write self bs) = max_size self"
  "max_size (hev_ring_buffer_read_finish self n) = max_size self"
  "max_size (hev_ring_buffer_read_release self n) = max_size self"
  by (auto simp: ring_write_def hev_ring_buffer_write_finish_def hev_ring_buffer_read_finish_def
      hev_ring_buffer_read_release_def Let_def)

interpretation ring: bounded_queue ring_rep max_size ring_do
proof
  fix s fl rd x fl' rd' out
  assume "ring_rep s fl rd" and q: "queue_op (max_size s) x (fl, rd) = Some ((fl', rd'), out)"
  then obtain t where r: "ring_at s t fl rd" by (auto simp: ring_rep_def)
  then have u: "use_size s = length fl + length rd" by (simp add: ring_at_def)
  show "snd (ring_do x s) = out \<and> ring_rep (fst (ring_do x s)) fl' rd' \<and> max_size (fst (ring_do x s)) = max_size s"
  proof (cases x)
    case (Put bs)
    then have "length bs \<le> max_size s - use_size s" using q u by (simp split: if_splits)
    then show ?thesis using Put q ring_write_at [OF r, of bs] by (auto simp: ring_rep_def split: if_splits)
  next
    case (Get n)
    then show ?thesis
      using q ring_read_finish_at [OF r, of n] ring_reading_gather [OF r]
      by (auto simp: ring_rep_def ring_read_def split: if_splits)
  next
    case (Drop n)
    then show ?thesis using q ring_read_release_at [OF r, of n] by (auto split: if_splits)
  qed
qed


lemma ring_free_slot:
  assumes r: "ring_at self t fl rd" and k: "k < max_size self - (length fl + length rd)" and i: "i < length fl + length rd"
  shows "(t + i) mod max_size self \<noteq> (wp self + k) mod max_size self"
proof
  let ?n = "length fl + length rd"
  assume "(t + i) mod max_size self = (wp self + k) mod max_size self"
  then have "(t + i) mod max_size self = (t + (?n + k)) mod max_size self"
    using r by (simp add: ring_at_def mod_simps add.assoc)
  from mod_offset_inj [OF _ _ this] show False using k i by (simp add: less_diff_conv)
qed

section \<open>Properties\<close>

text \<open>
  C4. The ring buffer is a bounded FIFO. Any sequence of writes, reads and releases that respects
  the space, the readable and the in-flight counts, run on a fresh buffer, delivers the bytes in
  the order they were written: what was read followed by what \<open>hev_ring_buffer_reading\<close> still
  offers is what was written, the bytes read but not released are still laid out unchanged in
  the buffer, and \<open>use_size\<close> counts both.
\<close>

theorem ring_buffer_fifo:
  assumes "0 < length d" "length d < 2 ^ 62"
    and "queue_run (length d) xs ([], []) = Some ((fl, rd), out)"
  shows "snd (ring.run xs (hev_ring_buffer_alloca d)) = out \<and> out @ rd = puts xs \<and> (\<exists>u. u @ fl = out)
    \<and> ring_rep (fst (ring.run xs (hev_ring_buffer_alloca d))) fl rd
    \<and> (let self = fst (ring.run xs (hev_ring_buffer_alloca d)) in
        gather (ring_data self) (hev_ring_buffer_reading self) = rd
        \<and> hev_ring_buffer_get_use_size self = length fl + length rd
        \<and> length fl + length rd \<le> hev_ring_buffer_get_max_size self)"
proof -
  have "ring_at (hev_ring_buffer_alloca d) 0 [] []"
    using assms by (simp add: ring_at_def hev_ring_buffer_alloca_def)
  then have "ring_rep (hev_ring_buffer_alloca d) [] []" "max_size (hev_ring_buffer_alloca d) = length d"
    by (auto simp: ring_rep_def hev_ring_buffer_alloca_def)
  with assms(3) have "snd (ring.run xs (hev_ring_buffer_alloca d)) = out"
    "ring_rep (fst (ring.run xs (hev_ring_buffer_alloca d))) fl rd"
    using ring.run_rep [of "hev_ring_buffer_alloca d" "[]" "[]" xs fl rd out] by simp_all
  then show ?thesis
    using queue_run_bytes [OF assms(3)] ring_reading_gather
    by (auto simp: Let_def ring_rep_def hev_ring_buffer_get_use_size_def hev_ring_buffer_get_max_size_def ring_at_def)
qed

theorem ring_buffer_fifo_witness:
  "snd (ring.run [Put [1, 2, 3], Get 2, Drop 1, Put [4, 5], Get 1] (hev_ring_buffer_alloca [0, 0, 0, 0])) = [1, 2, 3]"
  using ring_buffer_fifo [of "[0, 0, 0, 0]" "[Put [1, 2, 3], Get 2, Drop 1, Put [4, 5], Get 1]" "[2, 3]" "[4, 5]" "[1, 2, 3]"]
  by simp

text \<open>
  The segments handed to a writer never overlap live bytes and never leave the buffer: every
  byte of a segment of \<open>hev_ring_buffer_writing\<close> lies inside \<open>data\<close> and outside the bytes that
  are readable or in flight, and together the segments are exactly the free space.
\<close>

theorem ring_writing_disjoint:
  assumes "ring_at self t fl rd"
  shows "sum_list (map snd (hev_ring_buffer_writing self)) = max_size self - (length fl + length rd)
    \<and> (\<forall>(b, n)\<in>set (hev_ring_buffer_writing self). b + n \<le> max_size self
        \<and> (\<forall>j<n. \<forall>i<length fl + length rd. (t + i) mod max_size self \<noteq> b + j))"
proof -
  let ?m = "max_size self" and ?w = "wp self" and ?n = "length fl + length rd"
  have m: "?m < 2 ^ 62" "?n \<le> ?m" "use_size self = ?n" "?w < ?m"
    using assms ring_bounds [OF assms] by (auto simp: ring_at_def)
  have sub: "sz_sub ?m ?w = ?m - ?w" "sz_sub ?m (use_size self) = ?m - ?n"
    "?m - ?w < ?m - ?n \<Longrightarrow> sz_sub (?m - ?n) (?m - ?w) = ?w - ?n"
    using m by simp_all
  have lo: "(t + i) mod ?m \<noteq> ?w + j" if "j < ?m - ?n" "j < ?m - ?w" "i < ?n" for i j
    using ring_free_slot [OF assms that(1,3)] that(2) by simp
  have hi: "(t + i) mod ?m \<noteq> j" if "j < ?w - ?n" "i < ?n" for i j
  proof -
    have "(?w + (?m - ?w + j)) mod ?m = j" using that(1) m by (simp add: mod_if)
    then show ?thesis using ring_free_slot [OF assms _ that(2), of "?m - ?w + j"] that(1) m by simp
  qed
  show ?thesis
    using m sub lo hi by (auto simp: hev_ring_buffer_writing_def Let_def not_le)
qed

theorem ring_writing_disjoint_witness:
  "sum_list (map snd (hev_ring_buffer_writing
     \<lparr>rp = 3, wp = 1, rda_size = 2, use_size = 2, max_size = 4, ring_data = [8, 0, 0, 7]\<rparr>)) = 4 - (0 + 2)"
proof -
  have "i < 2 \<Longrightarrow> [8, 0, 0, 7 :: byte] ! ((3 + i) mod 4) = [7, 8] ! i" for i :: nat
    by (auto simp: less_2_cases_iff)
  then have "ring_at \<lparr>rp = 3, wp = 1, rda_size = 2, use_size = 2, max_size = 4, ring_data = [8, 0, 0, 7]\<rparr> 3 [] [7, 8]"
    by (simp add: ring_at_def)
  from ring_writing_disjoint [OF this] show ?thesis by simp
qed

end
