(* ===== verification/Task_IO.thy ===== *)
theory Task_IO
  imports Tunnel_Prelude
begin

text \<open>
  Stream input and output of the task system
  (\<open>third-part/hev-task-system/src/lib/io/socket/hev-task-io-socket.c\<close>): the retry loops of
  \<open>hev_task_io_socket_recv\<close>, \<open>_send\<close> and \<open>_sendmsg\<close> with \<open>MSG_WAITALL\<close>, over a script of what the
  kernel and the yielder answer to each attempt. A receive is shown to deliver exactly the next
  bytes of the stream or to return another count, a send to transmit the buffer in order, and
  \<open>sendmsg\<close> to be a send of the concatenated vector.
\<close>

section \<open>What the kernel answers\<close>

text \<open>
  \<open>Chunk bs\<close>: bytes are there (no bytes: the peer has closed); \<open>RAgain\<close>: \<open>EAGAIN\<close>, and the yielder
  returns 0 when the socket is ready again; \<open>RTimeout\<close>: \<open>EAGAIN\<close>, and the yielder gives up;
  \<open>RErr\<close>: any other error. A script that is used up is a closed connection.
\<close>

datatype rx_event = Chunk "byte list" | RAgain | RTimeout | RErr

text \<open>\<open>Accept k\<close>: the kernel takes at most \<open>k + 1\<close> bytes. A script that is used up takes everything.\<close>

datatype tx_event = Accept nat | TAgain | TTimeout | TErr

record stream =
  rx :: "rx_event list"
  tx :: "tx_event list"
  sent :: "byte list"

definition partial_or :: "nat \<Rightarrow> int \<Rightarrow> int" where
  "partial_or sz r = (if sz \<noteq> 0 then int sz else r)"

section \<open>The loops\<close>

fun recv_loop :: "nat \<Rightarrow> byte list \<Rightarrow> rx_event list \<Rightarrow> int \<times> byte list \<times> rx_event list" where
  "recv_loop len acc [] = (partial_or (length acc) 0, acc, [])"
| "recv_loop len acc (RAgain # ev) = recv_loop len acc ev"
| "recv_loop len acc (RTimeout # ev) = (partial_or (length acc) (-2), acc, ev)"
| "recv_loop len acc (RErr # ev) = (partial_or (length acc) (-1), acc, ev)"
| "recv_loop len acc (Chunk bs # ev) =
     (let got = take (len - length acc) bs; rest = drop (len - length acc) bs in
      if got = [] then (partial_or (length acc) 0, acc, Chunk bs # ev)
      else if length acc + length got < len then recv_loop len (acc @ got) ev
      else (int (length acc + length got), acc @ got, if rest = [] then ev else Chunk rest # ev))"

fun send_loop :: "nat \<Rightarrow> byte list \<Rightarrow> tx_event list \<Rightarrow> int \<times> byte list \<times> tx_event list" where
  "send_loop sz bs [] = (partial_or (sz + length bs) 0, bs, [])"
| "send_loop sz bs (TAgain # ev) = send_loop sz bs ev"
| "send_loop sz bs (TTimeout # ev) = (partial_or sz (-2), [], ev)"
| "send_loop sz bs (TErr # ev) = (partial_or sz (-1), [], ev)"
| "send_loop sz bs (Accept k # ev) =
     (let s = min (Suc k) (length bs) in
      if s = 0 then (partial_or sz 0, [], ev)
      else if s < length bs then
        (let (res, out, ev) = send_loop (sz + s) (drop s bs) ev in (res, take s bs @ out, ev))
      else (int (sz + s), bs, ev))"

text \<open>The \<open>for\<close> loop that skips the segments a partial \<open>sendmsg\<close> has transmitted.\<close>

fun iov_advance :: "nat \<Rightarrow> byte list list \<Rightarrow> byte list list" where
  "iov_advance s [] = []"
| "iov_advance s (b # iov) = (if s < length b then drop s b # iov else iov_advance (s - length b) iov)"

fun sendmsg_loop :: "nat \<Rightarrow> nat \<Rightarrow> byte list list \<Rightarrow> tx_event list \<Rightarrow> int \<times> byte list \<times> tx_event list" where
  "sendmsg_loop len sz iov [] = (partial_or (sz + length (concat iov)) 0, concat iov, [])"
| "sendmsg_loop len sz iov (TAgain # ev) = sendmsg_loop len sz iov ev"
| "sendmsg_loop len sz iov (TTimeout # ev) = (partial_or sz (-2), [], ev)"
| "sendmsg_loop len sz iov (TErr # ev) = (partial_or sz (-1), [], ev)"
| "sendmsg_loop len sz iov (Accept k # ev) =
     (let s = min (Suc k) (length (concat iov)) in
      if s = 0 then (partial_or sz 0, [], ev)
      else if sz + s < len then
        (let (res, out, ev) = sendmsg_loop len (sz + s) (iov_advance s iov) ev in (res, take s (concat iov) @ out, ev))
      else (int (sz + s), take s (concat iov), ev))"

definition hev_task_io_socket_recv :: "'a stream_scheme \<Rightarrow> nat \<Rightarrow> int \<times> byte list \<times> 'a stream_scheme" where
  "hev_task_io_socket_recv w len = (case recv_loop len [] (rx w) of (res, buf, ev) \<Rightarrow> (res, buf, w\<lparr>rx := ev\<rparr>))"

definition hev_task_io_socket_send :: "'a stream_scheme \<Rightarrow> byte list \<Rightarrow> int \<times> 'a stream_scheme" where
  "hev_task_io_socket_send w buf =
     (case send_loop 0 buf (tx w) of (res, out, ev) \<Rightarrow> (res, w\<lparr>tx := ev, sent := sent w @ out\<rparr>))"

definition hev_task_io_socket_sendmsg :: "'a stream_scheme \<Rightarrow> byte list list \<Rightarrow> int \<times> 'a stream_scheme" where
  "hev_task_io_socket_sendmsg w iov =
     (case sendmsg_loop (length (concat iov)) 0 iov (tx w) of (res, out, ev) \<Rightarrow>
        (res, w\<lparr>tx := ev, sent := sent w @ out\<rparr>))"

section \<open>Receiving\<close>

text \<open>The bytes a reader can still get before the stream ends, fails or times out.\<close>

fun avail :: "rx_event list \<Rightarrow> byte list" where
  "avail [] = []"
| "avail (RAgain # ev) = avail ev"
| "avail (Chunk bs # ev) = (if bs = [] then [] else bs @ avail ev)"
| "avail (_ # ev) = []"

lemma recv_loop_enough:
  "length acc < len \<Longrightarrow> len \<le> length acc + length (avail ev) \<Longrightarrow>
    \<exists>ev'. recv_loop len acc ev = (int len, acc @ take (len - length acc) (avail ev), ev')
      \<and> avail ev' = drop (len - length acc) (avail ev)"
proof (induction len acc ev rule: recv_loop.induct)
  case (5 len acc bs ev)
  show ?case
  proof (cases "length acc + length bs < len")
    case True
    then have "take (len - length acc) bs = bs" by simp
    then show ?thesis using 5 True by (auto simp: Let_def)
  next
    case False
    then show ?thesis using 5(2,3) by (auto simp: Let_def split: if_splits)
  qed
qed auto

lemma recv_loop_short:
  "length acc + length (avail ev) < len \<Longrightarrow>
    fst (recv_loop len acc ev) < int len \<and> fst (snd (recv_loop len acc ev)) = acc @ avail ev"
proof (induction len acc ev rule: recv_loop.induct)
  case (5 len acc bs ev)
  show ?case
  proof (cases "bs = []")
    case True
    then show ?thesis using 5(2) by (simp add: Let_def partial_or_def)
  next
    case False
    then have "take (len - length acc) bs = bs" "length acc + length bs < len" using 5(2) by simp_all
    then show ?thesis using 5 False by (simp add: Let_def)
  qed
qed (auto simp: partial_or_def)

lemma recv_exact:
  assumes "0 < n" "n \<le> length (avail (rx w))"
  obtains ev where "hev_task_io_socket_recv w n = (int n, take n (avail (rx w)), w\<lparr>rx := ev\<rparr>)"
    "avail ev = drop n (avail (rx w))"
  using recv_loop_enough [of "[]" n "rx w"] assms by (auto simp: hev_task_io_socket_recv_def)

lemma recv_result:
  assumes r: "hev_task_io_socket_recv w n = (res, buf, w')" and "0 < n"
  shows "if n \<le> length (avail (rx w))
    then res = int n \<and> buf = take n (avail (rx w)) \<and> avail (rx w') = drop n (avail (rx w))
    else res < int n \<and> buf = avail (rx w)"
    and "tx w' = tx w" "sent w' = sent w"
proof -
  obtain ev where ev: "recv_loop n [] (rx w) = (res, buf, ev)" "w' = w\<lparr>rx := ev\<rparr>"
    using r by (auto simp: hev_task_io_socket_recv_def split: prod.splits)
  show "if n \<le> length (avail (rx w))
    then res = int n \<and> buf = take n (avail (rx w)) \<and> avail (rx w') = drop n (avail (rx w))
    else res < int n \<and> buf = avail (rx w)"
  proof (cases "n \<le> length (avail (rx w))")
    case True
    then show ?thesis using recv_loop_enough [of "[]" n "rx w"] ev \<open>0 < n\<close> by auto
  next
    case False
    then show ?thesis using recv_loop_short [of "[]" "rx w" n] ev by simp
  qed
  show "tx w' = tx w" "sent w' = sent w" using ev(2) by simp_all
qed

lemma recv_step:
  assumes "0 < n"
  obtains res buf ev where "hev_task_io_socket_recv w n = (res, buf, w\<lparr>rx := ev\<rparr>)"
    "res = int n \<longleftrightarrow> n \<le> length (avail (rx w))"
    "n \<le> length (avail (rx w)) \<Longrightarrow> buf = take n (avail (rx w)) \<and> avail ev = drop n (avail (rx w))"
proof -
  obtain res buf ev where r: "hev_task_io_socket_recv w n = (res, buf, w\<lparr>rx := ev\<rparr>)"
    by (cases "recv_loop n [] (rx w)") (auto simp: hev_task_io_socket_recv_def)
  from recv_result(1) [OF r assms] show thesis
    by (intro that [OF r]) (auto split: if_splits)
qed

section \<open>Sending\<close>

lemma send_loop_prefix:
  "send_loop sz bs ev = (res, out, ev') \<Longrightarrow> \<exists>rest. bs = out @ rest \<and> (0 < res \<longrightarrow> res = int (sz + length out))"
proof (induction sz bs ev arbitrary: res out ev' rule: send_loop.induct)
  case (5 sz bs k ev)
  define s where "s = min (Suc k) (length bs)"
  show ?case
  proof (cases "s \<noteq> 0 \<and> s < length bs")
    case True
    obtain r o' e where l: "send_loop (sz + s) (drop s bs) ev = (r, o', e)" by (cases "send_loop (sz + s) (drop s bs) ev") auto
    from 5(1) [OF s_def _ _ l] True obtain rest where "drop s bs = o' @ rest" "0 < r \<longrightarrow> r = int (sz + s + length o')"
      by auto
    moreover have "res = r" "out = take s bs @ o'" using 5(2) l True by (auto simp: Let_def s_def [symmetric])
    moreover have "s \<le> length bs" by (simp add: s_def)
    ultimately show ?thesis by (metis append.assoc append_take_drop_id length_append length_take min.absorb2 add.assoc)
  next
    case False
    then show ?thesis using 5(2) by (auto simp: Let_def s_def [symmetric] partial_or_def split: if_splits)
       (auto simp: s_def)
  qed
qed (auto simp: partial_or_def split: if_splits)

text \<open>A network that never fails: every attempt is accepted, possibly in pieces.\<close>

definition tx_ok :: "tx_event list \<Rightarrow> bool" where
  "tx_ok ev \<longleftrightarrow> TTimeout \<notin> set ev \<and> TErr \<notin> set ev"

lemma send_loop_ok:
  "tx_ok ev \<Longrightarrow> bs \<noteq> [] \<Longrightarrow> \<exists>ev'. send_loop sz bs ev = (int (sz + length bs), bs, ev') \<and> tx_ok ev'"
proof (induction sz bs ev rule: send_loop.induct)
  case (5 sz bs k ev)
  define s where "s = min (Suc k) (length bs)"
  have s: "0 < s" "s \<le> length bs" using 5(3) by (auto simp: s_def)
  have ok: "tx_ok ev" using 5(2) by (simp add: tx_ok_def)
  show ?case
  proof (cases "s < length bs")
    case True
    then obtain ev' where "send_loop (sz + s) (drop s bs) ev = (int (sz + s + length (drop s bs)), drop s bs, ev')" "tx_ok ev'"
      using 5(1) [OF s_def] s ok by auto
    then show ?thesis using True s by (auto simp: Let_def s_def [symmetric])
  next
    case False
    then have "s = length bs" using s by simp
    then show ?thesis using s ok by (simp add: Let_def s_def [symmetric])
  qed
qed (auto simp: tx_ok_def partial_or_def)

lemma send_ok:
  assumes "tx_ok (tx w)" "buf \<noteq> []"
  obtains ev where "hev_task_io_socket_send w buf = (int (length buf), w\<lparr>tx := ev, sent := sent w @ buf\<rparr>)" "tx_ok ev"
  using send_loop_ok [OF assms, of 0] by (auto simp: hev_task_io_socket_send_def)

lemma iov_advance_concat: "concat (iov_advance s iov) = drop s (concat iov)"
  by (induction s iov rule: iov_advance.induct) auto

lemma sendmsg_loop_send:
  "len = sz + length (concat iov) \<Longrightarrow> sendmsg_loop len sz iov ev = send_loop sz (concat iov) ev"
proof (induction len sz iov ev rule: sendmsg_loop.induct)
  case (5 len sz iov k ev)
  then show ?case by (auto simp: Let_def iov_advance_concat)
qed auto

lemma sendmsg_send: "hev_task_io_socket_sendmsg w iov = hev_task_io_socket_send w (concat iov)"
  by (simp add: hev_task_io_socket_sendmsg_def hev_task_io_socket_send_def sendmsg_loop_send)

section \<open>Properties\<close>

text \<open>
  Receiving with \<open>MSG_WAITALL\<close> is insensitive to how the stream is cut: however many pieces the
  bytes arrive in and however often the task has to wait, the call ends, and it returns all that
  was asked for if that much arrives, leaving the rest in the stream; otherwise it reports fewer
  and the buffer holds what did arrive.
\<close>

theorem recv_all_or_short:
  assumes "0 < n"
  shows "\<exists>res buf w'. hev_task_io_socket_recv w n = (res, buf, w')
    \<and> (if n \<le> length (avail (rx w)) then res = int n \<and> buf = take n (avail (rx w)) \<and> avail (rx w') = drop n (avail (rx w))
       else res < int n \<and> buf = avail (rx w))"
proof -
  obtain res buf w' where r: "hev_task_io_socket_recv w n = (res, buf, w')"
    by (cases "hev_task_io_socket_recv w n") auto
  show ?thesis using recv_result(1) [OF r assms] r by auto
qed

theorem recv_all_or_short_witness:
  "\<exists>res buf w'. hev_task_io_socket_recv \<lparr>rx = [Chunk [1], RAgain, Chunk [2, 3], RErr], tx = [], sent = []\<rparr> 2 = (res, buf, w')
    \<and> res = 2 \<and> buf = [1, 2] \<and> avail (rx w') = [3]"
  using recv_all_or_short [of 2 "\<lparr>rx = [Chunk [1], RAgain, Chunk [2, 3], RErr], tx = [], sent = []\<rparr>"]
  by (auto simp: numeral_2_eq_2)

text \<open>
  Gathering is transparent: sending a list of segments with \<open>hev_task_io_socket_sendmsg\<close>, which
  edits the segments after each partial transmission, gives the same result, the same bytes on
  the wire and the same remaining stream as sending their concatenation, for every behaviour of
  the kernel.
\<close>

theorem sendmsg_is_send:
  "hev_task_io_socket_sendmsg w iov = hev_task_io_socket_send w (concat iov)"
  by (rule sendmsg_send)

text \<open>
  A positive result of a send is the number of bytes that went out, and these are a prefix of the
  buffer; nothing follows a byte that was not accepted.
\<close>

theorem send_counts_prefix:
  "\<exists>res out rest w'. hev_task_io_socket_send w buf = (res, w') \<and> sent w' = sent w @ out \<and> buf = out @ rest
    \<and> (0 < res \<longrightarrow> res = int (length out))"
proof -
  obtain res out ev where s: "send_loop 0 buf (tx w) = (res, out, ev)" by (cases "send_loop 0 buf (tx w)") auto
  then show ?thesis using send_loop_prefix [OF s] by (auto simp: hev_task_io_socket_send_def)
qed

theorem send_counts_prefix_witness:
  "\<exists>res out rest w'. hev_task_io_socket_send \<lparr>rx = [], tx = [Accept 0, TErr], sent = []\<rparr> [1, 2] = (res, w')
    \<and> sent w' = out \<and> [1, 2] = out @ rest \<and> (0 < res \<longrightarrow> res = int (length out))"
  using send_counts_prefix [of "\<lparr>rx = [], tx = [Accept 0, TErr], sent = []\<rparr>" "[1, 2]"] by simp

end
