(* ===== verification/Socks5_Addr.thy ===== *)
theory Socks5_Addr
  imports Bytes
begin

text \<open>
  SOCKS addresses (\<open>hev-socks5-proto.h\<close>, \<open>hev-socks5-misc.c\<close>). A \<open>HevSocks5Addr\<close> is a packed union that is
  sent and received as it lies in memory, so it is modelled as the bytes of its buffer with the
  offsets of the fields; every access outside the buffer is a fault. Ports are 16-bit fields
  that hold network order. The constructors are shown to write the wire form of the address
  they are given (\<open>enc_addr\<close>), and the conversions to and from \<open>struct sockaddr_in6\<close> to be inverse.
\<close>

section \<open>Layout\<close>

definition HEV_SOCKS5_ADDR_TYPE_IPV4 :: byte where "HEV_SOCKS5_ADDR_TYPE_IPV4 = 1"
definition HEV_SOCKS5_ADDR_TYPE_NAME :: byte where "HEV_SOCKS5_ADDR_TYPE_NAME = 3"
definition HEV_SOCKS5_ADDR_TYPE_IPV6 :: byte where "HEV_SOCKS5_ADDR_TYPE_IPV6 = 4"

lemmas addr_types = HEV_SOCKS5_ADDR_TYPE_IPV4_def HEV_SOCKS5_ADDR_TYPE_NAME_def HEV_SOCKS5_ADDR_TYPE_IPV6_def

text \<open>
  \<open>atype\<close> is at 0; \<open>ipv4.addr\<close> at 1 and \<open>ipv4.port\<close> at 5; \<open>ipv6.addr\<close> at 1 and \<open>ipv6.port\<close> at 17;
  \<open>domain.len\<close> at 1 and \<open>domain.addr\<close>, 258 bytes, at 2.
\<close>

definition addr_size :: nat where
  "addr_size = 260"

datatype family = AF_UNSPEC | AF_INET | AF_INET6

record sockaddr_in6 =
  sin6_family :: family
  sin6_port :: u16
  sin6_addr :: "byte list"

section \<open>Constructors\<close>

definition hev_socks5_addr_len :: "byte list \<Rightarrow> int option" where
  "hev_socks5_addr_len a = do {
     atype \<leftarrow> get8 a 0;
     if atype = HEV_SOCKS5_ADDR_TYPE_IPV4 then Some 7
     else if atype = HEV_SOCKS5_ADDR_TYPE_IPV6 then Some 19
     else if atype = HEV_SOCKS5_ADDR_TYPE_NAME then do { len \<leftarrow> get8 a 1; Some (4 + uint len) }
     else Some (-1) }"

text \<open>\<open>strncpy (dst, s, n)\<close>: at most \<open>n\<close> bytes of the string, padded with zeros to \<open>n\<close>.\<close>

definition strncpy_bytes :: "byte list \<Rightarrow> nat \<Rightarrow> byte list" where
  "strncpy_bytes s n = take n s @ replicate (n - length s) 0"

definition hev_socks5_addr_from_name :: "byte list \<Rightarrow> byte list \<Rightarrow> u16 \<Rightarrow> (byte list \<times> int) option" where
  "hev_socks5_addr_from_name a name port = do {
     a \<leftarrow> put8 a 0 HEV_SOCKS5_ADDR_TYPE_NAME;
     a \<leftarrow> put_block a 2 (strncpy_bytes name 256);
     s \<leftarrow> cstr_at a 2;
     let len = (word_of_nat (length s) :: byte);
     a \<leftarrow> put8 a 1 len;
     a \<leftarrow> put_block a (2 + unat len) (store16 port);
     Some (a, 4 + uint len) }"

definition hev_socks5_addr_from_ipv4 :: "byte list \<Rightarrow> byte list \<Rightarrow> u16 \<Rightarrow> (byte list \<times> int) option" where
  "hev_socks5_addr_from_ipv4 a ipv4 port = do {
     a \<leftarrow> put8 a 0 HEV_SOCKS5_ADDR_TYPE_IPV4;
     x \<leftarrow> get_block ipv4 0 4;
     a \<leftarrow> put_block a 1 x;
     a \<leftarrow> put_block a 5 (store16 port);
     Some (a, 7) }"

definition hev_socks5_addr_from_ipv6 :: "byte list \<Rightarrow> byte list \<Rightarrow> u16 \<Rightarrow> (byte list \<times> int) option" where
  "hev_socks5_addr_from_ipv6 a ipv6 port = do {
     a \<leftarrow> put8 a 0 HEV_SOCKS5_ADDR_TYPE_IPV6;
     x \<leftarrow> get_block ipv6 0 16;
     a \<leftarrow> put_block a 1 x;
     a \<leftarrow> put_block a 17 (store16 port);
     Some (a, 19) }"

text \<open>\<open>IN6_IS_ADDR_V4MAPPED\<close> and the prefix that the code writes for a mapped address.\<close>

definition v4mapped_prefix :: "byte list" where
  "v4mapped_prefix = replicate 10 0 @ [0xff, 0xff]"

definition IN6_IS_ADDR_V4MAPPED :: "byte list \<Rightarrow> bool" where
  "IN6_IS_ADDR_V4MAPPED x \<longleftrightarrow> take 12 x = v4mapped_prefix"

definition hev_socks5_addr_from_sockaddr6 :: "byte list \<Rightarrow> sockaddr_in6 \<Rightarrow> (byte list \<times> int) option" where
  "hev_socks5_addr_from_sockaddr6 a saddr =
     (if IN6_IS_ADDR_V4MAPPED (sin6_addr saddr) then do {
        a \<leftarrow> put8 a 0 HEV_SOCKS5_ADDR_TYPE_IPV4;
        a \<leftarrow> put_block a 5 (store16 (sin6_port saddr));
        x \<leftarrow> get_block (sin6_addr saddr) 12 4;
        a \<leftarrow> put_block a 1 x;
        Some (a, 7) }
      else do {
        a \<leftarrow> put8 a 0 HEV_SOCKS5_ADDR_TYPE_IPV6;
        a \<leftarrow> put_block a 17 (store16 (sin6_port saddr));
        x \<leftarrow> get_block (sin6_addr saddr) 0 16;
        a \<leftarrow> put_block a 1 x;
        Some (a, 19) })"

section \<open>Resolution\<close>

text \<open>
  What the C library and the resolver of the task system answer: \<open>inet_pton\<close> for both families
  (the address, or \<open>None\<close> for its result 0) and \<open>getaddrinfo\<close> restricted to a family (the family and
  the address of the first result, or \<open>None\<close> when there is none).
\<close>

record resolver =
  pton4 :: "byte list \<Rightarrow> byte list option"
  pton6 :: "byte list \<Rightarrow> byte list option"
  getaddrinfo :: "byte list \<Rightarrow> family \<Rightarrow> (family \<times> byte list) option"

definition resolver_ok :: "resolver \<Rightarrow> bool" where
  "resolver_ok R \<longleftrightarrow> (\<forall>s x. pton4 R s = Some x \<longrightarrow> length x = 4) \<and> (\<forall>s x. pton6 R s = Some x \<longrightarrow> length x = 16)
     \<and> (\<forall>s f x. getaddrinfo R s f = Some (AF_INET, x) \<longrightarrow> length x = 4)
     \<and> (\<forall>s f x. getaddrinfo R s f = Some (AF_INET6, x) \<longrightarrow> length x = 16)"

definition hev_socks5_ipv4_into_sockaddr6 :: "byte list \<Rightarrow> sockaddr_in6 \<Rightarrow> sockaddr_in6 option" where
  "hev_socks5_ipv4_into_sockaddr6 a saddr = do {
     p \<leftarrow> get_block a 5 2;
     x \<leftarrow> get_block a 1 4;
     Some (saddr\<lparr>sin6_family := AF_INET6, sin6_port := load16 p, sin6_addr := v4mapped_prefix @ x\<rparr>) }"

definition hev_socks5_ipv6_into_sockaddr6 :: "byte list \<Rightarrow> sockaddr_in6 \<Rightarrow> sockaddr_in6 option" where
  "hev_socks5_ipv6_into_sockaddr6 a saddr = do {
     p \<leftarrow> get_block a 17 2;
     x \<leftarrow> get_block a 1 16;
     Some (saddr\<lparr>sin6_family := AF_INET6, sin6_port := load16 p, sin6_addr := x\<rparr>) }"

definition hev_socks5_name_resolve_ipv4 :: "resolver \<Rightarrow> byte list \<Rightarrow> sockaddr_in6 \<Rightarrow> sockaddr_in6 \<times> int" where
  "hev_socks5_name_resolve_ipv4 R name saddr =
     (let saddr = saddr\<lparr>sin6_addr := replicate 10 0 @ drop 10 (sin6_addr saddr)\<rparr> in
      case pton4 R name of
        None \<Rightarrow> (saddr, -1)
      | Some x \<Rightarrow> (saddr\<lparr>sin6_addr := replicate 10 0 @ [0xff, 0xff] @ x\<rparr>, 0))"

definition hev_socks5_name_resolve_ipv6 :: "resolver \<Rightarrow> byte list \<Rightarrow> sockaddr_in6 \<Rightarrow> sockaddr_in6 \<times> int" where
  "hev_socks5_name_resolve_ipv6 R name saddr =
     (case pton6 R name of None \<Rightarrow> (saddr, -1) | Some x \<Rightarrow> (saddr\<lparr>sin6_addr := x\<rparr>, 0))"

definition hev_socks5_name_resolve_name ::
  "resolver \<Rightarrow> byte list \<Rightarrow> sockaddr_in6 \<Rightarrow> family \<Rightarrow> sockaddr_in6 \<times> family \<times> int" where
  "hev_socks5_name_resolve_name R name saddr fam =
     (case getaddrinfo R name fam of
        None \<Rightarrow> (saddr, fam, -1)
      | Some (f, x) \<Rightarrow>
          (case f of
             AF_INET \<Rightarrow> (saddr\<lparr>sin6_addr := replicate 10 0 @ [0xff, 0xff] @ x\<rparr>, AF_INET, 0)
           | AF_INET6 \<Rightarrow> (saddr\<lparr>sin6_addr := x\<rparr>, AF_INET6, 0)
           | AF_UNSPEC \<Rightarrow> (saddr, fam, -1)))"

definition hev_socks5_name_into_sockaddr6 ::
  "resolver \<Rightarrow> byte list \<Rightarrow> u16 \<Rightarrow> sockaddr_in6 \<Rightarrow> family \<Rightarrow> sockaddr_in6 \<times> family \<times> int" where
  "hev_socks5_name_into_sockaddr6 R name port saddr fam =
     (let saddr = saddr\<lparr>sin6_family := AF_INET6, sin6_port := htons port\<rparr>;
          (saddr, res) = hev_socks5_name_resolve_ipv4 R name saddr in
      if res = 0 then (saddr, AF_INET, 0)
      else let (saddr, res) = hev_socks5_name_resolve_ipv6 R name saddr in
      if res = 0 then (saddr, AF_INET6, 0)
      else hev_socks5_name_resolve_name R name saddr fam)"

text \<open>The local \<open>name\<close> is terminated behind its last byte, so the callee sees it up to a first zero.\<close>

definition hev_socks5_addr_into_sockaddr6 ::
  "resolver \<Rightarrow> byte list \<Rightarrow> sockaddr_in6 \<Rightarrow> family \<Rightarrow> (sockaddr_in6 \<times> family \<times> int) option" where
  "hev_socks5_addr_into_sockaddr6 R a saddr fam = do {
     atype \<leftarrow> get8 a 0;
     if atype = HEV_SOCKS5_ADDR_TYPE_IPV4 then do {
       saddr \<leftarrow> hev_socks5_ipv4_into_sockaddr6 a saddr; Some (saddr, AF_INET, 0) }
     else if atype = HEV_SOCKS5_ADDR_TYPE_IPV6 then do {
       saddr \<leftarrow> hev_socks5_ipv6_into_sockaddr6 a saddr; Some (saddr, AF_INET6, 0) }
     else if atype = HEV_SOCKS5_ADDR_TYPE_NAME then do {
       len \<leftarrow> get8 a 1;
       name \<leftarrow> get_block a 2 (unat len);
       p \<leftarrow> get_block a (2 + unat len) 2;
       Some (hev_socks5_name_into_sockaddr6 R (takeWhile (\<lambda>c. c \<noteq> 0) name) (ntohs (load16 p)) saddr fam) }
     else Some (saddr, fam, -1) }"

section \<open>The printed form\<close>

text \<open>Decimal digits of an unsigned number, as \<open>%u\<close> prints them.\<close>

fun decimal :: "nat \<Rightarrow> byte list" where
  "decimal n = (if n < 10 then [word_of_nat (48 + n)] else decimal (n div 10) @ [word_of_nat (48 + n mod 10)])"

declare decimal.simps [simp del]

text \<open>
  \<open>snprintf (buf, len, "[%s]:%u", sa, port)\<close>: the text, cut to \<open>len - 1\<close> bytes. \<open>ntop4\<close> and \<open>ntop6\<close> are
  \<open>inet_ntop\<close>.
\<close>

definition hev_socks5_addr_into_str ::
  "(byte list \<Rightarrow> byte list) \<Rightarrow> (byte list \<Rightarrow> byte list) \<Rightarrow> byte list \<Rightarrow> nat \<Rightarrow> byte list option option" where
  "hev_socks5_addr_into_str ntop4 ntop6 a len = do {
     atype \<leftarrow> get8 a 0;
     let print = (\<lambda>sa p. take (len - 1) (91 # takeWhile (\<lambda>c. c \<noteq> 0) sa @ [93, 58] @ decimal (unat (ntohs (load16 p)))));
     if atype = HEV_SOCKS5_ADDR_TYPE_IPV4 then do {
       p \<leftarrow> get_block a 5 2; x \<leftarrow> get_block a 1 4; Some (Some (print (ntop4 x) p)) }
     else if atype = HEV_SOCKS5_ADDR_TYPE_IPV6 then do {
       p \<leftarrow> get_block a 17 2; x \<leftarrow> get_block a 1 16; Some (Some (print (ntop6 x) p)) }
     else if atype = HEV_SOCKS5_ADDR_TYPE_NAME then do {
       n \<leftarrow> get8 a 1;
       x \<leftarrow> get_block a 2 (unat n);
       p \<leftarrow> get_block a (2 + unat n) 2;
       Some (Some (print x p)) }
     else Some None }"

section \<open>The wire form\<close>

datatype socks_addr = IPv4 "byte list" u16 | IPv6 "byte list" u16 | Domain "byte list" u16

fun enc_addr :: "socks_addr \<Rightarrow> byte list" where
  "enc_addr (IPv4 x p) = HEV_SOCKS5_ADDR_TYPE_IPV4 # x @ store16 p"
| "enc_addr (IPv6 x p) = HEV_SOCKS5_ADDR_TYPE_IPV6 # x @ store16 p"
| "enc_addr (Domain s p) = HEV_SOCKS5_ADDR_TYPE_NAME # word_of_nat (length s) # s @ store16 p"

fun addr_ok :: "socks_addr \<Rightarrow> bool" where
  "addr_ok (IPv4 x p) \<longleftrightarrow> length x = 4"
| "addr_ok (IPv6 x p) \<longleftrightarrow> length x = 16"
| "addr_ok (Domain s p) \<longleftrightarrow> length s < 256 \<and> 0 \<notin> set s"

text \<open>The constructor of each kind, on a fresh struct.\<close>

fun addr_from :: "byte list \<Rightarrow> socks_addr \<Rightarrow> (byte list \<times> int) option" where
  "addr_from a (IPv4 x p) = hev_socks5_addr_from_ipv4 a x p"
| "addr_from a (IPv6 x p) = hev_socks5_addr_from_ipv6 a x p"
| "addr_from a (Domain s p) = hev_socks5_addr_from_name a s p"

lemma unat_byte_len [simp]: "length s < 256 \<Longrightarrow> unat (word_of_nat (length s) :: byte) = length s"
  "length s < 256 \<Longrightarrow> uint (word_of_nat (length s) :: byte) = int (length s)"
  by (simp_all add: unat_of_nat uint_nat)

lemma enc_addr_len: "addr_ok x \<Longrightarrow> length (enc_addr x) \<le> 259 \<and> 4 \<le> length (enc_addr x)"
  by (cases x) auto

lemma hev_socks5_addr_len_enc:
  "addr_ok x \<Longrightarrow> hev_socks5_addr_len (enc_addr x @ xs) = Some (int (length (enc_addr x)))"
  by (cases x) (auto simp: hev_socks5_addr_len_def get8_def addr_types)

lemma addr_from_ipv4_enc:
  assumes "length x = 4" "19 \<le> length a"
  shows "\<exists>a'. hev_socks5_addr_from_ipv4 a x p = Some (a', 7) \<and> take 7 a' = enc_addr (IPv4 x p) \<and> length a' = length a"
proof -
  obtain a1 where a1: "put8 a 0 HEV_SOCKS5_ADDR_TYPE_IPV4 = Some a1" "take 1 a1 = [HEV_SOCKS5_ADDR_TYPE_IPV4]" "length a1 = length a"
    using put8_front [of a] assms by fastforce
  obtain a2 where a2: "put_block a1 1 x = Some a2" "take 5 a2 = HEV_SOCKS5_ADDR_TYPE_IPV4 # x" "length a2 = length a"
    using put_block_front [of "[HEV_SOCKS5_ADDR_TYPE_IPV4]" a1 x] a1 assms by auto
  obtain a3 where a3: "put_block a2 5 (store16 p) = Some a3" "take 7 a3 = HEV_SOCKS5_ADDR_TYPE_IPV4 # x @ store16 p"
    "length a3 = length a"
    using put_block_front [of "HEV_SOCKS5_ADDR_TYPE_IPV4 # x" a2 "store16 p"] a2 assms by auto
  then show ?thesis
    using a1 a2 assms by (simp add: hev_socks5_addr_from_ipv4_def get_block_def)
qed

lemma addr_from_ipv6_enc:
  assumes "length x = 16" "19 \<le> length a"
  shows "\<exists>a'. hev_socks5_addr_from_ipv6 a x p = Some (a', 19) \<and> take 19 a' = enc_addr (IPv6 x p) \<and> length a' = length a"
proof -
  obtain a1 where a1: "put8 a 0 HEV_SOCKS5_ADDR_TYPE_IPV6 = Some a1" "take 1 a1 = [HEV_SOCKS5_ADDR_TYPE_IPV6]" "length a1 = length a"
    using put8_front [of a] assms by fastforce
  obtain a2 where a2: "put_block a1 1 x = Some a2" "take 17 a2 = HEV_SOCKS5_ADDR_TYPE_IPV6 # x" "length a2 = length a"
    using put_block_front [of "[HEV_SOCKS5_ADDR_TYPE_IPV6]" a1 x] a1 assms by auto
  obtain a3 where a3: "put_block a2 17 (store16 p) = Some a3" "take 19 a3 = HEV_SOCKS5_ADDR_TYPE_IPV6 # x @ store16 p"
    "length a3 = length a"
    using put_block_front [of "HEV_SOCKS5_ADDR_TYPE_IPV6 # x" a2 "store16 p"] a2 assms by auto
  then show ?thesis
    using a1 a2 assms by (simp add: hev_socks5_addr_from_ipv6_def get_block_def)
qed

lemma addr_from_name_enc:
  assumes s: "length s < 256" "0 \<notin> set s" and a: "length a = addr_size"
  shows "\<exists>a'. hev_socks5_addr_from_name a s p = Some (a', int (4 + length s))
    \<and> take (4 + length s) a' = enc_addr (Domain s p) \<and> length a' = length a"
proof -
  let ?n = "HEV_SOCKS5_ADDR_TYPE_NAME"
  obtain b c rest where abc: "a = b # c # rest" "length rest = 258"
    using a by (cases a; cases "tl a") (auto simp: addr_size_def)
  define pad where "pad = replicate (255 - length s) (0 :: byte) @ drop 256 rest"
  have "strncpy_bytes s 256 = s @ 0 # replicate (255 - length s) 0"
    using s by (simp add: strncpy_bytes_def Suc_diff_le flip: replicate_Suc)
  moreover have "length (strncpy_bytes s 256) = 256" using s by (simp add: strncpy_bytes_def)
  ultimately have 1: "put_block (?n # c # rest) 2 (strncpy_bytes s 256) = Some (?n # c # s @ 0 # pad)"
    using abc(2) by (simp add: put_block_def pad_def numeral_2_eq_2)
  have 2: "cstr_at (?n # c # s @ 0 # pad) 2 = Some s"
    using cstr_at_terminated [of s "[?n, c]" 2 pad] s by simp
  let ?l = "word_of_nat (length s) :: byte"
  have "length pad = 257 - length s" using s abc(2) by (simp add: pad_def)
  then obtain a' where 3: "put_block (?n # ?l # s @ 0 # pad) (2 + length s) (store16 p) = Some a'"
    "take (2 + length s + 2) a' = ?n # ?l # s @ store16 p" "length a' = 260"
    using put_block_front [of "?n # ?l # s" "?n # ?l # s @ 0 # pad" "store16 p"] s by auto
  have "put8 a 0 ?n = Some (?n # c # rest)" "put8 (?n # c # s @ 0 # pad) 1 ?l = Some (?n # ?l # s @ 0 # pad)"
    using abc(1) by (simp_all add: put8_def)
  then have "hev_socks5_addr_from_name a s p = Some (a', int (4 + length s))"
    using 1 2 3(1) s(1) by (simp add: hev_socks5_addr_from_name_def)
  moreover have "take (4 + length s) a' = enc_addr (Domain s p)"
  proof -
    have "2 + length s + 2 = 4 + length s" by simp
    then show ?thesis using 3(2) by (metis enc_addr.simps(3))
  qed
  ultimately show ?thesis using 3(3) a by (simp add: addr_size_def)
qed

lemma addr_from_enc:
  assumes "addr_ok x" "length a = addr_size"
  shows "\<exists>a'. addr_from a x = Some (a', int (length (enc_addr x))) \<and> take (length (enc_addr x)) a' = enc_addr x
    \<and> length a' = addr_size"
proof (cases x)
  case (IPv4 y p)
  then show ?thesis using addr_from_ipv4_enc [of y a p] assms by (simp add: addr_size_def)
next
  case (IPv6 y p)
  then show ?thesis using addr_from_ipv6_enc [of y a p] assms by (simp add: addr_size_def)
next
  case (Domain s p)
  moreover have "length (enc_addr (Domain s p)) = 4 + length s" by simp
  ultimately show ?thesis using addr_from_name_enc [of s a p] assms by (simp del: enc_addr.simps)
qed

section \<open>Into socket addresses and back\<close>

lemma into_sockaddr6_enc:
  "length x = 4 \<Longrightarrow> hev_socks5_addr_into_sockaddr6 R (enc_addr (IPv4 x p) @ xs) sa f =
     Some (sa\<lparr>sin6_family := AF_INET6, sin6_port := p, sin6_addr := v4mapped_prefix @ x\<rparr>, AF_INET, 0)"
  "length x = 16 \<Longrightarrow> hev_socks5_addr_into_sockaddr6 R (enc_addr (IPv6 x p) @ xs) sa f =
     Some (sa\<lparr>sin6_family := AF_INET6, sin6_port := p, sin6_addr := x\<rparr>, AF_INET6, 0)"
  "length s < 256 \<Longrightarrow> 0 \<notin> set s \<Longrightarrow> hev_socks5_addr_into_sockaddr6 R (enc_addr (Domain s p) @ xs) sa f =
     Some (hev_socks5_name_into_sockaddr6 R s (ntohs p) sa f)"
proof -
  show "length x = 4 \<Longrightarrow> hev_socks5_addr_into_sockaddr6 R (enc_addr (IPv4 x p) @ xs) sa f =
     Some (sa\<lparr>sin6_family := AF_INET6, sin6_port := p, sin6_addr := v4mapped_prefix @ x\<rparr>, AF_INET, 0)"
    by (simp add: hev_socks5_addr_into_sockaddr6_def hev_socks5_ipv4_into_sockaddr6_def get8_def get_block_def
        numeral_eq_Suc)
  show "length x = 16 \<Longrightarrow> hev_socks5_addr_into_sockaddr6 R (enc_addr (IPv6 x p) @ xs) sa f =
     Some (sa\<lparr>sin6_family := AF_INET6, sin6_port := p, sin6_addr := x\<rparr>, AF_INET6, 0)"
    by (simp add: hev_socks5_addr_into_sockaddr6_def hev_socks5_ipv6_into_sockaddr6_def get8_def get_block_def
        addr_types)
  assume s: "length s < 256" "0 \<notin> set s"
  then have tw: "takeWhile (\<lambda>c. c \<noteq> 0) s = s" by (auto simp: takeWhile_eq_all_conv)
  show "hev_socks5_addr_into_sockaddr6 R (enc_addr (Domain s p) @ xs) sa f =
     Some (hev_socks5_name_into_sockaddr6 R s (ntohs p) sa f)"
    using s(1) by (simp add: hev_socks5_addr_into_sockaddr6_def get8_def get_block_def addr_types tw)
qed

lemma from_sockaddr6_enc:
  assumes "length (sin6_addr sa) = 16" "19 \<le> length a"
  shows "IN6_IS_ADDR_V4MAPPED (sin6_addr sa) \<Longrightarrow> \<exists>a'. hev_socks5_addr_from_sockaddr6 a sa = Some (a', 7)
      \<and> take 7 a' = enc_addr (IPv4 (drop 12 (sin6_addr sa)) (sin6_port sa)) \<and> length a' = length a"
    and "\<not> IN6_IS_ADDR_V4MAPPED (sin6_addr sa) \<Longrightarrow> \<exists>a'. hev_socks5_addr_from_sockaddr6 a sa = Some (a', 19)
      \<and> take 19 a' = enc_addr (IPv6 (sin6_addr sa) (sin6_port sa)) \<and> length a' = length a"
proof -
  obtain b rest where a: "a = b # rest" "18 \<le> length rest" using assms(2) by (cases a) auto
  show "\<exists>a'. hev_socks5_addr_from_sockaddr6 a sa = Some (a', 7)
      \<and> take 7 a' = enc_addr (IPv4 (drop 12 (sin6_addr sa)) (sin6_port sa)) \<and> length a' = length a"
    if "IN6_IS_ADDR_V4MAPPED (sin6_addr sa)"
    using that assms a
    by (simp add: hev_socks5_addr_from_sockaddr6_def put8_def put_block_def get_block_def take_Cons' drop_Cons' min_def)
      arith
  show "\<exists>a'. hev_socks5_addr_from_sockaddr6 a sa = Some (a', 19)
      \<and> take 19 a' = enc_addr (IPv6 (sin6_addr sa) (sin6_port sa)) \<and> length a' = length a"
    if "\<not> IN6_IS_ADDR_V4MAPPED (sin6_addr sa)"
    using that assms a
    by (simp add: hev_socks5_addr_from_sockaddr6_def put8_def put_block_def get_block_def take_Cons' drop_Cons' min_def)
      arith
qed

section \<open>Properties\<close>

text \<open>
  C34. Each address constructor, given four bytes, sixteen bytes or a name of at most 255 bytes without a zero, and a struct of the declared size, stays inside it,
  writes exactly the wire form of the address, and returns the length of that form, which is what
  \<open>hev_socks5_addr_len\<close> computes from the struct. Longer names are not covered: their length wraps (\<open>addr_from_name_wraps\<close>).
\<close>

theorem socks_addr_encoded:
  assumes "addr_ok x" "length a = addr_size"
  shows "\<exists>a'. addr_from a x = Some (a', int (length (enc_addr x))) \<and> take (length (enc_addr x)) a' = enc_addr x
    \<and> length a' = addr_size \<and> hev_socks5_addr_len a' = Some (int (length (enc_addr x)))"
proof -
  obtain a' where a': "addr_from a x = Some (a', int (length (enc_addr x)))"
    "take (length (enc_addr x)) a' = enc_addr x" "length a' = addr_size"
    using addr_from_enc [OF assms] by blast
  then have "a' = enc_addr x @ drop (length (enc_addr x)) a'" by (metis append_take_drop_id)
  then have "hev_socks5_addr_len a' = Some (int (length (enc_addr x)))"
    using hev_socks5_addr_len_enc [OF assms(1)] by metis
  with a' show ?thesis by blast
qed

theorem socks_addr_encoded_witness:
  "\<exists>a'. addr_from (replicate 260 7) (Domain [97, 46, 98] 0x5000) = Some (a', 7)
    \<and> take 7 a' = enc_addr (Domain [97, 46, 98] 0x5000)"
proof -
  have "length (enc_addr (Domain [97, 46, 98] 0x5000)) = 7" by simp
  then show ?thesis
    using socks_addr_encoded [of "Domain [97, 46, 98] 0x5000" "replicate 260 7"]
    by (auto simp: addr_size_def simp del: enc_addr.simps)
qed

text \<open>
  C33. Socket addresses survive the trip over the wire: the bytes that \<open>hev_socks5_addr_from_sockaddr6\<close>
  writes for a socket address are read back by \<open>hev_socks5_addr_into_sockaddr6\<close> as the same port and the
  same 16 address bytes, IPv4-mapped addresses included, whatever follows them in the buffer.
\<close>

theorem sockaddr_roundtrip:
  assumes "length (sin6_addr sa) = 16" "length a = addr_size"
  shows "\<exists>a' n fam. hev_socks5_addr_from_sockaddr6 a sa = Some (a', n)
    \<and> hev_socks5_addr_into_sockaddr6 R (take (nat n) a' @ xs) sa0 f =
        Some (sa0\<lparr>sin6_family := AF_INET6, sin6_port := sin6_port sa, sin6_addr := sin6_addr sa\<rparr>, fam, 0)
    \<and> fam = (if IN6_IS_ADDR_V4MAPPED (sin6_addr sa) then AF_INET else AF_INET6)"
proof (cases "IN6_IS_ADDR_V4MAPPED (sin6_addr sa)")
  case True
  then have "v4mapped_prefix @ drop 12 (sin6_addr sa) = sin6_addr sa"
    by (metis IN6_IS_ADDR_V4MAPPED_def append_take_drop_id)
  then show ?thesis
    using from_sockaddr6_enc(1) [OF assms(1) _ True, of a] assms True
      into_sockaddr6_enc(1) [of "drop 12 (sin6_addr sa)" R "sin6_port sa" xs sa0 f]
    by (auto simp: addr_size_def simp del: enc_addr.simps)
next
  case False
  then show ?thesis
    using from_sockaddr6_enc(2) [OF assms(1) _ False, of a] assms
      into_sockaddr6_enc(2) [OF assms(1), of R "sin6_port sa" xs sa0 f]
    by (auto simp: addr_size_def simp del: enc_addr.simps)
qed

theorem sockaddr_roundtrip_witness:
  "\<exists>a' n fam. hev_socks5_addr_from_sockaddr6 (replicate 260 0)
       \<lparr>sin6_family = AF_INET6, sin6_port = 0x5000, sin6_addr = v4mapped_prefix @ [10, 0, 0, 1]\<rparr> = Some (a', n)
    \<and> hev_socks5_addr_into_sockaddr6 \<lparr>pton4 = (\<lambda>_. None), pton6 = (\<lambda>_. None), getaddrinfo = (\<lambda>_ _. None)\<rparr>
        (take (nat n) a' @ []) \<lparr>sin6_family = AF_UNSPEC, sin6_port = 0, sin6_addr = []\<rparr> AF_UNSPEC
      = Some (\<lparr>sin6_family = AF_INET6, sin6_port = 0x5000, sin6_addr = v4mapped_prefix @ [10, 0, 0, 1]\<rparr>, fam, 0)"
  using sockaddr_roundtrip [of "\<lparr>sin6_family = AF_INET6, sin6_port = 0x5000, sin6_addr = v4mapped_prefix @ [10, 0, 0, 1]\<rparr>"
      "replicate 260 0" "\<lparr>pton4 = (\<lambda>_. None), pton6 = (\<lambda>_. None), getaddrinfo = (\<lambda>_ _. None)\<rparr>" "[]"
      "\<lparr>sin6_family = AF_UNSPEC, sin6_port = 0, sin6_addr = []\<rparr>" AF_UNSPEC]
  by (auto simp: addr_size_def v4mapped_prefix_def)

text \<open>
  A name of 256 bytes is not encoded: in a zeroed struct its length wraps to 0, the port is stored
  over the first two bytes of the name and the returned length is 4, so the name is lost.
\<close>

theorem addr_from_name_wraps:
  assumes "length s = 256" "0 \<notin> set s"
  shows "\<exists>a'. hev_socks5_addr_from_name (replicate addr_size 0) s p = Some (a', 4)
    \<and> take 4 a' = enc_addr (Domain [] p)"
proof -
  have "put8 (replicate addr_size 0) 0 HEV_SOCKS5_ADDR_TYPE_NAME = Some (HEV_SOCKS5_ADDR_TYPE_NAME # replicate 259 0)"
    by (simp add: put8_def addr_size_def numeral_eq_Suc)
  moreover have "put_block (HEV_SOCKS5_ADDR_TYPE_NAME # replicate 259 0) 2 (strncpy_bytes s 256)
      = Some (HEV_SOCKS5_ADDR_TYPE_NAME # 0 # s @ [0, 0])"
    using assms(1) by (simp add: put_block_def strncpy_bytes_def numeral_eq_Suc)
  moreover have "cstr_at (HEV_SOCKS5_ADDR_TYPE_NAME # 0 # s @ [0, 0]) 2 = Some s"
    using cstr_at_terminated [of s "[HEV_SOCKS5_ADDR_TYPE_NAME, 0]" 2 "[0]"] assms by simp
  moreover have "(word_of_nat (length s) :: byte) = 0"
    using assms(1) by (simp add: word_eq_iff_unsigned unsigned_of_nat take_bit_eq_mod)
  moreover have "put8 (HEV_SOCKS5_ADDR_TYPE_NAME # 0 # s @ [0, 0]) 1 0 = Some (HEV_SOCKS5_ADDR_TYPE_NAME # 0 # s @ [0, 0])"
    by (simp add: put8_def)
  moreover obtain a' where "put_block (HEV_SOCKS5_ADDR_TYPE_NAME # 0 # s @ [0, 0]) 2 (store16 p) = Some a'"
    "take 4 a' = HEV_SOCKS5_ADDR_TYPE_NAME # 0 # store16 p"
    using put_block_front [of "[HEV_SOCKS5_ADDR_TYPE_NAME, 0]" "HEV_SOCKS5_ADDR_TYPE_NAME # 0 # s @ [0, 0]" "store16 p"]
    by (auto simp: numeral_eq_Suc)
  ultimately show ?thesis by (simp add: hev_socks5_addr_from_name_def numeral_2_eq_2)
qed

theorem addr_from_name_wraps_witness:
  "\<exists>a'. hev_socks5_addr_from_name (replicate addr_size 0) (replicate 256 97) 0x5000 = Some (a', 4)
    \<and> take 4 a' = enc_addr (Domain [] 0x5000)"
  by (rule addr_from_name_wraps) auto

end
