(* ===== verification/Socks5_Base.thy ===== *)
theory Socks5_Base
  imports Task_IO Socks5_Addr
begin

text \<open>
  What the SOCKS client and server share: the object \<open>HevSocks5\<close> (\<open>hev-socks5.c\<close>), the settings and
  the socket constructor of \<open>hev-socks5-misc.c\<close>, and the part of the system they act on. The system
  is the stream of the connection together with the open descriptors, the descriptors the task
  polls, the number of heap blocks, and a script of the results of the system calls to come, of
  which only the sign matters.
\<close>

section \<open>Settings\<close>

record socks5_settings =
  connect_timeout :: int
  tcp_timeout :: int
  udp_timeout :: int
  task_stack_size :: int
  udp_recv_buffer_size :: int
  udp_copy_buffer_nums :: int

definition socks5_defaults :: socks5_settings where
  "socks5_defaults = \<lparr>connect_timeout = 10000, tcp_timeout = 300000, udp_timeout = 60000,
     task_stack_size = 8192, udp_recv_buffer_size = 512 * 1024, udp_copy_buffer_nums = 10\<rparr>"

section \<open>The system\<close>

record sys = stream +
  settings :: socks5_settings
  sysres :: "int list"
  open_fds :: "int list"
  polled :: "int list"
  blocks :: int

definition hev_socks5_set_connect_timeout :: "int \<Rightarrow> sys \<Rightarrow> sys" where
  "hev_socks5_set_connect_timeout t w = w\<lparr>settings := (settings w)\<lparr>connect_timeout := t\<rparr>\<rparr>"

definition hev_socks5_get_connect_timeout :: "sys \<Rightarrow> int" where
  "hev_socks5_get_connect_timeout w = connect_timeout (settings w)"

definition hev_socks5_set_tcp_timeout :: "int \<Rightarrow> sys \<Rightarrow> sys" where
  "hev_socks5_set_tcp_timeout t w = w\<lparr>settings := (settings w)\<lparr>tcp_timeout := t\<rparr>\<rparr>"

definition hev_socks5_get_tcp_timeout :: "sys \<Rightarrow> int" where
  "hev_socks5_get_tcp_timeout w = tcp_timeout (settings w)"

definition hev_socks5_set_udp_timeout :: "int \<Rightarrow> sys \<Rightarrow> sys" where
  "hev_socks5_set_udp_timeout t w = w\<lparr>settings := (settings w)\<lparr>udp_timeout := t\<rparr>\<rparr>"

definition hev_socks5_get_udp_timeout :: "sys \<Rightarrow> int" where
  "hev_socks5_get_udp_timeout w = udp_timeout (settings w)"

definition hev_socks5_set_task_stack_size :: "int \<Rightarrow> sys \<Rightarrow> sys" where
  "hev_socks5_set_task_stack_size n w = w\<lparr>settings := (settings w)\<lparr>task_stack_size := n\<rparr>\<rparr>"

definition hev_socks5_get_task_stack_size :: "sys \<Rightarrow> int" where
  "hev_socks5_get_task_stack_size w = task_stack_size (settings w)"

definition hev_socks5_set_udp_recv_buffer_size :: "int \<Rightarrow> sys \<Rightarrow> sys" where
  "hev_socks5_set_udp_recv_buffer_size n w = w\<lparr>settings := (settings w)\<lparr>udp_recv_buffer_size := n\<rparr>\<rparr>"

definition hev_socks5_set_udp_copy_buffer_nums :: "int \<Rightarrow> sys \<Rightarrow> sys" where
  "hev_socks5_set_udp_copy_buffer_nums n w = w\<lparr>settings := (settings w)\<lparr>udp_copy_buffer_nums := n\<rparr>\<rparr>"

definition hev_socks5_get_udp_copy_buffer_nums :: "sys \<Rightarrow> int" where
  "hev_socks5_get_udp_copy_buffer_nums w = udp_copy_buffer_nums (settings w)"

lemmas settings_defs =
  hev_socks5_set_connect_timeout_def hev_socks5_get_connect_timeout_def hev_socks5_set_tcp_timeout_def
  hev_socks5_get_tcp_timeout_def hev_socks5_set_udp_timeout_def hev_socks5_get_udp_timeout_def
  hev_socks5_set_task_stack_size_def hev_socks5_get_task_stack_size_def hev_socks5_set_udp_recv_buffer_size_def
  hev_socks5_set_udp_copy_buffer_nums_def hev_socks5_get_udp_copy_buffer_nums_def

section \<open>System calls\<close>

text \<open>The next result of the script; a script that is used up succeeds.\<close>

definition next_res :: "sys \<Rightarrow> int \<times> sys" where
  "next_res w = (case sysres w of [] \<Rightarrow> (0, w) | r # rs \<Rightarrow> (r, w\<lparr>sysres := rs\<rparr>))"

text \<open>A new descriptor is the lowest one that is not open.\<close>

definition fresh_fd :: "int list \<Rightarrow> int" where
  "fresh_fd fds = hd (filter (\<lambda>i. i \<notin> set fds) (map int [0..<Suc (length fds)]))"

definition sys_socket :: "sys \<Rightarrow> int \<times> sys" where
  "sys_socket w = (let (r, w) = next_res w in
     if r < 0 then (-1, w)
     else (fresh_fd (open_fds w), w\<lparr>open_fds := fresh_fd (open_fds w) # open_fds w\<rparr>))"

definition sys_close :: "int \<Rightarrow> sys \<Rightarrow> sys" where
  "sys_close fd w = w\<lparr>open_fds := removeAll fd (open_fds w)\<rparr>"

definition hev_task_add_fd :: "int \<Rightarrow> sys \<Rightarrow> int \<times> sys" where
  "hev_task_add_fd fd w = (let (r, w) = next_res w in
     if r < 0 then (-1, w) else (0, w\<lparr>polled := fd # polled w\<rparr>))"

definition hev_task_del_fd :: "int \<Rightarrow> sys \<Rightarrow> sys" where
  "hev_task_del_fd fd w = w\<lparr>polled := removeAll fd (polled w)\<rparr>"

datatype sock_type = SOCK_STREAM | SOCK_DGRAM

text \<open>
  \<open>hev_socks5_socket\<close>: the results of \<open>hev_task_mod_fd\<close>, which only changes the events of a polled
  descriptor, and of the second \<open>setsockopt\<close> are not tested.
\<close>

definition hev_socks5_socket :: "sock_type \<Rightarrow> sys \<Rightarrow> int \<times> sys" where
  "hev_socks5_socket ty w =
     (let (fd, w) = sys_socket w in
      if fd < 0 then (-1, w)
      else let (res, w) = next_res w in
      if res < 0 then (-1, sys_close fd w)
      else let (res, w) = hev_task_add_fd fd w;
               w = (if ty = SOCK_DGRAM then snd (next_res w) else w) in
        (fd, w))"

text \<open>\<open>hev_task_del_fd\<close> followed by \<open>close\<close>, the end of every error path that owns a socket.\<close>

definition drop_fd :: "int \<Rightarrow> sys \<Rightarrow> sys" where
  "drop_fd fd w = sys_close fd (hev_task_del_fd fd w)"

datatype yield_type = HEV_TASK_YIELD | HEV_TASK_WAITIO

text \<open>\<open>sleep t\<close> is what \<open>hev_task_sleep\<close> returns, the time that is left when the task is woken.\<close>

definition hev_socks5_task_io_yielder :: "(int \<Rightarrow> int) \<Rightarrow> yield_type \<Rightarrow> int \<Rightarrow> int" where
  "hev_socks5_task_io_yielder sleep ty tmo =
     (if ty = HEV_TASK_YIELD then 0
      else if tmo < 0 then 0
      else if sleep tmo \<le> 0 then -1
      else 0)"

section \<open>The object\<close>

datatype socks5_type =
  HEV_SOCKS5_TYPE_NONE | HEV_SOCKS5_TYPE_TCP | HEV_SOCKS5_TYPE_UDP_IN_TCP | HEV_SOCKS5_TYPE_UDP_IN_UDP

record hev_socks5 =
  s5_fd :: int
  s5_timeout :: int
  s5_udp_associated :: int
  s5_type :: socks5_type
  s5_addr_family :: family

definition hev_socks5_get_timeout :: "'a hev_socks5_scheme \<Rightarrow> int" where
  "hev_socks5_get_timeout self = s5_timeout self"

definition hev_socks5_set_timeout :: "'a hev_socks5_scheme \<Rightarrow> int \<Rightarrow> 'a hev_socks5_scheme" where
  "hev_socks5_set_timeout self t = self\<lparr>s5_timeout := t\<rparr>"

definition hev_socks5_get_addr_family :: "'a hev_socks5_scheme \<Rightarrow> family" where
  "hev_socks5_get_addr_family self = s5_addr_family self"

definition hev_socks5_set_addr_family :: "'a hev_socks5_scheme \<Rightarrow> family \<Rightarrow> 'a hev_socks5_scheme" where
  "hev_socks5_set_addr_family self f = self\<lparr>s5_addr_family := f\<rparr>"

lemmas socks5_access = hev_socks5_get_timeout_def hev_socks5_set_timeout_def hev_socks5_get_addr_family_def
  hev_socks5_set_addr_family_def

definition hev_socks5_bind :: "'a \<Rightarrow> int \<Rightarrow> sockaddr_in6 \<Rightarrow> sys \<Rightarrow> int \<times> sys" where
  "hev_socks5_bind self sock dest w = (0, w)"

definition hev_socks5_construct :: "'a hev_socks5_scheme \<Rightarrow> socks5_type \<Rightarrow> 'a hev_socks5_scheme \<times> int" where
  "hev_socks5_construct self ty =
     (self\<lparr>s5_fd := -1, s5_timeout := -1, s5_type := ty, s5_addr_family := AF_UNSPEC\<rparr>, 0)"

definition hev_socks5_destruct :: "'a hev_socks5_scheme \<Rightarrow> sys \<Rightarrow> sys" where
  "hev_socks5_destruct self w =
     (let w = (if s5_fd self \<ge> 0 then drop_fd (s5_fd self) w else w) in w\<lparr>blocks := blocks w - 1\<rparr>)"

section \<open>Descriptors\<close>

lemma fresh_fd_new: "fresh_fd fds \<notin> set fds \<and> 0 \<le> fresh_fd fds"
proof -
  let ?c = "map int [0..<Suc (length fds)]"
  have "distinct ?c" by (auto simp: distinct_map inj_on_def)
  from distinct_card [OF this] have "card (set ?c) = Suc (length fds)" by (simp only: length_map length_upt diff_zero)
  then have "card (set fds) < card (set ?c)" using card_length [of fds] by linarith
  then have "\<not> set ?c \<subseteq> set fds"
    by (meson List.finite_set card_mono not_le)
  then have "filter (\<lambda>i. i \<notin> set fds) ?c \<noteq> []" by (auto simp: filter_empty_conv)
  then have "fresh_fd fds \<in> set (filter (\<lambda>i. i \<notin> set fds) ?c)"
    unfolding fresh_fd_def by (rule hd_in_set)
  then have "fresh_fd fds \<in> set ?c \<and> fresh_fd fds \<notin> set fds" unfolding set_filter by blast
  then show ?thesis by auto
qed

text \<open>
  \<open>fds_grow w w' F\<close>: between two states exactly the descriptors \<open>F\<close>, none of them open before, were
  opened and not closed, no closed descriptor remains polled, and a descriptor that was open and polled
  before still is.
\<close>

definition fds_grow :: "sys \<Rightarrow> sys \<Rightarrow> int set \<Rightarrow> bool" where
  "fds_grow w w' F \<longleftrightarrow> set (open_fds w') = set (open_fds w) \<union> F \<and> F \<inter> set (open_fds w) = {}
     \<and> set (polled w') \<subseteq> set (polled w) \<union> F \<and> set (polled w) \<inter> set (open_fds w) \<subseteq> set (polled w')
     \<and> (\<forall>f\<in>F. 0 \<le> f)"

lemma fds_grow_refl: "set (open_fds w') = set (open_fds w) \<Longrightarrow> set (polled w') = set (polled w) \<Longrightarrow> fds_grow w w' {}"
  by (auto simp: fds_grow_def)

lemma fds_grow_trans: "fds_grow w1 w2 F \<Longrightarrow> fds_grow w2 w3 G \<Longrightarrow> fds_grow w1 w3 (F \<union> G)"
  by (auto simp: fds_grow_def)

lemma fds_grow_drop: "fds_grow w w' (insert fd F) \<Longrightarrow> fd \<notin> F \<Longrightarrow> fds_grow w (drop_fd fd w') F"
  by (auto simp: fds_grow_def drop_fd_def sys_close_def hev_task_del_fd_def)

lemma next_res_keeps [simp]:
  "open_fds (snd (next_res w)) = open_fds w" "polled (snd (next_res w)) = polled w"
  "sent (snd (next_res w)) = sent w" "rx (snd (next_res w)) = rx w" "tx (snd (next_res w)) = tx w"
  "settings (snd (next_res w)) = settings w" "blocks (snd (next_res w)) = blocks w"
  by (auto simp: next_res_def split: list.splits)

lemma hev_socks5_socket_grows:
  assumes "hev_socks5_socket ty w = (fd, w')"
  shows "if fd < 0 then fd = -1 \<and> fds_grow w w' {} else fds_grow w w' {fd}"
    and "sent w' = sent w" "rx w' = rx w" "tx w' = tx w" "settings w' = settings w" "blocks w' = blocks w"
  using assms fresh_fd_new [of "open_fds w"]
  by (auto simp: hev_socks5_socket_def sys_socket_def hev_task_add_fd_def sys_close_def Let_def case_prod_beta
      fds_grow_def split: if_splits)

end
