(* ===== verification/Socks5_Client.thy ===== *)
theory Socks5_Client
  imports Socks5_Base
begin

text \<open>
  The SOCKS client (\<open>hev-socks5-client.c\<close>) and its two subclasses (\<open>hev-socks5-client-tcp.c\<close>,
  \<open>hev-socks5-client-udp.c\<close>). The handshake is written once over the methods of the class, as in the
  code; \<open>None\<close> is a fault. Shown here: what the client sends and what it accepts, in both modes, and
  that a pipelined handshake that succeeds exchanges the same bytes as the standard one.
\<close>

section \<open>The object and its class\<close>

record hev_socks5_client = hev_socks5 +
  auth_user :: "byte list option"
  auth_pass :: "byte list option"

record 'c client_class =
  get_upstream_addr :: "'c \<Rightarrow> sys \<Rightarrow> byte list option \<times> 'c \<times> sys"
  set_upstream_addr :: "'c \<Rightarrow> byte list \<Rightarrow> sys \<Rightarrow> (int \<times> 'c \<times> sys) option"
  klass_binder :: "'c \<Rightarrow> int \<Rightarrow> sockaddr_in6 \<Rightarrow> sys \<Rightarrow> int \<times> sys"

definition hev_socks5_client_construct ::
  "'a hev_socks5_client_scheme \<Rightarrow> socks5_type \<Rightarrow> 'a hev_socks5_client_scheme \<times> int" where
  "hev_socks5_client_construct self ty =
     (let (self, res) = hev_socks5_construct self ty in if res < 0 then (self, res) else (self, 0))"

definition hev_socks5_client_destruct :: "'a hev_socks5_client_scheme \<Rightarrow> sys \<Rightarrow> sys" where
  "hev_socks5_client_destruct self w = hev_socks5_destruct self w"

definition hev_socks5_client_set_auth ::
  "'a hev_socks5_client_scheme \<Rightarrow> byte list option \<Rightarrow> byte list option \<Rightarrow> 'a hev_socks5_client_scheme" where
  "hev_socks5_client_set_auth self user pass = self\<lparr>auth_user := user, auth_pass := pass\<rparr>"

section \<open>Messages\<close>

definition hev_socks5_client_write_auth_methods :: "'a hev_socks5_client_scheme \<Rightarrow> sys \<Rightarrow> int \<times> sys" where
  "hev_socks5_client_write_auth_methods self w =
     (let m = (if auth_user self = None \<or> auth_pass self = None then 0 else 2);
          (res, w) = hev_task_io_socket_send w [5, 1, m] in
      if res \<le> 0 then (-1, w) else (0, w))"

text \<open>The lengths of the user name and the password are stored in one byte each.\<close>

definition hev_socks5_client_write_auth_creds :: "'a hev_socks5_client_scheme \<Rightarrow> sys \<Rightarrow> int \<times> sys" where
  "hev_socks5_client_write_auth_creds self w =
     (case (auth_user self, auth_pass self) of
        (Some user, Some pass) \<Rightarrow>
          (let ub1 = (word_of_nat (length user) :: byte); ub2 = (word_of_nat (length pass) :: byte);
               (res, w) = hev_task_io_socket_sendmsg w
                 [[1, ub1], take (unat ub1) user, [ub2], take (unat ub2) pass] in
           if res \<le> 0 then (-1, w) else (0, w))
      | _ \<Rightarrow> (0, w))"

definition req_cmd :: "socks5_type \<Rightarrow> byte option" where
  "req_cmd ty = (case ty of
      HEV_SOCKS5_TYPE_TCP \<Rightarrow> Some 1
    | HEV_SOCKS5_TYPE_UDP_IN_TCP \<Rightarrow> Some 5
    | HEV_SOCKS5_TYPE_UDP_IN_UDP \<Rightarrow> Some 3
    | HEV_SOCKS5_TYPE_NONE \<Rightarrow> None)"

text \<open>
  The request takes the address out of the object, which faults when there is none, and frees it
  after it was sent, but on no other path.
\<close>

definition hev_socks5_client_write_request ::
  "'a hev_socks5_client_scheme client_class \<Rightarrow> 'a hev_socks5_client_scheme \<Rightarrow> sys
    \<Rightarrow> (int \<times> 'a hev_socks5_client_scheme \<times> sys) option" where
  "hev_socks5_client_write_request klass self w =
     (case req_cmd (s5_type self) of
        None \<Rightarrow> Some (-1, self, w)
      | Some cmd \<Rightarrow> do {
          let (p, self, w) = get_upstream_addr klass self w;
          addr \<leftarrow> p;
          addrlen \<leftarrow> hev_socks5_addr_len addr;
          if addrlen < 0 then Some (-1, self, w)
          else do {
            b \<leftarrow> get_block addr 0 (nat addrlen);
            let (ret, w) = hev_task_io_socket_sendmsg w [[5, cmd, 0], b];
            if ret \<le> 0 then Some (-1, self, w)
            else Some (0, self, w\<lparr>blocks := blocks w - 1\<rparr>) } })"

definition hev_socks5_client_read_auth_method :: "sys \<Rightarrow> int \<times> sys" where
  "hev_socks5_client_read_auth_method w =
     (let (res, buf, w) = hev_task_io_socket_recv w 2 in
      if res \<noteq> 2 then (-1, w)
      else if buf ! 0 \<noteq> 5 then (-1, w)
      else (uint (buf ! 1), w))"

definition hev_socks5_client_read_auth_creds :: "sys \<Rightarrow> int \<times> sys" where
  "hev_socks5_client_read_auth_creds w =
     (let (res, buf, w) = hev_task_io_socket_recv w 2 in
      if res \<noteq> 2 then (-1, w)
      else if buf ! 0 \<noteq> 1 then (-1, w)
      else if buf ! 1 \<noteq> 0 then (-1, w)
      else (0, w))"

definition hev_socks5_client_read_response ::
  "'a hev_socks5_client_scheme client_class \<Rightarrow> 'a hev_socks5_client_scheme \<Rightarrow> sys
    \<Rightarrow> (int \<times> 'a hev_socks5_client_scheme \<times> sys) option" where
  "hev_socks5_client_read_response klass self w =
     (let (ret, buf, w) = hev_task_io_socket_recv w 4 in
      if ret \<noteq> 4 then Some (-1, self, w)
      else if buf ! 0 \<noteq> 5 then Some (-1, self, w)
      else if buf ! 1 \<noteq> 0 then Some (-1, self, w)
      else if buf ! 3 \<noteq> HEV_SOCKS5_ADDR_TYPE_IPV4 \<and> buf ! 3 \<noteq> HEV_SOCKS5_ADDR_TYPE_IPV6 then Some (-1, self, w)
      else let addrlen = (if buf ! 3 = HEV_SOCKS5_ADDR_TYPE_IPV4 then 6 else 18);
               (ret, addr, w) = hev_task_io_socket_recv w addrlen in
      if ret \<noteq> int addrlen then Some (-1, self, w)
      else do {
        (ret, self, w) \<leftarrow> set_upstream_addr klass self (buf ! 3 # addr) w;
        Some (if ret < 0 then -1 else 0, self, w) })"

section \<open>Connecting and shaking hands\<close>

definition hev_socks5_client_connect ::
  "resolver \<Rightarrow> 'a hev_socks5_client_scheme client_class \<Rightarrow> sockaddr_in6 \<Rightarrow> 'a hev_socks5_client_scheme
    \<Rightarrow> byte list \<Rightarrow> u16 \<Rightarrow> sys \<Rightarrow> int \<times> 'a hev_socks5_client_scheme \<times> sys" where
  "hev_socks5_client_connect R klass saddr self addr port w =
     (let self = hev_socks5_set_timeout self (hev_socks5_get_connect_timeout w);
          (saddr, fam, res) = hev_socks5_name_into_sockaddr6 R addr port saddr (hev_socks5_get_addr_family self) in
      if res < 0 then (-1, self, w)
      else let (fd, w) = hev_socks5_socket SOCK_STREAM w in
      if fd < 0 then (-1, self, w)
      else let (res, w) = klass_binder klass self fd saddr w in
      if res < 0 then (-1, self, drop_fd fd w)
      else let (res, w) = next_res w in
      if res < 0 then (-1, self, drop_fd fd w)
      else (0, hev_socks5_set_addr_family (self\<lparr>s5_fd := fd\<rparr>) fam, w))"

definition hev_socks5_client_handshake_standard ::
  "'a hev_socks5_client_scheme client_class \<Rightarrow> 'a hev_socks5_client_scheme \<Rightarrow> sys
    \<Rightarrow> (int \<times> 'a hev_socks5_client_scheme \<times> sys) option" where
  "hev_socks5_client_handshake_standard klass self w =
     (let (res, w) = hev_socks5_client_write_auth_methods self w in
      if res < 0 then Some (-1, self, w)
      else let (res, w) = hev_socks5_client_read_auth_method w in
      if res < 0 then Some (-1, self, w)
      else let (ok, w) =
             (if res = 2 then
                (let (res, w) = hev_socks5_client_write_auth_creds self w in
                 if res < 0 then (False, w)
                 else let (res, w) = hev_socks5_client_read_auth_creds w in (\<not> res < 0, w))
              else (res = 0, w)) in
      if \<not> ok then Some (-1, self, w)
      else do {
        (res, self, w) \<leftarrow> hev_socks5_client_write_request klass self w;
        if res < 0 then Some (-1, self, w)
        else do {
          (res, self, w) \<leftarrow> hev_socks5_client_read_response klass self w;
          Some (if res < 0 then -1 else 0, self, w) } })"

definition hev_socks5_client_handshake_pipeline ::
  "'a hev_socks5_client_scheme client_class \<Rightarrow> 'a hev_socks5_client_scheme \<Rightarrow> sys
    \<Rightarrow> (int \<times> 'a hev_socks5_client_scheme \<times> sys) option" where
  "hev_socks5_client_handshake_pipeline klass self w =
     (let (res, w) = hev_socks5_client_write_auth_methods self w in
      if res < 0 then Some (-1, self, w)
      else let (res, w) = hev_socks5_client_write_auth_creds self w in
      if res < 0 then Some (-1, self, w)
      else do {
        (res, self, w) \<leftarrow> hev_socks5_client_write_request klass self w;
        if res < 0 then Some (-1, self, w)
        else let (res, w) = hev_socks5_client_read_auth_method w in
        if res < 0 then Some (-1, self, w)
        else let (ok, w) =
               (if res = 2 then (let (res, w) = hev_socks5_client_read_auth_creds w in (\<not> res < 0, w))
                else (res = 0, w)) in
        if \<not> ok then Some (-1, self, w)
        else do {
          (res, self, w) \<leftarrow> hev_socks5_client_read_response klass self w;
          Some (if res < 0 then -1 else 0, self, w) } })"

definition hev_socks5_client_handshake ::
  "'a hev_socks5_client_scheme client_class \<Rightarrow> 'a hev_socks5_client_scheme \<Rightarrow> bool \<Rightarrow> sys
    \<Rightarrow> (int \<times> 'a hev_socks5_client_scheme \<times> sys) option" where
  "hev_socks5_client_handshake klass self pipeline w = do {
     let self = hev_socks5_set_timeout self (hev_socks5_get_tcp_timeout w);
     (res, self, w) \<leftarrow>
       (if pipeline then hev_socks5_client_handshake_pipeline klass self w
        else hev_socks5_client_handshake_standard klass self w);
     let self = (if s5_type self = HEV_SOCKS5_TYPE_UDP_IN_TCP \<or> s5_type self = HEV_SOCKS5_TYPE_UDP_IN_UDP
       then hev_socks5_set_timeout self (hev_socks5_get_udp_timeout w) else self);
     Some (res, self, w) }"

section \<open>The TCP client\<close>

record hev_socks5_client_tcp = hev_socks5_client +
  ct_addr :: "byte list option"

definition client_tcp_zero :: hev_socks5_client_tcp where
  "client_tcp_zero = \<lparr>s5_fd = 0, s5_timeout = 0, s5_udp_associated = 0, s5_type = HEV_SOCKS5_TYPE_NONE,
     s5_addr_family = AF_UNSPEC, auth_user = None, auth_pass = None, ct_addr = None\<rparr>"

definition hev_malloc :: "sys \<Rightarrow> bool \<times> sys" where
  "hev_malloc w = (let (r, w) = next_res w in if r < 0 then (False, w) else (True, w\<lparr>blocks := blocks w + 1\<rparr>))"

definition hev_free :: "sys \<Rightarrow> sys" where
  "hev_free w = w\<lparr>blocks := blocks w - 1\<rparr>"

text \<open>A request for a negative number of bytes, which is a huge unsigned one, fails.\<close>

definition hev_socks5_client_tcp_construct ::
  "hev_socks5_client_tcp \<Rightarrow> byte list \<Rightarrow> sys \<Rightarrow> (int \<times> hev_socks5_client_tcp \<times> sys) option" where
  "hev_socks5_client_tcp_construct self addr w =
     (let (self, res) = hev_socks5_client_construct self HEV_SOCKS5_TYPE_TCP in
      if res < 0 then Some (res, self, w)
      else do {
        res \<leftarrow> hev_socks5_addr_len addr;
        let (ok, w) = (if res < 0 then (False, w) else hev_malloc w);
        if \<not> ok then Some (-1, self\<lparr>ct_addr := None\<rparr>, w)
        else do {
          b \<leftarrow> get_block addr 0 (nat res);
          Some (0, self\<lparr>ct_addr := Some b\<rparr>, w) } })"

definition client_tcp_new ::
  "(byte list \<Rightarrow> (byte list \<times> int) option) \<Rightarrow> byte list \<Rightarrow> sys \<Rightarrow> (hev_socks5_client_tcp option \<times> sys) option" where
  "client_tcp_new from_addr stack w =
     (let (ok, w) = hev_malloc w in
      if \<not> ok then Some (None, w)
      else do {
        (addr, _) \<leftarrow> from_addr stack;
        (res, self, w) \<leftarrow> hev_socks5_client_tcp_construct client_tcp_zero addr w;
        if res < 0 then Some (None, hev_free w) else Some (Some self, w) })"

text \<open>The three constructors; \<open>stack\<close> is what the local \<open>addr\<close> holds before it is written.\<close>

definition hev_socks5_client_tcp_new_name where
  "hev_socks5_client_tcp_new_name name port = client_tcp_new (\<lambda>a. hev_socks5_addr_from_name a name port)"

definition hev_socks5_client_tcp_new_ipv4 where
  "hev_socks5_client_tcp_new_ipv4 ipv4 port = client_tcp_new (\<lambda>a. hev_socks5_addr_from_ipv4 a ipv4 port)"

definition hev_socks5_client_tcp_new_ipv6 where
  "hev_socks5_client_tcp_new_ipv6 ipv6 port = client_tcp_new (\<lambda>a. hev_socks5_addr_from_ipv6 a ipv6 port)"

definition hev_socks5_client_tcp_get_upstream_addr ::
  "hev_socks5_client_tcp \<Rightarrow> sys \<Rightarrow> byte list option \<times> hev_socks5_client_tcp \<times> sys" where
  "hev_socks5_client_tcp_get_upstream_addr self w = (ct_addr self, self\<lparr>ct_addr := None\<rparr>, w)"

definition hev_socks5_client_tcp_set_upstream_addr ::
  "hev_socks5_client_tcp \<Rightarrow> byte list \<Rightarrow> sys \<Rightarrow> (int \<times> hev_socks5_client_tcp \<times> sys) option" where
  "hev_socks5_client_tcp_set_upstream_addr self addr w = Some (0, self, w)"

definition hev_socks5_client_tcp_destruct :: "hev_socks5_client_tcp \<Rightarrow> sys \<Rightarrow> sys" where
  "hev_socks5_client_tcp_destruct self w =
     hev_socks5_client_destruct self (if ct_addr self \<noteq> None then hev_free w else w)"

definition hev_socks5_client_tcp_class :: "hev_socks5_client_tcp client_class" where
  "hev_socks5_client_tcp_class = \<lparr>get_upstream_addr = hev_socks5_client_tcp_get_upstream_addr,
     set_upstream_addr = hev_socks5_client_tcp_set_upstream_addr, klass_binder = hev_socks5_bind\<rparr>"

section \<open>The UDP client\<close>

record hev_socks5_client_udp = hev_socks5_client +
  cu_fd :: int

definition client_udp_zero :: hev_socks5_client_udp where
  "client_udp_zero = \<lparr>s5_fd = 0, s5_timeout = 0, s5_udp_associated = 0, s5_type = HEV_SOCKS5_TYPE_NONE,
     s5_addr_family = AF_UNSPEC, auth_user = None, auth_pass = None, cu_fd = 0\<rparr>"

definition hev_socks5_client_udp_construct ::
  "hev_socks5_client_udp \<Rightarrow> socks5_type \<Rightarrow> int \<times> hev_socks5_client_udp" where
  "hev_socks5_client_udp_construct self ty =
     (let (self, res) = hev_socks5_client_construct self ty in
      if res < 0 then (res, self) else (0, self\<lparr>cu_fd := -1\<rparr>))"

definition hev_socks5_client_udp_new :: "socks5_type \<Rightarrow> sys \<Rightarrow> hev_socks5_client_udp option \<times> sys" where
  "hev_socks5_client_udp_new ty w =
     (let (ok, w) = hev_malloc w in
      if \<not> ok then (None, w)
      else let (res, self) = hev_socks5_client_udp_construct client_udp_zero ty in
      if res < 0 then (None, hev_free w) else (Some self, w))"

definition hev_socks5_client_udp_get_upstream_addr ::
  "hev_socks5_client_udp \<Rightarrow> sys \<Rightarrow> byte list option \<times> hev_socks5_client_udp \<times> sys" where
  "hev_socks5_client_udp_get_upstream_addr self w =
     (case hev_socks5_get_addr_family self of
        AF_INET \<Rightarrow> (let (ok, w) = hev_malloc w in
          (if ok then Some (HEV_SOCKS5_ADDR_TYPE_IPV4 # replicate 6 0) else None, self, w))
      | AF_INET6 \<Rightarrow> (let (ok, w) = hev_malloc w in
          (if ok then Some (HEV_SOCKS5_ADDR_TYPE_IPV6 # replicate 18 0) else None, self, w))
      | AF_UNSPEC \<Rightarrow> (None, self, w))"

definition hev_socks5_client_udp_set_upstream_addr ::
  "resolver \<Rightarrow> sockaddr_in6 \<Rightarrow> (hev_socks5_client_udp \<Rightarrow> int \<Rightarrow> sockaddr_in6 \<Rightarrow> sys \<Rightarrow> int \<times> sys)
    \<Rightarrow> hev_socks5_client_udp \<Rightarrow> byte list \<Rightarrow> sys \<Rightarrow> (int \<times> hev_socks5_client_udp \<times> sys) option" where
  "hev_socks5_client_udp_set_upstream_addr R saddr bind_fn self addr w =
     (if s5_type self \<noteq> HEV_SOCKS5_TYPE_UDP_IN_UDP then Some (0, self, w)
      else do {
        (saddr, fam, res) \<leftarrow> hev_socks5_addr_into_sockaddr6 R addr saddr (hev_socks5_get_addr_family self);
        if res < 0 then Some (-1, self, w)
        else let (fd, w) = hev_socks5_socket SOCK_DGRAM w in
        if fd < 0 then Some (-1, self, w)
        else let (res, w) = bind_fn self fd saddr w in
        if res < 0 then Some (-1, self, drop_fd fd w)
        else let (res, w) = next_res w in
        if res < 0 then Some (-1, self, drop_fd fd w)
        else Some (0, self\<lparr>s5_udp_associated := 1, cu_fd := fd\<rparr>, w) })"

definition hev_socks5_client_udp_get_fd :: "hev_socks5_client_udp \<Rightarrow> int" where
  "hev_socks5_client_udp_get_fd self = (case s5_type self of
      HEV_SOCKS5_TYPE_UDP_IN_TCP \<Rightarrow> s5_fd self
    | HEV_SOCKS5_TYPE_UDP_IN_UDP \<Rightarrow> cu_fd self
    | _ \<Rightarrow> -1)"

definition hev_socks5_client_udp_destruct :: "hev_socks5_client_udp \<Rightarrow> sys \<Rightarrow> sys" where
  "hev_socks5_client_udp_destruct self w =
     hev_socks5_client_destruct self (if cu_fd self \<ge> 0 then drop_fd (cu_fd self) w else w)"

definition hev_socks5_client_udp_class :: "resolver \<Rightarrow> sockaddr_in6 \<Rightarrow> hev_socks5_client_udp client_class" where
  "hev_socks5_client_udp_class R saddr = \<lparr>get_upstream_addr = hev_socks5_client_udp_get_upstream_addr,
     set_upstream_addr = hev_socks5_client_udp_set_upstream_addr R saddr hev_socks5_bind,
     klass_binder = hev_socks5_bind\<rparr>"

section \<open>What the client sends\<close>

definition has_creds :: "'a hev_socks5_client_scheme \<Rightarrow> bool" where
  "has_creds self \<longleftrightarrow> auth_user self \<noteq> None \<and> auth_pass self \<noteq> None"

definition client_greeting :: "'a hev_socks5_client_scheme \<Rightarrow> byte list" where
  "client_greeting self = [5, 1, if has_creds self then 2 else 0]"

definition creds_message :: "byte list \<Rightarrow> byte list \<Rightarrow> byte list" where
  "creds_message u p = 1 # word_of_nat (length u) # u @ word_of_nat (length p) # p"

definition client_creds :: "'a hev_socks5_client_scheme \<Rightarrow> byte list" where
  "client_creds self = (if has_creds self then creds_message (the (auth_user self)) (the (auth_pass self)) else [])"

text \<open>User name and password that fit their length bytes.\<close>

definition creds_fit :: "'a hev_socks5_client_scheme \<Rightarrow> bool" where
  "creds_fit self \<longleftrightarrow> (\<forall>u. auth_user self = Some u \<longrightarrow> length u < 256) \<and> (\<forall>p. auth_pass self = Some p \<longrightarrow> length p < 256)"

lemma write_auth_methods_ok:
  assumes "tx_ok (tx w)"
  obtains ev where "hev_socks5_client_write_auth_methods self w = (0, w\<lparr>tx := ev, sent := sent w @ client_greeting self\<rparr>)"
    "tx_ok ev"
proof -
  let ?b = "[5, 1, if auth_user self = None \<or> auth_pass self = None then 0 else 2] :: byte list"
  obtain ev where "hev_task_io_socket_send w ?b = (int (length ?b), w\<lparr>tx := ev, sent := sent w @ ?b\<rparr>)" "tx_ok ev"
    using send_ok [OF assms, of ?b] by auto
  then show thesis
    by (intro that [of ev]) (auto simp: hev_socks5_client_write_auth_methods_def client_greeting_def has_creds_def)
qed

lemma write_auth_creds_ok:
  assumes "tx_ok (tx w)" "creds_fit self"
  obtains ev where "hev_socks5_client_write_auth_creds self w = (0, w\<lparr>tx := ev, sent := sent w @ client_creds self\<rparr>)"
    "tx_ok ev"
proof (cases "has_creds self")
  case True
  then obtain u p where up: "auth_user self = Some u" "auth_pass self = Some p" by (auto simp: has_creds_def)
  then have fit: "length u < 256" "length p < 256" using assms(2) by (auto simp: creds_fit_def)
  obtain ev where "hev_task_io_socket_send w (creds_message u p)
      = (int (length (creds_message u p)), w\<lparr>tx := ev, sent := sent w @ creds_message u p\<rparr>)" "tx_ok ev"
    using send_ok [OF assms(1), of "creds_message u p"] by (auto simp: creds_message_def)
  then show thesis
    using up fit True
    by (intro that [of ev]) (auto simp: hev_socks5_client_write_auth_creds_def client_creds_def sendmsg_send creds_message_def)
next
  case False
  then have "hev_socks5_client_write_auth_creds self w = (0, w)" "client_creds self = []"
    by (auto simp: hev_socks5_client_write_auth_creds_def has_creds_def client_creds_def split: option.splits)
  then show thesis using assms(1) by (intro that [of "tx w"]) simp_all
qed

text \<open>The class hands out an address in its wire form, and keeps its hands off the stream.\<close>

definition hands_out :: "'a hev_socks5_client_scheme client_class \<Rightarrow> 'a hev_socks5_client_scheme \<Rightarrow> socks_addr
    \<Rightarrow> 'a hev_socks5_client_scheme \<Rightarrow> bool" where
  "hands_out klass self a self' \<longleftrightarrow> (\<forall>w. get_upstream_addr klass self w = (Some (enc_addr a), self', w))"

definition client_request :: "socks5_type \<Rightarrow> socks_addr \<Rightarrow> byte list" where
  "client_request ty a = [5, the (req_cmd ty), 0] @ enc_addr a"

lemma write_request_ok:
  assumes "tx_ok (tx w)" "hands_out klass self a self'" "addr_ok a" "s5_type self \<noteq> HEV_SOCKS5_TYPE_NONE"
  obtains ev where "hev_socks5_client_write_request klass self w
    = Some (0, self', w\<lparr>tx := ev, sent := sent w @ client_request (s5_type self) a, blocks := blocks w - 1\<rparr>)" "tx_ok ev"
proof -
  let ?b = "client_request (s5_type self) a"
  obtain cmd where cmd: "req_cmd (s5_type self) = Some cmd"
    using assms(4) by (cases "s5_type self") (auto simp: req_cmd_def)
  obtain ev where ev: "hev_task_io_socket_send w ?b = (int (length ?b), w\<lparr>tx := ev, sent := sent w @ ?b\<rparr>)" "tx_ok ev"
    using send_ok [OF assms(1), of ?b] by (auto simp: client_request_def)
  have "hev_socks5_addr_len (enc_addr a) = Some (int (length (enc_addr a)))"
    using hev_socks5_addr_len_enc [OF assms(3), of "[]"] by simp
  then show thesis
    using ev cmd assms(2)
    by (intro that [of ev]) (auto simp: hev_socks5_client_write_request_def hands_out_def get_block_def sendmsg_send
        client_request_def)
qed

section \<open>What the client accepts\<close>

definition method_reply :: "byte list \<Rightarrow> int" where
  "method_reply bs = (if 2 \<le> length bs \<and> bs ! 0 = 5 then uint (bs ! 1) else -1)"

lemma read_auth_method_step:
  obtains ev where "hev_socks5_client_read_auth_method w = (method_reply (avail (rx w)), w\<lparr>rx := ev\<rparr>)"
    "2 \<le> length (avail (rx w)) \<Longrightarrow> avail ev = drop 2 (avail (rx w))"
proof -
  obtain res buf ev where "hev_task_io_socket_recv w 2 = (res, buf, w\<lparr>rx := ev\<rparr>)" "res = int 2 \<longleftrightarrow> 2 \<le> length (avail (rx w))"
    "2 \<le> length (avail (rx w)) \<Longrightarrow> buf = take 2 (avail (rx w)) \<and> avail ev = drop 2 (avail (rx w))"
    by (rule recv_step [of 2 w]) auto
  then show thesis
    by (intro that [of ev]) (auto simp: hev_socks5_client_read_auth_method_def method_reply_def)
qed

definition creds_reply :: "byte list \<Rightarrow> int" where
  "creds_reply bs = (if 2 \<le> length bs \<and> bs ! 0 = 1 \<and> bs ! 1 = 0 then 0 else -1)"

lemma read_auth_creds_step:
  obtains ev where "hev_socks5_client_read_auth_creds w = (creds_reply (avail (rx w)), w\<lparr>rx := ev\<rparr>)"
    "2 \<le> length (avail (rx w)) \<Longrightarrow> avail ev = drop 2 (avail (rx w))"
proof -
  obtain res buf ev where "hev_task_io_socket_recv w 2 = (res, buf, w\<lparr>rx := ev\<rparr>)" "res = int 2 \<longleftrightarrow> 2 \<le> length (avail (rx w))"
    "2 \<le> length (avail (rx w)) \<Longrightarrow> buf = take 2 (avail (rx w)) \<and> avail ev = drop 2 (avail (rx w))"
    by (rule recv_step [of 2 w]) auto
  then show thesis
    by (intro that [of ev]) (auto simp: hev_socks5_client_read_auth_creds_def creds_reply_def)
qed

text \<open>The length of an acceptable response, header and address, at the front of some bytes.\<close>

definition response_len :: "byte list \<Rightarrow> nat option" where
  "response_len bs =
     (if 4 \<le> length bs \<and> bs ! 0 = 5 \<and> bs ! 1 = 0 then
        (if bs ! 3 = HEV_SOCKS5_ADDR_TYPE_IPV4 \<and> 10 \<le> length bs then Some 10
         else if bs ! 3 = HEV_SOCKS5_ADDR_TYPE_IPV6 \<and> 22 \<le> length bs then Some 22 else None)
      else None)"

lemma read_response_step:
  obtains (accept) n ev where "response_len (avail (rx w)) = Some n" "avail ev = drop n (avail (rx w))"
    "hev_socks5_client_read_response klass self w = do {
       (ret, self, w) \<leftarrow> set_upstream_addr klass self (take (n - 3) (drop 3 (avail (rx w)))) (w\<lparr>rx := ev\<rparr>);
       Some (if ret < 0 then -1 else 0, self, w) }"
  | (reject) ev where "response_len (avail (rx w)) = None" "hev_socks5_client_read_response klass self w = Some (-1, self, w\<lparr>rx := ev\<rparr>)"
proof -
  let ?av = "avail (rx w)"
  obtain res buf ev where 1: "hev_task_io_socket_recv w 4 = (res, buf, w\<lparr>rx := ev\<rparr>)" "res = int 4 \<longleftrightarrow> 4 \<le> length ?av"
    "4 \<le> length ?av \<Longrightarrow> buf = take 4 ?av \<and> avail ev = drop 4 ?av"
    by (rule recv_step [of 4 w]) auto
  show thesis
  proof (cases "4 \<le> length ?av \<and> ?av ! 0 = 5 \<and> ?av ! 1 = 0
      \<and> (?av ! 3 = HEV_SOCKS5_ADDR_TYPE_IPV4 \<or> ?av ! 3 = HEV_SOCKS5_ADDR_TYPE_IPV6)")
    case False
    have "hev_socks5_client_read_response klass self w = Some (-1, self, w\<lparr>rx := ev\<rparr>)"
      using False 1 by (cases "4 \<le> length ?av") (auto simp: hev_socks5_client_read_response_def Let_def)
    moreover have "response_len ?av = None" using False by (auto simp: response_len_def)
    ultimately show thesis using reject by blast
  next
    case True
    define m where "m = (if ?av ! 3 = HEV_SOCKS5_ADDR_TYPE_IPV4 then 6 else 18 :: nat)"
    have ev: "avail ev = drop 4 ?av" "buf = take 4 ?av" "res = 4" using 1 True by auto
    obtain res2 b2 ev2 where 2: "hev_task_io_socket_recv (w\<lparr>rx := ev\<rparr>) m = (res2, b2, w\<lparr>rx := ev2\<rparr>)"
      "res2 = int m \<longleftrightarrow> m \<le> length (avail ev)"
      "m \<le> length (avail ev) \<Longrightarrow> b2 = take m (avail ev) \<and> avail ev2 = drop m (avail ev)"
      by (rule recv_step [of m "w\<lparr>rx := ev\<rparr>"]) (auto simp: m_def)
    have eq: "hev_socks5_client_read_response klass self w =
      (if res2 \<noteq> int m then Some (-1, self, w\<lparr>rx := ev2\<rparr>)
       else do { (ret, self, w) \<leftarrow> set_upstream_addr klass self (?av ! 3 # b2) (w\<lparr>rx := ev2\<rparr>);
                 Some (if ret < 0 then -1 else 0, self, w) })"
      using True 1(1) ev 2(1) by (auto simp: hev_socks5_client_read_response_def m_def)
    show thesis
    proof (cases "m \<le> length (avail ev)")
      case m: True
      have "take (m + 1) (drop 3 ?av) = ?av ! 3 # b2"
        using m 2(3) ev True by (simp add: take_Suc_conv_app_nth Cons_nth_drop_Suc [symmetric])
      then show thesis
        using eq 2 m ev True
        by (intro accept [of "m + 4" ev2]) (auto simp: response_len_def m_def addr_types)
    next
      case False
      then show thesis using eq 2 ev True by (intro reject [of ev2]) (auto simp: response_len_def m_def addr_types)
    qed
  qed
qed

section \<open>The handshake\<close>

text \<open>
  How many of the bytes the server sends make up an acceptable reply: the chosen method, the
  outcome of the authentication if that method asks for it, and the response.
\<close>

definition reply_len :: "byte list \<Rightarrow> nat option" where
  "reply_len bs =
     (if method_reply bs = 0 then map_option ((+) 2) (response_len (drop 2 bs))
      else if method_reply bs = 2 \<and> creds_reply (drop 2 bs) = 0 then map_option ((+) 4) (response_len (drop 4 bs))
      else None)"

text \<open>A class that accepts every bound address and does nothing with it, as the TCP client does.\<close>

definition lenient :: "'a hev_socks5_client_scheme client_class \<Rightarrow> bool" where
  "lenient klass \<longleftrightarrow> (\<forall>self a w. set_upstream_addr klass self a w = Some (0, self, w))"

lemma read_response_lenient:
  assumes "lenient klass"
  obtains ev where "hev_socks5_client_read_response klass self w
      = Some (if response_len (avail (rx w)) = None then -1 else 0, self, w\<lparr>rx := ev\<rparr>)"
    "\<And>n. response_len (avail (rx w)) = Some n \<Longrightarrow> avail ev = drop n (avail (rx w))"
proof (rule read_response_step [of w klass self])
  fix n ev
  assume "response_len (avail (rx w)) = Some n" "avail ev = drop n (avail (rx w))"
    "hev_socks5_client_read_response klass self w = do {
       (ret, self, w) \<leftarrow> set_upstream_addr klass self (take (n - 3) (drop 3 (avail (rx w)))) (w\<lparr>rx := ev\<rparr>);
       Some (if ret < 0 then -1 else 0, self, w) }"
  then show thesis using assms by (intro that [of ev]) (simp_all add: lenient_def)
next
  fix ev assume "response_len (avail (rx w)) = None" "hev_socks5_client_read_response klass self w = Some (-1, self, w\<lparr>rx := ev\<rparr>)"
  then show thesis by (intro that [of ev]) simp_all
qed

definition shaken ::
  "'a hev_socks5_client_scheme \<Rightarrow> socks_addr \<Rightarrow> 'a hev_socks5_client_scheme \<Rightarrow> byte list \<Rightarrow> sys
    \<Rightarrow> (int \<times> 'a hev_socks5_client_scheme \<times> sys) option \<Rightarrow> bool" where
  "shaken self a self' creds w out \<longleftrightarrow>
     (case reply_len (avail (rx w)) of
        None \<Rightarrow> (\<exists>s w'. out = Some (-1, s, w'))
      | Some n \<Rightarrow> (\<exists>w'. out = Some (0, self', w') \<and> avail (rx w') = drop n (avail (rx w)) \<and> blocks w' = blocks w - 1
          \<and> sent w' = sent w @ client_greeting self @ creds @ client_request (s5_type self) a))"

lemma method_reply_len: "0 \<le> method_reply bs \<Longrightarrow> 2 \<le> length bs"
  by (auto simp: method_reply_def split: if_splits)

lemma creds_reply_len: "0 \<le> creds_reply bs \<Longrightarrow> 2 \<le> length bs"
  by (auto simp: creds_reply_def split: if_splits)

lemma creds_reply_cases: "creds_reply bs < 0 \<longleftrightarrow> creds_reply bs \<noteq> 0"
  by (simp add: creds_reply_def)

lemma handshake_standard_shaken:
  assumes ok: "tx_ok (tx w)" "creds_fit self" and a: "hands_out klass self a self'" "addr_ok a"
    and k: "lenient klass" "s5_type self \<noteq> HEV_SOCKS5_TYPE_NONE"
  shows "shaken self a self' (if method_reply (avail (rx w)) = 2 then client_creds self else []) w
    (hev_socks5_client_handshake_standard klass self w)"
proof -
  let ?av = "avail (rx w)"
  let ?m = "method_reply ?av"
  obtain t1 where 1: "hev_socks5_client_write_auth_methods self w = (0, w\<lparr>tx := t1, sent := sent w @ client_greeting self\<rparr>)" "tx_ok t1"
    using write_auth_methods_ok [OF ok(1)] .
  define w1 where "w1 = w\<lparr>tx := t1, sent := sent w @ client_greeting self\<rparr>"
  obtain e2 where 2: "hev_socks5_client_read_auth_method w1 = (?m, w1\<lparr>rx := e2\<rparr>)" "2 \<le> length ?av \<Longrightarrow> avail e2 = drop 2 ?av"
    using read_auth_method_step [of w1] by (auto simp: w1_def)
  define w2 where "w2 = w1\<lparr>rx := e2\<rparr>"
  have finish: "shaken self a self' creds w (do {
        (res, self, w) \<leftarrow> hev_socks5_client_write_request klass self w3;
        if res < 0 then Some (-1, self, w)
        else do {
          (res, self, w) \<leftarrow> hev_socks5_client_read_response klass self w;
          Some (if res < 0 then -1 else 0, self, w) } })"
    if w3: "tx_ok (tx w3)" "sent w3 = sent w @ client_greeting self @ creds" "blocks w3 = blocks w"
      "reply_len ?av = map_option ((+) n) (response_len (avail (rx w3)))" "avail (rx w3) = drop n ?av" for w3 creds n
  proof -
    obtain t4 where 4: "hev_socks5_client_write_request klass self w3
      = Some (0, self', w3\<lparr>tx := t4, sent := sent w3 @ client_request (s5_type self) a, blocks := blocks w3 - 1\<rparr>)"
      using write_request_ok [OF w3(1) a k(2)] by blast
    define w4 where "w4 = w3\<lparr>tx := t4, sent := sent w3 @ client_request (s5_type self) a, blocks := blocks w3 - 1\<rparr>"
    obtain e5 where 5: "hev_socks5_client_read_response klass self' w4
        = Some (if response_len (avail (rx w4)) = None then -1 else 0, self', w4\<lparr>rx := e5\<rparr>)"
      "\<And>n. response_len (avail (rx w4)) = Some n \<Longrightarrow> avail e5 = drop n (avail (rx w4))"
      using read_response_lenient [OF k(1)] by blast
    have "rx w4 = rx w3" by (simp add: w4_def)
    with 4 5 w3 show ?thesis
      by (cases "response_len (avail (rx w3))")
         (auto simp: shaken_def w4_def [symmetric] w4_def add.commute)
  qed
  consider "?m = 0" | "?m = 2" | "?m \<noteq> 0" "?m \<noteq> 2" by blast
  then show ?thesis
  proof cases
    case m0: 1
    then have "2 \<le> length ?av" using method_reply_len [of ?av] by simp
    then show ?thesis
      using 1 2 m0 finish [of w2 "[]" 2]
      by (simp add: hev_socks5_client_handshake_standard_def w1_def [symmetric] w2_def [symmetric] reply_len_def)
         (simp add: w1_def w2_def)
  next
    case m2: 2
    then have len: "2 \<le> length ?av" using method_reply_len [of ?av] by simp
    have "tx w2 = t1" by (simp add: w2_def w1_def)
    then obtain t3 where 3: "hev_socks5_client_write_auth_creds self w2 = (0, w2\<lparr>tx := t3, sent := sent w2 @ client_creds self\<rparr>)" "tx_ok t3"
      using write_auth_creds_ok [of w2, OF _ ok(2)] 1(2) by metis
    define w3 where "w3 = w2\<lparr>tx := t3, sent := sent w2 @ client_creds self\<rparr>"
    have av3: "avail (rx w3) = drop 2 ?av" using 2(2) len by (simp add: w3_def w2_def)
    obtain e4 where 4: "hev_socks5_client_read_auth_creds w3 = (creds_reply (drop 2 ?av), w3\<lparr>rx := e4\<rparr>)"
      "2 \<le> length (drop 2 ?av) \<Longrightarrow> avail e4 = drop 2 (drop 2 ?av)"
      using read_auth_creds_step [of w3] av3 by metis
    define w4 where "w4 = w3\<lparr>rx := e4\<rparr>"
    note st = hev_socks5_client_handshake_standard_def w1_def [symmetric] w2_def [symmetric] w3_def [symmetric] w4_def [symmetric]
    show ?thesis
    proof (cases "creds_reply (drop 2 ?av) = 0")
      case True
      then have "2 \<le> length (drop 2 ?av)" using creds_reply_len [of "drop 2 ?av"] by simp
      then have "avail (rx w4) = drop 4 ?av" using 4(2) by (simp add: w4_def)
      then show ?thesis
        using 1 2 3 4 m2 True finish [of w4 "client_creds self" 4]
        by (simp add: st reply_len_def) (simp add: w1_def w2_def w3_def w4_def)
    next
      case False
      then show ?thesis
        using 1 2 3 4 m2 creds_reply_cases [of "drop 2 ?av"] by (simp add: st shaken_def reply_len_def)
    qed
  next
    case 3
    then show ?thesis
      using 1 2 by (auto simp: hev_socks5_client_handshake_standard_def w1_def [symmetric] w2_def [symmetric] shaken_def
          reply_len_def)
  qed
qed

lemma handshake_pipeline_shaken:
  assumes ok: "tx_ok (tx w)" "creds_fit self" and a: "hands_out klass self a self'" "addr_ok a"
    and k: "lenient klass" "s5_type self \<noteq> HEV_SOCKS5_TYPE_NONE"
  shows "shaken self a self' (client_creds self) w (hev_socks5_client_handshake_pipeline klass self w)"
proof -
  let ?av = "avail (rx w)"
  let ?m = "method_reply ?av"
  obtain t1 where 1: "hev_socks5_client_write_auth_methods self w = (0, w\<lparr>tx := t1, sent := sent w @ client_greeting self\<rparr>)" "tx_ok t1"
    using write_auth_methods_ok [OF ok(1)] .
  define w1 where "w1 = w\<lparr>tx := t1, sent := sent w @ client_greeting self\<rparr>"
  obtain t2 where 2: "hev_socks5_client_write_auth_creds self w1 = (0, w1\<lparr>tx := t2, sent := sent w1 @ client_creds self\<rparr>)" "tx_ok t2"
    using write_auth_creds_ok [of w1, OF _ ok(2)] 1(2) by (auto simp: w1_def)
  define w2 where "w2 = w1\<lparr>tx := t2, sent := sent w1 @ client_creds self\<rparr>"
  obtain t3 where 3: "hev_socks5_client_write_request klass self w2
      = Some (0, self', w2\<lparr>tx := t3, sent := sent w2 @ client_request (s5_type self) a, blocks := blocks w2 - 1\<rparr>)"
    using write_request_ok [of w2, OF _ a k(2)] 2(2) by (auto simp: w2_def)
  define w3 where "w3 = w2\<lparr>tx := t3, sent := sent w2 @ client_request (s5_type self) a, blocks := blocks w2 - 1\<rparr>"
  have rx3: "rx w3 = rx w" by (simp add: w3_def w2_def w1_def)
  obtain e4 where 4: "hev_socks5_client_read_auth_method w3 = (?m, w3\<lparr>rx := e4\<rparr>)" "2 \<le> length ?av \<Longrightarrow> avail e4 = drop 2 ?av"
    using read_auth_method_step [of w3] rx3 by metis
  define w4 where "w4 = w3\<lparr>rx := e4\<rparr>"
  have finish: "shaken self a self' (client_creds self) w (do {
        (res, self, w) \<leftarrow> hev_socks5_client_read_response klass self' w5;
        Some (if res < 0 then -1 else 0, self, w) })"
    if w5: "w5 = w3\<lparr>rx := e\<rparr>" "reply_len ?av = map_option ((+) n) (response_len (avail e))" "avail e = drop n ?av" for w5 e n
  proof -
    obtain e6 where "hev_socks5_client_read_response klass self' w5
        = Some (if response_len (avail (rx w5)) = None then -1 else 0, self', w5\<lparr>rx := e6\<rparr>)"
      "\<And>n. response_len (avail (rx w5)) = Some n \<Longrightarrow> avail e6 = drop n (avail (rx w5))"
      using read_response_lenient [OF k(1)] by blast
    then show ?thesis
      using w5 by (cases "response_len (avail e)") (auto simp: shaken_def w3_def w2_def w1_def add.commute)
  qed
  note st = hev_socks5_client_handshake_pipeline_def w1_def [symmetric] w2_def [symmetric] w3_def [symmetric] w4_def [symmetric]
  consider "?m = 0" | "?m = 2" | "?m \<noteq> 0" "?m \<noteq> 2" by blast
  then show ?thesis
  proof cases
    case m0: 1
    then have "2 \<le> length ?av" using method_reply_len [of ?av] by simp
    then have "shaken self a self' (client_creds self) w (do {
        (res, self, w) \<leftarrow> hev_socks5_client_read_response klass self' w4;
        Some (if res < 0 then -1 else 0, self, w) })"
      using finish [OF w4_def, of 2] 4(2) m0 by (simp add: reply_len_def)
    then show ?thesis using 1 2 3 4 m0 by (simp add: st)
  next
    case m2: 2
    then have len: "2 \<le> length ?av" using method_reply_len [of ?av] by simp
    obtain e5 where 5: "hev_socks5_client_read_auth_creds w4 = (creds_reply (drop 2 ?av), w4\<lparr>rx := e5\<rparr>)"
      "2 \<le> length (drop 2 ?av) \<Longrightarrow> avail e5 = drop 2 (drop 2 ?av)"
      using read_auth_creds_step [of w4] 4(2) len by (auto simp: w4_def)
    show ?thesis
    proof (cases "creds_reply (drop 2 ?av) = 0")
      case True
      then have "2 \<le> length (drop 2 ?av)" using creds_reply_len [of "drop 2 ?av"] by simp
      then have "avail e5 = drop 4 ?av" using 5(2) by simp
      moreover have "w4\<lparr>rx := e5\<rparr> = w3\<lparr>rx := e5\<rparr>" by (simp add: w4_def)
      ultimately show ?thesis
        using 1 2 3 4 5 m2 True finish [of "w4\<lparr>rx := e5\<rparr>" e5 4] by (simp add: st reply_len_def)
    next
      case False
      then show ?thesis
        using 1 2 3 4 5 m2 creds_reply_cases [of "drop 2 ?av"] by (simp add: st shaken_def reply_len_def)
    qed
  next
    case 3
    then show ?thesis using 1 2 \<open>hev_socks5_client_write_request klass self w2 = _\<close> 4
      by (auto simp: st shaken_def reply_len_def)
  qed
qed

section \<open>Properties\<close>

lemma tcp_class_ok:
  "lenient hev_socks5_client_tcp_class"
  "ct_addr self = Some (enc_addr a) \<Longrightarrow> hands_out hev_socks5_client_tcp_class self a (self\<lparr>ct_addr := None\<rparr>)"
  by (simp_all add: lenient_def hands_out_def hev_socks5_client_tcp_class_def hev_socks5_client_tcp_set_upstream_addr_def
      hev_socks5_client_tcp_get_upstream_addr_def)

text \<open>The handshake of a TCP client in either mode, in terms of the bytes on the wire.\<close>

lemma client_tcp_handshake_shaken:
  fixes self :: hev_socks5_client_tcp and w :: sys
  assumes ok: "tx_ok (tx w)" "creds_fit self" and a: "ct_addr self = Some (enc_addr a)" "addr_ok a"
    and ty: "s5_type self = HEV_SOCKS5_TYPE_TCP"
  defines "self1 \<equiv> self\<lparr>s5_timeout := tcp_timeout (settings w)\<rparr>"
  shows "shaken self a (self1\<lparr>ct_addr := None\<rparr>)
    (if pipeline \<or> method_reply (avail (rx w)) = 2 then client_creds self else []) w
    (hev_socks5_client_handshake hev_socks5_client_tcp_class self pipeline w)"
proof -
  have s1: "creds_fit self1" "client_creds self1 = client_creds self" "client_greeting self1 = client_greeting self"
    "s5_type self1 = HEV_SOCKS5_TYPE_TCP" "ct_addr self1 = Some (enc_addr a)"
    using ok(2) ty a(1) by (auto simp: self1_def creds_fit_def client_creds_def client_greeting_def has_creds_def)
  have ty1: "s5_type self1 \<noteq> HEV_SOCKS5_TYPE_NONE" using s1(4) by simp
  note h = handshake_standard_shaken [OF ok(1) s1(1) tcp_class_ok(2) [OF s1(5)] a(2) tcp_class_ok(1) ty1]
    handshake_pipeline_shaken [OF ok(1) s1(1) tcp_class_ok(2) [OF s1(5)] a(2) tcp_class_ok(1) ty1]
  show ?thesis
    using h s1 ty
    by (cases pipeline; cases "reply_len (avail (rx w))")
       (auto simp: shaken_def hev_socks5_client_handshake_def socks5_access settings_defs self1_def [symmetric] client_request_def)
qed

text \<open>
  C10. The handshake of a TCP client, in both modes, never faults and succeeds exactly if the server's
  bytes form an acceptable reply (method 0, or method 2 and a positive outcome, then a positive
  response with an IPv4 or IPv6 address). On success it has consumed exactly that reply, and has
  sent the greeting, the credentials if it pipelines or was asked for them, and the request for
  its destination, in this order. The destination is an address with a wire form (a name has fewer than 256 bytes and no zero),
  user name and password are shorter than 256 bytes, and the kernel may take what is sent in any pieces but no send fails or times out:
  a send that is cut short by a timeout counts as a success (\<open>client_partial_send_accepted\<close>), so without this the second part would not hold.
\<close>

theorem client_handshake_iff:
  fixes self :: hev_socks5_client_tcp and w :: sys
  assumes "tx_ok (tx w)" "creds_fit self" "ct_addr self = Some (enc_addr a)" "addr_ok a" "s5_type self = HEV_SOCKS5_TYPE_TCP"
  shows "\<exists>r self' w'. hev_socks5_client_handshake hev_socks5_client_tcp_class self pipeline w = Some (r, self', w')
    \<and> (r = 0 \<or> r = -1) \<and> (r = 0 \<longleftrightarrow> reply_len (avail (rx w)) \<noteq> None)
    \<and> (\<forall>n. reply_len (avail (rx w)) = Some n \<longrightarrow> avail (rx w') = drop n (avail (rx w))
        \<and> sent w' = sent w @ client_greeting self
            @ (if pipeline \<or> method_reply (avail (rx w)) = 2 then client_creds self else [])
            @ [5, 1, 0] @ enc_addr a)"
  using client_tcp_handshake_shaken [OF assms, of pipeline] assms(5)
  by (cases "reply_len (avail (rx w))") (auto simp: shaken_def client_request_def req_cmd_def)

definition sys0 :: sys where
  "sys0 = \<lparr>rx = [], tx = [], sent = [], settings = socks5_defaults, sysres = [], open_fds = [], polled = [], blocks = 0\<rparr>"

theorem client_handshake_iff_witness:
  "\<exists>r self' w'. hev_socks5_client_handshake hev_socks5_client_tcp_class
      (client_tcp_zero\<lparr>s5_type := HEV_SOCKS5_TYPE_TCP, ct_addr := Some (enc_addr (IPv4 [1, 2, 3, 4] 80)),
         auth_user := Some [97], auth_pass := Some [98]\<rparr>) False
      (sys0\<lparr>rx := [Chunk [5], RAgain, Chunk [2, 1, 0, 5, 0, 0, 1], Chunk [0, 0, 0, 0, 0, 0, 9]], tx := [Accept 0, TAgain]\<rparr>) = Some (r, self', w')
    \<and> r = 0 \<and> avail (rx w') = [9]
    \<and> sent w' = [5, 1, 2] @ [1, 1, 97, 1, 98] @ [5, 1, 0] @ enc_addr (IPv4 [1, 2, 3, 4] 80)"
proof -
  let ?bs = "[5, 2, 1, 0, 5, 0, 0, 1, 0, 0, 0, 0, 0, 0, 9] :: byte list"
  have "method_reply ?bs = 2" "reply_len ?bs = Some 14"
    by (simp_all add: reply_len_def method_reply_def creds_reply_def response_len_def addr_types)
  then show ?thesis
    using client_handshake_iff [of "sys0\<lparr>rx := [Chunk [5], RAgain, Chunk [2, 1, 0, 5, 0, 0, 1], Chunk [0, 0, 0, 0, 0, 0, 9]], tx := [Accept 0, TAgain]\<rparr>"
        "client_tcp_zero\<lparr>s5_type := HEV_SOCKS5_TYPE_TCP, ct_addr := Some (enc_addr (IPv4 [1, 2, 3, 4] 80)),
         auth_user := Some [97], auth_pass := Some [98]\<rparr>" "IPv4 [1, 2, 3, 4] 80" False]
    by (auto simp: sys0_def client_tcp_zero_def creds_fit_def tx_ok_def client_greeting_def has_creds_def client_creds_def
        creds_message_def simp del: enc_addr.simps)
qed

text \<open>
  Pipelining is transparent: when the server asks for credentials exactly if the client offered
  them, the pipelined and the standard handshake give the same result, and if that is success they
  have sent the same bytes, consumed the same bytes and left the same object.
\<close>

theorem client_pipeline_equiv:
  fixes self :: hev_socks5_client_tcp and w :: sys
  assumes "tx_ok (tx w)" "creds_fit self" "ct_addr self = Some (enc_addr a)" "addr_ok a" "s5_type self = HEV_SOCKS5_TYPE_TCP"
    and "has_creds self \<longleftrightarrow> method_reply (avail (rx w)) = 2"
  shows "\<exists>r s1 w1 s2 w2. hev_socks5_client_handshake hev_socks5_client_tcp_class self True w = Some (r, s1, w1)
    \<and> hev_socks5_client_handshake hev_socks5_client_tcp_class self False w = Some (r, s2, w2)
    \<and> (r = 0 \<longrightarrow> s1 = s2 \<and> sent w1 = sent w2 \<and> avail (rx w1) = avail (rx w2))"
proof -
  have "client_creds self = (if method_reply (avail (rx w)) = 2 then client_creds self else [])"
    using assms(6) by (auto simp: client_creds_def)
  then show ?thesis
    using client_tcp_handshake_shaken [OF assms(1-5), of True] client_tcp_handshake_shaken [OF assms(1-5), of False]
    by (cases "reply_len (avail (rx w))") (auto simp: shaken_def)
qed

theorem client_pipeline_equiv_witness:
  "\<exists>r s1 w1 s2 w2. hev_socks5_client_handshake hev_socks5_client_tcp_class
      (client_tcp_zero\<lparr>s5_type := HEV_SOCKS5_TYPE_TCP, ct_addr := Some (enc_addr (Domain [97] 80))\<rparr>) True
      (sys0\<lparr>rx := [Chunk [5, 0, 5, 0, 0, 1, 0, 0, 0, 0, 0, 0]]\<rparr>) = Some (r, s1, w1)
    \<and> hev_socks5_client_handshake hev_socks5_client_tcp_class
      (client_tcp_zero\<lparr>s5_type := HEV_SOCKS5_TYPE_TCP, ct_addr := Some (enc_addr (Domain [97] 80))\<rparr>) False
      (sys0\<lparr>rx := [Chunk [5, 0, 5, 0, 0, 1, 0, 0, 0, 0, 0, 0]]\<rparr>) = Some (r, s2, w2)
    \<and> (r = 0 \<longrightarrow> s1 = s2 \<and> sent w1 = sent w2 \<and> avail (rx w1) = avail (rx w2))"
  by (rule client_pipeline_equiv [where a = "Domain [97] 80"])
     (auto simp: sys0_def client_tcp_zero_def creds_fit_def tx_ok_def has_creds_def method_reply_def)

text \<open>
  A send that is cut short counts as a success: when the kernel takes one byte of the greeting and
  then the wait times out, the greeting has not been sent but \<open>hev_socks5_client_write_auth_methods\<close>
  returns 0.
\<close>

theorem client_partial_send_accepted:
  "tx w = Accept 0 # TTimeout # ev \<Longrightarrow>
    \<exists>w'. hev_socks5_client_write_auth_methods self w = (0, w') \<and> sent w' = sent w @ [5]"
  by (auto simp: hev_socks5_client_write_auth_methods_def hev_task_io_socket_send_def partial_or_def Let_def)

theorem client_partial_send_accepted_witness:
  "\<exists>w'. hev_socks5_client_write_auth_methods client_tcp_zero (sys0\<lparr>tx := [Accept 0, TTimeout]\<rparr>) = (0, w') \<and> sent w' = [5]"
  using client_partial_send_accepted [of "sys0\<lparr>tx := [Accept 0, TTimeout]\<rparr>" "[]" client_tcp_zero] by (simp add: sys0_def)

definition bind_neutral :: "('a \<Rightarrow> int \<Rightarrow> sockaddr_in6 \<Rightarrow> sys \<Rightarrow> int \<times> sys) \<Rightarrow> bool" where
  "bind_neutral b \<longleftrightarrow> (\<forall>s fd sa w. open_fds (snd (b s fd sa w)) = open_fds w \<and> polled (snd (b s fd sa w)) = polled w)"

lemma fds_grow_cong:
  "open_fds w2 = open_fds w1 \<Longrightarrow> polled w2 = polled w1 \<Longrightarrow> fds_grow w w2 F = fds_grow w w1 F"
  by (simp add: fds_grow_def)

text \<open>A socket that is bound and connected by its owner, or dropped.\<close>

lemma bind_connect_fds:
  assumes "hev_socks5_socket ty w = (fd, w1)" "0 \<le> fd" "bind_neutral b"
  shows "fds_grow w (snd (b s fd sa w1)) {fd}" "fds_grow w (snd (next_res (snd (b s fd sa w1)))) {fd}"
    "fds_grow w (drop_fd fd (snd (b s fd sa w1))) {}" "fds_grow w (drop_fd fd (snd (next_res (snd (b s fd sa w1))))) {}"
proof -
  have g: "fds_grow w w1 {fd}" using hev_socks5_socket_grows(1) [OF assms(1)] assms(2) by simp
  have k: "open_fds (snd (b s fd sa w1)) = open_fds w1" "polled (snd (b s fd sa w1)) = polled w1"
    using assms(3) unfolding bind_neutral_def by blast+
  show 1: "fds_grow w (snd (b s fd sa w1)) {fd}" "fds_grow w (snd (next_res (snd (b s fd sa w1)))) {fd}"
    using g fds_grow_cong [OF k, of w "{fd}"] fds_grow_cong [of "snd (next_res (snd (b s fd sa w1)))" w1 w "{fd}"] k by simp_all
  then show "fds_grow w (drop_fd fd (snd (b s fd sa w1))) {}" "fds_grow w (drop_fd fd (snd (next_res (snd (b s fd sa w1))))) {}"
    using fds_grow_drop [of w _ fd "{}"] by simp_all
qed

text \<open>
  No descriptor leaks: connecting a client opens exactly one descriptor, the one that becomes the
  descriptor of the object, when it succeeds, and none when it fails, on whichever step; the same
  holds for the datagram socket that the UDP client opens for the address the server returns.
  The bind method of the class may do anything but open or close descriptors.
\<close>

theorem client_sockets_owned:
  assumes "bind_neutral (klass_binder klass)"
  shows "(case hev_socks5_client_connect R klass saddr self addr port w of (r, self', w') \<Rightarrow>
      if r = 0 then fds_grow w w' {s5_fd self'} else r = -1 \<and> fds_grow w w' {})
    \<and> (case hev_socks5_client_udp_set_upstream_addr R saddr hev_socks5_bind cu uaddr w of
        None \<Rightarrow> True
      | Some (r, cu', w') \<Rightarrow>
          if r = 0 \<and> s5_type cu = HEV_SOCKS5_TYPE_UDP_IN_UDP then fds_grow w w' {cu_fd cu'}
          else (r = 0 \<or> r = -1) \<and> fds_grow w w' {})"
proof
  obtain fd w1 where s: "hev_socks5_socket SOCK_STREAM w = (fd, w1)" by fastforce
  have refl: "fds_grow w w {}" by (simp add: fds_grow_refl)
  have fail: "fd < 0 \<Longrightarrow> fds_grow w w1 {}" using hev_socks5_socket_grows(1) [OF s] by simp
  show "case hev_socks5_client_connect R klass saddr self addr port w of (r, self', w') \<Rightarrow>
      if r = 0 then fds_grow w w' {s5_fd self'} else r = -1 \<and> fds_grow w w' {}"
    using s refl fail bind_connect_fds [OF s _ assms]
    by (auto simp: hev_socks5_client_connect_def Let_def case_prod_beta socks5_access)
next
  obtain fd w1 where s: "hev_socks5_socket SOCK_DGRAM w = (fd, w1)" by fastforce
  have refl: "fds_grow w w {}" by (simp add: fds_grow_refl)
  have fail: "fd < 0 \<Longrightarrow> fds_grow w w1 {}" using hev_socks5_socket_grows(1) [OF s] by simp
  have "bind_neutral (hev_socks5_bind :: hev_socks5_client_udp \<Rightarrow> _)" by (simp add: bind_neutral_def hev_socks5_bind_def)
  note b = bind_connect_fds [OF s _ this, of cu]
  show "case hev_socks5_client_udp_set_upstream_addr R saddr hev_socks5_bind cu uaddr w of
        None \<Rightarrow> True
      | Some (r, cu', w') \<Rightarrow>
          if r = 0 \<and> s5_type cu = HEV_SOCKS5_TYPE_UDP_IN_UDP then fds_grow w w' {cu_fd cu'}
          else (r = 0 \<or> r = -1) \<and> fds_grow w w' {}"
    using s refl fail b
    by (auto simp: hev_socks5_client_udp_set_upstream_addr_def Let_def case_prod_beta split: option.splits
        Option.bind_splits if_splits)
qed

theorem client_sockets_owned_witness:
  "case hev_socks5_client_connect \<lparr>pton4 = (\<lambda>_. Some [127, 0, 0, 1]), pton6 = (\<lambda>_. None), getaddrinfo = (\<lambda>_ _. None)\<rparr>
      hev_socks5_client_tcp_class \<lparr>sin6_family = AF_UNSPEC, sin6_port = 0, sin6_addr = replicate 16 0\<rparr>
      client_tcp_zero [49] 80 (sys0\<lparr>sysres := [0, 0, 0, -1]\<rparr>) of
     (r, self', w') \<Rightarrow> if r = 0 then fds_grow (sys0\<lparr>sysres := [0, 0, 0, -1]\<rparr>) w' {s5_fd self'}
       else r = -1 \<and> fds_grow (sys0\<lparr>sysres := [0, 0, 0, -1]\<rparr>) w' {}"
proof -
  have "bind_neutral (klass_binder hev_socks5_client_tcp_class)"
    by (simp add: bind_neutral_def hev_socks5_client_tcp_class_def hev_socks5_bind_def)
  then show ?thesis by (rule client_sockets_owned [THEN conjunct1])
qed

end
