(* ===== verification/Authenticator.thy ===== *)
theory Authenticator
  imports RBTree_Search
begin

text \<open>
  The user database of the SOCKS server: \<open>hev-socks5-user.c\<close> (a name and a password with their
  lengths, reference counted) and \<open>hev-socks5-authenticator.c\<close> (a red-black tree of users ordered
  by the length of the name and then by its bytes). A user struct embeds its tree node; the model
  keeps the node in the heap of the tree and the other fields in \<open>au_users\<close>, under the same
  address. The database is shown to be a finite map from names to passwords.
\<close>

section \<open>Users\<close>

record hev_socks5_user =
  user_name :: "byte list"
  user_pass :: "byte list"
  user_name_len :: u32
  user_pass_len :: u32
  user_ref_count :: u32

record hev_socks5_authenticator =
  au_tree :: hev_rbtree
  au_users :: "ptr \<rightharpoonup> hev_socks5_user"

text \<open>
  \<open>dst = malloc (len); memcpy (dst, src, len)\<close>: the copy, or a fault when the allocation fails
  (the code does not test it) or the source is shorter than \<open>len\<close>.
\<close>

definition malloc_copy :: "bool \<Rightarrow> byte list \<Rightarrow> u32 \<Rightarrow> byte list option" where
  "malloc_copy ok src len =
     (if (ok \<or> len = 0) \<and> unat len \<le> length src then Some (take (unat len) src) else None)"

definition hev_socks5_user_construct ::
  "bool \<times> bool \<Rightarrow> byte list \<Rightarrow> u32 \<Rightarrow> byte list \<Rightarrow> u32 \<Rightarrow> hev_socks5_user option" where
  "hev_socks5_user_construct mem name name_len pass pass_len = do {
     nm \<leftarrow> malloc_copy (fst mem) name name_len;
     pw \<leftarrow> malloc_copy (snd mem) pass pass_len;
     Some \<lparr>user_name = nm, user_pass = pw, user_name_len = name_len, user_pass_len = pass_len,
       user_ref_count = 1\<rparr> }"

text \<open>\<open>p\<close> is what \<open>calloc\<close> returned; a new user is in the heap but in no tree.\<close>

definition hev_socks5_user_new ::
  "ptr \<Rightarrow> bool \<times> bool \<Rightarrow> byte list \<Rightarrow> u32 \<Rightarrow> byte list \<Rightarrow> u32 \<Rightarrow> hev_socks5_authenticator
    \<Rightarrow> (hev_socks5_authenticator \<times> ptr) option" where
  "hev_socks5_user_new p mem name name_len pass pass_len self =
     (if p = NULL then Some (self, NULL)
      else do {
        u \<leftarrow> hev_socks5_user_construct mem name name_len pass pass_len;
        Some (self\<lparr>au_tree := (au_tree self)\<lparr>nodes := (nodes (au_tree self))(p \<mapsto>
                     \<lparr>parent_color = 0, node_right = NULL, node_left = NULL\<rparr>)\<rparr>,
                   au_users := (au_users self)(p \<mapsto> u)\<rparr>, p) })"

text \<open>\<open>memcmp\<close> of two buffers, each of which has to have the bytes that are compared.\<close>

definition memcmp_buf :: "byte list \<Rightarrow> byte list \<Rightarrow> nat \<Rightarrow> int option" where
  "memcmp_buf a b n = (if n \<le> length a \<and> n \<le> length b then Some (memcmp a b n) else None)"

definition hev_socks5_user_check :: "hev_socks5_user \<Rightarrow> byte list \<Rightarrow> u32 \<Rightarrow> int option" where
  "hev_socks5_user_check self pass pass_len =
     (if user_pass_len self \<noteq> pass_len then Some (-1)
      else do {
        res \<leftarrow> memcmp_buf (user_pass self) pass (unat pass_len);
        Some (if res \<noteq> 0 then -1 else 0) })"

definition hev_socks5_user_destruct :: "hev_socks5_authenticator \<Rightarrow> ptr \<Rightarrow> hev_socks5_authenticator" where
  "hev_socks5_user_destruct self p = self\<lparr>
     au_tree := (au_tree self)\<lparr>nodes := (nodes (au_tree self))(p := None)\<rparr>,
     au_users := (au_users self)(p := None)\<rparr>"

text \<open>Reference counting of an atomic object; the destructor runs when the old count was at most 1.\<close>

definition user_ref :: "hev_socks5_authenticator \<Rightarrow> ptr \<Rightarrow> hev_socks5_authenticator option" where
  "user_ref self p = do {
     u \<leftarrow> au_users self p;
     Some (self\<lparr>au_users := (au_users self)(p \<mapsto> u\<lparr>user_ref_count := user_ref_count u + 1\<rparr>)\<rparr>) }"

definition user_unref :: "hev_socks5_authenticator \<Rightarrow> ptr \<Rightarrow> hev_socks5_authenticator option" where
  "user_unref self p = do {
     u \<leftarrow> au_users self p;
     let rc = user_ref_count u;
     let self = self\<lparr>au_users := (au_users self)(p \<mapsto> u\<lparr>user_ref_count := rc - 1\<rparr>)\<rparr>;
     Some (if rc > 1 then self else hev_socks5_user_destruct self p) }"

section \<open>The authenticator\<close>

definition hev_socks5_authenticator_construct :: "hev_socks5_authenticator \<Rightarrow> hev_socks5_authenticator \<times> int" where
  "hev_socks5_authenticator_construct self = (self, 0)"

text \<open>\<open>calloc\<close> clears the root; \<open>h\<close> and \<open>us\<close> are the users allocated so far.\<close>

definition hev_socks5_authenticator_new ::
  "bool \<Rightarrow> (ptr \<rightharpoonup> hev_rbtree_node) \<Rightarrow> (ptr \<rightharpoonup> hev_socks5_user) \<Rightarrow> hev_socks5_authenticator option" where
  "hev_socks5_authenticator_new calloced h us =
     (if \<not> calloced then None
      else case hev_socks5_authenticator_construct \<lparr>au_tree = \<lparr>nodes = h, root = NULL\<rparr>, au_users = us\<rparr> of
        (self, res) \<Rightarrow> if res < 0 then None else Some self)"

definition user_cmp :: "hev_socks5_authenticator \<Rightarrow> byte list \<Rightarrow> u32 \<Rightarrow> ptr \<Rightarrow> int option" where
  "user_cmp self name name_len p = do {
     this \<leftarrow> au_users self p;
     if user_name_len this < name_len then Some (-1)
     else if user_name_len this > name_len then Some 1
     else memcmp_buf (user_name this) name (unat name_len) }"

definition hev_socks5_authenticator_add ::
  "hev_socks5_authenticator \<Rightarrow> ptr \<Rightarrow> (hev_socks5_authenticator \<times> int) option" where
  "hev_socks5_authenticator_add self user = do {
     u \<leftarrow> au_users self user;
     (new, parent, this) \<leftarrow> rb_descend (user_cmp self (user_name u) (user_name_len u)) (au_tree self) LinkRoot NULL;
     if this \<noteq> NULL then Some (self, -1)
     else do {
       t \<leftarrow> hev_rbtree_node_link (au_tree self) user parent new;
       t \<leftarrow> hev_rbtree_insert_color t user;
       Some (self\<lparr>au_tree := t\<rparr>, 0) } }"

definition hev_socks5_authenticator_del ::
  "hev_socks5_authenticator \<Rightarrow> byte list \<Rightarrow> u32 \<Rightarrow> (hev_socks5_authenticator \<times> int) option" where
  "hev_socks5_authenticator_del self name name_len = do {
     node \<leftarrow> rb_lookup (user_cmp self name name_len) (au_tree self) (root (au_tree self));
     if node = NULL then Some (self, -1)
     else do {
       t \<leftarrow> hev_rbtree_erase (au_tree self) node;
       self \<leftarrow> user_unref (self\<lparr>au_tree := t\<rparr>) node;
       Some (self, 0) } }"

definition hev_socks5_authenticator_get ::
  "hev_socks5_authenticator \<Rightarrow> byte list \<Rightarrow> u32 \<Rightarrow> ptr option" where
  "hev_socks5_authenticator_get self name name_len =
     rb_lookup (user_cmp self name name_len) (au_tree self) (root (au_tree self))"

partial_function (option) hev_socks5_authenticator_clear ::
  "hev_socks5_authenticator \<Rightarrow> hev_socks5_authenticator option" where
  "hev_socks5_authenticator_clear self = do {
     n \<leftarrow> hev_rbtree_first (au_tree self);
     if n = NULL then Some self
     else do {
       t \<leftarrow> hev_rbtree_erase (au_tree self) n;
       self \<leftarrow> user_unref (self\<lparr>au_tree := t\<rparr>) n;
       hev_socks5_authenticator_clear self } }"

definition hev_socks5_authenticator_destruct :: "hev_socks5_authenticator \<Rightarrow> hev_socks5_authenticator option" where
  "hev_socks5_authenticator_destruct self = hev_socks5_authenticator_clear self"

section \<open>The order of names\<close>

definition name_cmp :: "byte list \<Rightarrow> byte list \<Rightarrow> int" where
  "name_cmp a b = (if length a < length b then -1 else if length a > length b then 1 else strcmp a b)"

interpretation by_length: key_order name_cmp
proof
  fix a b c :: "byte list"
  show "name_cmp a b = 0 \<longleftrightarrow> a = b" by (auto simp: name_cmp_def)
  show "name_cmp a b < 0 \<longleftrightarrow> 0 < name_cmp b a" by (auto simp: name_cmp_def strcmp_sym)
  show "name_cmp a b < 0 \<Longrightarrow> name_cmp b c < 0 \<Longrightarrow> name_cmp a c < 0"
    using strcmp_trans [of a b c] by (auto simp: name_cmp_def split: if_splits)
qed

section \<open>Invariant\<close>

definition user_ok :: "hev_socks5_user \<Rightarrow> bool" where
  "user_ok u \<longleftrightarrow> unat (user_name_len u) = length (user_name u) \<and> unat (user_pass_len u) = length (user_pass u)
     \<and> 0 < user_ref_count u"

definition user_key :: "hev_socks5_authenticator \<Rightarrow> ptr \<Rightarrow> byte list" where
  "user_key self p = user_name (the (au_users self p))"

text \<open>\<open>auth_inv self N\<close>: the users \<open>N\<close> are in the tree, ordered by name, and every user is well formed.\<close>

definition auth_inv :: "hev_socks5_authenticator \<Rightarrow> ptr set \<Rightarrow> bool" where
  "auth_inv self N \<longleftrightarrow> keyed_tree name_cmp (user_key self) (au_tree self) N \<and> N \<subseteq> dom (au_users self)
     \<and> (\<forall>p u. au_users self p = Some u \<longrightarrow> user_ok u)"

lemma user_cmp_inv:
  assumes "auth_inv self N" "p \<in> N" "unat name_len = length name"
  shows "user_cmp self name name_len p = Some (name_cmp (user_key self p) name)"
proof -
  obtain u where u: "au_users self p = Some u" "unat (user_name_len u) = length (user_name u)"
    using assms(1,2) by (auto simp: auth_inv_def user_ok_def)
  then show ?thesis
    using assms(3) by (auto simp: user_cmp_def user_key_def name_cmp_def word_less_nat_alt memcmp_buf_def memcmp_def)
qed

lemma auth_get_inv:
  assumes inv: "auth_inv self N" and len: "unat name_len = length name"
  shows "p \<in> N \<Longrightarrow> user_key self p = name \<Longrightarrow> hev_socks5_authenticator_get self name name_len = Some p"
    and "name \<notin> user_key self ` N \<Longrightarrow> hev_socks5_authenticator_get self name name_len = Some NULL"
proof -
  have kt: "keyed_tree name_cmp (user_key self) (au_tree self) N" using inv by (simp add: auth_inv_def)
  have f: "user_cmp self name name_len a = Some (name_cmp (user_key self a) name)" if "a \<in> N" for a
    using user_cmp_inv [OF inv that len] .
  show "hev_socks5_authenticator_get self name name_len = Some p" if "p \<in> N" "user_key self p = name"
    using by_length.keyed_found(2) [OF kt that(1), of "user_cmp self name name_len"] f that(2)
    by (auto simp: hev_socks5_authenticator_get_def)
  show "hev_socks5_authenticator_get self name name_len = Some NULL" if "name \<notin> user_key self ` N"
    using by_length.keyed_absent [OF kt _ f] that by (auto simp: hev_socks5_authenticator_get_def)
qed

lemma auth_add_inv:
  assumes inv: "auth_inv self N" and u: "au_users self p = Some u" "p \<notin> N" "aligned p" "p \<noteq> NULL"
    and nd: "nodes (au_tree self) p \<noteq> None"
  shows "user_name u \<in> user_key self ` N \<Longrightarrow> hev_socks5_authenticator_add self p = Some (self, -1)"
    and "user_name u \<notin> user_key self ` N \<Longrightarrow> \<exists>t. hev_socks5_authenticator_add self p = Some (self\<lparr>au_tree := t\<rparr>, 0)
      \<and> auth_inv (self\<lparr>au_tree := t\<rparr>) (insert p N)"
proof -
  let ?c = "user_cmp self (user_name u) (user_name_len u)"
  have kt: "keyed_tree name_cmp (user_key self) (au_tree self) N" using inv by (simp add: auth_inv_def)
  have len: "unat (user_name_len u) = length (user_name u)" using inv u by (auto simp: auth_inv_def user_ok_def)
  have f: "?c a = Some (name_cmp (user_key self a) (user_name u))" if "a \<in> N" for a
    using user_cmp_inv [OF inv that len] .
  show "hev_socks5_authenticator_add self p = Some (self, -1)" if "user_name u \<in> user_key self ` N"
  proof -
    from that obtain q where q: "q \<in> N" "user_key self q = user_name u" by auto
    then obtain l where "rb_descend ?c (au_tree self) LinkRoot NULL = Some (l, q, q)"
      using by_length.keyed_found(1) [OF kt q(1), of ?c] f by auto
    moreover have "q \<noteq> NULL" using keyed_tree_alloc [OF kt q(1)] by simp
    ultimately show ?thesis using u by (simp add: hev_socks5_authenticator_add_def)
  qed
  show "\<exists>t. hev_socks5_authenticator_add self p = Some (self\<lparr>au_tree := t\<rparr>, 0)
      \<and> auth_inv (self\<lparr>au_tree := t\<rparr>) (insert p N)" if new: "user_name u \<notin> user_key self ` N"
  proof -
    obtain l q where lq: "rb_descend ?c (au_tree self) LinkRoot NULL = Some (l, q, NULL)"
      "link_fits name_cmp (user_key self) (au_tree self) N (user_name u) l q"
      using by_length.keyed_absent [OF kt, of "user_name u" ?c] f new by (metis imageI)
    obtain t where t: "rb_insert_at (au_tree self) p q l = Some t"
      "keyed_tree name_cmp (user_key self) t (insert p N)" "same_outside (insert p N) (au_tree self) t"
      using link_fitsD [OF lq(2), of "au_tree self" "user_key self" p] u nd
      by (auto simp: user_key_def)
    have "user_key (self\<lparr>au_tree := t\<rparr>) = user_key self" by (auto simp: user_key_def)
    then have "auth_inv (self\<lparr>au_tree := t\<rparr>) (insert p N)"
      using inv t(2) u by (auto simp: auth_inv_def)
    moreover have "hev_socks5_authenticator_add self p = Some (self\<lparr>au_tree := t\<rparr>, 0)"
      using u lq(1) t(1) by (auto simp: hev_socks5_authenticator_add_def rb_insert_at_def bind_eq_Some_conv)
    ultimately show ?thesis by blast
  qed
qed

text \<open>A user that leaves the tree and is unreferenced; both \<open>del\<close> and \<open>clear\<close> do this.\<close>

definition auth_drop :: "hev_socks5_authenticator \<Rightarrow> ptr \<Rightarrow> hev_socks5_authenticator option" where
  "auth_drop self p = do {
     t \<leftarrow> hev_rbtree_erase (au_tree self) p;
     user_unref (self\<lparr>au_tree := t\<rparr>) p }"

definition dropped_users :: "(ptr \<rightharpoonup> hev_socks5_user) \<Rightarrow> ptr \<Rightarrow> ptr \<Rightarrow> hev_socks5_user option" where
  "dropped_users us p = us(p := (case us p of None \<Rightarrow> None | Some u \<Rightarrow>
     if user_ref_count u > 1 then Some (u\<lparr>user_ref_count := user_ref_count u - 1\<rparr>) else None))"

lemma auth_drop_inv:
  assumes inv: "auth_inv self N" and p: "p \<in> N"
  shows "\<exists>self'. auth_drop self p = Some self' \<and> auth_inv self' (N - {p})
    \<and> au_users self' = dropped_users (au_users self) p"
proof -
  have kt: "keyed_tree name_cmp (user_key self) (au_tree self) N" using inv by (simp add: auth_inv_def)
  obtain u where u: "au_users self p = Some u" "user_ok u" using inv p by (auto simp: auth_inv_def)
  obtain t where t: "hev_rbtree_erase (au_tree self) p = Some t"
    "keyed_tree name_cmp (user_key self) t (N - {p})" "same_outside N (au_tree self) t"
    using by_length.keyed_erase [OF kt p] by blast
  define us where "us = dropped_users (au_users self) p"
  define t' where "t' = (if user_ref_count u > 1 then t else t\<lparr>nodes := (nodes t)(p := None)\<rparr>)"
  define self' where "self' = self\<lparr>au_tree := t', au_users := us\<rparr>"
  have "auth_drop self p = Some self'"
    using t(1) u by (auto simp: auth_drop_def user_unref_def hev_socks5_user_destruct_def self'_def t'_def us_def
        dropped_users_def Let_def)
  moreover have "keyed_tree name_cmp (user_key self') t' (N - {p})"
    by (rule keyed_tree_cong [OF t(2)]) (auto simp: t'_def self'_def user_key_def us_def dropped_users_def)
  moreover have "user_ok v" if "us q = Some v" for q v
  proof -
    have "0 < w - 1" if "1 < w" for w :: u32 using that by (auto simp: word_gt_0)
    then show ?thesis
      using that inv u by (auto simp: us_def dropped_users_def auth_inv_def user_ok_def split: if_splits)
  qed
  ultimately show ?thesis
    using inv by (auto simp: auth_inv_def self'_def us_def dropped_users_def)
qed

lemma auth_del_inv:
  assumes inv: "auth_inv self N" and len: "unat name_len = length name"
  shows "p \<in> N \<Longrightarrow> user_key self p = name \<Longrightarrow>
      \<exists>self'. hev_socks5_authenticator_del self name name_len = Some (self', 0) \<and> auth_inv self' (N - {p})
        \<and> au_users self' = dropped_users (au_users self) p"
    and "name \<notin> user_key self ` N \<Longrightarrow> hev_socks5_authenticator_del self name name_len = Some (self, -1)"
proof -
  show "\<exists>self'. hev_socks5_authenticator_del self name name_len = Some (self', 0) \<and> auth_inv self' (N - {p})
        \<and> au_users self' = dropped_users (au_users self) p" if p: "p \<in> N" "user_key self p = name"
  proof -
    have "p \<noteq> NULL" using inv p(1) keyed_tree_alloc [of name_cmp "user_key self" "au_tree self" N p] by (simp add: auth_inv_def)
    moreover have "rb_lookup (user_cmp self name name_len) (au_tree self) (root (au_tree self)) = Some p"
      using auth_get_inv(1) [OF inv len p] by (simp add: hev_socks5_authenticator_get_def)
    moreover obtain self' where "auth_drop self p = Some self'" "auth_inv self' (N - {p})"
      "au_users self' = dropped_users (au_users self) p"
      using auth_drop_inv [OF inv p(1)] by blast
    ultimately show ?thesis
      by (auto simp: hev_socks5_authenticator_del_def auth_drop_def bind_eq_Some_conv)
  qed
  show "hev_socks5_authenticator_del self name name_len = Some (self, -1)" if "name \<notin> user_key self ` N"
    using auth_get_inv(2) [OF inv len that]
    by (simp add: hev_socks5_authenticator_del_def hev_socks5_authenticator_get_def)
qed

text \<open>\<open>clear\<close> ends, whatever the size of the tree, and unreferences every user once.\<close>

lemma auth_clear_inv:
  "auth_inv self N \<Longrightarrow> \<exists>self'. hev_socks5_authenticator_clear self = Some self' \<and> auth_inv self' {}
    \<and> (\<forall>p. au_users self' p = (if p \<in> N then dropped_users (au_users self) p p else au_users self p))"
proof (induction "card N" arbitrary: self N rule: less_induct)
  case less
  have kt: "keyed_tree name_cmp (user_key self) (au_tree self) N" using less.prems by (simp add: auth_inv_def)
  show ?case
  proof (cases "N = {}")
    case True
    then show ?thesis
      using keyed_tree_first [OF kt] less.prems by (subst hev_socks5_authenticator_clear.simps) auto
  next
    case False
    then obtain p where p: "hev_rbtree_first (au_tree self) = Some p" "p \<in> N" "p \<noteq> NULL"
      using keyed_tree_first [OF kt] keyed_tree_alloc [OF kt] by auto
    obtain s1 where s1: "auth_drop self p = Some s1" "auth_inv s1 (N - {p})"
      "au_users s1 = dropped_users (au_users self) p"
      using auth_drop_inv [OF less.prems p(2)] by blast
    have "card (N - {p}) < card N"
      using p(2) keyed_tree_finite [OF kt] by (meson card_Diff1_less)
    from less.hyps [OF this s1(2)] obtain s2 where s2: "hev_socks5_authenticator_clear s1 = Some s2" "auth_inv s2 {}"
      "\<forall>q. au_users s2 q = (if q \<in> N - {p} then dropped_users (au_users s1) q q else au_users s1 q)"
      by blast
    have "hev_socks5_authenticator_clear self = Some s2"
      using p s1(1) s2(1)
      by (subst hev_socks5_authenticator_clear.simps) (auto simp: auth_drop_def bind_eq_Some_conv)
    moreover have "au_users s2 q = (if q \<in> N then dropped_users (au_users self) q q else au_users self q)" for q
      using s2(3) s1(3) p(2) by (auto simp: dropped_users_def)
    ultimately show ?thesis using s2(2) by blast
  qed
qed

section \<open>Runs of the database\<close>

text \<open>
  The specification: a finite map from names to passwords. Adding a name that is there, or
  deleting one that is not, is refused with -1.
\<close>

datatype auth_op = AddUser "byte list" "byte list" | DelUser "byte list"

fun user_db_op :: "auth_op \<Rightarrow> (byte list \<rightharpoonup> byte list) \<Rightarrow> (byte list \<rightharpoonup> byte list) \<times> int" where
  "user_db_op (AddUser n w) m = (if m n = None then (m(n \<mapsto> w), 0) else (m, -1))"
| "user_db_op (DelUser n) m = (if m n = None then (m, -1) else (m(n := None), 0))"

fun user_db_run :: "auth_op list \<Rightarrow> (byte list \<rightharpoonup> byte list) \<Rightarrow> (byte list \<rightharpoonup> byte list) \<times> int list" where
  "user_db_run [] m = (m, [])"
| "user_db_run (x # xs) m = (let (m, r) = user_db_op x m; (m, rs) = user_db_run xs m in (m, r # rs))"

text \<open>
  A client of the database: a user is created and added, and the reference of a user that is
  refused is dropped. \<open>alloc\<close> chooses a fresh address.
\<close>

fun auth_do :: "(ptr set \<Rightarrow> ptr) \<Rightarrow> auth_op \<Rightarrow> hev_socks5_authenticator \<Rightarrow> (hev_socks5_authenticator \<times> int) option" where
  "auth_do alloc (AddUser n w) self = do {
     (self, user) \<leftarrow> hev_socks5_user_new (alloc (dom (au_users self))) (True, True)
       n (word_of_nat (length n)) w (word_of_nat (length w)) self;
     (self, res) \<leftarrow> hev_socks5_authenticator_add self user;
     if res < 0 then do { self \<leftarrow> user_unref self user; Some (self, res) } else Some (self, res) }"
| "auth_do alloc (DelUser n) self = hev_socks5_authenticator_del self n (word_of_nat (length n))"

fun auth_run ::
  "(ptr set \<Rightarrow> ptr) \<Rightarrow> auth_op list \<Rightarrow> hev_socks5_authenticator \<Rightarrow> (hev_socks5_authenticator \<times> int list) option" where
  "auth_run alloc [] self = Some (self, [])"
| "auth_run alloc (x # xs) self = do {
     (self, r) \<leftarrow> auth_do alloc x self;
     (self, rs) \<leftarrow> auth_run alloc xs self;
     Some (self, r # rs) }"

text \<open>The credentials check of the server: the user is looked up and its password compared.\<close>

definition auth_verify ::
  "hev_socks5_authenticator \<Rightarrow> byte list \<Rightarrow> u32 \<Rightarrow> byte list \<Rightarrow> u32 \<Rightarrow> (ptr \<times> int) option" where
  "auth_verify self name nlen pass plen = do {
     user \<leftarrow> hev_socks5_authenticator_get self name nlen;
     if user = NULL then Some (NULL, -1)
     else do {
       u \<leftarrow> au_users self user;
       res \<leftarrow> hev_socks5_user_check u pass plen;
       Some (user, res) } }"

definition fits_u32 :: "byte list \<Rightarrow> bool" where
  "fits_u32 xs \<longleftrightarrow> length xs < 2 ^ 32"

fun auth_op_ok :: "auth_op \<Rightarrow> bool" where
  "auth_op_ok (AddUser n w) \<longleftrightarrow> fits_u32 n \<and> fits_u32 w"
| "auth_op_ok (DelUser n) \<longleftrightarrow> fits_u32 n"

definition fresh_ptrs :: "nat \<Rightarrow> (ptr set \<Rightarrow> ptr) \<Rightarrow> bool" where
  "fresh_ptrs cap alloc \<longleftrightarrow> (\<forall>U. card U \<le> cap \<longrightarrow> alloc U \<notin> U \<and> aligned (alloc U) \<and> alloc U \<noteq> NULL)"

lemma fits_u32_unat [simp]: "fits_u32 xs \<Longrightarrow> unat (word_of_nat (length xs) :: u32) = length xs"
  by (simp add: fits_u32_def unat_of_nat)

text \<open>\<open>auth_holds self m\<close>: the users of the tree, which are all there are, are the entries of \<open>m\<close>.\<close>

definition auth_holds :: "hev_socks5_authenticator \<Rightarrow> (byte list \<rightharpoonup> byte list) \<Rightarrow> bool" where
  "auth_holds self m \<longleftrightarrow> auth_inv self (dom (au_users self))
     \<and> (\<forall>p u. au_users self p = Some u \<longrightarrow> user_ref_count u = 1 \<and> m (user_name u) = Some (user_pass u))
     \<and> dom m \<subseteq> user_key self ` dom (au_users self)"

lemma auth_holds_key:
  "auth_holds self m \<Longrightarrow> user_key self ` dom (au_users self) = dom m"
  by (fastforce simp: auth_holds_def user_key_def)

lemma auth_holds_card:
  assumes "auth_holds self m"
  shows "card (dom (au_users self)) = card (dom m)"
proof -
  have "inj_on (user_key self) (dom (au_users self))"
    using assms by_length.keyed_unique unfolding auth_holds_def auth_inv_def inj_on_def by blast
  then show ?thesis using auth_holds_key [OF assms] by (metis card_image)
qed

lemma auth_del_holds:
  assumes h: "auth_holds self m" and n: "fits_u32 n"
  shows "\<exists>self'. auth_do alloc (DelUser n) self = Some (self', snd (user_db_op (DelUser n) m))
    \<and> auth_holds self' (fst (user_db_op (DelUser n) m))"
proof (cases "n \<in> dom m")
  case False
  then show ?thesis
    using auth_del_inv(2) [of self "dom (au_users self)" "word_of_nat (length n)" n] h auth_holds_key [OF h] n
    by (auto simp: auth_holds_def)
next
  case True
  then obtain p where p: "p \<in> dom (au_users self)" "user_key self p = n" using auth_holds_key [OF h] by (metis imageE)
  have inv: "auth_inv self (dom (au_users self))" using h by (simp add: auth_holds_def)
  obtain s1 where s1: "hev_socks5_authenticator_del self n (word_of_nat (length n)) = Some (s1, 0)"
    "auth_inv s1 (dom (au_users self) - {p})" "au_users s1 = dropped_users (au_users self) p"
    using auth_del_inv(1) [OF inv fits_u32_unat [OF n] p] by auto
  have us: "au_users s1 = (au_users self)(p := None)"
    using s1(3) h p(1) by (auto simp: dropped_users_def auth_holds_def split: option.splits)
  have un: "user_name u \<noteq> n" if "au_users self q = Some u" "q \<noteq> p" for q u
    using that p by_length.keyed_unique [of "user_key self" "au_tree self" "dom (au_users self)" q p] inv
    by (auto simp: auth_inv_def user_key_def)
  have "dom (m(n := None)) \<subseteq> user_key s1 ` dom (au_users s1)"
  proof
    fix x assume x: "x \<in> dom (m(n := None))"
    then have "x \<in> dom m" by (auto split: if_splits)
    then obtain q where q: "q \<in> dom (au_users self)" "user_key self q = x"
      using auth_holds_key [OF h] by (metis imageE)
    then have "q \<noteq> p" using x p by auto
    then have "user_key s1 q = x" "q \<in> dom (au_users s1)" using q us by (auto simp: user_key_def)
    then show "x \<in> user_key s1 ` dom (au_users s1)" by blast
  qed
  moreover have "dom (au_users s1) = dom (au_users self) - {p}" by (simp add: us)
  ultimately have "auth_holds s1 (m(n := None))"
    using s1(2) h un by (auto simp: auth_holds_def us)
  then show ?thesis using s1(1) True by auto
qed

lemma auth_add_holds:
  assumes h: "auth_holds self m" and ok: "fits_u32 n" "fits_u32 w"
    and al: "fresh_ptrs cap alloc" "card (dom m) \<le> cap"
  shows "\<exists>self'. auth_do alloc (AddUser n w) self = Some (self', snd (user_db_op (AddUser n w) m))
    \<and> auth_holds self' (fst (user_db_op (AddUser n w) m))"
proof -
  define p where "p = alloc (dom (au_users self))"
  have p: "p \<notin> dom (au_users self)" "aligned p" "p \<noteq> NULL"
    using al auth_holds_card [OF h] by (auto simp: fresh_ptrs_def p_def)
  define u where "u = \<lparr>user_name = n, user_pass = w, user_name_len = word_of_nat (length n),
     user_pass_len = word_of_nat (length w), user_ref_count = 1\<rparr>"
  define s1 where "s1 = self\<lparr>au_tree := (au_tree self)\<lparr>nodes := (nodes (au_tree self))(p \<mapsto>
      \<lparr>parent_color = 0, node_right = NULL, node_left = NULL\<rparr>)\<rparr>, au_users := (au_users self)(p \<mapsto> u)\<rparr>"
  let ?N = "dom (au_users self)"
  have new: "hev_socks5_user_new p (True, True) n (word_of_nat (length n)) w (word_of_nat (length w)) self = Some (s1, p)"
    using p(3) ok by (simp add: hev_socks5_user_new_def hev_socks5_user_construct_def malloc_copy_def s1_def u_def)
  have inv: "auth_inv self ?N" using h by (simp add: auth_holds_def)
  have key: "user_key s1 q = (if q = p then n else user_key self q)" for q by (simp add: user_key_def s1_def u_def)
  have "keyed_tree name_cmp (user_key s1) (au_tree s1) ?N"
    by (rule keyed_tree_cong [where key = "user_key self" and s = "au_tree self"])
       (use inv p(1) key in \<open>auto simp: auth_inv_def s1_def\<close>)
  moreover have "user_ok u" using ok by (simp add: user_ok_def u_def)
  ultimately have inv1: "auth_inv s1 ?N" using inv by (auto simp: auth_inv_def s1_def)
  have "user_key s1 ` ?N = user_key self ` ?N" by (rule image_cong) (use key p(1) in auto)
  then have im: "user_key s1 ` ?N = dom m" using auth_holds_key [OF h] by simp
  have u1: "au_users s1 p = Some u" "nodes (au_tree s1) p \<noteq> None" by (simp_all add: s1_def)
  note add = auth_add_inv [OF inv1 u1(1) p u1(2)]
  show ?thesis
  proof (cases "m n")
    case None
    then obtain t where t: "hev_socks5_authenticator_add s1 p = Some (s1\<lparr>au_tree := t\<rparr>, 0)"
      "auth_inv (s1\<lparr>au_tree := t\<rparr>) (insert p ?N)"
      using add(2) im by (auto simp: u_def)
    have "auth_holds (s1\<lparr>au_tree := t\<rparr>) (m(n \<mapsto> w))"
    proof -
      have "user_key (s1\<lparr>au_tree := t\<rparr>) = user_key s1" by (simp add: fun_eq_iff user_key_def)
      moreover have "user_name v \<noteq> n" if "au_users self q = Some v" for q v
        using that None h by (auto simp: auth_holds_def)
      ultimately show ?thesis
        using t(2) h im key p(1) by (auto simp: auth_holds_def s1_def u_def)
    qed
    then show ?thesis using new t(1) None by (simp add: p_def [symmetric])
  next
    case (Some w')
    then have "hev_socks5_authenticator_add s1 p = Some (s1, -1)"
      using add(1) im by (auto simp: u_def)
    moreover define s2 where "s2 = self\<lparr>au_tree := (au_tree self)\<lparr>nodes := (nodes (au_tree self))(p := None)\<rparr>,
      au_users := (au_users self)(p := None)\<rparr>"
    have s2: "user_unref s1 p = Some s2" "au_users s2 = (au_users self)(p := None)"
      "au_tree s2 = (au_tree self)\<lparr>nodes := (nodes (au_tree self))(p := None)\<rparr>"
      by (simp_all add: s2_def user_unref_def s1_def u_def hev_socks5_user_destruct_def)
    have us: "au_users s2 = au_users self" using s2(2) p(1) by (auto simp: fun_eq_iff)
    moreover have "keyed_tree name_cmp (user_key s2) (au_tree s2) ?N"
      by (rule keyed_tree_cong [where key = "user_key self" and s = "au_tree self"])
         (use inv p(1) s2(3) us in \<open>auto simp: auth_inv_def user_key_def\<close>)
    then have "auth_holds s2 m"
      using h us by (auto simp: auth_holds_def auth_inv_def user_key_def)
    ultimately show ?thesis using new Some s2(1) by (auto simp: p_def [symmetric])
  qed
qed

lemma user_db_op_card: "finite (dom m) \<Longrightarrow> card (dom (fst (user_db_op x m))) \<le> Suc (card (dom m)) \<and> finite (dom (fst (user_db_op x m)))"
  by (cases x) (auto simp: card_insert_if card_Diff1_le intro: le_SucI)

lemma auth_run_holds:
  assumes "auth_holds self m" "\<forall>x\<in>set xs. auth_op_ok x" "fresh_ptrs cap alloc" "card (dom m) + length xs \<le> cap"
  shows "\<exists>self'. auth_run alloc xs self = Some (self', snd (user_db_run xs m))
    \<and> auth_holds self' (fst (user_db_run xs m))"
  using assms
proof (induction xs arbitrary: self m)
  case (Cons x xs)
  obtain s1 where s1: "auth_do alloc x self = Some (s1, snd (user_db_op x m))" "auth_holds s1 (fst (user_db_op x m))"
  proof (cases x)
    case (AddUser n w)
    then show ?thesis using that Cons.prems auth_add_holds [OF Cons.prems(1) _ _ Cons.prems(3), of n w]
      by (auto simp del: auth_do.simps user_db_op.simps)
  next
    case (DelUser n)
    then show ?thesis using that Cons.prems auth_del_holds [OF Cons.prems(1), of n]
      by (auto simp del: auth_do.simps user_db_op.simps)
  qed
  have "finite (dom m)" using auth_holds_key [OF Cons.prems(1)] by (metis finite_imageI finite)
  then have "card (dom (fst (user_db_op x m))) + length xs \<le> cap"
    using user_db_op_card [of m x] Cons.prems(4) by auto
  from Cons.IH [OF s1(2) _ Cons.prems(3) this] Cons.prems(2) s1(1) show ?case
    by (auto simp: case_prod_beta Let_def)
qed simp

text \<open>
  \<open>auth_serves self N m\<close>: the users \<open>N\<close> of the tree are the entries of \<open>m\<close>, whoever else holds references to
  them, as long as their counters have room; users that were deleted may still be held.
\<close>

definition auth_serves :: "hev_socks5_authenticator \<Rightarrow> ptr set \<Rightarrow> (byte list \<rightharpoonup> byte list) \<Rightarrow> bool" where
  "auth_serves self N m \<longleftrightarrow> auth_inv self N \<and> dom m = user_key self ` N
     \<and> (\<forall>p u. p \<in> N \<longrightarrow> au_users self p = Some u \<longrightarrow> m (user_name u) = Some (user_pass u) \<and> user_ref_count u < 0xFFFFFFFF)"

lemma auth_holds_serves: "auth_holds self m \<Longrightarrow> auth_serves self (dom (au_users self)) m"
  using auth_holds_key [of self m] by (auto simp: auth_holds_def auth_serves_def)

lemma auth_verify_serves:
  assumes h: "auth_serves self N m" and n: "unat nlen = length n" "unat plen = length w"
  shows "\<exists>p r. auth_verify self n nlen w plen = Some (p, r) \<and> (r = 0 \<longleftrightarrow> m n = Some w) \<and> (r = 0 \<or> r = -1)
    \<and> (r = 0 \<longrightarrow> p \<in> N \<and> user_key self p = n)"
proof -
  have inv: "auth_inv self N" and key: "user_key self ` N = dom m" using h by (auto simp: auth_serves_def)
  show ?thesis
  proof (cases "n \<in> dom m")
    case True
    then obtain p u where p: "p \<in> N" "user_key self p = n" "au_users self p = Some u"
      using key inv by (metis imageE domD auth_inv_def subsetD)
    then have u: "unat (user_pass_len u) = length (user_pass u)" "m n = Some (user_pass u)"
      using h by (auto simp: auth_serves_def auth_inv_def user_ok_def user_key_def)
    have "p \<noteq> NULL"
      using inv keyed_tree_alloc [of name_cmp "user_key self" "au_tree self" _ p] p(1) by (auto simp: auth_inv_def)
    then show ?thesis
      using auth_get_inv(1) [OF inv n(1) p(1,2)] p u n(2)
      by (auto simp: auth_verify_def hev_socks5_user_check_def memcmp_buf_def memcmp_def word_unat_eq_iff)
  next
    case False
    then show ?thesis
      using auth_get_inv(2) [OF inv n(1)] key by (auto simp: auth_verify_def)
  qed
qed

lemma auth_new_holds: "hev_socks5_authenticator_new True Map.empty Map.empty = Some self \<Longrightarrow> auth_holds self Map.empty"
  by (auto simp: hev_socks5_authenticator_new_def hev_socks5_authenticator_construct_def auth_holds_def auth_inv_def
      keyed_tree_empty)

section \<open>Properties\<close>

text \<open>
  C11. The user database is a map from names to passwords. After any sequence of additions and
  deletions on a new authenticator, which never faults and returns 0 or -1 as the map says, a
  name and a password are accepted (looked up and compared equal) exactly if the map has that
  entry.
\<close>

theorem authenticator_is_map:
  assumes "hev_socks5_authenticator_new True Map.empty Map.empty = Some self"
    and "\<forall>x\<in>set xs. auth_op_ok x" "fresh_ptrs cap alloc" "length xs \<le> cap" "fits_u32 n" "fits_u32 w"
  shows "\<exists>self' p r. auth_run alloc xs self = Some (self', snd (user_db_run xs Map.empty))
    \<and> auth_verify self' n (word_of_nat (length n)) w (word_of_nat (length w)) = Some (p, r)
    \<and> (r = 0 \<longleftrightarrow> fst (user_db_run xs Map.empty) n = Some w)"
proof -
  obtain self' where "auth_run alloc xs self = Some (self', snd (user_db_run xs Map.empty))"
    "auth_holds self' (fst (user_db_run xs Map.empty))"
    using auth_run_holds [OF auth_new_holds [OF assms(1)] assms(2,3)] assms(4) by auto
  then show ?thesis
    using auth_verify_serves [OF auth_holds_serves, of self' _ "word_of_nat (length n)" n "word_of_nat (length w)" w] assms(5,6) by fastforce
qed

definition three_ptrs :: "ptr set \<Rightarrow> ptr" where
  "three_ptrs U = (if 8 \<notin> U then 8 else if 16 \<notin> U then 16 else 24)"

lemma three_ptrs_fresh: "fresh_ptrs 2 three_ptrs"
proof -
  have "24 \<notin> U" if "card U \<le> 2" "(8 :: ptr) \<in> U" "(16 :: ptr) \<in> U" for U :: "ptr set"
  proof
    assume "24 \<in> U"
    then have "card {8, 16, 24 :: ptr} \<le> card U" using that by (intro card_mono) auto
    with that(1) show False by simp
  qed
  then show ?thesis by (auto simp: fresh_ptrs_def three_ptrs_def aligned_def)
qed

theorem authenticator_is_map_witness:
  "\<exists>self self' p r. hev_socks5_authenticator_new True Map.empty Map.empty = Some self
    \<and> auth_run three_ptrs [AddUser [97] [1], AddUser [97] [2]] self = Some (self', [0, -1])
    \<and> auth_verify self' [97] (word_of_nat 1) [1] (word_of_nat 1) = Some (p, r) \<and> r = 0"
proof -
  obtain self where s: "hev_socks5_authenticator_new True Map.empty Map.empty = Some self"
    by (simp add: hev_socks5_authenticator_new_def hev_socks5_authenticator_construct_def)
  then show ?thesis
    using authenticator_is_map [OF s _ three_ptrs_fresh, of "[AddUser [97] [1], AddUser [97] [2]]" "[97]" "[1]"]
    by (auto simp: fits_u32_def)
qed

text \<open>
  Clearing the authenticator ends, leaves an empty tree, and drops exactly one reference of
  every user that was in it: a user nobody else holds is freed, any other keeps its fields with
  one reference less, and users outside the tree are untouched.
\<close>

theorem authenticator_clear_unrefs:
  assumes "auth_inv self N"
  shows "\<exists>self'. hev_socks5_authenticator_destruct self = Some self' \<and> auth_inv self' {}
    \<and> (\<forall>p u. p \<in> N \<longrightarrow> au_users self p = Some u \<longrightarrow> au_users self' p =
        (if user_ref_count u = 1 then None else Some (u\<lparr>user_ref_count := user_ref_count u - 1\<rparr>)))
    \<and> (\<forall>p. p \<notin> N \<longrightarrow> au_users self' p = au_users self p)"
proof -
  obtain self' where s: "hev_socks5_authenticator_clear self = Some self'" "auth_inv self' {}"
    "\<forall>p. au_users self' p = (if p \<in> N then dropped_users (au_users self) p p else au_users self p)"
    using auth_clear_inv [OF assms] by blast
  have "1 < user_ref_count u \<longleftrightarrow> user_ref_count u \<noteq> 1" if "au_users self p = Some u" for p u
  proof -
    have "0 < user_ref_count u" using assms that unfolding auth_inv_def user_ok_def by blast
    then show ?thesis by unat_arith
  qed
  then show ?thesis using s by (auto simp: hev_socks5_authenticator_destruct_def dropped_users_def)
qed

theorem authenticator_clear_unrefs_witness:
  "\<exists>self0 self p self'. hev_socks5_authenticator_new True Map.empty Map.empty = Some self0
    \<and> auth_run three_ptrs [AddUser [97] [1]] self0 = Some (self, [0]) \<and> au_users self p \<noteq> None
    \<and> hev_socks5_authenticator_destruct self = Some self' \<and> au_users self' p = None"
proof -
  obtain self0 where s0: "hev_socks5_authenticator_new True Map.empty Map.empty = Some self0"
    by (simp add: hev_socks5_authenticator_new_def hev_socks5_authenticator_construct_def)
  then obtain self where s: "auth_run three_ptrs [AddUser [97] [1]] self0 = Some (self, [0])" "auth_holds self [[97] \<mapsto> [1]]"
    using auth_run_holds [OF auth_new_holds [OF s0] _ three_ptrs_fresh, of "[AddUser [97] [1]]"]
    by (auto simp: fits_u32_def)
  have "[97] \<in> user_key self ` dom (au_users self)" using auth_holds_key [OF s(2)] by simp
  then obtain p u where p: "au_users self p = Some u" by auto
  then have "auth_inv self (dom (au_users self))" "user_ref_count u = 1" using s(2) by (auto simp: auth_holds_def)
  from authenticator_clear_unrefs [OF this(1)] this(2) p
  have "\<exists>self'. hev_socks5_authenticator_destruct self = Some self' \<and> au_users self' p = None" by force
  with s0 s(1) p show ?thesis by blast
qed

end
