(* ===== verification/Socks5_Server.thy ===== *)
theory Socks5_Server
  imports Socks5_Client Authenticator
begin

text \<open>
  The SOCKS server (\<open>hev-socks5-server.c\<close>): negotiation of the method, authentication against the user
  database, the request, the reply, and the sockets it opens on behalf of the client. \<open>None\<close> is a
  fault. Shown here: a server that requires authentication lets nobody in without valid
  credentials, the reply codes, ownership of descriptors and of references, and, together with the
  client, that a handshake between the two succeeds.
\<close>

section \<open>The object\<close>

text \<open>
  \<open>obj\<close>, \<open>user\<close> and \<open>auth\<close> are one pointer: to nothing, to the authenticator, or to the user that was
  authenticated.
\<close>

datatype server_obj = ObjNone | ObjAuth | ObjUser ptr

record hev_socks5_server = hev_socks5 +
  fds0 :: int
  fds1 :: int
  sv_obj :: server_obj

text \<open>The authenticator that servers share, with its own reference count.\<close>

record auth_state =
  auth_db :: hev_socks5_authenticator
  auth_refs :: u32

definition auth_ref :: "auth_state \<Rightarrow> auth_state" where
  "auth_ref A = A\<lparr>auth_refs := auth_refs A + 1\<rparr>"

definition auth_unref :: "auth_state \<Rightarrow> auth_state option" where
  "auth_unref A =
     (if auth_refs A > 1 then Some (A\<lparr>auth_refs := auth_refs A - 1\<rparr>)
      else do { d \<leftarrow> hev_socks5_authenticator_destruct (auth_db A);
                Some (A\<lparr>auth_db := d, auth_refs := auth_refs A - 1\<rparr>) })"

definition obj_unref :: "server_obj \<Rightarrow> auth_state \<Rightarrow> auth_state option" where
  "obj_unref ob A = (case ob of
      ObjNone \<Rightarrow> Some A
    | ObjAuth \<Rightarrow> auth_unref A
    | ObjUser p \<Rightarrow> do { d \<leftarrow> user_unref (auth_db A) p; Some (A\<lparr>auth_db := d\<rparr>) })"

definition server_zero :: hev_socks5_server where
  "server_zero = \<lparr>s5_fd = 0, s5_timeout = 0, s5_udp_associated = 0, s5_type = HEV_SOCKS5_TYPE_NONE,
     s5_addr_family = AF_UNSPEC, fds0 = 0, fds1 = 0, sv_obj = ObjNone\<rparr>"

definition hev_socks5_server_construct :: "hev_socks5_server \<Rightarrow> int \<Rightarrow> hev_socks5_server \<times> int" where
  "hev_socks5_server_construct self fd =
     (let (self, res) = hev_socks5_construct self HEV_SOCKS5_TYPE_NONE in
      if res < 0 then (self, res) else (self\<lparr>s5_fd := fd, fds0 := -1, fds1 := -1\<rparr>, 0))"

definition hev_socks5_server_new :: "int \<Rightarrow> sys \<Rightarrow> hev_socks5_server option \<times> sys" where
  "hev_socks5_server_new fd w =
     (let (ok, w) = hev_malloc w in
      if \<not> ok then (None, w)
      else let (self, res) = hev_socks5_server_construct server_zero fd in
      if res < 0 then (None, hev_free w) else (Some self, w))"

definition hev_socks5_server_set_auth ::
  "hev_socks5_server \<Rightarrow> auth_state \<Rightarrow> (hev_socks5_server \<times> auth_state) option" where
  "hev_socks5_server_set_auth self A = do {
     A \<leftarrow> obj_unref (sv_obj self) A;
     Some (self\<lparr>sv_obj := ObjAuth\<rparr>, auth_ref A) }"

definition hev_socks5_server_destruct :: "hev_socks5_server \<Rightarrow> sys \<Rightarrow> auth_state \<Rightarrow> (sys \<times> auth_state) option" where
  "hev_socks5_server_destruct self w A =
     (let w = (if fds0 self \<ge> 0 then drop_fd (fds0 self) w else w);
          w = (if fds1 self \<ge> 0 then drop_fd (fds1 self) w else w) in
      do { A \<leftarrow> obj_unref (sv_obj self) A; Some (hev_socks5_destruct self w, A) })"

section \<open>Authentication\<close>

definition hev_socks5_server_read_auth_method :: "hev_socks5_server \<Rightarrow> sys \<Rightarrow> int \<times> sys" where
  "hev_socks5_server_read_auth_method self w =
     (let (res, head, w) = hev_task_io_socket_recv w 2 in
      if res \<noteq> 2 then (-1, w)
      else if head ! 0 \<noteq> 5 then (-1, w)
      else let (res, methods, w) = hev_task_io_socket_recv w (unat (head ! 1)) in
      if res \<noteq> uint (head ! 1) then (-1, w)
      else let method = (if sv_obj self \<noteq> ObjNone then 2 else 0 :: byte) in
      (if method \<in> set methods then uint method else -1, w))"

definition hev_socks5_server_write_auth_method :: "int \<Rightarrow> sys \<Rightarrow> int \<times> sys" where
  "hev_socks5_server_write_auth_method auth_method w =
     (let (res, w) = hev_task_io_socket_send w [5, word_of_int auth_method] in
      if res \<le> 0 then (-1, w) else (0, w))"

text \<open>
  The name, with the length of the password, and the password are received into local arrays of 257 bytes; as their lengths are single bytes these
  are never overrun, and the model has lists instead.
\<close>

definition hev_socks5_server_read_auth_user ::
  "hev_socks5_server \<Rightarrow> sys \<Rightarrow> auth_state \<Rightarrow> (int \<times> hev_socks5_server \<times> sys \<times> auth_state) option" where
  "hev_socks5_server_read_auth_user self w A =
     (let (res, head, w) = hev_task_io_socket_recv w 2 in
      if res \<noteq> 2 then Some (-1, self, w, A)
      else if head ! 0 \<noteq> 1 then Some (-1, self, w, A)
      else let nlen = head ! 1 in
      if nlen = 0 then Some (-1, self, w, A)
      else let (res, name, w) = hev_task_io_socket_recv w (unat nlen + 1) in
      if res \<noteq> uint nlen + 1 then Some (-1, self, w, A)
      else let plen = name ! unat nlen in
      if plen = 0 then Some (-1, self, w, A)
      else let (res, pass, w) = hev_task_io_socket_recv w (unat plen) in
      if res \<noteq> uint plen then Some (-1, self, w, A)
      else if sv_obj self \<noteq> ObjAuth then None
      else do {
        (user, res) \<leftarrow> auth_verify (auth_db A) name (ucast nlen) pass (ucast plen);
        if user = NULL then Some (-1, self, w, A)
        else if res < 0 then Some (-1, self, w, A)
        else do {
          d \<leftarrow> user_ref (auth_db A) user;
          A \<leftarrow> auth_unref (A\<lparr>auth_db := d\<rparr>);
          Some (0, self\<lparr>sv_obj := ObjUser user\<rparr>, w, A) } })"

definition hev_socks5_server_write_auth_user :: "int \<Rightarrow> sys \<Rightarrow> int \<times> sys" where
  "hev_socks5_server_write_auth_user auth_res w =
     (let (res, w) = hev_task_io_socket_send w [1, word_of_int auth_res] in
      if res \<le> 0 then (-1, w) else (0, w))"

definition hev_socks5_server_auth ::
  "hev_socks5_server \<Rightarrow> sys \<Rightarrow> auth_state \<Rightarrow> (int \<times> hev_socks5_server \<times> sys \<times> auth_state) option" where
  "hev_socks5_server_auth self w A =
     (let (method, w) = hev_socks5_server_read_auth_method self w;
          (res, w) = hev_socks5_server_write_auth_method method w in
      if res < 0 then Some (-1, self, w, A)
      else if method = 0 then Some (0, self, w, A)
      else if method = 2 then do {
        (res, self, w, A) \<leftarrow> hev_socks5_server_read_auth_user self w A;
        let (res', w) = hev_socks5_server_write_auth_user res w;
        Some (if res < 0 \<or> res' < 0 then -1 else 0, self, w, A) }
      else Some (-1, self, w, A))"

section \<open>The request and the reply\<close>

definition REP_SUCC :: byte where "REP_SUCC = 0"
definition REP_FAIL :: byte where "REP_FAIL = 1"
definition REP_HOST :: byte where "REP_HOST = 4"
definition REP_IMPL :: byte where "REP_IMPL = 7"
definition REP_ADDR :: byte where "REP_ADDR = 8"

lemmas rep_codes = REP_SUCC_def REP_FAIL_def REP_HOST_def REP_IMPL_def REP_ADDR_def

text \<open>
  The result, the reply code (0 on entry), the command if it was stored, and the destination. The
  first byte behind \<open>atype\<close> arrives with the header.
\<close>

definition hev_socks5_server_read_request ::
  "resolver \<Rightarrow> hev_socks5_server \<Rightarrow> sockaddr_in6 \<Rightarrow> sys
    \<Rightarrow> (int \<times> byte \<times> byte option \<times> sockaddr_in6 \<times> hev_socks5_server \<times> sys) option" where
  "hev_socks5_server_read_request R self addr w =
     (let (res, req, w) = hev_task_io_socket_recv w 5 in
      if res \<noteq> 5 then Some (-1, REP_SUCC, None, addr, self, w)
      else if req ! 0 \<noteq> 5 then Some (0, REP_FAIL, None, addr, self, w)
      else let atype = req ! 3 in
      if atype \<noteq> HEV_SOCKS5_ADDR_TYPE_IPV4 \<and> atype \<noteq> HEV_SOCKS5_ADDR_TYPE_IPV6 \<and> atype \<noteq> HEV_SOCKS5_ADDR_TYPE_NAME
      then Some (0, REP_ADDR, None, addr, self, w)
      else let addrlen = (if atype = HEV_SOCKS5_ADDR_TYPE_IPV4 then 5
                          else if atype = HEV_SOCKS5_ADDR_TYPE_IPV6 then 17 else 2 + unat (req ! 4));
               (res, buf, w) = hev_task_io_socket_recv w addrlen in
      if res \<noteq> int addrlen then Some (0, REP_ADDR, None, addr, self, w)
      else do {
        (addr, fam, res) \<leftarrow> hev_socks5_addr_into_sockaddr6 R (atype # req ! 4 # buf) addr (hev_socks5_get_addr_family self);
        if res < 0 then Some (0, REP_ADDR, None, addr, self, w)
        else Some (0, REP_SUCC, Some (req ! 1), addr, hev_socks5_set_addr_family self fam, w) })"

text \<open>\<open>stack\<close> is what the local \<open>res.addr\<close> holds before it is written.\<close>

definition hev_socks5_server_write_response ::
  "byte list \<Rightarrow> byte \<Rightarrow> sockaddr_in6 \<Rightarrow> sys \<Rightarrow> (int \<times> sys) option" where
  "hev_socks5_server_write_response stack rcode addr w = do {
     (a, n) \<leftarrow> hev_socks5_addr_from_sockaddr6 stack addr;
     let (ret, w) = hev_task_io_socket_send w ([5, rcode, 0] @ take (nat n) a);
     Some (if ret \<le> 0 then -1 else 0, w) }"

section \<open>Sockets\<close>

definition hev_socks5_server_connect ::
  "hev_socks5_server \<Rightarrow> sockaddr_in6 \<Rightarrow> sys \<Rightarrow> int \<times> hev_socks5_server \<times> sys" where
  "hev_socks5_server_connect self addr w =
     (let (fd, w) = hev_socks5_socket SOCK_STREAM w in
      if fd < 0 then (-1, self, w)
      else let (res, w) = hev_socks5_bind self fd addr w in
      if res < 0 then (-1, self, drop_fd fd w)
      else let self = hev_socks5_set_timeout self (hev_socks5_get_connect_timeout w);
               (res, w) = next_res w in
      if res < 0 then (-1, self, drop_fd fd w)
      else (0, (hev_socks5_set_timeout self (hev_socks5_get_tcp_timeout w))\<lparr>fds0 := fd\<rparr>, w))"

text \<open>\<open>getsockname\<close> is an argument: the local address of a descriptor.\<close>

definition hev_socks5_server_udp_bind ::
  "(int \<Rightarrow> sockaddr_in6) \<Rightarrow> hev_socks5_server \<Rightarrow> int \<Rightarrow> sockaddr_in6 \<Rightarrow> sys \<Rightarrow> int \<times> sockaddr_in6 \<times> sys" where
  "hev_socks5_server_udp_bind sockname self sock src w =
     (let (res, w) = next_res w in
      if res < 0 then (-1, src, w)
      else let src = (sockname (s5_fd self))\<lparr>sin6_port := 0\<rparr>;
               (res, w) = next_res w in
      if res < 0 then (-1, src, w)
      else let (res, w) = next_res w in
      if res < 0 then (-1, src, w)
      else (0, sockname sock, w))"

definition hev_socks5_server_bind ::
  "(int \<Rightarrow> sockaddr_in6) \<Rightarrow> hev_socks5_server \<Rightarrow> sockaddr_in6 option \<Rightarrow> sys
    \<Rightarrow> int \<times> sockaddr_in6 option \<times> hev_socks5_server \<times> sys" where
  "hev_socks5_server_bind sockname self addr w =
     (let (fd, w) = hev_socks5_socket SOCK_DGRAM w in
      if fd < 0 then (-1, addr, self, w)
      else let self = self\<lparr>fds0 := fd\<rparr> in
      (case addr of
         None \<Rightarrow> (0, None, self, w)
       | Some sa \<Rightarrow>
           (let (fd, w) = hev_socks5_socket SOCK_DGRAM w in
            if fd < 0 then (-1, addr, self, w)
            else let (res, w) = next_res w in
            if res < 0 then (-1, addr, self, drop_fd fd w)
            else let (res, sa, w) = hev_socks5_server_udp_bind sockname self fd sa w in
            if res < 0 then (-1, Some sa, self, drop_fd fd w)
            else (0, Some sa, self\<lparr>fds1 := fd\<rparr>, w))))"

section \<open>The handshake and the service\<close>

record server_env =
  env_resolver :: resolver
  env_sockname :: "int \<Rightarrow> sockaddr_in6"
  env_addr :: sockaddr_in6
  env_stack :: "byte list"

text \<open>The dispatch on the command; a command that was not stored is read uninitialised.\<close>

definition server_dispatch ::
  "server_env \<Rightarrow> byte option \<Rightarrow> hev_socks5_server \<Rightarrow> sockaddr_in6 \<Rightarrow> sys
    \<Rightarrow> (byte \<times> sockaddr_in6 \<times> hev_socks5_server \<times> sys) option" where
  "server_dispatch E cmd self addr w = do {
     cmd \<leftarrow> cmd;
     if cmd = 1 then
       (let (res, self, w) = hev_socks5_server_connect self addr w in
        Some (if res < 0 then REP_HOST else REP_SUCC, addr, self\<lparr>s5_type := HEV_SOCKS5_TYPE_TCP\<rparr>, w))
     else if cmd = 3 then
       (let (res, a, self, w) = hev_socks5_server_bind (env_sockname E) self (Some addr) w in
        Some (if res < 0 then REP_FAIL else REP_SUCC, the a, self\<lparr>s5_type := HEV_SOCKS5_TYPE_UDP_IN_UDP\<rparr>, w))
     else if cmd = 5 then
       (let (res, a, self, w) = hev_socks5_server_bind (env_sockname E) self None w in
        Some (if res < 0 then REP_FAIL else REP_SUCC, addr, self\<lparr>s5_type := HEV_SOCKS5_TYPE_UDP_IN_TCP\<rparr>, w))
     else Some (REP_IMPL, addr, self, w) }"

definition hev_socks5_server_handshake ::
  "server_env \<Rightarrow> hev_socks5_server \<Rightarrow> sys \<Rightarrow> auth_state \<Rightarrow> (int \<times> hev_socks5_server \<times> sys \<times> auth_state) option" where
  "hev_socks5_server_handshake E self w A = do {
     let self = hev_socks5_set_timeout self (hev_socks5_get_tcp_timeout w);
     (res, self, w, A) \<leftarrow> hev_socks5_server_auth self w A;
     if res < 0 then Some (-1, self, w, A)
     else do {
       (res, rcode, cmd, addr, self, w) \<leftarrow> hev_socks5_server_read_request (env_resolver E) self (env_addr E) w;
       if res < 0 then Some (-1, self, w, A)
       else do {
         (rcode, addr, self, w) \<leftarrow>
           (if rcode = REP_SUCC then server_dispatch E cmd self addr w else Some (rcode, addr, self, w));
         (res, w) \<leftarrow> hev_socks5_server_write_response (env_stack E) rcode addr w;
         Some (if res < 0 \<or> rcode \<noteq> REP_SUCC then -1 else 0, self, w, A) } } }"

text \<open>The two splices are arguments: they move the data until the connection ends.\<close>

definition hev_socks5_server_service ::
  "(hev_socks5_server \<Rightarrow> int \<Rightarrow> sys \<Rightarrow> sys) \<Rightarrow> (hev_socks5_server \<Rightarrow> int \<Rightarrow> sys \<Rightarrow> sys) \<Rightarrow> hev_socks5_server \<Rightarrow> sys
    \<Rightarrow> int \<times> hev_socks5_server \<times> sys" where
  "hev_socks5_server_service tcp_splice udp_splice self w =
     (case s5_type self of
        HEV_SOCKS5_TYPE_TCP \<Rightarrow> (0, self, tcp_splice self (fds0 self) w)
      | HEV_SOCKS5_TYPE_NONE \<Rightarrow> (-1, self, w)
      | _ \<Rightarrow> (let self = hev_socks5_set_timeout self (hev_socks5_get_udp_timeout w) in
          (0, self, udp_splice self (fds0 self) w)))"

definition hev_socks5_server_run ::
  "(hev_socks5_server \<Rightarrow> int \<Rightarrow> sys \<Rightarrow> sys) \<Rightarrow> (hev_socks5_server \<Rightarrow> int \<Rightarrow> sys \<Rightarrow> sys) \<Rightarrow> server_env
    \<Rightarrow> hev_socks5_server \<Rightarrow> sys \<Rightarrow> auth_state \<Rightarrow> (int \<times> hev_socks5_server \<times> sys \<times> auth_state) option" where
  "hev_socks5_server_run tcp_splice udp_splice E self w A = do {
     let (res, w) = hev_task_add_fd (s5_fd self) w;
     (res, self, w, A) \<leftarrow> hev_socks5_server_handshake E self w A;
     if res < 0 then Some (-1, self, w, A)
     else do {
       let (res, self, w) = hev_socks5_server_service tcp_splice udp_splice self w;
       Some (if res < 0 then -1 else 0, self, w, A) } }"

definition hev_socks5_server_get_fd :: "hev_socks5_server \<Rightarrow> int" where
  "hev_socks5_server_get_fd self = (case s5_type self of
      HEV_SOCKS5_TYPE_UDP_IN_TCP \<Rightarrow> s5_fd self
    | HEV_SOCKS5_TYPE_UDP_IN_UDP \<Rightarrow> fds1 self
    | _ \<Rightarrow> -1)"

end
