(* ===== verification/Server_Auth.thy ===== *)
theory Server_Auth
  imports Socks5_Server
begin

text \<open>
  The authentication of \<open>hev-socks5-server.c\<close> against a user database that holds a map \<open>m\<close> from names to
  passwords (\<open>auth_serves\<close>): a client gets past it exactly with a name and a password of the map, and
  the server then holds a reference to that user instead of one to the authenticator.
\<close>

section \<open>References\<close>

lemma user_ref_inv:
  assumes h: "auth_serves d N m" and p: "p \<in> N" and u: "au_users d p = Some u"
  shows "\<exists>d'. user_ref d p = Some d' \<and> auth_inv d' N
    \<and> au_users d' = (au_users d)(p \<mapsto> u\<lparr>user_ref_count := user_ref_count u + 1\<rparr>)"
    and "0 < user_ref_count u" "1 < user_ref_count u + 1"
proof -
  define d' where "d' = d\<lparr>au_users := (au_users d)(p \<mapsto> u\<lparr>user_ref_count := user_ref_count u + 1\<rparr>)\<rparr>"
  have inv: "auth_inv d N" and rc: "user_ref_count u < 0xFFFFFFFF" using h p u by (auto simp: auth_serves_def)
  show pos: "0 < user_ref_count u" using inv u unfolding auth_inv_def user_ok_def by blast
  show more: "1 < user_ref_count u + 1" using rc pos by (unfold word_less_nat_alt) (simp add: unat_word_ariths)
  have "user_key d' = user_key d" using u by (auto simp: fun_eq_iff d'_def user_key_def)
  moreover have "user_ok (u\<lparr>user_ref_count := user_ref_count u + 1\<rparr>)"
    using inv u more unfolding auth_inv_def user_ok_def by (auto intro: less_trans [of 0 1])
  ultimately have "auth_inv d' N"
    using inv u by (auto simp: auth_inv_def d'_def)
  moreover have "user_ref d p = Some d'" using u by (simp add: user_ref_def d'_def)
  ultimately show "\<exists>d'. user_ref d p = Some d' \<and> auth_inv d' N
    \<and> au_users d' = (au_users d)(p \<mapsto> u\<lparr>user_ref_count := user_ref_count u + 1\<rparr>)" by (auto simp: d'_def)
qed

text \<open>The reference to the authenticator is exchanged for one to the user, who survives even if the authenticator does not.\<close>

lemma auth_exchange:
  assumes h: "auth_serves d N m" and p: "p \<in> N" and u: "au_users d p = Some u" and A: "auth_db A = d"
  shows "\<exists>d' A'. user_ref d p = Some d' \<and> auth_unref (A\<lparr>auth_db := d'\<rparr>) = Some A'
    \<and> (\<exists>u'. au_users (auth_db A') p = Some u' \<and> user_name u' = user_name u \<and> 0 < user_ref_count u')"
proof -
  obtain d' where d': "user_ref d p = Some d'" "auth_inv d' N"
    "au_users d' = (au_users d)(p \<mapsto> u\<lparr>user_ref_count := user_ref_count u + 1\<rparr>)"
    using user_ref_inv(1) [OF h p u] by blast
  note pos = user_ref_inv(2,3) [OF h p u]
  obtain d2 where d2: "hev_socks5_authenticator_clear d' = Some d2"
    "\<forall>q. au_users d2 q = (if q \<in> N then dropped_users (au_users d') q q else au_users d' q)"
    using auth_clear_inv [OF d'(2)] by blast
  then have "au_users d2 p = Some u"
    using p pos(2) d'(3) by (auto simp: dropped_users_def)
  with d2(1) d'(1,3) pos show ?thesis
    by (cases "auth_refs A > 1") (auto simp: auth_unref_def hev_socks5_authenticator_destruct_def intro: less_trans [of 0 1])
qed

section \<open>Receiving the credentials\<close>

lemma recv_zero: "fst (snd (hev_task_io_socket_recv w 0)) = []"
proof -
  have "fst (snd (recv_loop 0 [] ev)) = []" for ev by (induction ev rule: avail.induct) auto
  then show ?thesis by (auto simp: hev_task_io_socket_recv_def split: prod.splits) (metis fst_conv snd_conv)
qed

text \<open>What the bytes at the front of the stream say: a name and a password, with what follows.\<close>

definition creds_at :: "byte list \<Rightarrow> byte list \<Rightarrow> byte list \<Rightarrow> byte list \<Rightarrow> bool" where
  "creds_at bs n pw rest \<longleftrightarrow> bs = creds_message n pw @ rest \<and> n \<noteq> [] \<and> pw \<noteq> [] \<and> length n < 256 \<and> length pw < 256"

lemma byte_len: "unat (b :: byte) < 256"
proof -
  have "unat b < 2 ^ LENGTH(8)" by (rule unsigned_less)
  then show ?thesis by simp
qed

lemma creds_at_intro:
  assumes "2 \<le> length bs" "bs ! 0 = 1" "bs ! 1 \<noteq> 0"
    and n: "unat (bs ! 1) + 1 \<le> length (drop 2 bs)" and p: "(drop 2 bs) ! unat (bs ! 1) \<noteq> 0"
    and q: "unat ((drop 2 bs) ! unat (bs ! 1)) \<le> length (drop (unat (bs ! 1) + 3) bs)"
  shows "creds_at bs (take (unat (bs ! 1)) (drop 2 bs))
    (take (unat ((drop 2 bs) ! unat (bs ! 1))) (drop (unat (bs ! 1) + 3) bs))
    (drop (unat (bs ! 1) + 3 + unat ((drop 2 bs) ! unat (bs ! 1))) bs)"
proof -
  obtain a b r where bs: "bs = a # b # r" using assms(1) by (cases bs; cases "tl bs") auto
  define l where "l = unat b"
  have l: "l < length r" "bs ! 1 = b" using n by (auto simp: bs l_def)
  define s where "s = drop (Suc l) r"
  have r: "r = take l r @ r ! l # s" using l(1) by (simp add: s_def id_take_nth_drop)
  define k where "k = unat (r ! l)"
  have k: "k \<le> length s" using q by (simp add: bs l_def k_def s_def numeral_eq_Suc)
  have "b \<noteq> 0" "r ! l \<noteq> 0" using assms(3) p by (auto simp: bs l_def)
  then have pos: "0 < l" "0 < k" by (auto simp: l_def k_def unat_gt_0)
  have w: "word_of_nat l = b" "word_of_nat k = r ! l" by (simp_all add: l_def k_def)
  have "bs = creds_message (take l r) (take k s) @ drop k s"
    using r assms(2) w l(1) k by (simp add: bs creds_message_def)
  moreover have "take l r \<noteq> []" "take k s \<noteq> []" "length (take l r) < 256" "length (take k s) < 256"
    using pos l(1) k byte_len [of b] byte_len [of "r ! l"] by (auto simp: l_def k_def)
  ultimately have "creds_at bs (take l r) (take k s) (drop k s)" by (simp add: creds_at_def)
  moreover have "drop 2 bs = r" "drop (l + 3) bs = s" "drop (l + 3 + k) bs = drop k s"
    by (simp_all add: bs s_def numeral_3_eq_3 add.commute)
  ultimately show ?thesis by (simp only: l(2) l_def [symmetric] k_def [symmetric])
qed

definition parse_creds :: "byte list \<Rightarrow> (byte list \<times> byte list \<times> byte list) option" where
  "parse_creds bs =
     (let nlen = unat (bs ! 1); r = drop 2 bs; plen = unat (r ! nlen); s = drop (nlen + 1) r in
      if 2 \<le> length bs \<and> bs ! 0 = 1 \<and> bs ! 1 \<noteq> 0 \<and> nlen + 1 \<le> length r \<and> r ! nlen \<noteq> 0 \<and> plen \<le> length s
      then Some (take nlen r, take plen s, drop plen s) else None)"

lemma parse_creds_at: "parse_creds bs = Some (n, pw, rest) \<longleftrightarrow> creds_at bs n pw rest"
proof
  assume "parse_creds bs = Some (n, pw, rest)"
  then show "creds_at bs n pw rest"
    using creds_at_intro [of bs] by (auto simp: parse_creds_def Let_def add.commute add.left_commute numeral_3_eq_3 split: if_splits)
next
  assume c: "creds_at bs n pw rest"
  then have bs: "bs = 1 # word_of_nat (length n) # n @ word_of_nat (length pw) # pw @ rest"
    and ne: "n \<noteq> []" "pw \<noteq> []" "length n < 256" "length pw < 256"
    by (auto simp: creds_at_def creds_message_def)
  have "(word_of_nat (length n) :: byte) \<noteq> 0" "(word_of_nat (length pw) :: byte) \<noteq> 0"
    using ne unat_byte_len(1) [of n] unat_byte_len(1) [of pw] by (metis length_0_conv unat_0)+
  with ne show "parse_creds bs = Some (n, pw, rest)"
    by (simp add: parse_creds_def bs Let_def nth_append)
qed

lemma byte_to_u32: "(ucast (b :: byte) :: u32) = word_of_nat (unat b)" "unat (ucast (b :: byte) :: u32) = unat b"
proof -
  show "(ucast b :: u32) = word_of_nat (unat b)" by simp
  have "unat b < 2 ^ 32" using byte_len [of b] by simp
  then show "unat (ucast b :: u32) = unat b" by (simp add: unsigned_ucast_eq take_bit_nat_eq_self)
qed

lemma auth_verify_prefix:
  assumes "unat nlen \<le> length name" "unat plen \<le> length pass"
  shows "auth_verify d name nlen pass plen = auth_verify d (take (unat nlen) name) nlen (take (unat plen) pass) plen"
proof -
  have "memcmp_buf a name (unat nlen) = memcmp_buf a (take (unat nlen) name) (unat nlen)" for a
    using assms(1) by (simp add: memcmp_buf_def memcmp_def)
  then have "user_cmp d name nlen p = user_cmp d (take (unat nlen) name) nlen p" for p
    by (cases "au_users d p") (auto simp: user_cmp_def)
  then have "user_cmp d name nlen = user_cmp d (take (unat nlen) name) nlen" by blast
  moreover have "hev_socks5_user_check u pass plen = hev_socks5_user_check u (take (unat plen) pass) plen" for u
    using assms(2) by (auto simp: hev_socks5_user_check_def memcmp_buf_def memcmp_def)
  moreover define g where "g = hev_socks5_authenticator_get d (take (unat nlen) name) nlen"
  ultimately have get: "hev_socks5_authenticator_get d name nlen = g"
    and chk: "\<And>u. hev_socks5_user_check u pass plen = hev_socks5_user_check u (take (unat plen) pass) plen"
    by (simp_all add: hev_socks5_authenticator_get_def)
  show ?thesis
  proof (cases g)
    case (Some user)
    then show ?thesis
      using get g_def by (cases "au_users d user") (simp_all add: auth_verify_def chk [symmetric])
  qed (use get g_def in \<open>simp add: auth_verify_def\<close>)
qed

lemma read_auth_user_parse:
  assumes obj: "sv_obj self = ObjAuth"
  obtains (unread) ev where "parse_creds (avail (rx w)) = None"
    "hev_socks5_server_read_auth_user self w A = Some (-1, self, w\<lparr>rx := ev\<rparr>, A)"
  | (verify) n pw rest ev where "parse_creds (avail (rx w)) = Some (n, pw, rest)" "avail ev = rest"
    "hev_socks5_server_read_auth_user self w A = do {
        (user, res) \<leftarrow> auth_verify (auth_db A) n (word_of_nat (length n)) pw (word_of_nat (length pw));
        if user = NULL then Some (-1, self, w\<lparr>rx := ev\<rparr>, A)
        else if res < 0 then Some (-1, self, w\<lparr>rx := ev\<rparr>, A)
        else do {
          d \<leftarrow> user_ref (auth_db A) user;
          A \<leftarrow> auth_unref (A\<lparr>auth_db := d\<rparr>);
          Some (0, self\<lparr>sv_obj := ObjUser user\<rparr>, w\<lparr>rx := ev\<rparr>, A) } }"
proof -
  let ?av = "avail (rx w)"
  obtain r1 b1 e1 where 1: "hev_task_io_socket_recv w 2 = (r1, b1, w\<lparr>rx := e1\<rparr>)" "r1 = int 2 \<longleftrightarrow> 2 \<le> length ?av"
    "2 \<le> length ?av \<Longrightarrow> b1 = take 2 ?av \<and> avail e1 = drop 2 ?av"
    by (rule recv_step [of 2 w]) auto
  show thesis
  proof (cases "2 \<le> length ?av \<and> ?av ! 0 = 1 \<and> ?av ! 1 \<noteq> 0")
    case False
    have "hev_socks5_server_read_auth_user self w A = Some (-1, self, w\<lparr>rx := e1\<rparr>, A)"
      using False 1 by (cases "2 \<le> length ?av") (auto simp: hev_socks5_server_read_auth_user_def Let_def)
    moreover have "parse_creds ?av = None" using False by (auto simp: parse_creds_def Let_def)
    ultimately show thesis using unread by blast
  next
    case c1: True
    define nl where "nl = ?av ! 1"
    define r where "r = drop 2 ?av"
    have b1: "b1 ! 0 = 1" "b1 ! 1 = nl" "r1 = 2" "avail e1 = r" "nl \<noteq> 0" using 1 c1 by (auto simp: nl_def r_def)
    obtain r2 b2 e2 where 2: "hev_task_io_socket_recv (w\<lparr>rx := e1\<rparr>) (unat nl + 1) = (r2, b2, w\<lparr>rx := e2\<rparr>)"
      "r2 = int (unat nl + 1) \<longleftrightarrow> unat nl + 1 \<le> length r"
      "unat nl + 1 \<le> length r \<Longrightarrow> b2 = take (unat nl + 1) r \<and> avail e2 = drop (unat nl + 1) r"
      by (rule recv_step [of "unat nl + 1" "w\<lparr>rx := e1\<rparr>"]) (auto simp: b1)
    have i2: "int (unat nl + 1) = uint nl + 1" by simp
    show thesis
    proof (cases "unat nl + 1 \<le> length r \<and> r ! unat nl \<noteq> 0")
      case False
      have "hev_socks5_server_read_auth_user self w A = Some (-1, self, w\<lparr>rx := e2\<rparr>, A)"
        using False 1(1) b1 2 i2 by (cases "unat nl + 1 \<le> length r") (auto simp: hev_socks5_server_read_auth_user_def Let_def)
      moreover have "parse_creds ?av = None" using False by (auto simp: parse_creds_def Let_def nl_def r_def)
      ultimately show thesis using unread by blast
    next
      case c2: True
      define pl where "pl = r ! unat nl"
      define s where "s = drop (unat nl + 1) r"
      have b2: "b2 ! unat nl = pl" "r2 = uint nl + 1" "avail e2 = s" "pl \<noteq> 0" "b2 = take (unat nl + 1) r"
        using 2 c2 i2 by (auto simp: pl_def s_def)
      have pos: "0 < unat pl" using b2(4) by (simp add: unat_gt_0)
      obtain r3 b3 e3 where 3: "hev_task_io_socket_recv (w\<lparr>rx := e2\<rparr>) (unat pl) = (r3, b3, w\<lparr>rx := e3\<rparr>)"
        "r3 = int (unat pl) \<longleftrightarrow> unat pl \<le> length s"
        "unat pl \<le> length s \<Longrightarrow> b3 = take (unat pl) s \<and> avail e3 = drop (unat pl) s"
        by (rule recv_step [OF pos, of "w\<lparr>rx := e2\<rparr>"]) (auto simp: b2)
      have i3: "int (unat pl) = uint pl" by simp
      show thesis
      proof (cases "unat pl \<le> length s")
        case False
        have "hev_socks5_server_read_auth_user self w A = Some (-1, self, w\<lparr>rx := e3\<rparr>, A)"
          using False 1(1) b1 2(1) b2 3 i3 by (auto simp: hev_socks5_server_read_auth_user_def Let_def)
        moreover have "parse_creds ?av = None" using False by (auto simp: parse_creds_def Let_def nl_def r_def pl_def s_def)
        ultimately show thesis using unread by blast
      next
        case c3: True
        have len: "length (take (unat nl) r) = unat nl" "length (take (unat pl) s) = unat pl" using c2 c3 by auto
        have "auth_verify (auth_db A) b2 (ucast nl) b3 (ucast pl)
            = auth_verify (auth_db A) (take (unat nl) r) (word_of_nat (unat nl)) (take (unat pl) s) (word_of_nat (unat pl))"
        proof -
          have "take (unat nl) b2 = take (unat nl) r" "take (unat pl) b3 = take (unat pl) s" "unat nl \<le> length b2" "unat pl \<le> length b3"
            using b2(5) 3(3) c2 c3 by simp_all
          then show ?thesis
            using auth_verify_prefix [of "ucast nl" b2 "ucast pl" b3 "auth_db A"]
            unfolding byte_to_u32(2) by (simp only: byte_to_u32(1))
        qed
        moreover have "parse_creds ?av = Some (take (unat nl) r, take (unat pl) s, drop (unat pl) s)"
          using c1 c2 c3 by (simp add: parse_creds_def Let_def nl_def r_def pl_def s_def)
        ultimately show thesis
          using 1(1) b1 2(1) b2 3 i3 obj c3 len
          by (intro verify [of "take (unat nl) r" "take (unat pl) s" "drop (unat pl) s" e3])
             (auto simp: hev_socks5_server_read_auth_user_def Let_def)
      qed
    qed
  qed
qed

section \<open>The outcome of the authentication\<close>

definition creds_valid :: "(byte list \<rightharpoonup> byte list) \<Rightarrow> byte list \<Rightarrow> bool" where
  "creds_valid m bs \<longleftrightarrow> (case parse_creds bs of None \<Rightarrow> False | Some (n, pw, rest) \<Rightarrow> m n = Some pw)"

text \<open>The server holds a reference to a live user of that name.\<close>

definition holds_user :: "hev_socks5_server \<Rightarrow> auth_state \<Rightarrow> byte list \<Rightarrow> bool" where
  "holds_user self A n \<longleftrightarrow> (\<exists>p u. sv_obj self = ObjUser p \<and> au_users (auth_db A) p = Some u \<and> user_name u = n
     \<and> 0 < user_ref_count u)"

lemma read_auth_user_outcome:
  assumes h: "auth_serves (auth_db A) N m" and obj: "sv_obj self = ObjAuth"
  obtains (refused) ev where "\<not> creds_valid m (avail (rx w))"
    "hev_socks5_server_read_auth_user self w A = Some (-1, self, w\<lparr>rx := ev\<rparr>, A)"
  | (accepted) n pw rest ev p A' where "parse_creds (avail (rx w)) = Some (n, pw, rest)" "m n = Some pw" "avail ev = rest"
    "hev_socks5_server_read_auth_user self w A = Some (0, self\<lparr>sv_obj := ObjUser p\<rparr>, w\<lparr>rx := ev\<rparr>, A')"
    "holds_user (self\<lparr>sv_obj := ObjUser p\<rparr>) A' n"
proof (rule read_auth_user_parse [OF obj, of w A])
  fix ev assume "parse_creds (avail (rx w)) = None"
    "hev_socks5_server_read_auth_user self w A = Some (-1, self, w\<lparr>rx := ev\<rparr>, A)"
  then show thesis using refused by (simp add: creds_valid_def)
next
  fix n pw rest ev
  assume p: "parse_creds (avail (rx w)) = Some (n, pw, rest)" and ev: "avail ev = rest"
    and eq: "hev_socks5_server_read_auth_user self w A = do {
        (user, res) \<leftarrow> auth_verify (auth_db A) n (word_of_nat (length n)) pw (word_of_nat (length pw));
        if user = NULL then Some (-1, self, w\<lparr>rx := ev\<rparr>, A)
        else if res < 0 then Some (-1, self, w\<lparr>rx := ev\<rparr>, A)
        else do {
          d \<leftarrow> user_ref (auth_db A) user;
          A \<leftarrow> auth_unref (A\<lparr>auth_db := d\<rparr>);
          Some (0, self\<lparr>sv_obj := ObjUser user\<rparr>, w\<lparr>rx := ev\<rparr>, A) } }"
  have "length n < 256" "length pw < 256" using p by (auto simp: parse_creds_at creds_at_def)
  then obtain q r where v: "auth_verify (auth_db A) n (word_of_nat (length n)) pw (word_of_nat (length pw)) = Some (q, r)"
    "r = 0 \<longleftrightarrow> m n = Some pw" "r = 0 \<or> r = -1" "r = 0 \<longrightarrow> q \<in> N \<and> user_key (auth_db A) q = n"
    using auth_verify_serves [OF h, of "word_of_nat (length n)" n "word_of_nat (length pw)" pw] by (auto simp: fits_u32_def)
  show thesis
  proof (cases "r = 0")
    case False
    then show thesis using refused [of ev] eq v p by (auto simp: creds_valid_def)
  next
    case True
    then have q: "q \<in> N" "user_key (auth_db A) q = n" using v(4) by auto
    then obtain u where u: "au_users (auth_db A) q = Some u" "user_name u = n"
      using h by (auto simp: user_key_def auth_serves_def auth_inv_def)
    have "q \<noteq> NULL"
      using h q(1) keyed_tree_alloc [of name_cmp "user_key (auth_db A)" "au_tree (auth_db A)" N q]
      by (auto simp: auth_serves_def auth_inv_def)
    moreover obtain d' A' where "user_ref (auth_db A) q = Some d'" "auth_unref (A\<lparr>auth_db := d'\<rparr>) = Some A'"
      "\<exists>u'. au_users (auth_db A') q = Some u' \<and> user_name u' = user_name u \<and> 0 < user_ref_count u'"
      using auth_exchange [OF h q(1) u(1) refl] by blast
    ultimately show thesis
      using accepted [OF p _ ev, of q A'] eq v True u(2) by (auto simp: holds_user_def)
  qed
qed

text \<open>The list of methods at the front of the stream, and the method the server chooses from it.\<close>

definition methods_at :: "byte list \<Rightarrow> byte list option" where
  "methods_at bs = (if 2 \<le> length bs \<and> bs ! 0 = 5 \<and> unat (bs ! 1) \<le> length (drop 2 bs)
     then Some (take (unat (bs ! 1)) (drop 2 bs)) else None)"

definition wanted_method :: "hev_socks5_server \<Rightarrow> byte" where
  "wanted_method self = (if sv_obj self \<noteq> ObjNone then 2 else 0)"

definition chosen_method :: "hev_socks5_server \<Rightarrow> byte list \<Rightarrow> int" where
  "chosen_method self bs = (case methods_at bs of
      None \<Rightarrow> -1
    | Some ms \<Rightarrow> if wanted_method self \<in> set ms then uint (wanted_method self) else -1)"

lemma read_auth_method_chosen:
  obtains ev where "hev_socks5_server_read_auth_method self w = (chosen_method self (avail (rx w)), w\<lparr>rx := ev\<rparr>)"
    "0 \<le> chosen_method self (avail (rx w)) \<Longrightarrow>
      avail ev = drop (2 + length (the (methods_at (avail (rx w))))) (avail (rx w))"
proof -
  let ?av = "avail (rx w)"
  obtain r1 b1 e1 where 1: "hev_task_io_socket_recv w 2 = (r1, b1, w\<lparr>rx := e1\<rparr>)" "r1 = int 2 \<longleftrightarrow> 2 \<le> length ?av"
    "2 \<le> length ?av \<Longrightarrow> b1 = take 2 ?av \<and> avail e1 = drop 2 ?av"
    by (rule recv_step [of 2 w]) auto
  show thesis
  proof (cases "2 \<le> length ?av \<and> ?av ! 0 = 5")
    case False
    then show thesis
      using 1 by (intro that [of e1]; cases "2 \<le> length ?av")
        (auto simp: hev_socks5_server_read_auth_method_def chosen_method_def methods_at_def)
  next
    case c: True
    define k where "k = ?av ! 1"
    have b1: "b1 ! 0 = 5" "b1 ! 1 = k" "r1 = 2" "avail e1 = drop 2 ?av" using 1 c by (auto simp: k_def)
    have i: "int (unat k) = uint k" by simp
    show thesis
    proof (cases "k = 0")
      case True
      obtain r2 b2 e2 where 2: "hev_task_io_socket_recv (w\<lparr>rx := e1\<rparr>) 0 = (r2, b2, w\<lparr>rx := e2\<rparr>)"
        by (cases "recv_loop 0 [] e1") (auto simp: hev_task_io_socket_recv_def)
      then have "b2 = []" using recv_zero [of "w\<lparr>rx := e1\<rparr>"] by simp
      moreover have "?av ! Suc 0 = 0" using True by (simp add: k_def)
      ultimately show thesis
        using 1(1) b1 2 True c
        by (intro that [of e2]) (auto simp: hev_socks5_server_read_auth_method_def chosen_method_def methods_at_def)
    next
      case False
      then have pos: "0 < unat k" by (simp add: unat_gt_0)
      obtain r2 b2 e2 where 2: "hev_task_io_socket_recv (w\<lparr>rx := e1\<rparr>) (unat k) = (r2, b2, w\<lparr>rx := e2\<rparr>)"
        "r2 = int (unat k) \<longleftrightarrow> unat k \<le> length (drop 2 ?av)"
        "unat k \<le> length (drop 2 ?av) \<Longrightarrow> b2 = take (unat k) (drop 2 ?av) \<and> avail e2 = drop (unat k) (drop 2 ?av)"
        by (rule recv_step [OF pos, of "w\<lparr>rx := e1\<rparr>"]) (auto simp: b1)
      have m: "methods_at ?av = (if unat k \<le> length (drop 2 ?av) then Some (take (unat k) (drop 2 ?av)) else None)"
        using c by (simp add: methods_at_def k_def)
      show thesis
      proof (cases "unat k \<le> length (drop 2 ?av)")
        case True
        then have "b2 = take (unat k) (drop 2 ?av)" "avail e2 = drop (2 + unat k) ?av" "r2 = uint k"
          using 2 i by (auto simp: add.commute)
        then show thesis
          using 1(1) b1 2(1) True m
          by (intro that [of e2]) (auto simp: hev_socks5_server_read_auth_method_def chosen_method_def wanted_method_def)
      next
        case F: False
        then show thesis
          using 1(1) b1 2 m i
          by (intro that [of e2]) (auto simp: hev_socks5_server_read_auth_method_def chosen_method_def)
      qed
    qed
  qed
qed

end
