(* ===== verification/Server_Handshake.thy ===== *)
theory Server_Handshake
  imports Server_Auth
begin

text \<open>
  The whole handshake of \<open>hev-socks5-server.c\<close>: it returns, without a fault, on every input and for every
  pattern of failing system calls; who gets past it; which reply is sent; and which descriptors the
  server owns afterwards.
\<close>

section \<open>Authentication\<close>

text \<open>The object of the server can be released.\<close>

definition obj_live :: "hev_socks5_server \<Rightarrow> auth_state \<Rightarrow> bool" where
  "obj_live self A \<longleftrightarrow> (case sv_obj self of
      ObjNone \<Rightarrow> True
    | ObjAuth \<Rightarrow> \<exists>N m. auth_serves (auth_db A) N m
    | ObjUser p \<Rightarrow> p \<in> dom (au_users (auth_db A)))"

lemma obj_live_user: "holds_user self A n \<Longrightarrow> obj_live self A"
  by (auto simp: holds_user_def obj_live_def)

lemma obj_live_unref: "obj_live self A \<Longrightarrow> \<exists>A'. obj_unref (sv_obj self) A = Some A'"
proof (cases "sv_obj self")
  case ObjAuth
  assume "obj_live self A"
  then obtain N where "auth_inv (auth_db A) N" using ObjAuth by (auto simp: obj_live_def auth_serves_def)
  then obtain d where "hev_socks5_authenticator_clear (auth_db A) = Some d" using auth_clear_inv by blast
  then show ?thesis using ObjAuth by (simp add: obj_unref_def auth_unref_def hev_socks5_authenticator_destruct_def)
qed (auto simp: obj_live_def obj_unref_def user_unref_def Let_def)

lemma server_auth_outcome:
  assumes h: "auth_serves (auth_db A) N m" and obj: "sv_obj self = ObjAuth"
  obtains (denied) self' w' A' where "hev_socks5_server_auth self w A = Some (-1, self', w', A')"
    "open_fds w' = open_fds w" "polled w' = polled w" "fds0 self' = fds0 self" "fds1 self' = fds1 self" "obj_live self' A'"
  | (passed) ms n pw rest self' w' A' where "hev_socks5_server_auth self w A = Some (0, self', w', A')"
    "methods_at (avail (rx w)) = Some ms" "2 \<in> set ms"
    "parse_creds (drop (2 + length ms) (avail (rx w))) = Some (n, pw, rest)" "m n = Some pw"
    "avail (rx w') = rest" "holds_user self' A' n" "open_fds w' = open_fds w" "polled w' = polled w"
    "fds0 self' = fds0 self" "fds1 self' = fds1 self"
proof -
  let ?av = "avail (rx w)"
  obtain e1 where 1: "hev_socks5_server_read_auth_method self w = (chosen_method self ?av, w\<lparr>rx := e1\<rparr>)"
    "0 \<le> chosen_method self ?av \<Longrightarrow> avail e1 = drop (2 + length (the (methods_at ?av))) ?av"
    using read_auth_method_chosen [of self w] by blast
  have send: "\<exists>r t s. hev_task_io_socket_send w b = (r, w\<lparr>tx := t, sent := s\<rparr>)" for w :: sys and b
    by (cases "send_loop 0 b (tx w)") (auto simp: hev_task_io_socket_send_def)
  obtain r2 t2 s2 where 2: "hev_task_io_socket_send (w\<lparr>rx := e1\<rparr>) [5, word_of_int (chosen_method self ?av)]
      = (r2, w\<lparr>rx := e1, tx := t2, sent := s2\<rparr>)"
    using send [of "w\<lparr>rx := e1\<rparr>" "[5, word_of_int (chosen_method self ?av)]"] by auto
  define w2 where "w2 = w\<lparr>rx := e1, tx := t2, sent := s2\<rparr>"
  note st = hev_socks5_server_auth_def hev_socks5_server_write_auth_method_def hev_socks5_server_write_auth_user_def
  have live: "obj_live self A" using h obj by (auto simp: obj_live_def)
  show thesis
  proof (cases "r2 \<le> 0 \<or> chosen_method self ?av \<noteq> 2")
    case True
    moreover have "chosen_method self ?av \<noteq> 0"
      using obj by (auto simp: chosen_method_def wanted_method_def split: option.splits if_splits)
    ultimately show thesis
      using 1(1) 2 live by (intro denied [of self w2 A]) (auto simp: st w2_def)
  next
    case False
    then obtain ms where ms: "methods_at ?av = Some ms" "2 \<in> set ms"
      using obj by (auto simp: chosen_method_def wanted_method_def split: option.splits if_splits)
    have av2: "avail (rx w2) = drop (2 + length ms) ?av" using 1(2) ms False by (simp add: w2_def)
    show thesis
    proof (rule read_auth_user_outcome [OF h obj, of w2])
      fix ev
      assume r: "hev_socks5_server_read_auth_user self w2 A = Some (-1, self, w2\<lparr>rx := ev\<rparr>, A)"
      obtain r3 t3 s3 where 3: "hev_task_io_socket_send (w2\<lparr>rx := ev\<rparr>) [1, word_of_int (-1)] = (r3, w2\<lparr>rx := ev, tx := t3, sent := s3\<rparr>)"
        using send [of "w2\<lparr>rx := ev\<rparr>" "[1, word_of_int (-1)]"] by auto
      show thesis
        using 1(1) 2 r 3 False live
        by (intro denied [of self "w2\<lparr>rx := ev, tx := t3, sent := s3\<rparr>" A]) (auto simp: st w2_def [symmetric], auto simp: w2_def)
    next
      fix n pw rest ev p A'
      assume c: "parse_creds (avail (rx w2)) = Some (n, pw, rest)" "m n = Some pw" "avail ev = rest"
        and r: "hev_socks5_server_read_auth_user self w2 A = Some (0, self\<lparr>sv_obj := ObjUser p\<rparr>, w2\<lparr>rx := ev\<rparr>, A')"
        and u: "holds_user (self\<lparr>sv_obj := ObjUser p\<rparr>) A' n"
      obtain r3 t3 s3 where 3: "hev_task_io_socket_send (w2\<lparr>rx := ev\<rparr>) [1, word_of_int 0] = (r3, w2\<lparr>rx := ev, tx := t3, sent := s3\<rparr>)"
        using send [of "w2\<lparr>rx := ev\<rparr>" "[1, word_of_int 0]"] by auto
      let ?w3 = "w2\<lparr>rx := ev, tx := t3, sent := s3\<rparr>"
      have fds: "open_fds ?w3 = open_fds w" "polled ?w3 = polled w" by (simp_all add: w2_def)
      have eq: "hev_socks5_server_auth self w A
          = Some (if r3 \<le> 0 then -1 else 0, self\<lparr>sv_obj := ObjUser p\<rparr>, ?w3, A')"
        using 1(1) 2 r 3 False by (auto simp: st w2_def [symmetric])
      show thesis
      proof (cases "r3 \<le> 0")
        case True
        then show thesis using eq fds obj_live_user [OF u] by (intro denied [of "self\<lparr>sv_obj := ObjUser p\<rparr>" ?w3 A']) auto
      next
        case F: False
        then show thesis
          using eq fds c u ms av2 by (intro passed [of "self\<lparr>sv_obj := ObjUser p\<rparr>" ?w3 A' ms n pw rest]) auto
      qed
    qed
  qed
qed

section \<open>The request\<close>

lemma resolve_len:
  assumes "resolver_ok R" "length (sin6_addr sa) = 16"
  shows "length (sin6_addr (fst (hev_socks5_name_into_sockaddr6 R name port sa f))) = 16"
proof -
  have r: "\<And>s x. pton4 R s = Some x \<Longrightarrow> length x = 4" "\<And>s x. pton6 R s = Some x \<Longrightarrow> length x = 16"
    "\<And>s f x. getaddrinfo R s f = Some (AF_INET, x) \<Longrightarrow> length x = 4"
    "\<And>s f x. getaddrinfo R s f = Some (AF_INET6, x) \<Longrightarrow> length x = 16"
    using assms(1) by (auto simp: resolver_ok_def)
  show ?thesis
    using assms(2) r
    by (auto simp: hev_socks5_name_into_sockaddr6_def hev_socks5_name_resolve_ipv4_def hev_socks5_name_resolve_ipv6_def
        hev_socks5_name_resolve_name_def Let_def split: option.splits family.splits)
qed

lemma into_sockaddr6_total:
  assumes R: "resolver_ok R" "length (sin6_addr sa) = 16"
    and t: "atype = HEV_SOCKS5_ADDR_TYPE_IPV4 \<or> atype = HEV_SOCKS5_ADDR_TYPE_IPV6 \<or> atype = HEV_SOCKS5_ADDR_TYPE_NAME"
    and len: "length buf = (if atype = HEV_SOCKS5_ADDR_TYPE_IPV4 then 5 else if atype = HEV_SOCKS5_ADDR_TYPE_IPV6 then 17 else 2 + unat b)"
  obtains sa' f' r where "hev_socks5_addr_into_sockaddr6 R (atype # b # buf) sa f = Some (sa', f', r)" "length (sin6_addr sa') = 16"
proof -
  obtain out where out: "hev_socks5_addr_into_sockaddr6 R (atype # b # buf) sa f = Some out" "length (sin6_addr (fst out)) = 16"
    using t len resolve_len [OF R]
    by (auto simp: hev_socks5_addr_into_sockaddr6_def hev_socks5_ipv4_into_sockaddr6_def hev_socks5_ipv6_into_sockaddr6_def
        get8_def get_block_def addr_types v4mapped_prefix_def) (metis fst_conv prod_cases3)
  then show thesis using that by (cases out) auto
qed

text \<open>What the steps before and after the dispatch leave alone.\<close>

definition quiet :: "hev_socks5_server \<Rightarrow> hev_socks5_server \<Rightarrow> sys \<Rightarrow> sys \<Rightarrow> bool" where
  "quiet self self' w w' \<longleftrightarrow> sv_obj self' = sv_obj self \<and> fds0 self' = fds0 self \<and> fds1 self' = fds1 self
     \<and> open_fds w' = open_fds w \<and> polled w' = polled w"

lemma read_request_total:
  assumes R: "resolver_ok R" "length (sin6_addr addr) = 16"
  obtains res rc cmd addr' self' w' where
    "hev_socks5_server_read_request R self addr w = Some (res, rc, cmd, addr', self', w')"
    "quiet self self' w w'" "length (sin6_addr addr') = 16" "rc = REP_SUCC \<longrightarrow> 0 \<le> res \<longrightarrow> cmd \<noteq> None"
proof -
  have recv: "\<exists>r b e. hev_task_io_socket_recv w n = (r, b, w\<lparr>rx := e\<rparr>)" for w :: sys and n
    by (cases "recv_loop n [] (rx w)") (auto simp: hev_task_io_socket_recv_def)
  obtain r1 b1 e1 where 1: "hev_task_io_socket_recv w 5 = (r1, b1, w\<lparr>rx := e1\<rparr>)" using recv by blast
  define atype where "atype = b1 ! 3"
  define n where "n = (if atype = HEV_SOCKS5_ADDR_TYPE_IPV4 then 5
     else if atype = HEV_SOCKS5_ADDR_TYPE_IPV6 then 17 else 2 + unat (b1 ! 4))"
  obtain r2 b2 e2 where 2: "hev_task_io_socket_recv (w\<lparr>rx := e1\<rparr>) n = (r2, b2, w\<lparr>rx := e2\<rparr>)"
    using recv [of "w\<lparr>rx := e1\<rparr>" n] by auto
  note st = hev_socks5_server_read_request_def atype_def [symmetric] n_def [symmetric]
  note codes = rep_codes
  show thesis
  proof (cases "r1 = 5 \<and> b1 ! 0 = 5 \<and> (atype = HEV_SOCKS5_ADDR_TYPE_IPV4 \<or> atype = HEV_SOCKS5_ADDR_TYPE_IPV6
      \<or> atype = HEV_SOCKS5_ADDR_TYPE_NAME) \<and> r2 = int n")
    case False
    then have "\<exists>res rc w'. hev_socks5_server_read_request R self addr w = Some (res, rc, None, addr, self, w')
        \<and> quiet self self w w' \<and> (rc = REP_SUCC \<longrightarrow> res < 0)"
      using 1 2 by (auto simp: st Let_def quiet_def codes)
    then show thesis using that R(2) by fastforce
  next
    case True
    have "0 < n" by (auto simp: n_def)
    then have "length b2 = n"
      using recv_result(1) [OF 2] True by (auto split: if_splits)
    then obtain sa' f' r where sa: "hev_socks5_addr_into_sockaddr6 R (atype # b1 ! 4 # b2) addr (s5_addr_family self) = Some (sa', f', r)"
      "length (sin6_addr sa') = 16"
      using into_sockaddr6_total [OF R, of atype b2 "b1 ! 4" "s5_addr_family self"] True unfolding n_def by blast
    show thesis
    proof (cases "r < 0")
      case neg: True
      then show thesis
        using 1 2 True sa by (intro that [of 0 REP_ADDR None sa' self "w\<lparr>rx := e2\<rparr>"])
          (auto simp: st Let_def quiet_def codes socks5_access)
    next
      case pos: False
      then show thesis
        using 1 2 True sa by (intro that [of 0 REP_SUCC "Some (b1 ! 1)" sa' "hev_socks5_set_addr_family self f'" "w\<lparr>rx := e2\<rparr>"])
          (auto simp: st Let_def quiet_def socks5_access)
    qed
  qed
qed

section \<open>The dispatch and its sockets\<close>

definition own_fds :: "hev_socks5_server \<Rightarrow> int set" where
  "own_fds self = {f. (f = fds0 self \<or> f = fds1 self) \<and> 0 \<le> f}"

lemma fds_grow_quiet:
  "fds_grow w w1 F \<Longrightarrow> open_fds w2 = open_fds w1 \<Longrightarrow> polled w2 = polled w1 \<Longrightarrow> fds_grow w w2 F"
  by (simp add: fds_grow_def)

lemma server_connect_fds:
  assumes f: "fds0 self = -1" "fds1 self = -1"
  obtains res self' w' where "hev_socks5_server_connect self addr w = (res, self', w')"
    "fds_grow w w' (own_fds self')" "sv_obj self' = sv_obj self" "res = 0 \<or> res = -1"
proof -
  obtain fd w1 where s: "hev_socks5_socket SOCK_STREAM w = (fd, w1)" by fastforce
  have b: "bind_neutral (hev_socks5_bind :: hev_socks5_server \<Rightarrow> _)" by (simp add: bind_neutral_def hev_socks5_bind_def)
  have fail: "fd < 0 \<Longrightarrow> fds_grow w w1 {}" using hev_socks5_socket_grows(1) [OF s] by simp
  have own: "own_fds self = {}" "own_fds (self\<lparr>s5_timeout := t\<rparr>) = {}"
    "0 \<le> fd \<Longrightarrow> own_fds (self\<lparr>s5_timeout := t, fds0 := fd\<rparr>) = {fd}" for t
    using f by (auto simp: own_fds_def)
  obtain res self' w' where o: "hev_socks5_server_connect self addr w = (res, self', w')"
    by (cases "hev_socks5_server_connect self addr w") auto
  have "fds_grow w w' (own_fds self') \<and> sv_obj self' = sv_obj self \<and> (res = 0 \<or> res = -1)"
    using o s fail bind_connect_fds [OF s _ b, of self addr] own
    by (auto simp: hev_socks5_server_connect_def Let_def case_prod_beta socks5_access hev_socks5_bind_def split: if_splits)
  with o show thesis using that by blast
qed

lemma udp_bind_result:
  assumes "\<And>fd. length (sin6_addr (sockname fd)) = 16" "length (sin6_addr src) = 16"
  obtains res src' w' where "hev_socks5_server_udp_bind sockname self sock src w = (res, src', w')"
    "open_fds w' = open_fds w" "polled w' = polled w" "length (sin6_addr src') = 16"
proof -
  obtain res src' w' where o: "hev_socks5_server_udp_bind sockname self sock src w = (res, src', w')"
    by (cases "hev_socks5_server_udp_bind sockname self sock src w") auto
  then show thesis
    using assms by (intro that [OF o]) (auto simp: hev_socks5_server_udp_bind_def Let_def case_prod_beta split: if_splits)
qed

lemma server_bind_fds:
  assumes f: "fds0 self = -1" "fds1 self = -1" and n: "\<And>fd. length (sin6_addr (sockname fd)) = 16"
    and a: "\<And>sa. addr = Some sa \<Longrightarrow> length (sin6_addr sa) = 16"
  obtains res addr' self' w' where "hev_socks5_server_bind sockname self addr w = (res, addr', self', w')"
    "fds_grow w w' (own_fds self')" "sv_obj self' = sv_obj self" "res = 0 \<or> res = -1"
    "addr = None \<longleftrightarrow> addr' = None" "\<And>sa. addr' = Some sa \<Longrightarrow> length (sin6_addr sa) = 16"
proof -
  obtain fd w1 where s: "hev_socks5_socket SOCK_DGRAM w = (fd, w1)" by fastforce
  show thesis
  proof (cases "fd < 0")
    case True
    then have "fds_grow w w1 {}" using hev_socks5_socket_grows(1) [OF s] by simp
    moreover have "own_fds self = {}" using f by (auto simp: own_fds_def)
    ultimately show thesis
      using s True a by (intro that [of "-1" addr self w1]) (auto simp: hev_socks5_server_bind_def)
  next
    case False
    then have g1: "fds_grow w w1 {fd}" using hev_socks5_socket_grows(1) [OF s] by simp
    define self1 where "self1 = self\<lparr>fds0 := fd\<rparr>"
    have own1: "own_fds self1 = {fd}" using f False by (auto simp: own_fds_def self1_def)
    show thesis
    proof (cases addr)
      case None
      then show thesis
        using s False g1 own1 by (intro that [of 0 None self1 w1]) (auto simp: hev_socks5_server_bind_def self1_def)
    next
      case (Some sa)
      obtain fd2 w2 where s2: "hev_socks5_socket SOCK_DGRAM w1 = (fd2, w2)" by fastforce
      show thesis
      proof (cases "fd2 < 0")
        case True
        then have "fds_grow w w2 {fd}"
          using hev_socks5_socket_grows(1) [OF s2] fds_grow_trans [OF g1, of w2 "{}"] by simp
        then show thesis
          using s s2 False True own1 Some a
          by (intro that [of "-1" addr self1 w2]) (auto simp: hev_socks5_server_bind_def self1_def)
      next
        case pos: False
        have "fds_grow w1 w2 {fd2}" using hev_socks5_socket_grows(1) [OF s2] pos by simp
        then have new: "fd2 \<noteq> fd" using g1 by (auto simp: fds_grow_def)
        have g2: "fds_grow w w2 {fd2, fd}" using fds_grow_trans [OF g1 \<open>fds_grow w1 w2 {fd2}\<close>] by (simp add: insert_commute)
        obtain r3 w3 where 3: "next_res w2 = (r3, w3)" by fastforce
        then have k3: "open_fds w3 = open_fds w2" "polled w3 = polled w2" using next_res_keeps(1,2) [of w2] by simp_all
        obtain r4 sa' w4 where 4: "hev_socks5_server_udp_bind sockname self1 fd2 sa w3 = (r4, sa', w4)"
          "open_fds w4 = open_fds w3" "polled w4 = polled w3" "length (sin6_addr sa') = 16"
          by (rule udp_bind_result [where sockname = sockname and src = sa and self = self1 and sock = fd2 and w = w3])
             (use n a [OF Some] in auto)
        have g3: "fds_grow w w3 {fd2, fd}" "fds_grow w w4 {fd2, fd}"
          using fds_grow_quiet [OF g2] k3 4(2,3) by simp_all
        have d: "fds_grow w (drop_fd fd2 w3) {fd}" "fds_grow w (drop_fd fd2 w4) {fd}"
          using fds_grow_drop [OF g3(1)] fds_grow_drop [OF g3(2)] new by simp_all
        have own2: "own_fds (self1\<lparr>fds1 := fd2\<rparr>) = {fd2, fd}" using False pos by (auto simp: own_fds_def self1_def)
        note st = hev_socks5_server_bind_def s s2 3 4(1) self1_def [symmetric]
        consider "r3 < 0" | "\<not> r3 < 0" "r4 < 0" | "\<not> r3 < 0" "\<not> r4 < 0" by blast
        then show thesis
        proof cases
          case 1
          then show thesis
            using False pos Some own1 d(1) a
            by (intro that [of "-1" addr self1 "drop_fd fd2 w3"]) (auto simp: st, auto simp: self1_def)
        next
          case 2
          then show thesis
            using False pos Some own1 d(2) 4(4)
            by (intro that [of "-1" "Some sa'" self1 "drop_fd fd2 w4"]) (auto simp: st, auto simp: self1_def)
        next
          case 3
          then show thesis
            using False pos Some own2 g3(2) 4(4)
            by (intro that [of 0 "Some sa'" "self1\<lparr>fds1 := fd2\<rparr>" w4]) (auto simp: st, auto simp: self1_def)
        qed
      qed
    qed
  qed
qed

text \<open>The environment a server runs in: every socket address has its sixteen bytes.\<close>

definition env_ok :: "server_env \<Rightarrow> bool" where
  "env_ok E \<longleftrightarrow> resolver_ok (env_resolver E) \<and> (\<forall>fd. length (sin6_addr (env_sockname E fd)) = 16)
     \<and> length (sin6_addr (env_addr E)) = 16 \<and> length (env_stack E) = addr_size"

text \<open>The replies that a command can get.\<close>

definition replies :: "byte \<Rightarrow> byte set" where
  "replies cmd = (if cmd = 1 then {REP_SUCC, REP_HOST} else if cmd = 3 \<or> cmd = 5 then {REP_SUCC, REP_FAIL} else {REP_IMPL})"

lemma server_dispatch_total:
  assumes f: "fds0 self = -1" "fds1 self = -1" and E: "env_ok E" "length (sin6_addr addr) = 16"
  obtains rc addr' self' w' where "server_dispatch E (Some cmd) self addr w = Some (rc, addr', self', w')"
    "fds_grow w w' (own_fds self')" "sv_obj self' = sv_obj self" "length (sin6_addr addr') = 16" "rc \<in> replies cmd"
proof -
  have n: "\<And>fd. length (sin6_addr (env_sockname E fd)) = 16" using E(1) by (simp add: env_ok_def)
  have own: "own_fds (s\<lparr>s5_type := t\<rparr>) = own_fds s" for s t by (simp add: own_fds_def)
  consider "cmd = 1" | "cmd = 3" | "cmd = 5" | "cmd \<noteq> 1" "cmd \<noteq> 3" "cmd \<noteq> 5" by blast
  then show thesis
  proof cases
    case 1
    obtain res s w' where "hev_socks5_server_connect self addr w = (res, s, w')"
      "fds_grow w w' (own_fds s)" "sv_obj s = sv_obj self" "res = 0 \<or> res = -1"
      by (rule server_connect_fds [OF f])
    with 1 E(2) show thesis
      by (intro that [of "if res < 0 then REP_HOST else REP_SUCC" addr "s\<lparr>s5_type := HEV_SOCKS5_TYPE_TCP\<rparr>" w'])
         (auto simp: server_dispatch_def own replies_def)
  next
    case 2
    obtain res a s w' where "hev_socks5_server_bind (env_sockname E) self (Some addr) w = (res, a, s, w')"
      "fds_grow w w' (own_fds s)" "sv_obj s = sv_obj self" "res = 0 \<or> res = -1" "a \<noteq> None"
      "\<And>sa. a = Some sa \<Longrightarrow> length (sin6_addr sa) = 16"
      by (rule server_bind_fds [OF f, where sockname = "env_sockname E" and addr = "Some addr" and w = w]) (use E(2) n in auto)
    with 2 show thesis
      by (intro that [of "if res < 0 then REP_FAIL else REP_SUCC" "the a" "s\<lparr>s5_type := HEV_SOCKS5_TYPE_UDP_IN_UDP\<rparr>" w'])
         (auto simp: server_dispatch_def own replies_def)
  next
    case 3
    obtain res a s w' where "hev_socks5_server_bind (env_sockname E) self None w = (res, a, s, w')"
      "fds_grow w w' (own_fds s)" "sv_obj s = sv_obj self" "res = 0 \<or> res = -1"
      by (rule server_bind_fds [OF f, where sockname = "env_sockname E" and addr = None and w = w]) (use n in auto)
    with 3 E(2) show thesis
      by (intro that [of "if res < 0 then REP_FAIL else REP_SUCC" addr "s\<lparr>s5_type := HEV_SOCKS5_TYPE_UDP_IN_TCP\<rparr>" w'])
         (auto simp: server_dispatch_def own replies_def)
  next
    case 4
    have "own_fds self = {}" "fds_grow w w {}" using f by (auto simp: own_fds_def fds_grow_refl)
    with 4 E(2) show thesis
      by (intro that [of REP_IMPL addr self w]) (auto simp: server_dispatch_def replies_def)
  qed
qed

lemma write_response_total:
  assumes "length (sin6_addr addr) = 16" "length stack = addr_size"
  obtains res w' where "hev_socks5_server_write_response stack rc addr w = Some (res, w')"
    "open_fds w' = open_fds w" "polled w' = polled w" "res = 0 \<or> res = -1"
proof -
  obtain a n where a: "hev_socks5_addr_from_sockaddr6 stack addr = Some (a, n)"
    using from_sockaddr6_enc [OF assms(1), of stack] assms(2)
    by (cases "IN6_IS_ADDR_V4MAPPED (sin6_addr addr)") (auto simp: addr_size_def)
  obtain r t s where "hev_task_io_socket_send w ([5, rc, 0] @ take (nat n) a) = (r, w\<lparr>tx := t, sent := s\<rparr>)"
    by (cases "send_loop 0 ([5, rc, 0] @ take (nat n) a) (tx w)") (auto simp: hev_task_io_socket_send_def)
  with a show thesis
    by (intro that [of "if r \<le> 0 then -1 else 0" "w\<lparr>tx := t, sent := s\<rparr>"]) (auto simp: hev_socks5_server_write_response_def)
qed

text \<open>What follows a successful authentication.\<close>

definition server_rest ::
  "server_env \<Rightarrow> hev_socks5_server \<Rightarrow> sys \<Rightarrow> auth_state \<Rightarrow> (int \<times> hev_socks5_server \<times> sys \<times> auth_state) option" where
  "server_rest E self w A = do {
     (res, rc, cmd, addr, self, w) \<leftarrow> hev_socks5_server_read_request (env_resolver E) self (env_addr E) w;
     if res < 0 then Some (-1, self, w, A)
     else do {
       (rc, addr, self, w) \<leftarrow>
         (if rc = REP_SUCC then server_dispatch E cmd self addr w else Some (rc, addr, self, w));
       (res, w) \<leftarrow> hev_socks5_server_write_response (env_stack E) rc addr w;
       Some (if res < 0 \<or> rc \<noteq> REP_SUCC then -1 else 0, self, w, A) } }"

lemma handshake_after_auth:
  assumes "hev_socks5_server_auth (hev_socks5_set_timeout self (hev_socks5_get_tcp_timeout w)) w A = Some (r1, self1, w1, A1)"
  shows "hev_socks5_server_handshake E self w A = (if r1 < 0 then Some (-1, self1, w1, A1) else server_rest E self1 w1 A1)"
  using assms by (simp add: hev_socks5_server_handshake_def server_rest_def)

lemma handshake_tail:
  assumes f: "fds0 self = -1" "fds1 self = -1" and E: "env_ok E"
  obtains r self' w' where "server_rest E self w A = Some (r, self', w', A)"
    "r = 0 \<or> r = -1" "fds_grow w w' (own_fds self')" "sv_obj self' = sv_obj self"
proof -
  have R: "resolver_ok (env_resolver E)" "length (sin6_addr (env_addr E)) = 16" "length (env_stack E) = addr_size"
    using E by (auto simp: env_ok_def)
  obtain res rc cmd addr s1 w1 where 1: "hev_socks5_server_read_request (env_resolver E) self (env_addr E) w = Some (res, rc, cmd, addr, s1, w1)"
    "quiet self s1 w w1" "length (sin6_addr addr) = 16" "rc = REP_SUCC \<longrightarrow> 0 \<le> res \<longrightarrow> cmd \<noteq> None"
    by (rule read_request_total [OF R(1,2)])
  have f1: "fds0 s1 = -1" "fds1 s1 = -1" "sv_obj s1 = sv_obj self" "open_fds w1 = open_fds w" "polled w1 = polled w"
    using 1(2) f by (auto simp: quiet_def)
  have own1: "own_fds s1 = {}" using f1 by (auto simp: own_fds_def)
  have g1: "fds_grow w w1 {}" using f1 by (simp add: fds_grow_refl)
  show thesis
  proof (cases "res < 0")
    case True
    then show thesis using 1(1) f1 own1 g1 by (intro that [of "-1" s1 w1]) (auto simp: server_rest_def)
  next
    case nonneg: False
    obtain rc2 addr2 s2 w2 where 2: "(if rc = REP_SUCC then server_dispatch E cmd s1 addr w1 else Some (rc, addr, s1, w1)) = Some (rc2, addr2, s2, w2)"
      "fds_grow w w2 (own_fds s2)" "sv_obj s2 = sv_obj self" "length (sin6_addr addr2) = 16"
    proof (cases "rc = REP_SUCC")
      case True
      then obtain c where "cmd = Some c" using 1(4) nonneg by auto
      moreover obtain rc' addr' s' w' where "server_dispatch E (Some c) s1 addr w1 = Some (rc', addr', s', w')"
        "fds_grow w1 w' (own_fds s')" "sv_obj s' = sv_obj s1" "length (sin6_addr addr') = 16"
        by (rule server_dispatch_total [OF f1(1,2) E 1(3), of c w1]) blast
      ultimately show thesis using True that f1 fds_grow_trans [OF g1] by fastforce
    next
      case False
      then show thesis using that f1 own1 g1 1(3) by auto
    qed
    obtain res3 w3 where 3: "hev_socks5_server_write_response (env_stack E) rc2 addr2 w2 = Some (res3, w3)"
      "open_fds w3 = open_fds w2" "polled w3 = polled w2"
      by (rule write_response_total [OF 2(4) R(3)])
    show thesis
      using 1(1) nonneg 2 3 fds_grow_quiet [OF 2(2) 3(2,3)]
      by (intro that [of "if res3 < 0 \<or> rc2 \<noteq> REP_SUCC then -1 else 0" s2 w3]) (auto simp: server_rest_def)
  qed
qed

text \<open>A server without an authenticator.\<close>

lemma server_auth_open:
  assumes obj: "sv_obj self = ObjNone"
  obtains r w' where "hev_socks5_server_auth self w A = Some (r, self, w', A)" "r = 0 \<or> r = -1"
    "open_fds w' = open_fds w" "polled w' = polled w"
proof -
  let ?av = "avail (rx w)"
  obtain e1 where 1: "hev_socks5_server_read_auth_method self w = (chosen_method self ?av, w\<lparr>rx := e1\<rparr>)"
    using read_auth_method_chosen [of self w] by blast
  obtain r2 t2 s2 where 2: "hev_task_io_socket_send (w\<lparr>rx := e1\<rparr>) [5, word_of_int (chosen_method self ?av)]
      = (r2, w\<lparr>rx := e1, tx := t2, sent := s2\<rparr>)"
    by (cases "send_loop 0 [5, word_of_int (chosen_method self ?av)] (tx w)") (auto simp: hev_task_io_socket_send_def)
  have "chosen_method self ?av \<noteq> 2"
    using obj by (auto simp: chosen_method_def wanted_method_def split: option.splits)
  then show thesis
    using 1 2 by (intro that [of "if r2 \<le> 0 \<or> chosen_method self ?av \<noteq> 0 then -1 else 0" "w\<lparr>rx := e1, tx := t2, sent := s2\<rparr>"])
      (auto simp: hev_socks5_server_auth_def hev_socks5_server_write_auth_method_def)
qed

text \<open>The handshake from the result of the authentication.\<close>

lemma handshake_split:
  assumes f: "fds0 self = -1" "fds1 self = -1" and E: "env_ok E"
    and a: "hev_socks5_server_auth (hev_socks5_set_timeout self (hev_socks5_get_tcp_timeout w)) w A = Some (r1, self1, w1, A1)"
    and q: "open_fds w1 = open_fds w" "polled w1 = polled w" "fds0 self1 = fds0 self" "fds1 self1 = fds1 self"
  obtains r self' w' where "hev_socks5_server_handshake E self w A = Some (r, self', w', A1)"
    "r = 0 \<or> r = -1" "r1 < 0 \<Longrightarrow> r = -1" "fds_grow w w' (own_fds self')" "sv_obj self' = sv_obj self1"
proof -
  have f1: "fds0 self1 = -1" "fds1 self1 = -1" using f q by auto
  have g: "fds_grow w w1 {}" using q by (simp add: fds_grow_refl)
  show thesis
  proof (cases "r1 < 0")
    case True
    moreover have "own_fds self1 = {}" using f1 by (auto simp: own_fds_def)
    ultimately show thesis using a g by (intro that [of "-1" self1 w1]) (auto simp: hev_socks5_server_handshake_def)
  next
    case False
    obtain r self' w' where "server_rest E self1 w1 A1 = Some (r, self', w', A1)"
      "r = 0 \<or> r = -1" "fds_grow w1 w' (own_fds self')" "sv_obj self' = sv_obj self1"
      by (rule handshake_tail [OF f1 E, of w1 A1])
    then show thesis using False fds_grow_trans [OF g] handshake_after_auth [OF a] by (intro that [of r self' w']) simp_all
  qed
qed

end
