(* ===== verification/Handshake_Both.thy ===== *)
theory Handshake_Both
  imports Server_Handshake
begin

text \<open>
  Client and server together: what a server with a user database does with the bytes that a client
  sends, when no system call fails, and that the bytes it sends back are a reply that the client
  accepts.
\<close>

section \<open>The server on good input\<close>

lemma creds_at_message:
  "n \<noteq> [] \<Longrightarrow> pw \<noteq> [] \<Longrightarrow> length n < 256 \<Longrightarrow> length pw < 256 \<Longrightarrow> parse_creds (creds_message n pw @ rest) = Some (n, pw, rest)"
  by (simp add: parse_creds_at creds_at_def)

text \<open>The parts of the world that the exchange of messages does not touch.\<close>

definition same_world :: "sys \<Rightarrow> sys \<Rightarrow> bool" where
  "same_world w w' \<longleftrightarrow> open_fds w' = open_fds w \<and> polled w' = polled w \<and> sysres w' = sysres w"

lemma server_auth_accepts:
  assumes h: "auth_serves (auth_db A) N m" "sv_obj self = ObjAuth" "tx_ok (tx w)"
    and av: "avail (rx w) = [5, 1, 2] @ creds_message n pw @ rest" and m: "m n = Some pw"
    and n: "n \<noteq> []" "pw \<noteq> []" "length n < 256" "length pw < 256"
  obtains p w' A' where "hev_socks5_server_auth self w A = Some (0, self\<lparr>sv_obj := ObjUser p\<rparr>, w', A')" "avail (rx w') = rest"
    "sent w' = sent w @ [5, 2, 1, 0]" "tx_ok (tx w')" "same_world w w'" "holds_user (self\<lparr>sv_obj := ObjUser p\<rparr>) A' n"
proof -
  let ?av = "avail (rx w)"
  have meth: "methods_at ?av = Some [2]" "chosen_method self ?av = 2"
    using av h(2) by (simp_all add: methods_at_def chosen_method_def wanted_method_def)
  obtain e1 where 1: "hev_socks5_server_read_auth_method self w = (2, w\<lparr>rx := e1\<rparr>)" "avail e1 = creds_message n pw @ rest"
    using read_auth_method_chosen [of self w] meth av by auto
  obtain t2 where 2: "hev_task_io_socket_send (w\<lparr>rx := e1\<rparr>) [5, 2] = (2, w\<lparr>rx := e1, tx := t2, sent := sent w @ [5, 2]\<rparr>)" "tx_ok t2"
    using send_ok [of "w\<lparr>rx := e1\<rparr>" "[5, 2]"] h(3) by auto
  define w2 where "w2 = w\<lparr>rx := e1, tx := t2, sent := sent w @ [5, 2]\<rparr>"
  have c: "parse_creds (avail (rx w2)) = Some (n, pw, rest)" using 1(2) creds_at_message [OF n] by (simp add: w2_def)
  show thesis
  proof (rule read_auth_user_outcome [OF h(1,2), of w2])
    assume "\<not> creds_valid m (avail (rx w2))"
    then show thesis using c m by (simp add: creds_valid_def)
  next
    fix n' pw' rest' ev p A'
    assume "parse_creds (avail (rx w2)) = Some (n', pw', rest')" "avail ev = rest'"
      and r: "hev_socks5_server_read_auth_user self w2 A = Some (0, self\<lparr>sv_obj := ObjUser p\<rparr>, w2\<lparr>rx := ev\<rparr>, A')"
      and u: "holds_user (self\<lparr>sv_obj := ObjUser p\<rparr>) A' n'"
    then have e: "n' = n" "avail ev = rest" using c by auto
    obtain t3 where 3: "hev_task_io_socket_send (w2\<lparr>rx := ev\<rparr>) [1, 0] = (2, w2\<lparr>rx := ev, tx := t3, sent := sent w2 @ [1, 0]\<rparr>)" "tx_ok t3"
      using send_ok [of "w2\<lparr>rx := ev\<rparr>" "[1, 0]"] 2(2) by (auto simp: w2_def)
    have "hev_socks5_server_auth self w A
        = Some (0, self\<lparr>sv_obj := ObjUser p\<rparr>, w2\<lparr>rx := ev, tx := t3, sent := sent w2 @ [1, 0]\<rparr>, A')"
      using 1(1) 2(1) r 3(1)
      by (simp add: hev_socks5_server_auth_def hev_socks5_server_write_auth_method_def hev_socks5_server_write_auth_user_def
          w2_def [symmetric])
    then show thesis
      by (rule that) (use e u 3(2) in \<open>auto simp: w2_def same_world_def\<close>)
  qed
qed

lemma enc_addr_split:
  assumes "addr_ok a"
  obtains t b more where "enc_addr a = t # b # more"
    "t = HEV_SOCKS5_ADDR_TYPE_IPV4 \<or> t = HEV_SOCKS5_ADDR_TYPE_IPV6 \<or> t = HEV_SOCKS5_ADDR_TYPE_NAME"
    "length more = (if t = HEV_SOCKS5_ADDR_TYPE_IPV4 then 5 else if t = HEV_SOCKS5_ADDR_TYPE_IPV6 then 17 else 2 + unat b)"
proof (cases a)
  case (IPv4 x p)
  then obtain b x' where "x = b # x'" "length x' = 3" using assms by (cases x) auto
  then show thesis using IPv4 by (intro that [of HEV_SOCKS5_ADDR_TYPE_IPV4 b "x' @ store16 p"]) auto
next
  case (IPv6 x p)
  then obtain b x' where "x = b # x'" "length x' = 15" using assms by (cases x) auto
  then show thesis using IPv6 by (intro that [of HEV_SOCKS5_ADDR_TYPE_IPV6 b "x' @ store16 p"]) (auto simp: addr_types)
next
  case (Domain s p)
  then show thesis
    using assms by (intro that [of HEV_SOCKS5_ADDR_TYPE_NAME "word_of_nat (length s)" "s @ store16 p"]) (auto simp: addr_types)
qed

lemma read_request_accepts:
  assumes av: "avail (rx w) = [5, c, 0] @ enc_addr a @ rest" and a: "addr_ok a"
    and r: "hev_socks5_addr_into_sockaddr6 R (enc_addr a) addr (s5_addr_family self) = Some (sa, fam, r)" "0 \<le> r"
  obtains ev where "hev_socks5_server_read_request R self addr w
      = Some (0, REP_SUCC, Some c, sa, hev_socks5_set_addr_family self fam, w\<lparr>rx := ev\<rparr>)" "avail ev = rest"
proof -
  obtain t b more where e: "enc_addr a = t # b # more"
    "t = HEV_SOCKS5_ADDR_TYPE_IPV4 \<or> t = HEV_SOCKS5_ADDR_TYPE_IPV6 \<or> t = HEV_SOCKS5_ADDR_TYPE_NAME"
    "length more = (if t = HEV_SOCKS5_ADDR_TYPE_IPV4 then 5 else if t = HEV_SOCKS5_ADDR_TYPE_IPV6 then 17 else 2 + unat b)"
    using enc_addr_split [OF a] by blast
  obtain e1 where 1: "hev_task_io_socket_recv w 5 = (5, [5, c, 0, t, b], w\<lparr>rx := e1\<rparr>)" "avail e1 = more @ rest"
    using recv_exact [of 5 w] av e(1) by auto
  have "0 < length more" using e(3) by (auto split: if_splits)
  then obtain e2 where 2: "hev_task_io_socket_recv (w\<lparr>rx := e1\<rparr>) (length more) = (int (length more), more, w\<lparr>rx := e2\<rparr>)" "avail e2 = rest"
    using recv_exact [of "length more" "w\<lparr>rx := e1\<rparr>"] 1(2) by auto
  have "hev_socks5_server_read_request R self addr w
      = Some (0, REP_SUCC, Some c, sa, hev_socks5_set_addr_family self fam, w\<lparr>rx := e2\<rparr>)"
    using 1 2 r e(2,3) unfolding e(1) by (elim disjE) (simp_all add: hev_socks5_server_read_request_def addr_types socks5_access)
  then show thesis using that 2(2) by blast
qed

lemma server_connect_accepts:
  assumes "sysres w = []"
  shows "\<exists>w'. hev_socks5_server_connect self addr w
      = (0, self\<lparr>s5_timeout := hev_socks5_get_tcp_timeout w, fds0 := fresh_fd (open_fds w)\<rparr>, w')
    \<and> open_fds w' = fresh_fd (open_fds w) # open_fds w \<and> rx w' = rx w \<and> tx w' = tx w \<and> sent w' = sent w"
  using assms fresh_fd_new [of "open_fds w"]
  by (auto simp: hev_socks5_server_connect_def hev_socks5_socket_def sys_socket_def hev_task_add_fd_def next_res_def
      hev_socks5_bind_def socks5_access settings_defs)

lemma write_response_accepts:
  assumes "tx_ok (tx w)" "length (sin6_addr sa) = 16" "length stack = addr_size"
  obtains a ev where "hev_socks5_server_write_response stack rc sa w = Some (0, w\<lparr>tx := ev, sent := sent w @ [5, rc, 0] @ enc_addr a\<rparr>)"
    "(\<exists>x p. a = IPv4 x p \<and> length x = 4) \<or> (\<exists>x p. a = IPv6 x p \<and> length x = 16)"
proof -
  obtain a b k where a: "hev_socks5_addr_from_sockaddr6 stack sa = Some (b, int k)" "take k b = enc_addr a"
    "(\<exists>x p. a = IPv4 x p \<and> length x = 4) \<or> (\<exists>x p. a = IPv6 x p \<and> length x = 16)"
  proof (cases "IN6_IS_ADDR_V4MAPPED (sin6_addr sa)")
    case True
    then obtain b where b: "hev_socks5_addr_from_sockaddr6 stack sa = Some (b, 7)"
      "take 7 b = enc_addr (IPv4 (drop 12 (sin6_addr sa)) (sin6_port sa))"
      using from_sockaddr6_enc(1) [OF assms(2), of stack] assms(3) by (auto simp: addr_size_def)
    show thesis
      by (rule that [of b 7 "IPv4 (drop 12 (sin6_addr sa)) (sin6_port sa)"]) (use b assms(2) in \<open>simp_all del: enc_addr.simps\<close>)
  next
    case False
    then obtain b where b: "hev_socks5_addr_from_sockaddr6 stack sa = Some (b, 19)"
      "take 19 b = enc_addr (IPv6 (sin6_addr sa) (sin6_port sa))"
      using from_sockaddr6_enc(2) [OF assms(2), of stack] assms(3) by (auto simp: addr_size_def)
    show thesis
      by (rule that [of b 19 "IPv6 (sin6_addr sa) (sin6_port sa)"]) (use b assms(2) in \<open>simp_all del: enc_addr.simps\<close>)
  qed
  obtain ev where "hev_task_io_socket_send w ([5, rc, 0] @ enc_addr a)
      = (int (length ([5, rc, 0] @ enc_addr a)), w\<lparr>tx := ev, sent := sent w @ [5, rc, 0] @ enc_addr a\<rparr>)"
    using send_ok [OF assms(1), of "[5, rc, 0] @ enc_addr a"] by (metis append_is_Nil_conv list.distinct(1))
  with a show thesis by (intro that [of a ev]) (auto simp: hev_socks5_server_write_response_def)
qed

text \<open>A request for a connection that is served: the reply and the socket.\<close>

lemma server_rest_accepts:
  assumes av: "avail (rx w) = client_request HEV_SOCKS5_TYPE_TCP a" and a: "addr_ok a" and E: "env_ok E"
    and r: "hev_socks5_addr_into_sockaddr6 (env_resolver E) (enc_addr a) (env_addr E) (s5_addr_family self) = Some (sa, fam, r)"
      "0 \<le> r" "length (sin6_addr sa) = 16"
    and ok: "tx_ok (tx w)" "sysres w = []"
  obtains self' w' b where "server_rest E self w A = Some (0, self', w', A)" "sv_obj self' = sv_obj self"
    "fds0 self' \<in> set (open_fds w')" "fds0 self' \<notin> set (open_fds w)"
    "sent w' = sent w @ [5, 0, 0] @ enc_addr b" "(\<exists>x p. b = IPv4 x p \<and> length x = 4) \<or> (\<exists>x p. b = IPv6 x p \<and> length x = 16)"
proof -
  obtain ev where 1: "hev_socks5_server_read_request (env_resolver E) self (env_addr E) w
      = Some (0, REP_SUCC, Some 1, sa, hev_socks5_set_addr_family self fam, w\<lparr>rx := ev\<rparr>)"
    using read_request_accepts [OF _ a r(1,2), of w 1 "[]"] av by (auto simp: client_request_def req_cmd_def)
  let ?w1 = "w\<lparr>rx := ev\<rparr>" and ?s1 = "hev_socks5_set_addr_family self fam"
  obtain w2 where 2: "hev_socks5_server_connect ?s1 sa ?w1
      = (0, ?s1\<lparr>s5_timeout := hev_socks5_get_tcp_timeout ?w1, fds0 := fresh_fd (open_fds ?w1)\<rparr>, w2)"
    "open_fds w2 = fresh_fd (open_fds w) # open_fds w" "tx w2 = tx w" "sent w2 = sent w"
    using server_connect_accepts [of ?w1 ?s1 sa] ok(2) by auto
  have "tx_ok (tx w2)" "length (env_stack E) = addr_size" using 2 ok E by (auto simp: env_ok_def)
  then obtain b e3 where 3: "hev_socks5_server_write_response (env_stack E) REP_SUCC sa w2
      = Some (0, w2\<lparr>tx := e3, sent := sent w2 @ [5, REP_SUCC, 0] @ enc_addr b\<rparr>)"
    "(\<exists>x p. b = IPv4 x p \<and> length x = 4) \<or> (\<exists>x p. b = IPv6 x p \<and> length x = 16)"
    using write_response_accepts [OF _ r(3), of w2 "env_stack E" REP_SUCC] by blast
  let ?s2 = "?s1\<lparr>s5_timeout := hev_socks5_get_tcp_timeout ?w1, fds0 := fresh_fd (open_fds ?w1), s5_type := HEV_SOCKS5_TYPE_TCP\<rparr>"
  have "server_rest E self w A = Some (0, ?s2, w2\<lparr>tx := e3, sent := sent w2 @ [5, REP_SUCC, 0] @ enc_addr b\<rparr>, A)"
    using 1 2(1) 3(1) by (simp add: server_rest_def server_dispatch_def)
  then show thesis
    by (rule that) (use 2 3 fresh_fd_new [of "open_fds w"] in \<open>simp_all add: socks5_access REP_SUCC_def\<close>)
qed

lemma reply_len_server:
  assumes "(\<exists>x p. b = IPv4 x p \<and> length x = 4) \<or> (\<exists>x p. b = IPv6 x p \<and> length x = 16)"
  shows "reply_len ([5, 2, 1, 0] @ [5, 0, 0] @ enc_addr b) \<noteq> None"
  using assms by (auto simp: reply_len_def method_reply_def creds_reply_def response_len_def addr_types)

text \<open>The whole handshake of the server on such a conversation.\<close>

lemma handshake_accepts:
  assumes a: "addr_ok a" and n: "n \<noteq> []" "pw \<noteq> []" "length n < 256" "length pw < 256"
    and s: "env_ok E" "sv_obj s = ObjAuth" "auth_serves (auth_db A) N m" "m n = Some pw"
    and r: "hev_socks5_addr_into_sockaddr6 (env_resolver E) (enc_addr a) (env_addr E) (s5_addr_family s) = Some (sa, fam, r)"
      "0 \<le> r" "length (sin6_addr sa) = 16"
    and w: "tx_ok (tx w)" "sysres w = []" "avail (rx w) = [5, 1, 2] @ creds_message n pw @ client_request HEV_SOCKS5_TYPE_TCP a"
  obtains s' w' A' b where "hev_socks5_server_handshake E s w A = Some (0, s', w', A')" "holds_user s' A' n"
    "fds0 s' \<in> set (open_fds w') - set (open_fds w)" "sent w' = sent w @ [5, 2, 1, 0] @ [5, 0, 0] @ enc_addr b"
    "(\<exists>x p. b = IPv4 x p \<and> length x = 4) \<or> (\<exists>x p. b = IPv6 x p \<and> length x = 16)"
proof -
  let ?s = "hev_socks5_set_timeout s (hev_socks5_get_tcp_timeout w)"
  have "sv_obj ?s = ObjAuth" using s(2) by (simp add: socks5_access)
  then obtain p w1 A1 where 1: "hev_socks5_server_auth ?s w A = Some (0, ?s\<lparr>sv_obj := ObjUser p\<rparr>, w1, A1)"
    "avail (rx w1) = client_request HEV_SOCKS5_TYPE_TCP a" "sent w1 = sent w @ [5, 2, 1, 0]" "tx_ok (tx w1)"
    "same_world w w1" "holds_user (?s\<lparr>sv_obj := ObjUser p\<rparr>) A1 n"
    using server_auth_accepts [OF s(3) _ w(1) w(3) s(4) n] by blast
  let ?s1 = "?s\<lparr>sv_obj := ObjUser p\<rparr>"
  have f: "s5_addr_family ?s1 = s5_addr_family s" "sysres w1 = []" using 1(5) w(2) by (simp_all add: socks5_access same_world_def)
  obtain s' w' b where 2: "server_rest E ?s1 w1 A1 = Some (0, s', w', A1)" "sv_obj s' = sv_obj ?s1"
    "fds0 s' \<in> set (open_fds w')" "fds0 s' \<notin> set (open_fds w1)"
    "sent w' = sent w1 @ [5, 0, 0] @ enc_addr b" "(\<exists>x p. b = IPv4 x p \<and> length x = 4) \<or> (\<exists>x p. b = IPv6 x p \<and> length x = 16)"
    using server_rest_accepts [OF 1(2) a s(1) _ r(2,3) 1(4) f(2)] r(1) f(1) by metis
  have "hev_socks5_server_handshake E s w A = Some (0, s', w', A1)"
    using handshake_after_auth [OF 1(1)] 2(1) by simp
  moreover have "holds_user s' A1 n" using 1(6) 2(2) by (auto simp: holds_user_def)
  ultimately show thesis using that 2 1(3,5) by (auto simp: same_world_def)
qed

lemma conj_ex_intro: "P \<Longrightarrow> \<exists>x y z. Q x y z \<Longrightarrow> \<exists>x y z. P \<and> Q x y z"
  by blast

lemma handshake_outcome:
  assumes "env_ok E" "fds0 self = -1" "fds1 self = -1" "auth_serves (auth_db A) N m"
    and "sv_obj self = ObjNone \<or> sv_obj self = ObjAuth"
  shows "\<exists>r self' w' A'. hev_socks5_server_handshake E self w A = Some (r, self', w', A')
    \<and> (r = 0 \<or> r = -1) \<and> fds_grow w w' (own_fds self') \<and> obj_live self' A'"
proof -
  let ?s = "hev_socks5_set_timeout self (hev_socks5_get_tcp_timeout w)"
  have "\<exists>r1 self1 w1 A1. hev_socks5_server_auth ?s w A = Some (r1, self1, w1, A1) \<and> open_fds w1 = open_fds w
      \<and> polled w1 = polled w \<and> fds0 self1 = fds0 self \<and> fds1 self1 = fds1 self \<and> obj_live self1 A1"
  proof (cases "sv_obj self = ObjNone")
    case True
    then show ?thesis by (rule_tac server_auth_open [of ?s w A]) (auto simp: socks5_access obj_live_def)
  next
    case False
    then have "sv_obj ?s = ObjAuth" using assms(5) by (auto simp: socks5_access)
    then show ?thesis by (rule server_auth_outcome [OF assms(4), of ?s w]) (auto simp: socks5_access intro: obj_live_user)
  qed
  then obtain r1 self1 w1 A1 where 1: "hev_socks5_server_auth ?s w A = Some (r1, self1, w1, A1)"
    "open_fds w1 = open_fds w" "polled w1 = polled w" "fds0 self1 = fds0 self" "fds1 self1 = fds1 self" "obj_live self1 A1"
    by blast
  show ?thesis by (rule handshake_split [OF assms(2,3,1) 1(1-5)]) (use 1(6) in \<open>fastforce simp: obj_live_def\<close>)
qed


text \<open>A server, its environment and a database with one user, to apply the properties to.\<close>

definition env0 :: server_env where
  "env0 = \<lparr>env_resolver = \<lparr>pton4 = (\<lambda>_. None), pton6 = (\<lambda>_. None), getaddrinfo = (\<lambda>_ _. None)\<rparr>,
     env_sockname = (\<lambda>_. \<lparr>sin6_family = AF_INET6, sin6_port = 0, sin6_addr = replicate 16 0\<rparr>),
     env_addr = \<lparr>sin6_family = AF_UNSPEC, sin6_port = 0, sin6_addr = replicate 16 0\<rparr>, env_stack = replicate 260 0\<rparr>"

definition server0 :: hev_socks5_server where
  "server0 = (fst (hev_socks5_server_construct server_zero 7))\<lparr>sv_obj := ObjAuth\<rparr>"

lemma env0_ok: "env_ok env0"
  by (simp add: env_ok_def env0_def resolver_ok_def addr_size_def)

lemma server0_fields: "fds0 server0 = -1" "fds1 server0 = -1" "sv_obj server0 = ObjAuth" "s5_addr_family server0 = AF_UNSPEC"
  by (simp_all add: server0_def hev_socks5_server_construct_def hev_socks5_construct_def server_zero_def)

definition one_user :: "auth_state \<Rightarrow> bool" where
  "one_user A \<longleftrightarrow> (\<exists>d. hev_socks5_authenticator_new True Map.empty Map.empty = Some d
     \<and> auth_run three_ptrs [AddUser [97] [98]] d = Some (auth_db A, [0])) \<and> auth_refs A = 1"

lemma one_user_serves: "\<exists>A N. one_user A \<and> auth_serves (auth_db A) N [[97] \<mapsto> [98]]"
proof -
  obtain d where d: "hev_socks5_authenticator_new True Map.empty Map.empty = Some d"
    by (simp add: hev_socks5_authenticator_new_def hev_socks5_authenticator_construct_def)
  then obtain d' where "auth_run three_ptrs [AddUser [97] [98]] d = Some (d', [0])" "auth_holds d' [[97] \<mapsto> [98]]"
    using auth_run_holds [OF auth_new_holds [OF d] _ three_ptrs_fresh, of "[AddUser [97] [98]]"]
    by (auto simp: fits_u32_def)
  then show ?thesis
    using d auth_holds_serves [of d' "[[97] \<mapsto> [98]]"] by (intro exI [of _ "\<lparr>auth_db = d', auth_refs = 1\<rparr>"]) (auto simp: one_user_def)
qed

definition talk0 :: sys where
  "talk0 = sys0\<lparr>rx := [Chunk [5, 1], RAgain, Chunk [2, 1, 1, 97, 1, 98, 5, 1, 0, 1], Chunk [10, 0, 0, 1, 0, 80]], tx := [Accept 0]\<rparr>"

lemma talk0_avail:
  "avail (rx talk0) = [5, 1, 2] @ creds_message [97] [98] @ client_request HEV_SOCKS5_TYPE_TCP (IPv4 [10, 0, 0, 1] 0x5000)"
  by (simp add: talk0_def creds_message_def client_request_def req_cmd_def addr_types store16_def)

lemma talk0_facts: "tx_ok (tx talk0)" "sysres talk0 = []" "sent talk0 = []"
  by (simp_all add: talk0_def sys0_def tx_ok_def)

lemma talk0_dest:
  "hev_socks5_addr_into_sockaddr6 (env_resolver env0) (enc_addr (IPv4 [10, 0, 0, 1] 0x5000)) (env_addr env0) (s5_addr_family server0)
    = Some (\<lparr>sin6_family = AF_INET6, sin6_port = 0x5000, sin6_addr = v4mapped_prefix @ [10, 0, 0, 1]\<rparr>, AF_INET, 0)"
  using into_sockaddr6_enc(1) [of "[10, 0, 0, 1]" "env_resolver env0" "0x5000" "[]"] by (simp add: env0_def del: enc_addr.simps)

lemma talk0_accepts:
  assumes "auth_serves (auth_db A) N [[97] \<mapsto> [98]]"
  shows "\<exists>s' w' A'. hev_socks5_server_handshake env0 server0 talk0 A = Some (0, s', w', A')"
  by (rule handshake_accepts [OF _ _ _ _ _ env0_ok server0_fields(3) assms _ talk0_dest _ _ talk0_facts(1,2) talk0_avail])
     (auto simp: v4mapped_prefix_def)

section \<open>The connection to the client\<close>

text \<open>No step replaces the descriptor of the client.\<close>

lemma server_fd_kept:
  "hev_socks5_server_read_auth_user self w A = Some (r, self', w', A') \<Longrightarrow> s5_fd self' = s5_fd self"
  "hev_socks5_server_read_request R self addr w = Some (r, rc, cmd, addr', self', w') \<Longrightarrow> s5_fd self' = s5_fd self"
  "hev_socks5_server_connect self addr w = (r, self', w') \<Longrightarrow> s5_fd self' = s5_fd self"
  "hev_socks5_server_bind sockname self oaddr w = (r, oaddr', self', w') \<Longrightarrow> s5_fd self' = s5_fd self"
  by (auto simp: hev_socks5_server_read_auth_user_def hev_socks5_server_read_request_def hev_socks5_server_connect_def
      hev_socks5_server_bind_def Let_def socks5_access split: prod.splits if_splits Option.bind_splits option.splits)

lemma server_handshake_fd:
  assumes "hev_socks5_server_handshake E self w A = Some (r, self', w', A')"
  shows "s5_fd self' = s5_fd self"
proof -
  let ?s = "hev_socks5_set_timeout self (hev_socks5_get_tcp_timeout w)"
  obtain r1 s1 w1 A1 where 1: "hev_socks5_server_auth ?s w A = Some (r1, s1, w1, A1)"
    using assms by (cases "hev_socks5_server_auth ?s w A") (auto simp: hev_socks5_server_handshake_def)
  then have s1: "s5_fd s1 = s5_fd self"
    by (auto simp: hev_socks5_server_auth_def Let_def socks5_access dest!: server_fd_kept(1) split: prod.splits if_splits Option.bind_splits)
  have d: "s5_fd s' = s5_fd s" if "server_dispatch E cmd s addr w = Some (rc, addr', s', w')" for cmd s addr w rc addr' s' w'
    using that by (auto simp: server_dispatch_def dest!: server_fd_kept(3,4) split: prod.splits if_splits Option.bind_splits)
  have "s5_fd self' = s5_fd s1"
    using assms handshake_after_auth [OF 1, of E]
    by (auto simp: server_rest_def dest!: server_fd_kept(2) d split: prod.splits if_splits Option.bind_splits)
  then show ?thesis using s1 by simp
qed

lemma server_destruct_closes:
  assumes g: "fds_grow w w' (own_fds self)" and l: "obj_live self A" and fd: "0 \<le> s5_fd self"
    and p: "set (polled w) \<subseteq> set (open_fds w)"
  obtains w'' A'' where "hev_socks5_server_destruct self w' A = Some (w'', A'')"
    "set (open_fds w'') = set (open_fds w) - {s5_fd self}" "set (polled w'') = set (polled w) - {s5_fd self}"
proof -
  obtain A'' where "obj_unref (sv_obj self) A = Some A''" using obj_live_unref [OF l] by blast
  moreover have drop: "set (open_fds (drop_fd f v)) = set (open_fds v) - {f}" "set (polled (drop_fd f v)) = set (polled v) - {f}" for f v
    by (auto simp: drop_fd_def sys_close_def hev_task_del_fd_def)
  define v where "v = (if fds0 self \<ge> 0 then drop_fd (fds0 self) w' else w')"
  define v' where "v' = (if fds1 self \<ge> 0 then drop_fd (fds1 self) v else v)"
  have "set (open_fds v') = set (open_fds w') - own_fds self" "set (polled v') = set (polled w') - own_fds self"
    by (auto simp: v'_def v_def drop own_fds_def)
  ultimately obtain w'' where w'': "hev_socks5_server_destruct self w' A = Some (w'', A'')"
    "set (open_fds w'') = set (open_fds w') - own_fds self - {s5_fd self}" "set (polled w'') = set (polled w') - own_fds self - {s5_fd self}"
    using fd drop [of "s5_fd self" v']
    by (auto simp: hev_socks5_server_destruct_def Let_def hev_socks5_destruct_def v_def [symmetric] v'_def [symmetric])
  show thesis by (rule that [OF w''(1)]) (use w'' g p in \<open>auto simp: fds_grow_def\<close>)
qed

section \<open>Properties\<close>

text \<open>
  C8. The handshake of the server terminates without a memory fault whatever the client sends and
  whichever system calls fail, with 0 or -1; and in every case the descriptors it opened and did not
  close again are exactly the ones the server object records, so that its destruction releases them.
\<close>

theorem server_handshake_total:
  assumes "env_ok E" "fds0 self = -1" "fds1 self = -1" "auth_serves (auth_db A) N m"
    and "sv_obj self = ObjNone \<or> sv_obj self = ObjAuth"
  shows "\<exists>r self' w' A'. hev_socks5_server_handshake E self w A = Some (r, self', w', A')
    \<and> (r = 0 \<or> r = -1) \<and> fds_grow w w' (own_fds self')"
  using handshake_outcome [OF assms] by blast

theorem server_handshake_total_witness:
  "\<exists>A r self' w' A'. one_user A \<and> hev_socks5_server_handshake env0 server0 (sys0\<lparr>rx := [Chunk [5, 1, 0], RErr]\<rparr>) A = Some (r, self', w', A')
    \<and> (r = 0 \<or> r = -1) \<and> fds_grow (sys0\<lparr>rx := [Chunk [5, 1, 0], RErr]\<rparr>) w' (own_fds self')"
  using one_user_serves server_handshake_total [OF env0_ok server0_fields(1,2)] server0_fields(3) by metis

text \<open>
  C9. A session leaks no descriptor: whatever the outcome of the handshake, the destruction of the
  server, which does not fault either, leaves exactly the descriptors open and exactly those polled that
  were so before, less the connection to the client. Only open descriptors are polled at the beginning.
\<close>

theorem server_session_closes:
  assumes "env_ok E" "fds0 self = -1" "fds1 self = -1" "auth_serves (auth_db A) N m" "0 \<le> s5_fd self"
    and "sv_obj self = ObjNone \<or> sv_obj self = ObjAuth" "set (polled w) \<subseteq> set (open_fds w)"
  shows "\<exists>r self' w' A' w'' A''. hev_socks5_server_handshake E self w A = Some (r, self', w', A')
    \<and> hev_socks5_server_destruct self' w' A' = Some (w'', A'')
    \<and> set (open_fds w'') = set (open_fds w) - {s5_fd self} \<and> set (polled w'') = set (polled w) - {s5_fd self}"
proof -
  obtain r self' w' A' where h: "hev_socks5_server_handshake E self w A = Some (r, self', w', A')"
    "fds_grow w w' (own_fds self')" "obj_live self' A'"
    using handshake_outcome [OF assms(1-4,6)] by blast
  have "s5_fd self' = s5_fd self" using server_handshake_fd [OF h(1)] .
  then show ?thesis using server_destruct_closes [OF h(2,3)] h(1) assms(5,7) by metis
qed

theorem server_session_closes_witness:
  "\<exists>A r self' w' A' w'' A''. one_user A \<and> hev_socks5_server_handshake env0 server0 (talk0\<lparr>open_fds := [3, 7], polled := [7, 3]\<rparr>) A = Some (r, self', w', A')
    \<and> hev_socks5_server_destruct self' w' A' = Some (w'', A'') \<and> set (open_fds w'') = {3} \<and> set (polled w'') = {3}"
proof -
  let ?w = "talk0\<lparr>open_fds := [3, 7], polled := [7, 3]\<rparr>"
  have "set (open_fds ?w) - {s5_fd server0} = {3}" "set (polled ?w) - {s5_fd server0} = {3}" "0 \<le> s5_fd server0"
    "set (polled ?w) \<subseteq> set (open_fds ?w)"
    by (auto simp: server0_def hev_socks5_server_construct_def hev_socks5_construct_def server_zero_def)
  then show ?thesis
    using one_user_serves server_session_closes [OF env0_ok server0_fields(1,2), where w = ?w] server0_fields(3)
    by metis
qed

text \<open>
  C2. A server that was given an authenticator lets nobody in without valid credentials: if its
  handshake succeeds, then the client offered the user/password method and sent a name and a
  password that the database holds, and the server has a reference to that very user.
\<close>

theorem server_auth_enforced:
  assumes "env_ok E" "fds0 self = -1" "fds1 self = -1" "auth_serves (auth_db A) N m" "sv_obj self = ObjAuth"
    and h: "hev_socks5_server_handshake E self w A = Some (0, self', w', A')"
  shows "\<exists>ms n pw rest. methods_at (avail (rx w)) = Some ms \<and> 2 \<in> set ms
    \<and> parse_creds (drop (2 + length ms) (avail (rx w))) = Some (n, pw, rest) \<and> m n = Some pw \<and> holds_user self' A' n"
proof -
  let ?s = "hev_socks5_set_timeout self (hev_socks5_get_tcp_timeout w)"
  have s: "sv_obj ?s = ObjAuth" "fds0 ?s = -1" "fds1 ?s = -1" "fds0 self = fds0 ?s" "fds1 self = fds1 ?s"
    using assms by (auto simp: socks5_access)
  show ?thesis
  proof (rule server_auth_outcome [OF assms(4) s(1), of w])
    fix self1 w1 A1
    assume a: "hev_socks5_server_auth ?s w A = Some (-1, self1, w1, A1)"
    then have "hev_socks5_server_handshake E self w A = Some (-1, self1, w1, A1)" by (simp add: hev_socks5_server_handshake_def)
    then show ?thesis using h by simp
  next
    fix ms n pw rest self1 w1 A1
    assume a: "hev_socks5_server_auth ?s w A = Some (0, self1, w1, A1)"
      and c: "methods_at (avail (rx w)) = Some ms" "2 \<in> set ms"
        "parse_creds (drop (2 + length ms) (avail (rx w))) = Some (n, pw, rest)" "m n = Some pw" "holds_user self1 A1 n"
      and q: "open_fds w1 = open_fds w" "polled w1 = polled w" "fds0 self1 = fds0 ?s" "fds1 self1 = fds1 ?s"
    have "A' = A1 \<and> sv_obj self' = sv_obj self1"
      using handshake_split [OF assms(2,3,1) a q(1,2)] q(3,4) s(4,5) h by (metis option.inject prod.inject)
    then have "holds_user self' A' n" using c(5) by (auto simp: holds_user_def)
    then show ?thesis using c by blast
  qed
qed

theorem server_auth_enforced_witness:
  "\<exists>A self' w' A'. one_user A \<and> hev_socks5_server_handshake env0 server0 talk0 A = Some (0, self', w', A')
    \<and> (\<exists>ms n pw rest. methods_at (avail (rx talk0)) = Some ms \<and> 2 \<in> set ms
      \<and> parse_creds (drop (2 + length ms) (avail (rx talk0))) = Some (n, pw, rest) \<and> [[97] \<mapsto> [98]] n = Some pw \<and> holds_user self' A' n)"
proof -
  obtain A N where A: "one_user A" "auth_serves (auth_db A) N [[97] \<mapsto> [98]]" using one_user_serves by blast
  obtain self' w' A' where h: "hev_socks5_server_handshake env0 server0 talk0 A = Some (0, self', w', A')"
    using talk0_accepts [OF A(2)] by blast
  show ?thesis using A(1) h server_auth_enforced [OF env0_ok server0_fields(1,2) A(2) server0_fields(3) h] by blast
qed

text \<open>
  C3. Client and server understand each other: if the bytes that reach the server are the greeting,
  the credentials and the request of a client whose credentials are in the database, and no call
  fails, then the handshake of the server succeeds, it owns a new open socket and a reference to
  the user; and a client that receives the bytes which the server has sent succeeds in both
  modes, having sent exactly the bytes that the server received.
\<close>

theorem handshake_agreement:
  fixes c :: hev_socks5_client_tcp
  assumes c: "ct_addr c = Some (enc_addr a)" "addr_ok a" "s5_type c = HEV_SOCKS5_TYPE_TCP"
      "auth_user c = Some n" "auth_pass c = Some pw" "n \<noteq> []" "pw \<noteq> []" "length n < 256" "length pw < 256"
    and s: "env_ok E" "fds0 s = -1" "fds1 s = -1" "sv_obj s = ObjAuth" "auth_serves (auth_db A) N m" "m n = Some pw"
    and r: "hev_socks5_addr_into_sockaddr6 (env_resolver E) (enc_addr a) (env_addr E) (s5_addr_family s) = Some (sa, fam, r)"
      "0 \<le> r" "length (sin6_addr sa) = 16"
    and w: "tx_ok (tx w)" "sysres w = []" "sent w = []"
      "avail (rx w) = client_greeting c @ client_creds c @ client_request HEV_SOCKS5_TYPE_TCP a"
  shows "\<exists>s' w' A'. hev_socks5_server_handshake E s w A = Some (0, s', w', A') \<and> holds_user s' A' n
    \<and> fds0 s' \<in> set (open_fds w') - set (open_fds w)
    \<and> (\<forall>wc pipeline. tx_ok (tx wc) \<and> avail (rx wc) = sent w' \<longrightarrow>
         (\<exists>c' wc'. hev_socks5_client_handshake hev_socks5_client_tcp_class c pipeline wc = Some (0, c', wc')
            \<and> sent wc' = sent wc @ avail (rx w)))"
proof -
  have hc: "has_creds c" "client_creds c = creds_message n pw" "creds_fit c"
    using c by (auto simp: has_creds_def client_creds_def creds_fit_def)
  have "avail (rx w) = [5, 1, 2] @ creds_message n pw @ client_request HEV_SOCKS5_TYPE_TCP a"
    using w(4) hc by (simp add: client_greeting_def)
  from handshake_accepts [OF c(2,6-9) s(1,4-6) r w(1,2) this]
  obtain s' w' A' b where 1: "hev_socks5_server_handshake E s w A = Some (0, s', w', A')" "holds_user s' A' n"
    "fds0 s' \<in> set (open_fds w') - set (open_fds w)" "sent w' = sent w @ [5, 2, 1, 0] @ [5, 0, 0] @ enc_addr b"
    "(\<exists>x p. b = IPv4 x p \<and> length x = 4) \<or> (\<exists>x p. b = IPv6 x p \<and> length x = 16)" .
  have out: "sent w' = [5, 2, 1, 0] @ [5, 0, 0] @ enc_addr b" using 1(4) w(3) by simp
  have "reply_len (sent w') \<noteq> None" "method_reply (sent w') = 2"
    using reply_len_server [OF 1(5)] by (simp_all add: out method_reply_def)
  then have "\<exists>c' wc'. hev_socks5_client_handshake hev_socks5_client_tcp_class c pipeline wc = Some (0, c', wc')
      \<and> sent wc' = sent wc @ avail (rx w)" if "tx_ok (tx wc)" "avail (rx wc) = sent w'" for wc pipeline
    using client_tcp_handshake_shaken [OF that(1) hc(3) c(1-3), of pipeline] that(2) w(4)
    by (cases "reply_len (sent w')") (auto simp: shaken_def c(3))
  with 1(1-3) show ?thesis by blast
qed

theorem handshake_agreement_witness:
  "\<exists>A s' w' A'. one_user A \<and> hev_socks5_server_handshake env0 server0 talk0 A = Some (0, s', w', A') \<and> holds_user s' A' [97]
    \<and> fds0 s' \<in> set (open_fds w') - set (open_fds talk0)
    \<and> (\<forall>wc pipeline. tx_ok (tx wc) \<and> avail (rx wc) = sent w' \<longrightarrow>
         (\<exists>c' wc'. hev_socks5_client_handshake hev_socks5_client_tcp_class
            (client_tcp_zero\<lparr>s5_type := HEV_SOCKS5_TYPE_TCP, ct_addr := Some (enc_addr (IPv4 [10, 0, 0, 1] 0x5000)),
               auth_user := Some [97], auth_pass := Some [98]\<rparr>) pipeline wc = Some (0, c', wc')
            \<and> sent wc' = sent wc @ avail (rx talk0)))"
proof -
  obtain A N where A: "one_user A" "auth_serves (auth_db A) N [[97] \<mapsto> [98]]" using one_user_serves by blast
  let ?c = "client_tcp_zero\<lparr>s5_type := HEV_SOCKS5_TYPE_TCP, ct_addr := Some (enc_addr (IPv4 [10, 0, 0, 1] 0x5000)),
               auth_user := Some [97], auth_pass := Some [98]\<rparr>"
  have av: "avail (rx talk0) = client_greeting ?c @ client_creds ?c @ client_request HEV_SOCKS5_TYPE_TCP (IPv4 [10, 0, 0, 1] 0x5000)"
    unfolding talk0_avail by (simp add: client_greeting_def client_creds_def has_creds_def)
  show ?thesis
    by (rule exI [of _ A], rule conj_ex_intro [OF A(1)],
        rule handshake_agreement [OF _ _ _ _ _ _ _ _ _ env0_ok server0_fields(1-3) A(2) _ talk0_dest _ _ talk0_facts av])
       (simp_all add: v4mapped_prefix_def)
qed

end
