(* ===== verification/Circular_Buffer.thy ===== *)
theory Circular_Buffer
  imports RingBuffer
begin

text \<open>
  \<open>third-part/hev-task-system/src/lib/io/buffer/hev-circular-buffer.c\<close>: the buffer of the generic splice. It keeps a read position and a fill level only,
  and computes the write position. It is shown to be a queue of bytes, by way of the ring buffer of the TCP session with nothing in flight.
\<close>

section \<open>The struct and its operations\<close>

record hev_circular_buffer =
  cb_rp :: nat
  cb_use_size :: nat
  cb_max_size :: nat
  cb_ref_count :: u32
  cb_data :: "byte list"

text \<open>\<open>mem\<close> is the memory that the allocation returns, if it does.\<close>

definition hev_circular_buffer_new :: "byte list option \<Rightarrow> hev_circular_buffer option" where
  "hev_circular_buffer_new mem = (case mem of
      None \<Rightarrow> None
    | Some d \<Rightarrow> Some \<lparr>cb_rp = 0, cb_use_size = 0, cb_max_size = length d, cb_ref_count = 1, cb_data = d\<rparr>)"

definition hev_circular_buffer_ref :: "hev_circular_buffer \<Rightarrow> hev_circular_buffer" where
  "hev_circular_buffer_ref self = self\<lparr>cb_ref_count := cb_ref_count self + 1\<rparr>"

text \<open>\<open>None\<close>: the buffer is gone.\<close>

definition hev_circular_buffer_unref :: "hev_circular_buffer \<Rightarrow> hev_circular_buffer option" where
  "hev_circular_buffer_unref self =
     (let self = self\<lparr>cb_ref_count := cb_ref_count self - 1\<rparr> in
      if cb_ref_count self \<noteq> 0 then Some self else None)"

definition hev_circular_buffer_get_max_size :: "hev_circular_buffer \<Rightarrow> nat" where
  "hev_circular_buffer_get_max_size self = cb_max_size self"

definition hev_circular_buffer_get_use_size :: "hev_circular_buffer \<Rightarrow> nat" where
  "hev_circular_buffer_get_use_size self = cb_use_size self"

definition hev_circular_buffer_reading :: "hev_circular_buffer \<Rightarrow> iovec list" where
  "hev_circular_buffer_reading self =
     (let upper_size = sz_sub (cb_max_size self) (cb_rp self) in
      if cb_use_size self = 0 then []
      else if cb_use_size self \<le> upper_size then [(cb_rp self, cb_use_size self)]
      else [(cb_rp self, upper_size), (0, sz_sub (cb_use_size self) upper_size)])"

definition hev_circular_buffer_read_finish :: "hev_circular_buffer \<Rightarrow> nat \<Rightarrow> hev_circular_buffer" where
  "hev_circular_buffer_read_finish self sz = self\<lparr>
     cb_rp := sz_add (cb_rp self) sz mod cb_max_size self,
     cb_use_size := sz_sub (cb_use_size self) sz\<rparr>"

definition hev_circular_buffer_writing :: "hev_circular_buffer \<Rightarrow> iovec list" where
  "hev_circular_buffer_writing self =
     (let w = sz_add (cb_rp self) (cb_use_size self) mod cb_max_size self;
          upper_size = sz_sub (cb_max_size self) w;
          spc_size = sz_sub (cb_max_size self) (cb_use_size self) in
      if cb_use_size self = cb_max_size self then []
      else if spc_size \<le> upper_size then [(w, spc_size)]
      else [(w, upper_size), (0, sz_sub spc_size upper_size)])"

definition hev_circular_buffer_write_finish :: "hev_circular_buffer \<Rightarrow> nat \<Rightarrow> hev_circular_buffer" where
  "hev_circular_buffer_write_finish self sz = self\<lparr>cb_use_size := sz_add (cb_use_size self) sz\<rparr>"

text \<open>A writer: the bytes go to the segments, and the level rises.\<close>

definition circ_write :: "hev_circular_buffer \<Rightarrow> byte list \<Rightarrow> hev_circular_buffer" where
  "circ_write self bs = hev_circular_buffer_write_finish
     (self\<lparr>cb_data := scatter (cb_data self) (hev_circular_buffer_writing self) bs\<rparr>) (length bs)"

section \<open>The queue\<close>

definition ring_of :: "hev_circular_buffer \<Rightarrow> hev_ring_buffer" where
  "ring_of self = \<lparr>rp = cb_rp self, wp = (cb_rp self + cb_use_size self) mod cb_max_size self, rda_size = cb_use_size self,
     use_size = cb_use_size self, max_size = cb_max_size self, ring_data = cb_data self\<rparr>"

definition circ_rep :: "hev_circular_buffer \<Rightarrow> byte list \<Rightarrow> bool" where
  "circ_rep self q \<longleftrightarrow> ring_at (ring_of self) (cb_rp self) [] q"

lemma circ_repD:
  assumes "circ_rep self q"
  shows "0 < cb_max_size self" "cb_max_size self < 2 ^ 62" "length (cb_data self) = cb_max_size self" "cb_rp self < cb_max_size self"
    "cb_use_size self = length q" "length q \<le> cb_max_size self"
    "\<And>i. i < length q \<Longrightarrow> cb_data self ! ((cb_rp self + i) mod cb_max_size self) = q ! i"
  using assms by (auto simp: circ_rep_def ring_at_def ring_of_def)

lemma circ_sizes:
  assumes "circ_rep self q"
  shows "sz_add (cb_rp self) (cb_use_size self) = cb_rp self + cb_use_size self"
    "n \<le> length q \<Longrightarrow> sz_add (cb_rp self) n = cb_rp self + n" "n \<le> length q \<Longrightarrow> sz_sub (cb_use_size self) n = length q - n"
    "n \<le> cb_max_size self \<Longrightarrow> sz_add (cb_use_size self) n = length q + n"
proof -
  note m = circ_repD(1-6) [OF assms]
  have b: "cb_rp self < 2 ^ 62" "length q < 2 ^ 62" using m by linarith+
  show "sz_add (cb_rp self) (cb_use_size self) = cb_rp self + cb_use_size self" using b m(5) sz_simps(1) by presburger
  show "n \<le> length q \<Longrightarrow> sz_add (cb_rp self) n = cb_rp self + n" "n \<le> length q \<Longrightarrow> sz_sub (cb_use_size self) n = length q - n"
    using b m(5) sz_simps by (metis le_less_trans)+
  show "n \<le> cb_max_size self \<Longrightarrow> sz_add (cb_use_size self) n = length q + n" using b m(2,5) sz_simps(1) by (metis le_less_trans)
qed

lemma circ_reading_ring: "hev_circular_buffer_reading self = hev_ring_buffer_reading (ring_of self)"
  by (simp add: hev_circular_buffer_reading_def hev_ring_buffer_reading_def ring_of_def Let_def)

lemma circ_writing_ring:
  assumes "circ_rep self q"
  shows "hev_circular_buffer_writing self = hev_ring_buffer_writing (ring_of self)"
  using circ_sizes(1) [OF assms] by (simp add: hev_circular_buffer_writing_def hev_ring_buffer_writing_def ring_of_def Let_def)

lemma circ_new:
  assumes "d \<noteq> []" "length d < 2 ^ 62"
  shows "\<exists>b. hev_circular_buffer_new (Some d) = Some b \<and> circ_rep b [] \<and> cb_max_size b = length d \<and> cb_ref_count b = 1"
  using assms by (simp add: hev_circular_buffer_new_def circ_rep_def ring_of_def ring_at_def)

lemma circ_reading: "circ_rep self q \<Longrightarrow> gather (cb_data self) (hev_circular_buffer_reading self) = q"
  using ring_reading_gather [of "ring_of self" "cb_rp self" "[]" q] by (simp add: circ_rep_def circ_reading_ring ring_of_def)

lemma circ_reading_empty: "circ_rep self q \<Longrightarrow> hev_circular_buffer_reading self = [] \<longleftrightarrow> q = []"
  by (auto simp: hev_circular_buffer_reading_def Let_def circ_repD(5))

lemma circ_read_finish:
  assumes r: "circ_rep self q" and n: "n \<le> length q"
  shows "circ_rep (hev_circular_buffer_read_finish self n) (drop n q)"
proof -
  note m = circ_repD [OF r] and s = circ_sizes(2,3) [OF r n]
  let ?m = "cb_max_size self"
  have "cb_data self ! (((cb_rp self + n) mod ?m + i) mod ?m) = drop n q ! i" if "i < length q - n" for i
    using m(7) [of "n + i"] that n by (simp add: mod_simps add.assoc)
  then show ?thesis
    using m s n by (auto simp: circ_rep_def ring_at_def ring_of_def hev_circular_buffer_read_finish_def mod_simps)
qed

lemma circ_write_rep:
  assumes r: "circ_rep self q" and n: "length q + length bs \<le> cb_max_size self"
  shows "circ_rep (circ_write self bs) (q @ bs)" "cb_max_size (circ_write self bs) = cb_max_size self"
    "cb_ref_count (circ_write self bs) = cb_ref_count self"
proof -
  note m = circ_repD [OF r]
  have u: "length bs \<le> max_size (ring_of self) - use_size (ring_of self)" using n m(5) by (simp add: ring_of_def)
  have a: "ring_at (ring_write (ring_of self) bs) (cb_rp self) [] (q @ bs)"
    by (rule ring_write_at [OF r [unfolded circ_rep_def] u])
  have s: "sz_add (cb_use_size self) (length bs) = length q + length bs" by (rule circ_sizes(4) [OF r]) (use n in simp)
  have "wp (ring_write (ring_of self) bs) = (cb_rp self + (length q + length bs)) mod cb_max_size self"
    using a by (simp add: ring_at_def ring_write_def hev_ring_buffer_write_finish_def ring_of_def)
  then have "ring_write (ring_of self) bs = ring_of (circ_write self bs)"
    using s m(5) circ_writing_ring [OF r]
    by (simp add: ring_write_def hev_ring_buffer_write_finish_def ring_of_def circ_write_def hev_circular_buffer_write_finish_def)
  then show "circ_rep (circ_write self bs) (q @ bs)" using a
    by (simp add: circ_rep_def circ_write_def hev_circular_buffer_write_finish_def)
qed (simp_all add: circ_write_def hev_circular_buffer_write_finish_def)

lemma circ_room:
  assumes "circ_rep self q"
  shows "sum_list (map snd (hev_circular_buffer_writing self)) = cb_max_size self - length q"
proof -
  note m = circ_repD(1-6) [OF assms]
  let ?w = "(cb_rp self + cb_use_size self) mod cb_max_size self"
  have w: "?w < cb_max_size self" using m(1) by simp
  have "sz_sub (cb_max_size self) ?w = cb_max_size self - ?w" "sz_sub (cb_max_size self) (cb_use_size self) = cb_max_size self - length q"
    using sz_simps(2) [OF _ m(2)] w m(5,6) by simp_all
  then show ?thesis using circ_sizes(1) [OF assms] m(2,5,6) w by (auto simp: hev_circular_buffer_writing_def Let_def)
qed

end
