(* ===== verification/UDP_Relay.thy ===== *)
theory UDP_Relay
  imports Socks5_Base RingBuffer
begin

text \<open>
  Datagrams over SOCKS (\<open>hev-socks5-udp.c\<close>): framed in the stream of the connection, or each with a header
  in a datagram of an associated socket. A message is the address it is for or from, as the bytes from
  the pointer to the end of its block, and the bytes of its buffer. \<open>None\<close> is a fault: an access outside
  a block or through a pointer that was never set.
\<close>

section \<open>Receiving and sending on sockets\<close>

text \<open>
  \<open>errno == EAGAIN\<close> after a sequence of attempts: each one that fails sets it, one that succeeds leaves
  it as it was.
\<close>

definition rx_errno :: "rx_event \<Rightarrow> bool \<Rightarrow> bool" where
  "rx_errno e again = (case e of Chunk bs \<Rightarrow> again | RAgain \<Rightarrow> True | RTimeout \<Rightarrow> True | RErr \<Rightarrow> False)"

definition rx_errnos :: "rx_event list \<Rightarrow> rx_event list \<Rightarrow> bool \<Rightarrow> bool" where
  "rx_errnos ev ev' again = fold rx_errno (take (length ev - length ev') ev) again"

text \<open>\<open>hev_task_io_socket_recv\<close> without \<open>MSG_WAITALL\<close>: one successful attempt; \<open>nb\<close> is \<open>MSG_DONTWAIT\<close>.\<close>

fun recv_once :: "bool \<Rightarrow> nat \<Rightarrow> rx_event list \<Rightarrow> int \<times> byte list \<times> rx_event list" where
  "recv_once nb len [] = (0, [], [])"
| "recv_once nb len (RAgain # ev) = (if nb then (-1, [], ev) else recv_once nb len ev)"
| "recv_once nb len (RTimeout # ev) = (if nb then -1 else -2, [], ev)"
| "recv_once nb len (RErr # ev) = (-1, [], ev)"
| "recv_once nb len (Chunk bs # ev) =
     (let got = take len bs; rest = drop len bs in
      if got = [] then (0, [], Chunk bs # ev)
      else (int (length got), got, if rest = [] then ev else Chunk rest # ev))"

text \<open>
  \<open>hev_task_io_socket_recvmsg\<close> with \<open>MSG_WAITALL\<close>, for segments of the given sizes: what arrives fills the
  segments in turn, and after a partial receive the segments are advanced.
\<close>

fun cap_advance :: "nat \<Rightarrow> nat list \<Rightarrow> nat list" where
  "cap_advance s [] = []"
| "cap_advance s (n # caps) = (if s < n then (n - s) # caps else cap_advance (s - n) caps)"

fun recvmsg_loop :: "nat \<Rightarrow> byte list \<Rightarrow> nat list \<Rightarrow> rx_event list \<Rightarrow> int \<times> byte list \<times> rx_event list" where
  "recvmsg_loop len acc caps [] = (partial_or (length acc) 0, acc, [])"
| "recvmsg_loop len acc caps (RAgain # ev) = recvmsg_loop len acc caps ev"
| "recvmsg_loop len acc caps (RTimeout # ev) = (partial_or (length acc) (-2), acc, ev)"
| "recvmsg_loop len acc caps (RErr # ev) = (partial_or (length acc) (-1), acc, ev)"
| "recvmsg_loop len acc caps (Chunk bs # ev) =
     (let got = take (sum_list caps) bs; rest = drop (sum_list caps) bs in
      if got = [] then (partial_or (length acc) 0, acc, Chunk bs # ev)
      else if length acc + length got < len then recvmsg_loop len (acc @ got) (cap_advance (length got) caps) ev
      else (int (length acc + length got), acc @ got, if rest = [] then ev else Chunk rest # ev))"

text \<open>
  A datagram socket: batches of datagrams with their sources (the kernel hands out as many as there is
  room for), waits and errors; how many messages each attempt to send takes; what was sent, with the
  destination if the message names one.
\<close>

datatype dg_rx_event = Batch "(byte list \<times> sockaddr_in6) list" | DAgain | DTimeout | DErr
datatype dg_tx_event = DAccept nat | DTAgain | DTTimeout | DTErr

record dsock =
  ds_rx :: "dg_rx_event list"
  ds_tx :: "dg_tx_event list"
  ds_sent :: "(byte list \<times> sockaddr_in6 option) list"

text \<open>
  \<open>hev_task_io_socket_recvmmsg\<close> without \<open>MSG_WAITALL\<close>; \<open>nb\<close> is \<open>MSG_DONTWAIT\<close>. A datagram longer than its buffer is
  cut. A script that is used up is a wait without end.
\<close>

fun recvmmsg_loop ::
  "bool \<Rightarrow> nat list \<Rightarrow> dg_rx_event list \<Rightarrow> bool \<Rightarrow> int \<times> (byte list \<times> sockaddr_in6) list \<times> dg_rx_event list \<times> bool" where
  "recvmmsg_loop nb caps [] again = (if nb then -1 else -2, [], [], True)"
| "recvmmsg_loop nb caps (DAgain # ev) again = (if nb then (-1, [], ev, True) else recvmmsg_loop nb caps ev True)"
| "recvmmsg_loop nb caps (DTimeout # ev) again = (if nb then -1 else -2, [], ev, True)"
| "recvmmsg_loop nb caps (DErr # ev) again = (-1, [], ev, False)"
| "recvmmsg_loop nb caps (Batch ds # ev) again =
     (let n = min (length caps) (length ds) in
      (int n, map2 (\<lambda>c d. (take c (fst d), snd d)) (take n caps) (take n ds),
       if drop n ds = [] then ev else Batch (drop n ds) # ev, again))"

definition hev_task_io_socket_recvmmsg ::
  "dsock \<Rightarrow> nat list \<Rightarrow> bool \<Rightarrow> bool \<Rightarrow> int \<times> (byte list \<times> sockaddr_in6) list \<times> dsock \<times> bool" where
  "hev_task_io_socket_recvmmsg s caps nb again =
     (case recvmmsg_loop nb caps (ds_rx s) again of (res, got, ev, again) \<Rightarrow> (res, got, s\<lparr>ds_rx := ev\<rparr>, again))"

text \<open>\<open>hev_task_io_socket_sendmmsg\<close> with \<open>MSG_WAITALL\<close>: result, messages sent, remaining script, \<open>errno == EAGAIN\<close>.\<close>

fun sendmmsg_loop :: "nat \<Rightarrow> 'm list \<Rightarrow> dg_tx_event list \<Rightarrow> bool \<Rightarrow> int \<times> 'm list \<times> dg_tx_event list \<times> bool" where
  "sendmmsg_loop c ms [] again = (partial_or (c + length ms) 0, ms, [], again)"
| "sendmmsg_loop c ms (DTAgain # ev) again = sendmmsg_loop c ms ev True"
| "sendmmsg_loop c ms (DTTimeout # ev) again = (partial_or c (-2), [], ev, True)"
| "sendmmsg_loop c ms (DTErr # ev) again = (partial_or c (-1), [], ev, False)"
| "sendmmsg_loop c ms (DAccept k # ev) again =
     (let r = min (Suc k) (length ms) in
      if r = 0 then (partial_or c 0, [], ev, again)
      else if r < length ms then
        (let (res, out, ev, again) = sendmmsg_loop (c + r) (drop r ms) ev again in (res, take r ms @ out, ev, again))
      else (int (c + r), ms, ev, again))"

definition hev_task_io_socket_sendmmsg ::
  "dsock \<Rightarrow> (byte list \<times> sockaddr_in6 option) list \<Rightarrow> bool \<Rightarrow> int \<times> dsock \<times> bool" where
  "hev_task_io_socket_sendmmsg s ms again =
     (case sendmmsg_loop 0 ms (ds_tx s) again of (res, out, ev, again) \<Rightarrow>
        (res, s\<lparr>ds_tx := ev, ds_sent := ds_sent s @ out\<rparr>, again))"

section \<open>Messages\<close>

text \<open>A pointer that was never set, NULL, or the bytes from it to the end of its block.\<close>

datatype addr_ptr = Unset | Null | At "byte list"

record udp_msg =
  um_addr :: addr_ptr
  um_buf :: "byte list"

definition addr_bytes :: "addr_ptr \<Rightarrow> byte list option" where
  "addr_bytes p = (case p of At a \<Rightarrow> Some a | _ \<Rightarrow> None)"

text \<open>
  The world of a relay: the stream, \<open>sock_a\<close> the socket on the side of the SOCKS peer when datagrams go
  in datagrams, \<open>sock_b\<close> the socket on the other side, and \<open>errno\<close>.
\<close>

record relay_sys = sys +
  sock_a :: dsock
  sock_b :: dsock
  errno_again :: bool

text \<open>The yielder: an associated relay ends when the connection that controls it is closed.\<close>

datatype ctl_res = CtlData | CtlClosed | CtlAgain | CtlErr

definition udp_task_io_yielder ::
  "(int \<Rightarrow> int) \<Rightarrow> ctl_res \<Rightarrow> yield_type \<Rightarrow> 'a hev_socks5_scheme \<Rightarrow> int \<times> 'a hev_socks5_scheme" where
  "udp_task_io_yielder sleep ctl ty self =
     (if s5_type self = HEV_SOCKS5_TYPE_UDP_IN_UDP \<and> (ctl = CtlClosed \<or> ctl = CtlErr)
      then (-1, hev_socks5_set_timeout self 0)
      else (hev_socks5_task_io_yielder sleep ty (s5_timeout self), self))"

section \<open>Sending\<close>

definition frame_tcp :: "udp_msg \<Rightarrow> byte list list option option" where
  "frame_tcp m = do {
     a \<leftarrow> addr_bytes (um_addr m);
     addrlen \<leftarrow> hev_socks5_addr_len a;
     if addrlen \<le> 0 then Some None
     else do {
       x \<leftarrow> get_block a 0 (nat addrlen);
       Some (Some [store16 (htons (word_of_nat (length (um_buf m)))) @ [word_of_int (3 + addrlen)], x, um_buf m]) } }"

definition frame_udp :: "udp_msg \<Rightarrow> byte list list option option" where
  "frame_udp m = do {
     a \<leftarrow> addr_bytes (um_addr m);
     addrlen \<leftarrow> hev_socks5_addr_len a;
     if addrlen \<le> 0 then Some None
     else do {
       x \<leftarrow> get_block a 0 (nat addrlen);
       Some (Some [[0, 0, 0], x, um_buf m]) } }"

text \<open>The loop that fills the vector: the first message with a bad address makes the call fail.\<close>

fun frames :: "(udp_msg \<Rightarrow> byte list list option option) \<Rightarrow> udp_msg list \<Rightarrow> byte list list list option option" where
  "frames f [] = Some (Some [])"
| "frames f (m # ms) = do {
     x \<leftarrow> f m;
     case x of None \<Rightarrow> Some None
     | Some iov \<Rightarrow> do { y \<leftarrow> frames f ms; Some (map_option (\<lambda>iovs. iov # iovs) y) } }"

definition hev_socks5_udp_sendmmsg_tcp :: "udp_msg list \<Rightarrow> 'w stream_scheme \<Rightarrow> (int \<times> 'w stream_scheme) option" where
  "hev_socks5_udp_sendmmsg_tcp msgv w = do {
     x \<leftarrow> frames frame_tcp msgv;
     case x of None \<Rightarrow> Some (-1, w)
     | Some iovs \<Rightarrow>
         let (res, w) = hev_task_io_socket_sendmsg w (concat iovs) in
         Some (if res \<le> 0 then -1 else int (length msgv), w) }"

definition hev_socks5_udp_sendmmsg_udp :: "udp_msg list \<Rightarrow> 'w relay_sys_scheme \<Rightarrow> (int \<times> 'w relay_sys_scheme) option" where
  "hev_socks5_udp_sendmmsg_udp msgv w = do {
     x \<leftarrow> frames frame_udp msgv;
     case x of None \<Rightarrow> Some (-1, w)
     | Some iovs \<Rightarrow>
         let (res, s, again) = hev_task_io_socket_sendmmsg (sock_a w) (map (\<lambda>iov. (concat iov, None)) iovs) (errno_again w) in
         Some (res, w\<lparr>sock_a := s, errno_again := again\<rparr>) }"

text \<open>A failed send on the stream leaves \<open>errno\<close> of its last attempt.\<close>

definition tx_errno :: "tx_event \<Rightarrow> bool \<Rightarrow> bool" where
  "tx_errno e again = (case e of Accept k \<Rightarrow> again | TAgain \<Rightarrow> True | TTimeout \<Rightarrow> True | TErr \<Rightarrow> False)"

definition tx_errnos :: "tx_event list \<Rightarrow> tx_event list \<Rightarrow> bool \<Rightarrow> bool" where
  "tx_errnos ev ev' again = fold tx_errno (take (length ev - length ev') ev) again"

definition hev_socks5_udp_sendmmsg ::
  "'a hev_socks5_scheme \<Rightarrow> udp_msg list \<Rightarrow> 'w relay_sys_scheme \<Rightarrow> (int \<times> 'w relay_sys_scheme) option" where
  "hev_socks5_udp_sendmmsg self msgv w = (case s5_type self of
      HEV_SOCKS5_TYPE_UDP_IN_TCP \<Rightarrow>
        map_option (\<lambda>(res, w'). (res, w'\<lparr>errno_again := tx_errnos (tx w) (tx w') (errno_again w)\<rparr>))
          (hev_socks5_udp_sendmmsg_tcp msgv w)
    | HEV_SOCKS5_TYPE_UDP_IN_UDP \<Rightarrow> hev_socks5_udp_sendmmsg_udp msgv w
    | _ \<Rightarrow> Some (-1, w))"

section \<open>Receiving\<close>

definition udp_recv_head :: "bool \<Rightarrow> 'w relay_sys_scheme \<Rightarrow> int \<times> byte list \<times> 'w relay_sys_scheme" where
  "udp_recv_head nb w =
     (let (res, h, ev) = recv_once nb 5 (rx w);
          (res, h, ev) =
            (if 0 < res \<and> res < 5 then
               (let (r, h', ev) = recv_loop (5 - nat res) [] ev in (res + r, h @ h', ev))
             else (res, h, ev)) in
      (res, h, w\<lparr>rx := ev, errno_again := rx_errnos (rx w) ev (errno_again w)\<rparr>))"

text \<open>
  One turn of the loop: \<open>Inr m\<close> when a message was received, \<open>Inl (Some r)\<close> when the call returns \<open>r\<close>,
  \<open>Inl None\<close> when the loop breaks. The two segments lie one after the other in the block, from its third byte.
\<close>

definition udp_recv_tcp :: "bool \<Rightarrow> nat \<Rightarrow> udp_msg \<Rightarrow> 'w relay_sys_scheme
    \<Rightarrow> (udp_msg \<times> (int option + unit) \<times> 'w relay_sys_scheme) option" where
  "udp_recv_tcp nb rlen m w =
     (let (res, h, w) = udp_recv_head nb w in
      if res \<noteq> 5 then Some (m, Inl (if 0 < rlen then None else Some res), w)
      else
        let hdrlen = h ! 2; addrlen = unat hdrlen - 3; datlen = unat (ntohs (load16 h)); b = um_buf m in
        if hdrlen < 5 then Some (m, Inl (Some (-1)), w)
        else if datlen > sz_sub (length b) addrlen then Some (m, Inl (Some (-1)), w)
        else
          let (res, d, ev) = recvmsg_loop (addrlen - 2 + datlen) [] [addrlen - 2, datlen] (rx w);
              w = w\<lparr>rx := ev, errno_again := rx_errnos (rx w) ev (errno_again w)\<rparr> in do {
            b \<leftarrow> put_block b 2 d;
            if res \<noteq> int (addrlen - 2 + datlen) then Some (m\<lparr>um_buf := b\<rparr>, Inl (Some res), w)
            else do {
              b \<leftarrow> put8 b 0 (h ! 3);
              b \<leftarrow> put8 b 1 (h ! 4);
              x \<leftarrow> get_block b addrlen datlen;
              Some (m\<lparr>um_addr := At b, um_buf := x\<rparr>, Inr (), w) } })"

fun udp_recv_tcp_loop :: "bool \<Rightarrow> nat \<Rightarrow> udp_msg list \<Rightarrow> 'w relay_sys_scheme
    \<Rightarrow> (int \<times> udp_msg list \<times> 'w relay_sys_scheme) option" where
  "udp_recv_tcp_loop nb rlen [] w = Some (int rlen, [], w)"
| "udp_recv_tcp_loop nb rlen (m # ms) w = do {
     (m, r, w) \<leftarrow> udp_recv_tcp nb rlen m w;
     case r of
       Inl None \<Rightarrow> Some (int rlen, m # ms, w)
     | Inl (Some res) \<Rightarrow> Some (res, m # ms, w)
     | Inr u \<Rightarrow> do { (res, ms, w) \<leftarrow> udp_recv_tcp_loop nb (Suc rlen) ms w; Some (res, m # ms, w) } }"

definition hev_socks5_udp_recvmmsg_tcp ::
  "udp_msg list \<Rightarrow> bool \<Rightarrow> 'w relay_sys_scheme \<Rightarrow> (int \<times> udp_msg list \<times> 'w relay_sys_scheme) option" where
  "hev_socks5_udp_recvmmsg_tcp msgv nb w = udp_recv_tcp_loop nb 0 msgv w"

text \<open>
  The block of a message after a datagram was received into it, and the header read from it. \<open>Inl\<close> is the
  result of a call that gives up.
\<close>

definition udp_parse :: "udp_msg \<Rightarrow> byte list \<Rightarrow> (int + udp_msg) option" where
  "udp_parse m d = do {
     b \<leftarrow> put_block (um_buf m) 0 d;
     addrlen \<leftarrow> hev_socks5_addr_len (drop 3 b);
     if length d < 4 then Some (Inr (m\<lparr>um_addr := Null, um_buf := []\<rparr>))
     else if addrlen \<le> 0 then Some (Inl (-1))
     else if 3 + addrlen > int (length d) then Some (Inl (-1))
     else Some (Inr (m\<lparr>um_addr := At (drop 3 b), um_buf := take (length d - nat (3 + addrlen)) (drop (nat (3 + addrlen)) b)\<rparr>)) }"

fun udp_parses :: "udp_msg list \<Rightarrow> byte list list \<Rightarrow> (int + udp_msg list) option" where
  "udp_parses ms [] = Some (Inr ms)"
| "udp_parses [] (d # ds) = None"
| "udp_parses (m # ms) (d # ds) = do {
     x \<leftarrow> udp_parse m d;
     case x of Inl e \<Rightarrow> Some (Inl e)
     | Inr m \<Rightarrow> do {
         y \<leftarrow> udp_parses ms ds;
         Some (case y of Inl e \<Rightarrow> Inl e | Inr ms \<Rightarrow> Inr (m # ms)) } }"

definition hev_socks5_udp_recvmmsg_udp ::
  "'a hev_socks5_scheme \<Rightarrow> udp_msg list \<Rightarrow> bool \<Rightarrow> 'w relay_sys_scheme
    \<Rightarrow> (int \<times> udp_msg list \<times> 'a hev_socks5_scheme \<times> 'w relay_sys_scheme) option" where
  "hev_socks5_udp_recvmmsg_udp self msgv nb w =
     (let (res, got, s, again) = hev_task_io_socket_recvmmsg (sock_a w) (map (length \<circ> um_buf) msgv) nb (errno_again w);
          w = w\<lparr>sock_a := s, errno_again := again\<rparr> in
      if res \<le> 0 then Some (res, msgv, self, w)
      else
        let (c, w) = (if s5_udp_associated self = 0 then
              (case sysres w of [] \<Rightarrow> (0, w) | r # rs \<Rightarrow> (r, w\<lparr>sysres := rs\<rparr>)) else (0, w)) in
        if c < 0 then Some (-1, msgv, self, w\<lparr>errno_again := False\<rparr>)
        else
          let self = (if s5_udp_associated self = 0 then self\<lparr>s5_udp_associated := 1\<rparr> else self) in do {
            x \<leftarrow> udp_parses msgv (map fst got);
            case x of Inl e \<Rightarrow> Some (e, msgv, self, w) | Inr ms \<Rightarrow> Some (res, ms, self, w) })"

definition hev_socks5_udp_recvmmsg ::
  "'a hev_socks5_scheme \<Rightarrow> udp_msg list \<Rightarrow> bool \<Rightarrow> 'w relay_sys_scheme
    \<Rightarrow> (int \<times> udp_msg list \<times> 'a hev_socks5_scheme \<times> 'w relay_sys_scheme) option" where
  "hev_socks5_udp_recvmmsg self msgv nb w = (case s5_type self of
      HEV_SOCKS5_TYPE_UDP_IN_TCP \<Rightarrow>
        map_option (\<lambda>(res, msgv, w). (res, msgv, self, w)) (hev_socks5_udp_recvmmsg_tcp msgv nb w)
    | HEV_SOCKS5_TYPE_UDP_IN_UDP \<Rightarrow> hev_socks5_udp_recvmmsg_udp self msgv nb w
    | _ \<Rightarrow> Some (-1, msgv, self, w))"

section \<open>Forwarding\<close>

definition UDP_BUF_LEN :: nat where "UDP_BUF_LEN = 1500"

definition fresh_msgs :: "byte list list \<Rightarrow> udp_msg list" where
  "fresh_msgs bufs = map (\<lambda>b. \<lparr>um_addr = Unset, um_buf = b\<rparr>) bufs"

text \<open>The destinations of the first \<open>n\<close> messages; \<open>Some None\<close> when one is invalid.\<close>

fun udp_dests ::
  "resolver \<Rightarrow> family \<Rightarrow> sockaddr_in6 \<Rightarrow> nat \<Rightarrow> udp_msg list \<Rightarrow> (byte list \<times> sockaddr_in6) list option option" where
  "udp_dests R fam sa 0 ms = Some (Some [])"
| "udp_dests R fam sa (Suc n) [] = None"
| "udp_dests R fam sa (Suc n) (m # ms) =
     (if um_buf m = [] then Some None
      else case um_addr m of
        Unset \<Rightarrow> None
      | Null \<Rightarrow> Some None
      | At a \<Rightarrow> do {
          (sa', f, ret) \<leftarrow> hev_socks5_addr_into_sockaddr6 R a sa fam;
          if ret < 0 then Some None
          else do { y \<leftarrow> udp_dests R fam sa n ms; Some (map_option (\<lambda>ds. (um_buf m, sa') # ds) y) } })"

text \<open>The end of both directions: nothing to receive is not an error.\<close>

definition fwd_result :: "int \<Rightarrow> bool \<Rightarrow> int" where
  "fwd_result res again = (if res \<le> 0 then (if res = -1 \<and> again then 0 else -1) else 1)"

text \<open>
  \<open>bufs\<close> are the blocks of the messages, \<open>sa\<close> what the local addresses hold, \<open>binder\<close> the virtual function that is
  called once, with the first destination.
\<close>

definition hev_socks5_udp_fwd_f ::
  "resolver \<Rightarrow> sockaddr_in6 \<Rightarrow> ('a hev_socks5_scheme \<Rightarrow> sockaddr_in6 \<Rightarrow> 'w relay_sys_scheme \<Rightarrow> int \<times> 'w relay_sys_scheme)
    \<Rightarrow> byte list list \<Rightarrow> 'a hev_socks5_scheme \<times> bool \<times> 'w relay_sys_scheme
    \<Rightarrow> (int \<times> 'a hev_socks5_scheme \<times> bool \<times> 'w relay_sys_scheme) option" where
  "hev_socks5_udp_fwd_f R sa binder bufs st = do {
     let (self, bound, w) = st;
     (res, svec, self, w) \<leftarrow> hev_socks5_udp_recvmmsg self (fresh_msgs bufs) True w;
     if res > 0 then do {
       x \<leftarrow> udp_dests R (hev_socks5_get_addr_family self) sa (nat res) svec;
       case x of None \<Rightarrow> Some (-1, self, bound, w)
       | Some dvec \<Rightarrow>
           let (ret, w) = (if \<not> bound then binder self (snd (hd dvec)) w else (0, w)) in
           if ret < 0 then Some (-1, self, bound, w)
           else
             let (res, s, again) = hev_task_io_socket_sendmmsg (sock_b w) (map (\<lambda>(d, a). (d, Some a)) dvec) (errno_again w) in
             Some (fwd_result res again, self, True, w\<lparr>sock_b := s, errno_again := again\<rparr>) }
     else Some (fwd_result res (errno_again w), self, bound, w) }"

text \<open>The addresses of received datagrams, each encoded in an array of 19 bytes that holds \<open>junk\<close>.\<close>

fun udp_sources :: "byte list \<Rightarrow> (byte list \<times> sockaddr_in6) list \<Rightarrow> udp_msg list option" where
  "udp_sources junk [] = Some []"
| "udp_sources junk ((d, sa) # ds) = do {
     (a, n) \<leftarrow> hev_socks5_addr_from_sockaddr6 junk sa;
     ms \<leftarrow> udp_sources junk ds;
     Some (\<lparr>um_addr = At a, um_buf = d\<rparr> # ms) }"

definition hev_socks5_udp_fwd_b ::
  "byte list \<Rightarrow> nat \<Rightarrow> 'a hev_socks5_scheme \<times> bool \<times> 'w relay_sys_scheme
    \<Rightarrow> (int \<times> 'a hev_socks5_scheme \<times> bool \<times> 'w relay_sys_scheme) option" where
  "hev_socks5_udp_fwd_b junk num st = do {
     let (self, bound, w) = st;
     let (res, got, s, again) = hev_task_io_socket_recvmmsg (sock_b w) (replicate num UDP_BUF_LEN) True (errno_again w);
     let w = w\<lparr>sock_b := s, errno_again := again\<rparr>;
     if res > 0 then do {
       dvec \<leftarrow> udp_sources junk got;
       (res, w) \<leftarrow> hev_socks5_udp_sendmmsg self dvec w;
       Some (fwd_result res (errno_again w), self, bound, w) }
     else Some (fwd_result res (errno_again w), self, bound, w) }"

section \<open>The splice\<close>

text \<open>How the loop goes on after one round: the kind of yield, or the end.\<close>

definition splice_next :: "int \<Rightarrow> int \<Rightarrow> yield_type option" where
  "splice_next res_f res_b =
     (if res_f > 0 \<or> res_b > 0 then Some HEV_TASK_YIELD
      else if res_f AND res_b = 0 then Some HEV_TASK_WAITIO
      else None)"

text \<open>
  The loop that alternates two directions: \<open>ys\<close> lists the circumstances of the yields to come, one for each round, and
  the result says whether the loop has ended by then.
\<close>

fun splice_rounds ::
  "('s \<Rightarrow> (int \<times> 's) option) \<Rightarrow> ('s \<Rightarrow> (int \<times> 's) option) \<Rightarrow> ('y \<Rightarrow> yield_type \<Rightarrow> 's \<Rightarrow> int \<times> 's)
    \<Rightarrow> 'y list \<Rightarrow> int \<Rightarrow> int \<Rightarrow> 's \<Rightarrow> (bool \<times> 's) option" where
  "splice_rounds f b y [] rf rb s = Some (False, s)"
| "splice_rounds f b y (x # ys) rf rb s = do {
     (rf, s) \<leftarrow> (if rf \<ge> 0 then f s else Some (rf, s));
     (rb, s) \<leftarrow> (if rb \<ge> 0 then b s else Some (rb, s));
     case splice_next rf rb of
       None \<Rightarrow> Some (True, s)
     | Some ty \<Rightarrow> let (r, s) = y x ty s in if r \<noteq> 0 then Some (True, s) else splice_rounds f b y ys rf rb s }"

text \<open>
  The splice of a relay: the blocks are \<open>num\<close> buffers for each direction from one allocation, \<open>None\<close> if that fails.
  The result is the value returned, if the loop has ended. Adding the sockets to the task has no effect
  on what follows.
\<close>

definition hev_socks5_udp_splicer ::
  "resolver \<Rightarrow> sockaddr_in6 \<Rightarrow> ('a hev_socks5_scheme \<Rightarrow> sockaddr_in6 \<Rightarrow> 'w relay_sys_scheme \<Rightarrow> int \<times> 'w relay_sys_scheme)
    \<Rightarrow> byte list \<Rightarrow> byte list list option \<Rightarrow> ((int \<Rightarrow> int) \<times> ctl_res) list \<Rightarrow> 'a hev_socks5_scheme \<Rightarrow> 'w relay_sys_scheme
    \<Rightarrow> (int option \<times> 'a hev_socks5_scheme \<times> bool \<times> 'w relay_sys_scheme) option" where
  "hev_socks5_udp_splicer R sa binder junk mem ys self w =
     (case mem of
        None \<Rightarrow> Some (Some (-1), self, False, w)
      | Some bufs \<Rightarrow> do {
          (ended, st) \<leftarrow> splice_rounds (hev_socks5_udp_fwd_f R sa binder bufs) (hev_socks5_udp_fwd_b junk (length bufs))
            (\<lambda>(sleep, ctl) ty (self, bound, w). let (r, self) = udp_task_io_yielder sleep ctl ty self in (r, self, bound, w))
            ys 1 1 (self, False, w);
          Some (if ended then Some 0 else None, st) })"

section \<open>Lemmas on the stream\<close>

lemma sum_cap_advance: "s \<le> sum_list caps \<Longrightarrow> sum_list (cap_advance s caps) = sum_list caps - s"
  by (induction s caps rule: cap_advance.induct) auto

text \<open>Scattering is transparent, as gathering is.\<close>

lemma recvmsg_recv:
  "length acc + sum_list caps = len \<Longrightarrow> recvmsg_loop len acc caps ev = recv_loop len acc ev"
proof (induction len acc caps ev rule: recvmsg_loop.induct)
  case (5 len acc caps bs ev)
  then have "sum_list caps = len - length acc" by simp
  then show ?case using 5 by (auto simp: Let_def sum_cap_advance)
qed auto

lemma recv_once_avail:
  assumes "avail ev \<noteq> []" "0 < n"
  obtains (again) ev' where "ev = RAgain # ev'" "recv_once True n ev = (-1, [], ev')" "avail ev' = avail ev"
    | (got) k ev' where "0 < k" "k \<le> n" "k \<le> length (avail ev)" "recv_once True n ev = (int k, take k (avail ev), ev')"
        "avail ev' = drop k (avail ev)"
proof (cases ev)
  case (Cons e ev')
  show thesis
  proof (cases e)
    case (Chunk bs)
    then have "bs \<noteq> []" using assms Cons by (auto split: if_splits)
    moreover from this have "(if drop n bs = [] then avail ev' else avail (Chunk (drop n bs) # ev')) = drop n bs @ avail ev'" by simp
    ultimately show thesis
      using Chunk Cons assms
      by (intro got [of "min n (length bs)" "if drop n bs = [] then ev' else Chunk (drop n bs) # ev'"])
        (auto simp: Let_def min_def)
  qed (use Cons assms again in auto)
qed (use assms in auto)

lemma udp_recv_head_avail:
  assumes "5 \<le> length (avail (rx w))"
  obtains (again) ev' e where "hd (rx w) = RAgain" "udp_recv_head True w = (-1, [], w\<lparr>rx := ev', errno_again := e\<rparr>)"
      "avail ev' = avail (rx w)"
    | (got) ev' e where "udp_recv_head True w = (5, take 5 (avail (rx w)), w\<lparr>rx := ev', errno_again := e\<rparr>)"
        "avail ev' = drop 5 (avail (rx w))"
proof -
  have "avail (rx w) \<noteq> []" "0 < (5 :: nat)" using assms by auto
  then show thesis
  proof (cases rule: recv_once_avail)
    case (again ev')
    then show thesis using that(1) by (simp add: udp_recv_head_def)
  next
    case (got k ev')
    show thesis
    proof (cases "k = 5")
      case True
      then show thesis using got that(2) by (simp add: udp_recv_head_def)
    next
      case False
      then have k: "0 < int k" "int k < 5" "nat (int k) = k" using got by auto
      have "5 - k \<le> length (avail ev')" using got(5) assms by (simp add: diff_le_mono)
      then obtain ev2 where "recv_loop (5 - k) [] ev' = (int (5 - k), take (5 - k) (avail ev'), ev2)" "avail ev2 = drop (5 - k) (avail ev')"
        using recv_loop_enough [of "[]" "5 - k" ev'] got(2) False by auto
      moreover have "take k (avail (rx w)) @ take (5 - k) (drop k (avail (rx w))) = take 5 (avail (rx w))"
        using got(2) by (metis le_add_diff_inverse take_add)
      moreover have "drop (5 - k) (drop k (avail (rx w))) = drop 5 (avail (rx w))" using got(2) by simp
      ultimately show thesis using that(2) got k by (simp add: udp_recv_head_def)
    qed
  qed
qed

section \<open>The frame of a message\<close>

text \<open>A datagram that a frame can carry and a buffer can take: the length of the header is one byte.\<close>

definition udp_fits :: "socks_addr \<times> byte list \<Rightarrow> bool" where
  "udp_fits xd \<longleftrightarrow> addr_ok (fst xd) \<and> length (enc_addr (fst xd)) \<le> 252
     \<and> length (enc_addr (fst xd)) + length (snd xd) \<le> UDP_BUF_LEN"

definition wire :: "socks_addr \<times> byte list \<Rightarrow> byte list" where
  "wire xd = store16 (htons (word_of_nat (length (snd xd)))) @ word_of_nat (3 + length (enc_addr (fst xd)))
     # enc_addr (fst xd) @ snd xd"

text \<open>A message that holds a datagram: its address lies at the pointer, its bytes in the buffer.\<close>

definition carries :: "udp_msg \<Rightarrow> socks_addr \<times> byte list \<Rightarrow> bool" where
  "carries m xd \<longleftrightarrow> um_buf m = snd xd \<and> (\<exists>rest. um_addr m = At (enc_addr (fst xd) @ rest))"

lemma addr_len_enc: "addr_ok x \<Longrightarrow> hev_socks5_addr_len (enc_addr x @ rest) = Some (int (length (enc_addr x)))"
  by (cases x) (auto simp: hev_socks5_addr_len_def get8_def addr_types)

lemma frame_tcp_wire:
  assumes "carries m xd" "addr_ok (fst xd)"
  shows "\<exists>iov. frame_tcp m = Some (Some iov) \<and> concat iov = wire xd"
proof -
  obtain rest where m: "um_buf m = snd xd" "um_addr m = At (enc_addr (fst xd) @ rest)" using assms(1) by (auto simp: carries_def)
  have "0 < length (enc_addr (fst xd))" using enc_addr_len [OF assms(2)] by linarith
  then show ?thesis
    using m assms(2) by (simp add: frame_tcp_def addr_bytes_def addr_len_enc get_block_def wire_def del: enc_addr.simps)
qed

lemma frames_wire:
  "list_all2 carries ms xds \<Longrightarrow> \<forall>xd\<in>set xds. addr_ok (fst xd) \<Longrightarrow>
    \<exists>iovs. frames frame_tcp ms = Some (Some iovs) \<and> concat (concat iovs) = concat (map wire xds)"
proof (induction rule: list_all2_induct)
  case (Cons m ms xd xds)
  then obtain iovs where "frames frame_tcp ms = Some (Some iovs)" "concat (concat iovs) = concat (map wire xds)" by auto
  moreover obtain iov where "frame_tcp m = Some (Some iov)" "concat iov = wire xd"
    using frame_tcp_wire [OF Cons(1)] Cons(4) by auto
  ultimately show ?case by auto
qed simp

text \<open>What a frame starts with.\<close>

lemma wire_head:
  assumes "udp_fits xd"
  defines "h \<equiv> take 5 (wire xd)" and "a \<equiv> enc_addr (fst xd)"
  shows "5 \<le> length (wire xd)" "unat (h ! 2) = 3 + length a" "unat (ntohs (load16 h)) = length (snd xd)"
    "h ! 3 = a ! 0" "h ! 4 = a ! 1" "drop 5 (wire xd) = drop 2 a @ snd xd" "\<not> h ! 2 < 5"
proof -
  have l: "4 \<le> length a" "length a \<le> 252" "length (snd xd) \<le> 1500"
    using assms enc_addr_len [of "fst xd"] by (auto simp: udp_fits_def a_def UDP_BUF_LEN_def)
  obtain a0 a1 as where a: "a = a0 # a1 # as" using l by (cases a; cases "tl a") auto
  define d where "d = htons (word_of_nat (length (snd xd)) :: u16)"
  define n where "n = (word_of_nat (3 + length a) :: byte)"
  have w: "wire xd = store16 d @ n # a0 # a1 # as @ snd xd" using a by (simp add: wire_def d_def n_def a_def)
  then have h: "h = store16 d @ [n, a0, a1]" by (simp add: h_def)
  have n: "unat n = 3 + length a" using l unfolding n_def by (subst unat_of_nat) simp
  then show "unat (h ! 2) = 3 + length a" "\<not> h ! 2 < 5" using l by (simp_all add: h nth_append word_less_nat_alt)
  show "5 \<le> length (wire xd)" "h ! 3 = a ! 0" "h ! 4 = a ! 1" "drop 5 (wire xd) = drop 2 a @ snd xd"
    by (simp_all add: h w a nth_append)
  have "unat (word_of_nat (length (snd xd)) :: u16) = length (snd xd)" using l by (simp add: unat_of_nat)
  then show "unat (ntohs (load16 h)) = length (snd xd)" by (simp add: h d_def)
qed

lemma udp_recv_tcp_frame:
  assumes fit: "udp_fits xd" and av: "avail (rx w) = wire xd @ rest" and b: "length (um_buf m) = UDP_BUF_LEN"
  obtains (again) w' where "hd (rx w) = RAgain" "udp_recv_tcp True rlen m w = Some (m, Inl (if 0 < rlen then None else Some (-1)), w')"
      "avail (rx w') = avail (rx w)"
    | (got) m' w' where "udp_recv_tcp True rlen m w = Some (m', Inr (), w')" "carries m' xd" "avail (rx w') = rest"
proof -
  let ?a = "enc_addr (fst xd)" and ?h = "take 5 (wire xd)" and ?d = "snd xd"
  note wh = wire_head [OF fit]
  have la: "4 \<le> length ?a" "length ?a \<le> 252" "length ?a + length ?d \<le> 1500"
    using fit enc_addr_len [of "fst xd"] by (auto simp: udp_fits_def UDP_BUF_LEN_def)
  have h5: "take 5 (avail (rx w)) = ?h" "drop 5 (avail (rx w)) = drop 2 ?a @ ?d @ rest" "5 \<le> length (avail (rx w))"
    using wh(1,6) av by simp_all
  from h5(3) show thesis
  proof (cases rule: udp_recv_head_avail)
    case (again ev' e)
    then show thesis using that(1) by (simp add: udp_recv_tcp_def)
  next
    case (got ev' e)
    let ?n = "length ?a - 2 + length ?d" and ?w = "w\<lparr>rx := ev', errno_again := e\<rparr>"
    have av': "avail ev' = (drop 2 ?a @ ?d) @ rest" using got(2) h5(2) by simp
    have n: "length (drop 2 ?a @ ?d) = ?n" "0 < ?n" "?n \<le> length (avail ev')" using la av' by simp_all
    obtain ev2 where "recv_loop ?n [] ev' = (int ?n, take ?n (avail ev'), ev2)" "avail ev2 = drop ?n (avail ev')"
      using recv_loop_enough [of "[]" ?n ev'] n by auto
    then have r: "recvmsg_loop ?n [] [length ?a - 2, length ?d] ev' = (int ?n, drop 2 ?a @ ?d, ev2)" "avail ev2 = rest"
      using av' n(1) recvmsg_recv [of "[]" "[length ?a - 2, length ?d]" ?n ev'] by simp_all
    obtain b0 b1 bs where bb: "um_buf m = b0 # b1 # bs" using b by (cases "um_buf m"; cases "tl (um_buf m)") (auto simp: UDP_BUF_LEN_def)
    obtain a0 a1 as where aa: "?a = a0 # a1 # as" using la(1) by (cases ?a; cases "tl ?a") auto
    define c where "c = drop (length as + length ?d) bs"
    have p: "put_block (um_buf m) 2 (drop 2 ?a @ ?d) = Some (b0 # b1 # as @ ?d @ c)"
      using b bb aa la by (simp add: put_block_def UDP_BUF_LEN_def c_def numeral_2_eq_2)
    have q: "put8 (b0 # b1 # as @ ?d @ c) 0 a0 = Some (a0 # b1 # as @ ?d @ c)"
      "put8 (a0 # b1 # as @ ?d @ c) 1 a1 = Some (?a @ ?d @ c)" "get_block (?a @ ?d @ c) (length ?a) (length ?d) = Some ?d"
      unfolding aa by (simp_all add: put8_def get_block_def)
    have s: "\<not> length ?d > sz_sub (length (um_buf m)) (length ?a)" using b la by (simp add: UDP_BUF_LEN_def)
    have "udp_recv_tcp True rlen m w = Some (m\<lparr>um_addr := At (?a @ ?d @ c), um_buf := ?d\<rparr>, Inr (),
        ?w\<lparr>rx := ev2, errno_again := rx_errnos ev' ev2 e\<rparr>)"
      using got(1) wh(2-5,7) r(1) p q s aa by (simp add: udp_recv_tcp_def h5(1) Let_def del: enc_addr.simps)
    then show thesis using r(2) by (intro that(2)) (auto simp: carries_def)
  qed
qed

text \<open>When nothing is left in the stream the loop stops with the messages it has.\<close>

lemma udp_recv_tcp_dry:
  assumes "avail (rx w) = []" "0 < rlen"
  shows "\<exists>w'. udp_recv_tcp True rlen m w = Some (m, Inl None, w')"
proof -
  have "fst (recv_once True 5 (rx w)) \<le> 0" using assms(1) by (cases "rx w" rule: avail.cases) (auto split: if_splits)
  then have "fst (udp_recv_head True w) \<noteq> 5" by (auto simp: udp_recv_head_def split_beta Let_def)
  then show ?thesis using assms(2) by (auto simp: udp_recv_tcp_def split_beta Let_def)
qed

text \<open>
  A batch of frames is received in order, up to where the stream runs dry between two of them. There are at least as
  many frames as buffers, or nothing else is in the stream.
\<close>

lemma udp_recv_tcp_loop_frames:
  assumes "\<forall>xd\<in>set xds. udp_fits xd" "avail (rx w) = concat (map wire xds) @ rest" "length ms \<le> length xds \<or> rest = []"
    "\<forall>m\<in>set ms. length (um_buf m) = UDP_BUF_LEN" "0 < rlen \<or> hd (rx w) \<noteq> RAgain \<and> ms \<noteq> [] \<and> xds \<noteq> []"
  shows "\<exists>k ms' w'. udp_recv_tcp_loop True rlen ms w = Some (int (rlen + k), ms', w') \<and> k \<le> length ms \<and> k \<le> length xds \<and> (rlen = 0 \<longrightarrow> 0 < k)
    \<and> length ms' = length ms \<and> list_all2 carries (take k ms') (take k xds)
    \<and> (drop k xds \<noteq> [] \<or> rest \<noteq> [] \<longrightarrow> avail (rx w') = concat (map wire (drop k xds)) @ rest)"
  using assms
proof (induction ms arbitrary: xds w rlen)
  case (Cons m ms)
  show ?case
  proof (cases xds)
    case Nil
    then have "avail (rx w) = []" "0 < rlen" "rest = []" using Cons.prems by auto
    then obtain w' where "udp_recv_tcp True rlen m w = Some (m, Inl None, w')" using udp_recv_tcp_dry by blast
    then show ?thesis using Nil \<open>rest = []\<close> \<open>0 < rlen\<close> by (intro exI [of _ 0] exI [of _ "m # ms"] exI [of _ w']) simp
  next
    case xds: (Cons xd xds')
    then have f: "udp_fits xd" "avail (rx w) = wire xd @ (concat (map wire xds') @ rest)" "length (um_buf m) = UDP_BUF_LEN"
      using Cons.prems by auto
    from f show ?thesis
    proof (cases rule: udp_recv_tcp_frame [where rlen = rlen])
      case (again w')
      then have "0 < rlen" using Cons.prems(5) by auto
      then show ?thesis
        using again Cons.prems(2) by (intro exI [of _ 0] exI [of _ "m # ms"] exI [of _ w']) simp
    next
      case (got m' w')
      have "\<exists>k ms' w''. udp_recv_tcp_loop True (Suc rlen) ms w' = Some (int (Suc rlen + k), ms', w'') \<and> k \<le> length ms \<and> k \<le> length xds'
        \<and> (Suc rlen = 0 \<longrightarrow> 0 < k) \<and> length ms' = length ms \<and> list_all2 carries (take k ms') (take k xds')
        \<and> (drop k xds' \<noteq> [] \<or> rest \<noteq> [] \<longrightarrow> avail (rx w'') = concat (map wire (drop k xds')) @ rest)"
        by (rule Cons.IH) (use Cons.prems xds got in auto)
      then obtain k ms' w'' where "udp_recv_tcp_loop True (Suc rlen) ms w' = Some (int (Suc rlen + k), ms', w'')" "k \<le> length ms" "k \<le> length xds'"
        "length ms' = length ms" "list_all2 carries (take k ms') (take k xds')"
        "drop k xds' \<noteq> [] \<or> rest \<noteq> [] \<longrightarrow> avail (rx w'') = concat (map wire (drop k xds')) @ rest" by blast
      then show ?thesis
        using got xds by (intro exI [of _ "Suc k"] exI [of _ "m' # ms'"] exI [of _ w'']) simp
    qed
  qed
qed auto

section \<open>The relay\<close>

text \<open>The SOCKS address of a socket address, and the socket address that a SOCKS address stands for.\<close>

definition socks_of :: "sockaddr_in6 \<Rightarrow> socks_addr" where
  "socks_of sa = (if IN6_IS_ADDR_V4MAPPED (sin6_addr sa) then IPv4 (drop 12 (sin6_addr sa)) (sin6_port sa)
     else IPv6 (sin6_addr sa) (sin6_port sa))"

definition resolve :: "resolver \<Rightarrow> sockaddr_in6 \<Rightarrow> family \<Rightarrow> socks_addr \<Rightarrow> sockaddr_in6 \<times> family \<times> int" where
  "resolve R sa fam x = (case x of
      IPv4 y p \<Rightarrow> (sa\<lparr>sin6_family := AF_INET6, sin6_port := p, sin6_addr := v4mapped_prefix @ y\<rparr>, AF_INET, 0)
    | IPv6 y p \<Rightarrow> (sa\<lparr>sin6_family := AF_INET6, sin6_port := p, sin6_addr := y\<rparr>, AF_INET6, 0)
    | Domain s p \<Rightarrow> hev_socks5_name_into_sockaddr6 R s (ntohs p) sa fam)"

lemma into_sockaddr6_resolve:
  "addr_ok x \<Longrightarrow> hev_socks5_addr_into_sockaddr6 R (enc_addr x @ rest) sa fam = Some (resolve R sa fam x)"
  by (cases x) (auto simp: resolve_def into_sockaddr6_enc simp del: enc_addr.simps)

lemma udp_dests_carried:
  "list_all2 carries ms xds \<Longrightarrow> \<forall>xd\<in>set xds. addr_ok (fst xd) \<and> snd xd \<noteq> [] \<and> 0 \<le> snd (snd (resolve R sa fam (fst xd)))
    \<Longrightarrow> udp_dests R fam sa (length xds) (ms @ junk) = Some (Some (map (\<lambda>xd. (snd xd, fst (resolve R sa fam (fst xd)))) xds))"
proof (induction rule: list_all2_induct)
  case (Cons m ms xd xds)
  moreover obtain rest where "um_buf m = snd xd" "um_addr m = At (enc_addr (fst xd) @ rest)" using Cons(1) by (auto simp: carries_def)
  ultimately show ?case
    by (auto simp: into_sockaddr6_resolve simp del: enc_addr.simps split: prod.splits)
qed simp

definition dtx_ok :: "dg_tx_event list \<Rightarrow> bool" where
  "dtx_ok ev \<longleftrightarrow> DTTimeout \<notin> set ev \<and> DTErr \<notin> set ev"

lemma sendmmsg_loop_ok:
  "dtx_ok ev \<Longrightarrow> ms \<noteq> [] \<Longrightarrow> \<exists>ev' e. sendmmsg_loop c ms ev again = (int (c + length ms), ms, ev', e)"
proof (induction c ms ev again rule: sendmmsg_loop.induct)
  case (5 c ms k ev again)
  define r where "r = min (Suc k) (length ms)"
  have r: "0 < r" "r \<le> length ms" "dtx_ok ev" using 5(2,3) by (auto simp: r_def dtx_ok_def)
  show ?case
  proof (cases "r < length ms")
    case True
    then obtain ev' e where "sendmmsg_loop (c + r) (drop r ms) ev again = (int (c + r + length (drop r ms)), drop r ms, ev', e)"
      using 5(1) [OF r_def] r by auto
    then show ?thesis using True r by (simp add: r_def [symmetric] Let_def)
  next
    case False
    then have "r = length ms" using r by simp
    then show ?thesis using r by (simp add: Let_def r_def [symmetric])
  qed
qed (auto simp: dtx_ok_def partial_or_def)

lemma udp_recv_tcp_sock: "udp_recv_tcp nb rlen m w = Some (m', r, w') \<Longrightarrow> sock_b w' = sock_b w"
  by (auto simp: udp_recv_tcp_def udp_recv_head_def Let_def split: prod.splits if_splits Option.bind_splits)

lemma udp_recv_tcp_loop_sock: "udp_recv_tcp_loop nb rlen ms w = Some (res, ms', w') \<Longrightarrow> sock_b w' = sock_b w"
  by (induction nb rlen ms w arbitrary: res ms' w' rule: udp_recv_tcp_loop.induct)
    (auto split: Option.bind_splits sum.splits option.splits dest!: udp_recv_tcp_sock)

text \<open>Forwarding what came over the stream.\<close>

lemma udp_fwd_f_delivers:
  assumes ty: "s5_type self = HEV_SOCKS5_TYPE_UDP_IN_TCP" and fam: "s5_addr_family self = fam"
    and fits: "\<forall>xd\<in>set xds. udp_fits xd \<and> snd xd \<noteq> [] \<and> 0 \<le> snd (snd (resolve R sa fam (fst xd)))"
    and av: "avail (rx w) = concat (map wire xds) @ rest" "hd (rx w) \<noteq> RAgain" "xds \<noteq> []"
    and bufs: "bufs \<noteq> []" "length bufs \<le> length xds \<or> rest = []" "\<forall>b\<in>set bufs. length b = UDP_BUF_LEN" and tx: "dtx_ok (ds_tx (sock_b w))"
  shows "\<exists>k w'. hev_socks5_udp_fwd_f R sa (\<lambda>_ _ w. (0, w)) bufs (self, bound, w) = Some (1, self, True, w')
    \<and> 0 < k \<and> k \<le> length bufs \<and> k \<le> length xds
    \<and> (drop k xds \<noteq> [] \<or> rest \<noteq> [] \<longrightarrow> avail (rx w') = concat (map wire (drop k xds)) @ rest)
    \<and> ds_sent (sock_b w') = ds_sent (sock_b w) @ map (\<lambda>xd. (snd xd, Some (fst (resolve R sa fam (fst xd))))) (take k xds)"
proof -
  have "length (fresh_msgs bufs) = length bufs" "\<forall>m\<in>set (fresh_msgs bufs). length (um_buf m) = UDP_BUF_LEN" "fresh_msgs bufs \<noteq> []"
    using bufs by (auto simp: fresh_msgs_def)
  then obtain k ms w1 where r: "udp_recv_tcp_loop True 0 (fresh_msgs bufs) w = Some (int k, ms, w1)" "k \<le> length bufs" "0 < k"
    "length ms = length bufs" "list_all2 carries (take k ms) (take k xds)" "k \<le> length xds"
    "drop k xds \<noteq> [] \<or> rest \<noteq> [] \<longrightarrow> avail (rx w1) = concat (map wire (drop k xds)) @ rest"
    using udp_recv_tcp_loop_frames [where xds = xds and w = w and ms = "fresh_msgs bufs" and rlen = 0 and rest = rest] fits av bufs
    by auto
  define dvec where "dvec = map (\<lambda>xd. (snd xd, fst (resolve R sa fam (fst xd)))) (take k xds)"
  have "udp_dests R fam sa (length (take k xds)) (take k ms @ drop k ms) = Some (Some dvec)"
    unfolding dvec_def by (rule udp_dests_carried [OF r(5)]) (use fits in \<open>auto simp: udp_fits_def dest: in_set_takeD\<close>)
  moreover have "length (take k xds) = k" using r(6) by simp
  ultimately have d: "udp_dests R fam sa k ms = Some (Some dvec)" by simp
  have ne: "map (\<lambda>(d, a). (d, Some a)) dvec \<noteq> []" using r(3) av(3) by (auto simp: dvec_def)
  have sb: "sock_b w1 = sock_b w" using udp_recv_tcp_loop_sock [OF r(1)] .
  then obtain ev e where "sendmmsg_loop 0 (map (\<lambda>(d, a). (d, Some a)) dvec) (ds_tx (sock_b w1)) (errno_again w1)
      = (int (length dvec), map (\<lambda>(d, a). (d, Some a)) dvec, ev, e)"
    using sendmmsg_loop_ok [OF _ ne, of "ds_tx (sock_b w)" 0 "errno_again w1"] tx by auto
  moreover have "0 < length dvec" using ne by simp
  ultimately show ?thesis
    using r ty fam d sb
    by (intro exI [of _ k]) (simp add: hev_socks5_udp_fwd_f_def hev_socks5_udp_recvmmsg_def hev_socks5_udp_recvmmsg_tcp_def
        hev_socks5_get_addr_family_def hev_task_io_socket_sendmmsg_def fwd_result_def dvec_def o_def case_prod_beta)
qed

lemma udp_sendmmsg_tcp_wire:
  assumes "list_all2 carries ms xds" "\<forall>xd\<in>set xds. addr_ok (fst xd)" "ms \<noteq> []" "tx_ok (tx w)"
  shows "\<exists>ev. hev_socks5_udp_sendmmsg_tcp ms w = Some (int (length ms), w\<lparr>tx := ev, sent := sent w @ concat (map wire xds)\<rparr>)"
proof -
  obtain iovs where f: "frames frame_tcp ms = Some (Some iovs)" "concat (concat iovs) = concat (map wire xds)"
    using frames_wire [OF assms(1,2)] by blast
  have "concat (map wire xds) \<noteq> []" using assms(1,3) by (cases xds) (auto simp: wire_def store16_def)
  then obtain ev where "hev_task_io_socket_send w (concat (map wire xds))
      = (int (length (concat (map wire xds))), w\<lparr>tx := ev, sent := sent w @ concat (map wire xds)\<rparr>)"
    by (rule send_ok [OF assms(4)])
  moreover have "0 < length (concat (map wire xds))" using \<open>concat (map wire xds) \<noteq> []\<close> by blast
  ultimately show ?thesis
    using f by (intro exI [of _ ev]) (simp add: hev_socks5_udp_sendmmsg_tcp_def sendmsg_send del: length_concat)
qed

text \<open>The messages that a relay makes of received datagrams carry them with their sources.\<close>

lemma udp_sources_carry:
  "\<forall>(d, sa)\<in>set got. length (sin6_addr sa) = 16 \<Longrightarrow> length junk = 19 \<Longrightarrow>
    \<exists>ms. udp_sources junk got = Some ms \<and> list_all2 carries ms (map (\<lambda>(d, sa). (socks_of sa, d)) got)"
proof (induction got)
  case (Cons x got)
  obtain d sa where x: "x = (d, sa)" by fastforce
  have "\<exists>a n. hev_socks5_addr_from_sockaddr6 junk sa = Some (a, n) \<and> (\<exists>rest. a = enc_addr (socks_of sa) @ rest)"
  proof (cases "IN6_IS_ADDR_V4MAPPED (sin6_addr sa)")
    case True
    then obtain a where "hev_socks5_addr_from_sockaddr6 junk sa = Some (a, 7)" "take 7 a = enc_addr (socks_of sa)"
      using from_sockaddr6_enc(1) [of sa junk] Cons(2,3) x by (auto simp: socks_of_def)
    then show ?thesis by (metis append_take_drop_id)
  next
    case False
    then obtain a where "hev_socks5_addr_from_sockaddr6 junk sa = Some (a, 19)" "take 19 a = enc_addr (socks_of sa)"
      using from_sockaddr6_enc(2) [of sa junk] Cons(2,3) x by (auto simp: socks_of_def)
    then show ?thesis by (metis append_take_drop_id)
  qed
  moreover obtain ms where "udp_sources junk got = Some ms" "list_all2 carries ms (map (\<lambda>(d, sa). (socks_of sa, d)) got)"
    using Cons by auto
  ultimately show ?case using x by (auto simp: carries_def [of _ "(socks_of sa, d)"])
qed simp

lemma socks_of_ok: "length (sin6_addr sa) = 16 \<Longrightarrow> addr_ok (socks_of sa)"
  by (simp add: socks_of_def)

lemma udp_fwd_b_frames:
  assumes ty: "s5_type self = HEV_SOCKS5_TYPE_UDP_IN_TCP" and b: "ds_rx (sock_b w) = Batch ds # ev" "ds \<noteq> []"
    and ds: "\<forall>(d, sa)\<in>set ds. length (sin6_addr sa) = 16" and "0 < num" "length junk = 19" and tx: "tx_ok (tx w)"
  shows "\<exists>w'. hev_socks5_udp_fwd_b junk num (self, bound, w) = Some (1, self, bound, w')
    \<and> sent w' = sent w @ concat (map (\<lambda>(d, sa). wire (socks_of sa, take UDP_BUF_LEN d)) (take num ds))"
proof -
  define n where "n = min num (length ds)"
  define got where "got = map (\<lambda>(d, sa). (take UDP_BUF_LEN d, sa)) (take num ds)"
  define xds where "xds = map (\<lambda>(d, sa). (socks_of sa, d)) got"
  have "map2 (\<lambda>c d. (take c (fst d), snd d)) (replicate n UDP_BUF_LEN) (take n ds) = map (\<lambda>(d, sa). (take UDP_BUF_LEN d, sa)) (take n ds)"
    by (rule nth_equalityI) (auto simp: n_def case_prod_beta)
  moreover have "take n ds = take num ds" by (simp add: n_def min_def)
  ultimately obtain ev' where r: "hev_task_io_socket_recvmmsg (sock_b w) (replicate num UDP_BUF_LEN) True (errno_again w)
      = (int n, got, (sock_b w)\<lparr>ds_rx := ev'\<rparr>, errno_again w)"
    using b(1) by (auto simp: hev_task_io_socket_recvmmsg_def Let_def n_def got_def)
  have len: "\<forall>(d, sa)\<in>set got. length (sin6_addr sa) = 16" using ds by (auto simp: got_def dest!: in_set_takeD)
  obtain ms where ms: "udp_sources junk got = Some ms" "list_all2 carries ms xds"
    using udp_sources_carry [OF len assms(6)] by (auto simp: xds_def)
  have n: "0 < n" "length ms = n" "got \<noteq> []"
    using b(2) assms(5) list_all2_lengthD [OF ms(2)] by (auto simp: n_def xds_def got_def)
  have ok: "\<forall>xd\<in>set xds. addr_ok (fst xd)" using len by (auto simp: xds_def socks_of_ok)
  define w1 where "w1 = w\<lparr>sock_b := (sock_b w)\<lparr>ds_rx := ev'\<rparr>\<rparr>"
  have "ms \<noteq> []" "tx_ok (tx w1)" using n tx by (auto simp: w1_def)
  then obtain tev where s: "hev_socks5_udp_sendmmsg_tcp ms w1 = Some (int (length ms), w1\<lparr>tx := tev, sent := sent w1 @ concat (map wire xds)\<rparr>)"
    using udp_sendmmsg_tcp_wire [OF ms(2) ok] by blast
  have "map wire xds = map (\<lambda>(d, sa). wire (socks_of sa, take UDP_BUF_LEN d)) (take num ds)"
    by (auto simp: xds_def got_def case_prod_beta)
  with s show ?thesis
    using ms(1) n ty r by (auto simp: hev_socks5_udp_fwd_b_def hev_socks5_udp_sendmmsg_def fwd_result_def w1_def)
qed

lemma udp_recv_head_chunk:
  assumes "rx w = [Chunk bs]" "5 < length bs"
  shows "udp_recv_head True w = (5, take 5 bs, w\<lparr>rx := [Chunk (drop 5 bs)], errno_again := errno_again w\<rparr>)"
proof -
  have "take 5 bs \<noteq> []" using assms(2) by auto
  then show ?thesis using assms by (simp add: udp_recv_head_def rx_errnos_def Let_def)
qed

text \<open>A frame whose header announces too little, or more than the buffer takes, is refused after its header was read.\<close>

lemma udp_recv_tcp_refuses:
  assumes "rx w = [Chunk bs]" "5 < length bs" "bs ! 2 < 5 \<or> sz_sub (length (um_buf m)) (unat (bs ! 2) - 3) < unat (ntohs (load16 bs))"
  shows "udp_recv_tcp True rlen m w = Some (m, Inl (Some (-1)), w\<lparr>rx := [Chunk (drop 5 bs)], errno_again := errno_again w\<rparr>)"
proof -
  obtain b0 b1 b2 b3 b4 bs' where "bs = b0 # b1 # b2 # b3 # b4 # bs'"
    using assms(2) by (auto simp: numeral_eq_Suc Suc_less_eq2 length_Suc_conv)
  then show ?thesis
    using assms(3) udp_recv_head_chunk [OF assms(1,2)] by (auto simp: udp_recv_tcp_def load16_def Let_def numeral_3_eq_3)
qed

section \<open>Theorems\<close>

text \<open>
  C14. From a client's datagrams to the sockets of the server: the client puts the datagrams into the stream as
  frames, and the relay of the server, whatever way the stream is cut, sends the first ones it finds
  there to the addresses they are for, unchanged and in order, and leaves the rest in the stream. This holds for datagrams that are
  not empty, whose address takes at most 252 bytes and fits a buffer of 1500 bytes together with the data, and whose
  address resolves; no send fails or times out, the binder is the default one, which does nothing, the stream begins with these frames and its first bytes are there when the
  relay looks, and either there are as many datagrams as the relay has buffers or nothing else is in the stream.
\<close>

theorem udp_relay_forward:
  assumes ms: "list_all2 carries ms xds" "ms \<noteq> []"
    and fits: "\<forall>xd\<in>set xds. udp_fits xd \<and> snd xd \<noteq> [] \<and> 0 \<le> snd (snd (resolve R sa (s5_addr_family server) (fst xd)))"
    and ty: "s5_type client = HEV_SOCKS5_TYPE_UDP_IN_TCP" "s5_type server = HEV_SOCKS5_TYPE_UDP_IN_TCP"
    and tx: "tx_ok (tx w)" "dtx_ok (ds_tx (sock_b v))"
    and bufs: "bufs \<noteq> []" "length bufs \<le> length xds \<or> rest = []" "\<forall>b\<in>set bufs. length b = UDP_BUF_LEN"
  shows "\<exists>w' out. hev_socks5_udp_sendmmsg client ms w = Some (int (length ms), w') \<and> sent w' = sent w @ out
    \<and> (avail (rx v) = out @ rest \<longrightarrow> hd (rx v) \<noteq> RAgain \<longrightarrow>
       (\<exists>k v'. hev_socks5_udp_fwd_f R sa (\<lambda>_ _ w. (0, w)) bufs (server, bound, v) = Some (1, server, True, v')
          \<and> 0 < k \<and> k \<le> length bufs \<and> k \<le> length xds
          \<and> ds_sent (sock_b v') = ds_sent (sock_b v)
              @ map (\<lambda>xd. (snd xd, Some (fst (resolve R sa (s5_addr_family server) (fst xd))))) (take k xds)
          \<and> (drop k xds \<noteq> [] \<or> rest \<noteq> [] \<longrightarrow> avail (rx v') = concat (map wire (drop k xds)) @ rest)))"
proof -
  have "\<forall>xd\<in>set xds. addr_ok (fst xd)" using fits by (simp add: udp_fits_def)
  then obtain ev where s: "hev_socks5_udp_sendmmsg_tcp ms w = Some (int (length ms), w\<lparr>tx := ev, sent := sent w @ concat (map wire xds)\<rparr>)"
    using udp_sendmmsg_tcp_wire [OF ms(1) _ ms(2) tx(1)] by blast
  have "\<exists>w'. hev_socks5_udp_sendmmsg client ms w = Some (int (length ms), w') \<and> sent w' = sent w @ concat (map wire xds)"
    using s ty(1) by (simp add: hev_socks5_udp_sendmmsg_def)
  moreover have "xds \<noteq> []" using ms by auto
  ultimately show ?thesis
    using udp_fwd_f_delivers [OF ty(2) refl fits _ _ _ bufs tx(2)] by blast
qed

text \<open>
  And back: the relay frames the datagrams that arrive at its socket with their sources, and the client,
  whatever way the stream is cut, receives the first ones with those sources, provided datagram and
  address together fit a buffer.
\<close>

theorem udp_relay_backward:
  assumes ty: "s5_type server = HEV_SOCKS5_TYPE_UDP_IN_TCP" "s5_type client = HEV_SOCKS5_TYPE_UDP_IN_TCP"
    and b: "ds_rx (sock_b w) = Batch ds # ev" "ds \<noteq> []" and num: "length ds \<le> num" and junk: "length junk = 19" and tx: "tx_ok (tx w)"
    and fits: "\<forall>(d, sa)\<in>set ds. length (sin6_addr sa) = 16 \<and> udp_fits (socks_of sa, d)"
    and bufs: "bufs \<noteq> []" "length bufs \<le> length ds \<or> rest = []" "\<forall>b\<in>set bufs. length b = UDP_BUF_LEN"
  shows "\<exists>w' out. hev_socks5_udp_fwd_b junk num (server, bound, w) = Some (1, server, bound, w') \<and> sent w' = sent w @ out
    \<and> (avail (rx v) = out @ rest \<longrightarrow> hd (rx v) \<noteq> RAgain \<longrightarrow>
       (\<exists>k ms v'. hev_socks5_udp_recvmmsg client (fresh_msgs bufs) True v = Some (int k, ms, client, v') \<and> 0 < k \<and> k \<le> length bufs
          \<and> list_all2 carries (take k ms) (take k (map (\<lambda>(d, sa). (socks_of sa, d)) ds))))"
proof -
  let ?xds = "map (\<lambda>(d, sa). (socks_of sa, d)) ds"
  have "take UDP_BUF_LEN d = d" if "(d, sa) \<in> set ds" for d sa using fits that by (auto simp: udp_fits_def)
  then have m: "map (\<lambda>(d, sa). wire (socks_of sa, take UDP_BUF_LEN d)) ds = map wire ?xds" by auto
  have "0 < num" using num b(2) by (cases ds) auto
  then obtain w' where f: "hev_socks5_udp_fwd_b junk num (server, bound, w) = Some (1, server, bound, w')" "sent w' = sent w @ concat (map wire ?xds)"
    using udp_fwd_b_frames [OF ty(1) b _ _ junk tx, of num bound] fits num m by auto
  have fit: "\<forall>xd\<in>set ?xds. udp_fits xd" using fits by auto
  have "\<exists>k ms v'. hev_socks5_udp_recvmmsg client (fresh_msgs bufs) True v = Some (int k, ms, client, v') \<and> 0 < k \<and> k \<le> length bufs
      \<and> list_all2 carries (take k ms) (take k ?xds)" if v: "avail (rx v) = concat (map wire ?xds) @ rest" "hd (rx v) \<noteq> RAgain"
  proof -
    have "length (fresh_msgs bufs) = length bufs" "\<forall>m\<in>set (fresh_msgs bufs). length (um_buf m) = UDP_BUF_LEN" "fresh_msgs bufs \<noteq> []"
      using bufs by (auto simp: fresh_msgs_def)
    then obtain k ms v' where "udp_recv_tcp_loop True 0 (fresh_msgs bufs) v = Some (int k, ms, v')" "k \<le> length bufs" "0 < k"
      "list_all2 carries (take k ms) (take k ?xds)"
      using udp_recv_tcp_loop_frames [where ms = "fresh_msgs bufs" and rlen = 0, OF fit v(1)] v(2) bufs(2) b(2) by auto
    then show ?thesis using ty(2) by (simp add: hev_socks5_udp_recvmmsg_def hev_socks5_udp_recvmmsg_tcp_def)
  qed
  with f show ?thesis by blast
qed

text \<open>
  When the stream ends inside a frame, after its header, the call returns the number of bytes it got of
  the frame as if it were a number of messages; the relay then uses messages that were never received.
\<close>

theorem udp_cut_frame_faults:
  assumes fit: "udp_fits xd" and n: "5 < n" "n < length (wire xd)" and w: "rx w = [Chunk (take n (wire xd))]"
    and ty: "s5_type self = HEV_SOCKS5_TYPE_UDP_IN_TCP" and bufs: "bufs \<noteq> []" "\<forall>b\<in>set bufs. length b = UDP_BUF_LEN"
  shows "\<exists>ms w'. hev_socks5_udp_recvmmsg self (fresh_msgs bufs) True w = Some (int (n - 5), ms, self, w')
    \<and> hev_socks5_udp_fwd_f R sa binder bufs (self, bound, w) = None"
proof -
  let ?a = "enc_addr (fst xd)" and ?bs = "take n (wire xd)" and ?N = "length (enc_addr (fst xd)) - 2 + length (snd xd)"
  note wh = wire_head [OF fit]
  have la: "4 \<le> length ?a" "length ?a \<le> 252" "length ?a + length (snd xd) \<le> 1500"
    using fit enc_addr_len [of "fst xd"] by (auto simp: udp_fits_def UDP_BUF_LEN_def)
  have len: "length (wire xd) = 5 + ?N" using wh(1,6) la by (metis add_diff_inverse_nat length_append length_drop not_less)
  have h: "udp_recv_head True w = (5, take 5 (wire xd), w\<lparr>rx := [Chunk (drop 5 ?bs)], errno_again := errno_again w\<rparr>)"
    using udp_recv_head_chunk [OF w] n by (simp add: min_def)
  define d where "d = drop 5 ?bs"
  have d: "d \<noteq> []" "length d = n - 5" "n - 5 < ?N" using n len by (auto simp: d_def)
  have r: "recvmsg_loop ?N [] [length ?a - 2, length (snd xd)] [Chunk d] = (int (n - 5), d, [])"
    using d by (subst recvmsg_recv) (simp_all add: Let_def partial_or_def)
  obtain b bs where bufs': "bufs = b # bs" "length b = UDP_BUF_LEN" using bufs by (cases bufs) auto
  define b' where "b' = take 2 b @ d @ drop (2 + length d) b"
  have "2 + length d \<le> length b" using bufs'(2) d la unfolding UDP_BUF_LEN_def by linarith
  then have b': "put_block b 2 d = Some b'" "length b' = UDP_BUF_LEN"
    using bufs'(2) by (auto simp: put_block_def b'_def)
  have s: "\<not> length (snd xd) > sz_sub UDP_BUF_LEN (length ?a)" using la by (simp add: UDP_BUF_LEN_def)
  have "udp_recv_tcp True 0 \<lparr>um_addr = Unset, um_buf = b\<rparr> w = Some (\<lparr>um_addr = Unset, um_buf = b'\<rparr>, Inl (Some (int (n - 5))),
      w\<lparr>rx := [], errno_again := rx_errnos [Chunk d] [] (errno_again w)\<rparr>)"
    using h wh(2,3,7) r b' s bufs'(2) d(2,3) by (simp add: udp_recv_tcp_def d_def [symmetric] Let_def del: enc_addr.simps)
  then have "hev_socks5_udp_recvmmsg self (fresh_msgs bufs) True w = Some (int (n - 5), \<lparr>um_addr = Unset, um_buf = b'\<rparr> # fresh_msgs bs, self,
      w\<lparr>rx := [], errno_again := rx_errnos [Chunk d] [] (errno_again w)\<rparr>)"
    using bufs' ty by (simp add: fresh_msgs_def hev_socks5_udp_recvmmsg_def hev_socks5_udp_recvmmsg_tcp_def)
  moreover obtain k where "nat (int (n - 5)) = Suc k" using n by (metis Suc_diff_Suc nat_int)
  moreover have "b' \<noteq> []" using b'(2) by (auto simp: UDP_BUF_LEN_def)
  ultimately show ?thesis using n by (simp add: hev_socks5_udp_fwd_f_def)
qed

text \<open>
  A reply that fills its buffer does not fit the client's: the relay forwards a datagram of up to 1500 bytes, but the
  client, whose buffer takes address and data, refuses the frame after having read its header, and
  the rest of the frame stays in the stream.
\<close>

theorem udp_long_reply_refused:
  assumes "length (sin6_addr sa) = 16" "length d \<le> UDP_BUF_LEN" "UDP_BUF_LEN < length (enc_addr (socks_of sa)) + length d"
    and "rx w = [Chunk (wire (socks_of sa, d) @ rest)]" "s5_type self = HEV_SOCKS5_TYPE_UDP_IN_TCP"
    and "bufs \<noteq> []" "\<forall>b\<in>set bufs. length b = UDP_BUF_LEN"
  shows "\<exists>w'. hev_socks5_udp_recvmmsg self (fresh_msgs bufs) True w = Some (-1, fresh_msgs bufs, self, w')
    \<and> avail (rx w') = drop 2 (enc_addr (socks_of sa)) @ d @ rest"
proof -
  let ?a = "enc_addr (socks_of sa)"
  let ?bs = "wire (socks_of sa, d) @ rest"
  have la: "4 \<le> length ?a" "length ?a \<le> 19" using assms(1) enc_addr_len [OF socks_of_ok [OF assms(1)]] by (auto simp: socks_of_def)
  obtain a0 a1 as where aa: "?a = a0 # a1 # as" using la by (cases ?a; cases "tl ?a") auto
  define h where "h = store16 (htons (word_of_nat (length d) :: u16))"
  define c where "c = (word_of_nat (3 + length ?a) :: byte)"
  have bs: "?bs = h @ c # a0 # a1 # as @ d @ rest" using aa by (simp add: wire_def h_def c_def)
  have l: "length h = 2" "load16 ?bs = htons (word_of_nat (length d))" by (simp_all add: bs h_def)
  have c: "unat c = 3 + length ?a" using la unfolding c_def by (subst unat_of_nat) simp
  have dl: "unat (ntohs (load16 ?bs)) = length d" using assms(2) by (simp add: l unat_of_nat UDP_BUF_LEN_def)
  have b2: "?bs ! 2 = c" "drop 5 ?bs = drop 2 ?a @ d @ rest" "5 < length ?bs"
    using l(1) la aa assms(3) by (auto simp: bs nth_append UDP_BUF_LEN_def)
  obtain b bs' where bufs: "bufs = b # bs'" "length b = UDP_BUF_LEN" using assms(6,7) by (cases bufs) auto
  have "sz_sub (length b) (unat (?bs ! 2) - 3) < unat (ntohs (load16 ?bs))"
    using bufs(2) la assms(2,3) dl c b2(1) by (simp add: UDP_BUF_LEN_def)
  then have "udp_recv_tcp True 0 \<lparr>um_addr = Unset, um_buf = b\<rparr> w
      = Some (\<lparr>um_addr = Unset, um_buf = b\<rparr>, Inl (Some (-1)), w\<lparr>rx := [Chunk (drop 5 ?bs)], errno_again := errno_again w\<rparr>)"
    using assms(4) b2(3) by (intro udp_recv_tcp_refuses) simp_all
  moreover have "drop 2 ?a @ d @ rest \<noteq> []" using la aa by auto
  ultimately show ?thesis
    using bufs assms(5) b2(2) by (simp add: hev_socks5_udp_recvmmsg_def hev_socks5_udp_recvmmsg_tcp_def fresh_msgs_def)
qed

text \<open>
  The length of the header is one byte: a frame for a name of 249 to 253 bytes is sent with a header length that has
  wrapped to less than 5, and the receiver refuses it.
\<close>

theorem udp_header_wraps:
  assumes s: "249 \<le> length s" "length s \<le> 253" "0 \<notin> set s" and m: "carries m (Domain s p, d)" and tx: "tx_ok (tx v)"
    and ty: "s5_type self = HEV_SOCKS5_TYPE_UDP_IN_TCP" "s5_type peer = HEV_SOCKS5_TYPE_UDP_IN_TCP" and bufs: "bufs \<noteq> []"
  shows "\<exists>v' out. hev_socks5_udp_sendmmsg peer [m] v = Some (1, v') \<and> sent v' = sent v @ out
    \<and> (rx w = [Chunk out] \<longrightarrow> (\<exists>w'. hev_socks5_udp_recvmmsg self (fresh_msgs bufs) True w = Some (-1, fresh_msgs bufs, self, w')))"
proof -
  let ?x = "(Domain s p, d)"
  have "addr_ok (fst ?x)" using s by simp
  then have "\<exists>ev. hev_socks5_udp_sendmmsg_tcp [m] v = Some (int (length [m]), v\<lparr>tx := ev, sent := sent v @ concat (map wire [?x])\<rparr>)"
    by (intro udp_sendmmsg_tcp_wire [OF _ _ _ tx]) (use m in \<open>auto simp del: addr_ok.simps\<close>)
  then have sent: "\<exists>v'. hev_socks5_udp_sendmmsg peer [m] v = Some (1, v') \<and> sent v' = sent v @ wire ?x"
    using ty(2) by (auto simp: hev_socks5_udp_sendmmsg_def)
  have "(7 + length s) mod 256 = length s - 249" using s by (simp add: mod_if)
  then have "unat (word_of_nat (7 + length s) :: byte) < 5" using s by (subst unat_of_nat) simp
  then have "wire ?x ! 2 < 5" by (simp add: wire_def nth_append word_less_nat_alt add.assoc [symmetric])
  moreover have "5 < length (wire ?x)" using s by (simp add: wire_def)
  moreover obtain b bs where "bufs = b # bs" using bufs by (cases bufs) auto
  ultimately have "\<exists>w'. hev_socks5_udp_recvmmsg self (fresh_msgs bufs) True w = Some (-1, fresh_msgs bufs, self, w')" if "rx w = [Chunk (wire ?x)]"
    using udp_recv_tcp_refuses [OF that, of "\<lparr>um_addr = Unset, um_buf = b\<rparr>" 0] ty(1)
    by (simp add: hev_socks5_udp_recvmmsg_def hev_socks5_udp_recvmmsg_tcp_def fresh_msgs_def)
  with sent show ?thesis by blast
qed

section \<open>Examples\<close>

definition relay_obj :: hev_socks5 where
  "relay_obj = \<lparr>s5_fd = 3, s5_timeout = 60000, s5_udp_associated = 0, s5_type = HEV_SOCKS5_TYPE_UDP_IN_TCP, s5_addr_family = AF_UNSPEC\<rparr>"

definition relay_world :: "rx_event list \<Rightarrow> dg_rx_event list \<Rightarrow> relay_sys" where
  "relay_world r ds = \<lparr>rx = r, tx = [], sent = [], settings = socks5_defaults, sysres = [], open_fds = [3], polled = [3], blocks = 1,
     sock_a = \<lparr>ds_rx = [], ds_tx = [], ds_sent = []\<rparr>, sock_b = \<lparr>ds_rx = ds, ds_tx = [], ds_sent = []\<rparr>, errno_again = True\<rparr>"

definition no_resolver :: resolver where
  "no_resolver = \<lparr>pton4 = (\<lambda>_. None), pton6 = (\<lambda>_. None), getaddrinfo = (\<lambda>_ _. None)\<rparr>"

definition sockaddr0 :: sockaddr_in6 where
  "sockaddr0 = \<lparr>sin6_family = AF_UNSPEC, sin6_port = 0, sin6_addr = replicate 16 0\<rparr>"

definition dgram1 :: "socks_addr \<times> byte list" where
  "dgram1 = (IPv4 [10, 0, 0, 1] 0x3500, [7, 8])"

definition source1 :: sockaddr_in6 where
  "source1 = \<lparr>sin6_family = AF_INET6, sin6_port = 0x3500, sin6_addr = v4mapped_prefix @ [10, 0, 0, 1]\<rparr>"

lemmas relay_example = relay_obj_def relay_world_def no_resolver_def sockaddr0_def dgram1_def source1_def

lemma dgram1_fits: "udp_fits dgram1"
  by (simp add: udp_fits_def dgram1_def UDP_BUF_LEN_def)

lemma socks_of_source1: "socks_of source1 = fst dgram1"
  by (simp add: socks_of_def source1_def dgram1_def IN6_IS_ADDR_V4MAPPED_def v4mapped_prefix_def)

lemma wire_not_empty: "wire xd \<noteq> []"
  by (simp add: wire_def store16_def)

theorem udp_relay_forward_witness:
  "\<exists>w' out. hev_socks5_udp_sendmmsg relay_obj [\<lparr>um_addr = At (enc_addr (fst dgram1)), um_buf = [7, 8]\<rparr>] (relay_world [] []) = Some (1, w')
    \<and> sent w' = out \<and> out = wire dgram1
    \<and> (\<exists>v'. hev_socks5_udp_fwd_f no_resolver sockaddr0 (\<lambda>_ _ w. (0, w)) [replicate 1500 0, replicate 1500 0] (relay_obj, False, relay_world [Chunk (wire dgram1)] [])
        = Some (1, relay_obj, True, v') \<and> ds_sent (sock_b v') = [([7, 8], Some source1)])"
proof -
  let ?m = "\<lparr>um_addr = At (enc_addr (fst dgram1)), um_buf = [7, 8]\<rparr>" and ?v = "relay_world [Chunk (wire dgram1)] []"
  have c: "list_all2 carries [?m] [dgram1]" by (simp add: carries_def dgram1_def)
  have r: "resolve no_resolver sockaddr0 (s5_addr_family relay_obj) (fst dgram1) = (source1, AF_INET, 0)"
    by (simp add: resolve_def relay_example)
  have s: "hev_socks5_udp_sendmmsg relay_obj [?m] (relay_world [] []) = Some (1, (relay_world [] [])\<lparr>sent := wire dgram1\<rparr>)"
    by (simp add: hev_socks5_udp_sendmmsg_def hev_socks5_udp_sendmmsg_tcp_def frame_tcp_def addr_bytes_def hev_socks5_addr_len_def
        get8_def get_block_def sendmsg_send hev_task_io_socket_send_def partial_or_def tx_errnos_def wire_def relay_example addr_types store16_def)
  have "\<exists>w' out. hev_socks5_udp_sendmmsg relay_obj [?m] (relay_world [] []) = Some (int (length [?m]), w') \<and> sent w' = sent (relay_world [] []) @ out
    \<and> (avail (rx ?v) = out @ [] \<longrightarrow> hd (rx ?v) \<noteq> RAgain \<longrightarrow>
       (\<exists>k v'. hev_socks5_udp_fwd_f no_resolver sockaddr0 (\<lambda>_ _ w. (0, w)) [replicate 1500 0, replicate 1500 0] (relay_obj, False, ?v) = Some (1, relay_obj, True, v')
          \<and> 0 < k \<and> k \<le> length [replicate 1500 (0 :: byte), replicate 1500 0] \<and> k \<le> length [dgram1]
          \<and> ds_sent (sock_b v') = ds_sent (sock_b ?v)
              @ map (\<lambda>xd. (snd xd, Some (fst (resolve no_resolver sockaddr0 (s5_addr_family relay_obj) (fst xd))))) (take k [dgram1])
          \<and> (drop k [dgram1] \<noteq> [] \<or> [] \<noteq> ([] :: byte list) \<longrightarrow> avail (rx v') = concat (map wire (drop k [dgram1])) @ [])))"
    by (rule udp_relay_forward [OF c])
      (use r dgram1_fits in \<open>auto simp: relay_obj_def relay_world_def dgram1_def tx_ok_def dtx_ok_def UDP_BUF_LEN_def\<close>)
  then obtain w' out where o: "hev_socks5_udp_sendmmsg relay_obj [?m] (relay_world [] []) = Some (int (length [?m]), w')"
      "sent w' = sent (relay_world [] []) @ out"
    and f: "avail (rx ?v) = out @ [] \<longrightarrow> hd (rx ?v) \<noteq> RAgain \<longrightarrow>
       (\<exists>k v'. hev_socks5_udp_fwd_f no_resolver sockaddr0 (\<lambda>_ _ w. (0, w)) [replicate 1500 0, replicate 1500 0] (relay_obj, False, ?v) = Some (1, relay_obj, True, v')
          \<and> 0 < k \<and> k \<le> length [replicate 1500 (0 :: byte), replicate 1500 0] \<and> k \<le> length [dgram1]
          \<and> ds_sent (sock_b v') = ds_sent (sock_b ?v)
              @ map (\<lambda>xd. (snd xd, Some (fst (resolve no_resolver sockaddr0 (s5_addr_family relay_obj) (fst xd))))) (take k [dgram1])
          \<and> (drop k [dgram1] \<noteq> [] \<or> [] \<noteq> ([] :: byte list) \<longrightarrow> avail (rx v') = concat (map wire (drop k [dgram1])) @ []))" by blast
  have "out = wire dgram1" using o s by (auto simp: relay_world_def)
  then have "avail (rx ?v) = out @ []" "hd (rx ?v) \<noteq> RAgain" using wire_not_empty [of dgram1] by (simp_all add: relay_world_def)
  with f obtain k v' where k: "hev_socks5_udp_fwd_f no_resolver sockaddr0 (\<lambda>_ _ w. (0, w)) [replicate 1500 0, replicate 1500 0] (relay_obj, False, ?v)
      = Some (1, relay_obj, True, v')" "0 < k" "k \<le> length [dgram1]"
    and "ds_sent (sock_b v') = ds_sent (sock_b ?v)
              @ map (\<lambda>xd. (snd xd, Some (fst (resolve no_resolver sockaddr0 (s5_addr_family relay_obj) (fst xd))))) (take k [dgram1])" by blast
  moreover have "k = 1" using k(2,3) by simp
  ultimately have "ds_sent (sock_b v') = [([7, 8], Some source1)]" using r by (simp add: relay_world_def dgram1_def)
  then show ?thesis using s k(1) by (auto simp: relay_world_def)
qed

theorem udp_relay_backward_witness:
  "\<exists>w'. hev_socks5_udp_fwd_b (replicate 19 0) 1 (relay_obj, True, relay_world [] [Batch [([7, 8], source1)]]) = Some (1, relay_obj, True, w')
    \<and> sent w' = wire dgram1
    \<and> (\<exists>k ms v'. hev_socks5_udp_recvmmsg relay_obj (fresh_msgs [replicate 1500 0]) True (relay_world [Chunk (wire dgram1)] [])
         = Some (int k, ms, relay_obj, v') \<and> 0 < k \<and> list_all2 carries (take k ms) [dgram1])"
proof -
  let ?w = "relay_world [] [Batch [([7, 8], source1)]]" and ?v = "relay_world [Chunk (wire dgram1)] []"
  have x: "(socks_of source1, [7, 8]) = dgram1" by (simp add: socks_of_source1) (simp add: dgram1_def)
  obtain w1 where w1: "hev_socks5_udp_fwd_b (replicate 19 0) 1 (relay_obj, True, ?w) = Some (1, relay_obj, True, w1)" "sent w1 = wire dgram1"
    using udp_fwd_b_frames [of relay_obj ?w "[([7, 8], source1)]" "[]" 1 "replicate 19 0" True] x
    by (auto simp: relay_obj_def relay_world_def tx_ok_def UDP_BUF_LEN_def source1_def v4mapped_prefix_def)
  have "\<exists>w' out. hev_socks5_udp_fwd_b (replicate 19 0) 1 (relay_obj, True, ?w) = Some (1, relay_obj, True, w') \<and> sent w' = sent ?w @ out
    \<and> (avail (rx ?v) = out @ [] \<longrightarrow> hd (rx ?v) \<noteq> RAgain \<longrightarrow>
       (\<exists>k ms v'. hev_socks5_udp_recvmmsg relay_obj (fresh_msgs [replicate 1500 0]) True ?v = Some (int k, ms, relay_obj, v') \<and> 0 < k
          \<and> k \<le> length [replicate 1500 (0 :: byte)]
          \<and> list_all2 carries (take k ms) (take k (map (\<lambda>(d, sa). (socks_of sa, d)) [([7, 8], source1)]))))"
    by (rule udp_relay_backward [where ds = "[([7, 8], source1)]" and ev = "[]"])
      (use x dgram1_fits in \<open>auto simp: relay_obj_def relay_world_def tx_ok_def UDP_BUF_LEN_def source1_def v4mapped_prefix_def\<close>)
  then obtain w' out where "hev_socks5_udp_fwd_b (replicate 19 0) 1 (relay_obj, True, ?w) = Some (1, relay_obj, True, w')" "sent w' = sent ?w @ out"
    and r: "avail (rx ?v) = out @ [] \<longrightarrow> hd (rx ?v) \<noteq> RAgain \<longrightarrow>
       (\<exists>k ms v'. hev_socks5_udp_recvmmsg relay_obj (fresh_msgs [replicate 1500 0]) True ?v = Some (int k, ms, relay_obj, v') \<and> 0 < k
          \<and> k \<le> length [replicate 1500 (0 :: byte)]
          \<and> list_all2 carries (take k ms) (take k (map (\<lambda>(d, sa). (socks_of sa, d)) [([7, 8], source1)])))" by blast
  then have "out = wire dgram1" using w1 by (simp add: relay_world_def)
  then have "avail (rx ?v) = out @ []" "hd (rx ?v) \<noteq> RAgain" using wire_not_empty [of dgram1] by (simp_all add: relay_world_def)
  with r obtain k ms v' where "hev_socks5_udp_recvmmsg relay_obj (fresh_msgs [replicate 1500 0]) True ?v = Some (int k, ms, relay_obj, v')" "0 < k"
    "list_all2 carries (take k ms) (take k (map (\<lambda>(d, sa). (socks_of sa, d)) [([7, 8], source1)]))" by blast
  moreover from this have "take k (map (\<lambda>(d, sa). (socks_of sa, d)) [([7, 8], source1)]) = [dgram1]" using x by (cases k) auto
  ultimately show ?thesis using w1 by auto
qed

theorem udp_cut_frame_faults_witness:
  "\<exists>ms w'. hev_socks5_udp_recvmmsg relay_obj (fresh_msgs [replicate 1500 0]) True (relay_world [Chunk (take 7 (wire dgram1))] [])
      = Some (int (7 - 5), ms, relay_obj, w')
    \<and> hev_socks5_udp_fwd_f no_resolver sockaddr0 (\<lambda>_ _ w. (0, w)) [replicate 1500 0] (relay_obj, False, relay_world [Chunk (take 7 (wire dgram1))] []) = None"
  by (rule udp_cut_frame_faults [OF dgram1_fits])
    (auto simp: relay_obj_def relay_world_def wire_def dgram1_def UDP_BUF_LEN_def)

theorem udp_long_reply_refused_witness:
  "\<exists>w'. hev_socks5_udp_recvmmsg relay_obj (fresh_msgs [replicate 1500 0]) True (relay_world [Chunk (wire (socks_of source1, replicate 1500 1) @ [])] [])
      = Some (-1, fresh_msgs [replicate 1500 0], relay_obj, w')
    \<and> avail (rx w') = drop 2 (enc_addr (socks_of source1)) @ replicate 1500 1 @ []"
  by (rule udp_long_reply_refused)
    (auto simp: relay_obj_def relay_world_def UDP_BUF_LEN_def socks_of_source1, auto simp: source1_def dgram1_def v4mapped_prefix_def)

theorem udp_header_wraps_witness:
  "\<exists>v' out. hev_socks5_udp_sendmmsg relay_obj [\<lparr>um_addr = At (enc_addr (Domain (replicate 249 97) 0) @ []), um_buf = [1]\<rparr>] (relay_world [] []) = Some (1, v')
    \<and> sent v' = out
    \<and> (\<exists>w'. hev_socks5_udp_recvmmsg relay_obj (fresh_msgs [replicate 1500 0]) True (relay_world [Chunk out] []) = Some (-1, fresh_msgs [replicate 1500 0], relay_obj, w'))"
proof -
  define m where "m = \<lparr>um_addr = At (enc_addr (Domain (replicate 249 97) 0) @ []), um_buf = [1]\<rparr>"
  have c: "carries m (Domain (replicate 249 97) 0, [1])" by (simp add: m_def carries_def del: enc_addr.simps)
  have step: "\<exists>v' out. hev_socks5_udp_sendmmsg relay_obj [m] (relay_world [] []) = Some (1, v') \<and> sent v' = sent (relay_world [] []) @ out
    \<and> (rx (relay_world [Chunk o'] []) = [Chunk out] \<longrightarrow>
        (\<exists>w'. hev_socks5_udp_recvmmsg relay_obj (fresh_msgs [replicate 1500 0]) True (relay_world [Chunk o'] []) = Some (-1, fresh_msgs [replicate 1500 0], relay_obj, w')))"
    for o'
    by (rule udp_header_wraps [OF _ _ _ c]) (auto simp: relay_obj_def relay_world_def tx_ok_def)
  obtain v' out where s: "hev_socks5_udp_sendmmsg relay_obj [m] (relay_world [] []) = Some (1, v')" "sent v' = out"
    using step [of "[]"] by (auto simp: relay_world_def)
  moreover have "rx (relay_world [Chunk out] []) = [Chunk out]" "sent (relay_world [] []) = []" by (simp_all add: relay_world_def)
  ultimately have "\<exists>w'. hev_socks5_udp_recvmmsg relay_obj (fresh_msgs [replicate 1500 0]) True (relay_world [Chunk out] []) = Some (-1, fresh_msgs [replicate 1500 0], relay_obj, w')"
    using step [of out] by (simp only: append_Nil option.inject prod.inject) blast
  then show ?thesis using s unfolding m_def by blast
qed

end
