(* ===== verification/Splice.thy ===== *)
theory Splice
  imports Circular_Buffer UDP_Relay
begin

text \<open>
  The splice of two descriptors (\<open>third-part/hev-task-system/src/lib/io/basic/hev-task-io.c\<close>) and the TCP forwarding of the SOCKS core that uses it
  (\<open>core/src/hev-socks5-tcp.c\<close>). The code has two variants of a direction, one over a pipe of the kernel (\<open>ENABLE_IO_SPLICE_SYSCALL\<close>), one over a circular
  buffer; both meet the contract \<open>splice_direction\<close>, from which the properties of the loop follow.
\<close>

section \<open>One attempt to read or write\<close>

text \<open>
  \<open>readv\<close> and \<open>writev\<close> on a descriptor that does not block: the result, whether \<open>errno\<close> is \<open>EAGAIN\<close>, the bytes moved, and what is left of the script.
\<close>

fun read_now :: "nat \<Rightarrow> rx_event list \<Rightarrow> int \<times> bool \<times> byte list \<times> rx_event list" where
  "read_now n [] = (0, False, [], [])"
| "read_now n (RAgain # ev) = (-1, True, [], ev)"
| "read_now n (RTimeout # ev) = (-1, True, [], ev)"
| "read_now n (RErr # ev) = (-1, False, [], ev)"
| "read_now n (Chunk bs # ev) =
     (let got = take n bs; rest = drop n bs in
      if got = [] then (0, False, [], Chunk bs # ev)
      else (int (length got), False, got, if rest = [] then ev else Chunk rest # ev))"

fun write_now :: "byte list \<Rightarrow> tx_event list \<Rightarrow> int \<times> bool \<times> byte list \<times> tx_event list" where
  "write_now bs [] = (int (length bs), False, bs, [])"
| "write_now bs (TAgain # ev) = (-1, True, [], ev)"
| "write_now bs (TTimeout # ev) = (-1, True, [], ev)"
| "write_now bs (TErr # ev) = (-1, False, [], ev)"
| "write_now bs (Accept k # ev) = (int (length (take (Suc k) bs)), False, take (Suc k) bs, ev)"

text \<open>The result of a direction after an attempt.\<close>

definition splice_result :: "int \<Rightarrow> bool \<Rightarrow> int" where
  "splice_result s again = (if 0 \<ge> s then (if 0 > s \<and> again then 0 else -1) else 1)"

section \<open>Reading and writing with a yielder\<close>

text \<open>
  The calls that retry after \<open>EAGAIN\<close>, until the yielder gives up: \<open>-2\<close>.
\<close>

definition hev_task_io_read :: "nat \<Rightarrow> rx_event list \<Rightarrow> int \<times> byte list \<times> rx_event list" where
  "hev_task_io_read count ev = recv_once False count ev"

definition hev_task_io_readv :: "nat list \<Rightarrow> rx_event list \<Rightarrow> int \<times> byte list \<times> rx_event list" where
  "hev_task_io_readv caps ev = recv_once False (sum_list caps) ev"

fun hev_task_io_write :: "byte list \<Rightarrow> tx_event list \<Rightarrow> int \<times> byte list \<times> tx_event list" where
  "hev_task_io_write buf [] = (int (length buf), buf, [])"
| "hev_task_io_write buf (TAgain # ev) = hev_task_io_write buf ev"
| "hev_task_io_write buf (TTimeout # ev) = (-2, [], ev)"
| "hev_task_io_write buf (TErr # ev) = (-1, [], ev)"
| "hev_task_io_write buf (Accept k # ev) = (int (length (take (Suc k) buf)), take (Suc k) buf, ev)"

definition hev_task_io_writev :: "byte list list \<Rightarrow> tx_event list \<Rightarrow> int \<times> byte list \<times> tx_event list" where
  "hev_task_io_writev iov ev = hev_task_io_write (concat iov) ev"

section \<open>A direction\<close>

text \<open>What a direction reads from and writes to, and whether it has shut down the descriptor it writes to.\<close>

record splice_io =
  sp_rx :: "rx_event list"
  sp_tx :: "tx_event list"
  sp_sent :: "byte list"
  sp_shut :: bool

subsection \<open>Over a circular buffer\<close>

record buffer_splicer = splice_io +
  bs_buf :: hev_circular_buffer

definition buffer_splicer_init :: "byte list option \<Rightarrow> hev_circular_buffer option" where
  "buffer_splicer_init mem = hev_circular_buffer_new mem"

definition buffer_splicer_fini :: "hev_circular_buffer \<Rightarrow> hev_circular_buffer option" where
  "buffer_splicer_fini buf = hev_circular_buffer_unref buf"

definition buffer_read :: "buffer_splicer \<Rightarrow> int \<times> buffer_splicer" where
  "buffer_read self =
     (let iov = hev_circular_buffer_writing (bs_buf self) in
      if iov \<noteq> [] then
        let (s, again, bs, ev) = read_now (sum_list (map snd iov)) (sp_rx self);
            self = self\<lparr>sp_rx := ev\<rparr> in
        if 0 \<ge> s then (splice_result s again, self)
        else (1, self\<lparr>bs_buf := circ_write (bs_buf self) bs\<rparr>)
      else (1, self))"

definition buffer_splice :: "buffer_splicer \<Rightarrow> int \<times> buffer_splicer" where
  "buffer_splice self =
     (let (res, self) = buffer_read self;
          iov = hev_circular_buffer_reading (bs_buf self) in
      if iov \<noteq> [] then
        let (s, again, bs, ev) = write_now (gather (cb_data (bs_buf self)) iov) (sp_tx self);
            self = self\<lparr>sp_tx := ev, sp_sent := sp_sent self @ bs\<rparr> in
        if 0 \<ge> s then (splice_result s again, self)
        else (1, self\<lparr>bs_buf := hev_circular_buffer_read_finish (bs_buf self) (nat s)\<rparr>)
      else if res < 0 then (res, self\<lparr>sp_shut := True\<rparr>)
      else (res, self))"

subsection \<open>Over a pipe\<close>

text \<open>
  \<open>ps_pipe\<close> is what the kernel's pipe holds; \<open>wlen\<close> and \<open>blen\<close> are the program's. A pipe that is full makes the call fail with \<open>EAGAIN\<close>.
\<close>

record pipe_splicer = splice_io +
  ps_pipe :: "byte list"
  ps_wlen :: nat
  ps_blen :: nat

definition pipe_read :: "pipe_splicer \<Rightarrow> int \<times> pipe_splicer" where
  "pipe_read self =
     (let room = ps_blen self - length (ps_pipe self);
          (s, again, bs, ev) = (if room = 0 then (-1, True, [], sp_rx self) else read_now (min (ps_blen self) room) (sp_rx self));
          self = self\<lparr>sp_rx := ev, ps_pipe := ps_pipe self @ bs\<rparr> in
      if 0 \<ge> s then (splice_result s again, self)
      else (1, self\<lparr>ps_wlen := sz_add (ps_wlen self) (nat s)\<rparr>))"

definition pipe_splice :: "pipe_splicer \<Rightarrow> int \<times> pipe_splicer" where
  "pipe_splice self =
     (let (res, self) = pipe_read self in
      if ps_wlen self \<noteq> 0 then
        let (s, again, bs, ev) = write_now (take (ps_blen self) (ps_pipe self)) (sp_tx self);
            self = self\<lparr>sp_tx := ev, sp_sent := sp_sent self @ bs, ps_pipe := drop (length bs) (ps_pipe self)\<rparr> in
        if 0 \<ge> s then (splice_result s again, self)
        else (1, self\<lparr>ps_wlen := sz_sub (ps_wlen self) (nat s)\<rparr>)
      else if res < 0 then (res, self\<lparr>sp_shut := True\<rparr>)
      else (res, self))"

section \<open>The loop\<close>

text \<open>Two directions side by side; the yielder sees neither.\<close>

definition on_fst :: "('d \<Rightarrow> int \<times> 'd) \<Rightarrow> 'd \<times> 'd \<Rightarrow> (int \<times> 'd \<times> 'd) option" where
  "on_fst f s = (let (a, b) = s; (r, a) = f a in Some (r, a, b))"

definition on_snd :: "('d \<Rightarrow> int \<times> 'd) \<Rightarrow> 'd \<times> 'd \<Rightarrow> (int \<times> 'd \<times> 'd) option" where
  "on_snd f s = (let (a, b) = s; (r, b) = f b in Some (r, a, b))"

definition splice_loop ::
  "('d \<Rightarrow> int \<times> 'd) \<Rightarrow> ('y \<Rightarrow> yield_type \<Rightarrow> int) \<Rightarrow> 'y list \<Rightarrow> int \<Rightarrow> int \<Rightarrow> 'd \<times> 'd \<Rightarrow> (bool \<times> 'd \<times> 'd) option" where
  "splice_loop f yr ys = splice_rounds (on_fst f) (on_snd f) (\<lambda>x ty s. (yr x ty, s)) ys"

section \<open>The splice of two descriptors\<close>

subsection \<open>Over pipes\<close>

text \<open>
  A pipe is made with two descriptors, which the task polls. \<open>psz\<close> is the answer to \<open>F_GETPIPE_SZ\<close>, which replaces the size that was asked for. The results:
  the code, the descriptors and \<open>blen\<close>.
\<close>

definition pipe_splicer_init :: "nat \<Rightarrow> sys \<Rightarrow> int \<times> int \<times> int \<times> nat \<times> sys" where
  "pipe_splicer_init psz w =
     (let (res, w) = next_res w in
      if res < 0 then (res, 0, 0, 0, w)
      else let f0 = fresh_fd (open_fds w); f1 = fresh_fd (f0 # open_fds w);
               w = w\<lparr>open_fds := f1 # f0 # open_fds w\<rparr>;
               (res, w) = hev_task_add_fd f0 w in
      if res < 0 then (res, 0, 0, 0, sys_close f1 (sys_close f0 w))
      else let (res, w) = hev_task_add_fd f1 w in
      if res < 0 then (res, 0, 0, 0, sys_close f1 (sys_close f0 w))
      else (0, f0, f1, psz, w))"

definition pipe_splicer_fini :: "int \<times> int \<Rightarrow> sys \<Rightarrow> sys" where
  "pipe_splicer_fini fds w = sys_close (snd fds) (sys_close (fst fds) w)"

definition pipe_of :: "nat \<Rightarrow> splice_io \<Rightarrow> pipe_splicer" where
  "pipe_of blen a = splice_io.extend a \<lparr>ps_pipe = [], ps_wlen = 0, ps_blen = blen\<rparr>"

text \<open>
  \<open>ys\<close> are the circumstances of the yields to come, and \<open>yr\<close> what the yielder returns in them. The result says whether the loop has ended by then.
\<close>

definition hev_task_io_splice_pipe ::
  "nat \<Rightarrow> ('y \<Rightarrow> yield_type \<Rightarrow> int) \<Rightarrow> 'y list \<Rightarrow> splice_io \<Rightarrow> splice_io \<Rightarrow> sys \<Rightarrow> (bool \<times> splice_io \<times> splice_io \<times> sys) option" where
  "hev_task_io_splice_pipe psz yr ys a b w =
     (let (res, f0, f1, blen_f, w) = pipe_splicer_init psz w in
      if res < 0 then Some (True, a, b, w)
      else let (res, b0, b1, blen_b, w) = pipe_splicer_init psz w in
      if res < 0 then Some (True, a, b, pipe_splicer_fini (f0, f1) w)
      else do {
        (ended, f, g) \<leftarrow> splice_loop pipe_splice yr ys 1 1 (pipe_of blen_f a, pipe_of blen_b b);
        Some (ended, splice_io.truncate f, splice_io.truncate g,
          if ended then pipe_splicer_fini (f0, f1) (pipe_splicer_fini (b0, b1) w) else w) })"

subsection \<open>Over circular buffers\<close>

text \<open>The memory of both buffers comes from the allocator; the last result are the buffers that are left.\<close>

definition hev_task_io_splice_buffer ::
  "byte list option \<Rightarrow> byte list option \<Rightarrow> ('y \<Rightarrow> yield_type \<Rightarrow> int) \<Rightarrow> 'y list \<Rightarrow> splice_io \<Rightarrow> splice_io
    \<Rightarrow> (bool \<times> splice_io \<times> splice_io \<times> hev_circular_buffer list) option" where
  "hev_task_io_splice_buffer mem_f mem_b yr ys a b =
     (case buffer_splicer_init mem_f of
        None \<Rightarrow> Some (True, a, b, [])
      | Some buf_f \<Rightarrow> (case buffer_splicer_init mem_b of
          None \<Rightarrow> Some (True, a, b, List.map_filter buffer_splicer_fini [buf_f])
        | Some buf_b \<Rightarrow> do {
            (ended, f, g) \<leftarrow> splice_loop buffer_splice yr ys 1 1
              (splice_io.extend a \<lparr>bs_buf = buf_f\<rparr>, splice_io.extend b \<lparr>bs_buf = buf_b\<rparr>);
            Some (ended, splice_io.truncate f, splice_io.truncate g,
              if ended then List.map_filter buffer_splicer_fini [bs_buf g, bs_buf f] else [bs_buf g, bs_buf f]) }))"

subsection \<open>TCP forwarding\<close>

text \<open>
  \<open>a\<close> reads the SOCKS connection and writes to \<open>fd\<close>, \<open>b\<close> the other way round; \<open>None\<close> for a result that is not there yet. The result of
  \<open>hev_task_mod_fd\<close>, which only changes the events of a descriptor, is not tested.
\<close>

definition hev_socks5_tcp_splicer ::
  "nat \<Rightarrow> (int \<Rightarrow> int) list \<Rightarrow> 'x hev_socks5_scheme \<Rightarrow> int \<Rightarrow> splice_io \<Rightarrow> splice_io \<Rightarrow> sys
    \<Rightarrow> (int option \<times> splice_io \<times> splice_io \<times> sys) option" where
  "hev_socks5_tcp_splicer psz ys self fd a b w =
     (let cfd = s5_fd self in
      if cfd < 0 then Some (Some (-1), a, b, w)
      else let (res, w) = hev_task_add_fd fd w in do {
        (ended, a, b, w) \<leftarrow> hev_task_io_splice_pipe psz (\<lambda>sleep ty. hev_socks5_task_io_yielder sleep ty (s5_timeout self)) ys a b w;
        Some (if ended then Some 0 else None, a, b, w) })"

section \<open>Scripts\<close>

text \<open>All bytes of a script; and the scripts without errors, which end with the end of the stream.\<close>

fun rx_bytes :: "rx_event list \<Rightarrow> byte list" where
  "rx_bytes [] = []"
| "rx_bytes (Chunk bs # ev) = bs @ rx_bytes ev"
| "rx_bytes (_ # ev) = rx_bytes ev"

definition no_errors :: "'a splice_io_scheme \<Rightarrow> bool" where
  "no_errors d \<longleftrightarrow> RErr \<notin> set (sp_rx d) \<and> Chunk [] \<notin> set (sp_rx d) \<and> TErr \<notin> set (sp_tx d)"

lemma read_now_cases:
  assumes "read_now n ev = (s, again, bs, ev')" "0 < n"
  obtains (ended) "s = 0" "bs = []" "ev' = ev" "ev = [] \<or> Chunk [] \<in> set ev"
    | (blocked) x where "s = -1" "again" "bs = []" "ev = x # ev'" "rx_bytes ev = rx_bytes ev'"
    | (failed) "s = -1" "\<not> again" "bs = []" "ev = RErr # ev'"
    | (got) c rest where "s = int (length bs)" "bs \<noteq> []" "length bs \<le> n" "ev = Chunk (bs @ c) # rest"
        "ev' = (if c = [] then rest else Chunk c # rest)"
proof (cases "(n, ev)" rule: read_now.cases)
  case (5 n' c rest)
  show thesis
  proof (cases "c = []")
    case True
    then show thesis using assms 5 by (intro ended) (auto simp: Let_def)
  next
    case False
    then show thesis using assms 5 by (intro got [of "drop n c" rest]) (auto simp: Let_def split: if_splits)
  qed
qed (use assms ended blocked failed in auto)

lemma read_now_result:
  assumes "read_now n ev = (s, again, bs, ev')" "0 < n"
  shows "rx_bytes ev = bs @ rx_bytes ev'" "length bs \<le> n" "0 < s \<Longrightarrow> s = int (length bs)" "s \<le> 0 \<Longrightarrow> bs = []"
    "RErr \<in> set ev' \<Longrightarrow> RErr \<in> set ev" "Chunk [] \<in> set ev' \<Longrightarrow> Chunk [] \<in> set ev" "length ev' \<le> length ev"
    "s \<le> 0 \<Longrightarrow> 0 \<le> splice_result s again \<Longrightarrow> length ev' < length ev" "0 < s \<Longrightarrow> bs \<noteq> []"
    "splice_result s again < 0 \<Longrightarrow> RErr \<notin> set ev \<Longrightarrow> Chunk [] \<notin> set ev \<Longrightarrow> ev' = []"
proof -
  show "rx_bytes ev = bs @ rx_bytes ev'" by (rule read_now_cases [OF assms]) simp_all
  show "length bs \<le> n" "0 < s \<Longrightarrow> s = int (length bs)" "s \<le> 0 \<Longrightarrow> bs = []" "length ev' \<le> length ev" "0 < s \<Longrightarrow> bs \<noteq> []"
    by (rule read_now_cases [OF assms]; simp)+
  show "RErr \<in> set ev' \<Longrightarrow> RErr \<in> set ev" by (rule read_now_cases [OF assms]) (simp_all split: if_splits)
  show "Chunk [] \<in> set ev' \<Longrightarrow> Chunk [] \<in> set ev" by (rule read_now_cases [OF assms]) (simp_all split: if_splits)
  show "s \<le> 0 \<Longrightarrow> 0 \<le> splice_result s again \<Longrightarrow> length ev' < length ev"
    by (rule read_now_cases [OF assms]) (simp_all add: splice_result_def)
  show "splice_result s again < 0 \<Longrightarrow> RErr \<notin> set ev \<Longrightarrow> Chunk [] \<notin> set ev \<Longrightarrow> ev' = []"
    by (rule read_now_cases [OF assms]) (simp_all add: splice_result_def)
qed

lemma write_now_cases:
  assumes "write_now bs ev = (s, again, out, ev')" "bs \<noteq> []"
  obtains (blocked) x where "s = -1" "again" "out = []" "ev = x # ev'" | (failed) "s = -1" "\<not> again" "out = []" "ev = TErr # ev'"
    | (moved) k where "s = int (length out)" "out \<noteq> []" "out = take k bs" "ev' = tl ev"
proof (cases "(bs, ev)" rule: write_now.cases)
  case (1 b)
  then show thesis using assms by (intro moved [of "length bs"]) auto
next
  case (5 b k rest)
  then show thesis using assms by (intro moved [of "Suc k"]) auto
qed (use assms blocked failed in auto)

lemma write_now_result:
  assumes "write_now bs ev = (s, again, out, ev')" "bs \<noteq> []"
  shows "out = take (length out) bs" "0 < s \<Longrightarrow> s = int (length out)" "s \<le> 0 \<Longrightarrow> out = []" "TErr \<in> set ev' \<Longrightarrow> TErr \<in> set ev"
    "length ev' \<le> length ev" "s \<le> 0 \<Longrightarrow> length ev' < length ev" "s \<le> 0 \<Longrightarrow> splice_result s again < 0 \<Longrightarrow> TErr \<in> set ev"
    "0 < s \<Longrightarrow> out \<noteq> []" "length out \<le> length bs"
proof -
  show "out = take (length out) bs" by (rule write_now_cases [OF assms]) (auto simp: min_def)
  show "length out \<le> length bs" by (rule write_now_cases [OF assms]) auto
  show "0 < s \<Longrightarrow> s = int (length out)" by (rule write_now_cases [OF assms]) simp_all
  show "s \<le> 0 \<Longrightarrow> out = []" by (rule write_now_cases [OF assms]) (auto simp: min_def split: if_splits)
  show "length ev' \<le> length ev" by (rule write_now_cases [OF assms]) simp_all
  show "0 < s \<Longrightarrow> out \<noteq> []" by (rule write_now_cases [OF assms]) simp_all
  show "s \<le> 0 \<Longrightarrow> length ev' < length ev" by (rule write_now_cases [OF assms]) (auto simp: min_def split: if_splits)
  show "TErr \<in> set ev' \<Longrightarrow> TErr \<in> set ev" by (rule write_now_cases [OF assms]) (auto dest: list.set_sel(2) [rotated] simp: tl_def split: list.splits)
  show "s \<le> 0 \<Longrightarrow> splice_result s again < 0 \<Longrightarrow> TErr \<in> set ev"
    by (rule write_now_cases [OF assms]) (auto simp: splice_result_def min_def split: if_splits)
qed

text \<open>A write with a yielder takes a part of the buffer that is not empty, or fails and takes nothing.\<close>

lemma hev_task_io_write_result:
  assumes "hev_task_io_write buf ev = (s, out, ev')" "buf \<noteq> []"
  shows "if 0 < s then s = int (length out) \<and> out \<noteq> [] \<and> (\<exists>k. out = take k buf) else (s = -1 \<or> s = -2) \<and> out = []"
  using assms by (induction buf ev rule: hev_task_io_write.induct) (auto intro: take_all [OF order_refl, symmetric])

text \<open>A read with a yielder takes the next bytes, or nothing; the result is \<open>0\<close> exactly at the end of the stream.\<close>

lemma hev_task_io_read_result:
  assumes "hev_task_io_read n ev = (s, bs, ev')" "0 < n"
  shows "if 0 < s then s = int (length bs) \<and> bs \<noteq> [] \<and> length bs \<le> n \<and> avail ev = bs @ avail ev' else bs = [] \<and> avail ev = []"
  using assms unfolding hev_task_io_read_def
proof (induction False n ev rule: recv_once.induct)
  case (5 len bs' ev)
  then show ?case by (cases "bs' = []") (auto simp: Let_def split: if_splits)
qed auto

section \<open>The contract of a direction\<close>

text \<open>
  What a direction does to the bytes it holds, with \<open>cap\<close> for the size of what holds them: fill up, then send what there is; if there is nothing and no
  more comes, shut down.
\<close>

definition queue_splice :: "nat \<Rightarrow> splice_io \<times> byte list \<Rightarrow> int \<times> splice_io \<times> byte list" where
  "queue_splice cap d =
     (let (io, q) = d;
          (s, again, bs, ev) = (if length q = cap then (-1, True, [], sp_rx io) else read_now (cap - length q) (sp_rx io));
          io = io\<lparr>sp_rx := ev\<rparr>; q = q @ bs in
      if q = [] then
        (splice_result s again, if splice_result s again < 0 then io\<lparr>sp_shut := True\<rparr> else io, [])
      else
        let (s, again, out, ev) = write_now q (sp_tx io) in
        (splice_result s again, io\<lparr>sp_tx := ev, sp_sent := sp_sent io @ out\<rparr>, drop (length out) q))"

lemma queue_splice_empty:
  assumes "(if length q = cap then (-1, True, [], sp_rx io) else read_now (cap - length q) (sp_rx io)) = (s, again, bs, ev)" "q @ bs = []"
  shows "queue_splice cap (io, q) =
    (splice_result s again, if splice_result s again < 0 then io\<lparr>sp_rx := ev, sp_shut := True\<rparr> else io\<lparr>sp_rx := ev\<rparr>, [])"
  using assms(2) by (simp only: queue_splice_def assms(1) Let_def prod.case if_True) simp

lemma queue_splice_write:
  assumes "(if length q = cap then (-1, True, [], sp_rx io) else read_now (cap - length q) (sp_rx io)) = (s, again, bs, ev)" "q @ bs \<noteq> []"
    and "write_now (q @ bs) (sp_tx io) = (s2, again2, out, ev2)"
  shows "queue_splice cap (io, q) =
    (splice_result s2 again2, io\<lparr>sp_rx := ev, sp_tx := ev2, sp_sent := sp_sent io @ out\<rparr>, drop (length out) (q @ bs))"
  using assms(2,3) by (simp only: queue_splice_def assms(1) Let_def prod.case if_False) simp

locale splice_direction =
  fixes step :: "'d \<Rightarrow> int \<times> 'd" and abs_dir :: "'d \<Rightarrow> splice_io \<times> byte list" and ok :: "nat \<Rightarrow> 'd \<Rightarrow> bool"
  assumes refines: "ok cap d \<Longrightarrow> step d = (r, d') \<Longrightarrow> ok cap d' \<and> queue_splice cap (abs_dir d) = (r, abs_dir d')"
    and room: "ok cap d \<Longrightarrow> 0 < cap \<and> length (snd (abs_dir d)) \<le> cap"

subsection \<open>The circular buffer\<close>

definition buffer_abs :: "buffer_splicer \<Rightarrow> splice_io \<times> byte list" where
  "buffer_abs d = (splice_io.truncate d, gather (cb_data (bs_buf d)) (hev_circular_buffer_reading (bs_buf d)))"

definition buffer_ok :: "nat \<Rightarrow> buffer_splicer \<Rightarrow> bool" where
  "buffer_ok cap d \<longleftrightarrow> cb_max_size (bs_buf d) = cap \<and> cb_ref_count (bs_buf d) = 1 \<and> circ_rep (bs_buf d) (snd (buffer_abs d))"

lemma buffer_abs_rep: "circ_rep (bs_buf d) q \<Longrightarrow> buffer_abs d = (splice_io.truncate d, q)"
  by (simp add: buffer_abs_def circ_reading)

lemma writing_empty: "circ_rep b q \<Longrightarrow> hev_circular_buffer_writing b = [] \<longleftrightarrow> length q = cb_max_size b"
  using circ_repD(5) [of b q] by (auto simp: hev_circular_buffer_writing_def Let_def)

lemma result_sign: "0 < s \<Longrightarrow> splice_result s again = 1" "s \<le> 0 \<Longrightarrow> splice_result s again \<le> 0"
  by (simp_all add: splice_result_def)

lemma buffer_read_refines:
  assumes r: "circ_rep (bs_buf d) q" and cap: "cb_max_size (bs_buf d) = cap"
    and rd: "(if length q = cap then (-1, True, [], sp_rx d) else read_now (cap - length q) (sp_rx d)) = (s, again, bs, ev)"
  obtains res d1 where "buffer_read d = (res, d1)" "splice_io.truncate d1 = (splice_io.truncate d)\<lparr>sp_rx := ev\<rparr>" "circ_rep (bs_buf d1) (q @ bs)"
    "cb_max_size (bs_buf d1) = cap" "length q \<noteq> cap \<and> bs = [] \<longrightarrow> res = splice_result s again"
    "cb_ref_count (bs_buf d1) = cb_ref_count (bs_buf d)"
proof (cases "length q = cap")
  case True
  then have w: "hev_circular_buffer_writing (bs_buf d) = []" using writing_empty [OF r] cap by simp
  show thesis by (rule that [of 1 d]) (use rd True r cap w in \<open>auto simp: buffer_read_def splice_io.truncate_def\<close>)
next
  case False
  have w: "hev_circular_buffer_writing (bs_buf d) \<noteq> []" using writing_empty [OF r] cap False by simp
  have n: "sum_list (map snd (hev_circular_buffer_writing (bs_buf d))) = cap - length q" "0 < cap - length q"
    using circ_room [OF r] circ_repD(6) [OF r] cap False by simp_all
  have rd': "read_now (cap - length q) (sp_rx d) = (s, again, bs, ev)" using rd False by simp
  note R = read_now_result [OF rd' n(2)]
  show thesis
  proof (cases "s \<le> 0")
    case True
    then show thesis
      by (intro that [of "splice_result s again" "d\<lparr>sp_rx := ev\<rparr>"])
        (use w n rd' R(4) r cap False in \<open>auto simp: buffer_read_def splice_io.truncate_def Let_def\<close>)
  next
    case pos: False
    have le: "length q + length bs \<le> cb_max_size (bs_buf d)" using R(2) n(2) cap by linarith
    show thesis
      by (rule that [of 1 "d\<lparr>sp_rx := ev, bs_buf := circ_write (bs_buf d) bs\<rparr>"])
        (use w n rd' R(9) pos False circ_write_rep [OF r le] cap in \<open>auto simp: buffer_read_def splice_io.truncate_def Let_def\<close>)
  qed
qed

lemma buffer_refines:
  assumes ok: "buffer_ok cap d" and st: "buffer_splice d = (r, d')"
  shows "buffer_ok cap d' \<and> queue_splice cap (buffer_abs d) = (r, buffer_abs d')"
proof -
  define q where "q = snd (buffer_abs d)"
  have rep: "circ_rep (bs_buf d) q" and cap: "cb_max_size (bs_buf d) = cap" and ref: "cb_ref_count (bs_buf d) = 1"
    using ok by (simp_all add: buffer_ok_def q_def)
  have a: "buffer_abs d = (splice_io.truncate d, q)" by (rule buffer_abs_rep [OF rep])
  obtain s again bs ev where rd: "(if length q = cap then (-1, True, [], sp_rx d) else read_now (cap - length q) (sp_rx d)) = (s, again, bs, ev)"
    by (metis prod_cases4)
  obtain res d1 where d1: "buffer_read d = (res, d1)" "splice_io.truncate d1 = (splice_io.truncate d)\<lparr>sp_rx := ev\<rparr>" "circ_rep (bs_buf d1) (q @ bs)"
    "cb_max_size (bs_buf d1) = cap" "length q \<noteq> cap \<and> bs = [] \<longrightarrow> res = splice_result s again"
    "cb_ref_count (bs_buf d1) = cb_ref_count (bs_buf d)"
    using buffer_read_refines [OF rep cap rd] by blast
  have io: "sp_tx d1 = sp_tx d" "sp_sent d1 = sp_sent d" "sp_shut d1 = sp_shut d" "sp_rx d1 = ev"
    using d1(2) by (simp_all add: splice_io.truncate_def)
  have rdt: "(if length q = cap then (-1, True, [], sp_rx (splice_io.truncate d)) else read_now (cap - length q) (sp_rx (splice_io.truncate d)))
      = (s, again, bs, ev)" using rd by (auto simp: splice_io.truncate_def split: if_splits)
  show ?thesis
  proof (cases "q @ bs = []")
    case True
    have e: "hev_circular_buffer_reading (bs_buf d1) = []" using circ_reading_empty [OF d1(3)] True by simp
    have "res = splice_result s again" using d1(5) True circ_repD(1) [OF rep] cap by auto
    then have d': "r = splice_result s again" "d' = (if r < 0 then d1\<lparr>sp_shut := True\<rparr> else d1)"
      using st d1(1) e by (auto simp: buffer_splice_def split: if_splits)
    have rep': "circ_rep (bs_buf d') []" using d1(3) True d'(2) by simp
    show ?thesis unfolding a queue_splice_empty [OF rdt True]
      using buffer_abs_rep [OF rep'] rep' d1(2,4,6) d' ref by (auto simp: buffer_ok_def splice_io.truncate_def)
  next
    case False
    have e: "hev_circular_buffer_reading (bs_buf d1) \<noteq> []" using circ_reading_empty [OF d1(3)] False by simp
    obtain s2 again2 out ev2 where wr: "write_now (q @ bs) (sp_tx d) = (s2, again2, out, ev2)" by (metis prod_cases4)
    have wrt: "write_now (q @ bs) (sp_tx (splice_io.truncate d)) = (s2, again2, out, ev2)" using wr by (simp add: splice_io.truncate_def)
    note W = write_now_result [OF wr False]
    let ?d2 = "d1\<lparr>sp_tx := ev2, sp_sent := sp_sent d @ out\<rparr>"
    have d': "r = splice_result s2 again2"
        "d' = (if s2 \<le> 0 then ?d2 else ?d2\<lparr>bs_buf := hev_circular_buffer_read_finish (bs_buf d1) (nat s2)\<rparr>)"
      using st d1(1) e wr circ_reading [OF d1(3)] io by (auto simp: buffer_splice_def Let_def result_sign(1) split: if_splits)
    have fin: "circ_rep (hev_circular_buffer_read_finish (bs_buf d1) (length out)) (drop (length out) (q @ bs))"
      by (rule circ_read_finish [OF d1(3) W(9)])
    have rep': "circ_rep (bs_buf d') (drop (length out) (q @ bs))"
      using d'(2) fin W(2,3) d1(3) by (cases "s2 \<le> 0") simp_all
    have "cb_max_size (bs_buf d') = cap" "cb_ref_count (bs_buf d') = 1"
      using d'(2) d1(4,6) ref by (simp_all add: hev_circular_buffer_read_finish_def)
    then show ?thesis unfolding a queue_splice_write [OF rdt False wrt]
      using buffer_abs_rep [OF rep'] rep' d1(2) d' by (auto simp: buffer_ok_def splice_io.truncate_def)
  qed
qed

interpretation buf: splice_direction buffer_splice buffer_abs buffer_ok
proof unfold_locales
  show "buffer_ok cap d \<Longrightarrow> 0 < cap \<and> length (snd (buffer_abs d)) \<le> cap" for cap d by (auto simp: buffer_ok_def dest: circ_repD(1,6))
qed (rule buffer_refines)

subsection \<open>The pipe\<close>

definition pipe_abs :: "pipe_splicer \<Rightarrow> splice_io \<times> byte list" where
  "pipe_abs d = (splice_io.truncate d, ps_pipe d)"

text \<open>The program's count is what the pipe holds.\<close>

definition pipe_ok :: "nat \<Rightarrow> pipe_splicer \<Rightarrow> bool" where
  "pipe_ok cap d \<longleftrightarrow> ps_blen d = cap \<and> 0 < cap \<and> cap < 2 ^ 62 \<and> ps_wlen d = length (ps_pipe d) \<and> length (ps_pipe d) \<le> cap"

lemma pipe_read_refines:
  assumes ok: "pipe_ok cap d"
    and rd: "(if length (ps_pipe d) = cap then (-1, True, [], sp_rx d) else read_now (cap - length (ps_pipe d)) (sp_rx d)) = (s, again, bs, ev)"
  shows "pipe_read d = (splice_result s again, d\<lparr>sp_rx := ev, ps_pipe := ps_pipe d @ bs, ps_wlen := length (ps_pipe d @ bs)\<rparr>)"
    "length (ps_pipe d @ bs) \<le> cap"
proof -
  have k: "ps_blen d = cap" "cap < 2 ^ 62" "ps_wlen d = length (ps_pipe d)" "length (ps_pipe d) \<le> cap" using ok by (simp_all add: pipe_ok_def)
  have wl: "d\<lparr>ps_wlen := length (ps_pipe d)\<rparr> = d" using k(3) by simp
  show "length (ps_pipe d @ bs) \<le> cap"
  proof (cases "length (ps_pipe d) = cap")
    case False
    then have "read_now (cap - length (ps_pipe d)) (sp_rx d) = (s, again, bs, ev)" "0 < cap - length (ps_pipe d)" using rd k(4) by simp_all
    from read_now_result(2) [OF this] k(4) show ?thesis by simp
  qed (use rd in auto)
  then have le: "length (ps_pipe d) + length bs \<le> cap" by simp
  show "pipe_read d = (splice_result s again, d\<lparr>sp_rx := ev, ps_pipe := ps_pipe d @ bs, ps_wlen := length (ps_pipe d @ bs)\<rparr>)"
  proof (cases "length (ps_pipe d) = cap")
    case True
    then show ?thesis using rd k wl by (cases d) (auto simp: pipe_read_def splice_result_def)
  next
    case False
    then have r: "read_now (cap - length (ps_pipe d)) (sp_rx d) = (s, again, bs, ev)" "0 < cap - length (ps_pipe d)" using rd k(4) by simp_all
    note R = read_now_result [OF r]
    have m: "min cap (cap - length (ps_pipe d)) = cap - length (ps_pipe d)" by simp
    show ?thesis
    proof (cases "s \<le> 0")
      case True
      then show ?thesis using r R(4) k m by (cases d) (simp add: pipe_read_def Let_def)
    next
      case pos: False
      have "length (ps_pipe d) < 2 ^ 62" "length bs < 2 ^ 62" using le k(2) by linarith+
      then have "sz_add (ps_wlen d) (nat s) = length (ps_pipe d) + length bs" using R(3) pos k(3) sz_simps(1) by simp
      then show ?thesis using pos r k m by (cases d) (simp add: pipe_read_def Let_def result_sign)
    qed
  qed
qed

lemma pipe_refines:
  assumes ok: "pipe_ok cap d" and st: "pipe_splice d = (r, d')"
  shows "pipe_ok cap d' \<and> queue_splice cap (pipe_abs d) = (r, pipe_abs d')"
proof -
  let ?q = "ps_pipe d"
  obtain s again bs ev where rd: "(if length ?q = cap then (-1, True, [], sp_rx d) else read_now (cap - length ?q) (sp_rx d)) = (s, again, bs, ev)"
    by (metis prod_cases4)
  note P = pipe_read_refines [OF ok rd]
  have rdt: "(if length ?q = cap then (-1, True, [], sp_rx (splice_io.truncate d)) else read_now (cap - length ?q) (sp_rx (splice_io.truncate d)))
      = (s, again, bs, ev)" using rd by (auto simp: splice_io.truncate_def split: if_splits)
  let ?d1 = "d\<lparr>sp_rx := ev, ps_pipe := ?q @ bs, ps_wlen := length (?q @ bs)\<rparr>"
  have k: "ps_blen d = cap" "0 < cap" "cap < 2 ^ 62" using ok by (simp_all add: pipe_ok_def)
  show ?thesis
  proof (cases "?q @ bs = []")
    case True
    then have "r = splice_result s again" "d' = (if r < 0 then ?d1\<lparr>sp_shut := True\<rparr> else ?d1)"
      using st P(1) by (auto simp: pipe_splice_def split: if_splits)
    then show ?thesis unfolding pipe_abs_def queue_splice_empty [OF rdt True]
      using True k by (auto simp: pipe_ok_def splice_io.truncate_def)
  next
    case False
    have tk: "take cap (?q @ bs) = ?q @ bs" using P(2) by simp
    obtain s2 again2 out ev2 where wr: "write_now (?q @ bs) (sp_tx d) = (s2, again2, out, ev2)" by (metis prod_cases4)
    have wrt: "write_now (?q @ bs) (sp_tx (splice_io.truncate d)) = (s2, again2, out, ev2)" using wr by (simp add: splice_io.truncate_def)
    note W = write_now_result [OF wr False]
    have b: "length (?q @ bs) < 2 ^ 62" using P(2) k(3) by linarith
    have sub: "sz_sub (length (?q @ bs)) (length out) = length (drop (length out) (?q @ bs))"
      using sz_simps(2) [OF W(9) b] by simp
    have "r = splice_result s2 again2 \<and>
        d' = ?d1\<lparr>sp_tx := ev2, sp_sent := sp_sent d @ out, ps_pipe := drop (length out) (?q @ bs), ps_wlen := length (drop (length out) (?q @ bs))\<rparr>"
    proof (cases "s2 \<le> 0")
      case True
      then show ?thesis using st P(1) wr W(3) False tk k(1) by (cases d) (auto simp: pipe_splice_def)
    next
      case pos: False
      then have "nat s2 = length out" using W(2) by simp
      then show ?thesis using st P(1) wr False tk k(1) pos sub by (cases d) (auto simp: pipe_splice_def result_sign)
    qed
    then show ?thesis unfolding pipe_abs_def queue_splice_write [OF rdt False wrt]
      using k P(2) by (auto simp: pipe_ok_def splice_io.truncate_def)
  qed
qed

interpretation pipe: splice_direction pipe_splice pipe_abs pipe_ok
proof unfold_locales
  show "pipe_ok cap d \<Longrightarrow> 0 < cap \<and> length (snd (pipe_abs d)) \<le> cap" for cap d by (auto simp: pipe_ok_def pipe_abs_def)
qed (rule pipe_refines)

section \<open>What a direction does\<close>

text \<open>The bytes that have gone through, are held, or are still to come.\<close>

definition all_bytes :: "splice_io \<times> byte list \<Rightarrow> byte list" where
  "all_bytes d = sp_sent (fst d) @ snd d @ rx_bytes (sp_rx (fst d))"

text \<open>What is left to do: every step that does not end the direction takes some of it.\<close>

definition work :: "splice_io \<times> byte list \<Rightarrow> nat" where
  "work d = 2 * length (rx_bytes (sp_rx (fst d))) + length (snd d) + length (sp_rx (fst d)) + length (sp_tx (fst d))"

lemma queue_splice_cases:
  assumes "queue_splice cap d = (r, d')" "0 < cap" "length (snd d) \<le> cap"
  obtains (nothing) s again ev where "snd d = []" "read_now cap (sp_rx (fst d)) = (s, again, [], ev)" "r = splice_result s again"
      "d' = (if r < 0 then (fst d)\<lparr>sp_rx := ev, sp_shut := True\<rparr> else (fst d)\<lparr>sp_rx := ev\<rparr>, [])"
    | (writes) bs ev s again out ev2 where "rx_bytes (sp_rx (fst d)) = bs @ rx_bytes ev" "length ev \<le> length (sp_rx (fst d))"
      "RErr \<in> set ev \<Longrightarrow> RErr \<in> set (sp_rx (fst d))" "Chunk [] \<in> set ev \<Longrightarrow> Chunk [] \<in> set (sp_rx (fst d))"
      "snd d @ bs \<noteq> []" "write_now (snd d @ bs) (sp_tx (fst d)) = (s, again, out, ev2)" "r = splice_result s again"
      "d' = ((fst d)\<lparr>sp_rx := ev, sp_tx := ev2, sp_sent := sp_sent (fst d) @ out\<rparr>, drop (length out) (snd d @ bs))"
proof -
  obtain io q where d: "d = (io, q)" by fastforce
  obtain s again bs ev where rd: "(if length q = cap then (-1, True, [], sp_rx io) else read_now (cap - length q) (sp_rx io)) = (s, again, bs, ev)"
    by (metis prod_cases4)
  have R: "rx_bytes (sp_rx io) = bs @ rx_bytes ev" "length ev \<le> length (sp_rx io)" "RErr \<in> set ev \<Longrightarrow> RErr \<in> set (sp_rx io)"
    "Chunk [] \<in> set ev \<Longrightarrow> Chunk [] \<in> set (sp_rx io)"
    using rd read_now_result [of "cap - length q" "sp_rx io" s again bs ev] assms(3) d by (auto split: if_splits)
  show thesis
  proof (cases "q @ bs = []")
    case True
    then have n: "read_now cap (sp_rx io) = (s, again, [], ev)" using rd assms(2) by auto
    show thesis by (rule nothing [of s again ev]) (use n assms(1) queue_splice_empty [OF rd True] True d in auto)
  next
    case False
    obtain s2 again2 out ev2 where wr: "write_now (q @ bs) (sp_tx io) = (s2, again2, out, ev2)" by (metis prod_cases4)
    show thesis by (rule writes [of bs ev s2 again2 out ev2]) (use assms(1) queue_splice_write [OF rd False wr] False wr R d in auto)
  qed
qed

lemma queue_splice_laws:
  assumes q: "queue_splice cap d = (r, d')" "0 < cap" "length (snd d) \<le> cap"
  shows "all_bytes d' = all_bytes d" "sp_shut (fst d') \<longleftrightarrow> sp_shut (fst d) \<or> r < 0 \<and> snd d' = []" "0 \<le> r \<Longrightarrow> work d' < work d"
    "no_errors (fst d) \<Longrightarrow> no_errors (fst d')" "no_errors (fst d) \<Longrightarrow> r < 0 \<Longrightarrow> snd d' = [] \<and> sp_rx (fst d') = []" "r = -1 \<or> r = 0 \<or> r = 1"
proof -
  have nil: "all_bytes d' = all_bytes d \<and> (sp_shut (fst d') \<longleftrightarrow> sp_shut (fst d) \<or> r < 0 \<and> snd d' = []) \<and> (0 \<le> r \<longrightarrow> work d' < work d)
      \<and> (no_errors (fst d) \<longrightarrow> no_errors (fst d')) \<and> (no_errors (fst d) \<longrightarrow> r < 0 \<longrightarrow> snd d' = [] \<and> sp_rx (fst d') = [])"
    if "snd d = []" "read_now cap (sp_rx (fst d)) = (s, again, [], ev)" "r = splice_result s again"
      "d' = (if r < 0 then (fst d)\<lparr>sp_rx := ev, sp_shut := True\<rparr> else (fst d)\<lparr>sp_rx := ev\<rparr>, [])" for s again ev
  proof -
    note R = read_now_result [OF that(2) q(2)]
    have s: "s \<le> 0" using R(9) by fastforce
    show ?thesis using that(1,3,4) R(1,5,6,8,10) s by (auto simp: all_bytes_def work_def no_errors_def)
  qed
  have wr: "all_bytes d' = all_bytes d \<and> (sp_shut (fst d') \<longleftrightarrow> sp_shut (fst d) \<or> r < 0 \<and> snd d' = []) \<and> (0 \<le> r \<longrightarrow> work d' < work d)
      \<and> (no_errors (fst d) \<longrightarrow> no_errors (fst d')) \<and> (no_errors (fst d) \<longrightarrow> r < 0 \<longrightarrow> snd d' = [] \<and> sp_rx (fst d') = [])"
    if b: "rx_bytes (sp_rx (fst d)) = bs @ rx_bytes ev" "length ev \<le> length (sp_rx (fst d))"
      "RErr \<in> set ev \<Longrightarrow> RErr \<in> set (sp_rx (fst d))" "Chunk [] \<in> set ev \<Longrightarrow> Chunk [] \<in> set (sp_rx (fst d))"
      "snd d @ bs \<noteq> []" "write_now (snd d @ bs) (sp_tx (fst d)) = (s, again, out, ev2)" "r = splice_result s again"
      "d' = ((fst d)\<lparr>sp_rx := ev, sp_tx := ev2, sp_sent := sp_sent (fst d) @ out\<rparr>, drop (length out) (snd d @ bs))" for bs ev s again out ev2
  proof -
    note W = write_now_result [OF b(6,5)]
    have o: "out @ drop (length out) (snd d @ bs) = snd d @ bs" using W(1) by (metis append_take_drop_id)
    have m: "length ev2 + length (drop (length out) (snd d @ bs)) < length (sp_tx (fst d)) + length (snd d @ bs)"
    proof (cases "0 < s")
      case True
      then show ?thesis using W(5,9) W(8) [OF True] length_greater_0_conv [of out]
        unfolding length_drop length_append by linarith
    qed (use W(3,6) in simp)
    have neg: "r < 0 \<Longrightarrow> s \<le> 0 \<and> TErr \<in> set (sp_tx (fst d))" using b(7) W(7) result_sign(1) [of s again] by fastforce
    have "all_bytes d' = all_bytes d" using o b(1,8) by (simp add: all_bytes_def)
    moreover have "work d' < work d" using m b(1,2,8) by (simp add: work_def)
    moreover have "r < 0 \<Longrightarrow> snd d' \<noteq> []" using neg W(3) b(5,8) by simp
    ultimately show ?thesis using neg b(3,4,8) W(4) by (auto simp: no_errors_def)
  qed
  have all: "all_bytes d' = all_bytes d \<and> (sp_shut (fst d') \<longleftrightarrow> sp_shut (fst d) \<or> r < 0 \<and> snd d' = []) \<and> (0 \<le> r \<longrightarrow> work d' < work d)
      \<and> (no_errors (fst d) \<longrightarrow> no_errors (fst d')) \<and> (no_errors (fst d) \<longrightarrow> r < 0 \<longrightarrow> snd d' = [] \<and> sp_rx (fst d') = [])"
    by (rule queue_splice_cases [OF q]) (rule nil wr; assumption)+
  then show "all_bytes d' = all_bytes d" "sp_shut (fst d') \<longleftrightarrow> sp_shut (fst d) \<or> r < 0 \<and> snd d' = []" "0 \<le> r \<Longrightarrow> work d' < work d"
    "no_errors (fst d) \<Longrightarrow> no_errors (fst d')" "no_errors (fst d) \<Longrightarrow> r < 0 \<Longrightarrow> snd d' = [] \<and> sp_rx (fst d') = []"
    by blast+
  show "r = -1 \<or> r = 0 \<or> r = 1" by (rule queue_splice_cases [OF q]) (simp_all add: splice_result_def)
qed

section \<open>Rounds of the loop\<close>

text \<open>One round.\<close>

lemma splice_loop_Nil: "splice_loop f yr [] rf rb s = Some (False, s)"
  by (simp add: splice_loop_def)

lemma splice_loop_Cons:
  assumes "(rf', a') = (if rf \<ge> 0 then f a else (rf, a))" "(rb', b') = (if rb \<ge> 0 then f b else (rb, b))"
  shows "splice_loop f yr (x # ys) rf rb (a, b) = (case splice_next rf' rb' of
      None \<Rightarrow> Some (True, a', b')
    | Some ty \<Rightarrow> if yr x ty \<noteq> 0 then Some (True, a', b') else splice_loop f yr ys rf' rb' (a', b'))"
  using assms [symmetric] by (cases "rf \<ge> 0"; cases "rb \<ge> 0") (auto simp: splice_loop_def on_fst_def on_snd_def Let_def split: option.split)

lemma splice_next_None:
  assumes "r \<in> {-1, 0, 1}" "q \<in> {-1, 0, 1}"
  shows "splice_next r q = None \<longleftrightarrow> r = -1 \<and> q = -1"
  using assms by (auto simp: splice_next_def)

lemma splice_loop_total: "\<exists>e a' b'. splice_loop f yr ys rf rb (a, b) = Some (e, a', b')"
proof (induction ys arbitrary: rf rb a b)
  case Nil
  then show ?case by (auto simp: splice_loop_Nil)
next
  case (Cons x ys)
  obtain rf' a' where a: "(rf', a') = (if rf \<ge> 0 then f a else (rf, a))" by (metis surj_pair)
  obtain rb' b' where b: "(rb', b') = (if rb \<ge> 0 then f b else (rb, b))" by (metis surj_pair)
  show ?case using Cons.IH [of rf' rb' a' b'] by (auto simp: splice_loop_Cons [OF a b] split: option.split)
qed

text \<open>What is left to do in a direction that has not ended.\<close>

definition left_work :: "int \<Rightarrow> splice_io \<times> byte list \<Rightarrow> nat" where
  "left_work r d = (if r \<ge> 0 then Suc (work d) else 0)"

text \<open>A direction that has ended has sent everything and told the other side.\<close>

definition all_done :: "splice_io \<times> byte list \<Rightarrow> bool" where
  "all_done d \<longleftrightarrow> snd d = [] \<and> sp_rx (fst d) = [] \<and> sp_shut (fst d)"

context splice_direction
begin

lemma step_facts:
  assumes "ok cap d" "step d = (r, d')"
  shows "ok cap d'" "all_bytes (abs_dir d') = all_bytes (abs_dir d)"
    "sp_shut (fst (abs_dir d')) \<longleftrightarrow> sp_shut (fst (abs_dir d)) \<or> r < 0 \<and> snd (abs_dir d') = []"
    "no_errors (fst (abs_dir d)) \<Longrightarrow> no_errors (fst (abs_dir d'))"
    "no_errors (fst (abs_dir d)) \<Longrightarrow> r < 0 \<Longrightarrow> all_done (abs_dir d')"
    "left_work r (abs_dir d') < Suc (work (abs_dir d))" "r \<in> {-1, 0, 1}"
proof -
  have q: "ok cap d'" "queue_splice cap (abs_dir d) = (r, abs_dir d')" using refines [OF assms] by simp_all
  note l = queue_splice_laws [OF q(2)]
  show "ok cap d'" by (rule q(1))
  show "all_bytes (abs_dir d') = all_bytes (abs_dir d)" "sp_shut (fst (abs_dir d')) \<longleftrightarrow> sp_shut (fst (abs_dir d)) \<or> r < 0 \<and> snd (abs_dir d') = []"
    "no_errors (fst (abs_dir d)) \<Longrightarrow> no_errors (fst (abs_dir d'))" "no_errors (fst (abs_dir d)) \<Longrightarrow> r < 0 \<Longrightarrow> all_done (abs_dir d')"
    "left_work r (abs_dir d') < Suc (work (abs_dir d))" "r \<in> {-1, 0, 1}"
    using l room [OF assms(1)] by (auto simp: all_done_def left_work_def)
qed

text \<open>A direction in a round: it steps unless it has ended.\<close>

lemma turn_facts:
  assumes "ok cap d" "(r', d') = (if r \<ge> 0 then step d else (r, d))" "r \<in> {-1, 0, 1}"
  shows "ok cap d'" "all_bytes (abs_dir d') = all_bytes (abs_dir d)" "r' \<in> {-1, 0, 1}"
    "(sp_shut (fst (abs_dir d)) \<longrightarrow> r < 0 \<and> snd (abs_dir d) = []) \<Longrightarrow> sp_shut (fst (abs_dir d')) \<longrightarrow> r' < 0 \<and> snd (abs_dir d') = []"
    "no_errors (fst (abs_dir d)) \<Longrightarrow> no_errors (fst (abs_dir d'))"
    "no_errors (fst (abs_dir d)) \<Longrightarrow> (r < 0 \<longrightarrow> all_done (abs_dir d)) \<Longrightarrow> r' < 0 \<longrightarrow> all_done (abs_dir d')"
    "left_work r' (abs_dir d') \<le> left_work r (abs_dir d)" "0 \<le> r \<Longrightarrow> left_work r' (abs_dir d') < left_work r (abs_dir d)" "r < 0 \<Longrightarrow> r' < 0"
proof -
  have s: "0 \<le> r \<Longrightarrow> step d = (r', d')" and n: "\<not> 0 \<le> r \<Longrightarrow> r' = r \<and> d' = d" using assms(2) by simp_all
  show "r < 0 \<Longrightarrow> r' < 0" using n by simp
  show "ok cap d'" "all_bytes (abs_dir d') = all_bytes (abs_dir d)" "r' \<in> {-1, 0, 1}"
    "(sp_shut (fst (abs_dir d)) \<longrightarrow> r < 0 \<and> snd (abs_dir d) = []) \<Longrightarrow> sp_shut (fst (abs_dir d')) \<longrightarrow> r' < 0 \<and> snd (abs_dir d') = []"
    "no_errors (fst (abs_dir d)) \<Longrightarrow> no_errors (fst (abs_dir d'))"
    "no_errors (fst (abs_dir d)) \<Longrightarrow> (r < 0 \<longrightarrow> all_done (abs_dir d)) \<Longrightarrow> r' < 0 \<longrightarrow> all_done (abs_dir d')"
    "left_work r' (abs_dir d') \<le> left_work r (abs_dir d)" "0 \<le> r \<Longrightarrow> left_work r' (abs_dir d') < left_work r (abs_dir d)"
    using step_facts [OF assms(1) s] n assms(1,3) by (cases "0 \<le> r"; simp add: left_work_def)+
qed

text \<open>Whatever happens, no byte is lost, and what has been shut down holds none.\<close>

lemma loop_safe:
  assumes "ok ca a" "ok cb b" "rf \<in> {-1, 0, 1}" "rb \<in> {-1, 0, 1}"
    and "sp_shut (fst (abs_dir a)) \<longrightarrow> rf < 0 \<and> snd (abs_dir a) = []" "sp_shut (fst (abs_dir b)) \<longrightarrow> rb < 0 \<and> snd (abs_dir b) = []"
  shows "\<exists>e a' b'. splice_loop step yr ys rf rb (a, b) = Some (e, a', b') \<and> ok ca a' \<and> ok cb b'
    \<and> all_bytes (abs_dir a') = all_bytes (abs_dir a) \<and> all_bytes (abs_dir b') = all_bytes (abs_dir b)
    \<and> (sp_shut (fst (abs_dir a')) \<longrightarrow> snd (abs_dir a') = []) \<and> (sp_shut (fst (abs_dir b')) \<longrightarrow> snd (abs_dir b') = [])"
  using assms
proof (induction ys arbitrary: a b rf rb)
  case Nil
  then show ?case by (auto simp: splice_loop_Nil)
next
  case (Cons x ys)
  obtain rf' a' where a: "(rf', a') = (if rf \<ge> 0 then step a else (rf, a))" by (metis surj_pair)
  obtain rb' b' where b: "(rb', b') = (if rb \<ge> 0 then step b else (rb, b))" by (metis surj_pair)
  note A = turn_facts [OF Cons.prems(1) a Cons.prems(3)] and B = turn_facts [OF Cons.prems(2) b Cons.prems(4)]
  note sh = A(4) [OF Cons.prems(5)] B(4) [OF Cons.prems(6)]
  note IH = Cons.IH [OF A(1) B(1) A(3) B(3) sh, unfolded A(2) B(2)]
  have "splice_loop step yr (x # ys) rf rb (a, b) = Some (True, a', b') \<or>
      splice_loop step yr (x # ys) rf rb (a, b) = splice_loop step yr ys rf' rb' (a', b')"
    by (simp add: splice_loop_Cons [OF a b] split: option.split)
  then show ?case using IH A(1,2) B(1,2) sh by (elim disjE) (simp_all, blast)
qed

text \<open>The loop ends if no yield gives up, and without errors everything is delivered.\<close>

lemma loop_ends:
  assumes "ok ca a" "ok cb b" "rf \<in> {-1, 0, 1}" "rb \<in> {-1, 0, 1}" "\<And>x ty. x \<in> set ys \<Longrightarrow> yr x ty = 0"
    and "left_work rf (abs_dir a) + left_work rb (abs_dir b) \<le> length ys" "ys \<noteq> []"
    and "no_errors (fst (abs_dir a))" "no_errors (fst (abs_dir b))" "rf < 0 \<longrightarrow> all_done (abs_dir a)" "rb < 0 \<longrightarrow> all_done (abs_dir b)"
  shows "\<exists>a' b'. splice_loop step yr ys rf rb (a, b) = Some (True, a', b') \<and> all_done (abs_dir a') \<and> all_done (abs_dir b')
    \<and> all_bytes (abs_dir a') = all_bytes (abs_dir a) \<and> all_bytes (abs_dir b') = all_bytes (abs_dir b)"
  using assms
proof (induction ys arbitrary: a b rf rb)
  case (Cons x ys)
  obtain rf' a' where a: "(rf', a') = (if rf \<ge> 0 then step a else (rf, a))" by (metis surj_pair)
  obtain rb' b' where b: "(rb', b') = (if rb \<ge> 0 then step b else (rb, b))" by (metis surj_pair)
  note A = turn_facts [OF Cons.prems(1) a Cons.prems(3)] and B = turn_facts [OF Cons.prems(2) b Cons.prems(4)]
  note fin = A(6) [OF Cons.prems(8,10)] B(6) [OF Cons.prems(9,11)]
  show ?case
  proof (cases "splice_next rf' rb'")
    case None
    then have "rf' < 0 \<and> rb' < 0" using splice_next_None [OF A(3) B(3)] by simp
    then show ?thesis using fin A(2) B(2) None by (simp add: splice_loop_Cons [OF a b])
  next
    case (Some ty)
    then have act: "0 \<le> rf' \<or> 0 \<le> rb'" using splice_next_None [OF A(3) B(3)] A(3) B(3) by auto
    then have "0 \<le> rf \<or> 0 \<le> rb" using A(9) B(9) by fastforce
    then have le: "left_work rf' (abs_dir a') + left_work rb' (abs_dir b') \<le> length ys"
      using A(7,8) B(7,8) Cons.prems(6) by fastforce
    moreover have "0 < left_work rf' (abs_dir a') + left_work rb' (abs_dir b')" using act by (auto simp: left_work_def)
    ultimately have ne: "ys \<noteq> []" by auto
    have y: "yr x ty = 0" "\<And>x ty. x \<in> set ys \<Longrightarrow> yr x ty = 0" using Cons.prems(5) by auto
    show ?thesis
      using Cons.IH [OF A(1) B(1) A(3) B(3) y(2) le ne A(5) [OF Cons.prems(8)] B(5) [OF Cons.prems(9)] fin] Some y(1) A(2) B(2)
      by (simp add: splice_loop_Cons [OF a b])
  qed
qed simp

text \<open>The loop over one implementation is the loop over queues.\<close>

lemma loop_refines:
  assumes "ok ca a" "ok ca b" "splice_loop step yr ys rf rb (a, b) = Some (e, a', b')"
  shows "ok ca a' \<and> ok ca b' \<and> splice_loop (queue_splice ca) yr ys rf rb (abs_dir a, abs_dir b) = Some (e, abs_dir a', abs_dir b')"
  using assms
proof (induction ys arbitrary: a b rf rb)
  case Nil
  then show ?case by (simp add: splice_loop_Nil)
next
  case (Cons x ys)
  obtain rf1 a1 where a: "(rf1, a1) = (if rf \<ge> 0 then step a else (rf, a))" by (metis surj_pair)
  obtain rb1 b1 where b: "(rb1, b1) = (if rb \<ge> 0 then step b else (rb, b))" by (metis surj_pair)
  have A: "ok ca a1" "(rf1, abs_dir a1) = (if rf \<ge> 0 then queue_splice ca (abs_dir a) else (rf, abs_dir a))"
    using a Cons.prems(1) refines [of ca a rf1 a1] by (auto split: if_splits)
  have B: "ok ca b1" "(rb1, abs_dir b1) = (if rb \<ge> 0 then queue_splice ca (abs_dir b) else (rb, abs_dir b))"
    using b Cons.prems(2) refines [of ca b rb1 b1] by (auto split: if_splits)
  show ?case
    using Cons.prems(3) Cons.IH [OF A(1) B(1)] A(1) B(1)
    by (auto simp: splice_loop_Cons [OF a b] splice_loop_Cons [OF A(2) B(2)] split: option.splits if_splits)
qed

end

section \<open>Descriptors\<close>

lemma next_res_fds: "open_fds (snd (next_res w)) = open_fds w"
  by (simp add: next_res_def split: list.split)

lemma add_fd_fds: "open_fds (snd (hev_task_add_fd fd w)) = open_fds w"
  using next_res_fds [of w] by (simp add: hev_task_add_fd_def split_beta Let_def)

text \<open>A pipe that is made has two new descriptors; one that is not leaves none.\<close>

lemma pipe_splicer_init_fds:
  assumes "pipe_splicer_init psz w = (res, f0, f1, blen, w')"
  shows "res < 0 \<Longrightarrow> set (open_fds w') = set (open_fds w)"
    "\<not> res < 0 \<Longrightarrow> blen = psz \<and> set (open_fds w') = insert f0 (insert f1 (set (open_fds w))) \<and> f0 \<notin> set (open_fds w) \<and> f1 \<notin> set (open_fds w)"
proof -
  obtain r w1 where r: "next_res w = (r, w1)" by fastforce
  have w1: "open_fds w1 = open_fds w" using next_res_fds [of w] r by simp
  define g0 where "g0 = fresh_fd (open_fds w1)"
  define g1 where "g1 = fresh_fd (g0 # open_fds w1)"
  have g: "g0 \<notin> set (open_fds w)" "g1 \<noteq> g0" "g1 \<notin> set (open_fds w)"
    using fresh_fd_new [of "open_fds w1"] fresh_fd_new [of "g0 # open_fds w1"] w1 by (simp_all add: g0_def g1_def)
  obtain q w2 where q: "hev_task_add_fd g0 (w1\<lparr>open_fds := g1 # g0 # open_fds w1\<rparr>) = (q, w2)" by fastforce
  obtain p w3 where p: "hev_task_add_fd g1 w2 = (p, w3)" by fastforce
  have o: "open_fds w2 = g1 # g0 # open_fds w" "open_fds w3 = g1 # g0 # open_fds w"
    using add_fd_fds [of g0 "w1\<lparr>open_fds := g1 # g0 # open_fds w1\<rparr>"] add_fd_fds [of g1 w2] q p w1 by simp_all
  have e: "(res, f0, f1, blen, w') = (if r < 0 then (r, 0, 0, 0, w1) else if q < 0 then (q, 0, 0, 0, sys_close g1 (sys_close g0 w2))
      else if p < 0 then (p, 0, 0, 0, sys_close g1 (sys_close g0 w3)) else (0, g0, g1, psz, w3))"
    using assms r q p by (cases "r < 0"; cases "q < 0"; cases "p < 0") (simp_all add: pipe_splicer_init_def g0_def g1_def Let_def)
  show "res < 0 \<Longrightarrow> set (open_fds w') = set (open_fds w)" using e o g w1 by (auto simp: sys_close_def split: if_splits)
  show "\<not> res < 0 \<Longrightarrow> blen = psz \<and> set (open_fds w') = insert f0 (insert f1 (set (open_fds w))) \<and> f0 \<notin> set (open_fds w) \<and> f1 \<notin> set (open_fds w)"
    using e o g by (auto split: if_splits)
qed

lemma pipe_splicer_fini_fds: "set (open_fds (pipe_splicer_fini fds w)) = set (open_fds w) - {fst fds, snd fds}"
  by (auto simp: pipe_splicer_fini_def sys_close_def)

lemma pipe_of_ok: "0 < n \<Longrightarrow> n < 2 ^ 62 \<Longrightarrow> pipe_ok n (pipe_of n a)" "pipe_abs (pipe_of n a) = (a, [])"
  by (simp_all add: pipe_ok_def pipe_of_def pipe_abs_def splice_io.defs)

text \<open>What a splice over pipes does: nothing, if a pipe cannot be made, or the loop; in any case it gives its descriptors back.\<close>

lemma hev_task_io_splice_pipe_cases:
  assumes "hev_task_io_splice_pipe psz yr ys a b w = Some (ended, a', b', w')"
  shows "(ended \<longrightarrow> set (open_fds w') = set (open_fds w)) \<and>
    (ended \<and> a' = a \<and> b' = b \<or> (\<exists>f g. splice_loop pipe_splice yr ys 1 1 (pipe_of psz a, pipe_of psz b) = Some (ended, f, g)
      \<and> a' = splice_io.truncate f \<and> b' = splice_io.truncate g))"
proof -
  obtain res f0 f1 blen w1 where 1: "pipe_splicer_init psz w = (res, f0, f1, blen, w1)" by (metis prod_cases5)
  obtain res' g0 g1 blen' w2 where 2: "pipe_splicer_init psz w1 = (res', g0, g1, blen', w2)" by (metis prod_cases5)
  note F = pipe_splicer_init_fds [OF 1] and G = pipe_splicer_init_fds [OF 2]
  consider "res < 0" | "\<not> res < 0" "res' < 0" | "\<not> res < 0" "\<not> res' < 0" by blast
  then show ?thesis
  proof cases
    case 1
    then show ?thesis using assms \<open>pipe_splicer_init psz w = _\<close> F(1) by (simp add: hev_task_io_splice_pipe_def)
  next
    case 2
    then have "set (open_fds (pipe_splicer_fini (f0, f1) w2)) = set (open_fds w)" using F(2) G(1) by (auto simp: pipe_splicer_fini_fds)
    then show ?thesis using assms 2 \<open>pipe_splicer_init psz w = _\<close> \<open>pipe_splicer_init psz w1 = _\<close>
      by (auto simp: hev_task_io_splice_pipe_def)
  next
    case 3
    then have "set (open_fds (pipe_splicer_fini (f0, f1) (pipe_splicer_fini (g0, g1) w2))) = set (open_fds w)"
      using F(2) G(2) by (auto simp: pipe_splicer_fini_fds)
    moreover have "blen = psz" "blen' = psz" using F(2) G(2) 3 by simp_all
    ultimately show ?thesis using assms 3 \<open>pipe_splicer_init psz w = _\<close> \<open>pipe_splicer_init psz w1 = _\<close>
      by (auto simp: hev_task_io_splice_pipe_def bind_eq_Some_conv split: if_splits)
  qed
qed

text \<open>If every call succeeds, the loop runs.\<close>

lemma pipe_splice_runs:
  assumes "sysres w = []" "splice_loop pipe_splice yr ys 1 1 (pipe_of psz a, pipe_of psz b) = Some (e, f, g)"
  shows "\<exists>w'. hev_task_io_splice_pipe psz yr ys a b w = Some (e, splice_io.truncate f, splice_io.truncate g, w')"
proof -
  have init: "\<exists>f0 f1 v'. pipe_splicer_init psz v = (0, f0, f1, psz, v') \<and> sysres v' = []" if "sysres v = []" for v
    using that by (simp add: pipe_splicer_init_def hev_task_add_fd_def next_res_def Let_def)
  obtain f0 f1 w1 where 1: "pipe_splicer_init psz w = (0, f0, f1, psz, w1)" "sysres w1 = []" using init [OF assms(1)] by blast
  obtain g0 g1 w2 where 2: "pipe_splicer_init psz w1 = (0, g0, g1, psz, w2)" using init [OF 1(2)] by blast
  show ?thesis using 1 2 assms(2) by (simp add: hev_task_io_splice_pipe_def)
qed

lemma truncate_abs: "pipe_abs d = (splice_io.truncate d, ps_pipe d)" "fst (buffer_abs e) = splice_io.truncate e"
  by (simp_all add: pipe_abs_def buffer_abs_def)

lemma all_done_bytes: "all_done d \<Longrightarrow> all_bytes d = sp_sent (fst d)"
  by (simp add: all_done_def all_bytes_def)

section \<open>Properties\<close>

text \<open>
  C16. The splice returns to its caller in any circumstances that let the loop end, and however the reads and writes turn out, each direction has
  sent exactly the bytes it has read, in order, but for a rest that it still held when the loop ended, and it shuts down the other side only after it has
  sent everything; the descriptors of its pipes are closed.
\<close>

theorem splice_keeps_bytes:
  assumes "0 < psz" "psz < 2 ^ 62" "\<not> sp_shut a" "\<not> sp_shut b"
  shows "\<exists>ended a' b' w'. hev_task_io_splice_pipe psz yr ys a b w = Some (ended, a', b', w')
    \<and> (ended \<longrightarrow> set (open_fds w') = set (open_fds w))
    \<and> (\<exists>held. sp_sent a' @ held @ rx_bytes (sp_rx a') = sp_sent a @ rx_bytes (sp_rx a) \<and> (sp_shut a' \<longrightarrow> held = []))
    \<and> (\<exists>held. sp_sent b' @ held @ rx_bytes (sp_rx b') = sp_sent b @ rx_bytes (sp_rx b) \<and> (sp_shut b' \<longrightarrow> held = []))"
proof -
  have ok: "pipe_ok psz (pipe_of psz d)" "pipe_abs (pipe_of psz d) = (d, [])" for d using assms(1,2) pipe_of_ok by blast+
  have "\<exists>e f g. splice_loop pipe_splice yr ys 1 1 (pipe_of psz a, pipe_of psz b) = Some (e, f, g)
      \<and> all_bytes (pipe_abs f) = all_bytes (a, []) \<and> all_bytes (pipe_abs g) = all_bytes (b, [])
      \<and> (sp_shut (fst (pipe_abs f)) \<longrightarrow> snd (pipe_abs f) = []) \<and> (sp_shut (fst (pipe_abs g)) \<longrightarrow> snd (pipe_abs g) = [])"
    using pipe.loop_safe [OF ok(1) [of a] ok(1) [of b], of 1 1 yr ys] assms(3,4) by (auto simp: ok(2))
  then obtain e f g where l: "splice_loop pipe_splice yr ys 1 1 (pipe_of psz a, pipe_of psz b) = Some (e, f, g)"
    and bytes: "all_bytes (pipe_abs f) = all_bytes (a, [])" "all_bytes (pipe_abs g) = all_bytes (b, [])"
    and shut: "sp_shut (fst (pipe_abs f)) \<longrightarrow> snd (pipe_abs f) = []" "sp_shut (fst (pipe_abs g)) \<longrightarrow> snd (pipe_abs g) = []"
    by blast
  obtain ended a' b' w' where r: "hev_task_io_splice_pipe psz yr ys a b w = Some (ended, a', b', w')"
  proof -
    obtain res f0 f1 n w1 where 1: "pipe_splicer_init psz w = (res, f0, f1, n, w1)" by (metis prod_cases5)
    obtain res' g0 g1 n' w2 where 2: "pipe_splicer_init psz w1 = (res', g0, g1, n', w2)" by (metis prod_cases5)
    have n: "\<not> res < 0 \<Longrightarrow> n = psz" "\<not> res' < 0 \<Longrightarrow> n' = psz"
      using pipe_splicer_init_fds(2) [OF 1] pipe_splicer_init_fds(2) [OF 2] by blast+
    show thesis
      by (cases "res < 0"; cases "res' < 0") (use that 1 2 n l in \<open>auto simp: hev_task_io_splice_pipe_def\<close>)
  qed
  note c = hev_task_io_splice_pipe_cases [OF r]
  have a: "\<exists>held. sp_sent a' @ held @ rx_bytes (sp_rx a') = sp_sent a @ rx_bytes (sp_rx a) \<and> (sp_shut a' \<longrightarrow> held = [])"
    and b: "\<exists>held. sp_sent b' @ held @ rx_bytes (sp_rx b') = sp_sent b @ rx_bytes (sp_rx b) \<and> (sp_shut b' \<longrightarrow> held = [])"
    using c l bytes shut by (auto simp: all_bytes_def truncate_abs)
  show ?thesis using r c a b by blast
qed

text \<open>
  C15. Forwarding of a TCP connection ends and has delivered everything in both directions, if no error occurs and no wait times out: what one side sent before it
  closed, the other has received, followed by the end of the stream; and no descriptor is left over.
\<close>

theorem tcp_splicer_delivers:
  assumes "0 \<le> s5_fd self" "0 < psz" "psz < 2 ^ 62" "sysres w = []" "no_errors a" "no_errors b" "\<not> sp_shut a" "\<not> sp_shut b"
    and "\<forall>sleep\<in>set ys. s5_timeout self < 0 \<or> 0 < sleep (s5_timeout self)"
    and "work (a, []) + work (b, []) + 2 \<le> length ys"
  shows "\<exists>a' b' w'. hev_socks5_tcp_splicer psz ys self fd a b w = Some (Some 0, a', b', w')
    \<and> sp_sent a' = sp_sent a @ rx_bytes (sp_rx a) \<and> sp_shut a' \<and> sp_sent b' = sp_sent b @ rx_bytes (sp_rx b) \<and> sp_shut b'
    \<and> set (open_fds w') = set (open_fds w)"
proof -
  let ?yr = "\<lambda>sleep ty. hev_socks5_task_io_yielder sleep ty (s5_timeout self)"
  have ok: "pipe_ok psz (pipe_of psz d)" "pipe_abs (pipe_of psz d) = (d, [])" for d using assms(2,3) pipe_of_ok by blast+
  have y: "x \<in> set ys \<Longrightarrow> ?yr x ty = 0" for x ty using assms(9) by (auto simp: hev_socks5_task_io_yielder_def)
  have ne: "ys \<noteq> []" using assms(10) by auto
  obtain f g where l: "splice_loop pipe_splice ?yr ys 1 1 (pipe_of psz a, pipe_of psz b) = Some (True, f, g)"
    and d: "all_done (pipe_abs f)" "all_done (pipe_abs g)"
    and bytes: "all_bytes (pipe_abs f) = all_bytes (a, [])" "all_bytes (pipe_abs g) = all_bytes (b, [])"
    using pipe.loop_ends [OF ok(1) [of a] ok(1) [of b], of 1 1 ys ?yr] y ne assms(5-8,10) by (auto simp: ok(2) left_work_def)
  have fin: "sp_sent f = sp_sent a @ rx_bytes (sp_rx a)" "sp_shut f" "sp_sent g = sp_sent b @ rx_bytes (sp_rx b)" "sp_shut g"
    using bytes d all_done_bytes [OF d(1)] all_done_bytes [OF d(2)]
    by (simp_all add: all_done_def all_bytes_def truncate_abs splice_io.truncate_def)
  let ?w = "snd (hev_task_add_fd fd w)"
  have s: "sysres ?w = []" using assms(4) by (simp add: hev_task_add_fd_def next_res_def)
  obtain w3 where r: "hev_task_io_splice_pipe psz ?yr ys a b ?w = Some (True, splice_io.truncate f, splice_io.truncate g, w3)"
    using pipe_splice_runs [OF s l] by blast
  have "set (open_fds w3) = set (open_fds w)"
    using hev_task_io_splice_pipe_cases [OF r] add_fd_fds [of fd w] by simp
  then show ?thesis using r fin assms(1) by (simp add: hev_socks5_tcp_splicer_def split_beta splice_io.truncate_def)
qed

text \<open>
  C17. The two variants of the splice are the same to the outside: with pipes and buffers of one size, they read and write the same, shut down the same and end at the
  same time; the buffers are freed at the end.
\<close>

theorem splice_variants_agree:
  assumes "0 < n" "n < 2 ^ 62" "sysres w = []" "length mem = n" "length mem' = n"
    and "hev_task_io_splice_pipe n yr ys a b w = Some (ended, a', b', w')"
  shows "\<exists>bufs. hev_task_io_splice_buffer (Some mem) (Some mem') yr ys a b = Some (ended, a', b', bufs) \<and> length bufs = (if ended then 0 else 2)"
proof -
  obtain e f g where p: "splice_loop pipe_splice yr ys 1 1 (pipe_of n a, pipe_of n b) = Some (e, f, g)"
    using splice_loop_total by metis
  have "ended = e \<and> a' = splice_io.truncate f \<and> b' = splice_io.truncate g" using pipe_splice_runs [OF assms(3) p] assms(6) by auto
  note a' = this
  have ne: "mem \<noteq> []" "mem' \<noteq> []" "length mem < 2 ^ 62" "length mem' < 2 ^ 62" using assms(1,2,4,5) by auto
  obtain bf where bf: "hev_circular_buffer_new (Some mem) = Some bf" "circ_rep bf []" "cb_max_size bf = n" "cb_ref_count bf = 1"
    using circ_new [OF ne(1,3)] assms(4) by auto
  obtain bb where bb: "hev_circular_buffer_new (Some mem') = Some bb" "circ_rep bb []" "cb_max_size bb = n" "cb_ref_count bb = 1"
    using circ_new [OF ne(2,4)] assms(5) by auto
  let ?f = "splice_io.extend a \<lparr>bs_buf = bf\<rparr>" and ?g = "splice_io.extend b \<lparr>bs_buf = bb\<rparr>"
  have ab: "buffer_abs ?f = (a, [])" "buffer_abs ?g = (b, [])"
    using buffer_abs_rep [of ?f "[]"] buffer_abs_rep [of ?g "[]"] bf(2) bb(2) by (simp_all add: splice_io.defs)
  have bok: "buffer_ok n ?f" "buffer_ok n ?g" using ab bf bb by (simp_all add: buffer_ok_def splice_io.defs)
  obtain e2 f2 g2 where q: "splice_loop buffer_splice yr ys 1 1 (?f, ?g) = Some (e2, f2, g2)" using splice_loop_total by metis
  note Q = buf.loop_refines [OF bok q, unfolded ab]
  have "splice_loop (queue_splice n) yr ys 1 1 ((a, []), (b, [])) = Some (e, pipe_abs f, pipe_abs g)"
    using pipe.loop_refines [OF pipe_of_ok(1) [OF assms(1,2)] pipe_of_ok(1) [OF assms(1,2)] p] by (simp add: pipe_of_ok(2))
  with Q have same: "e2 = e" "buffer_abs f2 = pipe_abs f" "buffer_abs g2 = pipe_abs g" by simp_all
  then have tr: "splice_io.truncate f2 = splice_io.truncate f" "splice_io.truncate g2 = splice_io.truncate g"
    using truncate_abs by (metis fst_conv)+
  have "buffer_splicer_fini (bs_buf f2) = None" "buffer_splicer_fini (bs_buf g2) = None"
    using Q by (simp_all add: buffer_ok_def buffer_splicer_fini_def hev_circular_buffer_unref_def)
  then show ?thesis
    using q bf(1) bb(1) a' same(1) tr by (simp add: hev_task_io_splice_buffer_def buffer_splicer_init_def map_filter_simps)
qed

section \<open>Witnesses\<close>

definition io_a :: splice_io where
  "io_a = \<lparr>sp_rx = [Chunk [1, 2, 3], RAgain, Chunk [4]], sp_tx = [Accept 0, TAgain], sp_sent = [], sp_shut = False\<rparr>"

definition io_b :: splice_io where
  "io_b = \<lparr>sp_rx = [], sp_tx = [], sp_sent = [9], sp_shut = False\<rparr>"

definition io_err :: splice_io where
  "io_err = \<lparr>sp_rx = [Chunk [1, 2, 3], RErr], sp_tx = [Accept 0, TErr], sp_sent = [], sp_shut = False\<rparr>"

definition splice_sys :: sys where
  "splice_sys = \<lparr>rx = [], tx = [], sent = [], settings = socks5_defaults, sysres = [], open_fds = [8, 7], polled = [7], blocks = 0\<rparr>"

definition splice_obj :: hev_socks5 where
  "splice_obj = \<lparr>s5_fd = 7, s5_timeout = 1000, s5_udp_associated = 0, s5_type = HEV_SOCKS5_TYPE_TCP, s5_addr_family = AF_UNSPEC\<rparr>"

theorem splice_keeps_bytes_witness:
  "\<exists>ended a' b' w' held. hev_task_io_splice_pipe 4 (\<lambda>_ _. 0) (replicate 9 ()) io_err io_b splice_sys = Some (ended, a', b', w')
    \<and> sp_sent a' @ held @ rx_bytes (sp_rx a') = [1, 2, 3]"
proof -
  have "\<not> sp_shut io_err" "\<not> sp_shut io_b" "sp_sent io_err @ rx_bytes (sp_rx io_err) = [1, 2, 3]" by (simp_all add: io_err_def io_b_def)
  with splice_keeps_bytes [of 4 io_err io_b "\<lambda>_ _. 0" "replicate 9 ()" splice_sys] show ?thesis by simp metis
qed

theorem tcp_splicer_delivers_witness:
  "\<exists>a' b' w'. hev_socks5_tcp_splicer 2 (replicate 20 id) splice_obj 8 io_a io_b splice_sys = Some (Some 0, a', b', w')
    \<and> sp_sent a' = [1, 2, 3, 4] \<and> sp_shut a' \<and> sp_sent b' = [9] \<and> sp_shut b'"
proof -
  have h: "sysres splice_sys = []" "0 \<le> s5_fd splice_obj" "s5_timeout splice_obj = 1000" "no_errors io_a" "no_errors io_b"
    "work (io_a, []) = 13" "work (io_b, []) = 0" "\<not> sp_shut io_a" "\<not> sp_shut io_b"
    "sp_sent io_a @ rx_bytes (sp_rx io_a) = [1, 2, 3, 4]" "sp_sent io_b @ rx_bytes (sp_rx io_b) = [9]"
    by (simp_all add: splice_sys_def splice_obj_def io_a_def io_b_def no_errors_def work_def)
  from tcp_splicer_delivers [of splice_obj 2 splice_sys io_a io_b "replicate 20 id" 8] h show ?thesis by simp metis
qed

theorem splice_variants_agree_witness:
  "\<exists>a' b' w'. hev_task_io_splice_pipe 2 (\<lambda>_ _. 0) (replicate 20 ()) io_a io_b splice_sys = Some (True, a', b', w')
    \<and> hev_task_io_splice_buffer (Some [0, 0]) (Some [0, 0]) (\<lambda>_ _. 0) (replicate 20 ()) io_a io_b = Some (True, a', b', [])"
proof -
  have ok: "pipe_ok 2 (pipe_of 2 d)" "pipe_abs (pipe_of 2 d) = (d, [])" for d by (simp_all add: pipe_of_ok)
  have h: "no_errors io_a" "no_errors io_b" "work (io_a, []) = 13" "work (io_b, []) = 0" "sysres splice_sys = []"
    by (simp_all add: io_a_def io_b_def no_errors_def work_def splice_sys_def)
  have "\<exists>f g. splice_loop pipe_splice (\<lambda>_ _. 0) (replicate 20 ()) 1 1 (pipe_of 2 io_a, pipe_of 2 io_b) = Some (True, f, g)"
    using pipe.loop_ends [OF ok(1) [of io_a] ok(1) [of io_b], of 1 1 "replicate 20 ()" "\<lambda>_ _. 0"] h
    by (simp add: ok(2) left_work_def) metis
  then obtain a' b' w' where r: "hev_task_io_splice_pipe 2 (\<lambda>_ _. 0) (replicate 20 ()) io_a io_b splice_sys = Some (True, a', b', w')"
    using pipe_splice_runs [OF h(5)] by metis
  have "\<exists>bufs. hev_task_io_splice_buffer (Some [0, 0]) (Some [0, 0]) (\<lambda>_ _. 0) (replicate 20 ()) io_a io_b = Some (True, a', b', bufs) \<and> length bufs = 0"
    using splice_variants_agree [of 2 splice_sys "[0, 0]" "[0, 0]", OF _ _ h(5) _ _ r] by simp
  with r show ?thesis by auto
qed

end
