(* ===== verification/Cached_Tree.thy ===== *)
theory Cached_Tree
  imports RBTree_Iter RBTree_Search
begin

text \<open>
  The red-black tree that keeps its first node at hand (\<open>hev-rbtree-cached.c\<close> of the task system) and the loop with which both the run queue
  and the timer put a node into such a tree. The tree beneath is the one of \<open>RBTree\<close>: the task system has the same source file.
  What the two users rely on is stated once, in the locale \<open>cached_queue\<close>, for any order of the keys in which nodes with equal keys keep the
  order of their arrival.
\<close>

section \<open>The operations\<close>

record hev_rbtree_cached =
  ct_base :: hev_rbtree
  ct_leftmost :: ptr

definition hev_rbtree_cached_first :: "hev_rbtree_cached \<Rightarrow> ptr" where
  "hev_rbtree_cached_first self = ct_leftmost self"

definition hev_rbtree_cached_insert_color :: "hev_rbtree_cached \<Rightarrow> ptr \<Rightarrow> bool \<Rightarrow> hev_rbtree_cached option" where
  "hev_rbtree_cached_insert_color self node leftmost =
     (let self = (if leftmost then self\<lparr>ct_leftmost := node\<rparr> else self) in
      do { s \<leftarrow> hev_rbtree_insert_color (ct_base self) node; Some (self\<lparr>ct_base := s\<rparr>) })"

definition hev_rbtree_cached_replace :: "hev_rbtree_cached \<Rightarrow> ptr \<Rightarrow> ptr \<Rightarrow> hev_rbtree_cached option" where
  "hev_rbtree_cached_replace self victim new = do {
     s \<leftarrow> hev_rbtree_replace (ct_base self) victim new;
     let self = self\<lparr>ct_base := s\<rparr>;
     Some (if ct_leftmost self = victim then self\<lparr>ct_leftmost := new\<rparr> else self) }"

definition hev_rbtree_cached_erase :: "hev_rbtree_cached \<Rightarrow> ptr \<Rightarrow> hev_rbtree_cached option" where
  "hev_rbtree_cached_erase self node = do {
     self \<leftarrow> (if node = ct_leftmost self
              then do { p \<leftarrow> hev_rbtree_node_next (ct_base self) node; Some (self\<lparr>ct_leftmost := p\<rparr>) }
              else Some self);
     s \<leftarrow> hev_rbtree_erase (ct_base self) node;
     Some (self\<lparr>ct_base := s\<rparr>) }"

text \<open>
  The loop of \<open>_hev_task_system_insert_task\<close> and \<open>hev_task_timer_wait\<close>: left when the new node is below the node at the cursor,
  right otherwise, in which case it is not the first one.
\<close>

partial_function (option) cached_descend ::
  "(ptr \<Rightarrow> bool option) \<Rightarrow> hev_rbtree \<Rightarrow> link \<Rightarrow> ptr \<Rightarrow> bool \<Rightarrow> (link \<times> ptr \<times> bool) option" where
  "cached_descend below s new parent leftmost = do {
     p \<leftarrow> load_link s new;
     if p = NULL then Some (new, parent, leftmost)
     else do {
       b \<leftarrow> below p;
       if b then cached_descend below s (LinkLeft p) p leftmost
       else cached_descend below s (LinkRight p) p False } }"

text \<open>The loop from the root, the link and the rebalancing.\<close>

definition cached_add :: "(ptr \<Rightarrow> bool option) \<Rightarrow> hev_rbtree_cached \<Rightarrow> ptr \<Rightarrow> (bool \<times> hev_rbtree_cached) option" where
  "cached_add below tree node = do {
     (new, parent, leftmost) \<leftarrow> cached_descend below (ct_base tree) LinkRoot NULL True;
     s \<leftarrow> hev_rbtree_node_link (ct_base tree) node parent new;
     tree \<leftarrow> hev_rbtree_cached_insert_color (tree\<lparr>ct_base := s\<rparr>) node leftmost;
     Some (leftmost, tree) }"

section \<open>Erasing frees no memory\<close>

text \<open>The node that was erased is still there to be inserted once more.\<close>

definition allocated :: "hev_rbtree \<Rightarrow> ptr set" where
  "allocated s = dom (nodes s)"

named_theorems keeps_memory \<open>operations that allocate and free nothing\<close>

lemma st_memory [keeps_memory]: "st s p f = Some s' \<Longrightarrow> allocated s' = allocated s"
  by (auto simp: st_def allocated_def dom_def split: option.splits if_splits)

lemma field_memory [keeps_memory]:
  "set_left s p q = Some s' \<Longrightarrow> allocated s' = allocated s"
  "set_right s p q = Some s' \<Longrightarrow> allocated s' = allocated s"
  "set_pc s p q = Some s' \<Longrightarrow> allocated s' = allocated s"
  by (auto simp: set_left_def set_right_def set_pc_def dest: st_memory)

lemma colour_memory [keeps_memory]:
  "hev_rbtree_node_set_black s p = Some s' \<Longrightarrow> allocated s' = allocated s"
  "hev_rbtree_node_set_parent s p q = Some s' \<Longrightarrow> allocated s' = allocated s"
  "hev_rbtree_node_set_parent_color s p q c = Some s' \<Longrightarrow> allocated s' = allocated s"
  by (auto simp: hev_rbtree_node_set_black_def hev_rbtree_node_set_parent_def hev_rbtree_node_set_parent_color_def
    bind_eq_Some_conv dest: keeps_memory)

lemma change_child_memory [keeps_memory]: "hev_rbtree_change_child s p q r = Some s' \<Longrightarrow> allocated s' = allocated s"
proof -
  have "allocated (s\<lparr>root := q\<rparr>) = allocated s" by (simp add: allocated_def)
  then show "hev_rbtree_change_child s p q r = Some s' \<Longrightarrow> allocated s' = allocated s"
    by (auto simp: hev_rbtree_change_child_def bind_eq_Some_conv split: if_splits dest: keeps_memory)
qed

lemma rotate_memory [keeps_memory]: "hev_rbtree_rotate_set_parents s p q c = Some s' \<Longrightarrow> allocated s' = allocated s"
  by (auto simp: hev_rbtree_rotate_set_parents_def bind_eq_Some_conv dest!: keeps_memory)

lemma erase_unlink_memory [keeps_memory]: "erase_unlink s p = Some (s', q) \<Longrightarrow> allocated s' = allocated s"
  by (auto simp: erase_unlink_def erase_splice_def erase_transplant_def bind_eq_Some_conv Let_def split: if_splits dest!: keeps_memory)

lemma erase_rotate_memory [keeps_memory]:
  "erase_rotate_left s p q r = Some s' \<Longrightarrow> allocated s' = allocated s"
  "erase_rotate_right s p q r = Some s' \<Longrightarrow> allocated s' = allocated s"
  by (auto simp: erase_rotate_left_def erase_rotate_right_def when_ptr_def bind_eq_Some_conv split: if_splits dest!: keeps_memory)

lemma erase_sibling_memory [keeps_memory]:
  "erase_sibling_left s p = Some (s', q) \<Longrightarrow> allocated s' = allocated s"
  "erase_sibling_right s p = Some (s', q) \<Longrightarrow> allocated s' = allocated s"
  by (auto simp: erase_sibling_left_def erase_sibling_right_def bind_eq_Some_conv split: if_splits dest!: keeps_memory)

lemma erase_black_memory [keeps_memory]:
  "erase_black_left s p q = Some (s', r) \<Longrightarrow> allocated s' = allocated s"
  "erase_black_right s p q = Some (s', r) \<Longrightarrow> allocated s' = allocated s"
  by (auto simp: erase_black_left_def erase_black_right_def erase_flip_def when_ptr_def bind_eq_Some_conv split: if_splits dest!: keeps_memory)

lemma erase_step_memory [keeps_memory]:
  "erase_step_left s p = Some (s', r) \<Longrightarrow> allocated s' = allocated s"
  "erase_step_right s p = Some (s', r) \<Longrightarrow> allocated s' = allocated s"
  by (auto simp: erase_step_left_def erase_step_right_def bind_eq_Some_conv dest!: keeps_memory)

lemma erase_color_memory [keeps_memory]:
  assumes "erase_color_loop s p q = Some s'"
  shows "allocated s' = allocated s"
proof (rule erase_color_loop.raw_induct [where P = "\<lambda>s p q s'. allocated s' = allocated s", OF _ assms])
  fix loop s p q s'
  assume IH: "\<And>s p q s'. loop s p q = Some s' \<Longrightarrow> allocated s' = allocated s"
    and "get_right s q \<bind> (\<lambda>sibling. (if p \<noteq> sibling then erase_step_left s q else erase_step_right s q) \<bind>
      (\<lambda>(s, parent'). if parent' \<noteq> NULL then loop s q parent' else Some s)) = Some s'"
  then obtain s1 q' sib where "(if p \<noteq> sib then erase_step_left s q else erase_step_right s q) = Some (s1, q')"
    and s': "(if q' \<noteq> NULL then loop s1 q q' else Some s1) = Some s'"
    by (auto simp only: bind_eq_Some_conv split_paired_all prod.case)
  then have "allocated s1 = allocated s" using erase_step_memory by (metis (full_types))
  with s' IH show "allocated s' = allocated s" by (auto split: if_splits)
qed

lemma erase_memory: "hev_rbtree_erase s p = Some s' \<Longrightarrow> allocated s' = allocated s"
  by (auto simp: hev_rbtree_erase_def bind_eq_Some_conv split: if_splits dest!: keeps_memory)

section \<open>What they do to the sequence of the nodes\<close>

text \<open>The memory holds a red-black tree with the nodes \<open>xs\<close> in this order, and the first of them is at hand.\<close>

definition holds_queue :: "hev_rbtree_cached \<Rightarrow> ptr list \<Rightarrow> bool" where
  "holds_queue c xs \<longleftrightarrow> (\<exists>t. rep (ct_base c) t \<and> rbt_ok t \<and> inorder t = xs) \<and> ct_leftmost c = hd (xs @ [NULL])"

lemma holds_queue_node:
  "holds_queue c xs \<Longrightarrow> a \<in> set xs \<Longrightarrow> nodes (ct_base c) a \<noteq> None \<and> aligned a \<and> a \<noteq> NULL"
  unfolding holds_queue_def rep_def using tree_at_alloc by blast

lemma holds_queue_distinct: "holds_queue c xs \<Longrightarrow> distinct xs"
  by (auto simp: holds_queue_def rep_def)

lemma holds_queue_first: "holds_queue c xs \<Longrightarrow> hev_rbtree_cached_first c = hd (xs @ [NULL])"
  by (simp add: holds_queue_def hev_rbtree_cached_first_def)

lemma holds_queue_first_null: "holds_queue c xs \<Longrightarrow> ct_leftmost c = NULL \<longleftrightarrow> xs = []"
  using holds_queue_node [of c xs "hd xs"] by (cases xs) (auto simp: holds_queue_def)

lemma holds_queue_empty: "holds_queue \<lparr>ct_base = \<lparr>nodes = h, root = NULL\<rparr>, ct_leftmost = NULL\<rparr> []"
  by (auto simp: holds_queue_def rep_def rbt_ok_def intro!: exI [of _ Lf])

text \<open>Memory that no node of the queue occupies may change.\<close>

lemma holds_queue_frame:
  assumes "holds_queue c xs" "ct_leftmost c' = ct_leftmost c" "root (ct_base c') = root (ct_base c)"
    and "\<And>a. a \<in> set xs \<Longrightarrow> nodes (ct_base c') a = nodes (ct_base c) a"
  shows "holds_queue c' xs"
proof -
  obtain t where t: "rep (ct_base c) t" "rbt_ok t" "inorder t = xs" using assms(1) by (auto simp: holds_queue_def)
  then have "rep (ct_base c') t"
    using assms(3,4) tree_at_same [of "nodes (ct_base c)" NULL t "nodes (ct_base c')"] by (auto simp: rep_def)
  with t assms(1,2) show ?thesis by (auto simp: holds_queue_def)
qed

lemma cached_descend_focus:
  assumes "focus s t k" "inorder t = as @ bs"
    and "\<And>a. a \<in> set as \<Longrightarrow> below a = Some False" "\<And>b. b \<in> set bs \<Longrightarrow> below b = Some True"
  shows "\<exists>k'. plug t k = plug Lf k' \<and> before k' = before k @ as \<and> after k' = bs @ after k
    \<and> cached_descend below s (link_of k) (parent_of k) f = Some (link_of k', parent_of k', f \<and> as = [])"
  using assms
proof (induction t arbitrary: k as bs f)
  case Lf
  have "cached_descend below s (link_of k) (parent_of k) f = Some (link_of k, parent_of k, f)"
    using load_link_focus [OF Lf(1)] by (subst cached_descend.simps) simp
  with Lf(2) show ?case by auto
next
  case (Nd l pc n r)
  have n: "n \<noteq> NULL" "load_link s (link_of k) = Some n"
    using Nd(3) load_link_focus [OF Nd(3)] by (auto simp: focus_def)
  consider bs' where "inorder l = as @ bs'" "bs = bs' @ n # inorder r" | as' where "as = inorder l @ n # as'" "inorder r = as' @ bs"
    using Nd(4) by (auto simp: append_eq_append_conv2 append_eq_Cons_conv Cons_eq_append_conv)
  then show ?case
  proof cases
    case 1
    then have "cached_descend below s (link_of k) (parent_of k) f = cached_descend below s (link_of (FL pc n r # k)) n f"
      using n Nd(6) by (subst cached_descend.simps) simp
    then show ?thesis
      using Nd(1) [of "FL pc n r # k" as bs' f] 1 Nd(3,5,6) focus_up [of s l "FL pc n r" k] by simp
  next
    case 2
    then have "cached_descend below s (link_of k) (parent_of k) f = cached_descend below s (link_of (FR l pc n # k)) n False"
      using n Nd(5) by (subst cached_descend.simps) simp
    then show ?thesis
      using Nd(2) [of "FR l pc n # k" as' bs False] 2 Nd(3,5,6) focus_up [of s r "FR l pc n" k] by simp
  qed
qed

lemma cached_add_queue:
  assumes q: "holds_queue c (as @ bs)"
    and "\<And>a. a \<in> set as \<Longrightarrow> below a = Some False" "\<And>b. b \<in> set bs \<Longrightarrow> below b = Some True"
    and n: "nodes (ct_base c) n \<noteq> None" "aligned n" "n \<noteq> NULL" "n \<notin> set (as @ bs)"
  shows "\<exists>c'. cached_add below c n = Some (as = [], c') \<and> holds_queue c' (as @ n # bs)
    \<and> allocated (ct_base c') = allocated (ct_base c)"
proof -
  obtain t where t: "rep (ct_base c) t" "rbt_ok t" "inorder t = as @ bs" using q by (auto simp: holds_queue_def)
  have "focus (ct_base c) t []" using t(1) rep_plug [of "ct_base c" t "[]"] by simp
  then have "\<exists>k'. plug t [] = plug Lf k' \<and> before k' = before [] @ as \<and> after k' = bs @ after []
      \<and> cached_descend below (ct_base c) (link_of []) (parent_of []) True = Some (link_of k', parent_of k', True \<and> as = [])"
    using t(3) assms(2,3) by (rule cached_descend_focus)
  then obtain k where k: "t = plug Lf k" "before k = as" "after k = bs"
      "cached_descend below (ct_base c) LinkRoot NULL True = Some (link_of k, parent_of k, as = [])"
    by auto
  obtain s' t' where "rb_insert_at (ct_base c) n (parent_of k) (link_of k) = Some s'" "rep s' t'" "rbt_ok t'"
      "inorder t' = as @ n # bs" "same_outside (insert n (set (as @ bs))) (ct_base c) s'"
    using rb_insert_at_correct [of "ct_base c" k n] t k n by auto
  note ins = this
  let ?c = "c\<lparr>ct_base := s', ct_leftmost := if as = [] then n else ct_leftmost c\<rparr>"
  obtain s1 where s1: "hev_rbtree_node_link (ct_base c) n (parent_of k) (link_of k) = Some s1" "hev_rbtree_insert_color s1 n = Some s'"
    using ins(1) by (auto simp: rb_insert_at_def bind_eq_Some_conv)
  have "cached_add below c n = Some (as = [], ?c)"
    unfolding cached_add_def k(4) hev_rbtree_cached_insert_color_def using s1 by (cases "as = []") simp_all
  moreover have "holds_queue ?c (as @ n # bs)"
    using ins(2-4) q by (cases as) (auto simp: holds_queue_def)
  ultimately have c': "cached_add below c n = Some (as = [], ?c)" "holds_queue ?c (as @ n # bs)" "ct_base ?c = s'" by simp_all
  have "a \<in> allocated s' \<longleftrightarrow> a \<in> allocated (ct_base c)" for a
  proof (cases "a \<in> insert n (set (as @ bs))")
    case True
    with holds_queue_node [OF c'(2), of a] holds_queue_node [OF q, of a] n(1) c'(3) show ?thesis by (auto simp: allocated_def)
  next
    case False
    with ins(5) show ?thesis by (auto simp: same_outside_def allocated_def)
  qed
  then have "allocated (ct_base ?c) = allocated (ct_base c)" by auto
  with c'(1,2) show ?thesis by blast
qed

lemma tree_around:
  assumes "rep s t" "inorder t = xs @ n # ys"
  obtains l c r k where "t = plug (Nd l c n r) k" "xs = before k @ inorder l" "ys = inorder r @ after k"
proof -
  obtain l c r k where k: "t = plug (Nd l c n r) k" using plug_at [of n t] assms(2) by auto
  have "distinct (xs @ n # ys)" using assms by (simp add: rep_def)
  moreover have "xs @ n # ys = (before k @ inorder l) @ n # inorder r @ after k" using k assms(2) by simp
  ultimately have "xs = before k @ inorder l" "ys = inorder r @ after k"
    by (metis append_Cons_eq_iff distinct_append not_distinct_conv_prefix distinct.simps(2))+
  with k that show ?thesis by blast
qed

lemma cached_erase_queue:
  assumes q: "holds_queue c (xs @ n # ys)"
  shows "\<exists>c'. hev_rbtree_cached_erase c n = Some c' \<and> holds_queue c' (xs @ ys) \<and> allocated (ct_base c') = allocated (ct_base c)"
proof -
  obtain t where t: "rep (ct_base c) t" "rbt_ok t" "inorder t = xs @ n # ys" using q by (auto simp: holds_queue_def)
  have d: "distinct (xs @ n # ys)" using q by (rule holds_queue_distinct)
  obtain l co r k where k: "t = plug (Nd l co n r) k" "xs = before k @ inorder l" "ys = inorder r @ after k"
    using tree_around [OF t(1,3)] .
  obtain s' t' where s': "hev_rbtree_erase (ct_base c) n = Some s'" "rep s' t'" "rbt_ok t'"
      "inorder t' = before k @ inorder l @ inorder r @ after k"
    using hev_rbtree_erase_correct [of "ct_base c" l co n r k] t k by auto
  then have s'_q: "rep s' t'" "inorder t' = xs @ ys" "allocated s' = allocated (ct_base c)"
    using k erase_memory [OF s'(1)] by simp_all
  show ?thesis
  proof (cases xs)
    case Nil
    have "hev_rbtree_node_next (ct_base c) n = Some (hd (ys @ [NULL]))"
      using neighbours(1) [OF t(1), of 0] t(3) Nil by (cases ys) simp_all
    then show ?thesis
      using s' s'_q Nil q by (auto simp: hev_rbtree_cached_erase_def holds_queue_def)
  next
    case (Cons x xs')
    then have "ct_leftmost c = x" "x \<noteq> n" using q d by (auto simp: holds_queue_def)
    then show ?thesis
      using s'(1,3) s'_q Cons by (auto simp: hev_rbtree_cached_erase_def holds_queue_def)
  qed
qed

text \<open>A block takes the place of a node of the queue.\<close>

theorem cached_replace_queue:
  assumes q: "holds_queue c (xs @ n # ys)" and m: "nodes (ct_base c) m \<noteq> None" "aligned m" "m \<noteq> NULL" "m \<notin> set (xs @ n # ys)"
  shows "\<exists>c'. hev_rbtree_cached_replace c n m = Some c' \<and> holds_queue c' (xs @ m # ys)"
proof -
  obtain t where t: "rep (ct_base c) t" "rbt_ok t" "inorder t = xs @ n # ys" using q by (auto simp: holds_queue_def)
  have d: "distinct (xs @ n # ys)" using q by (rule holds_queue_distinct)
  obtain l co r k where k: "t = plug (Nd l co n r) k" and io: "xs = before k @ inorder l" "ys = inorder r @ after k"
    using tree_around [OF t(1,3)] .
  obtain s' where s': "hev_rbtree_replace (ct_base c) n m = Some s'" "rep s' (plug (Nd l co m r) k)"
    using hev_rbtree_replace_correct [of "ct_base c" l co n r k m] t k io m by auto
  have "rbt_ok (plug (Nd l co m r) k)" using t(2) unfolding k rbt_ok_plug by simp
  with s' io have "\<exists>t. rep s' t \<and> rbt_ok t \<and> inorder t = xs @ m # ys" by (intro exI [of _ "plug (Nd l co m r) k"]) simp
  moreover have "hd (xs @ n # ys @ [NULL]) = n \<longleftrightarrow> xs = []" using d by (cases xs) auto
  ultimately show ?thesis
    using s'(1) q by (cases xs) (auto simp: hev_rbtree_cached_replace_def holds_queue_def Let_def)
qed

section \<open>Queues ordered by a key\<close>

text \<open>
  A strict order of the keys, with ties. A new node goes behind all nodes whose key is not above its own, so the nodes with equal keys
  leave the queue in the order in which they came.
\<close>

definition enqueue :: "('k \<Rightarrow> 'k \<Rightarrow> bool) \<Rightarrow> (ptr \<Rightarrow> 'k) \<Rightarrow> ptr \<Rightarrow> ptr list \<Rightarrow> ptr list" where
  "enqueue lt key n xs =
     takeWhile (\<lambda>a. \<not> lt (key n) (key a)) xs @ n # dropWhile (\<lambda>a. \<not> lt (key n) (key a)) xs"

definition in_order :: "('k \<Rightarrow> 'k \<Rightarrow> bool) \<Rightarrow> (ptr \<Rightarrow> 'k) \<Rightarrow> ptr list \<Rightarrow> bool" where
  "in_order lt key xs \<longleftrightarrow> sorted_wrt (\<lambda>x y. \<not> lt (key y) (key x)) xs"

lemma set_enqueue [simp]: "set (enqueue lt key n xs) = insert n (set xs)"
proof -
  have "set xs = set (takeWhile P xs) \<union> set (dropWhile P xs)" for P by (metis set_append takeWhile_dropWhile_id)
  then show ?thesis by (auto simp: enqueue_def)
qed

lemma length_enqueue [simp]: "length (enqueue lt key n xs) = Suc (length xs)"
proof -
  have "length xs = length (takeWhile P xs) + length (dropWhile P xs)" for P by (metis length_append takeWhile_dropWhile_id)
  then show ?thesis by (simp add: enqueue_def)
qed

lemma in_order_cong: "(\<And>a. a \<in> set xs \<Longrightarrow> key a = key' a) \<Longrightarrow> in_order lt key xs = in_order lt key' xs"
  by (induction xs) (auto simp: in_order_def)

lemma in_order_without: "in_order lt key (xs @ n # ys) \<Longrightarrow> in_order lt key (xs @ ys)"
  by (auto simp: in_order_def sorted_wrt_append)

locale cached_queue =
  fixes lt :: "'k \<Rightarrow> 'k \<Rightarrow> bool"
  assumes asym: "lt a b \<Longrightarrow> \<not> lt b a"
    and negtrans: "\<not> lt b a \<Longrightarrow> \<not> lt c b \<Longrightarrow> \<not> lt c a"
begin

lemma above:
  assumes "in_order lt key xs" "b \<in> set (dropWhile (\<lambda>a. \<not> lt k (key a)) xs)"
  shows "lt k (key b)"
  using assms
proof (induction xs)
  case (Cons x xs)
  show ?case
  proof (cases "lt k (key x)")
    case True
    have "\<not> lt (key b) (key x)" using Cons(2,3) True asym [of "key x" "key x"] by (auto simp: in_order_def)
    with True show ?thesis using negtrans by blast
  next
    case False
    with Cons show ?thesis by (simp add: in_order_def)
  qed
qed simp

lemma enqueue_split:
  assumes "in_order lt key xs"
  obtains as bs where "xs = as @ bs" "enqueue lt key n xs = as @ n # bs"
    "\<And>a. a \<in> set as \<Longrightarrow> \<not> lt (key n) (key a)" "\<And>b. b \<in> set bs \<Longrightarrow> lt (key n) (key b)"
proof (rule that)
  let ?P = "\<lambda>a. \<not> lt (key n) (key a)"
  show "xs = takeWhile ?P xs @ dropWhile ?P xs" by simp
  show "enqueue lt key n xs = takeWhile ?P xs @ n # dropWhile ?P xs" by (simp add: enqueue_def)
  show "?P a" if "a \<in> set (takeWhile ?P xs)" for a using set_takeWhileD [OF that] by blast
  show "lt (key n) (key b)" if "b \<in> set (dropWhile ?P xs)" for b using above [OF assms that] .
qed

lemma enqueue_in_order:
  assumes "in_order lt key xs"
  shows "in_order lt key (enqueue lt key n xs)"
proof -
  obtain as bs where s: "xs = as @ bs" "enqueue lt key n xs = as @ n # bs"
      "\<And>a. a \<in> set as \<Longrightarrow> \<not> lt (key n) (key a)" "\<And>b. b \<in> set bs \<Longrightarrow> lt (key n) (key b)"
    using enqueue_split [OF assms, of n] by blast
  have "in_order lt key (as @ bs)" using assms s(1) by simp
  then show ?thesis
    unfolding s(2) using s(3) asym [OF s(4)] by (auto simp: in_order_def sorted_wrt_append)
qed

lemma first_minimal: "in_order lt key (x # xs) \<Longrightarrow> y \<in> set (x # xs) \<Longrightarrow> \<not> lt (key y) (key x)"
  using asym [of "key x" "key x"] by (auto simp: in_order_def)

lemma add_correct:
  assumes "holds_queue c xs" "in_order lt key xs" "\<And>a. a \<in> set xs \<Longrightarrow> below a = Some (lt (key n) (key a))"
    and "nodes (ct_base c) n \<noteq> None" "aligned n" "n \<noteq> NULL" "n \<notin> set xs"
  shows "\<exists>c'. cached_add below c n = Some (hd (enqueue lt key n xs) = n, c') \<and> holds_queue c' (enqueue lt key n xs)
    \<and> in_order lt key (enqueue lt key n xs) \<and> allocated (ct_base c') = allocated (ct_base c)"
proof -
  obtain as bs where s: "xs = as @ bs" "enqueue lt key n xs = as @ n # bs"
      "\<And>a. a \<in> set as \<Longrightarrow> \<not> lt (key n) (key a)" "\<And>b. b \<in> set bs \<Longrightarrow> lt (key n) (key b)"
    using enqueue_split [OF assms(2), of n] by blast
  have "hd (as @ n # bs) = n \<longleftrightarrow> as = []" using assms(7) s(1) by (cases as) auto
  moreover have "\<exists>c'. cached_add below c n = Some (as = [], c') \<and> holds_queue c' (as @ n # bs)
      \<and> allocated (ct_base c') = allocated (ct_base c)"
    using assms(1,3-7) s(3,4) unfolding s(1) by (intro cached_add_queue) auto
  ultimately show ?thesis
    using enqueue_in_order [OF assms(2), of n] unfolding s(2) by (auto simp: s(1))
qed

end

end
