(* ===== verification/Task_Timer.thy ===== *)
theory Task_Timer
  imports Cached_Tree
begin

text \<open>
  The clock arithmetic and the order of the timer of the task system (\<open>hev-task-timer.c\<close>): when a sleep ends, how long the system may
  wait for it, and how sleepers are compared. The queue of the sleepers is part of the task system (\<open>Task_Scheduler\<close>). Seconds and nanoseconds
  are signed 64-bit in the code and integers here; the two unsigned 32-bit quantities, the time to sleep and the time left, are words.
\<close>

section \<open>Times\<close>

record timespec =
  tv_sec :: int
  tv_nsec :: int

definition hev_task_timer_cmp :: "timespec \<Rightarrow> timespec \<Rightarrow> int" where
  "hev_task_timer_cmp a b =
     (if tv_sec a < tv_sec b then -1
      else if tv_sec a > tv_sec b then 1
      else if tv_nsec a < tv_nsec b then -1
      else if tv_nsec a > tv_nsec b then 1
      else 0)"

text \<open>A node is its address and the time at which it expires.\<close>

definition hev_task_timer_node_cmp :: "timespec \<times> ptr \<Rightarrow> timespec \<times> ptr \<Rightarrow> int" where
  "hev_task_timer_node_cmp a b =
     (let res = hev_task_timer_cmp (fst a) (fst b) in
      if res \<noteq> 0 then res
      else if snd a < snd b then -1
      else if snd a > snd b then 1
      else 0)"

definition hev_task_timer_get_expire :: "timespec \<Rightarrow> u32 \<Rightarrow> timespec" where
  "hev_task_timer_get_expire expire milliseconds =
     (let expire = expire\<lparr>tv_sec := tv_sec expire + uint (milliseconds div 1000),
                          tv_nsec := tv_nsec expire + uint ((milliseconds mod 1000) * 1000000)\<rparr> in
      if tv_nsec expire > 1000000000
      then expire\<lparr>tv_sec := tv_sec expire + 1, tv_nsec := tv_nsec expire - 1000000000\<rparr>
      else expire)"

definition hev_task_timer_get_time :: "timespec \<Rightarrow> timespec \<Rightarrow> u32" where
  "hev_task_timer_get_time now expire =
     (let sec = tv_sec expire - tv_sec now;
          nsec = tv_nsec expire - tv_nsec now;
          (sec, nsec) = (if nsec < 0 then (sec - 1, nsec + 1000000000) else (sec, nsec)) in
      if sec < 0 then 0 else word_of_int (sec * 1000 + (nsec + 999999) div 1000000))"

section \<open>What they mean\<close>

text \<open>The nanoseconds of a time; a reading of the clock has less than a second of them in its second field.\<close>

definition nanoseconds :: "timespec \<Rightarrow> int" where
  "nanoseconds t = tv_sec t * 1000000000 + tv_nsec t"

definition clock_reading :: "timespec \<Rightarrow> bool" where
  "clock_reading t \<longleftrightarrow> 0 \<le> tv_nsec t \<and> tv_nsec t < 1000000000"

text \<open>
  The end of a sleep may have a full second in the second field, because the carry is taken only beyond it.
\<close>

definition expiry :: "timespec \<Rightarrow> bool" where
  "expiry t \<longleftrightarrow> 0 \<le> tv_nsec t \<and> tv_nsec t \<le> 1000000000"

lemma clock_reading_expiry: "clock_reading t \<Longrightarrow> expiry t"
  by (simp add: clock_reading_def expiry_def)

lemma uint_millis: "uint ((m mod 1000) * 1000000 :: u32) = uint m mod 1000 * 1000000" "uint (m div 1000 :: u32) = uint m div 1000"
proof -
  have "uint m mod 1000 < 1000" by simp
  then have "uint m mod 1000 * 1000000 < 2 ^ 32" by simp
  then show "uint ((m mod 1000) * 1000000 :: u32) = uint m mod 1000 * 1000000"
    by (simp add: uint_word_arith_bintrs uint_mod_distrib take_bit_int_eq_self)
  show "uint (m div 1000 :: u32) = uint m div 1000" by (simp add: uint_div_distrib)
qed

lemma get_expire_meaning:
  assumes "clock_reading t"
  shows "nanoseconds (hev_task_timer_get_expire t m) = nanoseconds t + uint m * 1000000"
    "expiry (hev_task_timer_get_expire t m)"
proof -
  have "uint m mod 1000 * 1000000 + uint m div 1000 * 1000000000 = (uint m div 1000 * 1000 + uint m mod 1000) * 1000000"
    by (simp only: algebra_simps)
  then have "uint m mod 1000 * 1000000 + uint m div 1000 * 1000000000 = uint m * 1000000" by simp
  then show "nanoseconds (hev_task_timer_get_expire t m) = nanoseconds t + uint m * 1000000"
    by (simp add: hev_task_timer_get_expire_def nanoseconds_def uint_millis Let_def algebra_simps)
  have "0 \<le> uint m mod 1000" "uint m mod 1000 < 1000" by simp_all
  then show "expiry (hev_task_timer_get_expire t m)"
    using assms unfolding expiry_def clock_reading_def hev_task_timer_get_expire_def Let_def uint_millis by auto
qed

text \<open>A clock reading is before the end of a sleep when it is so in time, the full second included.\<close>

lemma timer_cmp_meaning:
  "clock_reading c \<Longrightarrow> expiry e \<Longrightarrow> hev_task_timer_cmp c e < 0 \<longleftrightarrow> nanoseconds c < nanoseconds e"
  unfolding hev_task_timer_cmp_def nanoseconds_def clock_reading_def expiry_def by auto

lemma timer_cmp_le: "expiry a \<Longrightarrow> expiry b \<Longrightarrow> hev_task_timer_cmp a b \<le> 0 \<Longrightarrow> nanoseconds a \<le> nanoseconds b"
  unfolding hev_task_timer_cmp_def nanoseconds_def expiry_def by (auto split: if_splits)

text \<open>The time left is in milliseconds, rounded up, as long as it fits 32 bits.\<close>

definition millis_left :: "timespec \<Rightarrow> timespec \<Rightarrow> int" where
  "millis_left c e = max 0 ((nanoseconds e - nanoseconds c + 999999) div 1000000)"

lemma get_time_meaning:
  assumes "clock_reading c" "expiry e"
  shows "hev_task_timer_get_time c e = word_of_int (millis_left c e)"
proof -
  obtain s n where sn: "s = tv_sec e - tv_sec c" "n = tv_nsec e - tv_nsec c" by blast
  have b: "- 1000000000 < n" "n \<le> 1000000000" using assms sn by (auto simp: clock_reading_def expiry_def)
  have d: "nanoseconds e - nanoseconds c = s * 1000000000 + n" by (simp add: nanoseconds_def sn algebra_simps)
  have shift: "(x + k * 1000 * 1000000) div 1000000 = k * 1000 + x div 1000000" for x k :: int
    by (simp add: div_mult_self1)
  have "s * 1000000000 + n + 999999 = n + 999999 + s * 1000 * 1000000" by simp
  then have m: "millis_left c e = max 0 (s * 1000 + (n + 999999) div 1000000)"
    unfolding millis_left_def d by (simp only: shift)
  have up: "s * 1000 + (n + 999999) div 1000000 = (s - 1) * 1000 + (n + 1000000000 + 999999) div 1000000"
    using shift [of "n + 999999" 1] by (simp add: algebra_simps)
  have le: "(x + 999999) div 1000000 \<le> 1000" "0 \<le> x \<Longrightarrow> 0 \<le> (x + 999999) div 1000000" if "x \<le> 1000000000" for x :: int
    using zdiv_mono1 [of "x + 999999" "1000999999" 1000000] that by simp_all
  show ?thesis
  proof (cases "n < 0")
    case True
    then have "millis_left c e = (if s - 1 < 0 then 0 else (s - 1) * 1000 + (n + 1000000000 + 999999) div 1000000)"
      using le [of "n + 1000000000"] b unfolding m up by (simp add: max_def)
    with True show ?thesis
      unfolding hev_task_timer_get_time_def sn [symmetric] Let_def by (simp only: if_True prod.case if_distrib [where f = word_of_int] of_int_0)
  next
    case False
    then have "millis_left c e = (if s < 0 then 0 else s * 1000 + (n + 999999) div 1000000)"
      using le [of n] b unfolding m by (simp add: max_def)
    with False show ?thesis
      unfolding hev_task_timer_get_time_def sn [symmetric] Let_def by (simp only: if_False prod.case if_distrib [where f = word_of_int] of_int_0)
  qed
qed

lemma millis_left_zero: "millis_left c e = 0 \<longleftrightarrow> nanoseconds e \<le> nanoseconds c"
  using pos_imp_zdiv_pos_iff [of 1000000 "nanoseconds e - nanoseconds c + 999999"] unfolding millis_left_def by (auto simp: max_def)

section \<open>Sleeping\<close>

text \<open>
  C28. A sleep. The time left when it begins is the time asked for; as the clock goes on it is the time that remains, rounded up to
  milliseconds, and it is 0 exactly when the timer regards the sleep as over, so that a sleeper is never sent back to sleep for no time and never
  released early.
\<close>

theorem sleep_time_left:
  assumes "clock_reading t" "clock_reading c" "nanoseconds t \<le> nanoseconds c"
  shows "hev_task_timer_get_time t (hev_task_timer_get_expire t m) = m
    \<and> uint (hev_task_timer_get_time c (hev_task_timer_get_expire t m)) = millis_left c (hev_task_timer_get_expire t m)
    \<and> hev_task_timer_get_time c (hev_task_timer_get_expire t m) \<le> m
    \<and> (hev_task_timer_get_time c (hev_task_timer_get_expire t m) = 0
       \<longleftrightarrow> \<not> hev_task_timer_cmp c (hev_task_timer_get_expire t m) < 0)"
proof -
  let ?e = "hev_task_timer_get_expire t m"
  note e = get_expire_meaning [OF assms(1), of m]
  have "millis_left t ?e = uint m" by (simp add: millis_left_def e(1))
  then have 1: "hev_task_timer_get_time t ?e = m" by (simp add: get_time_meaning [OF assms(1) e(2)])
  have le: "millis_left c ?e \<le> uint m"
    using assms(3) \<open>millis_left t ?e = uint m\<close> unfolding millis_left_def by (smt (verit) zdiv_mono1)
  moreover have "0 \<le> millis_left c ?e" by (simp add: millis_left_def)
  ultimately have 2: "uint (hev_task_timer_get_time c ?e) = millis_left c ?e"
    using uint_lt2p [of m] by (simp add: get_time_meaning [OF assms(2) e(2)] uint_word_of_int)
  have "hev_task_timer_get_time c ?e = 0 \<longleftrightarrow> millis_left c ?e = 0" using 2 by (metis uint_0_iff)
  with 1 2 le show ?thesis
    using timer_cmp_meaning [OF assms(2) e(2)] by (auto simp: millis_left_zero word_le_def)
qed

theorem sleep_time_left_witness:
  "uint (hev_task_timer_get_time \<lparr>tv_sec = 8, tv_nsec = 5\<rparr> (hev_task_timer_get_expire \<lparr>tv_sec = 7, tv_nsec = 0\<rparr> 3000)) = 2000"
  using sleep_time_left [of "\<lparr>tv_sec = 7, tv_nsec = 0\<rparr>" "\<lparr>tv_sec = 8, tv_nsec = 5\<rparr>" 3000]
    get_expire_meaning(1) [of "\<lparr>tv_sec = 7, tv_nsec = 0\<rparr>" 3000]
  by (simp add: clock_reading_def millis_left_def nanoseconds_def)

section \<open>The order of the sleepers\<close>

definition sooner :: "timespec \<times> ptr \<Rightarrow> timespec \<times> ptr \<Rightarrow> bool" where
  "sooner a b \<longleftrightarrow> hev_task_timer_node_cmp a b < 0"

interpretation by_expiry: cached_queue sooner
  by unfold_locales (auto simp: sooner_def hev_task_timer_node_cmp_def hev_task_timer_cmp_def Let_def split: if_splits)

text \<open>No sleeper of an ordered queue expires before the first.\<close>

lemma not_sooner_le:
  "expiry (fst a) \<Longrightarrow> expiry (fst b) \<Longrightarrow> \<not> sooner b a \<Longrightarrow> nanoseconds (fst a) \<le> nanoseconds (fst b)"
  using timer_cmp_le [of "fst a" "fst b"]
  by (auto simp: sooner_def hev_task_timer_node_cmp_def hev_task_timer_cmp_def Let_def split: if_splits)

end
