(* ===== verification/Task_Scheduler.thy ===== *)
theory Task_Scheduler
  imports Task_Timer
begin

text \<open>
  The task system (\<open>hev-task-system-schedule.c\<close>, \<open>hev-task.c\<close>, \<open>hev-task-executer.c\<close> and the queue of \<open>hev-task-timer.c\<close>), on which the tunnel and all its
  sessions run. Tasks are cooperative: what a task does between two yields is one step, and a yield is a jump into the
  kernel, which puts the task where its wish says, polls for input, and picks the next task. The state is the context
  with the heap of the tasks; the node of a task in the run queue is named by the address of the task, and the node of a sleeper, which lies
  on its stack, by an address of its own. The clock of the scheduler is configured away (\<open>CONFIG_SCHED_CLOCK\<close> is \<open>CLOCK_NONE\<close> in \<open>configs.mk\<close>), so a task
  that ran is charged one unit times its priority. An access to a task that has been freed, and \<open>abort\<close>, is \<open>None\<close>.
\<close>

section \<open>Tasks and the context\<close>

datatype task_state = HEV_TASK_STOPPED | HEV_TASK_RUNNING | HEV_TASK_WAITING

record hev_task =
  sched_key :: "64 word"
  joiner :: ptr
  ref_count :: int
  priority :: int
  next_priority :: int
  t_state :: task_state

record timer_node =
  tn_expire :: timespec
  tn_task :: ptr

record task_system =
  total_task_count :: u32
  running_task_count :: u32
  sort_tree :: hev_rbtree_cached
  timer_nodes :: "ptr \<rightharpoonup> timer_node"
  current_task :: ptr
  running_tasks :: hev_rbtree_cached
  all_tasks :: "ptr list"
  tasks :: "ptr \<rightharpoonup> hev_task"

definition set_task :: "ptr \<Rightarrow> (hev_task \<Rightarrow> hev_task) \<Rightarrow> task_system \<Rightarrow> task_system option" where
  "set_task p f ctx = do { t \<leftarrow> tasks ctx p; Some (ctx\<lparr>tasks := (tasks ctx)(p \<mapsto> f t)\<rparr>) }"

definition set_node :: "ptr \<Rightarrow> hev_rbtree_node option \<Rightarrow> hev_rbtree_cached \<Rightarrow> hev_rbtree_cached" where
  "set_node p n c = c\<lparr>ct_base := (ct_base c)\<lparr>nodes := (nodes (ct_base c))(p := n)\<rparr>\<rparr>"

abbreviation node0 :: hev_rbtree_node where
  "node0 \<equiv> \<lparr>parent_color = 0, node_right = NULL, node_left = NULL\<rparr>"

section \<open>Tasks\<close>

definition HEV_TASK_PRIORITY_MIN :: int where
  "HEV_TASK_PRIORITY_MIN = 0"

definition HEV_TASK_PRIORITY_MAX :: int where
  "HEV_TASK_PRIORITY_MAX = 15"

definition HEV_TASK_PRIORITY_DEFAULT :: int where
  "HEV_TASK_PRIORITY_DEFAULT = 8"

text \<open>\<open>hev_task_new\<close> and \<open>hev_task_unref\<close>. \<open>self\<close> is what \<open>malloc\<close> returned, \<open>stack\<close> whether there was memory for a stack.\<close>

definition task_new :: "ptr \<Rightarrow> bool \<Rightarrow> task_system \<Rightarrow> ptr \<times> task_system" where
  "task_new self stack ctx =
     (if self = NULL \<or> \<not> stack then (NULL, ctx)
      else (self, ctx\<lparr>
        tasks := (tasks ctx)(self \<mapsto> \<lparr>sched_key = 0, joiner = NULL, ref_count = 1, priority = 0,
                   next_priority = HEV_TASK_PRIORITY_DEFAULT, t_state = HEV_TASK_STOPPED\<rparr>),
        running_tasks := set_node self (Some node0) (running_tasks ctx),
        all_tasks := all_tasks ctx @ [self]\<rparr>))"

definition hev_task_ref :: "ptr \<Rightarrow> task_system \<Rightarrow> task_system option" where
  "hev_task_ref self ctx = set_task self (\<lambda>t. t\<lparr>ref_count := ref_count t + 1\<rparr>) ctx"

definition task_unref :: "ptr \<Rightarrow> task_system \<Rightarrow> task_system option" where
  "task_unref self ctx = do {
     ctx \<leftarrow> set_task self (\<lambda>t. t\<lparr>ref_count := ref_count t - 1\<rparr>) ctx;
     t \<leftarrow> tasks ctx self;
     if ref_count t \<noteq> 0 then Some ctx
     else Some (ctx\<lparr>all_tasks := remove1 self (all_tasks ctx),
                    running_tasks := set_node self None (running_tasks ctx),
                    tasks := (tasks ctx)(self := None)\<rparr>) }"

definition hev_task_self :: "task_system \<Rightarrow> ptr" where
  "hev_task_self ctx = current_task ctx"

definition hev_task_get_state :: "ptr \<Rightarrow> task_system \<Rightarrow> task_state option" where
  "hev_task_get_state self ctx = do { t \<leftarrow> tasks ctx self; Some (t_state t) }"

definition hev_task_set_priority :: "ptr \<Rightarrow> int \<Rightarrow> task_system \<Rightarrow> task_system option" where
  "hev_task_set_priority self prio ctx =
     (let prio = (if prio < HEV_TASK_PRIORITY_MIN then HEV_TASK_PRIORITY_MIN
                  else if prio > HEV_TASK_PRIORITY_MAX then HEV_TASK_PRIORITY_MAX else prio) in
      set_task self (\<lambda>t. t\<lparr>next_priority := prio\<rparr>) ctx)"

definition hev_task_get_priority :: "ptr \<Rightarrow> task_system \<Rightarrow> int option" where
  "hev_task_get_priority self ctx = do { t \<leftarrow> tasks ctx self; Some (next_priority t) }"

section \<open>The run queue\<close>

definition hev_task_system_update_sched_key :: "task_system \<Rightarrow> task_system option" where
  "hev_task_system_update_sched_key ctx =
     (let runtime = 1 in
      set_task (current_task ctx) (\<lambda>t. t\<lparr>sched_key := sched_key t + runtime * word_of_int (priority t)\<rparr>) ctx)"

definition hev_task_system_get_min_sched_key :: "task_system \<Rightarrow> 64 word option" where
  "hev_task_system_get_min_sched_key ctx =
     (let sched_node = hev_rbtree_cached_first (running_tasks ctx) in
      if sched_node \<noteq> NULL then do { t \<leftarrow> tasks ctx sched_node; Some (sched_key t) }
      else Some 0)"

text \<open>\<open>_hev_task_system_insert_task\<close>\<close>

definition sched_tree_insert :: "ptr \<Rightarrow> task_system \<Rightarrow> task_system option" where
  "sched_tree_insert p ctx = do {
     t \<leftarrow> tasks ctx p;
     (_, tree) \<leftarrow> cached_add (\<lambda>q. do { this \<leftarrow> tasks ctx q; Some (sched_key t < sched_key this) }) (running_tasks ctx) p;
     Some (ctx\<lparr>running_tasks := tree\<rparr>) }"

definition hev_task_system_insert_task :: "ptr \<Rightarrow> task_system \<Rightarrow> task_system option" where
  "hev_task_system_insert_task p ctx = do {
     ctx \<leftarrow> set_task p (\<lambda>t. t\<lparr>t_state := HEV_TASK_RUNNING, priority := next_priority t\<rparr>) ctx;
     ctx \<leftarrow> sched_tree_insert p ctx;
     Some (ctx\<lparr>running_task_count := running_task_count ctx + 1\<rparr>) }"

definition sched_tree_erase :: "ptr \<Rightarrow> task_system \<Rightarrow> task_system option" where
  "sched_tree_erase p ctx = do {
     tree \<leftarrow> hev_rbtree_cached_erase (running_tasks ctx) p;
     Some (ctx\<lparr>running_tasks := tree\<rparr>) }"

definition hev_task_system_reinsert_current_task :: "task_system \<Rightarrow> task_system option" where
  "hev_task_system_reinsert_current_task ctx = do {
     let p = current_task ctx;
     ctx \<leftarrow> set_task p (\<lambda>t. t\<lparr>priority := next_priority t\<rparr>) ctx;
     ctx \<leftarrow> sched_tree_erase p ctx;
     sched_tree_insert p ctx }"

definition hev_task_system_remove_current_task :: "task_state \<Rightarrow> task_system \<Rightarrow> task_system option" where
  "hev_task_system_remove_current_task state ctx = do {
     let p = current_task ctx;
     ctx \<leftarrow> set_task p (\<lambda>t. t\<lparr>t_state := state\<rparr>) ctx;
     ctx \<leftarrow> sched_tree_erase p ctx;
     let ctx = ctx\<lparr>running_task_count := running_task_count ctx - 1\<rparr>;
     if state = HEV_TASK_STOPPED then task_unref p (ctx\<lparr>total_task_count := total_task_count ctx - 1\<rparr>)
     else set_task p (\<lambda>t. t\<lparr>sched_key := word_of_int (next_priority t)\<rparr>) ctx }"

text \<open>\<open>None\<close> for a stopped task is the \<open>abort\<close> of the code.\<close>

definition hev_task_system_wakeup_task_with_context :: "ptr \<Rightarrow> task_system \<Rightarrow> task_system option" where
  "hev_task_system_wakeup_task_with_context p ctx = do {
     t \<leftarrow> tasks ctx p;
     if t_state t = HEV_TASK_RUNNING then Some ctx
     else if t_state t = HEV_TASK_STOPPED then None
     else do {
       m \<leftarrow> hev_task_system_get_min_sched_key ctx;
       ctx \<leftarrow> set_task p (\<lambda>t. t\<lparr>sched_key := sched_key t + m\<rparr>) ctx;
       hev_task_system_insert_task p ctx } }"

section \<open>The timer queue\<close>

text \<open>\<open>now\<close> is what the clock says; it is read only when there is a sleeper. The result of \<open>hev_task_timer_get_time\<close> is returned as an \<open>int\<close>.\<close>

definition hev_task_timer_get_timeout :: "timespec \<Rightarrow> task_system \<Rightarrow> int option" where
  "hev_task_timer_get_timeout now ctx =
     (let node = hev_rbtree_cached_first (sort_tree ctx) in
      if node = NULL then Some (-1)
      else do { this \<leftarrow> timer_nodes ctx node; Some (sint (hev_task_timer_get_time now (tn_expire this))) })"

definition hev_task_timer_wakeup :: "timespec \<Rightarrow> task_system \<Rightarrow> task_system option" where
  "hev_task_timer_wakeup now ctx =
     (let node = hev_rbtree_cached_first (sort_tree ctx) in
      if node = NULL then Some ctx
      else do {
        this \<leftarrow> timer_nodes ctx node;
        if hev_task_timer_cmp now (tn_expire this) < 0 then Some ctx
        else hev_task_system_wakeup_task_with_context (tn_task this) ctx })"

definition hev_task_timer_wake :: "timespec \<Rightarrow> task_system \<Rightarrow> task_system option" where
  "hev_task_timer_wake now ctx =
     (if hev_rbtree_cached_first (sort_tree ctx) = NULL then Some ctx else hev_task_timer_wakeup now ctx)"

text \<open>\<open>hev_task_timer_wait\<close> up to its yield; the local \<open>leftmost\<close> is part of the result. \<open>node\<close> is the address of \<open>curr_node\<close>.\<close>

definition timer_wait_begin :: "ptr \<Rightarrow> timespec \<Rightarrow> u32 \<Rightarrow> ptr \<Rightarrow> task_system \<Rightarrow> (bool \<times> task_system) option" where
  "timer_wait_begin node now milliseconds task ctx = do {
     let expire = hev_task_timer_get_expire now milliseconds;
     let ctx = ctx\<lparr>timer_nodes := (timer_nodes ctx)(node \<mapsto> \<lparr>tn_expire = expire, tn_task = task\<rparr>),
                   sort_tree := set_node node (Some node0) (sort_tree ctx)\<rparr>;
     (leftmost, tree) \<leftarrow>
       cached_add (\<lambda>q. do { this \<leftarrow> timer_nodes ctx q; Some (hev_task_timer_node_cmp (expire, node) (tn_expire this, q) < 0) })
         (sort_tree ctx) node;
     Some (leftmost, ctx\<lparr>sort_tree := tree\<rparr>) }"

text \<open>The rest of it, after the task has been resumed; on return the node is gone.\<close>

definition timer_wait_end :: "ptr \<Rightarrow> bool \<Rightarrow> timespec \<Rightarrow> task_system \<Rightarrow> (u32 \<times> task_system) option" where
  "timer_wait_end node leftmost now ctx = do {
     let leftmost = (leftmost \<or> node = hev_rbtree_cached_first (sort_tree ctx));
     this \<leftarrow> timer_nodes ctx node;
     tree \<leftarrow> hev_rbtree_cached_erase (sort_tree ctx) node;
     let ctx = ctx\<lparr>sort_tree := tree\<rparr>;
     ctx \<leftarrow> (if leftmost then hev_task_timer_wakeup now ctx else Some ctx);
     Some (hev_task_timer_get_time now (tn_expire this),
       ctx\<lparr>timer_nodes := (timer_nodes ctx)(node := None), sort_tree := set_node node None (sort_tree ctx)\<rparr>) }"

section \<open>The kernel\<close>

text \<open>
  One call of \<open>hev_task_io_reactor_wait\<close>, with what the clock said before and after it: given the time it may take, the call returns the
  tasks whose input or output is ready.
\<close>

record poll =
  p_before :: timespec
  p_wait :: "int \<Rightarrow> ptr list"
  p_after :: timespec

fun wakeup_all :: "ptr list \<Rightarrow> task_system \<Rightarrow> task_system option" where
  "wakeup_all [] ctx = Some ctx"
| "wakeup_all (p # ps) ctx = do { ctx \<leftarrow> hev_task_system_wakeup_task_with_context p ctx; wakeup_all ps ctx }"

definition hev_task_system_io_poll :: "int \<Rightarrow> poll \<Rightarrow> task_system \<Rightarrow> task_system option" where
  "hev_task_system_io_poll timeout poll ctx = do {
     timeout \<leftarrow> (if timeout < 0 then hev_task_timer_get_timeout (p_before poll) ctx else Some timeout);
     ctx \<leftarrow> wakeup_all (p_wait poll timeout) ctx;
     hev_task_timer_wake (p_after poll) ctx }"

text \<open>The loop \<open>do ... while (!ctx->running_task_count)\<close>, over the polls that are to come; \<open>None\<close> when they end first.\<close>

fun poll_until_running :: "poll list \<Rightarrow> task_system \<Rightarrow> (poll list \<times> task_system) option" where
  "poll_until_running [] ctx = None"
| "poll_until_running (poll # polls) ctx = do {
     ctx \<leftarrow> hev_task_system_io_poll (-1) poll ctx;
     if running_task_count ctx = 0 then poll_until_running polls ctx else Some (polls, ctx) }"

definition hev_task_system_pick_current_task :: "poll list \<Rightarrow> task_system \<Rightarrow> (poll list \<times> task_system) option" where
  "hev_task_system_pick_current_task polls ctx = do {
     (polls, ctx) \<leftarrow>
       (if running_task_count ctx < total_task_count ctx then
          if running_task_count ctx \<noteq> 0 then
            (case polls of [] \<Rightarrow> None | poll # polls \<Rightarrow> do { ctx \<leftarrow> hev_task_system_io_poll 0 poll ctx; Some (polls, ctx) })
          else poll_until_running polls ctx
        else Some (polls, ctx));
     Some (polls, ctx\<lparr>current_task := hev_rbtree_cached_first (running_tasks ctx)\<rparr>) }"

text \<open>With which value \<open>_setjmp\<close> returns in the kernel: the first time, or by the jump of a task.\<close>

datatype sched_jump = Sched_First | HEV_TASK_SCHED_SWITCH | HEV_TASK_SCHED_WAITIO | HEV_TASK_SCHED_REMOVE

text \<open>
  \<open>hev_task_system_schedule\<close> in the kernel, up to the jump into the task that is picked (\<open>current_task\<close>), or to the return when there is no task left (then it is NULL).
\<close>

definition hev_task_system_schedule :: "sched_jump \<Rightarrow> poll list \<Rightarrow> task_system \<Rightarrow> (poll list \<times> task_system) option" where
  "hev_task_system_schedule jump polls ctx = do {
     ctx \<leftarrow> (case jump of
         HEV_TASK_SCHED_SWITCH \<Rightarrow> do {
           ctx \<leftarrow> hev_task_system_update_sched_key ctx;
           hev_task_system_reinsert_current_task ctx }
       | HEV_TASK_SCHED_WAITIO \<Rightarrow> do {
           ctx \<leftarrow> hev_task_system_update_sched_key ctx;
           hev_task_system_remove_current_task HEV_TASK_WAITING ctx }
       | HEV_TASK_SCHED_REMOVE \<Rightarrow> hev_task_system_remove_current_task HEV_TASK_STOPPED ctx
       | Sched_First \<Rightarrow> Some ctx);
     if total_task_count ctx = 0 then Some (polls, ctx\<lparr>current_task := NULL\<rparr>)
     else hev_task_system_pick_current_task polls ctx }"

section \<open>Starting, joining and ending tasks\<close>

definition hev_task_system_run_new_task :: "ptr \<Rightarrow> task_system \<Rightarrow> task_system option" where
  "hev_task_system_run_new_task p ctx = do {
     ctx \<leftarrow> (if current_task ctx \<noteq> NULL
             then do { m \<leftarrow> hev_task_system_get_min_sched_key ctx; set_task p (\<lambda>t. t\<lparr>sched_key := sched_key t + m\<rparr>) ctx }
             else Some ctx);
     ctx \<leftarrow> hev_task_system_insert_task p ctx;
     Some (ctx\<lparr>total_task_count := total_task_count ctx + 1\<rparr>) }"

definition hev_task_run :: "ptr \<Rightarrow> task_system \<Rightarrow> task_system option" where
  "hev_task_run self ctx = do {
     t \<leftarrow> tasks ctx self;
     if t_state t \<noteq> HEV_TASK_STOPPED then Some ctx
     else do {
       ctx \<leftarrow> set_task self (\<lambda>t. t\<lparr>priority := next_priority t, sched_key := word_of_int (next_priority t)\<rparr>) ctx;
       hev_task_system_run_new_task self ctx } }"

text \<open>
  \<open>hev_task_join\<close>: the entry, which fails when the task has a joiner, and each round of the loop, which ends (\<open>True\<close>) or wakes the task and yields.
\<close>

definition join_begin :: "ptr \<Rightarrow> task_system \<Rightarrow> (int \<times> task_system) option" where
  "join_begin p ctx = do {
     t \<leftarrow> tasks ctx p;
     if joiner t \<noteq> NULL then Some (-1, ctx)
     else do { ctx \<leftarrow> set_task p (\<lambda>t. t\<lparr>joiner := hev_task_self ctx\<rparr>) ctx; Some (0, ctx) } }"

definition join_round :: "ptr \<Rightarrow> task_system \<Rightarrow> (bool \<times> task_system) option" where
  "join_round p ctx = do {
     state \<leftarrow> hev_task_get_state p ctx;
     if state = HEV_TASK_STOPPED then Some (True, ctx)
     else do { ctx \<leftarrow> hev_task_system_wakeup_task_with_context p ctx; Some (False, ctx) } }"

text \<open>\<open>hev_task_executer\<close>, once the entry function of the current task has returned, up to the jump with \<open>HEV_TASK_SCHED_REMOVE\<close>.\<close>

definition executer_end :: "task_system \<Rightarrow> task_system option" where
  "executer_end ctx = do {
     t \<leftarrow> tasks ctx (current_task ctx);
     if joiner t \<noteq> NULL then hev_task_system_wakeup_task_with_context (joiner t) ctx else Some ctx }"

text \<open>The context as \<open>hev_task_system_init\<close> makes it, with all its memory zero.\<close>

definition task_system0 :: task_system where
  "task_system0 = \<lparr>total_task_count = 0, running_task_count = 0,
     sort_tree = \<lparr>ct_base = \<lparr>nodes = Map.empty, root = NULL\<rparr>, ct_leftmost = NULL\<rparr>, timer_nodes = Map.empty,
     current_task = NULL,
     running_tasks = \<lparr>ct_base = \<lparr>nodes = Map.empty, root = NULL\<rparr>, ct_leftmost = NULL\<rparr>,
     all_tasks = [], tasks = Map.empty\<rparr>"

section \<open>What the queues hold\<close>

interpretation by_key: cached_queue "(<) :: 64 word \<Rightarrow> 64 word \<Rightarrow> bool"
  by unfold_locales auto

abbreviation key :: "task_system \<Rightarrow> ptr \<Rightarrow> 64 word" where
  "key ctx p \<equiv> sched_key (the (tasks ctx p))"

abbreviation tkey :: "task_system \<Rightarrow> ptr \<Rightarrow> timespec \<times> ptr" where
  "tkey ctx a \<equiv> (tn_expire (the (timer_nodes ctx a)), a)"

definition runnable :: "task_system \<Rightarrow> ptr set" where
  "runnable ctx = {p. \<exists>t. tasks ctx p = Some t \<and> t_state t = HEV_TASK_RUNNING}"

definition alive :: "task_system \<Rightarrow> ptr set" where
  "alive ctx = {p. \<exists>t. tasks ctx p = Some t \<and> t_state t \<noteq> HEV_TASK_STOPPED}"

text \<open>The run queue holds the tasks in the running state, the lowest key first.\<close>

definition queue_ok :: "task_system \<Rightarrow> ptr list \<Rightarrow> bool" where
  "queue_ok ctx rs \<longleftrightarrow> holds_queue (running_tasks ctx) rs \<and> in_order (<) (key ctx) rs \<and> set rs = runnable ctx
     \<and> unat (running_task_count ctx) = length rs"

text \<open>Every task has a reference, all tasks are in the list, and the total is the number of those that are not stopped.\<close>

definition task_ok :: "task_system \<Rightarrow> ptr \<Rightarrow> hev_task \<Rightarrow> bool" where
  "task_ok ctx p t \<longleftrightarrow> p \<noteq> NULL \<and> aligned p \<and> p \<in> allocated (ct_base (running_tasks ctx))
     \<and> 0 \<le> next_priority t \<and> next_priority t \<le> 15 \<and> 0 \<le> priority t \<and> priority t \<le> 15
     \<and> 1 \<le> ref_count t"

definition heap_ok :: "task_system \<Rightarrow> bool" where
  "heap_ok ctx \<longleftrightarrow> (\<forall>p t. tasks ctx p = Some t \<longrightarrow> task_ok ctx p t) \<and> distinct (all_tasks ctx) \<and> set (all_tasks ctx) = dom (tasks ctx)
     \<and> unat (total_task_count ctx) = card (alive ctx)"

text \<open>The sleepers, the one that expires first in front, are tasks that are not stopped.\<close>

definition sleepers_ok :: "task_system \<Rightarrow> ptr list \<Rightarrow> bool" where
  "sleepers_ok ctx ws \<longleftrightarrow> holds_queue (sort_tree ctx) ws \<and> in_order sooner (tkey ctx) ws \<and> set ws = dom (timer_nodes ctx)
     \<and> (\<forall>a n. timer_nodes ctx a = Some n \<longrightarrow> expiry (tn_expire n) \<and> tn_task n \<in> alive ctx)"

definition sched_inv :: "task_system \<Rightarrow> bool" where
  "sched_inv ctx \<longleftrightarrow> (\<exists>rs. queue_ok ctx rs) \<and> heap_ok ctx \<and> (\<exists>ws. sleepers_ok ctx ws)"

lemma finite_alive: "heap_ok ctx \<Longrightarrow> finite (alive ctx)"
  by (rule finite_subset [of _ "set (all_tasks ctx)"]) (auto simp: heap_ok_def alive_def)

lemma queue_bound:
  assumes "queue_ok ctx rs" "heap_ok ctx"
  shows "length rs = card (runnable ctx)" "runnable ctx \<subseteq> alive ctx" "length rs \<le> card (alive ctx)"
proof -
  show "length rs = card (runnable ctx)"
    using assms(1) holds_queue_distinct distinct_card by (metis queue_ok_def)
  moreover show "runnable ctx \<subseteq> alive ctx" by (auto simp: runnable_def alive_def)
  ultimately show "length rs \<le> card (alive ctx)" using card_mono [OF finite_alive [OF assms(2)]] by simp
qed

lemma task_of: "queue_ok ctx rs \<Longrightarrow> p \<in> set rs \<Longrightarrow> \<exists>t. tasks ctx p = Some t \<and> t_state t = HEV_TASK_RUNNING"
  by (auto simp: queue_ok_def runnable_def)

section \<open>Entering and leaving the run queue\<close>

lemma tree_insert:
  assumes q: "holds_queue (running_tasks ctx) rs" "in_order (<) (key ctx) rs" "set rs \<subseteq> dom (tasks ctx)"
    and p: "tasks ctx p = Some t" "task_ok ctx p t" "p \<notin> set rs"
  shows "\<exists>c. sched_tree_insert p ctx = Some (ctx\<lparr>running_tasks := c\<rparr>) \<and> holds_queue c (enqueue (<) (key ctx) p rs)
    \<and> in_order (<) (key ctx) (enqueue (<) (key ctx) p rs) \<and> allocated (ct_base c) = allocated (ct_base (running_tasks ctx))"
proof -
  let ?below = "\<lambda>q. do { this \<leftarrow> tasks ctx q; Some (sched_key t < sched_key this) }"
  have b: "?below a = Some (key ctx p < key ctx a)" if "a \<in> set rs" for a using q(3) p(1) that by auto
  have "\<exists>c. cached_add ?below (running_tasks ctx) p = Some (hd (enqueue (<) (key ctx) p rs) = p, c) \<and> holds_queue c (enqueue (<) (key ctx) p rs)
      \<and> in_order (<) (key ctx) (enqueue (<) (key ctx) p rs) \<and> allocated (ct_base c) = allocated (ct_base (running_tasks ctx))"
    using p by (intro by_key.add_correct q(1,2) b) (auto simp: task_ok_def allocated_def)
  then obtain c where c: "cached_add ?below (running_tasks ctx) p = Some (hd (enqueue (<) (key ctx) p rs) = p, c)"
      "holds_queue c (enqueue (<) (key ctx) p rs)" "in_order (<) (key ctx) (enqueue (<) (key ctx) p rs)"
      "allocated (ct_base c) = allocated (ct_base (running_tasks ctx))"
    by blast
  then have "sched_tree_insert p ctx = Some (ctx\<lparr>running_tasks := c\<rparr>)" by (simp add: sched_tree_insert_def p(1))
  with c show ?thesis by blast
qed

lemma tree_erase:
  assumes "holds_queue (running_tasks ctx) (xs @ p # ys)"
  shows "\<exists>c. sched_tree_erase p ctx = Some (ctx\<lparr>running_tasks := c\<rparr>) \<and> holds_queue c (xs @ ys)
    \<and> allocated (ct_base c) = allocated (ct_base (running_tasks ctx))"
  using cached_erase_queue [OF assms] by (auto simp: sched_tree_erase_def)

text \<open>The key of a task that is not in the queue may change.\<close>

lemma in_order_other:
  "in_order (<) (key ctx) rs \<Longrightarrow> p \<notin> set rs \<Longrightarrow> tasks ctx' = (tasks ctx)(p := t) \<Longrightarrow> in_order (<) (key ctx') rs"
  by (subst in_order_cong [of rs _ "key ctx"]) auto

lemma enter_queue:
  assumes q: "queue_ok ctx rs" and h: "heap_ok ctx" and p: "tasks ctx p = Some t" "t_state t \<noteq> HEV_TASK_RUNNING"
    and t': "t_state t' = HEV_TASK_RUNNING" "task_ok ctx p t'" and n: "Suc (length rs) < 2 ^ 32"
  defines "ctx' \<equiv> ctx\<lparr>tasks := (tasks ctx)(p \<mapsto> t')\<rparr>"
  shows "\<exists>c. sched_tree_insert p ctx' = Some (ctx'\<lparr>running_tasks := c\<rparr>) \<and> allocated (ct_base c) = allocated (ct_base (running_tasks ctx))
    \<and> queue_ok (ctx'\<lparr>running_tasks := c, running_task_count := running_task_count ctx + 1\<rparr>) (enqueue (<) (key ctx') p rs)"
proof -
  have new: "p \<notin> set rs" using q p by (auto simp: queue_ok_def runnable_def)
  have "in_order (<) (key ctx') rs"
    using in_order_other [of ctx rs p ctx' "Some t'"] q new by (simp add: queue_ok_def ctx'_def)
  moreover have "set rs \<subseteq> dom (tasks ctx')" using q by (auto simp: queue_ok_def runnable_def ctx'_def)
  ultimately obtain c where c: "sched_tree_insert p ctx' = Some (ctx'\<lparr>running_tasks := c\<rparr>)"
      "holds_queue c (enqueue (<) (key ctx') p rs)" "in_order (<) (key ctx') (enqueue (<) (key ctx') p rs)"
      "allocated (ct_base c) = allocated (ct_base (running_tasks ctx'))"
    using tree_insert [of ctx' rs p t'] new q t'(2) by (auto simp: queue_ok_def ctx'_def task_ok_def)
  have "runnable (ctx'\<lparr>running_tasks := c, running_task_count := running_task_count ctx + 1\<rparr>) = insert p (runnable ctx)"
    using t'(1) by (auto simp: runnable_def ctx'_def)
  moreover have "unat (running_task_count ctx + 1) = Suc (length rs)"
    using q n by (simp add: queue_ok_def unat_word_ariths)
  ultimately have "queue_ok (ctx'\<lparr>running_tasks := c, running_task_count := running_task_count ctx + 1\<rparr>) (enqueue (<) (key ctx') p rs)"
    using q c by (simp add: queue_ok_def)
  with c(1,4) show ?thesis by (auto simp: ctx'_def)
qed

text \<open>A task leaves the queue, whatever has become of its key.\<close>

lemma leave_queue:
  assumes q: "queue_ok ctx rs" and p: "p \<in> set rs" and t': "t_state t' \<noteq> HEV_TASK_RUNNING"
    and ctx': "tasks ctx' = (tasks ctx)(p \<mapsto> t')" "running_tasks ctx' = running_tasks ctx" "running_task_count ctx' = running_task_count ctx"
  shows "\<exists>c. sched_tree_erase p ctx' = Some (ctx'\<lparr>running_tasks := c\<rparr>) \<and> allocated (ct_base c) = allocated (ct_base (running_tasks ctx))
    \<and> queue_ok (ctx'\<lparr>running_tasks := c, running_task_count := running_task_count ctx - 1\<rparr>) (remove1 p rs)"
proof -
  obtain xs ys where xy: "rs = xs @ p # ys" using p split_list by metis
  have d: "distinct (xs @ p # ys)" using q xy holds_queue_distinct [of "running_tasks ctx" rs] by (simp add: queue_ok_def)
  then have r: "remove1 p rs = xs @ ys" by (simp add: xy remove1_append)
  obtain c where c: "sched_tree_erase p ctx' = Some (ctx'\<lparr>running_tasks := c\<rparr>)" "holds_queue c (xs @ ys)"
      "allocated (ct_base c) = allocated (ct_base (running_tasks ctx))"
    using tree_erase [of ctx' xs p ys] q xy ctx'(2) by (auto simp: queue_ok_def)
  have "in_order (<) (key ctx) (xs @ p # ys)" using q xy by (simp add: queue_ok_def)
  then have "in_order (<) (key ctx') (xs @ ys)"
    using in_order_other [OF in_order_without, of ctx xs p ys p ctx' "Some t'"] d ctx'(1) by simp
  moreover have "set (xs @ ys) = runnable ctx - {p}"
  proof -
    have "insert p (set (xs @ ys)) = runnable ctx" using q xy by (simp add: queue_ok_def)
    then show ?thesis using d by auto
  qed
  moreover have "unat (running_task_count ctx - 1) = length (xs @ ys)"
  proof -
    have "unat (running_task_count ctx) = Suc (length (xs @ ys))" using q xy by (simp add: queue_ok_def)
    then show ?thesis by (subst unat_minus_one) auto
  qed
  moreover have "runnable (ctx'\<lparr>running_tasks := c, running_task_count := running_task_count ctx - 1\<rparr>) = runnable ctx - {p}"
    using t' ctx'(1) by (auto simp: runnable_def)
  ultimately have "queue_ok (ctx'\<lparr>running_tasks := c, running_task_count := running_task_count ctx - 1\<rparr>) (remove1 p rs)"
    using c(2) unfolding r queue_ok_def by simp
  with c(1,3) show ?thesis by blast
qed

section \<open>Waking\<close>

text \<open>What a wake-up, or any number of them, leaves as it was.\<close>

definition only_wakes :: "task_system \<Rightarrow> task_system \<Rightarrow> bool" where
  "only_wakes ctx ctx' \<longleftrightarrow> alive ctx' = alive ctx \<and> runnable ctx \<subseteq> runnable ctx' \<and> dom (tasks ctx') = dom (tasks ctx)
     \<and> current_task ctx' = current_task ctx \<and> timer_nodes ctx' = timer_nodes ctx \<and> sort_tree ctx' = sort_tree ctx
     \<and> total_task_count ctx' = total_task_count ctx \<and> (\<forall>q\<in>runnable ctx. tasks ctx' q = tasks ctx q)"

lemma only_wakes_refl [simp]: "only_wakes ctx ctx"
  by (simp add: only_wakes_def)

lemma only_wakes_trans: "only_wakes a b \<Longrightarrow> only_wakes b c \<Longrightarrow> only_wakes a c"
  by (auto simp: only_wakes_def)

lemma heap_ok_same:
  assumes "heap_ok ctx" "tasks ctx' = (tasks ctx)(p \<mapsto> t')" "tasks ctx p = Some t" "task_ok ctx p t'"
    "allocated (ct_base (running_tasks ctx')) = allocated (ct_base (running_tasks ctx))" "all_tasks ctx' = all_tasks ctx"
    "unat (total_task_count ctx') = card (alive ctx')"
  shows "heap_ok ctx'"
  using assms by (auto simp: heap_ok_def task_ok_def)

lemma sleepers_ok_same:
  "sleepers_ok ctx ws \<Longrightarrow> sort_tree ctx' = sort_tree ctx \<Longrightarrow> timer_nodes ctx' = timer_nodes ctx
    \<Longrightarrow> (\<And>n. n \<in> ran (timer_nodes ctx) \<Longrightarrow> tn_task n \<in> alive ctx \<Longrightarrow> tn_task n \<in> alive ctx') \<Longrightarrow> sleepers_ok ctx' ws"
  by (auto simp: sleepers_ok_def ran_def)

lemma min_sched_key:
  assumes "queue_ok ctx rs"
  shows "hev_task_system_get_min_sched_key ctx = Some (if rs = [] then 0 else key ctx (hd rs))"
proof -
  have f: "hev_rbtree_cached_first (running_tasks ctx) = hd (rs @ [NULL])"
    using assms by (intro holds_queue_first) (simp add: queue_ok_def)
  show ?thesis
  proof (cases rs)
    case Nil
    with f show ?thesis by (simp add: hev_task_system_get_min_sched_key_def)
  next
    case (Cons r rs')
    moreover have "r \<noteq> NULL" using assms Cons holds_queue_node [of "running_tasks ctx" "r # rs'" r] by (auto simp: queue_ok_def)
    ultimately show ?thesis using f task_of [OF assms, of r] by (auto simp: hev_task_system_get_min_sched_key_def)
  qed
qed

lemma wakeup_correct:
  assumes inv: "sched_inv ctx" and p: "p \<in> alive ctx"
  shows "returns (hev_task_system_wakeup_task_with_context p ctx) (\<lambda>ctx'. sched_inv ctx' \<and> only_wakes ctx ctx' \<and> p \<in> runnable ctx')"
proof (cases "p \<in> runnable ctx")
  case True
  then show ?thesis using inv by (auto simp: hev_task_system_wakeup_task_with_context_def runnable_def)
next
  case False
  obtain rs ws where q: "queue_ok ctx rs" and h: "heap_ok ctx" and w: "sleepers_ok ctx ws" using inv by (auto simp: sched_inv_def)
  obtain t where t: "tasks ctx p = Some t" "t_state t \<noteq> HEV_TASK_STOPPED" "t_state t \<noteq> HEV_TASK_RUNNING"
    using p False by (auto simp: alive_def runnable_def)
  obtain m where m: "hev_task_system_get_min_sched_key ctx = Some m" using min_sched_key [OF q] by blast
  let ?t = "t\<lparr>sched_key := sched_key t + m, t_state := HEV_TASK_RUNNING, priority := next_priority t\<rparr>"
  let ?ctx = "ctx\<lparr>tasks := (tasks ctx)(p \<mapsto> ?t)\<rparr>"
  have ok: "task_ok ctx p ?t" using h t(1) by (auto simp: heap_ok_def task_ok_def)
  have "unat (total_task_count ctx) < 2 ^ LENGTH(32)" by (rule unsigned_less)
  then have "card (alive ctx) < 2 ^ 32" using h by (simp add: heap_ok_def)
  moreover have "card (runnable ctx) < card (alive ctx)"
    using p False queue_bound(2) [OF q h] finite_alive [OF h] by (intro psubset_card_mono) auto
  ultimately have "Suc (length rs) < 2 ^ 32" using queue_bound(1) [OF q h] by linarith
  from enter_queue [OF q h t(1,3) _ ok this]
  obtain c where c: "sched_tree_insert p ?ctx = Some (?ctx\<lparr>running_tasks := c\<rparr>)" "allocated (ct_base c) = allocated (ct_base (running_tasks ctx))"
      "queue_ok (?ctx\<lparr>running_tasks := c, running_task_count := running_task_count ctx + 1\<rparr>) (enqueue (<) (key ?ctx) p rs)"
    by auto
  let ?ctx' = "?ctx\<lparr>running_tasks := c, running_task_count := running_task_count ctx + 1\<rparr>"
  have run: "hev_task_system_wakeup_task_with_context p ctx = Some ?ctx'"
    using t m c(1) by (simp add: hev_task_system_wakeup_task_with_context_def hev_task_system_insert_task_def set_task_def)
  have al: "alive ?ctx' = alive ctx" using t by (auto simp: alive_def)
  then have "heap_ok ?ctx'" using h t(1) ok c(2) by (intro heap_ok_same [OF h]) (auto simp: heap_ok_def)
  moreover have "sleepers_ok ?ctx' ws" using al by (intro sleepers_ok_same [OF w]) auto
  moreover have "only_wakes ctx ?ctx'" using al t by (auto simp: only_wakes_def runnable_def)
  ultimately show ?thesis
    using run c(3) by (auto simp: sched_inv_def runnable_def)
qed

lemma first_sleeper:
  assumes "sleepers_ok ctx ws"
  shows "hev_rbtree_cached_first (sort_tree ctx) = hd (ws @ [NULL])"
    "hev_rbtree_cached_first (sort_tree ctx) = NULL \<longleftrightarrow> ws = []"
    "ws \<noteq> [] \<Longrightarrow> \<exists>n. timer_nodes ctx (hd ws) = Some n \<and> expiry (tn_expire n) \<and> tn_task n \<in> alive ctx"
proof -
  show "hev_rbtree_cached_first (sort_tree ctx) = hd (ws @ [NULL])"
    using assms by (intro holds_queue_first) (simp add: sleepers_ok_def)
  show "hev_rbtree_cached_first (sort_tree ctx) = NULL \<longleftrightarrow> ws = []"
    using assms holds_queue_first_null by (auto simp: sleepers_ok_def hev_rbtree_cached_first_def)
  assume "ws \<noteq> []"
  then have "hd ws \<in> dom (timer_nodes ctx)" using assms by (metis hd_in_set sleepers_ok_def)
  then show "\<exists>n. timer_nodes ctx (hd ws) = Some n \<and> expiry (tn_expire n) \<and> tn_task n \<in> alive ctx"
    using assms by (auto simp: sleepers_ok_def)
qed

text \<open>A sleeper that has expired by the time \<open>now\<close>; if there is one, the first has.\<close>

definition expired :: "timespec \<Rightarrow> task_system \<Rightarrow> bool" where
  "expired now ctx \<longleftrightarrow> (\<exists>n\<in>ran (timer_nodes ctx). nanoseconds (tn_expire n) \<le> nanoseconds now)"

lemma expired_first:
  assumes w: "sleepers_ok ctx ws" and c: "clock_reading now" and e: "expired now ctx"
  shows "\<exists>n. ws \<noteq> [] \<and> timer_nodes ctx (hd ws) = Some n \<and> \<not> hev_task_timer_cmp now (tn_expire n) < 0"
proof -
  obtain a n where n: "timer_nodes ctx a = Some n" "nanoseconds (tn_expire n) \<le> nanoseconds now"
    using e by (auto simp: expired_def ran_def)
  then have a: "a \<in> set ws" "expiry (tn_expire n)" using w by (auto simp: sleepers_ok_def)
  then obtain f ws' where ws: "ws = f # ws'" by (cases ws) auto
  obtain m where m: "timer_nodes ctx f = Some m" "expiry (tn_expire m)" using first_sleeper(3) [OF w] ws by auto
  have "\<not> sooner (tkey ctx a) (tkey ctx f)"
    using by_expiry.first_minimal [of "tkey ctx" f ws' a] w a(1) ws by (auto simp: sleepers_ok_def)
  then have "nanoseconds (tn_expire m) \<le> nanoseconds (tn_expire n)"
    using not_sooner_le [of "tkey ctx f" "tkey ctx a"] m n(1) a(2) by simp
  then have "\<not> hev_task_timer_cmp now (tn_expire m) < 0" using timer_cmp_meaning [OF c m(2)] n(2) by simp
  with m ws show ?thesis by simp
qed

lemma timer_wakeup_correct:
  assumes inv: "sched_inv ctx"
  shows "returns (hev_task_timer_wakeup now ctx) (\<lambda>ctx'. sched_inv ctx' \<and> only_wakes ctx ctx'
    \<and> (clock_reading now \<and> expired now ctx \<longrightarrow> runnable ctx' \<noteq> {}))"
proof -
  obtain ws where w: "sleepers_ok ctx ws" using inv by (auto simp: sched_inv_def)
  show ?thesis
  proof (cases "ws = []")
    case True
    then show ?thesis
      using inv first_sleeper(2) [OF w] expired_first [OF w] by (auto simp: hev_task_timer_wakeup_def)
  next
    case False
    then obtain n where n: "timer_nodes ctx (hd ws) = Some n" "tn_task n \<in> alive ctx" using first_sleeper(3) [OF w] by blast
    have f: "hev_rbtree_cached_first (sort_tree ctx) = hd ws" "hd ws \<noteq> NULL"
      using first_sleeper(1,2) [OF w] False by auto
    have e: "clock_reading now \<and> expired now ctx \<Longrightarrow> \<not> hev_task_timer_cmp now (tn_expire n) < 0"
      using expired_first [OF w] n(1) by auto
    show ?thesis
    proof (cases "hev_task_timer_cmp now (tn_expire n) < 0")
      case True
      then show ?thesis using inv e n(1) f by (auto simp: hev_task_timer_wakeup_def)
    next
      case False
      then have "hev_task_timer_wakeup now ctx = hev_task_system_wakeup_task_with_context (tn_task n) ctx"
        using n(1) f by (simp add: hev_task_timer_wakeup_def)
      then show ?thesis using wakeup_correct [OF inv n(2)] by (auto elim!: returns_mono)
    qed
  qed
qed

lemma timer_wake_is_wakeup: "hev_task_timer_wake now ctx = hev_task_timer_wakeup now ctx"
  by (simp add: hev_task_timer_wake_def hev_task_timer_wakeup_def)

lemma wakeup_all_correct:
  "sched_inv ctx \<Longrightarrow> set ps \<subseteq> alive ctx \<Longrightarrow>
    returns (wakeup_all ps ctx) (\<lambda>ctx'. sched_inv ctx' \<and> only_wakes ctx ctx' \<and> set ps \<subseteq> runnable ctx')"
proof (induction ps arbitrary: ctx)
  case (Cons p ps)
  have "returns (hev_task_system_wakeup_task_with_context p ctx) (\<lambda>ctx'. sched_inv ctx' \<and> only_wakes ctx ctx' \<and> p \<in> runnable ctx')"
    using Cons(2,3) by (intro wakeup_correct) auto
  then show ?case
    unfolding wakeup_all.simps returns_bind
  proof (rule returns_mono)
    fix c
    assume c: "sched_inv c \<and> only_wakes ctx c \<and> p \<in> runnable c"
    then have "set ps \<subseteq> alive c" using Cons(3) by (auto simp: only_wakes_def)
    with c Cons(1) [of c] show "returns (wakeup_all ps c) (\<lambda>ctx'. sched_inv ctx' \<and> only_wakes ctx ctx' \<and> set (p # ps) \<subseteq> runnable ctx')"
      by (auto elim!: returns_mono intro: only_wakes_trans simp: only_wakes_def [of c])
  qed
qed simp

text \<open>A poll reports tasks that are not stopped.\<close>

definition poll_ok :: "ptr set \<Rightarrow> poll \<Rightarrow> bool" where
  "poll_ok A poll \<longleftrightarrow> (\<forall>timeout. set (p_wait poll timeout) \<subseteq> A)"

text \<open>A poll that has something to report, or during which a sleeper expires.\<close>

definition stirs :: "task_system \<Rightarrow> poll \<Rightarrow> bool" where
  "stirs ctx poll \<longleftrightarrow> (\<forall>timeout. p_wait poll timeout \<noteq> []) \<or> clock_reading (p_after poll) \<and> expired (p_after poll) ctx"

lemma get_timeout_returns: "sched_inv ctx \<Longrightarrow> \<exists>timeout. hev_task_timer_get_timeout now ctx = Some timeout"
  using first_sleeper by (fastforce simp: hev_task_timer_get_timeout_def sched_inv_def)

lemma io_poll_correct:
  assumes inv: "sched_inv ctx" and ok: "poll_ok (alive ctx) poll"
  shows "returns (hev_task_system_io_poll timeout poll ctx) (\<lambda>ctx'. sched_inv ctx' \<and> only_wakes ctx ctx'
    \<and> (stirs ctx poll \<longrightarrow> runnable ctx' \<noteq> {}))"
proof -
  obtain tm where tm: "(if timeout < 0 then hev_task_timer_get_timeout (p_before poll) ctx else Some timeout) = Some tm"
    using get_timeout_returns [OF inv, of "p_before poll"] by (cases "timeout < 0") auto
  have "returns (wakeup_all (p_wait poll tm) ctx) (\<lambda>c. sched_inv c \<and> only_wakes ctx c \<and> set (p_wait poll tm) \<subseteq> runnable c)"
    using inv ok by (intro wakeup_all_correct) (auto simp: poll_ok_def)
  then have "returns (wakeup_all (p_wait poll tm) ctx) (\<lambda>c. returns (hev_task_timer_wakeup (p_after poll) c)
      (\<lambda>ctx'. sched_inv ctx' \<and> only_wakes ctx ctx' \<and> (stirs ctx poll \<longrightarrow> runnable ctx' \<noteq> {})))"
  proof (rule returns_mono)
    fix c
    assume c: "sched_inv c \<and> only_wakes ctx c \<and> set (p_wait poll tm) \<subseteq> runnable c"
    then have "p_wait poll tm \<noteq> [] \<Longrightarrow> runnable c \<noteq> {}" by (metis set_empty subset_empty)
    moreover have "expired (p_after poll) c \<longleftrightarrow> expired (p_after poll) ctx" using c by (auto simp: expired_def only_wakes_def)
    ultimately show "returns (hev_task_timer_wakeup (p_after poll) c)
        (\<lambda>ctx'. sched_inv ctx' \<and> only_wakes ctx ctx' \<and> (stirs ctx poll \<longrightarrow> runnable ctx' \<noteq> {}))"
      using c by (intro returns_mono [OF timer_wakeup_correct [of c "p_after poll"]])
        (auto simp: stirs_def only_wakes_def [of c] intro: only_wakes_trans)
  qed
  with tm show ?thesis by (simp add: hev_task_system_io_poll_def timer_wake_is_wakeup)
qed

section \<open>Picking a task\<close>

text \<open>The task that runs is a runnable one that no runnable task has a lower key than.\<close>

definition picked :: "task_system \<Rightarrow> bool" where
  "picked ctx \<longleftrightarrow> current_task ctx \<in> runnable ctx \<and> (\<forall>q\<in>runnable ctx. key ctx (current_task ctx) \<le> key ctx q)"

text \<open>The current task is no part of the invariant.\<close>

lemma current_irrelevant [simp]:
  "alive (ctx\<lparr>current_task := p\<rparr>) = alive ctx" "runnable (ctx\<lparr>current_task := p\<rparr>) = runnable ctx"
  "sched_inv (ctx\<lparr>current_task := p\<rparr>) \<longleftrightarrow> sched_inv ctx"
proof -
  show a: "alive (ctx\<lparr>current_task := p\<rparr>) = alive ctx" and r: "runnable (ctx\<lparr>current_task := p\<rparr>) = runnable ctx"
    by (simp_all add: alive_def runnable_def)
  then show "sched_inv (ctx\<lparr>current_task := p\<rparr>) \<longleftrightarrow> sched_inv ctx"
    by (simp add: sched_inv_def queue_ok_def heap_ok_def sleepers_ok_def task_ok_def)
qed

lemma none_running: "sched_inv ctx \<Longrightarrow> running_task_count ctx = 0 \<longleftrightarrow> runnable ctx = {}"
  by (auto simp: sched_inv_def queue_ok_def unat_eq_0 [symmetric])

lemma none_alive: "sched_inv ctx \<Longrightarrow> total_task_count ctx = 0 \<longleftrightarrow> alive ctx = {}"
  using finite_alive by (auto simp: sched_inv_def heap_ok_def unat_eq_0 [symmetric])

lemma first_picked:
  assumes "sched_inv ctx" "runnable ctx \<noteq> {}"
  shows "picked (ctx\<lparr>current_task := hev_rbtree_cached_first (running_tasks ctx)\<rparr>)"
proof -
  obtain rs where q: "queue_ok ctx rs" using assms(1) by (auto simp: sched_inv_def)
  then obtain r rs' where rs: "rs = r # rs'" using assms(2) by (cases rs) (auto simp: queue_ok_def)
  have f: "hev_rbtree_cached_first (running_tasks ctx) = r"
    using q rs holds_queue_first [of "running_tasks ctx" rs] by (simp add: queue_ok_def)
  moreover have "\<not> key ctx q < key ctx r" if "q \<in> runnable ctx" for q
    using by_key.first_minimal [of "key ctx" r rs' q] q rs that by (auto simp: queue_ok_def)
  moreover have "r \<in> runnable ctx" using q rs by (auto simp: queue_ok_def)
  ultimately show ?thesis by (auto simp: picked_def not_less)
qed

lemma poll_until_running_correct:
  assumes "sched_inv ctx" "\<forall>poll\<in>set polls. poll_ok (alive ctx) poll" "\<exists>poll\<in>set polls. stirs ctx poll"
  shows "returns (poll_until_running polls ctx) (\<lambda>(polls', ctx'). sched_inv ctx' \<and> only_wakes ctx ctx' \<and> runnable ctx' \<noteq> {}
    \<and> set polls' \<subseteq> set polls)"
  using assms
proof (induction polls arbitrary: ctx)
  case (Cons poll polls)
  have "returns (hev_task_system_io_poll (-1) poll ctx) (\<lambda>c. sched_inv c \<and> only_wakes ctx c \<and> (stirs ctx poll \<longrightarrow> runnable c \<noteq> {}))"
    using Cons(2,3) by (intro io_poll_correct) auto
  then show ?case
    unfolding poll_until_running.simps returns_bind
  proof (rule returns_mono)
    fix c
    assume c: "sched_inv c \<and> only_wakes ctx c \<and> (stirs ctx poll \<longrightarrow> runnable c \<noteq> {})"
    show "returns (if running_task_count c = 0 then poll_until_running polls c else Some (polls, c))
        (\<lambda>(polls', ctx'). sched_inv ctx' \<and> only_wakes ctx ctx' \<and> runnable ctx' \<noteq> {} \<and> set polls' \<subseteq> set (poll # polls))"
    proof (cases "running_task_count c = 0")
      case True
      have "alive c = alive ctx" "stirs c = stirs ctx" using c by (auto simp: only_wakes_def stirs_def expired_def)
      moreover have "\<not> stirs ctx poll" using True c none_running by blast
      ultimately have "returns (poll_until_running polls c) (\<lambda>(polls', ctx'). sched_inv ctx' \<and> only_wakes c ctx' \<and> runnable ctx' \<noteq> {}
          \<and> set polls' \<subseteq> set polls)"
        using Cons c by (intro Cons(1)) auto
      with True c show ?thesis by (auto elim!: returns_mono intro: only_wakes_trans)
    next
      case False
      then show ?thesis using c none_running [of c] by auto
    qed
  qed
qed simp

lemma pick_correct:
  assumes inv: "sched_inv ctx" and a: "alive ctx \<noteq> {}" and ok: "\<forall>poll\<in>set polls. poll_ok (alive ctx) poll"
    and s: "runnable ctx \<noteq> alive ctx \<Longrightarrow> polls \<noteq> []" "runnable ctx = {} \<Longrightarrow> \<exists>poll\<in>set polls. stirs ctx poll"
  shows "returns (hev_task_system_pick_current_task polls ctx) (\<lambda>(polls', ctx'). sched_inv ctx' \<and> picked ctx' \<and> set polls' \<subseteq> set polls
    \<and> alive ctx' = alive ctx \<and> timer_nodes ctx' = timer_nodes ctx \<and> (\<forall>q\<in>runnable ctx. tasks ctx' q = tasks ctx q))"
proof -
  obtain rs where q: "queue_ok ctx rs" and h: "heap_ok ctx" using inv by (auto simp: sched_inv_def)
  have lt: "running_task_count ctx < total_task_count ctx \<longleftrightarrow> runnable ctx \<noteq> alive ctx"
    using queue_bound [OF q h] q h card_subset_eq [OF finite_alive [OF h], of "runnable ctx"]
    by (auto simp: word_less_nat_alt queue_ok_def heap_ok_def)
  let ?m = "if running_task_count ctx < total_task_count ctx then
          if running_task_count ctx \<noteq> 0 then
            (case polls of [] \<Rightarrow> None | poll # polls \<Rightarrow> do { ctx \<leftarrow> hev_task_system_io_poll 0 poll ctx; Some (polls, ctx) })
          else poll_until_running polls ctx
        else Some (polls, ctx)"
  have "returns ?m (\<lambda>(polls', ctx'). sched_inv ctx' \<and> only_wakes ctx ctx' \<and> runnable ctx' \<noteq> {} \<and> set polls' \<subseteq> set polls)"
  proof (cases "running_task_count ctx < total_task_count ctx \<and> running_task_count ctx \<noteq> 0")
    case True
    then obtain poll polls' where p: "polls = poll # polls'" using s(1) lt by (cases polls) auto
    have "runnable ctx \<noteq> {}" using True none_running [OF inv] by blast
    then show ?thesis
      using True io_poll_correct [OF inv, of poll 0] ok p by (auto elim!: returns_mono simp: only_wakes_def)
  next
    case False
    show ?thesis
    proof (cases "running_task_count ctx < total_task_count ctx")
      case True
      with False show ?thesis
        using poll_until_running_correct [OF inv ok] s(2) none_running [OF inv] by auto
    next
      case False
      then have "runnable ctx = alive ctx" using lt by blast
      with False show ?thesis using inv a by simp
    qed
  qed
  then show ?thesis
    unfolding hev_task_system_pick_current_task_def returns_bind
    by (rule returns_mono) (simp add: first_picked only_wakes_def split: prod.splits)
qed

section \<open>Where a yield puts the current task\<close>

lemma holds_queue_set_node: "p \<notin> set xs \<Longrightarrow> holds_queue c xs \<Longrightarrow> holds_queue (set_node p n c) xs"
  by (erule holds_queue_frame) (auto simp: set_node_def)

lemma allocated_set_node:
  "allocated (ct_base (set_node p (Some n) c)) = insert p (allocated (ct_base c))"
  "allocated (ct_base (set_node p None c)) = allocated (ct_base c) - {p}"
  by (auto simp: allocated_def set_node_def)

text \<open>Changes to a task that is not running leave the run queue alone.\<close>

lemma queue_ok_outside:
  assumes "queue_ok ctx rs" "tasks ctx' = (tasks ctx)(p := u)" "p \<notin> set rs" "u = None \<or> t_state (the u) \<noteq> HEV_TASK_RUNNING"
    and "holds_queue (running_tasks ctx') rs" "running_task_count ctx' = running_task_count ctx"
  shows "queue_ok ctx' rs"
proof -
  have "runnable ctx' = runnable ctx"
    using assms(1-4) by (auto simp: runnable_def queue_ok_def)
  moreover have "in_order (<) (key ctx') rs"
    using assms(1-3) in_order_other [of ctx rs p ctx' u] by (simp add: queue_ok_def)
  ultimately show ?thesis using assms by (simp add: queue_ok_def)
qed

text \<open>The state after the current task has gone from the run queue and everything else has stayed.\<close>

definition current_left :: "task_system \<Rightarrow> task_system \<Rightarrow> bool" where
  "current_left ctx ctx' \<longleftrightarrow> runnable ctx' = runnable ctx - {current_task ctx} \<and> timer_nodes ctx' = timer_nodes ctx
     \<and> (\<forall>q. q \<noteq> current_task ctx \<longrightarrow> tasks ctx' q = tasks ctx q)"

lemma current_waits:
  assumes inv: "sched_inv ctx" and cur: "current_task ctx \<in> runnable ctx"
  shows "returns (do { ctx \<leftarrow> hev_task_system_update_sched_key ctx; hev_task_system_remove_current_task HEV_TASK_WAITING ctx })
    (\<lambda>ctx'. sched_inv ctx' \<and> current_left ctx ctx' \<and> alive ctx' = alive ctx)"
proof -
  obtain rs ws where q: "queue_ok ctx rs" and h: "heap_ok ctx" and w: "sleepers_ok ctx ws" using inv by (auto simp: sched_inv_def)
  obtain p where p: "p = current_task ctx" by blast
  obtain t where t: "tasks ctx p = Some t" using cur p by (auto simp: runnable_def)
  let ?t = "t\<lparr>sched_key := sched_key t + 1 * word_of_int (priority t), t_state := HEV_TASK_WAITING\<rparr>"
  let ?u = "?t\<lparr>sched_key := word_of_int (next_priority t)\<rparr>"
  let ?ctx = "ctx\<lparr>tasks := (tasks ctx)(p \<mapsto> ?t)\<rparr>"
  have prs: "p \<in> set rs" using q cur p by (auto simp: queue_ok_def)
  have "t_state ?t \<noteq> HEV_TASK_RUNNING" "tasks ?ctx = (tasks ctx)(p \<mapsto> ?t)" "running_tasks ?ctx = running_tasks ctx"
    "running_task_count ?ctx = running_task_count ctx" by simp_all
  from leave_queue [OF q prs this]
  obtain c where c: "sched_tree_erase p ?ctx = Some (?ctx\<lparr>running_tasks := c\<rparr>)" "allocated (ct_base c) = allocated (ct_base (running_tasks ctx))"
      "queue_ok (?ctx\<lparr>running_tasks := c, running_task_count := running_task_count ctx - 1\<rparr>) (remove1 p rs)"
    by blast
  let ?ctx' = "ctx\<lparr>tasks := (tasks ctx)(p \<mapsto> ?u), running_tasks := c, running_task_count := running_task_count ctx - 1\<rparr>"
  have run: "do { ctx \<leftarrow> hev_task_system_update_sched_key ctx; hev_task_system_remove_current_task HEV_TASK_WAITING ctx } = Some ?ctx'"
    using t c(1) p by (simp add: hev_task_system_update_sched_key_def hev_task_system_remove_current_task_def set_task_def)
  have "distinct rs" using q holds_queue_distinct by (auto simp: queue_ok_def)
  then have "p \<notin> set (remove1 p rs)" by simp
  moreover have "holds_queue c (remove1 p rs)" using c(3) by (simp add: queue_ok_def)
  ultimately have "queue_ok ?ctx' (remove1 p rs)" by (intro queue_ok_outside [OF c(3), of _ p "Some ?u"]) simp_all
  moreover have al: "alive ?ctx' = alive ctx" using t cur p by (auto simp: alive_def runnable_def)
  moreover have "heap_ok ?ctx'"
    using h t c(2) al by (intro heap_ok_same [OF h _ t, of _ ?u]) (auto simp: heap_ok_def task_ok_def)
  moreover have "sleepers_ok ?ctx' ws" using al by (intro sleepers_ok_same [OF w]) auto
  moreover have "current_left ctx ?ctx'" using p t by (auto simp: current_left_def runnable_def)
  ultimately show ?thesis using run by (auto simp: sched_inv_def)
qed

lemma heap_ok_stopped:
  assumes h: "heap_ok ctx" and t: "tasks ctx p = Some t" "t_state t \<noteq> HEV_TASK_STOPPED"
    and ctx': "tasks ctx' = (tasks ctx)(p := u)" "total_task_count ctx' = total_task_count ctx - 1" "distinct (all_tasks ctx')"
      "set (all_tasks ctx') = dom (tasks ctx')"
    and u: "u = None \<or> t_state (the u) = HEV_TASK_STOPPED \<and> task_ok ctx' p (the u)"
    and al: "allocated (ct_base (running_tasks ctx)) - {p} \<subseteq> allocated (ct_base (running_tasks ctx'))"
  shows "heap_ok ctx'" "alive ctx' = alive ctx - {p}"
proof -
  show a: "alive ctx' = alive ctx - {p}" using ctx'(1) u by (auto simp: alive_def)
  have "p \<in> alive ctx" using t by (auto simp: alive_def)
  then have "unat (total_task_count ctx) = Suc (card (alive ctx - {p}))"
    using h card_Suc_Diff1 [OF finite_alive [OF h]] by (simp add: heap_ok_def)
  moreover from this have "unat (total_task_count ctx - 1) = card (alive ctx - {p})" by (subst unat_minus_one) auto
  moreover have "task_ok ctx' q t'" if "tasks ctx' q = Some t'" for q t'
    using that h u al ctx'(1) by (cases "q = p") (auto simp: heap_ok_def task_ok_def)
  ultimately show "heap_ok ctx'" using a ctx' by (simp add: heap_ok_def)
qed

text \<open>Dropping the last reference frees the task and its node.\<close>

lemma unref_effect:
  assumes "tasks ctx p = Some t"
  shows "task_unref p ctx = Some (
    if ref_count t = 1 then ctx\<lparr>all_tasks := remove1 p (all_tasks ctx), running_tasks := set_node p None (running_tasks ctx),
      tasks := (tasks ctx)(p := None)\<rparr>
    else ctx\<lparr>tasks := (tasks ctx)(p \<mapsto> t\<lparr>ref_count := ref_count t - 1\<rparr>)\<rparr>)"
  using assms by (simp add: task_unref_def set_task_def)

text \<open>A task that is asleep cannot end, so the sleepers are other tasks.\<close>

lemma current_stops:
  assumes inv: "sched_inv ctx" and cur: "current_task ctx \<in> runnable ctx"
    and awake: "\<forall>n\<in>ran (timer_nodes ctx). tn_task n \<noteq> current_task ctx"
  shows "returns (hev_task_system_remove_current_task HEV_TASK_STOPPED ctx)
    (\<lambda>ctx'. sched_inv ctx' \<and> current_left ctx ctx' \<and> alive ctx' = alive ctx - {current_task ctx})"
proof -
  obtain rs ws where q: "queue_ok ctx rs" and h: "heap_ok ctx" and w: "sleepers_ok ctx ws" using inv by (auto simp: sched_inv_def)
  obtain p where p: "p = current_task ctx" by blast
  obtain t where t: "tasks ctx p = Some t" "t_state t = HEV_TASK_RUNNING" using cur p by (auto simp: runnable_def)
  let ?t = "t\<lparr>t_state := HEV_TASK_STOPPED\<rparr>"
  let ?ctx = "ctx\<lparr>tasks := (tasks ctx)(p \<mapsto> ?t)\<rparr>"
  have prs: "p \<in> set rs" using q cur p by (auto simp: queue_ok_def)
  have "t_state ?t \<noteq> HEV_TASK_RUNNING" "tasks ?ctx = (tasks ctx)(p \<mapsto> ?t)" "running_tasks ?ctx = running_tasks ctx"
    "running_task_count ?ctx = running_task_count ctx" by simp_all
  from leave_queue [OF q prs this]
  obtain c where c: "sched_tree_erase p ?ctx = Some (?ctx\<lparr>running_tasks := c\<rparr>)" "allocated (ct_base c) = allocated (ct_base (running_tasks ctx))"
      "queue_ok (?ctx\<lparr>running_tasks := c, running_task_count := running_task_count ctx - 1\<rparr>) (remove1 p rs)"
    by blast
  have "distinct rs" using q holds_queue_distinct by (auto simp: queue_ok_def)
  then have new: "p \<notin> set (remove1 p rs)" by simp
  have hq: "holds_queue c (remove1 p rs)" using c(3) by (simp add: queue_ok_def)
  let ?one = "ctx\<lparr>running_task_count := running_task_count ctx - 1, total_task_count := total_task_count ctx - 1,
      all_tasks := remove1 p (all_tasks ctx), running_tasks := set_node p None c, tasks := (tasks ctx)(p := None)\<rparr>"
  let ?u = "?t\<lparr>ref_count := ref_count t - 1\<rparr>"
  let ?more = "ctx\<lparr>tasks := (tasks ctx)(p \<mapsto> ?u), running_tasks := c, running_task_count := running_task_count ctx - 1,
      total_task_count := total_task_count ctx - 1\<rparr>"
  have run: "hev_task_system_remove_current_task HEV_TASK_STOPPED ctx = Some (if ref_count t = 1 then ?one else ?more)"
    using t c(1) p by (simp add: hev_task_system_remove_current_task_def set_task_def unref_effect Let_def)
  have sl: "sleepers_ok ctx' ws" if "alive ctx' = alive ctx - {p}" "sort_tree ctx' = sort_tree ctx" "timer_nodes ctx' = timer_nodes ctx" for ctx'
    using that awake p by (intro sleepers_ok_same [OF w]) auto
  have ok: "task_ok ctx p t" "distinct (all_tasks ctx)" "set (all_tasks ctx) = dom (tasks ctx)" using h t(1) by (auto simp: heap_ok_def)
  have st: "t_state t \<noteq> HEV_TASK_STOPPED" using t(2) by simp
  show ?thesis
  proof (cases "ref_count t = 1")
    case True
    have "queue_ok ?one (remove1 p rs)"
      using new holds_queue_set_node [OF new hq] by (intro queue_ok_outside [OF c(3), of _ p None]) simp_all
    moreover have "heap_ok ?one"
      using ok c(2) by (intro heap_ok_stopped(1) [OF h t(1) st, of ?one None]) (simp_all add: allocated_set_node)
    moreover have al: "alive ?one = alive ctx - {p}"
      using ok c(2) by (intro heap_ok_stopped(2) [OF h t(1) st, of ?one None]) (simp_all add: allocated_set_node)
    moreover have "current_left ctx ?one" using p t by (auto simp: current_left_def runnable_def)
    ultimately show ?thesis using run True sl [OF al] p by (auto simp: sched_inv_def)
  next
    case False
    have "queue_ok ?more (remove1 p rs)"
      using new hq by (intro queue_ok_outside [OF c(3), of _ p "Some ?u"]) simp_all
    have ok': "task_ok ?more p ?u" "insert p (dom (tasks ctx)) = dom (tasks ctx)" using ok False c(2) t(1) by (auto simp: task_ok_def)
    then have "heap_ok ?more"
      using ok c(2) by (intro heap_ok_stopped(1) [OF h t(1) st, of ?more "Some ?u"]) simp_all
    moreover have al: "alive ?more = alive ctx - {p}"
      using ok ok' c(2) by (intro heap_ok_stopped(2) [OF h t(1) st, of ?more "Some ?u"]) simp_all
    moreover note \<open>queue_ok ?more (remove1 p rs)\<close>
    moreover have "current_left ctx ?more" using p t by (auto simp: current_left_def runnable_def)
    ultimately show ?thesis using run False sl [OF al] p by (auto simp: sched_inv_def)
  qed
qed

text \<open>A task that goes on is charged for its turn and queued again, behind the tasks with the same key.\<close>

lemma current_switches:
  assumes q: "queue_ok ctx rs" and h: "heap_ok ctx" and w: "sleepers_ok ctx ws" and p: "p = current_task ctx" "p \<in> set rs" "tasks ctx p = Some t"
  shows "\<exists>c ctx'. do { ctx \<leftarrow> hev_task_system_update_sched_key ctx; hev_task_system_reinsert_current_task ctx } = Some ctx'
    \<and> ctx' = ctx\<lparr>tasks := (tasks ctx)(p \<mapsto> t\<lparr>sched_key := sched_key t + word_of_int (priority t), priority := next_priority t\<rparr>),
        running_tasks := c\<rparr>
    \<and> queue_ok ctx' (enqueue (<) (key ctx') p (remove1 p rs)) \<and> heap_ok ctx' \<and> sleepers_ok ctx' ws"
proof -
  let ?t = "t\<lparr>sched_key := sched_key t + word_of_int (priority t), priority := next_priority t\<rparr>"
  let ?ctx = "ctx\<lparr>tasks := (tasks ctx)(p \<mapsto> ?t)\<rparr>"
  obtain xs ys where xy: "rs = xs @ p # ys" using p(2) split_list by metis
  have "distinct rs" using q holds_queue_distinct by (auto simp: queue_ok_def)
  then have d: "p \<notin> set (xs @ ys)" "remove1 p rs = xs @ ys" by (simp_all add: xy remove1_append)
  have "holds_queue (running_tasks ?ctx) (xs @ p # ys)" using q xy by (simp add: queue_ok_def)
  from tree_erase [OF this]
  obtain c1 where c1: "sched_tree_erase p ?ctx = Some (?ctx\<lparr>running_tasks := c1\<rparr>)" "holds_queue c1 (xs @ ys)"
      "allocated (ct_base c1) = allocated (ct_base (running_tasks ctx))"
    by auto
  let ?ctx1 = "?ctx\<lparr>running_tasks := c1\<rparr>"
  have "in_order (<) (key ctx) (xs @ p # ys)" using q xy by (simp add: queue_ok_def)
  then have "in_order (<) (key ?ctx1) (xs @ ys)"
    using in_order_other [OF in_order_without, of ctx xs p ys p ?ctx1 "Some ?t"] d by simp
  moreover have "set (xs @ ys) \<subseteq> dom (tasks ?ctx1)" using q xy by (auto simp: queue_ok_def runnable_def)
  moreover have ok: "task_ok ctx p ?t" using h p(3) by (auto simp: heap_ok_def task_ok_def)
  then have "task_ok ?ctx1 p ?t" using c1(3) by (simp add: task_ok_def)
  ultimately obtain c where c: "sched_tree_insert p ?ctx1 = Some (?ctx1\<lparr>running_tasks := c\<rparr>)"
      "holds_queue c (enqueue (<) (key ?ctx1) p (xs @ ys))" "in_order (<) (key ?ctx1) (enqueue (<) (key ?ctx1) p (xs @ ys))"
      "allocated (ct_base c) = allocated (ct_base c1)"
    using tree_insert [of ?ctx1 "xs @ ys" p ?t] c1(2) d by auto
  let ?ctx' = "?ctx\<lparr>running_tasks := c\<rparr>"
  have run: "do { ctx \<leftarrow> hev_task_system_update_sched_key ctx; hev_task_system_reinsert_current_task ctx } = Some ?ctx'"
    using p(1,3) c1(1) c(1) by (simp add: hev_task_system_update_sched_key_def hev_task_system_reinsert_current_task_def set_task_def Let_def)
  have "t_state t = HEV_TASK_RUNNING" using task_of [OF q p(2)] p(3) by auto
  then have al: "alive ?ctx' = alive ctx" "runnable ?ctx' = runnable ctx" using p(3) by (auto simp: alive_def runnable_def)
  have "insert p (set (xs @ ys)) = runnable ctx" "unat (running_task_count ctx) = Suc (length (xs @ ys))"
    using q xy by (auto simp: queue_ok_def)
  then have "queue_ok ?ctx' (enqueue (<) (key ?ctx') p (remove1 p rs))"
    using c(2,3) al(2) by (simp add: queue_ok_def d(2))
  moreover have "heap_ok ?ctx'"
    using h c(4) c1(3) al by (intro heap_ok_same [OF h _ p(3) ok]) (auto simp: heap_ok_def)
  moreover have "sleepers_ok ?ctx' ws" using al by (intro sleepers_ok_same [OF w]) auto
  ultimately show ?thesis using run by blast
qed

section \<open>The scheduler\<close>

text \<open>The tasks that are left, and those still in the run queue, after the current task has said what it wants.\<close>

definition remaining :: "sched_jump \<Rightarrow> task_system \<Rightarrow> ptr set" where
  "remaining jump ctx = (if jump = HEV_TASK_SCHED_REMOVE then alive ctx - {current_task ctx} else alive ctx)"

definition still_running :: "sched_jump \<Rightarrow> task_system \<Rightarrow> ptr set" where
  "still_running jump ctx =
     (if jump = HEV_TASK_SCHED_REMOVE \<or> jump = HEV_TASK_SCHED_WAITIO then runnable ctx - {current_task ctx} else runnable ctx)"

lemma jump_correct:
  assumes inv: "sched_inv ctx" and cur: "jump \<noteq> Sched_First \<Longrightarrow> current_task ctx \<in> runnable ctx"
    and awake: "jump = HEV_TASK_SCHED_REMOVE \<Longrightarrow> \<forall>n\<in>ran (timer_nodes ctx). tn_task n \<noteq> current_task ctx"
  shows "returns (case jump of
         HEV_TASK_SCHED_SWITCH \<Rightarrow> do { ctx \<leftarrow> hev_task_system_update_sched_key ctx; hev_task_system_reinsert_current_task ctx }
       | HEV_TASK_SCHED_WAITIO \<Rightarrow> do { ctx \<leftarrow> hev_task_system_update_sched_key ctx; hev_task_system_remove_current_task HEV_TASK_WAITING ctx }
       | HEV_TASK_SCHED_REMOVE \<Rightarrow> hev_task_system_remove_current_task HEV_TASK_STOPPED ctx
       | Sched_First \<Rightarrow> Some ctx)
    (\<lambda>ctx'. sched_inv ctx' \<and> alive ctx' = remaining jump ctx \<and> runnable ctx' = still_running jump ctx \<and> timer_nodes ctx' = timer_nodes ctx
       \<and> (\<forall>q. q \<noteq> current_task ctx \<longrightarrow> tasks ctx' q = tasks ctx q))"
proof (cases jump)
  case HEV_TASK_SCHED_SWITCH
  obtain rs ws where q: "queue_ok ctx rs" and h: "heap_ok ctx" and w: "sleepers_ok ctx ws" using inv by (auto simp: sched_inv_def)
  have p: "current_task ctx \<in> set rs" using cur q HEV_TASK_SCHED_SWITCH by (auto simp: queue_ok_def)
  then obtain t where t: "tasks ctx (current_task ctx) = Some t" "t_state t = HEV_TASK_RUNNING" using task_of [OF q] by blast
  obtain c ctx' where c: "do { ctx \<leftarrow> hev_task_system_update_sched_key ctx; hev_task_system_reinsert_current_task ctx } = Some ctx'"
      "ctx' = ctx\<lparr>tasks := (tasks ctx)(current_task ctx \<mapsto> t\<lparr>sched_key := sched_key t + word_of_int (priority t), priority := next_priority t\<rparr>),
        running_tasks := c\<rparr>" "sched_inv ctx'"
    using current_switches [OF q h w refl p t(1)] by (auto simp: sched_inv_def)
  have "alive ctx' = alive ctx" "runnable ctx' = runnable ctx" using c(2) t by (auto simp: alive_def runnable_def)
  with c HEV_TASK_SCHED_SWITCH show ?thesis by (auto simp: remaining_def still_running_def)
next
  case HEV_TASK_SCHED_WAITIO
  then show ?thesis using current_waits [OF inv] cur by (auto elim!: returns_mono simp: remaining_def still_running_def current_left_def)
next
  case HEV_TASK_SCHED_REMOVE
  then show ?thesis using current_stops [OF inv] cur awake by (auto elim!: returns_mono simp: remaining_def still_running_def current_left_def)
qed (use inv in \<open>auto simp: remaining_def still_running_def\<close>)

lemma schedule_correct:
  assumes inv: "sched_inv ctx" and cur: "jump \<noteq> Sched_First \<Longrightarrow> current_task ctx \<in> runnable ctx"
    and awake: "jump = HEV_TASK_SCHED_REMOVE \<Longrightarrow> \<forall>n\<in>ran (timer_nodes ctx). tn_task n \<noteq> current_task ctx"
    and ok: "\<forall>poll\<in>set polls. poll_ok (remaining jump ctx) poll"
    and s: "still_running jump ctx \<noteq> remaining jump ctx \<Longrightarrow> polls \<noteq> []"
      "still_running jump ctx = {} \<Longrightarrow> remaining jump ctx \<noteq> {} \<Longrightarrow> \<exists>poll\<in>set polls. stirs ctx poll"
  shows "returns (hev_task_system_schedule jump polls ctx) (\<lambda>(polls', ctx'). sched_inv ctx' \<and> alive ctx' = remaining jump ctx
    \<and> set polls' \<subseteq> set polls \<and> timer_nodes ctx' = timer_nodes ctx
    \<and> (if remaining jump ctx = {} then current_task ctx' = NULL else picked ctx'))"
  unfolding hev_task_system_schedule_def returns_bind
proof (rule returns_mono [OF jump_correct [OF inv cur awake]])
  fix c
  assume c: "sched_inv c \<and> alive c = remaining jump ctx \<and> runnable c = still_running jump ctx \<and> timer_nodes c = timer_nodes ctx
       \<and> (\<forall>q. q \<noteq> current_task ctx \<longrightarrow> tasks c q = tasks ctx q)"
  then have st: "stirs c = stirs ctx" by (auto simp: stirs_def expired_def)
  show "returns (if total_task_count c = 0 then Some (polls, c\<lparr>current_task := NULL\<rparr>) else hev_task_system_pick_current_task polls c)
      (\<lambda>(polls', ctx'). sched_inv ctx' \<and> alive ctx' = remaining jump ctx \<and> set polls' \<subseteq> set polls \<and> timer_nodes ctx' = timer_nodes ctx
        \<and> (if remaining jump ctx = {} then current_task ctx' = NULL else picked ctx'))"
  proof (cases "total_task_count c = 0")
    case True
    then show ?thesis using c none_alive by auto
  next
    case False
    then have a: "alive c \<noteq> {}" using c none_alive by blast
    have "returns (hev_task_system_pick_current_task polls c) (\<lambda>(polls', ctx'). sched_inv ctx' \<and> picked ctx' \<and> set polls' \<subseteq> set polls
        \<and> alive ctx' = alive c \<and> timer_nodes ctx' = timer_nodes c \<and> (\<forall>q\<in>runnable c. tasks ctx' q = tasks c q))"
      using c ok s a st by (intro pick_correct) auto
    with False a c show ?thesis by (auto elim!: returns_mono)
  qed
qed

end
