(* ===== verification/Task_Steps.thy ===== *)
theory Task_Steps
  imports Task_Scheduler
begin

text \<open>
  The task system at work: everything a task can do between two resumptions, as one operation with the conditions under which the code may
  do it, and that no sequence of such operations breaks the queues, touches a task that has been freed, or reaches an \<open>abort\<close>.
\<close>

section \<open>Operations of the current task\<close>

text \<open>
  What a task (or, before the scheduler runs, the main program) does. A yield comes with the polls that follow it; \<open>Join_Round\<close> is a
  round of the loop of \<open>hev_task_join\<close>; a task ends by returning from its entry function (\<open>Task_End\<close>) or by \<open>hev_task_exit\<close>; a sleep is the part of \<open>hev_task_timer_wait\<close> up to the yield and the part after it.
\<close>

datatype task_op =
  Task_New ptr bool
| Task_Ref ptr
| Task_Unref ptr
| Task_Set_Priority ptr int
| Task_Run ptr
| Task_Wakeup ptr
| Task_Join ptr
| Join_Round ptr "poll list"
| Task_Yield sched_jump "poll list"
| Task_End "poll list"
| Task_Exit "poll list"
| Sleep_Begin ptr timespec u32 "poll list"
| Sleep_End ptr bool timespec

fun task_exec :: "task_op \<Rightarrow> task_system \<Rightarrow> task_system option" where
  "task_exec (Task_New self stack) ctx = Some (snd (task_new self stack ctx))"
| "task_exec (Task_Ref p) ctx = hev_task_ref p ctx"
| "task_exec (Task_Unref p) ctx = task_unref p ctx"
| "task_exec (Task_Set_Priority p prio) ctx = hev_task_set_priority p prio ctx"
| "task_exec (Task_Run p) ctx = hev_task_run p ctx"
| "task_exec (Task_Wakeup p) ctx = hev_task_system_wakeup_task_with_context p ctx"
| "task_exec (Task_Join p) ctx = do { (r, ctx) \<leftarrow> join_begin p ctx; Some ctx }"
| "task_exec (Join_Round p polls) ctx = do {
     (done, ctx) \<leftarrow> join_round p ctx;
     if done then Some ctx
     else do { (polls, ctx) \<leftarrow> hev_task_system_schedule HEV_TASK_SCHED_WAITIO polls ctx; Some ctx } }"
| "task_exec (Task_Yield jump polls) ctx = do { (polls, ctx) \<leftarrow> hev_task_system_schedule jump polls ctx; Some ctx }"
| "task_exec (Task_End polls) ctx = do {
     ctx \<leftarrow> executer_end ctx;
     (polls, ctx) \<leftarrow> hev_task_system_schedule HEV_TASK_SCHED_REMOVE polls ctx;
     Some ctx }"
| "task_exec (Task_Exit polls) ctx = do { (polls, ctx) \<leftarrow> hev_task_system_schedule HEV_TASK_SCHED_REMOVE polls ctx; Some ctx }"
| "task_exec (Sleep_Begin node now ms polls) ctx =
     (if ms = 0 then Some ctx
      else do {
        (leftmost, ctx) \<leftarrow> timer_wait_begin node now ms (current_task ctx) ctx;
        (polls, ctx) \<leftarrow> hev_task_system_schedule HEV_TASK_SCHED_WAITIO polls ctx;
        Some ctx })"
| "task_exec (Sleep_End node leftmost now) ctx = do { (left, ctx) \<leftarrow> timer_wait_end node leftmost now ctx; Some ctx }"

text \<open>The current task is not in the middle of a sleep.\<close>

definition awake :: "task_system \<Rightarrow> bool" where
  "awake ctx \<longleftrightarrow> (\<forall>n\<in>ran (timer_nodes ctx). tn_task n \<noteq> current_task ctx)"

text \<open>The polls report tasks of \<open>A\<close> only, and one of them has something to wake.\<close>

definition enough :: "ptr set \<Rightarrow> task_system \<Rightarrow> poll list \<Rightarrow> bool" where
  "enough A ctx polls \<longleftrightarrow> (\<forall>poll\<in>set polls. poll_ok A poll) \<and> (\<exists>poll\<in>set polls. stirs ctx poll)"

text \<open>
  When an operation is allowed: memory that \<open>malloc\<close> returns is not in use; a task that is named has not been freed, and one that is woken is not
  stopped; a caller that drops a reference has one of its own, besides the one of a task that is not stopped; fewer than \<open>2 ^ 32\<close> tasks run; and a task that
  sleeps does nothing but sleep.
\<close>

fun allowed :: "task_op \<Rightarrow> task_system \<Rightarrow> bool" where
  "allowed (Task_New self stack) ctx \<longleftrightarrow> awake ctx \<and> self \<notin> dom (tasks ctx) \<and> aligned self
     \<and> self \<notin> allocated (ct_base (running_tasks ctx))"
| "allowed (Task_Ref p) ctx \<longleftrightarrow> awake ctx \<and> p \<in> dom (tasks ctx)"
| "allowed (Task_Unref p) ctx \<longleftrightarrow> awake ctx \<and> p \<in> dom (tasks ctx) \<and> (p \<in> alive ctx \<longrightarrow> 2 \<le> ref_count (the (tasks ctx p)))"
| "allowed (Task_Set_Priority p prio) ctx \<longleftrightarrow> awake ctx \<and> p \<in> dom (tasks ctx)"
| "allowed (Task_Run p) ctx \<longleftrightarrow> awake ctx \<and> p \<in> dom (tasks ctx) \<and> Suc (card (alive ctx)) < 2 ^ 32"
| "allowed (Task_Wakeup p) ctx \<longleftrightarrow> awake ctx \<and> p \<in> alive ctx"
| "allowed (Task_Join p) ctx \<longleftrightarrow> awake ctx \<and> current_task ctx \<noteq> NULL \<and> p \<in> dom (tasks ctx)"
| "allowed (Join_Round p polls) ctx \<longleftrightarrow> awake ctx \<and> current_task ctx \<noteq> NULL \<and> p \<in> dom (tasks ctx) \<and> enough (alive ctx) ctx polls"
| "allowed (Task_Yield jump polls) ctx \<longleftrightarrow> awake ctx \<and> jump \<noteq> HEV_TASK_SCHED_REMOVE \<and> (jump = Sched_First \<longleftrightarrow> current_task ctx = NULL)
     \<and> enough (alive ctx) ctx polls"
| "allowed (Task_End polls) ctx \<longleftrightarrow> awake ctx \<and> current_task ctx \<noteq> NULL
     \<and> (let j = joiner (the (tasks ctx (current_task ctx))) in j = NULL \<or> j \<in> alive ctx)
     \<and> enough (alive ctx - {current_task ctx}) ctx polls"
| "allowed (Task_Exit polls) ctx \<longleftrightarrow> awake ctx \<and> current_task ctx \<noteq> NULL \<and> enough (alive ctx - {current_task ctx}) ctx polls"
| "allowed (Sleep_Begin node now ms polls) ctx \<longleftrightarrow> awake ctx \<and> current_task ctx \<noteq> NULL
     \<and> node \<notin> dom (timer_nodes ctx) \<and> aligned node \<and> node \<noteq> NULL \<and> clock_reading now
     \<and> enough (alive ctx) (ctx\<lparr>timer_nodes := (timer_nodes ctx)(node \<mapsto>
         \<lparr>tn_expire = hev_task_timer_get_expire now ms, tn_task = current_task ctx\<rparr>)\<rparr>) polls"
| "allowed (Sleep_End node leftmost now) ctx \<longleftrightarrow>
     (\<exists>n. timer_nodes ctx node = Some n \<and> tn_task n = current_task ctx)"

fun task_run :: "task_op list \<Rightarrow> task_system \<Rightarrow> task_system option" where
  "task_run [] ctx = Some ctx"
| "task_run (op # ops) ctx = do { ctx \<leftarrow> task_exec op ctx; task_run ops ctx }"

fun all_allowed :: "task_op list \<Rightarrow> task_system \<Rightarrow> bool" where
  "all_allowed [] ctx \<longleftrightarrow> True"
| "all_allowed (op # ops) ctx \<longleftrightarrow> allowed op ctx \<and> (\<forall>ctx'. task_exec op ctx = Some ctx' \<longrightarrow> all_allowed ops ctx')"

definition task_inv :: "task_system \<Rightarrow> bool" where
  "task_inv ctx \<longleftrightarrow> sched_inv ctx \<and> (current_task ctx = NULL \<or> current_task ctx \<in> runnable ctx)"

section \<open>Operations on a task\<close>

lemma set_task_harmless:
  assumes inv: "sched_inv ctx" and t: "tasks ctx p = Some t"
    and f: "t_state (f t) = t_state t" "sched_key (f t) = sched_key t" "task_ok ctx p (f t)"
  shows "returns (set_task p f ctx) (\<lambda>c. sched_inv c \<and> alive c = alive ctx \<and> runnable c = runnable ctx
    \<and> timer_nodes c = timer_nodes ctx \<and> current_task c = current_task ctx)"
proof -
  obtain rs ws where q: "queue_ok ctx rs" and h: "heap_ok ctx" and w: "sleepers_ok ctx ws" using inv by (auto simp: sched_inv_def)
  let ?c = "ctx\<lparr>tasks := (tasks ctx)(p \<mapsto> f t)\<rparr>"
  have al: "alive ?c = alive ctx" "runnable ?c = runnable ctx" using t f by (auto simp: alive_def runnable_def)
  have "key ?c = key ctx" using t f by auto
  then have "queue_ok ?c rs" using q al by (simp add: queue_ok_def)
  moreover have "heap_ok ?c" using h al f t by (intro heap_ok_same [OF h _ t f(3)]) (auto simp: heap_ok_def)
  moreover have "sleepers_ok ?c ws" using al by (intro sleepers_ok_same [OF w]) auto
  ultimately show ?thesis using t al by (auto simp: set_task_def sched_inv_def)
qed

lemma ok_task: "sched_inv ctx \<Longrightarrow> tasks ctx p = Some t \<Longrightarrow> task_ok ctx p t"
  by (auto simp: sched_inv_def heap_ok_def)

lemma new_correct:
  assumes inv: "sched_inv ctx" and new: "self \<notin> dom (tasks ctx)" "aligned self" "self \<notin> allocated (ct_base (running_tasks ctx))"
  shows "let c = snd (task_new self stack ctx) in sched_inv c \<and> alive c = alive ctx \<and> runnable c = runnable ctx
    \<and> timer_nodes c = timer_nodes ctx \<and> current_task c = current_task ctx"
proof (cases "self = NULL \<or> \<not> stack")
  case True
  then show ?thesis using inv by (auto simp: task_new_def)
next
  case False
  obtain rs ws where q: "queue_ok ctx rs" and h: "heap_ok ctx" and w: "sleepers_ok ctx ws" using inv by (auto simp: sched_inv_def)
  let ?t = "\<lparr>sched_key = 0, joiner = NULL, ref_count = 1, priority = 0, next_priority = HEV_TASK_PRIORITY_DEFAULT, t_state = HEV_TASK_STOPPED\<rparr>"
  let ?c = "ctx\<lparr>tasks := (tasks ctx)(self \<mapsto> ?t), running_tasks := set_node self (Some node0) (running_tasks ctx), all_tasks := all_tasks ctx @ [self]\<rparr>"
  have al: "alive ?c = alive ctx" "runnable ?c = runnable ctx" using new(1) by (auto simp: alive_def runnable_def)
  have "self \<notin> set rs" using q new(1) by (auto simp: queue_ok_def runnable_def)
  then have "queue_ok ?c rs"
    using q holds_queue_set_node [of self rs "running_tasks ctx"] by (intro queue_ok_outside [OF q, of _ self "Some ?t"]) (simp_all add: queue_ok_def)
  moreover have "task_ok ?c p t" if "tasks ?c p = Some t" for p t
    using that h False new by (cases "p = self") (auto simp: heap_ok_def task_ok_def allocated_set_node HEV_TASK_PRIORITY_DEFAULT_def)
  then have "heap_ok ?c" using h al new(1) by (simp add: heap_ok_def)
  moreover have "sleepers_ok ?c ws" using al by (intro sleepers_ok_same [OF w]) auto
  ultimately have "sched_inv ?c" by (auto simp: sched_inv_def)
  moreover have "snd (task_new self stack ctx) = ?c" using False by (simp add: task_new_def)
  ultimately show ?thesis using al by (simp add: Let_def)
qed

lemma unref_correct:
  assumes inv: "sched_inv ctx" and t: "tasks ctx p = Some t" and own: "p \<in> alive ctx \<Longrightarrow> 2 \<le> ref_count t"
  shows "returns (task_unref p ctx) (\<lambda>c. sched_inv c \<and> alive c = alive ctx \<and> runnable c = runnable ctx
    \<and> timer_nodes c = timer_nodes ctx \<and> current_task c = current_task ctx)"
proof (cases "ref_count t = 1")
  case True
  obtain rs ws where q: "queue_ok ctx rs" and h: "heap_ok ctx" and w: "sleepers_ok ctx ws" using inv by (auto simp: sched_inv_def)
  let ?c = "ctx\<lparr>all_tasks := remove1 p (all_tasks ctx), running_tasks := set_node p None (running_tasks ctx), tasks := (tasks ctx)(p := None)\<rparr>"
  have dead: "p \<notin> alive ctx" "p \<notin> runnable ctx" using own True by (auto simp: alive_def runnable_def)
  then have al: "alive ?c = alive ctx" "runnable ?c = runnable ctx" by (auto simp: alive_def runnable_def)
  have "p \<notin> set rs" using q dead by (simp add: queue_ok_def)
  then have "queue_ok ?c rs"
    using q holds_queue_set_node [of p rs "running_tasks ctx"] by (intro queue_ok_outside [OF q, of _ p None]) (simp_all add: queue_ok_def)
  moreover have "task_ok ?c r u" if "tasks ?c r = Some u" for r u
    using that h by (cases "r = p") (auto simp: heap_ok_def task_ok_def allocated_set_node)
  then have "heap_ok ?c" using h al by (simp add: heap_ok_def)
  moreover have "sleepers_ok ?c ws" using al by (intro sleepers_ok_same [OF w]) auto
  ultimately have "sched_inv ?c" by (auto simp: sched_inv_def)
  then show ?thesis using unref_effect [OF t] True al by simp
next
  case False
  let ?f = "\<lambda>t. t\<lparr>ref_count := ref_count t - 1\<rparr>"
  have "task_unref p ctx = set_task p ?f ctx" using unref_effect [OF t] False t by (simp add: set_task_def)
  then show ?thesis
    using set_task_harmless [OF inv t, of ?f] ok_task [OF inv t] False by (simp add: task_ok_def)
qed

text \<open>A stopped task is put into the run queue.\<close>

lemma run_correct:
  assumes inv: "sched_inv ctx" and t: "tasks ctx p = Some t" and n: "Suc (card (alive ctx)) < 2 ^ 32"
  shows "returns (hev_task_run p ctx) (\<lambda>c. sched_inv c \<and> alive c = insert p (alive ctx) \<and> runnable ctx \<subseteq> runnable c
    \<and> (t_state t = HEV_TASK_STOPPED \<longrightarrow> p \<in> runnable c) \<and> timer_nodes c = timer_nodes ctx \<and> current_task c = current_task ctx)"
proof (cases "t_state t = HEV_TASK_STOPPED")
  case False
  then show ?thesis using inv t by (auto simp: hev_task_run_def alive_def)
next
  case True
  obtain rs ws where q: "queue_ok ctx rs" and h: "heap_ok ctx" and w: "sleepers_ok ctx ws" using inv by (auto simp: sched_inv_def)
  let ?t0 = "t\<lparr>priority := next_priority t, sched_key := word_of_int (next_priority t)\<rparr>"
  let ?c0 = "ctx\<lparr>tasks := (tasks ctx)(p \<mapsto> ?t0)\<rparr>"
  have new: "p \<notin> set rs" "p \<notin> alive ctx" using q t True by (auto simp: queue_ok_def runnable_def alive_def)
  have "queue_ok ?c0 rs" using new q True by (intro queue_ok_outside [OF q, of _ p "Some ?t0"]) (simp_all add: queue_ok_def)
  then obtain m where m: "hev_task_system_get_min_sched_key ?c0 = Some m" using min_sched_key by blast
  let ?k = "word_of_int (next_priority t) + (if current_task ctx \<noteq> NULL then m else 0)"
  let ?t = "t\<lparr>sched_key := ?k, t_state := HEV_TASK_RUNNING, priority := next_priority t\<rparr>"
  let ?ctx = "ctx\<lparr>tasks := (tasks ctx)(p \<mapsto> ?t)\<rparr>"
  have ok: "task_ok ctx p ?t" using ok_task [OF inv t] by (simp add: task_ok_def)
  have "Suc (length rs) < 2 ^ 32" using n queue_bound(3) [OF q h] by linarith
  from enter_queue [OF q h t _ _ ok this]
  obtain c where c: "sched_tree_insert p ?ctx = Some (?ctx\<lparr>running_tasks := c\<rparr>)" "allocated (ct_base c) = allocated (ct_base (running_tasks ctx))"
      "queue_ok (?ctx\<lparr>running_tasks := c, running_task_count := running_task_count ctx + 1\<rparr>) (enqueue (<) (key ?ctx) p rs)"
    using True by auto
  let ?c = "?ctx\<lparr>running_tasks := c, running_task_count := running_task_count ctx + 1, total_task_count := total_task_count ctx + 1\<rparr>"
  have run: "hev_task_run p ctx = Some ?c"
    using t m c(1) True
    by (cases "current_task ctx = NULL")
      (simp_all add: hev_task_run_def hev_task_system_run_new_task_def hev_task_system_insert_task_def set_task_def)
  have al: "alive ?c = insert p (alive ctx)" "runnable ?c = insert p (runnable ctx)" by (auto simp: alive_def runnable_def)
  have "queue_ok ?c (enqueue (<) (key ?ctx) p rs)" using c(3) al by (simp add: queue_ok_def runnable_def)
  moreover have "unat (total_task_count ctx + 1) = Suc (card (alive ctx))" using h n by (simp add: heap_ok_def unat_word_ariths)
  then have "heap_ok ?c"
    using h ok c(2) t al(1) new(2) finite_alive [OF h] by (intro heap_ok_same [OF h _ t, of _ ?t]) (simp_all add: heap_ok_def)
  moreover have "sleepers_ok ?c ws" using al by (intro sleepers_ok_same [OF w]) auto
  ultimately have "sched_inv ?c" by (auto simp: sched_inv_def)
  with run al show ?thesis by auto
qed

lemma executer_end_correct:
  assumes inv: "sched_inv ctx" and t: "tasks ctx (current_task ctx) = Some t" and j: "joiner t = NULL \<or> joiner t \<in> alive ctx"
  shows "returns (executer_end ctx) (\<lambda>c. sched_inv c \<and> only_wakes ctx c)"
  using inv t j wakeup_correct [OF inv, of "joiner t"] by (auto simp: executer_end_def elim!: returns_mono)

section \<open>Sleeping\<close>

lemma wait_begin_correct:
  assumes inv: "sched_inv ctx" and p: "p \<in> alive ctx" and now: "clock_reading now"
    and node: "node \<notin> dom (timer_nodes ctx)" "aligned node" "node \<noteq> NULL"
  shows "returns (timer_wait_begin node now ms p ctx) (\<lambda>(leftmost, c). sched_inv c \<and> alive c = alive ctx \<and> runnable c = runnable ctx
    \<and> timer_nodes c = (timer_nodes ctx)(node \<mapsto> \<lparr>tn_expire = hev_task_timer_get_expire now ms, tn_task = p\<rparr>)
    \<and> current_task c = current_task ctx)"
proof -
  obtain rs ws where q: "queue_ok ctx rs" and h: "heap_ok ctx" and w: "sleepers_ok ctx ws" using inv by (auto simp: sched_inv_def)
  let ?e = "hev_task_timer_get_expire now ms"
  let ?c = "ctx\<lparr>timer_nodes := (timer_nodes ctx)(node \<mapsto> \<lparr>tn_expire = ?e, tn_task = p\<rparr>),
      sort_tree := set_node node (Some node0) (sort_tree ctx)\<rparr>"
  let ?below = "\<lambda>q. do { this \<leftarrow> timer_nodes ?c q; Some (hev_task_timer_node_cmp (?e, node) (tn_expire this, q) < 0) }"
  let ?ws = "enqueue sooner (tkey ?c) node ws"
  have new: "node \<notin> set ws" using w node(1) by (simp add: sleepers_ok_def)
  have hq: "holds_queue (sort_tree ?c) ws" using w new holds_queue_set_node by (simp add: sleepers_ok_def)
  have "tkey ?c a = tkey ctx a" if "a \<in> set ws" for a using that new by auto
  then have io: "in_order sooner (tkey ?c) ws"
    using w in_order_cong [of ws "tkey ctx" "tkey ?c" sooner] by (simp add: sleepers_ok_def)
  have below: "?below a = Some (sooner (tkey ?c node) (tkey ?c a))" if "a \<in> set ws" for a
  proof -
    have "a \<noteq> node" "a \<in> dom (timer_nodes ctx)" using that new w by (auto simp: sleepers_ok_def)
    then show ?thesis by (auto simp: sooner_def)
  qed
  have "nodes (ct_base (sort_tree ?c)) node \<noteq> None" by (simp add: set_node_def)
  from by_expiry.add_correct [of "sort_tree ?c" ws "tkey ?c" ?below node, OF hq io below this node(2,3) new]
  obtain c where c: "cached_add ?below (sort_tree ?c) node = Some (hd ?ws = node, c)" "holds_queue c ?ws" "in_order sooner (tkey ?c) ?ws"
    by blast
  let ?c' = "?c\<lparr>sort_tree := c\<rparr>"
  have run: "timer_wait_begin node now ms p ctx = Some (hd ?ws = node, ?c')"
    using c(1) unfolding timer_wait_begin_def Let_def by simp
  have al: "alive ?c' = alive ctx" "runnable ?c' = runnable ctx" by (auto simp: alive_def runnable_def)
  have "queue_ok ?c' rs" using q al by (simp add: queue_ok_def)
  moreover have "heap_ok ?c'" using h al by (simp add: heap_ok_def task_ok_def)
  moreover have "sleepers_ok ?c' ?ws"
    using w c(2,3) al(1) p get_expire_meaning(2) [OF now, of ms] by (auto simp: sleepers_ok_def split: if_splits)
  ultimately have "sched_inv ?c'" by (auto simp: sched_inv_def)
  with run al show ?thesis by simp
qed

text \<open>Waking does not look at the timer.\<close>

abbreviation with_timer :: "(ptr \<rightharpoonup> timer_node) \<Rightarrow> hev_rbtree_cached \<Rightarrow> task_system \<Rightarrow> task_system" where
  "with_timer ns tree ctx \<equiv> ctx\<lparr>timer_nodes := ns, sort_tree := tree\<rparr>"

lemma wakeup_with_timer:
  "hev_task_system_wakeup_task_with_context p (with_timer ns tree ctx)
    = map_option (with_timer ns tree) (hev_task_system_wakeup_task_with_context p ctx)"
  by (simp add: hev_task_system_wakeup_task_with_context_def hev_task_system_insert_task_def hev_task_system_get_min_sched_key_def
    sched_tree_insert_def set_task_def Let_def split: option.splits Option.bind_splits)

lemma wait_end_correct:
  assumes inv: "sched_inv ctx" and n: "timer_nodes ctx node = Some n"
  shows "returns (timer_wait_end node leftmost now ctx) (\<lambda>(left, c). sched_inv c \<and> alive c = alive ctx \<and> runnable ctx \<subseteq> runnable c
    \<and> timer_nodes c = (timer_nodes ctx)(node := None) \<and> current_task c = current_task ctx
    \<and> left = hev_task_timer_get_time now (tn_expire n))"
proof -
  obtain rs ws where q: "queue_ok ctx rs" and h: "heap_ok ctx" and w: "sleepers_ok ctx ws" using inv by (auto simp: sched_inv_def)
  have "node \<in> set ws" using n w by (auto simp: sleepers_ok_def)
  then obtain xs ys where xy: "ws = xs @ node # ys" using split_list by metis
  have "distinct ws" using w holds_queue_distinct by (auto simp: sleepers_ok_def)
  then have d: "node \<notin> set (xs @ ys)" "set (xs @ ys) = set ws - {node}" by (auto simp: xy)
  have "holds_queue (sort_tree ctx) (xs @ node # ys)" using w xy by (simp add: sleepers_ok_def)
  from cached_erase_queue [OF this]
  obtain c where c: "hev_rbtree_cached_erase (sort_tree ctx) node = Some c" "holds_queue c (xs @ ys)" by blast
  let ?c1 = "ctx\<lparr>sort_tree := c\<rparr>"
  let ?c2 = "ctx\<lparr>timer_nodes := (timer_nodes ctx)(node := None), sort_tree := set_node node None c\<rparr>"
  have al: "alive ?c2 = alive ctx" "runnable ?c2 = runnable ctx" by (auto simp: alive_def runnable_def)
  have "in_order sooner (tkey ctx) (xs @ ys)" using w xy in_order_without [of sooner "tkey ctx" xs node ys] by (simp add: sleepers_ok_def)
  moreover have "tkey ?c2 a = tkey ctx a" if "a \<in> set (xs @ ys)" for a using that d by auto
  ultimately have "in_order sooner (tkey ?c2) (xs @ ys)"
    using in_order_cong [of "xs @ ys" "tkey ctx" "tkey ?c2" sooner] by simp
  moreover have "holds_queue (set_node node None c) (xs @ ys)" using c(2) d(1) by (intro holds_queue_set_node)
  ultimately have "sleepers_ok ?c2 (xs @ ys)"
    using w d al(1) by (auto simp: sleepers_ok_def split: if_splits)
  moreover have "queue_ok ?c2 rs" "heap_ok ?c2" using q h al by (simp_all add: queue_ok_def heap_ok_def task_ok_def)
  ultimately have inv2: "sched_inv ?c2" by (auto simp: sched_inv_def)
  have c1: "?c1 = with_timer (timer_nodes ctx) c ?c2" by (cases ctx) simp
  have first: "hev_rbtree_cached_first (sort_tree ?c1) = hev_rbtree_cached_first c" "hev_rbtree_cached_first (sort_tree ?c2) = hev_rbtree_cached_first c"
    by (simp_all add: hev_rbtree_cached_first_def set_node_def)
  have "hev_rbtree_cached_first c \<noteq> NULL \<Longrightarrow> hev_rbtree_cached_first c \<noteq> node"
    using holds_queue_first [OF c(2)] d(1) by (cases "xs @ ys") auto
  then have eq: "hev_task_timer_wakeup now ?c1 = map_option (with_timer (timer_nodes ctx) c) (hev_task_timer_wakeup now ?c2)"
    unfolding hev_task_timer_wakeup_def Let_def first using c1 wakeup_with_timer [of _ c "timer_nodes ctx" ?c2]
    by (auto split: Option.bind_splits)
  obtain c2 where c2: "hev_task_timer_wakeup now ?c2 = Some c2" "sched_inv c2" "only_wakes ?c2 c2"
    using timer_wakeup_correct [OF inv2, of now] by (auto simp: returns_def)
  then have same: "with_timer ((timer_nodes ctx)(node := None)) (set_node node None c) c2 = c2"
    by (cases c2) (simp add: only_wakes_def)
  let ?l = "leftmost \<or> node = hev_rbtree_cached_first (sort_tree ctx)"
  have "timer_wait_end node leftmost now ctx = Some (hev_task_timer_get_time now (tn_expire n), if ?l then c2 else ?c2)"
    using n c(1) eq c2(1) same by (cases ?l) (simp_all add: timer_wait_end_def)
  with c2 inv2 al show ?thesis by (auto simp: only_wakes_def)
qed

section \<open>No operation breaks the task system\<close>

lemma null_not_runnable: "sched_inv ctx \<Longrightarrow> NULL \<notin> alive ctx" "sched_inv ctx \<Longrightarrow> runnable ctx \<subseteq> alive ctx"
  by (auto simp: alive_def runnable_def sched_inv_def heap_ok_def task_ok_def)

lemma schedule_keeps:
  assumes "sched_inv ctx" "jump \<noteq> Sched_First \<Longrightarrow> current_task ctx \<in> runnable ctx" "jump = HEV_TASK_SCHED_REMOVE \<Longrightarrow> awake ctx"
    and "enough (remaining jump ctx) ctx polls"
  shows "returns (do { (polls, ctx) \<leftarrow> hev_task_system_schedule jump polls ctx; Some ctx }) task_inv"
proof -
  have "returns (hev_task_system_schedule jump polls ctx) (\<lambda>(polls', ctx'). sched_inv ctx' \<and> alive ctx' = remaining jump ctx
    \<and> set polls' \<subseteq> set polls \<and> timer_nodes ctx' = timer_nodes ctx
    \<and> (if remaining jump ctx = {} then current_task ctx' = NULL else picked ctx'))"
    using assms by (intro schedule_correct) (auto simp: enough_def awake_def)
  then show ?thesis
    unfolding returns_bind by (rule returns_mono) (auto simp: task_inv_def picked_def split: if_splits)
qed

lemma enough_same:
  "enough A ctx polls \<Longrightarrow> timer_nodes ctx' = timer_nodes ctx \<Longrightarrow> enough A ctx' polls"
  by (auto simp: enough_def stirs_def expired_def)

lemma exec_keeps:
  assumes inv: "task_inv ctx" and ok: "allowed op ctx"
  shows "returns (task_exec op ctx) task_inv"
proof -
  have si: "sched_inv ctx" and cur: "current_task ctx \<noteq> NULL \<Longrightarrow> current_task ctx \<in> runnable ctx" using inv by (auto simp: task_inv_def)
  have keep: "task_inv c" if "sched_inv c" "runnable ctx \<subseteq> runnable c" "current_task c = current_task ctx" for c
    using that cur by (auto simp: task_inv_def)
  have set: "returns (set_task p f ctx) task_inv"
    if "tasks ctx p = Some t" "t_state (f t) = t_state t" "sched_key (f t) = sched_key t" "task_ok ctx p (f t)" for p f t
    using set_task_harmless [of ctx p t f] si that keep by (auto elim!: returns_mono)
  show ?thesis
  proof (cases op)
    case (Task_New self stack)
    then show ?thesis using new_correct [OF si] ok keep by (auto simp: Let_def)
  next
    case (Task_Ref p)
    then obtain t where t: "tasks ctx p = Some t" using ok by auto
    show ?thesis
      using ok_task [OF si t] Task_Ref by (auto simp: hev_task_ref_def task_ok_def intro: set [OF t])
  next
    case (Task_Unref p)
    then obtain t where t: "tasks ctx p = Some t" using ok by auto
    show ?thesis using unref_correct [OF si t] ok t keep Task_Unref by (auto elim!: returns_mono)
  next
    case (Task_Set_Priority p prio)
    then obtain t where t: "tasks ctx p = Some t" using ok by auto
    show ?thesis
      using ok_task [OF si t] Task_Set_Priority
      by (auto simp: hev_task_set_priority_def Let_def task_ok_def HEV_TASK_PRIORITY_MIN_def HEV_TASK_PRIORITY_MAX_def intro: set [OF t])
  next
    case (Task_Run p)
    then obtain t where t: "tasks ctx p = Some t" using ok by auto
    show ?thesis using run_correct [OF si t] ok keep Task_Run by (auto elim!: returns_mono)
  next
    case (Task_Wakeup p)
    then show ?thesis using wakeup_correct [OF si, of p] ok keep by (auto simp: only_wakes_def elim!: returns_mono)
  next
    case (Task_Join p)
    then obtain t where t: "tasks ctx p = Some t" using ok by auto
    show ?thesis
      using set [OF t, of "\<lambda>t. t\<lparr>joiner := hev_task_self ctx\<rparr>"] ok_task [OF si t] inv Task_Join t by (simp add: join_begin_def task_ok_def)
  next
    case (Join_Round p polls)
    then obtain t where t: "tasks ctx p = Some t" using ok by auto
    show ?thesis
    proof (cases "t_state t = HEV_TASK_STOPPED")
      case True
      then show ?thesis using Join_Round t inv by (simp add: join_round_def hev_task_get_state_def)
    next
      case False
      then have "p \<in> alive ctx" using t by (simp add: alive_def)
      then obtain c where c: "hev_task_system_wakeup_task_with_context p ctx = Some c" "sched_inv c" "only_wakes ctx c"
        using wakeup_correct [OF si] by (auto simp: returns_def)
      have "returns (do { (polls, ctx) \<leftarrow> hev_task_system_schedule HEV_TASK_SCHED_WAITIO polls c; Some ctx }) task_inv"
        using c ok cur Join_Round by (intro schedule_keeps) (auto simp: only_wakes_def remaining_def intro: enough_same [of _ ctx])
      then show ?thesis using Join_Round False t c(1) by (simp add: join_round_def hev_task_get_state_def)
    qed
  next
    case (Task_Yield jump polls)
    then show ?thesis using schedule_keeps [OF si, of jump polls] ok cur by (simp add: remaining_def)
  next
    case (Task_End polls)
    then have a: "awake ctx" "current_task ctx \<noteq> NULL" and e: "enough (alive ctx - {current_task ctx}) ctx polls" using ok by simp_all
    then obtain t where t: "tasks ctx (current_task ctx) = Some t" using cur by (auto simp: runnable_def)
    then obtain c where c: "executer_end ctx = Some c" "sched_inv c" "only_wakes ctx c"
      using executer_end_correct [OF si t] ok Task_End by (auto simp: returns_def Let_def)
    have "returns (do { (polls, ctx) \<leftarrow> hev_task_system_schedule HEV_TASK_SCHED_REMOVE polls c; Some ctx }) task_inv"
      using c a e cur by (intro schedule_keeps) (auto simp: only_wakes_def remaining_def awake_def intro: enough_same [of _ ctx])
    then show ?thesis using Task_End c(1) by simp
  next
    case (Task_Exit polls)
    then show ?thesis using schedule_keeps [OF si, of HEV_TASK_SCHED_REMOVE polls] ok cur by (simp add: remaining_def)
  next
    case (Sleep_Begin node now ms polls)
    show ?thesis
    proof (cases "ms = 0")
      case True
      then show ?thesis using Sleep_Begin inv by simp
    next
      case False
      let ?ns = "(timer_nodes ctx)(node \<mapsto> \<lparr>tn_expire = hev_task_timer_get_expire now ms, tn_task = current_task ctx\<rparr>)"
      have p: "current_task ctx \<in> alive ctx" using ok Sleep_Begin cur null_not_runnable(2) [OF si] by auto
      obtain l c where c: "timer_wait_begin node now ms (current_task ctx) ctx = Some (l, c)" "sched_inv c" "alive c = alive ctx"
          "runnable c = runnable ctx" "timer_nodes c = ?ns" "current_task c = current_task ctx"
        using wait_begin_correct [OF si p, of now node ms] ok Sleep_Begin by (auto simp: returns_def)
      have "enough (alive ctx) c polls" using ok Sleep_Begin c(5) by (auto intro: enough_same)
      then have "returns (do { (polls, ctx) \<leftarrow> hev_task_system_schedule HEV_TASK_SCHED_WAITIO polls c; Some ctx }) task_inv"
        using c ok cur Sleep_Begin by (intro schedule_keeps) (auto simp: remaining_def)
      then show ?thesis using Sleep_Begin False c(1) by simp
    qed
  next
    case (Sleep_End node leftmost now)
    then obtain n where n: "timer_nodes ctx node = Some n" using ok by auto
    show ?thesis using wait_end_correct [OF si n, of leftmost now] keep Sleep_End by (auto elim!: returns_mono)
  qed
qed

lemma init_inv: "task_inv task_system0"
proof -
  have "queue_ok task_system0 []"
    using holds_queue_empty by (auto simp: queue_ok_def task_system0_def in_order_def runnable_def)
  moreover have "heap_ok task_system0" by (simp add: heap_ok_def task_system0_def alive_def)
  moreover have "sleepers_ok task_system0 []"
    using holds_queue_empty by (auto simp: sleepers_ok_def task_system0_def in_order_def)
  ultimately show ?thesis by (auto simp: task_inv_def sched_inv_def task_system0_def)
qed

lemma run_keeps: "task_inv ctx \<Longrightarrow> all_allowed ops ctx \<Longrightarrow> returns (task_run ops ctx) task_inv"
proof (induction ops arbitrary: ctx)
  case (Cons op ops)
  have "returns (task_exec op ctx) task_inv" using Cons(2,3) by (intro exec_keeps) auto
  then show ?case
    unfolding task_run.simps returns_bind using Cons(1,3) by (auto elim!: returns_mono)
qed simp

text \<open>
  C25. The task system is safe. Whatever tasks do, from the start on, in any order: as long as each operation respects the rules for its caller, no
  operation touches a task or a node that has been freed, none aborts, none runs forever while a poll still has something to report, and
  afterwards the run queue holds exactly the tasks that are running, ordered by their keys, in a red-black tree with its
  first node at hand, the counters count, every task has a reference, and the sleepers are ordered by the time at which they expire.
\<close>

theorem tasks_are_safe:
  assumes "all_allowed ops task_system0"
  shows "\<exists>ctx. task_run ops task_system0 = Some ctx \<and> task_inv ctx"
  using run_keeps [OF init_inv assms] by (auto simp: returns_def)

text \<open>A task is made and started, and the scheduler runs it.\<close>

definition poll_of :: "ptr \<Rightarrow> poll" where
  "poll_of p = \<lparr>p_before = \<lparr>tv_sec = 0, tv_nsec = 0\<rparr>, p_wait = (\<lambda>_. [p]), p_after = \<lparr>tv_sec = 0, tv_nsec = 0\<rparr>\<rparr>"

lemma poll_of_enough: "p \<in> A \<Longrightarrow> enough A ctx [poll_of p]"
  by (simp add: enough_def poll_ok_def stirs_def poll_of_def)

definition first_ops :: "task_op list" where
  "first_ops = [Task_New 8 True, Task_Run 8, Task_Yield Sched_First [poll_of 8]]"

lemma first_ops_allowed: "all_allowed first_ops task_system0"
proof -
  let ?c = "snd (task_new 8 True task_system0)"
  have new: "allowed (Task_New 8 True) task_system0"
    by (simp add: awake_def task_system0_def aligned_def allocated_def)
  have c: "sched_inv ?c" "alive ?c = {}" "timer_nodes ?c = Map.empty" "current_task ?c = NULL"
    using new_correct [of task_system0 8 True] init_inv new
    by (auto simp: task_inv_def Let_def task_system0_def alive_def)
  obtain t where t: "tasks ?c 8 = Some t" by (auto simp: task_new_def)
  have "allowed (Task_Run 8) ?c" using c t by (simp add: awake_def dom_def)
  moreover have "allowed (Task_Yield Sched_First [poll_of 8]) ctx" if "hev_task_run 8 ?c = Some ctx" for ctx
    using that run_correct [OF c(1) t] c by (auto simp: awake_def intro: poll_of_enough)
  ultimately show ?thesis using new by (simp add: first_ops_def)
qed

theorem tasks_are_safe_witness:
  "\<exists>ctx. task_run first_ops task_system0 = Some ctx \<and> task_inv ctx"
  by (rule tasks_are_safe [OF first_ops_allowed])

section \<open>Every task has its turn\<close>

text \<open>A yield while every task is running needs no poll: the task is charged its priority, and the lowest key is next.\<close>

lemma switch_step:
  assumes inv: "sched_inv ctx" and cur: "current_task ctx \<in> runnable ctx" "tasks ctx (current_task ctx) = Some t" and all: "runnable ctx = alive ctx"
  shows "\<exists>ctx'. hev_task_system_schedule HEV_TASK_SCHED_SWITCH [] ctx = Some ([], ctx') \<and> sched_inv ctx' \<and> picked ctx'
    \<and> runnable ctx' = runnable ctx \<and> alive ctx' = alive ctx
    \<and> tasks ctx' = (tasks ctx)(current_task ctx \<mapsto> t\<lparr>sched_key := sched_key t + word_of_int (priority t), priority := next_priority t\<rparr>)"
proof -
  obtain rs ws where q: "queue_ok ctx rs" and h: "heap_ok ctx" and w: "sleepers_ok ctx ws" using inv by (auto simp: sched_inv_def)
  have "current_task ctx \<in> set rs" using cur(1) q by (simp add: queue_ok_def)
  from current_switches [OF q h w refl this cur(2)] obtain c ctx1 where
    c: "do { ctx \<leftarrow> hev_task_system_update_sched_key ctx; hev_task_system_reinsert_current_task ctx } = Some ctx1"
      "ctx1 = ctx\<lparr>tasks := (tasks ctx)(current_task ctx \<mapsto> t\<lparr>sched_key := sched_key t + word_of_int (priority t), priority := next_priority t\<rparr>),
        running_tasks := c\<rparr>" and rs: "queue_ok ctx1 (enqueue (<) (key ctx1) (current_task ctx) (remove1 (current_task ctx) rs))"
    and h1: "heap_ok ctx1" and "sleepers_ok ctx1 ws"
    by blast
  then have inv1: "sched_inv ctx1" by (auto simp: sched_inv_def)
  have "t_state t = HEV_TASK_RUNNING" using cur by (auto simp: runnable_def)
  then have al: "alive ctx1 = alive ctx" "runnable ctx1 = runnable ctx" using c(2) cur(2) by (auto simp: alive_def runnable_def)
  have ne: "runnable ctx1 \<noteq> {}" "alive ctx1 \<noteq> {}" using al cur(1) all by auto
  have "unat (running_task_count ctx1) = card (runnable ctx1)" "unat (total_task_count ctx1) = card (alive ctx1)"
    using rs h1 queue_bound(1) [OF rs h1] by (simp_all add: queue_ok_def heap_ok_def)
  then have "\<not> running_task_count ctx1 < total_task_count ctx1" using al all by (simp add: word_less_nat_alt)
  moreover have "total_task_count ctx1 \<noteq> 0" using none_alive [OF inv1] ne(2) by blast
  ultimately have "hev_task_system_schedule HEV_TASK_SCHED_SWITCH [] ctx
      = Some ([], ctx1\<lparr>current_task := hev_rbtree_cached_first (running_tasks ctx1)\<rparr>)"
    using c(1) by (simp add: hev_task_system_schedule_def hev_task_system_pick_current_task_def)
  then show ?thesis using first_picked [OF inv1 ne(1)] inv1 al c(2) by auto
qed

fun yields :: "nat \<Rightarrow> task_system \<Rightarrow> task_system option" where
  "yields 0 ctx = Some ctx"
| "yields (Suc n) ctx = do { (polls, ctx) \<leftarrow> hev_task_system_schedule HEV_TASK_SCHED_SWITCH [] ctx; yields n ctx }"

text \<open>How many turns a task can take before its key is above that of \<open>p\<close>.\<close>

definition turns :: "task_system \<Rightarrow> ptr \<Rightarrow> ptr \<Rightarrow> nat" where
  "turns ctx p q = Suc (unat (key ctx p)) - unat (key ctx q)"

definition turns_before :: "task_system \<Rightarrow> ptr \<Rightarrow> nat" where
  "turns_before ctx p = (\<Sum>q\<in>runnable ctx - {p}. turns ctx p q)"

text \<open>Every other task is charged for its turns.\<close>

definition charged :: "task_system \<Rightarrow> ptr \<Rightarrow> bool" where
  "charged ctx p \<longleftrightarrow> (\<forall>q t. q \<noteq> p \<longrightarrow> tasks ctx q = Some t \<longrightarrow> 1 \<le> priority t \<and> 1 \<le> next_priority t)"

lemma turn_taken:
  assumes inv: "sched_inv ctx" and pick: "picked ctx" and p: "p \<in> runnable ctx" "current_task ctx \<noteq> p" and ch: "charged ctx p"
    and room: "unat (key ctx p) + 15 < 2 ^ 64" and t: "tasks ctx (current_task ctx) = Some t"
    and ctx': "runnable ctx' = runnable ctx"
      "tasks ctx' = (tasks ctx)(current_task ctx \<mapsto> t\<lparr>sched_key := sched_key t + word_of_int (priority t), priority := next_priority t\<rparr>)"
  shows "turns_before ctx' p < turns_before ctx p"
proof -
  let ?c = "current_task ctx"
  obtain rs where q: "queue_ok ctx rs" and h: "heap_ok ctx" using inv by (auto simp: sched_inv_def)
  have fin: "finite (runnable ctx - {p})" using finite_alive [OF h] queue_bound(2) [OF q h] finite_subset by blast
  have c: "?c \<in> runnable ctx - {p}" "unat (key ctx ?c) \<le> unat (key ctx p)" using pick p by (auto simp: picked_def word_le_nat_alt)
  have pr: "1 \<le> priority t" "priority t \<le> 15" using ch p(2) t ok_task [OF inv t] by (auto simp: charged_def task_ok_def)
  then have "unat (word_of_int (priority t) :: 64 word) = nat (priority t)" by (simp add: unat_eq_nat_uint uint_word_of_int)
  then have "unat (key ctx' ?c) = unat (key ctx ?c) + nat (priority t)"
    using t ctx'(2) c(2) room pr by (simp add: unat_word_ariths)
  then have "turns ctx' p ?c < turns ctx p ?c" using c(2) pr p(2) ctx'(2) by (simp add: turns_def)
  moreover have "turns ctx' p q = turns ctx p q" if "q \<noteq> ?c" for q using that p(2) ctx'(2) by (simp add: turns_def)
  ultimately have "turns ctx' p q \<le> turns ctx p q" for q by (cases "q = ?c") auto
  with \<open>turns ctx' p ?c < turns ctx p ?c\<close> show ?thesis
    unfolding turns_before_def ctx'(1) using fin c(1) by (intro sum_strict_mono_ex1) blast+
qed

lemma turn_comes:
  "sched_inv ctx \<Longrightarrow> picked ctx \<Longrightarrow> runnable ctx = alive ctx \<Longrightarrow> p \<in> runnable ctx \<Longrightarrow> charged ctx p \<Longrightarrow> unat (key ctx p) + 15 < 2 ^ 64
    \<Longrightarrow> \<exists>n\<le>turns_before ctx p. \<exists>ctx'. yields n ctx = Some ctx' \<and> current_task ctx' = p"
proof (induction "turns_before ctx p" arbitrary: ctx rule: less_induct)
  case less
  show ?case
  proof (cases "current_task ctx = p")
    case True
    then show ?thesis by (intro exI [of _ 0]) auto
  next
    case False
    obtain t where t: "tasks ctx (current_task ctx) = Some t" using less(3) by (auto simp: picked_def runnable_def)
    have "current_task ctx \<in> runnable ctx" using less(3) by (simp add: picked_def)
    from switch_step [OF less(2) this t less(4)] obtain ctx' where
      s: "hev_task_system_schedule HEV_TASK_SCHED_SWITCH [] ctx = Some ([], ctx')" "sched_inv ctx'" "picked ctx'"
        "runnable ctx' = runnable ctx" "alive ctx' = alive ctx"
        "tasks ctx' = (tasks ctx)(current_task ctx \<mapsto> t\<lparr>sched_key := sched_key t + word_of_int (priority t), priority := next_priority t\<rparr>)"
      by blast
    have lt: "turns_before ctx' p < turns_before ctx p" using turn_taken [OF less(2,3,5) False less(6,7) t s(4,6)] .
    have "charged ctx' p" using less(6) s(6) t False by (auto simp: charged_def)
    moreover have "key ctx' p = key ctx p" using s(6) False by simp
    ultimately obtain n where "n \<le> turns_before ctx' p" "\<exists>ctx''. yields n ctx' = Some ctx'' \<and> current_task ctx'' = p"
      using less(1) [OF lt s(2,3)] s(4,5) less(4,5,7) by auto
    then show ?thesis using lt s(1) by (intro exI [of _ "Suc n"]) auto
  qed
qed

text \<open>
  C26. No task starves. While all tasks are running and yield to each other, each of them has its turn after a number of yields that is bounded by
  the keys, provided that every other task is charged for its turns, that is, has a priority above 0, and that the key is not about to wrap.
\<close>

theorem no_task_starves:
  assumes "sched_inv ctx" "picked ctx" "runnable ctx = alive ctx" "p \<in> runnable ctx" "charged ctx p" "unat (key ctx p) + 15 < 2 ^ 64"
  shows "\<exists>n\<le>turns_before ctx p. \<exists>ctx'. yields n ctx = Some ctx' \<and> current_task ctx' = p"
  using turn_comes [OF assms] .

text \<open>Two tasks with the same key, the second one waiting for its turn.\<close>

definition two_tasks :: task_system where
  "two_tasks = task_system0\<lparr>total_task_count := 2, running_task_count := 2, current_task := 8,
     running_tasks := \<lparr>ct_base = \<lparr>nodes = [8 \<mapsto> \<lparr>parent_color = 1, node_right = 16, node_left = NULL\<rparr>,
         16 \<mapsto> \<lparr>parent_color = 8, node_right = NULL, node_left = NULL\<rparr>], root = 8\<rparr>, ct_leftmost = 8\<rparr>,
     all_tasks := [8, 16],
     tasks := (\<lambda>p. if p = 8 \<or> p = 16 then Some \<lparr>sched_key = 8, joiner = NULL, ref_count = 1, priority = 8, next_priority = 8,
         t_state = HEV_TASK_RUNNING\<rparr> else None)\<rparr>"

lemma two_tasks_sets: "runnable two_tasks = {8, 16}" "alive two_tasks = {8, 16}"
  by (auto simp: runnable_def alive_def two_tasks_def)

lemma two_tasks_inv: "sched_inv two_tasks"
proof -
  have "holds_queue (running_tasks two_tasks) [8, 16]"
    unfolding holds_queue_def
    by (intro conjI exI [of _ "Nd Lf Black 8 (Nd Lf Red 16 Lf)"])
      (simp_all add: two_tasks_def rep_def rbt_ok_def aligned_def pcw_def HEV_RBTREE_BLACK_def HEV_RBTREE_RED_def)
  then have "queue_ok two_tasks [8, 16]"
    using two_tasks_sets by (simp add: queue_ok_def in_order_def two_tasks_def)
  moreover have "heap_ok two_tasks"
    using two_tasks_sets by (auto simp: heap_ok_def task_ok_def two_tasks_def aligned_def allocated_def dom_def split: if_splits)
  moreover have "sleepers_ok two_tasks []"
    using holds_queue_empty by (auto simp: sleepers_ok_def two_tasks_def task_system0_def in_order_def)
  ultimately show ?thesis by (auto simp: sched_inv_def)
qed

theorem no_task_starves_witness:
  "\<exists>n\<le>1. \<exists>ctx'. yields n two_tasks = Some ctx' \<and> current_task ctx' = 16"
proof -
  have "turns_before two_tasks 16 = 1"
    unfolding turns_before_def two_tasks_sets by (simp add: turns_def two_tasks_def insert_Diff_if)
  moreover have "picked two_tasks" "charged two_tasks 16"
    using two_tasks_sets by (auto simp: picked_def charged_def two_tasks_def split: if_splits)
  ultimately show ?thesis
    using no_task_starves [of two_tasks 16] two_tasks_inv two_tasks_sets by (simp add: two_tasks_def)
qed

text \<open>
  The condition on the priorities is needed: a task of priority 0 (\<open>HEV_TASK_PRIORITY_REALTIME\<close>) that has the lowest key and yields without waiting is picked
  again and again.
\<close>

lemma realtime_starves:
  assumes "sched_inv ctx" "picked ctx" "runnable ctx = alive ctx"
    and "tasks ctx (current_task ctx) = Some t" "priority t = 0" "next_priority t = 0"
    and "\<And>q. q \<in> runnable ctx \<Longrightarrow> q \<noteq> current_task ctx \<Longrightarrow> key ctx (current_task ctx) < key ctx q"
  shows "\<exists>ctx'. yields n ctx = Some ctx' \<and> current_task ctx' = current_task ctx"
  using assms
proof (induction n arbitrary: ctx t)
  case (Suc n)
  let ?c = "current_task ctx"
  have "?c \<in> runnable ctx" using Suc(3) by (simp add: picked_def)
  from switch_step [OF Suc(2) this Suc(5,4)] obtain ctx' where
    s: "hev_task_system_schedule HEV_TASK_SCHED_SWITCH [] ctx = Some ([], ctx')" "sched_inv ctx'" "picked ctx'"
      "runnable ctx' = runnable ctx" "alive ctx' = alive ctx"
      "tasks ctx' = (tasks ctx)(?c \<mapsto> t\<lparr>sched_key := sched_key t + word_of_int (priority t), priority := next_priority t\<rparr>)"
    by blast
  have k: "key ctx' q = key ctx q" for q using s(6) Suc(5,6) by simp
  have "\<not> key ctx ?c < key ctx (current_task ctx')"
    using s(3,4) \<open>?c \<in> runnable ctx\<close> k by (auto simp: picked_def not_less)
  then have c: "current_task ctx' = ?c" using Suc(8) s(3,4) by (auto simp: picked_def)
  have "key ctx' (current_task ctx') < key ctx' q" if "q \<in> runnable ctx'" "q \<noteq> current_task ctx'" for q
    using that Suc(8) [of q] unfolding k c s(4) by simp
  moreover have "t\<lparr>sched_key := sched_key t + word_of_int (priority t), priority := next_priority t\<rparr> = t" using Suc(6,7) by (cases t) simp
  then have "tasks ctx' (current_task ctx') = Some t" using s(6) c by simp
  ultimately have "\<exists>ctx''. yields n ctx' = Some ctx'' \<and> current_task ctx'' = current_task ctx'"
    using s(4,5) Suc(4,6,7) by (intro Suc(1) [OF s(2,3)]) simp_all
  then show ?case using s(1) c by auto
qed simp

section \<open>The next task\<close>

text \<open>
  C27. What a yield comes to. When the running task goes on, waits or ends, and there are polls enough to find work, the kernel returns to a task; that
  task is in the running state, and no running task has a lower key. Nobody is lost: the tasks that are left are all but one that ended. When none is left the
  scheduler returns.
\<close>

theorem yield_picks_lowest:
  assumes "sched_inv ctx" "current_task ctx \<in> runnable ctx" "awake ctx" "jump \<noteq> Sched_First"
    and "\<forall>poll\<in>set polls. poll_ok (remaining jump ctx) poll"
    and "still_running jump ctx \<noteq> remaining jump ctx \<longrightarrow> polls \<noteq> []"
    and "still_running jump ctx = {} \<and> remaining jump ctx \<noteq> {} \<longrightarrow> (\<exists>poll\<in>set polls. stirs ctx poll)"
  shows "\<exists>polls' ctx'. hev_task_system_schedule jump polls ctx = Some (polls', ctx') \<and> sched_inv ctx' \<and> alive ctx' = remaining jump ctx
    \<and> (if remaining jump ctx = {} then current_task ctx' = NULL
       else current_task ctx' \<in> runnable ctx' \<and> (\<forall>q\<in>runnable ctx'. key ctx' (current_task ctx') \<le> key ctx' q))"
proof -
  have "returns (hev_task_system_schedule jump polls ctx) (\<lambda>(polls', ctx'). sched_inv ctx' \<and> alive ctx' = remaining jump ctx
    \<and> set polls' \<subseteq> set polls \<and> timer_nodes ctx' = timer_nodes ctx
    \<and> (if remaining jump ctx = {} then current_task ctx' = NULL else picked ctx'))"
    using assms by (intro schedule_correct) (auto simp: awake_def)
  then obtain polls' ctx' where "hev_task_system_schedule jump polls ctx = Some (polls', ctx')" "sched_inv ctx'" "alive ctx' = remaining jump ctx"
      "if remaining jump ctx = {} then current_task ctx' = NULL else picked ctx'"
    by (auto simp: returns_def)
  then show ?thesis unfolding picked_def by (intro exI conjI)
qed

theorem yield_picks_lowest_witness:
  "\<exists>polls' ctx'. hev_task_system_schedule HEV_TASK_SCHED_REMOVE [poll_of 16] two_tasks = Some (polls', ctx') \<and> alive ctx' = {16}
    \<and> current_task ctx' = 16"
proof -
  have left: "remaining HEV_TASK_SCHED_REMOVE two_tasks = {16}" "still_running HEV_TASK_SCHED_REMOVE two_tasks = {16}"
    using two_tasks_sets by (auto simp: remaining_def still_running_def two_tasks_def)
  moreover have "poll_ok {16} (poll_of 16)" by (simp add: poll_ok_def poll_of_def)
  moreover have "awake two_tasks" "current_task two_tasks \<in> runnable two_tasks"
    using two_tasks_sets by (simp_all add: awake_def two_tasks_def task_system0_def)
  ultimately obtain polls' ctx' where "hev_task_system_schedule HEV_TASK_SCHED_REMOVE [poll_of 16] two_tasks = Some (polls', ctx')"
      "sched_inv ctx'" "alive ctx' = {16}" "current_task ctx' \<in> runnable ctx'"
    using yield_picks_lowest [of two_tasks HEV_TASK_SCHED_REMOVE "[poll_of 16]"] two_tasks_inv by auto
  then show ?thesis using null_not_runnable(2) [of ctx'] by blast
qed

section \<open>How long the kernel waits\<close>

text \<open>
  The time for which the kernel waits when no task is running is the time until the first sleeper expires, but it is passed on as a signed number:
  from \<open>2 ^ 31\<close> milliseconds on, almost 25 days, it is negative, which the kernel takes for forever.
\<close>

lemma sint_u32: "sint (w :: u32) = (if uint w < 2 ^ 31 then uint w else uint w - 2 ^ 32)"
proof -
  have b: "0 \<le> uint w" "uint w < 2 ^ 32" using uint_lt2p [of w] by simp_all
  have "sint w = (uint w + 2 ^ 31) mod 2 ^ 32 - 2 ^ 31"
    by (simp add: sint_uint signed_take_bit_eq_take_bit_shift take_bit_eq_mod)
  moreover have "(uint w + 2 ^ 31) mod 2 ^ 32 = (if uint w < 2 ^ 31 then uint w + 2 ^ 31 else uint w + 2 ^ 31 - 2 ^ 32)"
    using b by (auto simp: mod_pos_pos_trivial) (subst mod_pos_geq; simp)
  ultimately show ?thesis by auto
qed

theorem timeout_sign:
  assumes "sleepers_ok ctx ws" "ws \<noteq> []" "timer_nodes ctx (hd ws) = Some n" "clock_reading now" "millis_left now (tn_expire n) < 2 ^ 32"
  shows "\<exists>tm. hev_task_timer_get_timeout now ctx = Some tm \<and> (tm < 0 \<longleftrightarrow> 2 ^ 31 \<le> millis_left now (tn_expire n))
    \<and> (0 \<le> tm \<longrightarrow> tm = millis_left now (tn_expire n))"
proof -
  have e: "expiry (tn_expire n)" using first_sleeper(3) [OF assms(1,2)] assms(3) by auto
  have "hev_rbtree_cached_first (sort_tree ctx) = hd ws" "hev_rbtree_cached_first (sort_tree ctx) \<noteq> NULL"
    using first_sleeper(1,2) [OF assms(1)] assms(2) by auto
  then have "hev_task_timer_get_timeout now ctx = Some (sint (hev_task_timer_get_time now (tn_expire n)))"
    using assms(3) by (simp add: hev_task_timer_get_timeout_def)
  moreover have "uint (hev_task_timer_get_time now (tn_expire n)) = millis_left now (tn_expire n)"
    using assms(5) by (simp add: get_time_meaning [OF assms(4) e] uint_word_of_int millis_left_def)
  ultimately show ?thesis using assms(5) by (auto simp: sint_u32 millis_left_def)
qed

section \<open>Joining a task that exits\<close>

text \<open>A poll during which nothing happens.\<close>

definition silent :: "poll \<Rightarrow> bool" where
  "silent poll \<longleftrightarrow> (\<forall>timeout. p_wait poll timeout = [])"

lemma silent_polls:
  "sleepers_ok ctx [] \<Longrightarrow> running_task_count ctx = 0 \<Longrightarrow> \<forall>poll\<in>set polls. silent poll \<Longrightarrow> poll_until_running polls ctx = None"
  using first_sleeper(2) [of ctx "[]"]
  by (induction polls) (simp_all add: hev_task_system_io_poll_def hev_task_timer_get_timeout_def hev_task_timer_wake_def silent_def)

text \<open>
  A task that returns from its entry function wakes the one that joins it; one that calls \<open>hev_task_exit\<close> does not. If it was the only
  task running, and nothing else happens, then in the first case the scheduler goes on, and in the second it waits forever.
\<close>

theorem exit_strands_joiner:
  assumes inv: "sched_inv ctx" and cur: "runnable ctx = {current_task ctx}" and t: "tasks ctx (current_task ctx) = Some t"
    and j: "joiner t \<in> alive ctx" "joiner t \<noteq> current_task ctx" and w: "timer_nodes ctx = Map.empty"
    and polls: "polls \<noteq> []" "\<forall>poll\<in>set polls. silent poll"
  shows "task_exec (Task_Exit polls) ctx = None
    \<and> (\<exists>ctx'. task_exec (Task_End polls) ctx = Some ctx' \<and> current_task ctx' \<in> runnable ctx')"
proof
  have aw: "\<forall>n\<in>ran (timer_nodes ctx). tn_task n \<noteq> current_task ctx" using w by simp
  obtain c where c: "hev_task_system_remove_current_task HEV_TASK_STOPPED ctx = Some c" "sched_inv c" "runnable c = {}"
      "alive c = alive ctx - {current_task ctx}" "timer_nodes c = Map.empty"
    using current_stops [OF inv _ aw] cur w by (auto simp: returns_def current_left_def)
  then obtain ws where "sleepers_ok c ws" by (auto simp: sched_inv_def)
  then have sl: "sleepers_ok c []" using c(5) by (auto simp: sleepers_ok_def)
  have n: "running_task_count c = 0" "total_task_count c \<noteq> 0" using none_running [OF c(2)] none_alive [OF c(2)] c(3,4) j by auto
  then have "running_task_count c < total_task_count c" by (simp add: word_gt_0)
  then have "hev_task_system_schedule HEV_TASK_SCHED_REMOVE polls ctx = None"
    using c(1) n silent_polls [OF sl n(1) polls(2)] by (simp add: hev_task_system_schedule_def hev_task_system_pick_current_task_def)
  then show "task_exec (Task_Exit polls) ctx = None" by simp
next
  have "joiner t \<noteq> NULL" using null_not_runnable(1) [OF inv] j(1) by metis
  then obtain c where c: "executer_end ctx = Some c" "sched_inv c" "only_wakes ctx c" "joiner t \<in> runnable c"
    using wakeup_correct [OF inv j(1)] t by (auto simp: returns_def executer_end_def)
  have "current_task c \<in> runnable c" "awake c" using c(3) cur w by (auto simp: only_wakes_def awake_def)
  moreover have "joiner t \<in> remaining HEV_TASK_SCHED_REMOVE c" "joiner t \<in> still_running HEV_TASK_SCHED_REMOVE c"
    using c(3,4) j by (auto simp: remaining_def still_running_def only_wakes_def)
  ultimately have "returns (hev_task_system_schedule HEV_TASK_SCHED_REMOVE polls c) (\<lambda>(polls', ctx'). sched_inv ctx'
      \<and> alive ctx' = remaining HEV_TASK_SCHED_REMOVE c \<and> set polls' \<subseteq> set polls \<and> timer_nodes ctx' = timer_nodes c
      \<and> (if remaining HEV_TASK_SCHED_REMOVE c = {} then current_task ctx' = NULL else picked ctx'))"
    using c(2) polls by (intro schedule_correct) (auto simp: silent_def poll_ok_def awake_def)
  then show "\<exists>ctx'. task_exec (Task_End polls) ctx = Some ctx' \<and> current_task ctx' \<in> runnable ctx'"
    using c(1) \<open>joiner t \<in> remaining HEV_TASK_SCHED_REMOVE c\<close> by (auto simp: returns_def picked_def split: if_splits)
qed

end
