(* ===== verification/Lwip_Addr.thy ===== *)
theory Lwip_Addr
  imports DNS_Wire Socks5_Addr
begin

text \<open>
  Addresses between the TCP/IP stack and SOCKS (\<open>misc/hev-utils.c\<close>): the destination of a flow becomes
  a SOCKS address, by name if the address was handed out by the DNS server of the tunnel, and the
  source of a datagram from the SOCKS side becomes an address of the stack. Together with the DNS
  server this closes the circle: a client that resolves a name and connects to the address it got
  has its flow opened by that name.
\<close>

section \<open>Conversions\<close>

datatype ip_addr = IPADDR_TYPE_V4 "byte list" | IPADDR_TYPE_V6 "byte list" | IPADDR_TYPE_ANY

text \<open>\<open>ntohl\<close> of an address whose bytes are in network order.\<close>

definition ntohl_bytes :: "byte list \<Rightarrow> u32" where
  "ntohl_bytes b = (case b of
      b0 # b1 # b2 # b3 # _ \<Rightarrow> push_bit 24 (ucast b0) OR push_bit 16 (ucast b1) OR push_bit 8 (ucast b2) OR ucast b3
    | _ \<Rightarrow> 0)"

text \<open>
  The cache is the global one, if there is one; a lookup may reorder it. The result is the cache, the
  struct and the value returned.
\<close>

definition hev_socks5_addr_from_lwip ::
  "hev_mapped_dns option \<Rightarrow> byte list \<Rightarrow> ip_addr \<Rightarrow> u16 \<Rightarrow> (hev_mapped_dns option \<times> byte list \<times> int) option" where
  "hev_socks5_addr_from_lwip dns addr ip port = (case ip of
      IPADDR_TYPE_V4 b \<Rightarrow> do {
        (dns, name) \<leftarrow> (case dns of
            None \<Rightarrow> Some (None, None)
          | Some d \<Rightarrow> map_option (apfst Some) (hev_mapped_dns_lookup d (ntohl_bytes b)));
        (addr, n) \<leftarrow> (case name of
            Some nm \<Rightarrow> hev_socks5_addr_from_name addr nm (htons port)
          | None \<Rightarrow> hev_socks5_addr_from_ipv4 addr b (htons port));
        Some (dns, addr, 0) }
    | IPADDR_TYPE_V6 b \<Rightarrow> do {
        (addr, n) \<leftarrow> hev_socks5_addr_from_ipv6 addr b (htons port);
        Some (dns, addr, 0) }
    | IPADDR_TYPE_ANY \<Rightarrow> Some (dns, addr, -1))"

definition hev_socks5_addr_into_lwip :: "byte list \<Rightarrow> (ip_addr \<times> u16) option option" where
  "hev_socks5_addr_into_lwip addr = do {
     ty \<leftarrow> get8 addr 0;
     if ty = HEV_SOCKS5_ADDR_TYPE_IPV4 then do {
       x \<leftarrow> get_block addr 1 4;
       p \<leftarrow> get_block addr 5 2;
       Some (Some (IPADDR_TYPE_V4 x, ntohs (load16 p))) }
     else if ty = HEV_SOCKS5_ADDR_TYPE_IPV6 then do {
       x \<leftarrow> get_block addr 1 16;
       p \<leftarrow> get_block addr 17 2;
       Some (Some (IPADDR_TYPE_V6 x, ntohs (load16 p))) }
     else Some None }"

section \<open>Lemmas\<close>

lemma ntohl_be32: "ntohl_bytes (be32 v) = v"
proof (rule bit_word_eqI)
  fix n assume "n < LENGTH(32)"
  then consider "n < 8" | "8 \<le> n" "n < 16" | "16 \<le> n" "n < 24" | "24 \<le> n" "n < 32" by fastforce
  then show "bit (ntohl_bytes (be32 v)) n = bit v n"
    by cases (auto simp: ntohl_bytes_def be32_def bit_simps)
qed

text \<open>An address that the cache knows is translated to its name.\<close>

lemma from_lwip_mapped:
  assumes l: "hev_mapped_dns_lookup d (ntohl_bytes ip) = Some (d', Some nm)"
    and nm: "length nm < 256" "0 \<notin> set nm" and a: "length addr = addr_size"
  shows "\<exists>a'. hev_socks5_addr_from_lwip (Some d) addr (IPADDR_TYPE_V4 ip) port = Some (Some d', a', 0)
    \<and> take (4 + length nm) a' = enc_addr (Domain nm (htons port)) \<and> length a' = addr_size"
  using addr_from_name_enc [OF nm a, of "htons port"] l a by (auto simp: hev_socks5_addr_from_lwip_def)

lemma dotted_no_zero: "labels_ok ls \<Longrightarrow> 0 \<notin> set (dotted ls)"
  by (induction ls rule: dotted.induct) (auto simp: labels_ok_def)

section \<open>Properties\<close>

text \<open>
  C36. A client that resolves a name at the tunnel's DNS server and connects to the address in the
  answer has its flow opened by name: the answer to a well-formed query ends with four address
  bytes, and the SOCKS address made of these bytes is the domain address of the queried name with
  the port of the flow, also after further finds and lookups of the cache as long as they use fewer names
  other than this one than the cache holds. The name is shorter than 256 bytes, the mask of the mapped network is one of leading
  ones, its address has no host bits, and memory is available.
\<close>

theorem mapped_flow_by_name:
  assumes ls: "labels_ok ls" "length (dotted ls) < 256" and hd: "length qid = 2" "length counts = 6"
    and q: "qlen = length (a_query qid fa fb counts ls)" and s: "length res = slen" "qlen + 16 \<le> slen"
    and rdy: "dns_ready alloc (mx, net, msk) self" "dns_subnet self k" and a: "length addr = addr_size"
    and inv: "dns_inv self xs" and ops: "\<forall>x\<in>set ops. op_ok self x"
    and few: "card (snd (lru_run (nat mx) ops (fst (lru_find (nat mx) (dotted ls) (dns_lru self xs)))) - {dotted ls}) < nat mx"
  shows "\<exists>self' sb s2 self'' a'. hev_mapped_dns_handle alloc self (a_query qid fa fb counts ls @ rest) qlen res slen
        = Some (self', sb, int (qlen + 16))
    \<and> dns_run alloc ops self' = Some s2
    \<and> hev_socks5_addr_from_lwip (Some s2) addr (IPADDR_TYPE_V4 (take 4 (drop (qlen + 12) sb))) port = Some (Some self'', a', 0)
    \<and> take (4 + length (dotted ls)) a' = enc_addr (Domain (dotted ls) (htons port))"
proof -
  have c: "dns_config self = (mx, net, msk)" "0 < dns_max self" "alloc_ok (nat (dns_max self)) alloc"
    using rdy(1) by (auto simp: dns_ready_def)
  obtain s1 i s2 s3 where f: "hev_mapped_dns_find self (alloc (dom (dns_nodes self))) (dotted ls) = Some (s1, i)"
    "dns_run alloc ops s1 = Some s2" "hev_mapped_dns_lookup s2 (net OR word_of_int i) = Some (s3, Some (dotted ls))"
    using dns_find_retained [OF inv c(2) rdy(2) c(3) ops, of "dotted ls"] c(1) few by (auto simp: dns_config_def)
  obtain s1' i' where "hev_mapped_dns_find self (alloc (dom (dns_nodes self))) (dotted ls) = Some (s1', i')" "0 \<le> i'"
    "dns_ready alloc (mx, net, msk) s1'"
    using dns_find_ready [OF rdy(1)] by blast
  with f(1) have "0 \<le> i" "dns_net s1 = net" by (simp_all add: dns_ready_def dns_config_def)
  then obtain sb where h: "hev_mapped_dns_handle alloc self (a_query qid fa fb counts ls @ rest) qlen res slen
      = Some (s1, sb, int (qlen + 16))" "take (qlen + 16) sb = a_response qid fa fb ls (net OR word_of_int i)"
    using hev_mapped_dns_handle_a_query [where alloc = alloc and rest = rest, OF ls(1) hd q s f(1)] by auto
  have "take 4 (drop (qlen + 12) sb) = drop (qlen + 12) (take (qlen + 16) sb)" by (simp add: drop_take)
  also have "\<dots> = be32 (net OR word_of_int i)"
  proof -
    let ?pre = "qid @ [fa OR 0x80, fb OR push_bit 7 (fa AND 1), 0, 1, 0, 1, 0, 0, 0, 0] @ enc_name ls @ [0, 1, 0, 1, 0xc0, 12, 0, 1, 0, 1, 0, 0, 0, 1, 0, 4]"
    have "take (qlen + 16) sb = ?pre @ be32 (net OR word_of_int i)" unfolding h(2) a_response_def by simp
    moreover have "length ?pre = qlen + 12" using hd by (simp add: q a_query_def)
    ultimately show ?thesis by (metis append_eq_conv_conj)
  qed
  finally have "ntohl_bytes (take 4 (drop (qlen + 12) sb)) = net OR word_of_int i" by (simp add: ntohl_be32)
  then show ?thesis
    using from_lwip_mapped [where ip = "take 4 (drop (qlen + 12) sb)", OF _ ls(2) dotted_no_zero [OF ls(1)] a, of s2 s3 port] f(2,3) h(1) by auto
qed

lemma dns_zero_subnet: "dns_subnet dns_zero 22"
  by (simp add: dns_subnet_def dns_zero_def hev_mapped_dns_new_def hev_mapped_dns_construct_def dns_zeroed_def mask_eq_exp_minus_1)

lemma dns_zero_empty: "dns_inv dns_zero [] \<and> dns_max dns_zero = 2"
proof -
  have "hev_mapped_dns_new True 0x64400000 0xffc00000 2 = Some dns_zero"
    by (simp add: dns_zero_def hev_mapped_dns_new_def hev_mapped_dns_construct_def)
  from hev_mapped_dns_new_inv [OF this] show ?thesis by (auto simp: dns_config_def)
qed

theorem mapped_flow_by_name_witness:
  "\<exists>self' sb s2 self'' a'. hev_mapped_dns_handle alloc3 dns_zero (a_query [7, 7] 1 0 [0, 0, 0, 0, 0, 0] [[97], [98]] @ []) 21 (replicate 64 0) 64
        = Some (self', sb, int (21 + 16))
    \<and> dns_run alloc3 [Find [99], Lookup 0] self' = Some s2
    \<and> hev_socks5_addr_from_lwip (Some s2) (replicate 260 0) (IPADDR_TYPE_V4 (take 4 (drop (21 + 12) sb))) 443 = Some (Some self'', a', 0)
    \<and> take (4 + length (dotted [[97], [98]])) a' = enc_addr (Domain (dotted [[97], [98]]) (htons 443))"
  using mapped_flow_by_name [where ls = "[[97], [98]]" and qid = "[7, 7]" and counts = "[0, 0, 0, 0, 0, 0]" and qlen = 21
      and fa = 1 and fb = 0 and res = "replicate 64 0" and slen = 64 and alloc = alloc3 and mx = 2 and net = "0x64400000"
      and msk = "0xffc00000" and self = dns_zero and rest = "[]" and addr = "replicate 260 0" and port = 443 and k = 22
      and xs = "[]" and ops = "[Find [99], Lookup 0]"] dns_zero_ready dns_zero_subnet dns_zero_empty
  by (simp add: labels_ok_def a_query_def enc_name_def addr_size_def dns_lru_simps lru_find_def lru_touch_def lru_lookup_def lru_name_def del: enc_addr.simps)

text \<open>
  Addresses of the stack survive the trip through a SOCKS address: unless the cache maps it to a
  name, the address and the port that \<open>hev_socks5_addr_into_lwip\<close> reads are those that
  \<open>hev_socks5_addr_from_lwip\<close> wrote.
\<close>

theorem lwip_addr_roundtrip:
  assumes "length addr = addr_size"
    and "ip = IPADDR_TYPE_V4 b \<and> length b = 4 \<or> ip = IPADDR_TYPE_V6 b \<and> length b = 16"
  shows "\<exists>a'. hev_socks5_addr_from_lwip None addr ip port = Some (None, a', 0)
    \<and> hev_socks5_addr_into_lwip a' = Some (Some (ip, port))"
proof -
  have split: "a' = enc_addr x @ drop (length (enc_addr x)) a'" if "take (length (enc_addr x)) a' = enc_addr x" for x a'
    using that by (metis append_take_drop_id)
  have into4: "hev_socks5_addr_into_lwip (enc_addr (IPv4 b p) @ ys) = Some (Some (IPADDR_TYPE_V4 b, ntohs p))" if "length b = 4" for p ys
    using that by (simp add: hev_socks5_addr_into_lwip_def get8_def get_block_def addr_types)
  have into6: "hev_socks5_addr_into_lwip (enc_addr (IPv6 b p) @ ys) = Some (Some (IPADDR_TYPE_V6 b, ntohs p))" if "length b = 16" for p ys
    using that by (simp add: hev_socks5_addr_into_lwip_def get8_def get_block_def addr_types)
  show ?thesis
  proof (cases "length b = 4 \<and> ip = IPADDR_TYPE_V4 b")
    case True
    then obtain a' where a': "hev_socks5_addr_from_ipv4 addr b (htons port) = Some (a', 7)" "take 7 a' = enc_addr (IPv4 b (htons port))"
      using addr_from_ipv4_enc [of b addr "htons port"] assms(1) by (auto simp: addr_size_def)
    have len: "length (enc_addr (IPv4 b (htons port))) = 7" using True by simp
    have "hev_socks5_addr_into_lwip a' = Some (Some (ip, port))"
      using a'(2) split [of "IPv4 b (htons port)" a'] into4 True len by (metis ntohs_ntohs)
    then show ?thesis using a' True by (auto simp: hev_socks5_addr_from_lwip_def)
  next
    case False
    then have v6: "length b = 16" "ip = IPADDR_TYPE_V6 b" using assms(2) by auto
    then obtain a' where a': "hev_socks5_addr_from_ipv6 addr b (htons port) = Some (a', 19)" "take 19 a' = enc_addr (IPv6 b (htons port))"
      using addr_from_ipv6_enc [of b addr "htons port"] assms(1) by (auto simp: addr_size_def)
    moreover have "length (enc_addr (IPv6 b (htons port))) = 19" using v6 by simp
    ultimately have "hev_socks5_addr_into_lwip a' = Some (Some (ip, port))"
      using split [of "IPv6 b (htons port)" a'] into6 [OF v6(1)] v6(2) by (metis ntohs_ntohs)
    then show ?thesis using a' v6 by (auto simp: hev_socks5_addr_from_lwip_def)
  qed
qed

theorem lwip_addr_roundtrip_witness:
  "\<exists>a'. hev_socks5_addr_from_lwip None (replicate 260 0) (IPADDR_TYPE_V4 [10, 0, 0, 1]) 53 = Some (None, a', 0)
    \<and> hev_socks5_addr_into_lwip a' = Some (Some (IPADDR_TYPE_V4 [10, 0, 0, 1], 53))"
  by (rule lwip_addr_roundtrip [where b = "[10, 0, 0, 1]"]) (auto simp: addr_size_def)

end
