(* ===== verification/Config.thy ===== *)
theory Config
  imports Tunnel_Prelude
begin

text \<open>
  The configuration (\<open>hev-config.c\<close>): the settings of the tunnel as they are read from a YAML document.
  The document is the tree that libyaml hands out: a table of nodes, whose mappings refer to
  nodes by their position. Strings are C strings, the static buffers hold the part of a value that
  \<open>strncpy\<close> lets through, and numbers go through \<open>strtoul\<close> into 32-bit variables.
\<close>

section \<open>C strings and numbers\<close>

fun digit_of :: "nat \<Rightarrow> char \<Rightarrow> nat option" where
  "digit_of base c =
     (let n = (of_char c :: nat);
          d = (if 48 \<le> n \<and> n \<le> 57 then n - 48 else if 97 \<le> n \<and> n \<le> 122 then n - 87
               else if 65 \<le> n \<and> n \<le> 90 then n - 55 else 99) in
      if d < base then Some d else None)"

fun digits_val :: "nat \<Rightarrow> nat \<Rightarrow> string \<Rightarrow> nat" where
  "digits_val base acc [] = acc"
| "digits_val base acc (c # cs) = (case digit_of base c of None \<Rightarrow> acc | Some d \<Rightarrow> digits_val base (acc * base + d) cs)"

definition is_space :: "char \<Rightarrow> bool" where
  "is_space c \<longleftrightarrow> (let n = (of_char c :: nat) in n = 32 \<or> 9 \<le> n \<and> n \<le> 13)"

text \<open>White space, a sign, and for base 0 the prefixes of hexadecimal and octal numbers.\<close>

definition strip_sign :: "string \<Rightarrow> bool \<times> string" where
  "strip_sign s = (case dropWhile is_space s of
      [] \<Rightarrow> (False, [])
    | c # cs \<Rightarrow> if c = CHR ''-'' then (True, cs) else if c = CHR ''+'' then (False, cs) else (False, c # cs))"

definition strip_base :: "nat \<Rightarrow> string \<Rightarrow> nat \<times> string" where
  "strip_base base s =
     (if base \<noteq> 0 then (base, s)
      else case s of
        a # b # c # cs \<Rightarrow>
          if a = CHR ''0'' \<and> (b = CHR ''x'' \<or> b = CHR ''X'') \<and> digit_of 16 c \<noteq> None then (16, c # cs)
          else if a = CHR ''0'' then (8, s) else (10, s)
      | a # cs \<Rightarrow> if a = CHR ''0'' then (8, s) else (10, s)
      | [] \<Rightarrow> (10, s))"

text \<open>\<open>strtoul\<close> and \<open>strtol\<close> with a 64-bit \<open>long\<close>: values out of range are clamped, a minus sign negates modulo \<open>2 ^ 64\<close>.\<close>

definition strtoul :: "string \<Rightarrow> nat \<Rightarrow> 64 word" where
  "strtoul s base =
     (let (neg, s) = strip_sign s; (b, s) = strip_base base s; v = digits_val b 0 s in
      if v \<ge> 2 ^ 64 then - 1 else if neg then - word_of_nat v else word_of_nat v)"

definition strtol :: "string \<Rightarrow> nat \<Rightarrow> int" where
  "strtol s base =
     (let (neg, s) = strip_sign s; (b, s) = strip_base base s; v = int (digits_val b 0 s) in
      if neg then max (- v) (- (2 ^ 63)) else min v (2 ^ 63 - 1))"

text \<open>Assignment to an \<open>int\<close> keeps the low 32 bits.\<close>

definition int_of_ulong :: "64 word \<Rightarrow> int" where
  "int_of_ulong v = sint (ucast v :: 32 word)"

definition int32 :: "int \<Rightarrow> int" where
  "int32 v = sint (word_of_int v :: 32 word)"

definition to_lower :: "char \<Rightarrow> nat" where
  "to_lower c = (let n = (of_char c :: nat) in if 65 \<le> n \<and> n \<le> 90 then n + 32 else n)"

fun strcasecmp :: "string \<Rightarrow> string \<Rightarrow> int" where
  "strcasecmp [] [] = 0"
| "strcasecmp [] (b # bs) = - int (to_lower b)"
| "strcasecmp (a # as) [] = int (to_lower a)"
| "strcasecmp (a # as) (b # bs) =
     (if to_lower a = to_lower b then strcasecmp as bs else int (to_lower a) - int (to_lower b))"

text \<open>\<open>strncpy (buf, value, n)\<close> into a static buffer that is longer than \<open>n\<close>: the string it then holds.\<close>

definition strncpy_str :: "string \<Rightarrow> nat \<Rightarrow> string" where
  "strncpy_str v n = take n v"

section \<open>The document\<close>

datatype yaml_node = YScalar string | YSequence | YMapping "(int \<times> int) list"

type_synonym yaml_document = "yaml_node list"

definition yaml_document_get_node :: "yaml_document \<Rightarrow> int \<Rightarrow> yaml_node option" where
  "yaml_document_get_node doc i = (if 0 < i \<and> i \<le> int (length doc) then Some (doc ! nat (i - 1)) else None)"

definition yaml_document_get_root_node :: "yaml_document \<Rightarrow> yaml_node option" where
  "yaml_document_get_root_node doc = (if doc = [] then None else Some (doc ! 0))"

text \<open>
  The common head of the loops over a mapping: the pairs up to the first one at which the loop breaks,
  each with its key and the node of its value; then only those up to the first missing value, and
  up to the first value that is not a scalar.
\<close>

fun keyed_nodes :: "yaml_document \<Rightarrow> (int \<times> int) list \<Rightarrow> (string \<times> yaml_node option) list" where
  "keyed_nodes doc [] = []"
| "keyed_nodes doc ((k, v) # ps) =
     (if k = 0 \<or> v = 0 then []
      else case yaml_document_get_node doc k of
        Some (YScalar key) \<Rightarrow> (key, yaml_document_get_node doc v) # keyed_nodes doc ps
      | _ \<Rightarrow> [])"

fun while_present :: "(string \<times> yaml_node option) list \<Rightarrow> (string \<times> yaml_node) list" where
  "while_present ((k, Some n) # ps) = (k, n) # while_present ps"
| "while_present _ = []"

fun while_scalar :: "(string \<times> yaml_node) list \<Rightarrow> (string \<times> string) list" where
  "while_scalar ((k, YScalar v) # ps) = (k, v) # while_scalar ps"
| "while_scalar _ = []"

definition scalar_pairs :: "yaml_document \<Rightarrow> (int \<times> int) list \<Rightarrow> (string \<times> string) list" where
  "scalar_pairs doc ps = while_scalar (while_present (keyed_nodes doc ps))"

section \<open>The settings\<close>

record HevConfigServer =
  srv_user :: "string option"
  srv_pass :: "string option"
  srv_mark :: "32 word"
  srv_udp_in_udp :: bool
  srv_port :: "16 word"
  srv_pipeline :: bool
  srv_udp_addr :: string
  srv_addr :: string

datatype log_level = HEV_LOGGER_DEBUG | HEV_LOGGER_INFO | HEV_LOGGER_WARN | HEV_LOGGER_ERROR

record hev_config =
  tun_name :: string
  tun_mtu :: "32 word"
  multi_queue :: int
  tun_ipv4_address :: string
  tun_ipv6_address :: string
  tun_post_up_script :: string
  tun_pre_down_script :: string
  srv :: HevConfigServer
  mapdns_address :: u32
  mapdns_port :: int
  mapdns_network :: u32
  mapdns_netmask :: u32
  mapdns_cache_size :: int
  log_file :: string
  pid_file :: string
  max_session_count :: int
  cfg_task_stack_size :: int
  tcp_buffer_size :: int
  cfg_udp_recv_buffer_size :: int
  cfg_udp_copy_buffer_nums :: int
  cfg_connect_timeout :: int
  tcp_read_write_timeout :: int
  udp_read_write_timeout :: int
  limit_nofile :: int
  cfg_log_level :: log_level

text \<open>The initial values.\<close>

definition config_defaults :: hev_config where
  "config_defaults = \<lparr>tun_name = [], tun_mtu = 8500, multi_queue = 0, tun_ipv4_address = [], tun_ipv6_address = [],
     tun_post_up_script = [], tun_pre_down_script = [],
     srv = \<lparr>srv_user = None, srv_pass = None, srv_mark = 0, srv_udp_in_udp = False, srv_port = 0, srv_pipeline = False,
       srv_udp_addr = [], srv_addr = []\<rparr>,
     mapdns_address = 0, mapdns_port = 0, mapdns_network = 0, mapdns_netmask = 0,
     mapdns_cache_size = 0, log_file = [], pid_file = [], max_session_count = 0, cfg_task_stack_size = 86016,
     tcp_buffer_size = 65536, cfg_udp_recv_buffer_size = 524288, cfg_udp_copy_buffer_nums = 10, cfg_connect_timeout = 10000,
     tcp_read_write_timeout = 300000, udp_read_write_timeout = 60000, limit_nofile = 65535,
     cfg_log_level = HEV_LOGGER_WARN\<rparr>"

section \<open>The sections\<close>

text \<open>The bytes that \<open>inet_pton\<close> stores, read as an \<open>int\<close> of a little-endian host, and \<open>ntohl\<close>.\<close>

definition load32 :: "byte list \<Rightarrow> u32" where
  "load32 b = (case b of
      b0 # b1 # b2 # b3 # _ \<Rightarrow> push_bit 24 (ucast b3) OR push_bit 16 (ucast b2) OR push_bit 8 (ucast b1) OR ucast b0
    | _ \<Rightarrow> 0)"

definition ntohl :: "u32 \<Rightarrow> u32" where
  "ntohl v = push_bit 24 v OR (push_bit 8 v AND 0xff0000) OR (drop_bit 8 v AND 0xff00) OR drop_bit 24 v"

definition inet_pton_int :: "(string \<Rightarrow> byte list option) \<Rightarrow> string \<Rightarrow> u32 \<Rightarrow> u32" where
  "inet_pton_int pton v old = (case pton v of Some b \<Rightarrow> load32 b | None \<Rightarrow> old)"

definition set_tunnel_ipv4 :: "string \<times> string \<Rightarrow> hev_config \<Rightarrow> hev_config" where
  "set_tunnel_ipv4 kv c = (if fst kv = ''address'' then c\<lparr>tun_ipv4_address := strncpy_str (snd kv) 15\<rparr> else c)"

definition hev_config_parse_tunnel_ipv4 :: "yaml_document \<Rightarrow> yaml_node option \<Rightarrow> hev_config \<Rightarrow> int \<times> hev_config" where
  "hev_config_parse_tunnel_ipv4 doc base c = (case base of
      Some (YMapping ps) \<Rightarrow> (0, fold set_tunnel_ipv4 (scalar_pairs doc ps) c)
    | _ \<Rightarrow> (-1, c))"

definition set_tunnel_ipv6 :: "string \<times> string \<Rightarrow> hev_config \<Rightarrow> hev_config" where
  "set_tunnel_ipv6 kv c = (if fst kv = ''address'' then c\<lparr>tun_ipv6_address := strncpy_str (snd kv) 63\<rparr> else c)"

definition hev_config_parse_tunnel_ipv6 :: "yaml_document \<Rightarrow> yaml_node option \<Rightarrow> hev_config \<Rightarrow> int \<times> hev_config" where
  "hev_config_parse_tunnel_ipv6 doc base c = (case base of
      Some (YMapping ps) \<Rightarrow> (0, fold set_tunnel_ipv6 (scalar_pairs doc ps) c)
    | _ \<Rightarrow> (-1, c))"

definition set_tunnel :: "yaml_document \<Rightarrow> string \<times> yaml_node \<Rightarrow> hev_config \<Rightarrow> hev_config" where
  "set_tunnel doc kn c = (let key = fst kn in
     (case snd kn of
        YScalar v \<Rightarrow>
          if key = ''name'' then c\<lparr>tun_name := strncpy_str v 63\<rparr>
          else if key = ''mtu'' then c\<lparr>tun_mtu := ucast (strtoul v 10)\<rparr>
          else if key = ''multi-queue'' then c\<lparr>multi_queue := strcasecmp v ''false''\<rparr>
          else if key = ''ipv4'' then c\<lparr>tun_ipv4_address := strncpy_str v 15\<rparr>
          else if key = ''ipv6'' then c\<lparr>tun_ipv6_address := strncpy_str v 63\<rparr>
          else if key = ''post-up-script'' then c\<lparr>tun_post_up_script := strncpy_str v 63\<rparr>
          else if key = ''pre-down-script'' then c\<lparr>tun_pre_down_script := strncpy_str v 63\<rparr>
          else c
      | n \<Rightarrow>
          if key = ''ipv4'' then snd (hev_config_parse_tunnel_ipv4 doc (Some n) c)
          else if key = ''ipv6'' then snd (hev_config_parse_tunnel_ipv6 doc (Some n) c)
          else c))"

definition hev_config_parse_tunnel :: "yaml_document \<Rightarrow> yaml_node option \<Rightarrow> hev_config \<Rightarrow> int \<times> hev_config" where
  "hev_config_parse_tunnel doc base c = (case base of
      Some (YMapping ps) \<Rightarrow> (0, fold (set_tunnel doc) (while_present (keyed_nodes doc ps)) c)
    | _ \<Rightarrow> (-1, c))"

text \<open>The local variables of the section on the SOCKS server: the last value of each key.\<close>

definition last_value :: "string \<Rightarrow> (string \<times> string) list \<Rightarrow> string option" where
  "last_value key ps = map_of (rev ps) key"

text \<open>What is stored once the values are there.\<close>

definition store_socks5 :: "(string \<Rightarrow> string option) \<Rightarrow> string \<Rightarrow> string \<Rightarrow> HevConfigServer \<Rightarrow> HevConfigServer" where
  "store_socks5 val addr port s =
     (let s = s\<lparr>srv_addr := strncpy_str addr 255, srv_port := ucast (strtoul port 10)\<rparr>;
          s = (case val ''pipeline'' of Some p \<Rightarrow> if strcasecmp p ''true'' = 0 then s\<lparr>srv_pipeline := True\<rparr> else s | None \<Rightarrow> s);
          s = (case val ''udp'' of Some u \<Rightarrow> if strcasecmp u ''udp'' = 0 then s\<lparr>srv_udp_in_udp := True\<rparr> else s | None \<Rightarrow> s);
          s = (case val ''udp-address'' of Some u \<Rightarrow> s\<lparr>srv_udp_addr := strncpy_str u 255\<rparr> | None \<Rightarrow> s);
          s = (case (val ''username'', val ''password'') of
                 (Some u, Some p) \<Rightarrow> s\<lparr>srv_user := Some (strncpy_str u 255), srv_pass := Some (strncpy_str p 255)\<rparr>
               | _ \<Rightarrow> s) in
      (case val ''mark'' of Some m \<Rightarrow> s\<lparr>srv_mark := ucast (strtoul m 0)\<rparr> | None \<Rightarrow> s))"

definition hev_config_parse_socks5 :: "yaml_document \<Rightarrow> yaml_node option \<Rightarrow> hev_config \<Rightarrow> int \<times> hev_config" where
  "hev_config_parse_socks5 doc base c = (case base of
      Some (YMapping ps) \<Rightarrow>
        (let val = (\<lambda>key. last_value key (scalar_pairs doc ps));
             user = val ''username''; pass = val ''password'' in
         case val ''port'' of None \<Rightarrow> (-1, c)
         | Some port \<Rightarrow>
             (case val ''address'' of None \<Rightarrow> (-1, c)
              | Some addr \<Rightarrow>
                  if user \<noteq> None \<and> pass = None \<or> user = None \<and> pass \<noteq> None then (-1, c)
                  else (0, c\<lparr>srv := store_socks5 val addr port (srv c)\<rparr>)))
    | _ \<Rightarrow> (-1, c))"

definition set_mapdns :: "(string \<Rightarrow> byte list option) \<Rightarrow> string \<times> string \<Rightarrow> hev_config \<Rightarrow> hev_config" where
  "set_mapdns pton kv c = (let key = fst kv; v = snd kv in
     if key = ''address'' then c\<lparr>mapdns_address := inet_pton_int pton v (mapdns_address c)\<rparr>
     else if key = ''port'' then c\<lparr>mapdns_port := int_of_ulong (strtoul v 10)\<rparr>
     else if key = ''network'' then c\<lparr>mapdns_network := inet_pton_int pton v (mapdns_network c)\<rparr>
     else if key = ''netmask'' then c\<lparr>mapdns_netmask := inet_pton_int pton v (mapdns_netmask c)\<rparr>
     else if key = ''cache-size'' then c\<lparr>mapdns_cache_size := int_of_ulong (strtoul v 10)\<rparr>
     else c)"

definition hev_config_parse_mapdns ::
  "(string \<Rightarrow> byte list option) \<Rightarrow> yaml_document \<Rightarrow> yaml_node option \<Rightarrow> hev_config \<Rightarrow> int \<times> hev_config" where
  "hev_config_parse_mapdns pton doc base c = (case base of
      Some (YMapping ps) \<Rightarrow>
        (let c = fold (set_mapdns pton) (scalar_pairs doc ps) c in
         (0, c\<lparr>mapdns_network := ntohl (mapdns_network c), mapdns_netmask := ntohl (mapdns_netmask c)\<rparr>))
    | _ \<Rightarrow> (-1, c))"

definition hev_config_parse_log_level :: "string \<Rightarrow> log_level" where
  "hev_config_parse_log_level v =
     (if v = ''debug'' then HEV_LOGGER_DEBUG
      else if v = ''info'' then HEV_LOGGER_INFO
      else if v = ''error'' then HEV_LOGGER_ERROR
      else HEV_LOGGER_WARN)"

text \<open>The settings together with the local variables \<open>rw_timeout\<close>, \<open>tcp_rw_timeout\<close>, \<open>udp_rw_timeout\<close>.\<close>

record misc_vars =
  rw_timeout :: int
  tcp_rw_timeout :: int
  udp_rw_timeout :: int

definition set_misc :: "string \<times> string \<Rightarrow> hev_config \<times> misc_vars \<Rightarrow> hev_config \<times> misc_vars" where
  "set_misc kv st = (let key = fst kv; v = snd kv; c = fst st; l = snd st; n = int_of_ulong (strtoul v 10) in
     if key = ''task-stack-size'' then (c\<lparr>cfg_task_stack_size := n\<rparr>, l)
     else if key = ''tcp-buffer-size'' then (c\<lparr>tcp_buffer_size := n\<rparr>, l)
     else if key = ''udp-recv-buffer-size'' then (c\<lparr>cfg_udp_recv_buffer_size := n\<rparr>, l)
     else if key = ''udp-copy-buffer-nums'' then (c\<lparr>cfg_udp_copy_buffer_nums := n\<rparr>, l)
     else if key = ''max-session-count'' then (c\<lparr>max_session_count := n\<rparr>, l)
     else if key = ''connect-timeout'' then (c\<lparr>cfg_connect_timeout := n\<rparr>, l)
     else if key = ''read-write-timeout'' then (c, l\<lparr>rw_timeout := n\<rparr>)
     else if key = ''tcp-read-write-timeout'' then (c, l\<lparr>tcp_rw_timeout := n\<rparr>)
     else if key = ''udp-read-write-timeout'' then (c, l\<lparr>udp_rw_timeout := n\<rparr>)
     else if key = ''pid-file'' then (c\<lparr>pid_file := strncpy_str v 1023\<rparr>, l)
     else if key = ''log-file'' then (c\<lparr>log_file := strncpy_str v 1023\<rparr>, l)
     else if key = ''log-level'' then (c\<lparr>cfg_log_level := hev_config_parse_log_level v\<rparr>, l)
     else if key = ''limit-nofile'' then (c\<lparr>limit_nofile := int32 (strtol v 10)\<rparr>, l)
     else (c, l))"

definition hev_config_parse_misc :: "yaml_document \<Rightarrow> yaml_node option \<Rightarrow> hev_config \<Rightarrow> int \<times> hev_config" where
  "hev_config_parse_misc doc base c = (case base of
      Some (YMapping ps) \<Rightarrow>
        (let (c, l) = fold set_misc (scalar_pairs doc ps) (c, \<lparr>rw_timeout = -1, tcp_rw_timeout = -1, udp_rw_timeout = -1\<rparr>);
             t = (if tcp_rw_timeout l \<le> 0 then rw_timeout l else tcp_rw_timeout l);
             u = (if udp_rw_timeout l \<le> 0 then rw_timeout l else udp_rw_timeout l);
             c = (if t > 0 then c\<lparr>tcp_read_write_timeout := t\<rparr> else c);
             c = (if u > 0 then c\<lparr>udp_read_write_timeout := u\<rparr> else c) in
         (0, c))
    | _ \<Rightarrow> (-1, c))"

section \<open>The document\<close>

definition TCP_SND_BUF :: nat where "TCP_SND_BUF = 8 * 8191"
definition UDP_BUF_SIZE :: int where "UDP_BUF_SIZE = 1500"
definition TASK_STACK_SIZE :: int where "TASK_STACK_SIZE = 20480"

definition parse_section ::
  "(string \<Rightarrow> byte list option) \<Rightarrow> yaml_document \<Rightarrow> string \<times> yaml_node option \<Rightarrow> hev_config \<Rightarrow> int \<times> hev_config" where
  "parse_section pton doc kn c = (let key = fst kn; node = snd kn in
     if key = ''tunnel'' then hev_config_parse_tunnel doc node c
     else if key = ''socks5'' then hev_config_parse_socks5 doc node c
     else if key = ''mapdns'' then hev_config_parse_mapdns pton doc node c
     else if key = ''misc'' then hev_config_parse_misc doc node c
     else (0, c))"

fun parse_sections ::
  "(string \<Rightarrow> byte list option) \<Rightarrow> yaml_document \<Rightarrow> (string \<times> yaml_node option) list \<Rightarrow> hev_config \<Rightarrow> int \<times> hev_config" where
  "parse_sections pton doc [] c = (0, c)"
| "parse_sections pton doc (kn # kns) c =
     (let (res, c) = parse_section pton doc kn c in
      if res < 0 then (-1, c) else parse_sections pton doc kns c)"

text \<open>\<open>int\<close> arithmetic, which wraps here.\<close>

definition clamp_sizes :: "hev_config \<Rightarrow> hev_config" where
  "clamp_sizes c =
     (let c = (if tcp_buffer_size c > int TCP_SND_BUF then c\<lparr>tcp_buffer_size := int TCP_SND_BUF\<rparr> else c);
          udp_buffer_size = int32 (UDP_BUF_SIZE * cfg_udp_copy_buffer_nums c);
          min_task_stack_size =
            (if tcp_buffer_size c > udp_buffer_size then int32 (TASK_STACK_SIZE + tcp_buffer_size c)
             else int32 (TASK_STACK_SIZE + udp_buffer_size)) in
      if cfg_task_stack_size c < min_task_stack_size then c\<lparr>cfg_task_stack_size := min_task_stack_size\<rparr> else c)"

definition hev_config_parse_doc ::
  "(string \<Rightarrow> byte list option) \<Rightarrow> yaml_document \<Rightarrow> hev_config \<Rightarrow> int \<times> hev_config" where
  "hev_config_parse_doc pton doc c = (case yaml_document_get_root_node doc of
      Some (YMapping ps) \<Rightarrow>
        (let (res, c) = parse_sections pton doc (keyed_nodes doc ps) c in
         if res < 0 then (-1, c) else (0, clamp_sizes c))
    | _ \<Rightarrow> (-1, c))"

text \<open>
  The two entry points: \<open>init\<close> and \<open>opened\<close> say whether the parser could be initialised and the file
  opened, \<open>loaded\<close> is the document that libyaml made of the input, if it could.
\<close>

definition hev_config_init_from_str ::
  "(string \<Rightarrow> byte list option) \<Rightarrow> bool \<Rightarrow> yaml_document option \<Rightarrow> hev_config \<Rightarrow> int \<times> hev_config" where
  "hev_config_init_from_str pton init loaded c =
     (if \<not> init then (-1, c)
      else case loaded of None \<Rightarrow> (-1, c) | Some doc \<Rightarrow> hev_config_parse_doc pton doc c)"

definition hev_config_init_from_file ::
  "(string \<Rightarrow> byte list option) \<Rightarrow> bool \<Rightarrow> bool \<Rightarrow> yaml_document option \<Rightarrow> hev_config \<Rightarrow> int \<times> hev_config" where
  "hev_config_init_from_file pton init opened loaded c =
     (if \<not> init then (-1, c)
      else if \<not> opened then (-1, c)
      else case loaded of None \<Rightarrow> (-1, c) | Some doc \<Rightarrow> hev_config_parse_doc pton doc c)"

section \<open>Access\<close>

definition unless_empty :: "string \<Rightarrow> string option" where
  "unless_empty s = (if s = [] then None else Some s)"

definition hev_config_get_tunnel_name :: "hev_config \<Rightarrow> string option" where
  "hev_config_get_tunnel_name c = unless_empty (tun_name c)"

definition hev_config_get_tunnel_mtu :: "hev_config \<Rightarrow> 32 word" where
  "hev_config_get_tunnel_mtu c = tun_mtu c"

definition hev_config_get_tunnel_multi_queue :: "hev_config \<Rightarrow> int" where
  "hev_config_get_tunnel_multi_queue c = multi_queue c"

definition hev_config_get_tunnel_ipv4_address :: "hev_config \<Rightarrow> string option" where
  "hev_config_get_tunnel_ipv4_address c = unless_empty (tun_ipv4_address c)"

definition hev_config_get_tunnel_ipv6_address :: "hev_config \<Rightarrow> string option" where
  "hev_config_get_tunnel_ipv6_address c = unless_empty (tun_ipv6_address c)"

definition hev_config_get_tunnel_post_up_script :: "hev_config \<Rightarrow> string option" where
  "hev_config_get_tunnel_post_up_script c = unless_empty (tun_post_up_script c)"

definition hev_config_get_tunnel_pre_down_script :: "hev_config \<Rightarrow> string option" where
  "hev_config_get_tunnel_pre_down_script c = unless_empty (tun_pre_down_script c)"

definition hev_config_get_socks5_server :: "hev_config \<Rightarrow> HevConfigServer" where
  "hev_config_get_socks5_server c = srv c"

definition hev_config_get_mapdns_address :: "hev_config \<Rightarrow> u32" where
  "hev_config_get_mapdns_address c = mapdns_address c"

definition hev_config_get_mapdns_port :: "hev_config \<Rightarrow> int" where
  "hev_config_get_mapdns_port c = mapdns_port c"

definition hev_config_get_mapdns_network :: "hev_config \<Rightarrow> u32" where
  "hev_config_get_mapdns_network c = mapdns_network c"

definition hev_config_get_mapdns_netmask :: "hev_config \<Rightarrow> u32" where
  "hev_config_get_mapdns_netmask c = mapdns_netmask c"

definition hev_config_get_mapdns_cache_size :: "hev_config \<Rightarrow> int" where
  "hev_config_get_mapdns_cache_size c = mapdns_cache_size c"

definition hev_config_get_misc_task_stack_size :: "hev_config \<Rightarrow> int" where
  "hev_config_get_misc_task_stack_size c = cfg_task_stack_size c"

definition hev_config_get_misc_tcp_buffer_size :: "hev_config \<Rightarrow> int" where
  "hev_config_get_misc_tcp_buffer_size c = tcp_buffer_size c"

definition hev_config_get_misc_udp_recv_buffer_size :: "hev_config \<Rightarrow> int" where
  "hev_config_get_misc_udp_recv_buffer_size c = cfg_udp_recv_buffer_size c"

definition hev_config_get_misc_udp_copy_buffer_nums :: "hev_config \<Rightarrow> int" where
  "hev_config_get_misc_udp_copy_buffer_nums c = cfg_udp_copy_buffer_nums c"

definition hev_config_get_misc_max_session_count :: "hev_config \<Rightarrow> int" where
  "hev_config_get_misc_max_session_count c = max_session_count c"

definition hev_config_get_misc_connect_timeout :: "hev_config \<Rightarrow> int" where
  "hev_config_get_misc_connect_timeout c = cfg_connect_timeout c"

definition hev_config_get_misc_tcp_read_write_timeout :: "hev_config \<Rightarrow> int" where
  "hev_config_get_misc_tcp_read_write_timeout c = tcp_read_write_timeout c"

definition hev_config_get_misc_udp_read_write_timeout :: "hev_config \<Rightarrow> int" where
  "hev_config_get_misc_udp_read_write_timeout c = udp_read_write_timeout c"

definition hev_config_get_misc_limit_nofile :: "hev_config \<Rightarrow> int" where
  "hev_config_get_misc_limit_nofile c = limit_nofile c"

definition hev_config_get_misc_pid_file :: "hev_config \<Rightarrow> string option" where
  "hev_config_get_misc_pid_file c = unless_empty (pid_file c)"

definition hev_config_get_misc_log_file :: "hev_config \<Rightarrow> string" where
  "hev_config_get_misc_log_file c = (if log_file c = [] then ''stderr'' else log_file c)"

definition hev_config_get_misc_log_level :: "hev_config \<Rightarrow> log_level" where
  "hev_config_get_misc_log_level c = cfg_log_level c"

section \<open>Strings fit their buffers\<close>

definition srv_fits :: "HevConfigServer \<Rightarrow> bool" where
  "srv_fits s \<longleftrightarrow> length (srv_addr s) < 256 \<and> length (srv_udp_addr s) < 256
     \<and> (\<forall>u. srv_user s = Some u \<longrightarrow> length u < 256) \<and> (\<forall>p. srv_pass s = Some p \<longrightarrow> length p < 256)
     \<and> (srv_user s = None \<longleftrightarrow> srv_pass s = None)"

definition config_fits :: "hev_config \<Rightarrow> bool" where
  "config_fits c \<longleftrightarrow> length (tun_name c) < 64 \<and> length (tun_ipv4_address c) < 16 \<and> length (tun_ipv6_address c) < 64
     \<and> length (tun_post_up_script c) < 1024 \<and> length (tun_pre_down_script c) < 1024
     \<and> length (log_file c) < 1024 \<and> length (pid_file c) < 1024 \<and> srv_fits (srv c)"

lemma fold_inv: "(\<And>x s. P s \<Longrightarrow> P (f x s)) \<Longrightarrow> P s \<Longrightarrow> P (fold f xs s)"
  by (induction xs arbitrary: s) auto

lemma strncpy_fits: "length (strncpy_str v n) \<le> n"
  by (simp add: strncpy_str_def)

lemma strncpy_less: "n < m \<Longrightarrow> length (strncpy_str v n) < m"
  using strncpy_fits [of v n] by simp

lemma parse_tunnel_ip_fits:
  assumes "config_fits c"
  shows "config_fits (snd (hev_config_parse_tunnel_ipv4 doc b c))" "config_fits (snd (hev_config_parse_tunnel_ipv6 doc b c))"
proof -
  have "config_fits (fold set_tunnel_ipv4 ps c)" for ps
    by (rule fold_inv [of config_fits]) (use assms in \<open>auto simp: set_tunnel_ipv4_def config_fits_def strncpy_less\<close>)
  moreover have "config_fits (fold set_tunnel_ipv6 ps c)" for ps
    by (rule fold_inv [of config_fits]) (use assms in \<open>auto simp: set_tunnel_ipv6_def config_fits_def strncpy_less\<close>)
  ultimately show "config_fits (snd (hev_config_parse_tunnel_ipv4 doc b c))" "config_fits (snd (hev_config_parse_tunnel_ipv6 doc b c))"
    using assms by (auto simp: hev_config_parse_tunnel_ipv4_def hev_config_parse_tunnel_ipv6_def split: option.splits yaml_node.splits)
qed

lemma set_tunnel_fits: "config_fits c \<Longrightarrow> config_fits (set_tunnel doc kn c)"
proof (cases "snd kn")
  case (YScalar v)
  assume "config_fits c"
  with YScalar show ?thesis by (simp add: set_tunnel_def Let_def config_fits_def strncpy_less)
qed (simp_all add: set_tunnel_def Let_def parse_tunnel_ip_fits)

lemma parse_tunnel_fits: "config_fits c \<Longrightarrow> config_fits (snd (hev_config_parse_tunnel doc base c))"
  using fold_inv [of config_fits "set_tunnel doc" c] set_tunnel_fits
  by (auto simp: hev_config_parse_tunnel_def split: option.splits yaml_node.splits)

lemma store_socks5_fits:
  assumes "srv_fits s" "val ''username'' = None \<longleftrightarrow> val ''password'' = None"
  shows "srv_fits (store_socks5 val addr port s)"
  using assms unfolding store_socks5_def Let_def
  by (cases "val ''pipeline''"; cases "val ''udp''"; cases "val ''udp-address''"; cases "val ''username''"; cases "val ''password''";
      cases "val ''mark''") (simp_all add: srv_fits_def strncpy_less)

lemma parse_socks5_fits: "config_fits c \<Longrightarrow> config_fits (snd (hev_config_parse_socks5 doc base c))"
  using store_socks5_fits
  by (auto simp: hev_config_parse_socks5_def config_fits_def Let_def split: option.splits yaml_node.splits)

lemma parse_mapdns_fits: "config_fits c \<Longrightarrow> config_fits (snd (hev_config_parse_mapdns pton doc base c))"
proof -
  assume c: "config_fits c"
  have "config_fits (fold (set_mapdns pton) ps c)" for ps
    by (rule fold_inv [of config_fits]) (use c in \<open>auto simp: set_mapdns_def Let_def config_fits_def\<close>)
  then show ?thesis
    using c by (auto simp: hev_config_parse_mapdns_def config_fits_def Let_def split: option.splits yaml_node.splits)
qed

lemma parse_misc_fits: "config_fits c \<Longrightarrow> config_fits (snd (hev_config_parse_misc doc base c))"
proof -
  assume c: "config_fits c"
  have "config_fits (fst (fold set_misc ps (c, l)))" for ps l
    by (rule fold_inv [of "\<lambda>st. config_fits (fst st)"])
       (use c in \<open>auto simp: set_misc_def Let_def config_fits_def strncpy_less\<close>)
  then show ?thesis
    using c by (auto simp: hev_config_parse_misc_def config_fits_def Let_def case_prod_beta split: option.splits yaml_node.splits)
qed

lemma parse_sections_fits: "config_fits c \<Longrightarrow> config_fits (snd (parse_sections pton doc kns c))"
proof (induction kns arbitrary: c)
  case (Cons kn kns)
  have "config_fits (snd (parse_section pton doc kn c))"
    using Cons.prems parse_tunnel_fits parse_socks5_fits parse_mapdns_fits parse_misc_fits
    by (simp add: parse_section_def Let_def)
  then show ?case using Cons.IH by (simp add: case_prod_beta Let_def)
qed simp

lemma clamp_sizes_keeps:
  "tun_name (clamp_sizes c) = tun_name c" "tun_ipv4_address (clamp_sizes c) = tun_ipv4_address c"
  "tun_ipv6_address (clamp_sizes c) = tun_ipv6_address c" "tun_post_up_script (clamp_sizes c) = tun_post_up_script c"
  "tun_pre_down_script (clamp_sizes c) = tun_pre_down_script c" "log_file (clamp_sizes c) = log_file c"
  "pid_file (clamp_sizes c) = pid_file c" "srv (clamp_sizes c) = srv c"
  "cfg_udp_copy_buffer_nums (clamp_sizes c) = cfg_udp_copy_buffer_nums c"
  by (simp_all add: clamp_sizes_def Let_def)

lemma int32_id: "- (2 ^ 31) \<le> v \<Longrightarrow> v < 2 ^ 31 \<Longrightarrow> int32 v = v"
  using signed_take_bit_int_eq_self [of 31 v] by (simp add: int32_def signed_of_int)

lemma int32_range: "- (2 ^ 31) \<le> int32 v \<and> int32 v < 2 ^ 31"
  using sint_greater_eq [of "word_of_int v :: 32 word"] sint_less [of "word_of_int v :: 32 word"] by (simp add: int32_def)

definition socks5_value :: "yaml_document \<Rightarrow> yaml_node option \<Rightarrow> string \<Rightarrow> string option" where
  "socks5_value doc base key = (case base of Some (YMapping ps) \<Rightarrow> last_value key (scalar_pairs doc ps) | _ \<Rightarrow> None)"

section \<open>Properties\<close>

text \<open>
  C38. Whatever the document, no string of the settings overflows its buffer, in particular user name
  and password of the server fit the one-byte lengths of the protocol and are set together.
\<close>

theorem config_strings_fit:
  "config_fits (snd (hev_config_parse_doc pton doc config_defaults))"
proof -
  have "config_fits config_defaults" by (simp add: config_fits_def config_defaults_def srv_fits_def)
  from parse_sections_fits [OF this]
  have s: "config_fits (snd (parse_sections pton doc (keyed_nodes doc ps) config_defaults))" for ps .
  then have "config_fits (clamp_sizes (snd (parse_sections pton doc (keyed_nodes doc ps) config_defaults)))" for ps
    by (simp add: config_fits_def clamp_sizes_keeps)
  with s \<open>config_fits config_defaults\<close> show ?thesis
    by (auto simp: hev_config_parse_doc_def case_prod_beta Let_def split: option.splits yaml_node.splits)
qed

text \<open>
  C37. Sizes after a successful parse that has stored a number of datagram buffers between 0 and 1000000 and, for the TCP buffer, a value of type \<open>int\<close>: the
  buffer of a TCP session is no larger than the send buffer of the stack, and the stack of a task has room for it and for the datagram
  buffers on top of the base size. The parser itself does not enforce these bounds: it lets a negative size of the TCP buffer pass (\<open>config_negative_buffer\<close>),
  and with more than 1.4 million datagram buffers the \<open>int\<close> product wraps.
\<close>

theorem config_sizes:
  assumes "hev_config_parse_doc pton doc c = (0, c')" "0 \<le> cfg_udp_copy_buffer_nums c'" "cfg_udp_copy_buffer_nums c' \<le> 1000000"
    and "- (2 ^ 31) \<le> tcp_buffer_size c'"
  shows "tcp_buffer_size c' \<le> int TCP_SND_BUF \<and> TASK_STACK_SIZE + tcp_buffer_size c' \<le> cfg_task_stack_size c'
    \<and> TASK_STACK_SIZE + UDP_BUF_SIZE * cfg_udp_copy_buffer_nums c' \<le> cfg_task_stack_size c'"
proof -
  obtain c0 where c0: "c' = clamp_sizes c0"
    using assms(1) by (auto simp: hev_config_parse_doc_def case_prod_beta Let_def split: option.splits yaml_node.splits if_splits)
  define n where "n = cfg_udp_copy_buffer_nums c0"
  have n: "0 \<le> n" "n \<le> 1000000" using assms(2,3) by (simp_all add: c0 n_def clamp_sizes_keeps)
  define b where "b = (if tcp_buffer_size c0 > int TCP_SND_BUF then int TCP_SND_BUF else tcp_buffer_size c0)"
  have b': "tcp_buffer_size c' = b" by (simp add: c0 clamp_sizes_def Let_def b_def)
  then have b: "- (2 ^ 31) \<le> b" "b \<le> int TCP_SND_BUF" using assms(4) by (auto simp: b_def)
  have i: "int32 (UDP_BUF_SIZE * n) = UDP_BUF_SIZE * n" "int32 (TASK_STACK_SIZE + b) = TASK_STACK_SIZE + b"
    "int32 (TASK_STACK_SIZE + UDP_BUF_SIZE * n) = TASK_STACK_SIZE + UDP_BUF_SIZE * n"
    using n b by (auto intro!: int32_id simp: UDP_BUF_SIZE_def TASK_STACK_SIZE_def TCP_SND_BUF_def)
  have "cfg_task_stack_size c' = max (cfg_task_stack_size c0)
      (if b > int32 (UDP_BUF_SIZE * n) then int32 (TASK_STACK_SIZE + b) else int32 (TASK_STACK_SIZE + int32 (UDP_BUF_SIZE * n)))"
    by (cases "tcp_buffer_size c0 > int TCP_SND_BUF") (simp_all add: c0 clamp_sizes_def Let_def b_def n_def max_def)
  then have "(if b > UDP_BUF_SIZE * n then TASK_STACK_SIZE + b else TASK_STACK_SIZE + UDP_BUF_SIZE * n) \<le> cfg_task_stack_size c'"
    unfolding i by simp
  moreover have "cfg_udp_copy_buffer_nums c' = n" by (simp add: c0 clamp_sizes_keeps n_def)
  ultimately show ?thesis using b' b by (auto split: if_splits)
qed

definition doc0 :: yaml_document where
  "doc0 = [YMapping [(2, 3)], YScalar ''misc'', YMapping [(4, 5)], YScalar ''tcp-buffer-size'', YScalar ''4096'']"

lemma doc0_parses:
  "hev_config_parse_doc (\<lambda>_. None) doc0 config_defaults = (0, config_defaults\<lparr>tcp_buffer_size := 4096\<rparr>)"
proof -
  have "int_of_ulong (strtoul ''4096'' 10) = 4096"
    by (simp add: int_of_ulong_def strtoul_def strip_sign_def strip_base_def is_space_def)
  then show ?thesis
    by (simp add: hev_config_parse_doc_def doc0_def yaml_document_get_root_node_def yaml_document_get_node_def
        parse_section_def hev_config_parse_misc_def scalar_pairs_def set_misc_def clamp_sizes_def config_defaults_def
        TCP_SND_BUF_def UDP_BUF_SIZE_def TASK_STACK_SIZE_def int32_id Let_def)
qed

theorem config_sizes_witness:
  "\<exists>c'. hev_config_parse_doc (\<lambda>_. None) doc0 config_defaults = (0, c') \<and> tcp_buffer_size c' \<le> int TCP_SND_BUF
    \<and> TASK_STACK_SIZE + tcp_buffer_size c' \<le> cfg_task_stack_size c'"
  using doc0_parses config_sizes [OF doc0_parses] by (simp add: config_defaults_def)

text \<open>
  The section on the SOCKS server is accepted exactly if it is a mapping with an address and a
  port, and with both a user name and a password or neither; among several values of a key the
  last one counts. Otherwise the settings are unchanged.
\<close>

theorem config_socks5_iff:
  "hev_config_parse_socks5 doc base c =
    (let val = socks5_value doc base in
     if val ''port'' \<noteq> None \<and> val ''address'' \<noteq> None \<and> (val ''username'' = None) = (val ''password'' = None)
     then (0, c\<lparr>srv := store_socks5 val (the (val ''address'')) (the (val ''port'')) (srv c)\<rparr>) else (-1, c))"
  by (auto simp: hev_config_parse_socks5_def socks5_value_def [abs_def] Let_def split: option.splits yaml_node.splits)

text \<open>
  A size of 2147483648 or more for the TCP buffer is stored as a negative number, which the test
  against the largest size lets pass.
\<close>

theorem config_negative_buffer:
  "tcp_buffer_size (snd (hev_config_parse_doc pton
     [YMapping [(2, 3)], YScalar ''misc'', YMapping [(4, 5)], YScalar ''tcp-buffer-size'', YScalar ''4294967295''] config_defaults)) = -1"
proof -
  have "int_of_ulong (strtoul ''4294967295'' 10) = -1"
    by (simp add: int_of_ulong_def strtoul_def strip_sign_def strip_base_def is_space_def)
  then show ?thesis
    by (simp add: hev_config_parse_doc_def yaml_document_get_root_node_def yaml_document_get_node_def
        parse_section_def hev_config_parse_misc_def scalar_pairs_def set_misc_def clamp_sizes_def config_defaults_def
        TCP_SND_BUF_def UDP_BUF_SIZE_def TASK_STACK_SIZE_def int32_id Let_def)
qed

end
