(* ===== verification/Session_TCP.thy ===== *)
theory Session_TCP
  imports UDP_Relay Lwip_Addr Socks5_Client Config
begin

text \<open>
  A TCP session (\<open>hev-socks5-session.c\<close>, \<open>hev-socks5-session-tcp.c\<close>): the task that moves bytes between
  a connection of the TCP/IP stack and a SOCKS connection, and the callbacks by which the stack
  delivers data, acknowledges data and reports errors while the task waits. What the session
  uses of the stack is written out from its sources: chains of buffers, the receive window and
  the send buffer of a connection. \<open>None\<close> is a fault: the use of a ring buffer that does not exist.
\<close>

section \<open>The stack\<close>

text \<open>A chain of \<open>pbuf\<close>s is the list of their payloads; the empty list is NULL.\<close>

definition pbuf_tot_len :: "byte list list \<Rightarrow> nat" where
  "pbuf_tot_len q = length (concat q) mod 2 ^ 16"

fun pbuf_free_header :: "nat \<Rightarrow> byte list list \<Rightarrow> byte list list" where
  "pbuf_free_header n [] = []"
| "pbuf_free_header n (p # q) =
     (if n = 0 then p # q
      else if n \<ge> length p then pbuf_free_header (n - length p) q
      else drop n p # q)"

definition pbuf_cat :: "byte list list \<Rightarrow> byte list list \<Rightarrow> byte list list" where
  "pbuf_cat h t = h @ t"

datatype err_t = ERR_OK | ERR_MEM | ERR_WOULDBLOCK | ERR_CONN | ERR_IF | ERR_RST | ERR_ABRT

definition TCP_WND :: nat where "TCP_WND = 8 * 8191"

text \<open>
  A connection: the window it offers, the room for bytes to send, the bytes it was given and has not
  had acknowledged (they stay in the memory of the session), all the bytes it was given, and
  whether its sending side was shut down.
\<close>

record tcp_pcb =
  rcv_wnd :: nat
  snd_buf :: nat
  unacked :: "byte list"
  given :: "byte list"
  fin_sent :: bool

definition tcp_recved :: "tcp_pcb \<Rightarrow> nat \<Rightarrow> tcp_pcb" where
  "tcp_recved pcb len =
     (let w = (rcv_wnd pcb + len) mod 2 ^ 16 in
      if w > TCP_WND \<or> w < rcv_wnd pcb then pcb\<lparr>rcv_wnd := TCP_WND\<rparr> else pcb\<lparr>rcv_wnd := w\<rparr>)"

text \<open>
  \<open>tcp_write\<close> takes a 16-bit length. \<open>env\<close> is the result of its tests of the state of the connection
  (\<open>ERR_CONN\<close>), of the length of its queue and of memory (\<open>ERR_MEM\<close>).
\<close>

definition tcp_write :: "err_t \<Rightarrow> tcp_pcb \<Rightarrow> byte list \<Rightarrow> err_t \<times> tcp_pcb" where
  "tcp_write env pcb bs =
     (let len = length bs mod 2 ^ 16 in
      if env = ERR_CONN then (ERR_CONN, pcb)
      else if len = 0 then (ERR_OK, pcb)
      else if len > snd_buf pcb then (ERR_MEM, pcb)
      else if env \<noteq> ERR_OK then (env, pcb)
      else (ERR_OK, pcb\<lparr>snd_buf := snd_buf pcb - len, unacked := unacked pcb @ take len bs,
                         given := given pcb @ take len bs\<rparr>))"

text \<open>\<open>err |= e\<close>: the session only tests whether the result is \<open>ERR_OK\<close>.\<close>

definition err_or :: "err_t \<Rightarrow> err_t \<Rightarrow> err_t" where
  "err_or a b = (if a = ERR_OK then b else a)"

section \<open>The session\<close>

record hev_socks5_session_tcp =
  ss_base :: hev_socks5_client_tcp
  ss_queue :: "byte list list"
  ss_pcb :: "tcp_pcb option"
  ss_buffer :: "hev_ring_buffer option"
  ss_eof :: bool
  ss_woken :: bool

text \<open>What the SOCKS connection has been sent, and whether it was shut down for sending.\<close>

record upstream =
  up_bytes :: "byte list"
  up_fin :: bool

definition hev_task_wakeup :: "hev_socks5_session_tcp \<Rightarrow> hev_socks5_session_tcp" where
  "hev_task_wakeup self = self\<lparr>ss_woken := True\<rparr>"

definition hev_socks5_session_terminate :: "hev_socks5_session_tcp \<Rightarrow> hev_socks5_session_tcp" where
  "hev_socks5_session_terminate self = hev_task_wakeup (self\<lparr>ss_base := hev_socks5_set_timeout (ss_base self) 0\<rparr>)"

text \<open>Results of \<open>writev\<close> (\<open>WDone n\<close>: the kernel takes at most \<open>n + 1\<close> bytes) and of \<open>readv\<close>.\<close>

datatype writev_res = WAgain | WFail | WDone nat
datatype readv_res = RdAgain | RdFail | RdEof | RdData "byte list"

text \<open>
  \<open>tcp_splice_f\<close> is in two parts, because it takes a lock in between, at which the task may yield: the
  system call, whose second result is the number of bytes it took, and the update of the queue.
\<close>

definition splice_f_send ::
  "hev_socks5_session_tcp \<Rightarrow> upstream \<Rightarrow> writev_res \<Rightarrow> int \<times> nat \<times> upstream" where
  "splice_f_send self up k =
     (let iov = take 64 (ss_queue self) in
      if iov \<noteq> [] then
        (case k of
           WAgain \<Rightarrow> (0, 0, up)
         | WFail \<Rightarrow> (-1, 0, up)
         | WDone n \<Rightarrow>
             let s = min (Suc n) (length (concat iov)) in
             if s = 0 then (-1, 0, up)
             else (1, s, up\<lparr>up_bytes := up_bytes up @ take s (concat iov)\<rparr>))
      else if ss_eof self then (-1, 0, up\<lparr>up_fin := True\<rparr>)
      else (0, 0, up))"

definition splice_f_done :: "hev_socks5_session_tcp \<Rightarrow> nat \<Rightarrow> hev_socks5_session_tcp" where
  "splice_f_done self s = self\<lparr>
     ss_queue := pbuf_free_header (s mod 2 ^ 16) (ss_queue self),
     ss_pcb := map_option (\<lambda>p. tcp_recved p (s mod 2 ^ 16)) (ss_pcb self)\<rparr>"

definition tcp_splice_f ::
  "hev_socks5_session_tcp \<Rightarrow> upstream \<Rightarrow> writev_res \<Rightarrow> int \<times> hev_socks5_session_tcp \<times> upstream" where
  "tcp_splice_f self up k =
     (let (res, s, up) = splice_f_send self up k in
      if s \<noteq> 0 then (res, splice_f_done self s, up) else (res, self, up))"

text \<open>\<open>tcp_splice_b\<close>, likewise: reading into the ring buffer, and handing its contents to the stack.\<close>

definition splice_b_read :: "hev_socks5_session_tcp \<Rightarrow> readv_res \<Rightarrow> (int \<times> byte list \<times> hev_socks5_session_tcp) option" where
  "splice_b_read self k = do {
     b \<leftarrow> ss_buffer self;
     let iov = hev_ring_buffer_writing b;
     Some (if iov \<noteq> [] then
        (case k of
           RdAgain \<Rightarrow> (0, [], self)
         | RdFail \<Rightarrow> (-1, [], self)
         | RdEof \<Rightarrow> (-1, [], self)
         | RdData bs \<Rightarrow>
             let bs = take (sum_list (map snd iov)) bs in
             if bs = [] then (-1, [], self) else (1, bs, self\<lparr>ss_buffer := Some (ring_write b bs)\<rparr>))
      else (0, [], self)) }"

fun write_segments :: "(nat \<Rightarrow> err_t) \<Rightarrow> tcp_pcb \<Rightarrow> byte list list \<Rightarrow> err_t \<times> tcp_pcb" where
  "write_segments env pcb [] = (ERR_OK, pcb)"
| "write_segments env pcb (b # bs) =
     (let (e, pcb) = tcp_write (env 0) pcb b;
          (e', pcb) = write_segments (\<lambda>i. env (Suc i)) pcb bs in (err_or e e', pcb))"

text \<open>\<open>env\<close> gives the outcomes of the calls in order; \<open>out\<close> is the result of \<open>tcp_output\<close>.\<close>

definition splice_b_write ::
  "(nat \<Rightarrow> err_t) \<Rightarrow> err_t \<Rightarrow> int \<Rightarrow> hev_socks5_session_tcp \<Rightarrow> (int \<times> hev_socks5_session_tcp) option" where
  "splice_b_write env out res self =
     (case ss_pcb self of
        None \<Rightarrow> Some (-1, self)
      | Some pcb \<Rightarrow> do {
          b \<leftarrow> ss_buffer self;
          let iov = hev_ring_buffer_reading b;
          Some (if iov \<noteq> [] then
            (let (err, pcb) = write_segments env pcb (map (\<lambda>(o', n). take n (drop o' (ring_data b))) iov);
                 b = hev_ring_buffer_read_finish b (sum_list (map snd iov));
                 err = err_or err out in
             (if err = ERR_OK then 1 else -1, self\<lparr>ss_pcb := Some pcb, ss_buffer := Some b\<rparr>))
           else if res < 0 then (res, self\<lparr>ss_pcb := Some (pcb\<lparr>fin_sent := True\<rparr>)\<rparr>)
           else (res, self)) })"

definition tcp_splice_b ::
  "(nat \<Rightarrow> err_t) \<Rightarrow> err_t \<Rightarrow> hev_socks5_session_tcp \<Rightarrow> readv_res \<Rightarrow> (int \<times> hev_socks5_session_tcp) option" where
  "tcp_splice_b env out self k = do {
     (res, bs, self) \<leftarrow> splice_b_read self k;
     splice_b_write env out res self }"

section \<open>Callbacks\<close>

definition tcp_recv_handler ::
  "hev_socks5_session_tcp \<Rightarrow> byte list list option \<Rightarrow> err_t \<times> hev_socks5_session_tcp" where
  "tcp_recv_handler self p =
     (case p of
        Some q \<Rightarrow>
          if ss_queue self = [] then (ERR_OK, hev_task_wakeup (self\<lparr>ss_queue := q\<rparr>))
          else if pbuf_tot_len (ss_queue self) > TCP_WND then (ERR_WOULDBLOCK, self)
          else (ERR_OK, hev_task_wakeup (self\<lparr>ss_queue := pbuf_cat (ss_queue self) q\<rparr>))
      | None \<Rightarrow> (ERR_OK, hev_task_wakeup (self\<lparr>ss_eof := True\<rparr>)))"

definition tcp_sent_handler :: "hev_socks5_session_tcp \<Rightarrow> nat \<Rightarrow> (err_t \<times> hev_socks5_session_tcp) option" where
  "tcp_sent_handler self len = do {
     b \<leftarrow> ss_buffer self;
     Some (ERR_OK, hev_task_wakeup (self\<lparr>ss_buffer := Some (hev_ring_buffer_read_release b len)\<rparr>)) }"

definition tcp_err_handler :: "hev_socks5_session_tcp \<Rightarrow> hev_socks5_session_tcp" where
  "tcp_err_handler self = hev_socks5_session_terminate (self\<lparr>ss_pcb := None\<rparr>)"

section \<open>Construction and the run of a session\<close>

text \<open>The mark of the server's configuration; the result of \<open>set_sock_mark\<close> is that of a system call.\<close>

definition hev_socks5_session_tcp_bind :: "hev_config \<Rightarrow> 'a \<Rightarrow> int \<Rightarrow> sockaddr_in6 \<Rightarrow> sys \<Rightarrow> int \<times> sys" where
  "hev_socks5_session_tcp_bind c self fd dest w =
     (let mark = srv_mark (hev_config_get_socks5_server c) in
      if mark \<noteq> 0 then (let (res, w) = next_res w in (if res < 0 then -1 else 0, w)) else (0, w))"

definition hev_socks5_session_tcp_class :: "hev_config \<Rightarrow> hev_socks5_client_tcp client_class" where
  "hev_socks5_session_tcp_class c = hev_socks5_client_tcp_class\<lparr>klass_binder := hev_socks5_session_tcp_bind c\<rparr>"

definition session_tcp_zero :: hev_socks5_session_tcp where
  "session_tcp_zero = \<lparr>ss_base = client_tcp_zero, ss_queue = [], ss_pcb = None, ss_buffer = None, ss_eof = False, ss_woken = False\<rparr>"

text \<open>\<open>ip\<close> and \<open>port\<close> are the destination of the flow, \<open>stack\<close> what the local \<open>addr\<close> holds before it is written.\<close>

definition hev_socks5_session_tcp_construct ::
  "hev_mapped_dns option \<Rightarrow> byte list \<Rightarrow> hev_socks5_session_tcp \<Rightarrow> tcp_pcb \<Rightarrow> ip_addr \<Rightarrow> u16 \<Rightarrow> sys
    \<Rightarrow> (int \<times> hev_socks5_session_tcp \<times> hev_mapped_dns option \<times> sys) option" where
  "hev_socks5_session_tcp_construct dns stack self pcb ip port w = do {
     (dns, addr, res) \<leftarrow> hev_socks5_addr_from_lwip dns stack ip port;
     if res < 0 then Some (-1, self, dns, w)
     else do {
       (res, base, w) \<leftarrow> hev_socks5_client_tcp_construct (ss_base self) addr w;
       let self = self\<lparr>ss_base := base\<rparr>;
       if res < 0 then Some (-1, self, dns, w)
       else Some (0, self\<lparr>ss_pcb := Some pcb\<rparr>, dns, w) } }"

definition hev_socks5_session_tcp_new ::
  "hev_mapped_dns option \<Rightarrow> byte list \<Rightarrow> tcp_pcb \<Rightarrow> ip_addr \<Rightarrow> u16 \<Rightarrow> sys
    \<Rightarrow> (hev_socks5_session_tcp option \<times> hev_mapped_dns option \<times> sys) option" where
  "hev_socks5_session_tcp_new dns stack pcb ip port w =
     (let (ok, w) = hev_malloc w in
      if \<not> ok then Some (None, dns, w)
      else do {
        (res, self, dns, w) \<leftarrow> hev_socks5_session_tcp_construct dns stack session_tcp_zero pcb ip port w;
        if res < 0 then Some (None, dns, hev_free w) else Some (Some self, dns, w) })"

definition bytes_of :: "string \<Rightarrow> byte list" where
  "bytes_of s = map of_char s"

text \<open>
  The run of a session up to the splice: connect, credentials, handshake. The result says whether the
  splice is entered.
\<close>

definition hev_socks5_session_run ::
  "resolver \<Rightarrow> sockaddr_in6 \<Rightarrow> hev_config \<Rightarrow> 'a hev_socks5_client_scheme client_class \<Rightarrow> 'a hev_socks5_client_scheme \<Rightarrow> sys
    \<Rightarrow> (bool \<times> 'a hev_socks5_client_scheme \<times> sys) option" where
  "hev_socks5_session_run R saddr c klass self w =
     (let s = hev_config_get_socks5_server c;
          (res, self, w) = hev_socks5_client_connect R klass saddr self (bytes_of (srv_addr s)) (srv_port s) w in
      if res < 0 then Some (False, self, w)
      else let self = (if srv_user s \<noteq> None \<and> srv_pass s \<noteq> None
                       then hev_socks5_client_set_auth self (map_option bytes_of (srv_user s)) (map_option bytes_of (srv_pass s))
                       else self) in
      do {
        (res, self, w) \<leftarrow> hev_socks5_client_handshake klass self (srv_pipeline s) w;
        Some (\<not> res < 0, self, w) })"

text \<open>Clearing the callbacks and aborting the connection leave the session without one.\<close>

definition hev_socks5_session_tcp_destruct :: "hev_socks5_session_tcp \<Rightarrow> sys \<Rightarrow> sys" where
  "hev_socks5_session_tcp_destruct self w = hev_socks5_client_tcp_destruct (ss_base self) w"

section \<open>The splice\<close>

text \<open>
  Where the task stands: before \<open>tcp_splice_f\<close>; waiting for the lock with \<open>s\<close> bytes written; before
  \<open>tcp_splice_b\<close>; waiting for the lock after reading; at the yield; in the loop that waits for
  acknowledgements; returned.
\<close>

datatype splice_pc = AtF int int | InF int nat | AtB int int | InB int int | AtYield int int | Draining | Returned

text \<open>
  A session at work, with two histories: all that the stack has delivered, and all that was read from
  the SOCKS connection; \<open>cn_lost\<close> says that a call to hand bytes to the stack has failed.
\<close>

record conn =
  cn :: hev_socks5_session_tcp
  cn_up :: upstream
  cn_pc :: splice_pc
  cn_taken :: "byte list"
  cn_fetched :: "byte list"
  cn_lost :: bool

definition readable :: "hev_socks5_session_tcp \<Rightarrow> bool" where
  "readable self = (case ss_buffer self of None \<Rightarrow> False | Some b \<Rightarrow> hev_ring_buffer_reading b \<noteq> [])"

text \<open>
  One step of the task (with the results of its system calls and of the stack as they may come), or of
  the stack: data that fits the window arrives, the peer closes, sent bytes are acknowledged, the
  connection fails. The relation lets the stack act between any two steps of the task, also where the task does not
  yield; it has more runs than the program, so that what holds in all of its states holds of the program, and
  nothing is concluded from the existence of a run.
\<close>

inductive session_step :: "conn \<Rightarrow> conn \<Rightarrow> bool" where
  skip_f: "cn_pc c = AtF rf rb \<Longrightarrow> rf < 0 \<Longrightarrow> session_step c (c\<lparr>cn_pc := AtB rf rb\<rparr>)"
| send_f: "cn_pc c = AtF rf rb \<Longrightarrow> 0 \<le> rf \<Longrightarrow> splice_f_send (cn c) (cn_up c) k = (r, s, up) \<Longrightarrow>
    session_step c (c\<lparr>cn_up := up, cn_pc := (if s \<noteq> 0 then InF rb s else AtB r rb)\<rparr>)"
| done_f: "cn_pc c = InF rb s \<Longrightarrow> session_step c (c\<lparr>cn := splice_f_done (cn c) s, cn_pc := AtB 1 rb\<rparr>)"
| skip_b: "cn_pc c = AtB rf rb \<Longrightarrow> rb < 0 \<Longrightarrow> session_step c (c\<lparr>cn_pc := AtYield rf rb\<rparr>)"
| read_b: "cn_pc c = AtB rf rb \<Longrightarrow> 0 \<le> rb \<Longrightarrow> splice_b_read (cn c) k = Some (r, bs, self) \<Longrightarrow>
    session_step c (c\<lparr>cn := self, cn_fetched := cn_fetched c @ bs, cn_pc := InB rf r\<rparr>)"
| write_b: "cn_pc c = InB rf res \<Longrightarrow> splice_b_write env out res (cn c) = Some (r, self) \<Longrightarrow>
    session_step c (c\<lparr>cn := self, cn_lost := (cn_lost c \<or> r < 0 \<and> readable (cn c)), cn_pc := AtYield rf r\<rparr>)"
| yield: "cn_pc c = AtYield rf rb \<Longrightarrow> splice_next rf rb = Some ty \<Longrightarrow>
    hev_socks5_task_io_yielder sleep ty (s5_timeout (ss_base (cn c))) \<ge> 0 \<Longrightarrow> session_step c (c\<lparr>cn_pc := AtF rf rb\<rparr>)"
| leave: "cn_pc c = AtYield rf rb \<Longrightarrow>
    splice_next rf rb = None \<or> splice_next rf rb = Some ty \<and> hev_socks5_task_io_yielder sleep ty (s5_timeout (ss_base (cn c))) < 0 \<Longrightarrow>
    session_step c (c\<lparr>cn_pc := Draining\<rparr>)"
| return: "cn_pc c = Draining \<Longrightarrow> ss_buffer (cn c) = Some b \<Longrightarrow>
    ss_pcb (cn c) = None \<or> hev_ring_buffer_get_use_size b = 0
      \<or> hev_socks5_task_io_yielder sleep HEV_TASK_WAITIO (s5_timeout (ss_base (cn c))) < 0 \<Longrightarrow>
    session_step c (c\<lparr>cn := (cn c)\<lparr>ss_buffer := None\<rparr>, cn_pc := Returned\<rparr>)"
| receive: "ss_pcb (cn c) = Some p \<Longrightarrow> \<not> ss_eof (cn c) \<Longrightarrow> q \<noteq> [] \<Longrightarrow> [] \<notin> set q \<Longrightarrow> length (concat q) \<le> rcv_wnd p \<Longrightarrow>
    tcp_recv_handler ((cn c)\<lparr>ss_pcb := Some (p\<lparr>rcv_wnd := rcv_wnd p - length (concat q)\<rparr>)\<rparr>) (Some q) = (ERR_OK, self) \<Longrightarrow>
    session_step c (c\<lparr>cn := self, cn_taken := cn_taken c @ concat q\<rparr>)"
| eof: "ss_pcb (cn c) = Some p \<Longrightarrow> tcp_recv_handler (cn c) None = (e, self) \<Longrightarrow> session_step c (c\<lparr>cn := self\<rparr>)"
| ack: "ss_pcb (cn c) = Some p \<Longrightarrow> 0 < n \<Longrightarrow> n \<le> length (unacked p) \<Longrightarrow> n < 2 ^ 16 \<Longrightarrow>
    tcp_sent_handler ((cn c)\<lparr>ss_pcb := Some (p\<lparr>unacked := drop n (unacked p), snd_buf := snd_buf p + n\<rparr>)\<rparr>) n = Some (e, self) \<Longrightarrow>
    session_step c (c\<lparr>cn := self\<rparr>)"
| fail: "ss_pcb (cn c) = Some p \<Longrightarrow> session_step c (c\<lparr>cn := tcp_err_handler (cn c)\<rparr>)"

text \<open>The start: the splice of a session whose connection has been accepted, with a buffer of the configured size.\<close>

definition pcb0 :: tcp_pcb where
  "pcb0 = \<lparr>rcv_wnd = TCP_WND, snd_buf = TCP_SND_BUF, unacked = [], given = [], fin_sent = False\<rparr>"

definition splice_start :: "hev_socks5_session_tcp \<Rightarrow> byte list \<Rightarrow> conn" where
  "splice_start self mem = \<lparr>cn = self\<lparr>ss_buffer := Some (hev_ring_buffer_alloca mem)\<rparr>,
     cn_up = \<lparr>up_bytes = [], up_fin = False\<rparr>, cn_pc = AtF 1 1, cn_taken = concat (ss_queue self), cn_fetched = [], cn_lost = False\<rparr>"

section \<open>Chains and windows\<close>

lemma concat_pbuf_free_header [simp]: "concat (pbuf_free_header n q) = drop n (concat q)"
  by (induction n q rule: pbuf_free_header.induct) auto

lemma pbuf_free_header_nonempty: "[] \<notin> set q \<Longrightarrow> [] \<notin> set (pbuf_free_header n q)"
  by (induction n q rule: pbuf_free_header.induct) auto

lemma tcp_recved_window:
  "rcv_wnd p + len \<le> TCP_WND \<Longrightarrow> tcp_recved p len = p\<lparr>rcv_wnd := rcv_wnd p + len\<rparr>"
  by (simp add: tcp_recved_def TCP_WND_def Let_def)

text \<open>While the chain fits the window, new data is always accepted and its total length does not wrap.\<close>

lemma recv_handler_accepts:
  "length (concat (ss_queue self)) \<le> TCP_WND \<Longrightarrow> tcp_recv_handler self (Some q) =
     (ERR_OK, self\<lparr>ss_queue := ss_queue self @ q, ss_woken := True\<rparr>)"
  by (simp add: tcp_recv_handler_def hev_task_wakeup_def pbuf_tot_len_def pbuf_cat_def TCP_WND_def)

lemma splice_f_send_cases:
  assumes "splice_f_send self up k = (r, s, up')" "[] \<notin> set (ss_queue self)"
  obtains (sent) "s \<noteq> 0" "r = 1" "s \<le> length (concat (ss_queue self))"
      "up' = up\<lparr>up_bytes := up_bytes up @ take s (concat (ss_queue self))\<rparr>"
    | (closed) "s = 0" "ss_queue self = []" "ss_eof self" "r = -1" "up' = up\<lparr>up_fin := True\<rparr>"
    | (none) "s = 0" "up' = up"
proof -
  let ?q = "concat (ss_queue self)" and ?i = "concat (take 64 (ss_queue self))"
  have i: "?q = ?i @ concat (drop 64 (ss_queue self))" by (metis append_take_drop_id concat_append)
  then have "length ?i \<le> length ?q" "\<And>n. n \<le> length ?i \<Longrightarrow> take n ?i = take n ?q"
    by (metis le_add1 length_append, simp)
  then have "min n (length ?i) \<le> length ?q" "take (min n (length ?i)) ?i = take (min n (length ?i)) ?q" for n
    by (auto simp: min_le_iff_disj)
  then show thesis
    using assms sent closed none
    by (auto simp: splice_f_send_def Let_def split: if_splits writev_res.splits) blast
qed

definition splice_pending :: "splice_pc \<Rightarrow> nat" where
  "splice_pending pc = (case pc of InF rb s \<Rightarrow> s | _ \<Rightarrow> 0)"

text \<open>
  The forward direction: what the SOCKS connection was sent, with what is queued and not sent, is what
  the stack delivered; the window and the queue make up the whole window; a closed direction has
  been drained.
\<close>

definition forward_inv :: "conn \<Rightarrow> bool" where
  "forward_inv c \<longleftrightarrow> [] \<notin> set (ss_queue (cn c))
     \<and> splice_pending (cn_pc c) \<le> length (concat (ss_queue (cn c)))
     \<and> up_bytes (cn_up c) @ drop (splice_pending (cn_pc c)) (concat (ss_queue (cn c))) = cn_taken c
     \<and> length (concat (ss_queue (cn c))) \<le> TCP_WND
     \<and> (\<forall>p. ss_pcb (cn c) = Some p \<longrightarrow> rcv_wnd p + length (concat (ss_queue (cn c))) = TCP_WND)
     \<and> (up_fin (cn_up c) \<longrightarrow> ss_eof (cn c) \<and> ss_queue (cn c) = [])"

lemmas session_defs = splice_f_done_def tcp_err_handler_def hev_socks5_session_terminate_def hev_task_wakeup_def

lemma splice_b_read_frame:
  "splice_b_read self k = Some (r, bs, self') \<Longrightarrow> ss_queue self' = ss_queue self \<and> ss_pcb self' = ss_pcb self \<and> ss_eof self' = ss_eof self"
  by (auto simp: splice_b_read_def Let_def split: if_splits readv_res.splits Option.bind_splits)

lemma tcp_write_cases:
  assumes "tcp_write env p bs = (e, p')" "length bs < 2 ^ 16"
  obtains "e = ERR_OK" "p' = p\<lparr>snd_buf := snd_buf p - length bs, unacked := unacked p @ bs, given := given p @ bs\<rparr>"
      "length bs \<le> snd_buf p"
    | "e \<noteq> ERR_OK" "p' = p" "env \<noteq> ERR_OK \<or> snd_buf p < length bs"
  using assms by (auto simp: tcp_write_def Let_def split: if_splits)

lemma write_segments_ok:
  assumes "write_segments env p bss = (e, p')" "\<forall>bs\<in>set bss. length bs < 2 ^ 16"
  shows "\<exists>w. unacked p' = unacked p @ w \<and> given p' = given p @ w \<and> snd_buf p' + length w = snd_buf p
    \<and> length w \<le> length (concat bss) \<and> (e = ERR_OK \<longrightarrow> w = concat bss)
    \<and> rcv_wnd p' = rcv_wnd p \<and> fin_sent p' = fin_sent p"
  using assms
proof (induction env p bss arbitrary: e p' rule: write_segments.induct)
  case (2 env p bs bss)
  obtain e1 p1 e2 where w: "tcp_write (env 0) p bs = (e1, p1)"
    "write_segments (\<lambda>i. env (Suc i)) p1 bss = (e2, p')" "e = err_or e1 e2"
    using 2(2) by (auto simp: Let_def split: prod.splits)
  obtain v where v: "unacked p' = unacked p1 @ v" "given p' = given p1 @ v" "snd_buf p' + length v = snd_buf p1"
    "length v \<le> length (concat bss)" "e2 = ERR_OK \<longrightarrow> v = concat bss"
    "rcv_wnd p' = rcv_wnd p1" "fin_sent p' = fin_sent p1"
    using 2(1) [OF w(1) [symmetric] refl w(2)] 2(3) by auto
  show ?case
  proof (rule tcp_write_cases [OF w(1)])
    show "length bs < 2 ^ 16" using 2(3) by simp
  next
    assume "e1 = ERR_OK" "length bs \<le> snd_buf p"
      "p1 = p\<lparr>snd_buf := snd_buf p - length bs, unacked := unacked p @ bs, given := given p @ bs\<rparr>"
    then show ?thesis using v w(3) by (intro exI [of _ "bs @ v"]) (auto simp: err_or_def)
  next
    assume "e1 \<noteq> ERR_OK" "p1 = p"
    then show ?thesis using v w(3) by (intro exI [of _ v]) (auto simp: err_or_def)
  qed
qed auto

text \<open>The stack takes all that is offered when there is room for it and its other tests succeed.\<close>

lemma write_segments_room:
  "length (concat bss) \<le> snd_buf p \<Longrightarrow> \<forall>bs\<in>set bss. length bs < 2 ^ 16 \<Longrightarrow> \<forall>i. env i = ERR_OK
    \<Longrightarrow> fst (write_segments env p bss) = ERR_OK"
proof (induction env p bss rule: write_segments.induct)
  case (2 env p bs bss)
  obtain e p' where w: "tcp_write (env 0) p bs = (e, p')" by fastforce
  moreover from w have "e = ERR_OK \<and> length (concat bss) \<le> snd_buf p'"
    by (rule tcp_write_cases) (use 2(2-4) in auto)
  ultimately show ?case
    using 2(1) [OF w [symmetric] refl] 2(3,4) by (auto simp: err_or_def case_prod_beta)
qed simp

lemma write_segments_rcv_wnd [simp]: "rcv_wnd (snd (write_segments env p bss)) = rcv_wnd p"
  by (induction env p bss rule: write_segments.induct) (auto simp: tcp_write_def Let_def case_prod_beta)

lemma splice_b_write_frame:
  "splice_b_write env out res self = Some (r, self') \<Longrightarrow> ss_queue self' = ss_queue self \<and> ss_eof self' = ss_eof self
     \<and> (\<forall>p'. ss_pcb self' = Some p' \<longrightarrow> (\<exists>p. ss_pcb self = Some p \<and> rcv_wnd p = rcv_wnd p'))"
  by (auto simp: splice_b_write_def Let_def case_prod_beta split: if_splits option.splits Option.bind_splits)

lemma forward_inv_step:
  assumes "session_step c c'" "forward_inv c"
  shows "forward_inv c'"
  using assms
proof (cases rule: session_step.cases)
  case (send_f rf rb k r s up)
  have "[] \<notin> set (ss_queue (cn c))" using assms(2) by (simp add: forward_inv_def)
  with send_f(4) show ?thesis
    by (rule splice_f_send_cases) (use send_f assms(2) in \<open>auto simp: forward_inv_def splice_pending_def\<close>)
next
  case (done_f rb s)
  let ?q = "concat (ss_queue (cn c))"
  have "s < 2 ^ 16" "s \<le> length ?q" "length ?q \<le> TCP_WND"
    using assms(2) done_f by (auto simp: forward_inv_def splice_pending_def TCP_WND_def)
  moreover have "tcp_recved p s = p\<lparr>rcv_wnd := rcv_wnd p + s\<rparr>" if "ss_pcb (cn c) = Some p" for p
    using assms(2) that \<open>s \<le> length ?q\<close> by (intro tcp_recved_window) (auto simp: forward_inv_def)
  ultimately show ?thesis
    using assms(2) done_f
    by (auto simp: forward_inv_def splice_pending_def splice_f_done_def pbuf_free_header_nonempty)
next
  case (read_b rf rb k r bs self)
  then show ?thesis using assms(2) splice_b_read_frame [OF read_b(4)]
    by (auto simp: forward_inv_def splice_pending_def)
next
  case (write_b rf res env out r self)
  then show ?thesis using assms(2) splice_b_write_frame [OF write_b(3)]
    by (auto simp: forward_inv_def splice_pending_def)
next
  case (receive p q self)
  then show ?thesis using assms(2)
    by (auto simp: forward_inv_def recv_handler_accepts)
next
  case (ack p n e self)
  then show ?thesis using assms(2)
    by (auto simp: forward_inv_def tcp_sent_handler_def hev_task_wakeup_def split: Option.bind_splits)
qed (auto simp: forward_inv_def splice_pending_def tcp_recv_handler_def session_defs)

section \<open>The backward direction\<close>

definition splice_rb :: "splice_pc \<Rightarrow> int" where
  "splice_rb pc = (case pc of AtF rf rb \<Rightarrow> rb | InF rb s \<Rightarrow> rb | AtB rf rb \<Rightarrow> rb | InB rf res \<Rightarrow> 0
     | AtYield rf rb \<Rightarrow> rb | Draining \<Rightarrow> -1 | Returned \<Rightarrow> -1)"

text \<open>
  What the buffer holds against the state of the connection: the bytes in flight are those the stack has not
  had acknowledged, the room in the send buffer covers the buffer, and what the stack was given is
  what was read from the SOCKS connection, less what is still to be handed over. A connection that was shut down
  had everything.
\<close>

definition flow_ok :: "conn \<Rightarrow> byte list \<Rightarrow> byte list \<Rightarrow> tcp_pcb \<Rightarrow> bool" where
  "flow_ok c fl rd p \<longleftrightarrow> length (unacked p) \<le> length fl \<and> snd_buf p + length (unacked p) = TCP_SND_BUF
     \<and> (\<not> cn_lost c \<longrightarrow> unacked p = fl \<and> given p @ rd = cn_fetched c)
     \<and> (fin_sent p \<longrightarrow> splice_rb (cn_pc c) < 0 \<and> rd = [])"

definition backward_inv :: "conn \<Rightarrow> bool" where
  "backward_inv c \<longleftrightarrow> (cn_pc c \<noteq> Returned \<longrightarrow> (\<exists>b fl rd. ss_buffer (cn c) = Some b \<and> ring_rep b fl rd
     \<and> max_size b \<le> TCP_SND_BUF \<and> (\<forall>p. ss_pcb (cn c) = Some p \<longrightarrow> flow_ok c fl rd p)))"

lemma backward_invI:
  "ss_buffer (cn c) = Some b \<Longrightarrow> ring_rep b fl rd \<Longrightarrow> max_size b \<le> TCP_SND_BUF
    \<Longrightarrow> (\<And>p. ss_pcb (cn c) = Some p \<Longrightarrow> flow_ok c fl rd p) \<Longrightarrow> backward_inv c"
  by (auto simp: backward_inv_def)

lemma ring_rep_sizes:
  "ring_rep b fl rd \<Longrightarrow> 0 < max_size b \<and> max_size b < 2 ^ 62 \<and> use_size b = length fl + length rd
     \<and> rda_size b = length rd \<and> use_size b \<le> max_size b"
  by (auto simp: ring_rep_def ring_at_def)

lemma ring_segments:
  assumes "ring_rep b fl rd" "max_size b \<le> TCP_SND_BUF"
  defines "iov \<equiv> hev_ring_buffer_reading b"
  shows "concat (map (\<lambda>(o', n). take n (drop o' (ring_data b))) iov) = rd" "sum_list (map snd iov) = length rd"
    "\<forall>bs\<in>set (map (\<lambda>(o', n). take n (drop o' (ring_data b))) iov). length bs < 2 ^ 16" "iov = [] \<longleftrightarrow> rd = []"
proof -
  obtain t where t: "ring_at b t fl rd" using assms(1) by (auto simp: ring_rep_def)
  have s: "length (ring_data b) = max_size b" "rp b < max_size b" "rda_size b = length rd" "max_size b < 2 ^ 62"
    "length rd \<le> max_size b" using t ring_bounds [OF t] by (auto simp: ring_at_def)
  then have u: "sz_sub (max_size b) (rp b) = max_size b - rp b" by simp
  show "concat (map (\<lambda>(o', n). take n (drop o' (ring_data b))) iov) = rd"
    using ring_reading_gather [OF t] by (simp add: gather_def iov_def)
  show "iov = [] \<longleftrightarrow> rd = []" using s by (auto simp: iov_def hev_ring_buffer_reading_def Let_def)
  show "sum_list (map snd iov) = length rd"
    using s u by (auto simp: iov_def hev_ring_buffer_reading_def Let_def)
  have "length (take n (drop o' (ring_data b))) < 2 ^ 16" for n o'
    using s assms(2) by (auto simp: TCP_SND_BUF_def min_def)
  then show "\<forall>bs\<in>set (map (\<lambda>(o', n). take n (drop o' (ring_data b))) iov). length bs < 2 ^ 16" by auto
qed

lemma ring_free_size:
  assumes "ring_rep b fl rd"
  shows "sum_list (map snd (hev_ring_buffer_writing b)) = max_size b - use_size b"
proof -
  obtain t where t: "ring_at b t fl rd" using assms by (auto simp: ring_rep_def)
  have "wp b < max_size b" "use_size b \<le> max_size b" "max_size b < 2 ^ 62"
    using t ring_bounds [OF t] by (auto simp: ring_at_def)
  then show ?thesis by (auto simp: hev_ring_buffer_writing_def Let_def)
qed

lemma ring_rep_write:
  "ring_rep b fl rd \<Longrightarrow> length bs \<le> max_size b - use_size b \<Longrightarrow> ring_rep (ring_write b bs) fl (rd @ bs)"
  by (auto simp: ring_rep_def intro: ring_write_at)

lemma ring_rep_read_all:
  "ring_rep b fl rd \<Longrightarrow> ring_rep (hev_ring_buffer_read_finish b (length rd)) (fl @ rd) []"
  using ring_read_finish_at [of b _ fl rd "length rd"] by (fastforce simp: ring_rep_def)

lemma ring_rep_release:
  "ring_rep b fl rd \<Longrightarrow> n \<le> length fl \<Longrightarrow> ring_rep (hev_ring_buffer_read_release b n) (drop n fl) rd"
  by (auto simp: ring_rep_def intro: ring_read_release_at [unfolded ring_rep_def])

lemma splice_b_read_ring:
  assumes "splice_b_read self k = Some (r, bs, self')" "ss_buffer self = Some b" "ring_rep b fl rd"
  shows "\<exists>b'. ss_buffer self' = Some b' \<and> ring_rep b' fl (rd @ bs) \<and> max_size b' = max_size b"
proof -
  have "length (take (sum_list (map snd (hev_ring_buffer_writing b))) xs) \<le> max_size b - use_size b" for xs
    using ring_free_size [OF assms(3)] by simp
  then have "ring_rep (ring_write b (take n xs)) fl (rd @ take n xs)"
    if "n = sum_list (map snd (hev_ring_buffer_writing b))" for n xs
    using that ring_rep_write [OF assms(3)] by blast
  then show ?thesis
    using assms by (auto simp: splice_b_read_def Let_def split: if_splits readv_res.splits)
qed

lemma splice_b_write_ring:
  assumes w: "splice_b_write env out res self = Some (r, self')" and b: "ss_buffer self = Some b"
    and rep: "ring_rep b fl rd" "max_size b \<le> TCP_SND_BUF"
  obtains (gone) "ss_pcb self = None" "self' = self" "r = -1"
    | (idle) p where "ss_pcb self = Some p" "rd = []" "0 \<le> res" "self' = self" "r = res"
    | (shut) p where "ss_pcb self = Some p" "rd = []" "res < 0" "r = res"
        "self' = self\<lparr>ss_pcb := Some (p\<lparr>fin_sent := True\<rparr>)\<rparr>"
    | (wrote) p p' v where "ss_pcb self = Some p" "rd \<noteq> []" "r = 1 \<or> r = -1"
        "self' = self\<lparr>ss_pcb := Some p', ss_buffer := Some (hev_ring_buffer_read_finish b (length rd))\<rparr>"
        "unacked p' = unacked p @ v" "given p' = given p @ v" "snd_buf p' + length v = snd_buf p"
        "length v \<le> length rd" "r = 1 \<Longrightarrow> v = rd" "fin_sent p' = fin_sent p"
proof (cases "ss_pcb self")
  case None
  then have "splice_b_write env out res self = Some (-1, self)" by (simp add: splice_b_write_def)
  then show thesis using w gone [OF None] by simp
next
  case (Some p)
  let ?seg = "map (\<lambda>(o', n). take n (drop o' (ring_data b))) (hev_ring_buffer_reading b)"
  note seg = ring_segments [OF rep]
  show thesis
  proof (cases "rd = []")
    case True
    then have "hev_ring_buffer_reading b = []" using seg(4) by simp
    then have "splice_b_write env out res self =
        Some (res, if res < 0 then self\<lparr>ss_pcb := Some (p\<lparr>fin_sent := True\<rparr>)\<rparr> else self)"
      using b Some by (simp add: splice_b_write_def)
    then have "r = res" "self' = (if res < 0 then self\<lparr>ss_pcb := Some (p\<lparr>fin_sent := True\<rparr>)\<rparr> else self)" using w by auto
    then show thesis using idle [OF Some True] shut [OF Some True] by (cases "res < 0") simp_all
  next
    case False
    obtain e p' where e: "write_segments env p ?seg = (e, p')" by fastforce
    obtain v where "unacked p' = unacked p @ v" "given p' = given p @ v" "snd_buf p' + length v = snd_buf p"
      "length v \<le> length rd" "e = ERR_OK \<longrightarrow> v = rd" "fin_sent p' = fin_sent p"
      using write_segments_ok [OF e seg(3)] seg(1) by auto
    moreover have "splice_b_write env out res self = Some (if err_or e out = ERR_OK then 1 else -1,
        self\<lparr>ss_pcb := Some p', ss_buffer := Some (hev_ring_buffer_read_finish b (length rd))\<rparr>)"
      using b Some False seg(2,4) e by (simp add: splice_b_write_def Let_def)
    moreover have "e = ERR_OK" if "err_or e out = ERR_OK" using that by (simp add: err_or_def split: if_splits)
    moreover from calculation have "r = (if err_or e out = ERR_OK then 1 else -1)"
      "self' = self\<lparr>ss_pcb := Some p', ss_buffer := Some (hev_ring_buffer_read_finish b (length rd))\<rparr>"
      using w by auto
    ultimately show thesis
      by (intro wrote [OF Some False, of p' v]) (simp_all only: split: if_splits, simp_all)
  qed
qed

lemma backward_inv_frame:
  assumes "backward_inv c" "cn_pc c \<noteq> Returned" "ss_buffer (cn c') = ss_buffer (cn c)" "cn_lost c' = cn_lost c"
    "cn_fetched c' = cn_fetched c" "splice_rb (cn_pc c) < 0 \<Longrightarrow> splice_rb (cn_pc c') < 0"
    "\<And>p'. ss_pcb (cn c') = Some p' \<Longrightarrow> \<exists>p. ss_pcb (cn c) = Some p \<and> unacked p' = unacked p \<and> given p' = given p
      \<and> snd_buf p' = snd_buf p \<and> fin_sent p' = fin_sent p"
  shows "backward_inv c'"
proof -
  obtain b fl rd where b: "ss_buffer (cn c) = Some b" "ring_rep b fl rd" "max_size b \<le> TCP_SND_BUF"
    "\<And>p. ss_pcb (cn c) = Some p \<Longrightarrow> flow_ok c fl rd p" using assms(1,2) by (auto simp: backward_inv_def)
  have "flow_ok c' fl rd p'" if "ss_pcb (cn c') = Some p'" for p'
    using b(4) assms(4-6) assms(7) [OF that] by (fastforce simp: flow_ok_def)
  then show ?thesis using b(1-3) assms(3) by (intro backward_invI [of _ b fl rd]) auto
qed

lemma tcp_recved_frame [simp]:
  "unacked (tcp_recved p n) = unacked p" "given (tcp_recved p n) = given p"
  "snd_buf (tcp_recved p n) = snd_buf p" "fin_sent (tcp_recved p n) = fin_sent p"
  by (simp_all add: tcp_recved_def Let_def)

lemma backward_inv_step:
  assumes step: "session_step c c'" and inv: "backward_inv c"
  shows "backward_inv c'"
  using step
proof (cases rule: session_step.cases)
  case (read_b rf rb k r bs self)
  then obtain b fl rd where b: "ss_buffer (cn c) = Some b" "ring_rep b fl rd" "max_size b \<le> TCP_SND_BUF"
    "\<And>p. ss_pcb (cn c) = Some p \<Longrightarrow> flow_ok c fl rd p" using inv by (auto simp: backward_inv_def)
  then obtain b' where "ss_buffer self = Some b'" "ring_rep b' fl (rd @ bs)" "max_size b' = max_size b"
    using splice_b_read_ring [OF read_b(4)] by blast
  then show ?thesis
    using b read_b splice_b_read_frame [OF read_b(4)]
    by (intro backward_invI [of _ b' fl "rd @ bs"]) (auto simp: flow_ok_def splice_rb_def)
next
  case (write_b rf res env out r self)
  then obtain b fl rd where b: "ss_buffer (cn c) = Some b" "ring_rep b fl rd" "max_size b \<le> TCP_SND_BUF"
    "\<And>p. ss_pcb (cn c) = Some p \<Longrightarrow> flow_ok c fl rd p" using inv by (auto simp: backward_inv_def)
  have readable: "readable (cn c) \<longleftrightarrow> rd \<noteq> []" using b ring_segments(4) [OF b(2,3)] by (simp add: readable_def)
  from write_b(3) b(1-3) show ?thesis
  proof (cases rule: splice_b_write_ring)
    case (wrote p p' v)
    then show ?thesis
      using b write_b ring_rep_read_all [OF b(2)] readable
      by (intro backward_invI [of _ "hev_ring_buffer_read_finish b (length rd)" "fl @ rd" "[]"])
        (auto simp: flow_ok_def splice_rb_def)
  qed (use b write_b in \<open>auto intro!: backward_invI [of _ b fl rd] simp: flow_ok_def splice_rb_def readable\<close>)
next
  case (ack p n e self)
  show ?thesis
  proof (cases "cn_pc c = Returned")
    case False
    then obtain b fl rd where b: "ss_buffer (cn c) = Some b" "ring_rep b fl rd" "max_size b \<le> TCP_SND_BUF"
      "flow_ok c fl rd p" using inv ack by (auto simp: backward_inv_def)
    then have "n \<le> length fl" using ack by (auto simp: flow_ok_def)
    then show ?thesis
      using b ack ring_rep_release [OF b(2)]
      by (intro backward_invI [of _ "hev_ring_buffer_read_release b n" "drop n fl" rd])
        (auto simp: flow_ok_def tcp_sent_handler_def hev_task_wakeup_def)
  qed (use ack in \<open>auto simp: backward_inv_def\<close>)
next
  case (receive p q self)
  show ?thesis
  proof (cases "cn_pc c = Returned")
    case False
    with inv show ?thesis
      by (rule backward_inv_frame) (use receive in \<open>auto simp: tcp_recv_handler_def hev_task_wakeup_def split: if_splits\<close>)
  qed (use receive in \<open>auto simp: backward_inv_def\<close>)
next
  case (eof p e self)
  show ?thesis
  proof (cases "cn_pc c = Returned")
    case False
    with inv show ?thesis
      by (rule backward_inv_frame) (use eof in \<open>auto simp: tcp_recv_handler_def hev_task_wakeup_def\<close>)
  qed (use eof in \<open>auto simp: backward_inv_def\<close>)
next
  case (fail p)
  show ?thesis
  proof (cases "cn_pc c = Returned")
    case False
    with inv show ?thesis by (rule backward_inv_frame) (use fail in \<open>auto simp: session_defs\<close>)
  qed (use fail in \<open>auto simp: backward_inv_def\<close>)
next
  case (return b sleep)
  then show ?thesis by (simp add: backward_inv_def)
qed (rule backward_inv_frame [OF inv], auto simp: splice_rb_def splice_f_done_def)+

section \<open>Reachable states\<close>

interpretation forward: step_invariant session_step forward_inv
  by unfold_locales (rule forward_inv_step)

interpretation backward: step_invariant session_step backward_inv
  by unfold_locales (rule backward_inv_step)

text \<open>
  A session ready for its splice: a connection that nothing was sent on, and a window from which only
  the data that waits in the queue has been taken.
\<close>

definition splice_ready :: "hev_socks5_session_tcp \<Rightarrow> bool" where
  "splice_ready self \<longleftrightarrow> [] \<notin> set (ss_queue self) \<and> (case ss_pcb self of None \<Rightarrow> False
     | Some p \<Rightarrow> p = pcb0\<lparr>rcv_wnd := TCP_WND - length (concat (ss_queue self))\<rparr>) \<and> length (concat (ss_queue self)) \<le> TCP_WND"

lemma forward_inv_start: "splice_ready self \<Longrightarrow> forward_inv (splice_start self mem)"
  by (auto simp: forward_inv_def splice_start_def splice_ready_def splice_pending_def split: option.splits)

lemma ring_rep_alloca: "0 < length mem \<Longrightarrow> length mem < 2 ^ 62 \<Longrightarrow> ring_rep (hev_ring_buffer_alloca mem) [] []"
  by (auto simp: ring_rep_def ring_at_def hev_ring_buffer_alloca_def intro!: exI [of _ 0])

lemma backward_inv_start:
  assumes "splice_ready self" "0 < length mem" "length mem \<le> TCP_SND_BUF"
  shows "backward_inv (splice_start self mem)"
  using assms ring_rep_alloca [of mem]
  by (intro backward_invI [of _ "hev_ring_buffer_alloca mem" "[]" "[]"])
    (auto simp: splice_start_def splice_ready_def flow_ok_def pcb0_def hev_ring_buffer_alloca_def TCP_SND_BUF_def
      split: option.splits)

text \<open>Without interference, the two steps of a direction are the call of its function.\<close>

lemma splice_f_steps:
  assumes "cn_pc c = AtF rf rb" "0 \<le> rf" "tcp_splice_f (cn c) (cn_up c) k = (r, self, up)"
  shows "session_step\<^sup>*\<^sup>* c (c\<lparr>cn := self, cn_up := up, cn_pc := AtB r rb\<rparr>)"
proof -
  obtain s up' where f: "splice_f_send (cn c) (cn_up c) k = (r, s, up')"
    using assms(3) by (auto simp: tcp_splice_f_def Let_def split: prod.splits if_splits)
  have one: "session_step c (c\<lparr>cn_up := up', cn_pc := (if s \<noteq> 0 then InF rb s else AtB r rb)\<rparr>)"
    using assms(1,2) f by (rule session_step.send_f)
  show ?thesis
  proof (cases "s = 0")
    case True
    then have "self = cn c" "up = up'" using assms(3) f by (auto simp: tcp_splice_f_def)
    moreover from this have "c\<lparr>cn := self, cn_up := up, cn_pc := AtB r rb\<rparr> = c\<lparr>cn_up := up', cn_pc := AtB r rb\<rparr>"
      by (cases c) simp
    ultimately show ?thesis using one True by (simp add: r_into_rtranclp)
  next
    case False
    let ?c = "c\<lparr>cn_up := up', cn_pc := InF rb s\<rparr>"
    have two: "session_step ?c (?c\<lparr>cn := splice_f_done (cn ?c) s, cn_pc := AtB 1 rb\<rparr>)"
      by (rule session_step.done_f) simp
    have "r = 1" using f False by (auto simp: splice_f_send_def Let_def split: if_splits writev_res.splits)
    moreover have "self = splice_f_done (cn c) s" "up = up'" using assms(3) f False by (auto simp: tcp_splice_f_def)
    ultimately have "c\<lparr>cn := self, cn_up := up, cn_pc := AtB r rb\<rparr> = ?c\<lparr>cn := splice_f_done (cn ?c) s, cn_pc := AtB 1 rb\<rparr>"
      by (cases c) simp
    moreover have "session_step c ?c" using one False by simp
    ultimately show ?thesis using two by (simp only: converse_rtranclp_into_rtranclp r_into_rtranclp)
  qed
qed

lemma splice_b_steps:
  assumes "cn_pc c = AtB rf rb" "0 \<le> rb" "tcp_splice_b env out (cn c) k = Some (r, self)"
  shows "\<exists>c'. session_step\<^sup>*\<^sup>* c c' \<and> cn c' = self \<and> cn_pc c' = AtYield rf r \<and> cn_up c' = cn_up c"
proof -
  obtain q bs self1 where "splice_b_read (cn c) k = Some (q, bs, self1)" "splice_b_write env out q self1 = Some (r, self)"
    using assms(3) by (auto simp: tcp_splice_b_def split: Option.bind_splits)
  moreover define c1 where "c1 = c\<lparr>cn := self1, cn_fetched := cn_fetched c @ bs, cn_pc := InB rf q\<rparr>"
  ultimately have "session_step c c1"
    "session_step c1 (c1\<lparr>cn := self, cn_lost := (cn_lost c1 \<or> r < 0 \<and> readable (cn c1)), cn_pc := AtYield rf r\<rparr>)"
    using session_step.read_b [OF assms(1,2)] session_step.write_b [of c1 rf q env out r self] by auto
  then have "session_step\<^sup>*\<^sup>* c (c1\<lparr>cn := self, cn_lost := (cn_lost c1 \<or> r < 0 \<and> readable (cn c1)), cn_pc := AtYield rf r\<rparr>)"
    by (meson converse_rtranclp_into_rtranclp r_into_rtranclp)
  then show ?thesis by (intro exI conjI) (assumption, simp_all add: c1_def)
qed

section \<open>Theorems\<close>

text \<open>
  C12. Data from the device reaches the SOCKS connection complete, in order and once, whatever the
  interleaving: in every reachable state of a session, what was delivered by the stack is what
  was sent, followed by what is queued. Data within the window is never refused, the window and
  the queue make up the whole window, and the sending side is shut down only when all has been sent.
\<close>

theorem session_forward_stream:
  assumes "splice_ready self" "session_step\<^sup>*\<^sup>* (splice_start self mem) c"
  shows "up_bytes (cn_up c) @ drop (splice_pending (cn_pc c)) (concat (ss_queue (cn c))) = cn_taken c
    \<and> tcp_recv_handler (cn c) (Some q) = (ERR_OK, (cn c)\<lparr>ss_queue := ss_queue (cn c) @ q, ss_woken := True\<rparr>)
    \<and> (ss_pcb (cn c) = Some p \<longrightarrow> rcv_wnd p = TCP_WND - length (concat (ss_queue (cn c))))
    \<and> (up_fin (cn_up c) \<longrightarrow> ss_eof (cn c) \<and> up_bytes (cn_up c) = cn_taken c)"
proof -
  have "forward_inv c" by (rule forward.reach [OF assms(2) forward_inv_start [OF assms(1)]])
  then show ?thesis using recv_handler_accepts [of "cn c" q] by (auto simp: forward_inv_def)
qed

text \<open>
  C13. Data from the SOCKS connection, with a buffer of at least one byte and at most \<open>TCP_SND_BUF\<close>. As long as the splice runs
  and the connection to the stack exists, the buffer holds a part that was handed over followed by the bytes still to be handed over,
  and the send buffer of the stack has room for those, so a hand-over fails only when the stack's tests of its state or of memory fail;
  a connection is shut down only when nothing is left to hand over. Until such a failure (after which the code counts the bytes
  as handed over all the same), the first part is the unacknowledged bytes, unchanged, and what the stack was given, with the
  bytes to be handed over, is what was read.
\<close>

theorem session_backward_stream:
  assumes "splice_ready self" "0 < length mem" "length mem \<le> TCP_SND_BUF"
    and "session_step\<^sup>*\<^sup>* (splice_start self mem) c" "cn_pc c \<noteq> Returned" "ss_pcb (cn c) = Some p"
  shows "\<exists>b fl rd. ss_buffer (cn c) = Some b \<and> ring_rep b fl rd \<and> length rd \<le> snd_buf p
      \<and> (\<not> cn_lost c \<longrightarrow> fl = unacked p \<and> given p @ rd = cn_fetched c)
      \<and> (fin_sent p \<longrightarrow> rd = [])
      \<and> (rd \<noteq> [] \<longrightarrow> (\<exists>self'. splice_b_write (\<lambda>_. ERR_OK) ERR_OK res (cn c) = Some (1, self')))"
proof -
  have "backward_inv c" by (rule backward.reach [OF assms(4) backward_inv_start [OF assms(1-3)]])
  then obtain b fl rd where b: "ss_buffer (cn c) = Some b" "ring_rep b fl rd" "max_size b \<le> TCP_SND_BUF" "flow_ok c fl rd p"
    using assms(5,6) by (auto simp: backward_inv_def)
  note seg = ring_segments [OF b(2,3)]
  have room: "length rd \<le> snd_buf p" using ring_rep_sizes [OF b(2)] b(3,4) by (auto simp: flow_ok_def)
  have "fst (write_segments (\<lambda>_. ERR_OK) p (map (\<lambda>(o', n). take n (drop o' (ring_data b))) (hev_ring_buffer_reading b))) = ERR_OK"
    by (rule write_segments_room) (use room seg(1,3) in auto)
  then have "\<exists>self'. splice_b_write (\<lambda>_. ERR_OK) ERR_OK res (cn c) = Some (1, self')" if "rd \<noteq> []"
    using that assms(6) b(1) seg(4) by (simp add: splice_b_write_def case_prod_beta err_or_def Let_def)
  then show ?thesis using b room by (auto simp: flow_ok_def)
qed

text \<open>A run of a session: one byte has been read from the SOCKS connection.\<close>

definition session1 :: hev_socks5_session_tcp where
  "session1 = session_tcp_zero\<lparr>ss_pcb := Some pcb0\<rparr>"

definition after_read :: conn where
  "after_read = \<lparr>cn = session1\<lparr>ss_buffer := Some (ring_write (hev_ring_buffer_alloca [0, 0]) [7])\<rparr>,
     cn_up = \<lparr>up_bytes = [], up_fin = False\<rparr>, cn_pc = InB 0 1, cn_taken = [], cn_fetched = [7], cn_lost = False\<rparr>"

lemmas run_simps = splice_start_def session1_def session_tcp_zero_def client_tcp_zero_def after_read_def
  splice_f_send_def splice_b_read_def splice_b_write_def tcp_write_def err_or_def splice_next_def hev_socks5_task_io_yielder_def
  hev_ring_buffer_alloca_def ring_write_def hev_ring_buffer_write_finish_def hev_ring_buffer_read_finish_def
  hev_ring_buffer_writing_def hev_ring_buffer_reading_def hev_ring_buffer_get_use_size_def
  sz_add_def sz_sub_def pcb0_def TCP_SND_BUF_def TCP_WND_def readable_def Let_def

lemma session1_ready: "splice_ready session1"
  by (simp add: splice_ready_def session1_def session_tcp_zero_def pcb0_def)

lemma start_to_read: "session_step\<^sup>*\<^sup>* (splice_start session1 [0, 0]) after_read"
proof -
  let ?s = "splice_start session1 [0, 0]"
  have "session_step ?s (?s\<lparr>cn_pc := AtB 0 1\<rparr>)"
    using session_step.send_f [of ?s 1 1 WAgain 0 0 "cn_up ?s"] by (simp add: run_simps)
  moreover have "session_step (?s\<lparr>cn_pc := AtB 0 1\<rparr>) after_read"
    using session_step.read_b [of "?s\<lparr>cn_pc := AtB 0 1\<rparr>" 0 1 "RdData [7]" 1 "[7]" "cn after_read"]
    by (simp add: run_simps)
  ultimately show ?thesis by (meson converse_rtranclp_into_rtranclp r_into_rtranclp)
qed

theorem session_forward_stream_witness:
  "splice_ready session1 \<and> session_step\<^sup>*\<^sup>* (splice_start session1 [0, 0]) after_read
    \<and> tcp_recv_handler (cn after_read) (Some [[1]]) =
        (ERR_OK, (cn after_read)\<lparr>ss_queue := ss_queue (cn after_read) @ [[1]], ss_woken := True\<rparr>)"
  using session_forward_stream [OF session1_ready start_to_read, of "[[1]]"] session1_ready start_to_read by blast

theorem session_backward_stream_witness:
  "\<exists>b fl rd. ss_buffer (cn after_read) = Some b \<and> ring_rep b fl rd \<and> fl @ rd = [7]
     \<and> (\<exists>self'. splice_b_write (\<lambda>_. ERR_OK) ERR_OK 1 (cn after_read) = Some (1, self'))"
proof -
  have "ss_pcb (cn after_read) = Some pcb0" "cn_pc after_read \<noteq> Returned" "\<not> cn_lost after_read" "cn_fetched after_read = [7]"
    by (simp_all add: after_read_def session1_def)
  then show ?thesis
    using session_backward_stream [OF session1_ready _ _ start_to_read, of pcb0 1]
    by (auto simp: TCP_SND_BUF_def pcb0_def)
qed

end
