(* ===== verification/Session_UDP.thy ===== *)
theory Session_UDP
  imports Session_TCP
begin

text \<open>
  A UDP session (\<open>hev-socks5-session-udp.c\<close>): datagrams of one local socket, queued by the callback of the stack
  and sent through a SOCKS client by the session's task, and replies, which the task hands back to the stack
  with the source they came from. \<open>None\<close> is a fault: the use of a message or of an address that is not there.
\<close>

section \<open>The session\<close>

text \<open>A frame: its SOCKS address, as the bytes of the struct, and the chain of buffers with its data.\<close>

record udp_frame =
  uf_addr :: "byte list"
  uf_data :: "byte list list"

text \<open>
  The queue of frames is an intrusive list, of which only the two ends are used. \<open>su_addr\<close> and \<open>su_port\<close> are the
  mapped address and port, the address as its four bytes, and empty if it was never set.
\<close>

record hev_socks5_session_udp =
  su_base :: hev_socks5_client_udp
  su_list :: "udp_frame list"
  su_frames :: int
  su_addr :: "byte list"
  su_port :: u16
  su_pcb :: bool
  su_woken :: bool

text \<open>
  The world: besides the connection, what was handed to the stack (data, source address and port) and the results of
  the calls of the stack to come.
\<close>

record session_sys = relay_sys +
  stack_sent :: "(byte list \<times> ip_addr \<times> u16) list"
  stack_res :: "err_t list"

definition UDP_POOL_SIZE :: int where "UDP_POOL_SIZE = 512"

definition udp_session_terminate :: "hev_socks5_session_udp \<Rightarrow> hev_socks5_session_udp" where
  "udp_session_terminate self = self\<lparr>su_base := hev_socks5_set_timeout (su_base self) 0, su_woken := True\<rparr>"

text \<open>The yielder: it also looks whether the connection that controls an association is still open.\<close>

definition session_udp_yielder ::
  "(int \<Rightarrow> int) \<Rightarrow> ctl_res \<Rightarrow> yield_type \<Rightarrow> hev_socks5_session_udp \<Rightarrow> int \<times> hev_socks5_session_udp" where
  "session_udp_yielder sleep ctl ty self =
     (let (r, base) = udp_task_io_yielder sleep ctl ty (su_base self) in (r, self\<lparr>su_base := base\<rparr>))"

section \<open>From the stack to the SOCKS side\<close>

text \<open>Only the first buffer of a chain is sent.\<close>

definition frame_msg :: "udp_frame \<Rightarrow> udp_msg" where
  "frame_msg f = \<lparr>um_addr = At (uf_addr f), um_buf = (case uf_data f of [] \<Rightarrow> [] | b # bs \<Rightarrow> b)\<rparr>"

text \<open>
  The function has two halves with the send between them, in which the task may wait: the messages are gathered by a
  walk over \<open>frames\<close> nodes at most, and afterwards as many frames as were sent are taken off the head of the list. The
  walk past the end and the removal from an empty list would dereference NULL.
\<close>

definition udp_fwd_f_gather :: "nat \<Rightarrow> hev_socks5_session_udp \<Rightarrow> udp_msg list option" where
  "udp_fwd_f_gather num self =
     (let n = min num (nat (su_frames self)) in
      if length (su_list self) < n then None else Some (map frame_msg (take n (su_list self))))"

definition udp_fwd_f_done :: "int \<Rightarrow> hev_socks5_session_udp \<Rightarrow> (int \<times> hev_socks5_session_udp) option" where
  "udp_fwd_f_done res self =
     (if res \<le> 0 then Some (-1, self)
      else if length (su_list self) < nat res then None
      else Some (1, self\<lparr>su_list := drop (nat res) (su_list self), su_frames := su_frames self - res\<rparr>))"

definition hev_socks5_session_udp_fwd_f ::
  "nat \<Rightarrow> hev_socks5_session_udp \<times> session_sys \<Rightarrow> (int \<times> hev_socks5_session_udp \<times> session_sys) option" where
  "hev_socks5_session_udp_fwd_f num sw = do {
     let (self, w) = sw;
     if su_frames self \<le> 0 then Some (0, self, w)
     else do {
       msgv \<leftarrow> udp_fwd_f_gather num self;
       (res, w) \<leftarrow> hev_socks5_udp_sendmmsg (su_base self) msgv w;
       (res, self) \<leftarrow> udp_fwd_f_done res self;
       Some (res, self, w) } }"

section \<open>From the SOCKS side to the stack\<close>

text \<open>\<open>stale b\<close> is the address that results when the four bytes \<open>b\<close> are stored into a local of unknown type.\<close>

definition reply_source ::
  "(byte list \<Rightarrow> ip_addr) \<Rightarrow> hev_socks5_session_udp \<Rightarrow> udp_msg \<Rightarrow> (ip_addr \<times> u16) option option" where
  "reply_source stale self m =
     (if su_addr self \<noteq> [] \<and> su_addr self \<noteq> [0, 0, 0, 0] \<and> su_port self \<noteq> 0 then Some (Some (stale (su_addr self), su_port self))
      else do { a \<leftarrow> addr_bytes (um_addr m); hev_socks5_addr_into_lwip a })"

text \<open>The next result of the allocator of buffers, and of \<open>udp_sendfrom\<close>.\<close>

definition pbuf_alloc_reference :: "session_sys \<Rightarrow> bool \<times> session_sys" where
  "pbuf_alloc_reference w = (case sysres w of [] \<Rightarrow> (True, w) | r # rs \<Rightarrow> (0 \<le> r, w\<lparr>sysres := rs\<rparr>))"

definition udp_sendfrom :: "byte list \<Rightarrow> ip_addr \<Rightarrow> u16 \<Rightarrow> session_sys \<Rightarrow> err_t \<times> session_sys" where
  "udp_sendfrom d ip port w =
     (let (e, w) = (case stack_res w of [] \<Rightarrow> (ERR_OK, w) | e # es \<Rightarrow> (e, w\<lparr>stack_res := es\<rparr>)) in
      (e, if e = ERR_OK then w\<lparr>stack_sent := stack_sent w @ [(d, ip, port)]\<rparr> else w))"

fun deliver :: "(byte list \<Rightarrow> ip_addr) \<Rightarrow> hev_socks5_session_udp \<Rightarrow> nat \<Rightarrow> udp_msg list \<Rightarrow> session_sys \<Rightarrow> (int \<times> session_sys) option" where
  "deliver stale self 0 ms w = Some (1, w)"
| "deliver stale self (Suc n) [] w = None"
| "deliver stale self (Suc n) (m # ms) w = do {
     src \<leftarrow> reply_source stale self m;
     case src of None \<Rightarrow> Some (-1, w)
     | Some (ip, port) \<Rightarrow>
         let (ok, w) = pbuf_alloc_reference w in
         if \<not> ok then Some (-1, w)
         else let (err, w) = udp_sendfrom (um_buf m) ip port w in
         if err \<noteq> ERR_OK then Some (-1, w) else deliver stale self n ms w }"

definition hev_socks5_session_udp_fwd_b ::
  "(byte list \<Rightarrow> ip_addr) \<Rightarrow> byte list list \<Rightarrow> hev_socks5_session_udp \<times> session_sys
    \<Rightarrow> (int \<times> hev_socks5_session_udp \<times> session_sys) option" where
  "hev_socks5_session_udp_fwd_b stale bufs sw = do {
     let (self, w) = sw;
     (res, msgv, base, w) \<leftarrow> hev_socks5_udp_recvmmsg (su_base self) (fresh_msgs bufs) True w;
     let self = self\<lparr>su_base := base\<rparr>;
     if res \<le> 0 then Some (if res = -1 \<and> errno_again w then 0 else -1, self, w)
     else do {
       (r, w) \<leftarrow> deliver stale self (nat res) msgv w;
       Some (r, self, w) } }"

section \<open>The callback\<close>

text \<open>
  \<open>ip\<close> and \<open>port\<close> are the destination of the datagram \<open>p\<close>, \<open>mem\<close> what the allocated frame holds, or \<open>None\<close> if the
  allocation fails. The result of the conversion of the address is not tested.
\<close>

definition session_udp_recv_handler ::
  "hev_mapped_dns option \<Rightarrow> hev_socks5_session_udp \<Rightarrow> byte list list option \<Rightarrow> ip_addr \<Rightarrow> u16 \<Rightarrow> byte list option
    \<Rightarrow> (hev_socks5_session_udp \<times> hev_mapped_dns option) option" where
  "session_udp_recv_handler dns self p ip port mem = (case p of
      None \<Rightarrow> Some (udp_session_terminate self, dns)
    | Some q \<Rightarrow>
        if su_frames self > UDP_POOL_SIZE then Some (self, dns)
        else (case mem of
          None \<Rightarrow> Some (self, dns)
        | Some junk \<Rightarrow> do {
            (dns, addr, res) \<leftarrow> hev_socks5_addr_from_lwip dns junk ip port;
            atype \<leftarrow> get8 addr 0;
            let self = (if atype = HEV_SOCKS5_ADDR_TYPE_NAME
              then self\<lparr>su_addr := (case ip of IPADDR_TYPE_V4 b \<Rightarrow> b | IPADDR_TYPE_V6 b \<Rightarrow> take 4 b | IPADDR_TYPE_ANY \<Rightarrow> su_addr self), su_port := port\<rparr>
              else self);
            Some (self\<lparr>su_frames := su_frames self + 1, su_list := su_list self @ [\<lparr>uf_addr = addr, uf_data = q\<rparr>], su_woken := True\<rparr>, dns) }))"

section \<open>Construction, upstream address, splice\<close>

definition hev_socks5_session_udp_construct ::
  "hev_config \<Rightarrow> hev_socks5_session_udp \<Rightarrow> int \<times> hev_socks5_session_udp" where
  "hev_socks5_session_udp_construct c self =
     (let ty = (if srv_udp_in_udp (hev_config_get_socks5_server c) then HEV_SOCKS5_TYPE_UDP_IN_UDP else HEV_SOCKS5_TYPE_UDP_IN_TCP);
          (res, base) = hev_socks5_client_udp_construct (su_base self) ty;
          self = self\<lparr>su_base := base\<rparr> in
      if res < 0 then (-1, self) else (0, self\<lparr>su_pcb := True\<rparr>))"

definition session_udp_zero :: hev_socks5_session_udp where
  "session_udp_zero = \<lparr>su_base = client_udp_zero, su_list = [], su_frames = 0, su_addr = [], su_port = 0, su_pcb = False, su_woken = False\<rparr>"

definition hev_socks5_session_udp_new :: "hev_config \<Rightarrow> sys \<Rightarrow> hev_socks5_session_udp option \<times> sys" where
  "hev_socks5_session_udp_new c w =
     (let (ok, w) = hev_malloc w in
      if \<not> ok then (None, w)
      else let (res, self) = hev_socks5_session_udp_construct c session_udp_zero in
      if res < 0 then (None, hev_free w) else (Some self, w))"

definition hev_socks5_session_udp_bind :: "hev_config \<Rightarrow> 'a \<Rightarrow> int \<Rightarrow> sockaddr_in6 \<Rightarrow> sys \<Rightarrow> int \<times> sys" where
  "hev_socks5_session_udp_bind c self fd dest w =
     (let mark = srv_mark (hev_config_get_socks5_server c) in
      if mark \<noteq> 0 then (let (res, w) = next_res w in (if res < 0 then -1 else 0, w)) else (0, w))"

definition hev_socks5_addr_get_port :: "byte list \<Rightarrow> u16 option" where
  "hev_socks5_addr_get_port addr = do {
     atype \<leftarrow> get8 addr 0;
     if atype = HEV_SOCKS5_ADDR_TYPE_IPV4 then map_option load16 (get_block addr 5 2)
     else if atype = HEV_SOCKS5_ADDR_TYPE_IPV6 then map_option load16 (get_block addr 17 2)
     else if atype = HEV_SOCKS5_ADDR_TYPE_NAME then do { n \<leftarrow> get8 addr 1; map_option load16 (get_block addr (2 + unat n) 2) }
     else Some 0 }"

text \<open>The address of the association in the server's reply is replaced by the configured one.\<close>

definition hev_socks5_session_udp_set_upstream_addr ::
  "hev_config \<Rightarrow> resolver \<Rightarrow> sockaddr_in6 \<Rightarrow> hev_socks5_client_udp \<Rightarrow> byte list \<Rightarrow> sys
    \<Rightarrow> (int \<times> hev_socks5_client_udp \<times> sys) option" where
  "hev_socks5_session_udp_set_upstream_addr c R sa base addr w = do {
     let s = hev_config_get_socks5_server c;
     addr \<leftarrow> (if srv_udp_in_udp s \<and> srv_udp_addr s \<noteq> [] then do {
         port \<leftarrow> hev_socks5_addr_get_port addr;
         (addr, n) \<leftarrow> hev_socks5_addr_from_name addr (bytes_of (srv_udp_addr s)) port;
         Some addr }
       else Some addr);
     hev_socks5_client_udp_set_upstream_addr R sa (hev_socks5_session_udp_bind c) base addr w }"

definition hev_socks5_session_udp_class :: "hev_config \<Rightarrow> resolver \<Rightarrow> sockaddr_in6 \<Rightarrow> hev_socks5_client_udp client_class" where
  "hev_socks5_session_udp_class c R sa = (hev_socks5_client_udp_class R sa)\<lparr>klass_binder := hev_socks5_session_udp_bind c,
     set_upstream_addr := hev_socks5_session_udp_set_upstream_addr c R sa\<rparr>"

text \<open>The number of buffers is that of the configuration; their blocks are on the stack and hold whatever is there.\<close>

definition hev_socks5_session_udp_splice ::
  "(byte list \<Rightarrow> ip_addr) \<Rightarrow> byte list list \<Rightarrow> ((int \<Rightarrow> int) \<times> ctl_res) list \<Rightarrow> hev_socks5_session_udp \<Rightarrow> session_sys
    \<Rightarrow> (bool \<times> hev_socks5_session_udp \<times> session_sys) option" where
  "hev_socks5_session_udp_splice stale bufs ys self w =
     splice_rounds (hev_socks5_session_udp_fwd_f (length bufs)) (hev_socks5_session_udp_fwd_b stale bufs)
       (\<lambda>(sleep, ctl) ty (self, w). let (r, self) = session_udp_yielder sleep ctl ty self in (r, self, w)) ys 1 1 (self, w)"

text \<open>The frames that are left are freed; the connection is released by the base class.\<close>

definition hev_socks5_session_udp_destruct :: "hev_socks5_session_udp \<Rightarrow> sys \<Rightarrow> sys" where
  "hev_socks5_session_udp_destruct self w = hev_socks5_client_udp_destruct (su_base self) w"

section \<open>The queue\<close>

text \<open>
  A session at work, with the frames that its callback accepted, the messages of a send that is under way and the
  frames that the task took off the queue after the SOCKS side had taken them. While a send waits for room the callback of
  the stack may put further frames into the queue, and the yielder may change the object; the task does nothing
  else until the send has returned. The callback leaves the connection alone, so the effect of the send on it is written
  where the send returns.
\<close>

record udp_run =
  ur_self :: hev_socks5_session_udp
  ur_sys :: session_sys
  ur_dns :: "hev_mapped_dns option"
  ur_accepted :: "udp_frame list"
  ur_sending :: "udp_msg list option"
  ur_handed :: "udp_frame list"

inductive udp_session_step :: "udp_run \<Rightarrow> udp_run \<Rightarrow> bool" where
  receive: "session_udp_recv_handler (ur_dns r) (ur_self r) p ip port mem = Some (self, dns) \<Longrightarrow>
    (\<And>junk. mem = Some junk \<Longrightarrow> length junk = addr_size) \<Longrightarrow>
    udp_session_step r (r\<lparr>ur_self := self, ur_dns := dns,
      ur_accepted := ur_accepted r @ drop (length (su_list (ur_self r))) (su_list self)\<rparr>)"
| gather: "ur_sending r = None \<Longrightarrow> 0 < su_frames (ur_self r) \<Longrightarrow> udp_fwd_f_gather num (ur_self r) = Some ms \<Longrightarrow>
    udp_session_step r (r\<lparr>ur_sending := Some ms\<rparr>)"
| returned: "ur_sending r = Some ms \<Longrightarrow> hev_socks5_udp_sendmmsg (su_base (ur_self r)) ms (ur_sys r) = Some (n, w) \<Longrightarrow>
    udp_fwd_f_done n (ur_self r) = Some (res, self) \<Longrightarrow>
    udp_session_step r (r\<lparr>ur_self := self, ur_sys := w, ur_sending := None,
      ur_handed := ur_handed r @ take (length (su_list (ur_self r)) - length (su_list self)) (su_list (ur_self r))\<rparr>)"
| backward: "ur_sending r = None \<Longrightarrow> hev_socks5_session_udp_fwd_b stale bufs (ur_self r, ur_sys r) = Some (res, self, w) \<Longrightarrow>
    udp_session_step r (r\<lparr>ur_self := self, ur_sys := w\<rparr>)"
| wait: "session_udp_yielder sleep ctl ty (ur_self r) = (res, self) \<Longrightarrow> udp_session_step r (r\<lparr>ur_self := self\<rparr>)"

definition udp_queue_inv :: "udp_run \<Rightarrow> bool" where
  "udp_queue_inv r \<longleftrightarrow> su_frames (ur_self r) = int (length (su_list (ur_self r))) \<and> su_frames (ur_self r) \<le> UDP_POOL_SIZE + 1
     \<and> ur_handed r @ su_list (ur_self r) = ur_accepted r \<and> (\<forall>f\<in>set (su_list (ur_self r)). length (uf_addr f) = addr_size)
     \<and> (\<forall>ms. ur_sending r = Some ms \<longrightarrow> length ms \<le> length (su_list (ur_self r)) \<and> ms = map frame_msg (take (length ms) (su_list (ur_self r))))"

lemma put_lengths:
  "put8 b i v = Some b' \<Longrightarrow> length b' = length b" "put_block b i xs = Some b' \<Longrightarrow> length b' = length b"
  by (auto simp: put8_def put_block_def split: if_splits)

lemma addr_from_lengths:
  "hev_socks5_addr_from_name a nm p = Some (a', n) \<Longrightarrow> length a' = length a"
  "hev_socks5_addr_from_ipv4 a x p = Some (a', n) \<Longrightarrow> length a' = length a"
  "hev_socks5_addr_from_ipv6 a x p = Some (a', n) \<Longrightarrow> length a' = length a"
  by (auto simp: hev_socks5_addr_from_name_def hev_socks5_addr_from_ipv4_def hev_socks5_addr_from_ipv6_def Let_def
      dest!: put_lengths split: Option.bind_splits)

lemma from_lwip_length: "hev_socks5_addr_from_lwip dns a ip port = Some (dns', a', res) \<Longrightarrow> length a' = length a"
  by (auto simp: hev_socks5_addr_from_lwip_def dest!: addr_from_lengths split: ip_addr.splits option.splits Option.bind_splits)

text \<open>A message with an address in a whole struct can always be framed or refused.\<close>

lemma frame_total:
  assumes "um_addr m = At a" "length a = addr_size"
  shows "frame_tcp m \<noteq> None" "frame_udp m \<noteq> None"
proof -
  have "\<exists>n. hev_socks5_addr_len a = Some n \<and> n \<le> 259"
  proof -
    have "4 + uint (a ! 1) \<le> 259" using uint_lt2p [of "a ! 1"] by simp
    then show ?thesis using assms(2) by (auto simp: hev_socks5_addr_len_def get8_def addr_size_def)
  qed
  then obtain n where "hev_socks5_addr_len a = Some n" "n \<le> 259" by blast
  moreover from this have "nat n \<le> length a" using assms(2) by (auto simp: addr_size_def)
  ultimately show "frame_tcp m \<noteq> None" "frame_udp m \<noteq> None"
    using assms(1) by (auto simp: frame_tcp_def frame_udp_def addr_bytes_def get_block_def)
qed

lemma frames_total: "(\<And>m. m \<in> set ms \<Longrightarrow> f m \<noteq> None) \<Longrightarrow> frames f ms \<noteq> None"
proof (induction ms)
  case (Cons m ms)
  then obtain x y where "f m = Some x" "frames f ms = Some y" by fastforce
  then show ?case by (cases x) auto
qed simp

lemma sendmmsg_loop_le: "sendmmsg_loop c ms ev again = (res, out, ev', e) \<Longrightarrow> res \<le> int (c + length ms)"
proof (induction c ms ev again arbitrary: res out ev' e rule: sendmmsg_loop.induct)
  case (5 c ms k ev again)
  define r where "r = min (Suc k) (length ms)"
  obtain res' out' ev2 e2 where l: "sendmmsg_loop (c + r) (drop r ms) ev again = (res', out', ev2, e2)"
    by (cases "sendmmsg_loop (c + r) (drop r ms) ev again") auto
  have "res' \<le> int (c + r + length (drop r ms))" if "r \<noteq> 0" "r < length ms" using 5(1) [OF r_def that l] .
  moreover have "r \<le> length ms" by (simp add: r_def)
  ultimately show ?case
    using 5(2) l by (auto simp: Let_def r_def [symmetric] partial_or_def split: if_splits)
qed (auto simp: partial_or_def split: if_splits)

lemma frames_length: "frames f ms = Some (Some xs) \<Longrightarrow> length xs = length ms"
  by (induction ms arbitrary: xs) (auto split: Option.bind_splits option.splits)

lemma sendmmsg_le: "hev_socks5_udp_sendmmsg self ms w = Some (res, w') \<Longrightarrow> res \<le> int (length ms)"
  by (auto simp: hev_socks5_udp_sendmmsg_def hev_socks5_udp_sendmmsg_tcp_def hev_socks5_udp_sendmmsg_udp_def hev_task_io_socket_sendmmsg_def
      Let_def split: socks5_type.splits Option.bind_splits option.splits prod.splits if_splits dest!: sendmmsg_loop_le frames_length)

text \<open>The first frames of the queue can be sent, and the number of frames that the send reports can be taken off afterwards.\<close>

lemma send_queued:
  assumes "udp_queue_inv r"
  obtains k w' q self' where
    "hev_socks5_udp_sendmmsg (su_base (ur_self r)) (map frame_msg (take n (su_list (ur_self r)))) (ur_sys r) = Some (k, w')"
    "udp_fwd_f_done k (ur_self r) = Some (q, self')" "su_list self' = drop (nat k) (su_list (ur_self r))" "nat k \<le> length (su_list (ur_self r))"
    "su_frames self' = int (length (su_list self'))"
proof -
  let ?ms = "map frame_msg (take n (su_list (ur_self r)))"
  have "frame_tcp m \<noteq> None \<and> frame_udp m \<noteq> None" if m: "m \<in> set ?ms" for m
  proof -
    obtain f where "m = frame_msg f" "f \<in> set (su_list (ur_self r))" using m by (auto dest!: in_set_takeD)
    then have "um_addr m = At (uf_addr f)" "length (uf_addr f) = addr_size" using assms by (auto simp: udp_queue_inv_def frame_msg_def)
    then show ?thesis using frame_total by blast
  qed
  then have "frames frame_tcp ?ms \<noteq> None" "frames frame_udp ?ms \<noteq> None"
    using frames_total [of ?ms frame_tcp] frames_total [of ?ms frame_udp] by blast+
  then have "hev_socks5_udp_sendmmsg (su_base (ur_self r)) ?ms (ur_sys r) \<noteq> None"
    by (auto simp: hev_socks5_udp_sendmmsg_def hev_socks5_udp_sendmmsg_tcp_def hev_socks5_udp_sendmmsg_udp_def
        split: socks5_type.splits option.splits prod.splits)
  then obtain k w' where k: "hev_socks5_udp_sendmmsg (su_base (ur_self r)) ?ms (ur_sys r) = Some (k, w')" by auto
  have "nat k \<le> length (su_list (ur_self r))" using sendmmsg_le [OF k] by simp
  moreover have "\<exists>q self'. udp_fwd_f_done k (ur_self r) = Some (q, self') \<and> su_list self' = drop (nat k) (su_list (ur_self r))
      \<and> su_frames self' = int (length (su_list self'))"
    using assms \<open>nat k \<le> length (su_list (ur_self r))\<close> by (auto simp: udp_fwd_f_done_def udp_queue_inv_def)
  ultimately show thesis using that k by blast
qed

lemma fwd_f_total:
  assumes "udp_queue_inv r"
  shows "hev_socks5_session_udp_fwd_f num (ur_self r, ur_sys r) \<noteq> None"
proof -
  have "udp_fwd_f_gather num (ur_self r) = Some (map frame_msg (take (min num (nat (su_frames (ur_self r)))) (su_list (ur_self r))))"
    using assms by (auto simp: udp_fwd_f_gather_def Let_def udp_queue_inv_def)
  then show ?thesis
    using send_queued [OF assms, of "min num (nat (su_frames (ur_self r)))"] by (fastforce simp: hev_socks5_session_udp_fwd_f_def)
qed

lemma udp_queue_inv_step: "udp_session_step r r' \<Longrightarrow> udp_queue_inv r \<Longrightarrow> udp_queue_inv r'"
proof (induction rule: udp_session_step.induct)
  case (receive r p ip port mem self dns)
  show ?case
  proof (cases "p = None \<or> su_frames (ur_self r) > UDP_POOL_SIZE \<or> mem = None")
    case True
    then have "su_list self = su_list (ur_self r)" "su_frames self = su_frames (ur_self r)"
      using receive(1) by (auto simp: session_udp_recv_handler_def udp_session_terminate_def split: option.splits)
    then show ?thesis using receive(3) by (auto simp: udp_queue_inv_def)
  next
    case False
    then obtain q junk dns' addr res where "hev_socks5_addr_from_lwip (ur_dns r) junk ip port = Some (dns', addr, res)" "mem = Some junk"
      "su_list self = su_list (ur_self r) @ [\<lparr>uf_addr = addr, uf_data = q\<rparr>]" "su_frames self = su_frames (ur_self r) + 1"
      using receive(1) by (auto simp: session_udp_recv_handler_def Let_def split: option.splits Option.bind_splits if_splits)
    then show ?thesis using receive(2,3) False by (auto simp: udp_queue_inv_def from_lwip_length)
  qed
next
  case (gather r num ms)
  then show ?case by (auto simp: udp_queue_inv_def udp_fwd_f_gather_def Let_def split: if_splits)
next
  case (returned r ms n w res self)
  have "ms = map frame_msg (take (length ms) (su_list (ur_self r)))" using returned by (auto simp: udp_queue_inv_def)
  then obtain k where "k \<le> length (su_list (ur_self r))" "su_list self = drop k (su_list (ur_self r))" "su_frames self = int (length (su_list self))"
    using send_queued [OF returned(4), of "length ms"] returned(2,3) by (metis option.inject prod.inject)
  then show ?case using returned(4) by (auto simp: udp_queue_inv_def dest!: in_set_dropD)
next
  case (backward r stale bufs res self w)
  then have "su_list self = su_list (ur_self r)" "su_frames self = su_frames (ur_self r)"
    by (auto simp: hev_socks5_session_udp_fwd_b_def Let_def split: if_splits Option.bind_splits)
  then show ?case using backward(3) by (simp add: udp_queue_inv_def)
next
  case (wait sleep ctl ty r res self)
  then show ?case by (auto simp: udp_queue_inv_def session_udp_yielder_def Let_def split: prod.splits)
qed

interpretation udp_queue: step_invariant udp_session_step udp_queue_inv
  by unfold_locales (rule udp_queue_inv_step)

section \<open>Replies\<close>

text \<open>The address of the stack that a SOCKS address stands for, if it is not a name.\<close>

fun lwip_of :: "socks_addr \<Rightarrow> ip_addr \<times> u16" where
  "lwip_of (IPv4 x p) = (IPADDR_TYPE_V4 x, ntohs p)"
| "lwip_of (IPv6 x p) = (IPADDR_TYPE_V6 x, ntohs p)"
| "lwip_of (Domain s p) = (IPADDR_TYPE_ANY, ntohs p)"

definition is_ip :: "socks_addr \<Rightarrow> bool" where
  "is_ip x = (case x of Domain s p \<Rightarrow> False | _ \<Rightarrow> True)"

lemma into_lwip_enc: "addr_ok x \<Longrightarrow> is_ip x \<Longrightarrow> hev_socks5_addr_into_lwip (enc_addr x @ rest) = Some (Some (lwip_of x))"
  by (cases x) (auto simp: is_ip_def hev_socks5_addr_into_lwip_def get8_def get_block_def addr_types)

text \<open>While no mapped name was used, each message is handed to the stack with the source it carries.\<close>

lemma deliver_carried:
  "list_all2 carries ms xds \<Longrightarrow> \<forall>xd\<in>set xds. addr_ok (fst xd) \<and> is_ip (fst xd) \<Longrightarrow> su_addr self = [] \<Longrightarrow> sysres w = [] \<Longrightarrow> stack_res w = []
    \<Longrightarrow> deliver stale self (length xds) (ms @ junk) w
      = Some (1, w\<lparr>stack_sent := stack_sent w @ map (\<lambda>xd. (snd xd, lwip_of (fst xd))) xds\<rparr>)"
proof (induction arbitrary: w rule: list_all2_induct)
  case (Cons m ms xd xds)
  obtain rest where "um_buf m = snd xd" "um_addr m = At (enc_addr (fst xd) @ rest)" using Cons(1) by (auto simp: carries_def)
  then have "reply_source stale self m = Some (Some (lwip_of (fst xd)))"
    using Cons.prems by (simp add: reply_source_def addr_bytes_def into_lwip_enc del: enc_addr.simps)
  moreover obtain ip port where "lwip_of (fst xd) = (ip, port)" by fastforce
  ultimately show ?case
    using Cons \<open>um_buf m = snd xd\<close> by (simp add: pbuf_alloc_reference_def udp_sendfrom_def)
qed simp

lemma recv_tcp_frame:
  "udp_recv_tcp nb rlen m w = Some (m', r, w') \<Longrightarrow> sysres w' = sysres w \<and> stack_res w' = stack_res w \<and> stack_sent w' = stack_sent w"
  by (auto simp: udp_recv_tcp_def udp_recv_head_def Let_def split: prod.splits if_splits Option.bind_splits)

lemma recv_tcp_loop_frame:
  "udp_recv_tcp_loop nb rlen ms w = Some (res, ms', w') \<Longrightarrow>
    sysres w' = sysres w \<and> stack_res w' = stack_res w \<and> stack_sent w' = stack_sent w"
proof (induction nb rlen ms w arbitrary: res ms' w' rule: udp_recv_tcp_loop.induct)
  case (2 nb rlen m ms w)
  then show ?case
    by (fastforce split: Option.bind_splits sum.splits option.splits dest: recv_tcp_frame)
qed simp

lemma addr_len_defined: "2 \<le> length a \<Longrightarrow> \<exists>n. hev_socks5_addr_len a = Some n"
  by (auto simp: hev_socks5_addr_len_def get8_def)

section \<open>Theorems\<close>

text \<open>
  C35. The queue of a session: in every reachable state, whatever the order in which datagrams arrive and are sent, also while
  a send is waiting, its length is what \<open>frames\<close> says and at most 513, and the datagrams that were accepted are those handed to the
  SOCKS side followed by those queued, in order. The messages of a send under way are still the first ones of the queue;
  the send can return without a fault, and the frames then taken off are those that it sent. A send can be begun without a fault.
\<close>

theorem udp_session_queue:
  assumes "udp_session_step\<^sup>*\<^sup>* \<lparr>ur_self = session_udp_zero\<lparr>su_base := base\<rparr>, ur_sys = w, ur_dns = dns, ur_accepted = [], ur_sending = None, ur_handed = []\<rparr> r"
  shows "su_frames (ur_self r) = int (length (su_list (ur_self r))) \<and> length (su_list (ur_self r)) \<le> 513
    \<and> ur_handed r @ su_list (ur_self r) = ur_accepted r
    \<and> (\<forall>ms. ur_sending r = Some ms \<longrightarrow> ms = map frame_msg (take (length ms) (su_list (ur_self r)))
        \<and> (\<exists>k w' q self'. hev_socks5_udp_sendmmsg (su_base (ur_self r)) ms (ur_sys r) = Some (k, w')
             \<and> udp_fwd_f_done k (ur_self r) = Some (q, self') \<and> su_list self' = drop (nat k) (su_list (ur_self r)) \<and> nat k \<le> length ms))
    \<and> (\<exists>res. hev_socks5_session_udp_fwd_f num (ur_self r, ur_sys r) = Some res)"
proof -
  have inv: "udp_queue_inv r"
    by (rule udp_queue.reach [OF assms]) (simp add: udp_queue_inv_def session_udp_zero_def UDP_POOL_SIZE_def)
  have "\<exists>k w' q self'. hev_socks5_udp_sendmmsg (su_base (ur_self r)) ms (ur_sys r) = Some (k, w')
             \<and> udp_fwd_f_done k (ur_self r) = Some (q, self') \<and> su_list self' = drop (nat k) (su_list (ur_self r)) \<and> nat k \<le> length ms"
    if "ur_sending r = Some ms" for ms
  proof -
    have "ms = map frame_msg (take (length ms) (su_list (ur_self r)))" using inv that by (auto simp: udp_queue_inv_def)
    then obtain k w' q self' where "hev_socks5_udp_sendmmsg (su_base (ur_self r)) ms (ur_sys r) = Some (k, w')"
      "udp_fwd_f_done k (ur_self r) = Some (q, self')" "su_list self' = drop (nat k) (su_list (ur_self r))"
      using send_queued [OF inv, of "length ms"] by metis
    then show ?thesis using sendmmsg_le [of "su_base (ur_self r)" ms "ur_sys r" k w'] by auto
  qed
  then show ?thesis using inv fwd_f_total [OF inv, of num] by (auto simp: udp_queue_inv_def UDP_POOL_SIZE_def)
qed

text \<open>
  C18. A reply comes back to the flow: datagrams that arrive at the socket of the relay on the server reach the stack of the
  client, unchanged, in order and with the address and the port they came from, however the stream
  between them is cut. This holds as long as the session used no mapped name, each datagram fits a buffer of 1500 bytes together
  with its address, no send times out or fails and neither the allocation nor the stack refuses one; the datagrams are one batch that the server receives
  at once, the stream begins with their frames and its first bytes are there when the session looks, and either there are as many datagrams as
  the session has buffers or nothing else is in the stream.
\<close>

theorem udp_reply_reaches_flow:
  assumes ty: "s5_type server = HEV_SOCKS5_TYPE_UDP_IN_TCP" "s5_type (su_base self) = HEV_SOCKS5_TYPE_UDP_IN_TCP"
    and b: "ds_rx (sock_b w) = Batch ds # ev" "ds \<noteq> []" and num: "length ds \<le> num" and junk: "length junk = 19" and tx: "tx_ok (tx w)"
    and fits: "\<forall>(d, sa)\<in>set ds. length (sin6_addr sa) = 16 \<and> udp_fits (socks_of sa, d)"
    and bufs: "bufs \<noteq> []" "length bufs \<le> length ds \<or> rest = []" "\<forall>b\<in>set bufs. length b = UDP_BUF_LEN"
    and self: "su_addr self = []" "sysres v = []" "stack_res v = []"
  shows "\<exists>w' out. hev_socks5_udp_fwd_b junk num (server, bound, w) = Some (1, server, bound, w') \<and> sent w' = sent w @ out
    \<and> (avail (rx v) = out @ rest \<longrightarrow> hd (rx v) \<noteq> RAgain \<longrightarrow>
       (\<exists>k v'. hev_socks5_session_udp_fwd_b stale bufs (self, v) = Some (1, self, v') \<and> 0 < k \<and> k \<le> length bufs \<and> k \<le> length ds
          \<and> (drop k ds \<noteq> [] \<or> rest \<noteq> [] \<longrightarrow> avail (rx v') = concat (map (\<lambda>(d, sa). wire (socks_of sa, d)) (drop k ds)) @ rest)
          \<and> stack_sent v' = stack_sent v @ map (\<lambda>(d, sa). (d, lwip_of (socks_of sa))) (take k ds)))"
proof -
  let ?xds = "map (\<lambda>(d, sa). (socks_of sa, d)) ds"
  have "take UDP_BUF_LEN d = d" if "(d, sa) \<in> set ds" for d sa using fits that by (auto simp: udp_fits_def)
  then have m: "map (\<lambda>(d, sa). wire (socks_of sa, take UDP_BUF_LEN d)) ds = map wire ?xds" by auto
  have "0 < num" using num b(2) by (cases ds) auto
  then obtain w' where f: "hev_socks5_udp_fwd_b junk num (server, bound, w) = Some (1, server, bound, w')" "sent w' = sent w @ concat (map wire ?xds)"
    using udp_fwd_b_frames [OF ty(1) b _ _ junk tx, of num bound] fits num m by auto
  have fit: "\<forall>xd\<in>set ?xds. udp_fits xd" using fits by auto
  have "\<exists>k v'. hev_socks5_session_udp_fwd_b stale bufs (self, v) = Some (1, self, v') \<and> 0 < k \<and> k \<le> length bufs \<and> k \<le> length ds
          \<and> (drop k ds \<noteq> [] \<or> rest \<noteq> [] \<longrightarrow> avail (rx v') = concat (map (\<lambda>(d, sa). wire (socks_of sa, d)) (drop k ds)) @ rest)
          \<and> stack_sent v' = stack_sent v @ map (\<lambda>(d, sa). (d, lwip_of (socks_of sa))) (take k ds)"
    if v: "avail (rx v) = concat (map wire ?xds) @ rest" "hd (rx v) \<noteq> RAgain"
  proof -
    have "length (fresh_msgs bufs) = length bufs" "\<forall>m\<in>set (fresh_msgs bufs). length (um_buf m) = UDP_BUF_LEN" "fresh_msgs bufs \<noteq> []"
      using bufs by (auto simp: fresh_msgs_def)
    then obtain k ms v1 where r: "udp_recv_tcp_loop True 0 (fresh_msgs bufs) v = Some (int k, ms, v1)" "k \<le> length bufs" "0 < k"
      "list_all2 carries (take k ms) (take k ?xds)" "length ms = length bufs" "k \<le> length ds"
      "drop k ?xds \<noteq> [] \<or> rest \<noteq> [] \<longrightarrow> avail (rx v1) = concat (map wire (drop k ?xds)) @ rest"
      using udp_recv_tcp_loop_frames [where ms = "fresh_msgs bufs" and rlen = 0, OF fit v(1)] v(2) bufs(2) b(2) by auto
    have left: "wire \<circ> (\<lambda>(d, sa). (socks_of sa, d)) = (\<lambda>(d, sa). wire (socks_of sa, d))" by auto
    have "addr_ok (fst xd) \<and> is_ip (fst xd)" if "xd \<in> set (take k ?xds)" for xd
      using that fits by (auto dest!: in_set_takeD simp: socks_of_ok) (auto simp: socks_of_def is_ip_def)
    then have "deliver stale self (length (take k ?xds)) (take k ms @ drop k ms) v1
        = Some (1, v1\<lparr>stack_sent := stack_sent v1 @ map (\<lambda>xd. (snd xd, lwip_of (fst xd))) (take k ?xds)\<rparr>)"
      using recv_tcp_loop_frame [OF r(1)] self by (intro deliver_carried [OF r(4)]) auto
    moreover have "length (take k ?xds) = k" using r(6) by simp
    moreover have "map (\<lambda>xd. (snd xd, lwip_of (fst xd))) (take k ?xds) = map (\<lambda>(d, sa). (d, lwip_of (socks_of sa))) (take k ds)"
      by (auto simp: take_map case_prod_beta)
    ultimately have "deliver stale self k ms v1 = Some (1, v1\<lparr>stack_sent := stack_sent v @ map (\<lambda>(d, sa). (d, lwip_of (socks_of sa))) (take k ds)\<rparr>)"
      using recv_tcp_loop_frame [OF r(1)] by simp
    then show ?thesis
      using r ty(2) by (intro exI [of _ k]) (simp add: left drop_map hev_socks5_session_udp_fwd_b_def hev_socks5_udp_recvmmsg_def hev_socks5_udp_recvmmsg_tcp_def)
  qed
  with f show ?thesis by blast
qed

text \<open>
  A datagram of less than four bytes on an associated socket is passed on as a message without an address, which a session that
  used no mapped name dereferences.
\<close>

theorem udp_short_datagram_faults:
  assumes "s5_type (su_base self) = HEV_SOCKS5_TYPE_UDP_IN_UDP" "s5_udp_associated (su_base self) = 1" "su_addr self = []"
    and "ds_rx (sock_a w) = Batch [(d, sa)] # ev" "length d < 4" "length b = UDP_BUF_LEN"
  shows "hev_socks5_session_udp_fwd_b stale [b] (self, w) = None"
proof -
  have "take UDP_BUF_LEN d = d" using assms(5) by (simp add: UDP_BUF_LEN_def)
  then have r: "hev_task_io_socket_recvmmsg (sock_a w) [length b] True (errno_again w) = (1, [(d, sa)], (sock_a w)\<lparr>ds_rx := ev\<rparr>, errno_again w)"
    using assms(4,6) by (simp add: hev_task_io_socket_recvmmsg_def)
  let ?b = "d @ drop (length d) b"
  have p: "put_block b 0 d = Some ?b" using assms(5,6) by (simp add: put_block_def UDP_BUF_LEN_def)
  have "2 \<le> length (drop 3 ?b)" using assms(5,6) by (simp add: UDP_BUF_LEN_def)
  then obtain n where "hev_socks5_addr_len (drop 3 ?b) = Some n" using addr_len_defined by blast
  then have "udp_parse \<lparr>um_addr = Unset, um_buf = b\<rparr> d = Some (Inr \<lparr>um_addr = Null, um_buf = []\<rparr>)"
    using p assms(5) by (simp add: udp_parse_def)
  then show ?thesis
    using assms(1-3) r by (simp add: hev_socks5_session_udp_fwd_b_def hev_socks5_udp_recvmmsg_def hev_socks5_udp_recvmmsg_udp_def fresh_msgs_def
        reply_source_def addr_bytes_def)
qed

section \<open>Examples\<close>

definition session_world :: "rx_event list \<Rightarrow> dg_rx_event list \<Rightarrow> session_sys" where
  "session_world r ds = \<lparr>rx = r, tx = [], sent = [], settings = socks5_defaults, sysres = [], open_fds = [3], polled = [3], blocks = 1,
     sock_a = \<lparr>ds_rx = ds, ds_tx = [], ds_sent = []\<rparr>, sock_b = \<lparr>ds_rx = [], ds_tx = [], ds_sent = []\<rparr>, errno_again = True,
     stack_sent = [], stack_res = []\<rparr>"

definition session_of :: "socks5_type \<Rightarrow> hev_socks5_session_udp" where
  "session_of ty = session_udp_zero\<lparr>su_base := client_udp_zero\<lparr>s5_type := ty, s5_udp_associated := 1\<rparr>\<rparr>"

definition frame1 :: udp_frame where
  "frame1 = \<lparr>uf_addr = enc_addr (IPv4 [10, 0, 0, 1] (htons 53)) @ replicate 253 0, uf_data = [[7, 8]]\<rparr>"

lemma frame1_addr:
  "hev_socks5_addr_from_lwip None (replicate 260 0) (IPADDR_TYPE_V4 [10, 0, 0, 1]) 53 = Some (None, uf_addr frame1, 0)"
proof -
  have "replicate 260 (0 :: byte) = 0 # replicate 4 0 @ replicate 2 0 @ replicate 253 0" by (simp add: numeral_eq_Suc)
  then show ?thesis
    by (simp add: hev_socks5_addr_from_lwip_def hev_socks5_addr_from_ipv4_def put8_def put_block_def get_block_def frame1_def numeral_eq_Suc)
qed

lemma receive_frame1:
  assumes "su_frames (ur_self r) \<le> UDP_POOL_SIZE" "ur_dns r = None"
  shows "udp_session_step r (r\<lparr>ur_self := (ur_self r)\<lparr>su_frames := su_frames (ur_self r) + 1, su_list := su_list (ur_self r) @ [frame1], su_woken := True\<rparr>,
    ur_dns := None, ur_accepted := ur_accepted r @ [frame1]\<rparr>)"
proof -
  have "get8 (uf_addr frame1) 0 = Some HEV_SOCKS5_ADDR_TYPE_IPV4" by (simp add: frame1_def get8_def)
  moreover have "\<lparr>uf_addr = uf_addr frame1, uf_data = [[7, 8]]\<rparr> = frame1" by (simp add: frame1_def)
  ultimately have h: "session_udp_recv_handler (ur_dns r) (ur_self r) (Some [[7, 8]]) (IPADDR_TYPE_V4 [10, 0, 0, 1]) 53 (Some (replicate 260 0))
      = Some ((ur_self r)\<lparr>su_frames := su_frames (ur_self r) + 1, su_list := su_list (ur_self r) @ [frame1], su_woken := True\<rparr>, None)"
    using assms by (simp add: session_udp_recv_handler_def frame1_addr addr_types Let_def)
  show ?thesis using udp_session_step.receive [OF h] by (simp add: addr_size_def)
qed

theorem udp_session_queue_witness:
  "\<exists>r. udp_session_step\<^sup>*\<^sup>* \<lparr>ur_self = session_udp_zero\<lparr>su_base := client_udp_zero\<rparr>, ur_sys = session_world [] [], ur_dns = None,
        ur_accepted = [], ur_sending = None, ur_handed = []\<rparr> r
    \<and> su_list (ur_self r) = [frame1, frame1] \<and> ur_sending r = Some [frame_msg frame1] \<and> ur_handed r @ [frame1, frame1] = ur_accepted r
    \<and> (\<exists>k w' q self'. hev_socks5_udp_sendmmsg (su_base (ur_self r)) [frame_msg frame1] (ur_sys r) = Some (k, w')
         \<and> udp_fwd_f_done k (ur_self r) = Some (q, self') \<and> nat k \<le> 1)"
proof -
  let ?r = "\<lparr>ur_self = session_udp_zero\<lparr>su_base := client_udp_zero\<rparr>, ur_sys = session_world [] [], ur_dns = None, ur_accepted = [],
    ur_sending = None, ur_handed = []\<rparr>"
  let ?s = "\<lambda>n. session_udp_zero\<lparr>su_base := client_udp_zero, su_frames := int n, su_list := replicate n frame1, su_woken := True\<rparr>"
  let ?r1 = "?r\<lparr>ur_self := ?s 1, ur_accepted := [frame1]\<rparr>"
  let ?r2 = "?r1\<lparr>ur_sending := Some [frame_msg frame1]\<rparr>"
  let ?r3 = "?r2\<lparr>ur_self := ?s 2, ur_accepted := [frame1, frame1]\<rparr>"
  have "udp_session_step ?r ?r1" using receive_frame1 [of ?r] by (simp add: session_udp_zero_def UDP_POOL_SIZE_def)
  moreover have "udp_session_step ?r1 ?r2"
    by (rule udp_session_step.gather [where num = 5]) (simp_all add: udp_fwd_f_gather_def)
  moreover have "udp_session_step ?r2 ?r3" using receive_frame1 [of ?r2] by (simp add: session_udp_zero_def UDP_POOL_SIZE_def numeral_2_eq_2)
  ultimately have run: "udp_session_step\<^sup>*\<^sup>* ?r ?r3" by (meson converse_rtranclp_into_rtranclp rtranclp.rtrancl_refl)
  show ?thesis
    using run udp_session_queue [OF run, of 1] by (intro exI [of _ ?r3]) (auto simp: numeral_2_eq_2)
qed

theorem udp_reply_reaches_flow_witness:
  "\<exists>w'. hev_socks5_udp_fwd_b (replicate 19 0) 1 (relay_obj, True, relay_world [] [Batch [([7, 8], source1)]]) = Some (1, relay_obj, True, w')
    \<and> sent w' = wire dgram1
    \<and> (\<exists>v'. hev_socks5_session_udp_fwd_b IPADDR_TYPE_V4 [replicate 1500 0, replicate 1500 0] (session_of HEV_SOCKS5_TYPE_UDP_IN_TCP, session_world [Chunk (wire dgram1)] [])
        = Some (1, session_of HEV_SOCKS5_TYPE_UDP_IN_TCP, v') \<and> stack_sent v' = [([7, 8], IPADDR_TYPE_V4 [10, 0, 0, 1], 53)])"
proof -
  let ?w = "relay_world [] [Batch [([7, 8], source1)]]" and ?v = "session_world [Chunk (wire dgram1)] []"
    and ?s = "session_of HEV_SOCKS5_TYPE_UDP_IN_TCP"
  have x: "(socks_of source1, [7, 8]) = dgram1" by (simp add: socks_of_source1) (simp add: dgram1_def)
  obtain w1 where w1: "hev_socks5_udp_fwd_b (replicate 19 0) 1 (relay_obj, True, ?w) = Some (1, relay_obj, True, w1)" "sent w1 = wire dgram1"
    using udp_fwd_b_frames [of relay_obj ?w "[([7, 8], source1)]" "[]" 1 "replicate 19 0" True] x
    by (auto simp: relay_obj_def relay_world_def tx_ok_def UDP_BUF_LEN_def source1_def v4mapped_prefix_def)
  have "\<exists>w' out. hev_socks5_udp_fwd_b (replicate 19 0) 1 (relay_obj, True, ?w) = Some (1, relay_obj, True, w') \<and> sent w' = sent ?w @ out
    \<and> (avail (rx ?v) = out @ [] \<longrightarrow> hd (rx ?v) \<noteq> RAgain \<longrightarrow>
       (\<exists>k v'. hev_socks5_session_udp_fwd_b IPADDR_TYPE_V4 [replicate 1500 0, replicate 1500 0] (?s, ?v) = Some (1, ?s, v') \<and> 0 < k \<and> k \<le> length [replicate 1500 (0 :: byte), replicate 1500 0]
          \<and> k \<le> length [([7 :: byte, 8], source1)]
          \<and> (drop k [([7 :: byte, 8], source1)] \<noteq> [] \<or> [] \<noteq> ([] :: byte list) \<longrightarrow>
               avail (rx v') = concat (map (\<lambda>(d, sa). wire (socks_of sa, d)) (drop k [([7, 8], source1)])) @ [])
          \<and> stack_sent v' = stack_sent ?v @ map (\<lambda>(d, sa). (d, lwip_of (socks_of sa))) (take k [([7, 8], source1)])))"
    by (rule udp_reply_reaches_flow [where ev = "[]"])
      (use x dgram1_fits in \<open>auto simp: relay_obj_def relay_world_def session_world_def session_of_def session_udp_zero_def client_udp_zero_def tx_ok_def
        UDP_BUF_LEN_def source1_def v4mapped_prefix_def\<close>)
  then obtain w' out where "hev_socks5_udp_fwd_b (replicate 19 0) 1 (relay_obj, True, ?w) = Some (1, relay_obj, True, w')" "sent w' = sent ?w @ out"
    and r: "avail (rx ?v) = out @ [] \<longrightarrow> hd (rx ?v) \<noteq> RAgain \<longrightarrow>
       (\<exists>k v'. hev_socks5_session_udp_fwd_b IPADDR_TYPE_V4 [replicate 1500 0, replicate 1500 0] (?s, ?v) = Some (1, ?s, v') \<and> 0 < k \<and> k \<le> length [replicate 1500 (0 :: byte), replicate 1500 0]
          \<and> k \<le> length [([7 :: byte, 8], source1)]
          \<and> (drop k [([7 :: byte, 8], source1)] \<noteq> [] \<or> [] \<noteq> ([] :: byte list) \<longrightarrow>
               avail (rx v') = concat (map (\<lambda>(d, sa). wire (socks_of sa, d)) (drop k [([7, 8], source1)])) @ [])
          \<and> stack_sent v' = stack_sent ?v @ map (\<lambda>(d, sa). (d, lwip_of (socks_of sa))) (take k [([7, 8], source1)]))" by blast
  then have "out = wire dgram1" using w1 by (simp add: relay_world_def)
  then have "avail (rx ?v) = out @ []" "hd (rx ?v) \<noteq> RAgain" using wire_not_empty [of dgram1] by (simp_all add: session_world_def)
  with r obtain k v' where k: "hev_socks5_session_udp_fwd_b IPADDR_TYPE_V4 [replicate 1500 0, replicate 1500 0] (?s, ?v) = Some (1, ?s, v')" "0 < k"
    "stack_sent v' = stack_sent ?v @ map (\<lambda>(d, sa). (d, lwip_of (socks_of sa))) (take k [([7, 8], source1)])" by blast
  moreover have "take k [([7, 8], source1)] = [([7, 8], source1)]" using k(2) by (cases k) auto
  moreover have "lwip_of (socks_of source1) = (IPADDR_TYPE_V4 [10, 0, 0, 1], 53)" by (simp add: socks_of_source1 dgram1_def ntohs_def)
  ultimately show ?thesis using w1 by (simp add: session_world_def)
qed

theorem udp_short_datagram_faults_witness:
  "hev_socks5_session_udp_fwd_b IPADDR_TYPE_V4 [replicate 1500 0]
     (session_of HEV_SOCKS5_TYPE_UDP_IN_UDP, session_world [] [Batch [([1, 2], source1)]]) = None"
  by (rule udp_short_datagram_faults [where d = "[1, 2]" and sa = source1 and ev = "[]"])
    (simp_all add: session_of_def session_world_def session_udp_zero_def UDP_BUF_LEN_def)

end
