(* ===== verification/Tunnel_Sessions.thy ===== *)
theory Tunnel_Sessions
  imports Session_UDP Cache_Theorems
begin

text \<open>
  The tunnel's sessions (\<open>hev-socks5-tunnel.c\<close>): the list in which sessions stand in the order of their last activity, on the
  intrusive list of \<open>misc/hev-list.c\<close>; the callbacks by which the TCP/IP stack announces new connections, new
  flows of datagrams and DNS queries; and the shutdown, which tells every session to end. \<open>None\<close> is a fault
  or, in a loop, that it does not end.
\<close>

section \<open>The list of sessions\<close>

text \<open>\<open>ts_ended\<close> is the history of calls of \<open>hev_socks5_session_terminate\<close>.\<close>

record tunnel_sessions =
  session_set :: hev_list
  session_count :: int
  ts_ended :: "ptr list"

definition terminate_node :: "ptr \<Rightarrow> tunnel_sessions \<Rightarrow> tunnel_sessions option" where
  "terminate_node node t = (if node = NULL then None else Some (t\<lparr>ts_ended := ts_ended t @ [node]\<rparr>))"

definition hev_socks5_tunnel_insert_session :: "hev_config \<Rightarrow> ptr \<Rightarrow> tunnel_sessions \<Rightarrow> tunnel_sessions option" where
  "hev_socks5_tunnel_insert_session c node t = do {
     l \<leftarrow> hev_list_add_tail (session_set t) node;
     let t = t\<lparr>session_set := l, session_count := session_count t + 1\<rparr>;
     let mx = hev_config_get_misc_max_session_count c;
     if mx = 0 \<or> session_count t < mx then Some t
     else terminate_node (hev_list_first (session_set t)) t }"

definition hev_socks5_tunnel_delete_session :: "ptr \<Rightarrow> tunnel_sessions \<Rightarrow> tunnel_sessions option" where
  "hev_socks5_tunnel_delete_session node t = do {
     l \<leftarrow> hev_list_del (session_set t) node;
     Some (t\<lparr>session_set := l, session_count := session_count t - 1\<rparr>) }"

definition hev_socks5_tunnel_update_session :: "hev_config \<Rightarrow> ptr \<Rightarrow> tunnel_sessions \<Rightarrow> tunnel_sessions option" where
  "hev_socks5_tunnel_update_session c node t =
     (if hev_config_get_misc_max_session_count c = 0 then Some t
      else do {
        l \<leftarrow> hev_list_del (session_set t) node;
        l \<leftarrow> hev_list_add_tail l node;
        Some (t\<lparr>session_set := l\<rparr>) })"

text \<open>The loop of the event task over all sessions.\<close>

partial_function (option) terminate_from :: "ptr \<Rightarrow> tunnel_sessions \<Rightarrow> tunnel_sessions option" where
  "terminate_from node t =
     (if node = NULL then Some t
      else do {
        t \<leftarrow> terminate_node node t;
        n \<leftarrow> hev_list_node_next (session_set t) node;
        terminate_from n t })"

text \<open>The event task, once it has read the event: the result is the new value of \<open>run\<close>.\<close>

definition event_task_entry :: "tunnel_sessions \<Rightarrow> (bool \<times> tunnel_sessions) option" where
  "event_task_entry t = do { t \<leftarrow> terminate_from (hev_list_first (session_set t)) t; Some (False, t) }"

section \<open>New connections\<close>

text \<open>
  The tasks that call the stack hold the lock around it, and with them the callbacks below; \<open>locked\<close> says so. The
  destructors of the sessions take the lock: a callback that releases a session under the lock does not return
  (\<open>mutex_self_deadlock\<close> in \<open>Task_Mutex\<close>).
\<close>

definition destructor_lock :: "bool \<Rightarrow> unit option" where
  "destructor_lock locked = (if locked then None else Some ())"

text \<open>
  What becomes of the connection: it may have been aborted, and freed with that. \<open>node\<close> is the address of the new session's
  node in the list.
\<close>

definition tcp_accept_handler ::
  "hev_config \<Rightarrow> bool \<Rightarrow> bool \<Rightarrow> hev_mapped_dns option \<Rightarrow> byte list \<Rightarrow> ptr \<Rightarrow> tcp_pcb \<Rightarrow> ip_addr \<Rightarrow> u16 \<Rightarrow> err_t \<Rightarrow> tunnel_sessions \<Rightarrow> sys
    \<Rightarrow> (err_t \<times> bool \<times> hev_mapped_dns option \<times> tunnel_sessions \<times> sys) option" where
  "tcp_accept_handler c running locked dns junk node pcb ip port err t w =
     (if err \<noteq> ERR_OK then Some (err, True, dns, t, w)
      else if \<not> running then Some (ERR_RST, True, dns, t, w)
      else do {
        (s, dns, w) \<leftarrow> hev_socks5_session_tcp_new dns junk pcb ip port w;
        case s of None \<Rightarrow> Some (ERR_MEM, True, dns, t, w)
        | Some self \<Rightarrow>
            let (res, w) = next_res w in
            if res < 0 then do {
              destructor_lock locked;
              Some (ERR_MEM, False, dns, t, hev_socks5_session_tcp_destruct self w) }
            else do {
              t \<leftarrow> hev_socks5_tunnel_insert_session c node t;
              Some (ERR_OK, True, dns, t, w) } })"

text \<open>
  What the stack does with the result (\<open>tcp_process\<close>): on an error other than \<open>ERR_ABRT\<close> it aborts the connection, which
  faults if that has been freed already. The result says whether the connection goes on.
\<close>

definition tcp_event_accept ::
  "(err_t \<times> bool \<times> hev_mapped_dns option \<times> tunnel_sessions \<times> sys) option \<Rightarrow> (bool \<times> hev_mapped_dns option \<times> tunnel_sessions \<times> sys) option" where
  "tcp_event_accept r = do {
     (err, alive, x) \<leftarrow> r;
     if err = ERR_OK then Some (True, x)
     else if err \<noteq> ERR_ABRT \<and> \<not> alive then None
     else Some (False, x) }"

section \<open>Datagrams\<close>

text \<open>
  The handler of DNS queries: the answer, if there is one, and the cache. The response buffer holds \<open>mem\<close>, or
  could not be allocated. The query's buffer has \<open>qlen\<close> bytes of payload.
\<close>

definition dns_recv_handler ::
  "(ptr set \<Rightarrow> dns_mem) \<Rightarrow> hev_mapped_dns \<Rightarrow> byte list \<Rightarrow> nat \<Rightarrow> byte list option \<Rightarrow> (hev_mapped_dns \<times> byte list option) option" where
  "dns_recv_handler alloc dns payload qlen mem = (case mem of
      None \<Rightarrow> Some (dns, None)
    | Some b \<Rightarrow> do {
        (dns, b, res) \<leftarrow> hev_mapped_dns_handle alloc dns payload qlen b (length b);
        Some (dns, if res < 0 then None else Some (take (nat res) b)) })"

text \<open>Where the datagrams of a source go: to the DNS server, or to the session with this node.\<close>

datatype flow = To_DNS | To_session ptr

type_synonym endpoint = "ip_addr \<times> u16"

record udp_stack =
  us_flows :: "(endpoint \<times> flow) list"
  us_sessions :: tunnel_sessions
  us_sys :: sys

text \<open>The address of the DNS server is compared as the \<open>int\<close> that its bytes are in memory.\<close>

definition dns_endpoint :: "hev_config \<Rightarrow> endpoint \<Rightarrow> bool" where
  "dns_endpoint c dst = (case fst dst of
      IPADDR_TYPE_V4 b \<Rightarrow> hev_config_get_mapdns_port c = int (unat (snd dst)) \<and> hev_config_get_mapdns_address c = load32 b
    | _ \<Rightarrow> False)"

text \<open>The handler of a new flow: \<open>None\<close> when its control block was removed.\<close>

definition tunnel_udp_recv_handler ::
  "hev_config \<Rightarrow> bool \<Rightarrow> bool \<Rightarrow> bool \<Rightarrow> ptr \<Rightarrow> endpoint \<Rightarrow> udp_stack \<Rightarrow> (flow option \<times> udp_stack) option" where
  "tunnel_udp_recv_handler c running locked has_dns node dst u =
     (if \<not> running then Some (None, u)
      else if has_dns \<and> dns_endpoint c dst then Some (Some To_DNS, u)
      else
        let (s, w) = hev_socks5_session_udp_new c (us_sys u) in
        case s of None \<Rightarrow> Some (None, u\<lparr>us_sys := w\<rparr>)
        | Some self \<Rightarrow>
            let (res, w) = next_res w in
            if res < 0 then do {
              destructor_lock locked;
              Some (None, u\<lparr>us_sys := hev_socks5_session_udp_destruct self w\<rparr>) }
            else do {
              t \<leftarrow> hev_socks5_tunnel_insert_session c node (us_sessions u);
              Some (Some (To_session node), u\<lparr>us_sessions := t, us_sys := w\<rparr>) })"

text \<open>
  How the stack dispatches a datagram (\<open>udp_input\<close>, called with the lock held): to the control block of its source; if there is none, a new one is made,
  announced to the handler above, and the search starts again. \<open>Some None\<close>: no control block could be made and
  the datagram is dropped.
\<close>

partial_function (option) udp_input ::
  "hev_config \<Rightarrow> bool \<Rightarrow> bool \<Rightarrow> ptr \<Rightarrow> endpoint \<Rightarrow> endpoint \<Rightarrow> udp_stack \<Rightarrow> (flow option \<times> udp_stack) option" where
  "udp_input c running has_dns node src dst u =
     (case map_of (us_flows u) src of
        Some f \<Rightarrow> Some (Some f, u)
      | None \<Rightarrow>
          let (res, w) = next_res (us_sys u); u = u\<lparr>us_sys := w\<rparr> in
          if res < 0 then Some (None, u)
          else do {
            (f, u) \<leftarrow> tunnel_udp_recv_handler c running True has_dns node dst u;
            udp_input c running has_dns node src dst
              (case f of None \<Rightarrow> u | Some fl \<Rightarrow> u\<lparr>us_flows := (src, fl) # us_flows u\<rparr>) })"

section \<open>The list in order of activity\<close>

datatype session_op = Insert ptr | Delete ptr | Update ptr

fun session_do :: "hev_config \<Rightarrow> session_op \<Rightarrow> tunnel_sessions \<Rightarrow> tunnel_sessions option" where
  "session_do c (Insert n) t = hev_socks5_tunnel_insert_session c n t"
| "session_do c (Delete n) t = hev_socks5_tunnel_delete_session n t"
| "session_do c (Update n) t = hev_socks5_tunnel_update_session c n t"

fun session_run :: "hev_config \<Rightarrow> session_op list \<Rightarrow> tunnel_sessions \<Rightarrow> tunnel_sessions option" where
  "session_run c [] t = Some t"
| "session_run c (x # xs) t = do { t \<leftarrow> session_do c x t; session_run c xs t }"

text \<open>
  The specification: sessions from the one that has been quiet the longest to the most recently active, and the sessions told to end. When
  a session comes in and the limit is reached, it is the first that has to go.
\<close>

fun session_spec :: "int \<Rightarrow> session_op \<Rightarrow> ptr list \<times> ptr list \<Rightarrow> ptr list \<times> ptr list" where
  "session_spec mx (Insert n) (xs, e) =
     (xs @ [n], if mx \<noteq> 0 \<and> int (length xs) + 1 \<ge> mx then e @ [hd (xs @ [n])] else e)"
| "session_spec mx (Delete n) (xs, e) = (remove1 n xs, e)"
| "session_spec mx (Update n) (xs, e) = (if mx = 0 then xs else remove1 n xs @ [n], e)"

text \<open>What the callers see to: a session comes in once, with an allocated node, and acts only while it is in.\<close>

fun session_valid :: "ptr set \<Rightarrow> ptr set \<Rightarrow> session_op list \<Rightarrow> bool" where
  "session_valid A S [] \<longleftrightarrow> True"
| "session_valid A S (Insert n # ops) \<longleftrightarrow> n \<notin> S \<and> n \<noteq> NULL \<and> n \<in> A \<and> session_valid A (insert n S) ops"
| "session_valid A S (Delete n # ops) \<longleftrightarrow> n \<in> S \<and> session_valid A (S - {n}) ops"
| "session_valid A S (Update n # ops) \<longleftrightarrow> n \<in> S \<and> session_valid A S ops"

definition sessions_rep :: "ptr set \<Rightarrow> tunnel_sessions \<Rightarrow> ptr list \<times> ptr list \<Rightarrow> bool" where
  "sessions_rep A t xe \<longleftrightarrow> list_rep (session_set t) (fst xe) \<and> list_allocated (session_set t) = A
     \<and> session_count t = int (length (fst xe)) \<and> ts_ended t = snd xe"

text \<open>The laws by which a client of the list reasons: each operation keeps the correspondence.\<close>

lemma session_insert_rep:
  assumes "sessions_rep A t (xs, e)" "n \<notin> set xs" "n \<noteq> NULL" "n \<in> A"
  shows "\<exists>t'. session_do c (Insert n) t = Some t' \<and> sessions_rep A t' (session_spec (hev_config_get_misc_max_session_count c) (Insert n) (xs, e))"
proof -
  obtain l where l: "hev_list_add_tail (session_set t) n = Some l" "list_rep l (xs @ [n])" "list_allocated l = A"
    using lru.add_tail_holds [of "session_set t" xs n] assms by (auto simp: sessions_rep_def)
  have "list_rep l (hd (xs @ [n]) # tl (xs @ [n]))" using l(2) by (cases xs) auto
  from lru.first_holds [OF this] have f: "hev_list_first l = hd (xs @ [n])" .
  moreover have "hd (xs @ [n]) \<noteq> NULL" using lru.holds_sound [OF l(2)] by (cases xs) auto
  ultimately show ?thesis
    using l assms(1) by (auto simp: hev_socks5_tunnel_insert_session_def sessions_rep_def terminate_node_def Let_def)
qed

lemma session_delete_rep:
  assumes "sessions_rep A t (xs, e)" "n \<in> set xs"
  shows "\<exists>t'. session_do c (Delete n) t = Some t' \<and> sessions_rep A t' (session_spec mx (Delete n) (xs, e))"
proof -
  obtain ys zs where xs: "xs = ys @ n # zs" "n \<notin> set ys" using split_list_first [OF assms(2)] by blast
  then obtain l where "hev_list_del (session_set t) n = Some l" "list_rep l (ys @ zs)" "list_allocated l = A"
    using lru.del_holds [of "session_set t" ys n zs] assms(1) by (auto simp: sessions_rep_def)
  then show ?thesis
    using xs assms(1) by (auto simp: hev_socks5_tunnel_delete_session_def sessions_rep_def remove1_append)
qed

lemma session_update_rep:
  assumes "sessions_rep A t (xs, e)" "n \<in> set xs"
  shows "\<exists>t'. session_do c (Update n) t = Some t' \<and> sessions_rep A t' (session_spec (hev_config_get_misc_max_session_count c) (Update n) (xs, e))"
proof -
  obtain ys zs where xs: "xs = ys @ n # zs" "n \<notin> set ys" using split_list_first [OF assms(2)] by blast
  then obtain l l' where "hev_list_del (session_set t) n = Some l" "hev_list_add_tail l n = Some l'"
    "list_rep l' (ys @ zs @ [n])" "list_allocated l' = A"
    using lru.touch_holds [of "session_set t" ys n zs] assms(1) by (auto simp: sessions_rep_def)
  then show ?thesis
    using xs assms(1) by (auto simp: hev_socks5_tunnel_update_session_def sessions_rep_def remove1_append)
qed

lemma session_run_rep:
  "sessions_rep A t (xs, e) \<Longrightarrow> session_valid A (set xs) ops \<Longrightarrow>
    \<exists>t'. session_run c ops t = Some t' \<and> sessions_rep A t' (fold (session_spec (hev_config_get_misc_max_session_count c)) ops (xs, e))"
proof (induction ops arbitrary: t xs e)
  case (Cons x ops)
  let ?mx = "hev_config_get_misc_max_session_count c"
  obtain xs' e' where s: "session_spec ?mx x (xs, e) = (xs', e')" by fastforce
  have "\<exists>t'. session_do c x t = Some t' \<and> sessions_rep A t' (session_spec ?mx x (xs, e))"
    using Cons.prems by (cases x) (simp_all del: session_do.simps session_spec.simps add: session_insert_rep session_delete_rep session_update_rep)
  then obtain t' where t': "session_do c x t = Some t'" "sessions_rep A t' (xs', e')" using s by auto
  have "distinct xs" using Cons.prems(1) by (simp add: sessions_rep_def list_rep_def)
  then have "session_valid A (set xs') ops" using Cons.prems(2) s by (cases x) (auto simp: insert_absorb split: if_splits)
  then show ?case using Cons.IH [OF t'(2)] t'(1) s by simp
qed simp

section \<open>Shutdown\<close>

lemma terminate_from_chain:
  "chain (lnodes (session_set t)) q xs NULL \<Longrightarrow>
    terminate_from (hd (xs @ [NULL])) t = Some (t\<lparr>ts_ended := ts_ended t @ xs\<rparr>)"
proof (induction xs arbitrary: t q)
  case Nil
  then show ?case by (subst terminate_from.simps) simp
next
  case (Cons x xs)
  then have "hev_list_node_next (session_set t) x = Some (hd (xs @ [NULL]))" "x \<noteq> NULL"
    by (simp_all add: hev_list_node_next_def)
  moreover have "terminate_from (hd (xs @ [NULL])) (t\<lparr>ts_ended := ts_ended t @ [x]\<rparr>) = Some (t\<lparr>ts_ended := ts_ended t @ x # xs\<rparr>)"
    using Cons.IH [of "t\<lparr>ts_ended := ts_ended t @ [x]\<rparr>" x] Cons.prems by simp
  ultimately show ?case by (subst terminate_from.simps) (simp add: terminate_node_def)
qed

section \<open>Results that are not errors\<close>

lemma session_insert_any:
  assumes "list_rep (session_set t) xs" "n \<notin> set xs" "n \<noteq> NULL" "n \<in> list_allocated (session_set t)"
  shows "\<exists>t'. hev_socks5_tunnel_insert_session c n t = Some t' \<and> list_rep (session_set t') (xs @ [n]) \<and> session_count t' = session_count t + 1"
proof -
  obtain l where l: "hev_list_add_tail (session_set t) n = Some l" "list_rep l (xs @ [n])"
    using lru.add_tail_holds [of "session_set t" xs n] assms by auto
  have "hev_list_first l \<noteq> NULL" using l(2) by (cases xs) (auto simp: list_rep_def hev_list_first_def)
  then show ?thesis using l by (simp add: hev_socks5_tunnel_insert_session_def terminate_node_def Let_def)
qed

lemma next_res_good:
  "\<forall>r\<in>set (sysres w). 0 \<le> r \<Longrightarrow> 0 \<le> fst (next_res w) \<and> (\<forall>r\<in>set (sysres (snd (next_res w))). 0 \<le> r)"
  by (auto simp: next_res_def split: list.splits)

lemma session_udp_new_good:
  assumes "\<forall>r\<in>set (sysres w). 0 \<le> r"
  shows "\<exists>self w'. hev_socks5_session_udp_new c w = (Some self, w') \<and> (\<forall>r\<in>set (sysres w'). 0 \<le> r)"
  using next_res_good [OF assms]
  by (auto simp: hev_socks5_session_udp_new_def hev_malloc_def hev_socks5_session_udp_construct_def
      hev_socks5_client_udp_construct_def hev_socks5_client_construct_def hev_socks5_construct_def split_beta Let_def)

lemma udp_input_stopped:
  "udp_input c running has_dns node src dst u = Some y \<Longrightarrow>
    \<not> running \<longrightarrow> map_of (us_flows u) src \<noteq> None \<or> \<not> (\<forall>r\<in>set (sysres (us_sys u)). 0 \<le> r)"
proof (induction c running has_dns node src dst u y rule: udp_input.raw_induct [rotated, consumes 1, case_names step])
  case (step f c running has_dns node src dst u y)
  show ?case
  proof (intro impI)
    assume "\<not> running"
    with step(2) show "map_of (us_flows u) src \<noteq> None \<or> \<not> (\<forall>r\<in>set (sysres (us_sys u)). 0 \<le> r)"
      using next_res_good [of "us_sys u"] step(1) [of c running has_dns node src dst "u\<lparr>us_sys := snd (next_res (us_sys u))\<rparr>" y]
      by (auto simp: tunnel_udp_recv_handler_def split_beta Let_def split: option.splits if_splits)
  qed
qed

section \<open>What the tunnel does with its sessions\<close>

text \<open>
  C19. From an empty list on, whatever sessions come, act and go, nothing faults, the list holds the sessions that are in and
  \<open>session_count\<close> counts them. With a limit on the number of sessions, the list is ordered from the one that has been quiet the longest to
  the most recently active one, and each arrival that reaches the limit tells the session at the head to end. Without a
  limit (\<open>max_session_count\<close> is 0, the default), the list stays in the order of arrival and no session is told to end. Each session comes in once
  with a node of its own, and acts or goes only while it is in.
\<close>

theorem tunnel_sessions_lru:
  assumes "list_rep (session_set t) []" "session_count t = 0" "ts_ended t = []"
    and "session_valid (list_allocated (session_set t)) {} ops"
  shows "\<exists>t' xs. session_run c ops t = Some t' \<and> list_rep (session_set t') xs \<and> session_count t' = int (length xs)
    \<and> fold (session_spec (hev_config_get_misc_max_session_count c)) ops ([], []) = (xs, ts_ended t')"
  using session_run_rep [of "list_allocated (session_set t)" t "[]" "[]" ops c] assms
  by (auto simp: sessions_rep_def prod_eq_iff)

text \<open>When the tunnel is stopped, its event task ends after a finite walk and has told every session to end, once each.\<close>

theorem tunnel_shutdown_terminates_all:
  assumes "list_rep (session_set t) xs"
  shows "event_task_entry t = Some (False, t\<lparr>ts_ended := ts_ended t @ xs\<rparr>) \<and> distinct xs"
  using terminate_from_chain [of t NULL xs] assms
  by (simp add: event_task_entry_def list_rep_def hev_list_first_def)

text \<open>
  A connection for which a session and a task can be made goes on, and its session is the
  most recently active one in the list.
\<close>

theorem tcp_accept_starts_session:
  assumes "hev_socks5_session_tcp_new dns junk pcb ip port w = Some (Some self, dns', w')" "0 \<le> fst (next_res w')"
    and "list_rep (session_set t) xs" "node \<notin> set xs" "node \<noteq> NULL" "node \<in> list_allocated (session_set t)"
  shows "\<exists>t'. tcp_event_accept (tcp_accept_handler c True True dns junk node pcb ip port ERR_OK t w)
      = Some (True, dns', t', snd (next_res w'))
    \<and> list_rep (session_set t') (xs @ [node]) \<and> session_count t' = session_count t + 1"
proof -
  obtain t' where "hev_socks5_tunnel_insert_session c node t = Some t'"
    "list_rep (session_set t') (xs @ [node])" "session_count t' = session_count t + 1"
    using session_insert_any [OF assms(3-6)] by blast
  then show ?thesis using assms(1,2) by (simp add: tcp_accept_handler_def tcp_event_accept_def split_beta Let_def)
qed

text \<open>
  If the session can be made but its task cannot, the session's destructor waits for the lock that the caller holds. Were it free, the destructor would
  abort the connection and the stack would do so again when the handler reports \<open>ERR_MEM\<close>.
\<close>

theorem accept_task_failure_deadlocks:
  assumes "hev_socks5_session_tcp_new dns junk pcb ip port w = Some (Some self, dns', w')" "fst (next_res w') < 0"
  shows "tcp_accept_handler c True True dns junk node pcb ip port ERR_OK t w = None"
    and "tcp_event_accept (tcp_accept_handler c True False dns junk node pcb ip port ERR_OK t w) = None"
  using assms by (simp_all add: tcp_accept_handler_def tcp_event_accept_def destructor_lock_def split_beta Let_def)

text \<open>
  The first datagram of a source: the stack makes a control block, the tunnel a session for it, and the second search finds it,
  so that the datagram goes to the new session, which is the most recently active one in the list.
\<close>

theorem udp_input_starts_session:
  assumes "map_of (us_flows u) src = None" "\<not> (has_dns \<and> dns_endpoint c dst)" "\<forall>r\<in>set (sysres (us_sys u)). 0 \<le> r"
    and "list_rep (session_set (us_sessions u)) xs" "node \<notin> set xs" "node \<noteq> NULL"
    and "node \<in> list_allocated (session_set (us_sessions u))"
  shows "\<exists>u'. udp_input c True has_dns node src dst u = Some (Some (To_session node), u')
    \<and> us_flows u' = (src, To_session node) # us_flows u \<and> list_rep (session_set (us_sessions u')) (xs @ [node])"
proof -
  obtain t' where ins: "hev_socks5_tunnel_insert_session c node (us_sessions u) = Some t'" "list_rep (session_set t') (xs @ [node])"
    using session_insert_any [OF assms(4-7)] by blast
  define w where "w = snd (next_res (us_sys u))"
  then have w: "0 \<le> fst (next_res (us_sys u))" "\<forall>r\<in>set (sysres w). 0 \<le> r" using next_res_good [OF assms(3)] by simp_all
  obtain self w' where s: "hev_socks5_session_udp_new c w = (Some self, w')" "\<forall>r\<in>set (sysres w'). 0 \<le> r"
    using session_udp_new_good [OF w(2)] by blast
  have "0 \<le> fst (next_res w')" using next_res_good [OF s(2)] by simp
  with s ins have h: "\<exists>w''. tunnel_udp_recv_handler c True True has_dns node dst (u\<lparr>us_sys := w\<rparr>)
      = Some (Some (To_session node), u\<lparr>us_sessions := t', us_sys := w''\<rparr>)"
    using assms(2) by (cases u) (auto simp: tunnel_udp_recv_handler_def split_beta Let_def)
  then obtain w'' where "tunnel_udp_recv_handler c True True has_dns node dst (u\<lparr>us_sys := w\<rparr>)
      = Some (Some (To_session node), u\<lparr>us_sessions := t', us_sys := w''\<rparr>)" by blast
  with assms(1) w(1) have "udp_input c True has_dns node src dst u =
      udp_input c True has_dns node src dst (u\<lparr>us_sessions := t', us_sys := w'', us_flows := (src, To_session node) # us_flows u\<rparr>)"
    by (subst udp_input.simps) (simp add: split_beta Let_def w_def)
  then show ?thesis using ins(2) by (subst (asm) (2) udp_input.simps) simp
qed

text \<open>
  Once the tunnel has been told to stop, the handler removes the control block the stack has just made for a datagram of a new
  source, and the stack starts over: \<open>udp_input\<close> does not return, in the task that also has to see that the
  tunnel has stopped.
\<close>

theorem udp_input_hangs_when_stopped:
  assumes "map_of (us_flows u) src = None" "\<forall>r\<in>set (sysres (us_sys u)). 0 \<le> r"
  shows "udp_input c False has_dns node src dst u = None"
  using udp_input_stopped [of c False has_dns node src dst u] assms by (cases "udp_input c False has_dns node src dst u") auto

section \<open>Witnesses\<close>

definition sessions0 :: tunnel_sessions where
  "sessions0 = \<lparr>session_set = \<lparr>lnodes = [1 \<mapsto> zero_list_node, 2 \<mapsto> zero_list_node, 3 \<mapsto> zero_list_node], head = NULL, tail = NULL\<rparr>,
     session_count = 0, ts_ended = []\<rparr>"

definition limited :: hev_config where
  "limited = config_defaults\<lparr>max_session_count := 2\<rparr>"

lemma sessions0_facts:
  "list_rep (session_set sessions0) []" "session_count sessions0 = 0" "ts_ended sessions0 = []"
  "list_allocated (session_set sessions0) = {1, 2, 3}"
  by (auto simp: sessions0_def list_rep_def list_allocated_def)

lemma limited_max: "hev_config_get_misc_max_session_count limited = 2"
  by (simp add: limited_def hev_config_get_misc_max_session_count_def)

lemma tcp_new_sys0:
  "\<exists>self. hev_socks5_session_tcp_new None (replicate 7 0) pcb0 (IPADDR_TYPE_V4 [1, 2, 3, 4]) 80 (sys0\<lparr>sysres := [0, 0, r]\<rparr>) =
     Some (Some self, None, sys0\<lparr>sysres := [r], blocks := 2\<rparr>)"
  by (simp add: hev_socks5_session_tcp_new_def hev_malloc_def next_res_def sys0_def hev_socks5_session_tcp_construct_def
      hev_socks5_addr_from_lwip_def hev_socks5_addr_from_ipv4_def hev_socks5_client_tcp_construct_def
      get_block_def put_block_def put8_def get8_def store16_def addr_types hev_socks5_addr_len_def
      session_tcp_zero_def client_tcp_zero_def hev_socks5_client_construct_def hev_socks5_construct_def numeral_eq_Suc)

theorem tunnel_sessions_lru_witness:
  "\<exists>t' xs. session_run limited [Insert 1, Insert 2, Update 1, Insert 3, Delete 2] sessions0 = Some t'
    \<and> list_rep (session_set t') xs \<and> session_count t' = int (length xs) \<and> ([1, 3], [1, 2]) = (xs, ts_ended t')"
  using tunnel_sessions_lru [of sessions0 "[Insert 1, Insert 2, Update 1, Insert 3, Delete 2]" limited]
  by (simp add: sessions0_facts limited_max)

theorem tunnel_shutdown_terminates_all_witness:
  "\<exists>t. hev_socks5_tunnel_insert_session config_defaults 2 sessions0 = Some t
    \<and> event_task_entry t = Some (False, t\<lparr>ts_ended := [2]\<rparr>)"
proof -
  obtain t where t: "hev_socks5_tunnel_insert_session config_defaults 2 sessions0 = Some t" "list_rep (session_set t) [2]"
    using session_insert_any [of sessions0 "[]" 2 config_defaults] sessions0_facts by auto
  have "ts_ended t = []"
    using t(1) by (auto simp: hev_socks5_tunnel_insert_session_def hev_config_get_misc_max_session_count_def config_defaults_def sessions0_facts
        Let_def bind_eq_Some_conv)
  then show ?thesis using t tunnel_shutdown_terminates_all [OF t(2)] by simp
qed

theorem tcp_accept_starts_session_witness:
  "\<exists>t'. tcp_event_accept (tcp_accept_handler limited True True None (replicate 7 0) 1 pcb0 (IPADDR_TYPE_V4 [1, 2, 3, 4]) 80 ERR_OK
        sessions0 (sys0\<lparr>sysres := [0, 0, 1]\<rparr>)) = Some (True, None, t', sys0\<lparr>blocks := 2, sysres := []\<rparr>)
    \<and> list_rep (session_set t') [1] \<and> session_count t' = 1"
proof -
  obtain self where "hev_socks5_session_tcp_new None (replicate 7 0) pcb0 (IPADDR_TYPE_V4 [1, 2, 3, 4]) 80 (sys0\<lparr>sysres := [0, 0, 1]\<rparr>) =
     Some (Some self, None, sys0\<lparr>sysres := [1], blocks := 2\<rparr>)" using tcp_new_sys0 by blast
  from tcp_accept_starts_session [OF this _ sessions0_facts(1), of 1 limited] show ?thesis
    by (simp add: sessions0_facts next_res_def)
qed

definition stack0 :: udp_stack where
  "stack0 = \<lparr>us_flows = [], us_sessions = sessions0, us_sys = sys0\<lparr>sysres := [1]\<rparr>\<rparr>"

theorem udp_input_starts_session_witness:
  "\<exists>u'. udp_input limited True True 3 (IPADDR_TYPE_V4 [10, 0, 0, 2], 4000) (IPADDR_TYPE_V4 [8, 8, 8, 8], 53) stack0
      = Some (Some (To_session 3), u')
    \<and> us_flows u' = [((IPADDR_TYPE_V4 [10, 0, 0, 2], 4000), To_session 3)] \<and> list_rep (session_set (us_sessions u')) [3]"
  using udp_input_starts_session [of stack0 "(IPADDR_TYPE_V4 [10, 0, 0, 2], 4000)" True limited "(IPADDR_TYPE_V4 [8, 8, 8, 8], 53)" "[]" 3]
  by (simp add: stack0_def sessions0_facts sys0_def dns_endpoint_def limited_def config_defaults_def hev_config_get_mapdns_port_def)

theorem udp_input_hangs_when_stopped_witness:
  "udp_input limited False True 3 (IPADDR_TYPE_V4 [10, 0, 0, 2], 4000) (IPADDR_TYPE_V4 [8, 8, 8, 8], 53) stack0 = None"
  by (rule udp_input_hangs_when_stopped) (simp_all add: stack0_def sys0_def)

end
