(* ===== verification/Tunnel_Device.thy ===== *)
theory Tunnel_Device
  imports Tunnel_Sessions
begin

text \<open>
  The network device on Linux (\<open>hev-tunnel-linux.c\<close>). Devices are the kernel's: a table from names to what has been set on them. The
  results of system calls come from the script of \<open>sys\<close>; a negative entry is a failure with that error number.
\<close>

section \<open>The kernel's side\<close>

record nic =
  nic_mtu :: int
  nic_up :: bool
  nic_multi :: bool
  nic_ipv4 :: "(byte list \<times> nat) option"
  nic_ipv6 :: "(byte list \<times> nat) list"

text \<open>A device lives as long as the descriptor that made it. \<open>dv_name\<close> is the static variable \<open>tun_name\<close>.\<close>

record device =
  dv_sys :: sys
  dv_nics :: "string \<rightharpoonup> nic"
  dv_tuns :: "(int \<times> string) list"
  dv_name :: string

definition IFNAMSIZ :: nat where
  "IFNAMSIZ = 16"

definition EEXIST :: int where
  "EEXIST = 17"

definition new_nic :: "bool \<Rightarrow> nic" where
  "new_nic multi = \<lparr>nic_mtu = 1500, nic_up = False, nic_multi = multi, nic_ipv4 = None, nic_ipv6 = []\<rparr>"

definition dev_res :: "'a device_scheme \<Rightarrow> int \<times> 'a device_scheme" where
  "dev_res w = (let (r, s) = next_res (dv_sys w) in (r, w\<lparr>dv_sys := s\<rparr>))"

definition dev_socket :: "'a device_scheme \<Rightarrow> int \<times> 'a device_scheme" where
  "dev_socket w = (let (fd, s) = sys_socket (dv_sys w) in (fd, w\<lparr>dv_sys := s\<rparr>))"

definition dev_close :: "int \<Rightarrow> 'a device_scheme \<Rightarrow> 'a device_scheme" where
  "dev_close fd w = (case map_of (dv_tuns w) fd of
      None \<Rightarrow> w\<lparr>dv_sys := sys_close fd (dv_sys w)\<rparr>
    | Some n \<Rightarrow> w\<lparr>dv_sys := sys_close fd (dv_sys w), dv_nics := (dv_nics w)(n := None),
        dv_tuns := filter (\<lambda>e. fst e \<noteq> fd) (dv_tuns w)\<rparr>)"

text \<open>
  A request on the device \<open>tun_name\<close>: it fails as the script says, or because there is no such device (\<open>ENODEV\<close>). The result is 0 or
  the negative error number; the source sees \<open>-1\<close> and \<open>errno\<close>.
\<close>

definition dev_ioctl :: "(nic \<Rightarrow> nic) \<Rightarrow> 'a device_scheme \<Rightarrow> int \<times> 'a device_scheme" where
  "dev_ioctl f w =
     (let (r, w) = dev_res w in
      if r < 0 then (r, w)
      else case dv_nics w (dv_name w) of
        None \<Rightarrow> (-19, w)
      | Some d \<Rightarrow> (0, w\<lparr>dv_nics := (dv_nics w)(dv_name w \<mapsto> f d)\<rparr>))"

definition posix :: "int \<Rightarrow> int" where
  "posix r = (if r < 0 then -1 else r)"

section \<open>The operations\<close>

text \<open>\<open>picked\<close> is the name that the kernel picks if none is given.\<close>

definition hev_tunnel_open :: "string \<Rightarrow> string option \<Rightarrow> int \<Rightarrow> 'a device_scheme \<Rightarrow> int \<times> 'a device_scheme" where
  "hev_tunnel_open picked name mq w =
     (let (fd, w) = dev_socket w in
      if fd < 0 then (-1, w)
      else
        let ifr_name = (case name of None \<Rightarrow> [] | Some n \<Rightarrow> take (IFNAMSIZ - 1) n);
            (res, w) = dev_res w in
        if res < 0 then (posix res, dev_close fd w)
        else
          let n = (if ifr_name = [] then picked else ifr_name);
              d = (case dv_nics w n of None \<Rightarrow> new_nic (mq \<noteq> 0) | Some d \<Rightarrow> d) in
          (fd, w\<lparr>dv_nics := (dv_nics w)(n \<mapsto> d), dv_tuns := (fd, n) # dv_tuns w, dv_name := n\<rparr>))"

definition hev_tunnel_close :: "int \<Rightarrow> 'a device_scheme \<Rightarrow> 'a device_scheme" where
  "hev_tunnel_close fd w = dev_close fd w"

text \<open>The requests go through a socket of their own, which is closed on every path.\<close>

definition dev_with :: "('a device_scheme \<Rightarrow> int \<times> 'a device_scheme) \<Rightarrow> 'a device_scheme \<Rightarrow> int \<times> 'a device_scheme" where
  "dev_with body w =
     (let (fd, w) = dev_socket w in
      if fd < 0 then (-1, w)
      else let (res, w) = body w in (res, dev_close fd w))"

definition hev_tunnel_set_mtu :: "int \<Rightarrow> 'a device_scheme \<Rightarrow> int \<times> 'a device_scheme" where
  "hev_tunnel_set_mtu mtu = dev_with (\<lambda>w. let (res, w) = dev_ioctl (\<lambda>d. d\<lparr>nic_mtu := mtu\<rparr>) w in (posix res, w))"

text \<open>The flags are read and written back with \<open>IFF_UP\<close> changed; the model has no other flag.\<close>

definition hev_tunnel_set_state :: "int \<Rightarrow> 'a device_scheme \<Rightarrow> int \<times> 'a device_scheme" where
  "hev_tunnel_set_state state = dev_with (\<lambda>w.
     let (res, w) = dev_ioctl id w in
     if res < 0 then (posix res, w)
     else let (res, w) = dev_ioctl (\<lambda>d. d\<lparr>nic_up := state \<noteq> 0\<rparr>) w in (posix res, w))"

text \<open>The kernel reads the length of a prefix off its mask.\<close>

definition mask_len :: "byte list \<Rightarrow> nat" where
  "mask_len m = length (takeWhile id (concat (map (\<lambda>b. map (bit b) (rev [0..<8])) m)))"

text \<open>The mask of an IPv4 prefix in network order, \<open>htonl (-1 << (32 - prefix))\<close>; C defines the shift for prefixes of 1 to 32 bits.\<close>

definition prefixmask4 :: "nat \<Rightarrow> byte list" where
  "prefixmask4 plen = be32 (push_bit (32 - plen) (-1))"

text \<open>\<open>pton\<close> is \<open>inet_pton\<close>: the bytes of the address, or \<open>None\<close> where it returns 0.\<close>

definition hev_tunnel_set_ipv4 :: "(string \<Rightarrow> byte list option) \<Rightarrow> string \<Rightarrow> nat \<Rightarrow> 'a device_scheme \<Rightarrow> int \<times> 'a device_scheme" where
  "hev_tunnel_set_ipv4 pton addr plen = dev_with (\<lambda>w. case pton addr of
      None \<Rightarrow> (0, w)
    | Some b \<Rightarrow>
        let (res, w) = dev_ioctl (\<lambda>d. d\<lparr>nic_ipv4 := Some (b, 32)\<rparr>) w in
        if res < 0 then (posix res, w)
        else let (res, w) = dev_ioctl (\<lambda>d. d\<lparr>nic_ipv4 := Some (b, mask_len (prefixmask4 plen))\<rparr>) w in
        (if res = - EEXIST then 0 else posix res, w))"

definition hev_tunnel_set_ipv6 :: "(string \<Rightarrow> byte list option) \<Rightarrow> string \<Rightarrow> nat \<Rightarrow> 'a device_scheme \<Rightarrow> int \<times> 'a device_scheme" where
  "hev_tunnel_set_ipv6 pton addr plen = dev_with (\<lambda>w.
     let (res, w) = dev_ioctl id w in
     if res < 0 then (posix res, w)
     else case pton addr of
       None \<Rightarrow> (0, w)
     | Some b \<Rightarrow>
         let (res, w) = dev_ioctl (\<lambda>d. d\<lparr>nic_ipv6 := (b, plen) # nic_ipv6 d\<rparr>) w in
         (if res = - EEXIST then 0 else posix res, w))"

definition hev_tunnel_get_name :: "'a device_scheme \<Rightarrow> string" where
  "hev_tunnel_get_name w = dv_name w"

definition hev_tunnel_add_task :: "int \<Rightarrow> 'a device_scheme \<Rightarrow> int \<times> 'a device_scheme" where
  "hev_tunnel_add_task fd w = (let (r, s) = hev_task_add_fd fd (dv_sys w) in (r, w\<lparr>dv_sys := s\<rparr>))"

definition hev_tunnel_del_task :: "int \<Rightarrow> 'a device_scheme \<Rightarrow> 'a device_scheme" where
  "hev_tunnel_del_task fd w = w\<lparr>dv_sys := hev_task_del_fd fd (dv_sys w)\<rparr>"

section \<open>What the operations leave behind\<close>

abbreviation open_set :: "'a device_scheme \<Rightarrow> int set" where
  "open_set w \<equiv> set (open_fds (dv_sys w))"

text \<open>Attached descriptors are open.\<close>

definition dev_inv :: "'a device_scheme \<Rightarrow> bool" where
  "dev_inv w \<longleftrightarrow> (\<forall>(f, n)\<in>set (dv_tuns w). f \<in> open_set w)"

text \<open>
  \<open>dev_frame F w w'\<close>: besides the descriptors \<open>F\<close>, which are new, the same descriptors are open and attached; nothing
  else of the program's state has changed, and no other device than \<open>tun_name\<close>.
\<close>

definition dev_frame :: "int set \<Rightarrow> 'a device_scheme \<Rightarrow> 'a device_scheme \<Rightarrow> bool" where
  "dev_frame F w w' \<longleftrightarrow> open_set w' = open_set w \<union> F \<and> F \<inter> open_set w = {} \<and> dv_tuns w' = dv_tuns w \<and> dv_name w' = dv_name w
     \<and> (\<forall>n. n \<noteq> dv_name w \<longrightarrow> dv_nics w' n = dv_nics w n) \<and> device.more w' = device.more w"

lemma dev_frame_inv: "dev_frame {} w w' \<Longrightarrow> dev_inv w \<Longrightarrow> dev_inv w'"
  by (simp add: dev_frame_def dev_inv_def)

lemma dev_socket_opens:
  assumes "dev_socket w = (fd, w')"
  shows "if fd < 0 then dev_frame {} w w' \<and> dv_nics w' = dv_nics w else dev_frame {fd} w w' \<and> dv_nics w' = dv_nics w"
  using assms fresh_fd_new [of "open_fds (dv_sys w)"]
  by (auto simp: dev_socket_def sys_socket_def dev_frame_def split_beta Let_def split: if_splits)

lemma dev_frame_open_trans:
  assumes "dev_frame F w w1" "dev_frame {} w1 w2"
  shows "dev_frame F w w2"
proof -
  note a = assms(1) [unfolded dev_frame_def] and b = assms(2) [unfolded dev_frame_def]
  have "open_set w2 = open_set w \<union> F" using a [THEN conjunct1] b [THEN conjunct1] by blast
  moreover have "dv_tuns w2 = dv_tuns w" "dv_name w2 = dv_name w" using a b by auto
  moreover have "dv_nics w2 n = dv_nics w n" if "n \<noteq> dv_name w" for n using a b that by metis
  moreover have "device.more w2 = device.more w" using a b by metis
  ultimately show ?thesis using a unfolding dev_frame_def by blast
qed

lemma dev_close_again:
  assumes "dev_inv w" "dev_frame {fd} w w'"
  shows "dev_frame {} w (dev_close fd w') \<and> dv_nics (dev_close fd w') = dv_nics w'"
proof -
  have "map_of (dv_tuns w') fd = None"
    using assms by (force simp: dev_inv_def dev_frame_def map_of_eq_None_iff)
  then show ?thesis using assms(2) by (auto simp: dev_close_def dev_frame_def sys_close_def)
qed

text \<open>
  The contract of an operation on \<open>tun_name\<close>: it leaves no descriptor behind and keeps the device; if it reports success,
  the device has changed as \<open>R\<close> says.
\<close>

definition dev_op :: "(nic \<Rightarrow> nic \<Rightarrow> bool) \<Rightarrow> ('a device_scheme \<Rightarrow> int \<times> 'a device_scheme) \<Rightarrow> 'a device_scheme \<Rightarrow> bool" where
  "dev_op R f w \<longleftrightarrow> (case f w of (r, w') \<Rightarrow> dev_frame {} w w'
     \<and> (\<forall>d. dv_nics w (dv_name w) = Some d \<longrightarrow> (\<exists>d'. dv_nics w' (dv_name w) = Some d' \<and> (0 \<le> r \<longrightarrow> R d d'))))"

lemma dev_ioctl_frame:
  assumes "dev_ioctl f w = (r, w')"
  shows "dev_frame {} w w'" "dv_name w' = dv_name w"
    "dv_nics w (dv_name w) = Some d \<Longrightarrow> dv_nics w' (dv_name w) = Some (if r < 0 then d else f d)"
    "dv_nics w (dv_name w) = None \<Longrightarrow> r < 0"
  using assms by (auto simp: dev_ioctl_def dev_res_def dev_frame_def split_beta Let_def split: if_splits option.splits)

lemma dev_with_op:
  assumes "dev_inv w" "\<And>w. dev_op R body w"
  shows "dev_op R (dev_with body) w"
proof -
  obtain fd w1 where s: "dev_socket w = (fd, w1)" by fastforce
  obtain r w2 where b: "body w1 = (r, w2)" by fastforce
  show ?thesis
  proof (cases "fd < 0")
    case True
    then show ?thesis using dev_socket_opens [OF s] s by (simp add: dev_op_def dev_with_def)
  next
    case False
    with dev_socket_opens [OF s] have o1: "dev_frame {fd} w w1" "dv_nics w1 = dv_nics w" by auto
    have o2: "dev_frame {} w1 w2" "\<forall>d. dv_nics w1 (dv_name w1) = Some d \<longrightarrow> (\<exists>d'. dv_nics w2 (dv_name w1) = Some d' \<and> (0 \<le> r \<longrightarrow> R d d'))"
      using assms(2) [of w1] b by (simp_all add: dev_op_def)
    moreover have "dv_name w1 = dv_name w" using o1(1) by (simp add: dev_frame_def)
    ultimately show ?thesis
      using dev_close_again [OF assms(1) dev_frame_open_trans [OF o1(1) o2(1)]] o1(2) s b False
      by (simp add: dev_op_def dev_with_def)
  qed
qed

lemma posix_nonneg [simp]: "0 \<le> posix r \<longleftrightarrow> 0 \<le> r"
  by (simp add: posix_def)

lemma dev_ioctl_op: "dev_op (\<lambda>d d'. d' = f d) (\<lambda>w. let (res, w) = dev_ioctl f w in (posix res, w)) w"
proof -
  obtain r w' where i: "dev_ioctl f w = (r, w')" by fastforce
  show ?thesis using dev_ioctl_frame [OF i] i by (auto simp: dev_op_def)
qed

text \<open>Two requests, the second only if the first succeeds.\<close>

lemma dev_then_op:
  assumes "\<And>w. dev_op S (\<lambda>w. g w) w" "\<And>d d'. S (f d) d' \<Longrightarrow> R d d'"
  shows "dev_op R (\<lambda>w. let (res, w) = dev_ioctl f w in if res < 0 then (posix res, w) else g w) w"
proof -
  obtain r w1 where i: "dev_ioctl f w = (r, w1)" by fastforce
  obtain q w2 where g: "g w1 = (q, w2)" by fastforce
  show ?thesis
    using dev_ioctl_frame [OF i] i g assms(1) [of w1] assms(2) dev_frame_open_trans [of "{}" w w1 w2]
    by (fastforce simp: dev_op_def posix_def)
qed

lemma hev_tunnel_set_mtu_op: "dev_inv w \<Longrightarrow> dev_op (\<lambda>d d'. d' = d\<lparr>nic_mtu := m\<rparr>) (hev_tunnel_set_mtu m) w"
  unfolding hev_tunnel_set_mtu_def by (rule dev_with_op, assumption, rule dev_ioctl_op)

lemma hev_tunnel_set_state_op: "dev_inv w \<Longrightarrow> dev_op (\<lambda>d d'. d' = d\<lparr>nic_up := s \<noteq> 0\<rparr>) (hev_tunnel_set_state s) w"
  unfolding hev_tunnel_set_state_def by (rule dev_with_op, assumption, rule dev_then_op, rule dev_ioctl_op) simp

lemma dev_skip_op: "(\<And>d. R d d) \<Longrightarrow> dev_op R (\<lambda>w. (0, w)) w"
  by (simp add: dev_op_def dev_frame_def)

text \<open>The request may fail with \<open>EEXIST\<close>, which counts as success.\<close>

lemma dev_exist_op:
  "dev_op (\<lambda>d d'. d' = d \<or> d' = f d) (\<lambda>w. let (res, w) = dev_ioctl f w in (if res = - EEXIST then 0 else posix res, w)) w"
proof -
  obtain r w' where i: "dev_ioctl f w = (r, w')" by fastforce
  show ?thesis using dev_ioctl_frame [OF i] i by (auto simp: dev_op_def)
qed

text \<open>An address that \<open>inet_pton\<close> does not accept is left out, and that counts as success.\<close>

definition with_ipv4 :: "byte list option \<Rightarrow> nic \<Rightarrow> nic" where
  "with_ipv4 a d = (case a of None \<Rightarrow> d | Some b \<Rightarrow> d\<lparr>nic_ipv4 := Some (b, 32)\<rparr>)"

definition with_ipv6 :: "byte list option \<Rightarrow> nic \<Rightarrow> nic \<Rightarrow> bool" where
  "with_ipv6 a d d' \<longleftrightarrow> (case a of None \<Rightarrow> d' = d | Some b \<Rightarrow> d' = d \<or> d' = d\<lparr>nic_ipv6 := (b, 128) # nic_ipv6 d\<rparr>)"

lemma prefixmask4_32 [simp]: "mask_len (prefixmask4 32) = 32"
  by code_simp

lemma hev_tunnel_set_ipv4_op:
  assumes "dev_inv w"
  shows "dev_op (\<lambda>d d'. d' = with_ipv4 (pton a) d) (hev_tunnel_set_ipv4 pton a 32) w"
proof (cases "pton a")
  case None
  then show ?thesis unfolding hev_tunnel_set_ipv4_def with_ipv4_def by (simp add: dev_with_op [OF assms dev_skip_op])
next
  case (Some b)
  show ?thesis unfolding hev_tunnel_set_ipv4_def with_ipv4_def Some option.case prefixmask4_32
    by (rule dev_with_op [OF assms], rule dev_then_op, rule dev_exist_op) auto
qed

lemma hev_tunnel_set_ipv6_op:
  assumes "dev_inv w"
  shows "dev_op (with_ipv6 (pton a)) (hev_tunnel_set_ipv6 pton a 128) w"
proof (cases "pton a")
  case None
  show ?thesis unfolding hev_tunnel_set_ipv6_def with_ipv6_def [abs_def] None option.case
    by (rule dev_with_op [OF assms], rule dev_then_op [where S = "(=)"], rule dev_skip_op) auto
next
  case (Some b)
  show ?thesis unfolding hev_tunnel_set_ipv6_def with_ipv6_def [abs_def] Some option.case
    by (rule dev_with_op [OF assms], rule dev_then_op, rule dev_exist_op) auto
qed

lemma hev_tunnel_open_works:
  assumes "hev_tunnel_open picked name mq w = (fd, w')" "dev_inv w"
  shows "if fd < 0 then open_set w' = open_set w \<and> dv_tuns w' = dv_tuns w \<and> device.more w' = device.more w
    else open_set w' = insert fd (open_set w) \<and> fd \<notin> open_set w \<and> dv_tuns w' = (fd, dv_name w') # dv_tuns w
      \<and> dv_nics w' (dv_name w') \<noteq> None \<and> device.more w' = device.more w \<and> dev_inv w'"
proof -
  obtain f w1 where s: "dev_socket w = (f, w1)" by fastforce
  obtain r w2 where i: "dev_res w1 = (r, w2)" by fastforce
  have "dev_frame {} w1 w2" using i by (auto simp: dev_res_def dev_frame_def split_beta Let_def)
  note w2 = dev_frame_open_trans [OF _ this, of "{f}" w]
  show ?thesis
    using dev_socket_opens [OF s] dev_close_again [OF assms(2) w2] w2 assms s i
    by (auto simp: hev_tunnel_open_def posix_def dev_frame_def dev_inv_def Let_def split: if_splits)
qed

text \<open>An address that cannot be parsed counts as set: the operation reports success and the device has no address.\<close>

theorem bad_address_accepted:
  assumes "dev_inv w" "pton a = None" "hev_tunnel_set_ipv4 pton a 32 w = (r, w')" "0 \<le> r" "dv_nics w (dv_name w) = Some d"
  shows "dv_nics w' (dv_name w) = Some d"
  using hev_tunnel_set_ipv4_op [OF assms(1), of pton a] assms by (auto simp: dev_op_def with_ipv4_def)

end
