(* ===== verification/Tunnel_Windows.thy ===== *)
theory Tunnel_Windows
  imports Tunnel_Device
begin

text \<open>
  The device on Windows (\<open>hev-tunnel-windows.c\<close> and \<open>misc/hev-wintun.c\<close>), which is reached through a driver library that is loaded at run
  time. The library is not part of the program: what its calls return is a script, and what is assumed of them is only that a handle that they return is new
  and that a call on a handle that has been closed, or through a library that has been unloaded, is an error (\<open>None\<close>). Shown are that what is opened is
  closed, that packets are read and written whole and in order, and three slips.
\<close>

section \<open>The driver's side\<close>

text \<open>What a call to receive a packet finds: a packet, nothing yet (\<open>ERROR_NO_MORE_ITEMS\<close>), or an error.\<close>

datatype win_event = Win_Packet "byte list" | Win_Again | Win_Error

record win_nic =
  wn_mtu :: int
  wn_addrs :: "(byte list \<times> nat) list"

text \<open>
  Handles are positive numbers, given out in turn; 0 is NULL. The first four fields are the static variables of the source. \<open>win_held\<close> are the packets of the receive ring that have not
  been released, \<open>win_res\<close> are the error codes of the calls to come (0 when used up).
\<close>

record win =
  win_tun :: nat
  win_adapter :: nat
  win_session :: nat
  win_name :: string
  win_next :: nat
  win_libs :: "nat set"
  win_adapters :: "nat \<rightharpoonup> win_nic"
  win_sessions :: "nat set"
  win_rx :: "win_event list"
  win_held :: "(nat \<times> byte list) list"
  win_sent :: "byte list list"
  win_res :: "nat list"

definition win_call :: "win \<Rightarrow> nat \<times> win" where
  "win_call w = (case win_res w of [] \<Rightarrow> (0, w) | r # rs \<Rightarrow> (r, w\<lparr>win_res := rs\<rparr>))"

text \<open>A call that returns a new handle, or NULL.\<close>

definition win_handle :: "win \<Rightarrow> nat \<times> win" where
  "win_handle w = (let (r, w) = win_call w in if r \<noteq> 0 then (0, w) else (win_next w, w\<lparr>win_next := Suc (win_next w)\<rparr>))"

definition ERROR_OBJECT_ALREADY_EXISTS :: nat where
  "ERROR_OBJECT_ALREADY_EXISTS = 5010"

definition FreeLibrary :: "nat \<Rightarrow> win \<Rightarrow> win option" where
  "FreeLibrary h w = (if h \<in> win_libs w then Some (w\<lparr>win_libs := win_libs w - {h}\<rparr>) else None)"

section \<open>The driver library\<close>

text \<open>The ten addresses, looked up one after the other up to the first that is missing.\<close>

fun get_procs :: "nat \<Rightarrow> win \<Rightarrow> bool \<times> win" where
  "get_procs 0 w = (True, w)"
| "get_procs (Suc n) w = (let (r, w) = win_call w in if r \<noteq> 0 then (False, w) else get_procs n w)"

definition hev_wintun_open :: "win \<Rightarrow> (nat \<times> win) option" where
  "hev_wintun_open w =
     (let (self, w) = win_handle w in
      if self = 0 then Some (0, w)
      else
        let w = w\<lparr>win_libs := insert self (win_libs w)\<rparr>;
            (found, w) = get_procs 10 w in
        if found then Some (self, w)
        else do { w \<leftarrow> FreeLibrary self w; Some (0, w) })"

definition hev_wintun_close :: "nat \<Rightarrow> win \<Rightarrow> win option" where
  "hev_wintun_close self w = FreeLibrary self w"

text \<open>A call through the addresses of the library.\<close>

definition loaded :: "win \<Rightarrow> bool" where
  "loaded w \<longleftrightarrow> win_tun w \<in> win_libs w"

text \<open>\<open>wide\<close> is the number of wide characters of a name, the terminating zero included. A missing name leaves the array that is passed on uninitialised.\<close>

definition hev_wintun_adapter_create :: "(string \<Rightarrow> nat) \<Rightarrow> string option \<Rightarrow> win \<Rightarrow> (nat \<times> win) option" where
  "hev_wintun_adapter_create wide name w = (case name of
      None \<Rightarrow> None
    | Some n \<Rightarrow>
        if wide n \<ge> 256 then Some (0, w)
        else if \<not> loaded w then None
        else
          let (a, w) = win_handle w in
          if a = 0 then Some (0, w)
          else Some (a, w\<lparr>win_adapters := (win_adapters w)(a \<mapsto> \<lparr>wn_mtu = 0, wn_addrs = []\<rparr>)\<rparr>))"

definition hev_wintun_adapter_close :: "nat \<Rightarrow> win \<Rightarrow> win option" where
  "hev_wintun_adapter_close a w =
     (if loaded w \<and> a \<in> dom (win_adapters w) then Some (w\<lparr>win_adapters := (win_adapters w)(a := None)\<rparr>) else None)"

definition hev_wintun_adapter_get_index :: "(nat \<Rightarrow> int) \<Rightarrow> nat \<Rightarrow> win \<Rightarrow> (int \<times> win) option" where
  "hev_wintun_adapter_get_index index a w =
     (if \<not> (loaded w \<and> a \<in> dom (win_adapters w)) then None
      else let (r, w) = win_call w in Some (if r \<noteq> 0 then -1 else index a, w))"

text \<open>Three calls, of which the last changes the adapter.\<close>

definition hev_wintun_adapter_set_mtu :: "nat \<Rightarrow> int \<Rightarrow> win \<Rightarrow> (int \<times> win) option" where
  "hev_wintun_adapter_set_mtu a mtu w = (case win_adapters w a of
      None \<Rightarrow> None
    | Some n \<Rightarrow>
        if \<not> loaded w then None
        else
          let (r, w) = win_call w in
          if r \<noteq> 0 then Some (-1, w)
          else let (r, w) = win_call w in
          if r \<noteq> 0 then Some (-1, w)
          else let (r, w) = win_call w in
          if r \<noteq> 0 then Some (-1, w)
          else Some (0, w\<lparr>win_adapters := (win_adapters w)(a \<mapsto> n\<lparr>wn_mtu := mtu\<rparr>)\<rparr>))"

text \<open>\<open>CreateUnicastIpAddressEntry\<close>; both families use the same code.\<close>

definition hev_wintun_adapter_set_ip :: "nat \<Rightarrow> byte list \<Rightarrow> nat \<Rightarrow> win \<Rightarrow> (int \<times> win) option" where
  "hev_wintun_adapter_set_ip a addr prefix w = (case win_adapters w a of
      None \<Rightarrow> None
    | Some n \<Rightarrow>
        if \<not> loaded w then None
        else
          let (r, w) = win_call w in
          if r \<noteq> 0 \<and> r \<noteq> ERROR_OBJECT_ALREADY_EXISTS then Some (-1, w)
          else Some (0, if r = 0 then w\<lparr>win_adapters := (win_adapters w)(a \<mapsto> n\<lparr>wn_addrs := (addr, prefix) # wn_addrs n\<rparr>)\<rparr> else w))"

definition hev_wintun_adapter_set_ipv4 :: "nat \<Rightarrow> byte list \<Rightarrow> nat \<Rightarrow> win \<Rightarrow> (int \<times> win) option" where
  "hev_wintun_adapter_set_ipv4 a addr prefix w = hev_wintun_adapter_set_ip a (take 4 addr) prefix w"

definition hev_wintun_adapter_set_ipv6 :: "nat \<Rightarrow> byte list \<Rightarrow> nat \<Rightarrow> win \<Rightarrow> (int \<times> win) option" where
  "hev_wintun_adapter_set_ipv6 a addr prefix w = hev_wintun_adapter_set_ip a (take 16 addr) prefix w"

definition hev_wintun_session_start :: "nat \<Rightarrow> win \<Rightarrow> (nat \<times> win) option" where
  "hev_wintun_session_start a w =
     (if \<not> (loaded w \<and> a \<in> dom (win_adapters w)) then None
      else
        let (s, w) = win_handle w in
        if s = 0 then Some (0, w) else Some (s, w\<lparr>win_sessions := insert s (win_sessions w)\<rparr>))"

definition on_session :: "nat \<Rightarrow> win \<Rightarrow> bool" where
  "on_session s w \<longleftrightarrow> loaded w \<and> s \<in> win_sessions w"

definition hev_wintun_session_stop :: "nat \<Rightarrow> win \<Rightarrow> win option" where
  "hev_wintun_session_stop s w = (if on_session s w then Some (w\<lparr>win_sessions := win_sessions w - {s}\<rparr>) else None)"

definition hev_wintun_session_release :: "nat \<Rightarrow> nat \<Rightarrow> win \<Rightarrow> win option" where
  "hev_wintun_session_release s p w =
     (if on_session s w \<and> p \<in> fst ` set (win_held w) then Some (w\<lparr>win_held := filter (\<lambda>e. fst e \<noteq> p) (win_held w)\<rparr>) else None)"

section \<open>The device\<close>

definition windows_open :: "(string \<Rightarrow> nat) \<Rightarrow> string option \<Rightarrow> win \<Rightarrow> (int \<times> win) option" where
  "windows_open wide name w = do {
     (t, w) \<leftarrow> hev_wintun_open w;
     let w = w\<lparr>win_tun := t\<rparr>;
     if t = 0 then Some (-1, w)
     else do {
       (a, w) \<leftarrow> hev_wintun_adapter_create wide name w;
       let w = w\<lparr>win_adapter := a\<rparr>;
       if a = 0 then do { w \<leftarrow> hev_wintun_close (win_tun w) w; Some (-1, w) }
       else Some (0, w\<lparr>win_name := take (IFNAMSIZ - 1) (the name)\<rparr>) } }"

definition windows_close :: "win \<Rightarrow> win option" where
  "windows_close w = do {
     w \<leftarrow> (if win_session w \<noteq> 0 then hev_wintun_session_stop (win_session w) w else Some w);
     w \<leftarrow> hev_wintun_adapter_close (win_adapter w) w;
     hev_wintun_close (win_tun w) w }"

definition windows_set_mtu :: "int \<Rightarrow> win \<Rightarrow> (int \<times> win) option" where
  "windows_set_mtu mtu w = hev_wintun_adapter_set_mtu (win_adapter w) mtu w"

definition windows_set_state :: "int \<Rightarrow> win \<Rightarrow> (int \<times> win) option" where
  "windows_set_state state w =
     (if state \<noteq> 0 then do {
        (s, w) \<leftarrow> hev_wintun_session_start (win_adapter w) w;
        Some (if s = 0 then -1 else 0, w\<lparr>win_session := s\<rparr>) }
      else if win_session w \<noteq> 0 then do {
        w \<leftarrow> hev_wintun_session_stop (win_session w) w;
        Some (0, w\<lparr>win_session := 0\<rparr>) }
      else Some (0, w))"

definition windows_set_ipv4 :: "(string \<Rightarrow> byte list option) \<Rightarrow> string \<Rightarrow> nat \<Rightarrow> win \<Rightarrow> (int \<times> win) option" where
  "windows_set_ipv4 pton addr prefix w = (case pton addr of
      None \<Rightarrow> Some (-1, w)
    | Some ip \<Rightarrow> hev_wintun_adapter_set_ipv4 (win_adapter w) ip prefix w)"

definition windows_set_ipv6 :: "(string \<Rightarrow> byte list option) \<Rightarrow> string \<Rightarrow> nat \<Rightarrow> win \<Rightarrow> (int \<times> win) option" where
  "windows_set_ipv6 pton addr prefix w = (case pton addr of
      None \<Rightarrow> Some (-1, w)
    | Some ip \<Rightarrow> hev_wintun_adapter_set_ipv6 (win_adapter w) ip prefix w)"

text \<open>
  The loop of \<open>hev_tunnel_read\<close>: a thousand rounds of yielding, then the yielder, if there is one, which may say that it is over. An end of the script is an error.
\<close>

fun windows_receive :: "bool \<Rightarrow> nat \<Rightarrow> bool list \<Rightarrow> win_event list \<Rightarrow> byte list option \<times> win_event list" where
  "windows_receive yielder spin ys [] = (None, [])"
| "windows_receive yielder spin ys (Win_Packet b # evs) = (Some b, evs)"
| "windows_receive yielder spin ys (Win_Error # evs) = (None, evs)"
| "windows_receive yielder spin ys (Win_Again # evs) =
     (if spin < 1000 then windows_receive yielder (Suc spin) ys evs
      else if yielder then
        (case ys of
           [] \<Rightarrow> windows_receive yielder (Suc spin) [] evs
         | stop # ys \<Rightarrow> if stop then (None, evs) else windows_receive yielder (Suc spin) ys evs)
      else windows_receive yielder (Suc spin) ys evs)"

text \<open>\<open>mem\<close> is whether there is memory for the descriptor of the packet. The result is the handle of the packet and its bytes.\<close>

definition windows_read :: "bool \<Rightarrow> bool list \<Rightarrow> bool \<Rightarrow> win \<Rightarrow> ((nat \<times> byte list) option \<times> win) option" where
  "windows_read yielder ys mem w =
     (if \<not> on_session (win_session w) w then None
      else case windows_receive yielder 0 ys (win_rx w) of
        (None, evs) \<Rightarrow> Some (None, w\<lparr>win_rx := evs\<rparr>)
      | (Some b, evs) \<Rightarrow>
          let p = win_next w;
              w = w\<lparr>win_rx := evs, win_next := Suc p, win_held := win_held w @ [(p, b)]\<rparr> in
          if mem then Some (Some (p, b), w) else Some (None, w))"

definition hev_pbuf_free :: "nat \<Rightarrow> win \<Rightarrow> win option" where
  "hev_pbuf_free p w = hev_wintun_session_release (win_session w) p w"

text \<open>The copy of a chain of buffers into the packet, at the offset \<open>off\<close>; past its end is a fault.\<close>

fun copy_chain :: "byte list list \<Rightarrow> nat \<Rightarrow> byte list \<Rightarrow> (nat \<times> byte list) option" where
  "copy_chain [] off packet = Some (off, packet)"
| "copy_chain (b # bs) off packet =
     (if off + length b \<le> length packet
      then copy_chain bs (off + length b) (take off packet @ b @ drop (off + length b) packet)
      else None)"

text \<open>\<open>ring\<close> is what the memory of the send ring holds before, \<open>tot_len\<close> the length in the first buffer of the chain.\<close>

definition windows_write :: "byte list \<Rightarrow> nat \<Rightarrow> byte list list \<Rightarrow> win \<Rightarrow> (int \<times> win) option" where
  "windows_write ring tot_len bufs w =
     (if \<not> on_session (win_session w) w then None
      else
        let (r, w) = win_call w in
        if r \<noteq> 0 then Some (-1, w)
        else do {
          (off, packet) \<leftarrow> copy_chain bufs 0 (take tot_len ring);
          Some (int off, w\<lparr>win_sent := win_sent w @ [packet]\<rparr>) })"

definition windows_get_name :: "win \<Rightarrow> string" where
  "windows_get_name w = win_name w"

text \<open>The index, which the source prints into a static array; NULL is \<open>None\<close>.\<close>

definition windows_get_index :: "(nat \<Rightarrow> int) \<Rightarrow> win \<Rightarrow> (int option \<times> win) option" where
  "windows_get_index index w = do {
     (i, w) \<leftarrow> hev_wintun_adapter_get_index index (win_adapter w) w;
     Some (if i < 0 then None else Some i, w) }"

text \<open>The reading task waits for the event of the session.\<close>

definition windows_add_task :: "win \<Rightarrow> (int \<times> win) option" where
  "windows_add_task w =
     (if \<not> on_session (win_session w) w then None else let (r, w) = win_call w in Some (if r \<noteq> 0 then -1 else 0, w))"

definition windows_del_task :: "win \<Rightarrow> win option" where
  "windows_del_task w = (if \<not> on_session (win_session w) w then None else Some (snd (win_call w)))"

section \<open>What is opened is closed\<close>

text \<open>The device is open when the handles in the static variables are all there is, and closed when there is none.\<close>

definition win_opened :: "win \<Rightarrow> bool" where
  "win_opened w \<longleftrightarrow> win_libs w = {win_tun w} \<and> dom (win_adapters w) = {win_adapter w} \<and> win_sessions w = {win_session w} - {0}
     \<and> 0 < win_tun w \<and> 0 < win_adapter w \<and> win_tun w < win_next w \<and> win_adapter w < win_next w \<and> win_session w < win_next w
     \<and> (\<forall>e\<in>set (win_held w). fst e < win_next w)"

definition win_closed :: "win \<Rightarrow> bool" where
  "win_closed w \<longleftrightarrow> win_libs w = {} \<and> win_adapters w = Map.empty \<and> win_sessions w = {} \<and> 0 < win_next w \<and> (\<forall>e\<in>set (win_held w). fst e < win_next w)"

lemmas win_defs = win_opened_def loaded_def on_session_def Let_def

text \<open>A call changes the script only.\<close>

lemma win_call_eq: "win_call w = (hd (win_res w @ [0]), w\<lparr>win_res := tl (win_res w)\<rparr>)"
  by (cases "win_res w") (simp_all add: win_call_def)

lemma get_procs_eq: "\<exists>b rs. get_procs n w = (b, w\<lparr>win_res := rs\<rparr>)"
proof (induction n arbitrary: w)
  case 0
  show ?case by (intro exI [of _ True] exI [of _ "win_res w"]) simp
next
  case (Suc n)
  obtain b rs where "get_procs n (w\<lparr>win_res := tl (win_res w)\<rparr>) = (b, w\<lparr>win_res := rs\<rparr>)" using Suc [of "w\<lparr>win_res := tl (win_res w)\<rparr>"] by auto
  then show ?case by (auto simp: win_call_eq)
qed

lemma opened_res [simp]: "win_opened (w\<lparr>win_res := rs\<rparr>) \<longleftrightarrow> win_opened w" "win_closed (w\<lparr>win_res := rs\<rparr>) \<longleftrightarrow> win_closed w"
  by (simp_all add: win_opened_def win_closed_def)

lemma wintun_open_cases:
  assumes "0 < win_next w"
  obtains rs where "hev_wintun_open w = Some (0, w\<lparr>win_res := rs\<rparr>)"
  | rs where "hev_wintun_open w = Some (0, w\<lparr>win_next := Suc (win_next w), win_res := rs, win_libs := win_libs w - {win_next w}\<rparr>)"
  | rs where "hev_wintun_open w = Some (win_next w, w\<lparr>win_next := Suc (win_next w), win_libs := insert (win_next w) (win_libs w), win_res := rs\<rparr>)"
proof (cases "hd (win_res w @ [0]) = 0")
  case True
  let ?w = "w\<lparr>win_res := tl (win_res w), win_next := Suc (win_next w), win_libs := insert (win_next w) (win_libs w)\<rparr>"
  obtain b rs where g: "get_procs 10 ?w = (b, ?w\<lparr>win_res := rs\<rparr>)" using get_procs_eq by blast
  have res: "hev_wintun_open w = (if b then Some (win_next w, ?w\<lparr>win_res := rs\<rparr>) else Some (0, ?w\<lparr>win_res := rs, win_libs := win_libs w - {win_next w}\<rparr>))"
    using True g assms by (simp add: hev_wintun_open_def win_handle_def win_call_eq Let_def FreeLibrary_def)
  have o: "hev_wintun_open w = Some (win_next w, w\<lparr>win_next := Suc (win_next w), win_libs := insert (win_next w) (win_libs w), win_res := rs\<rparr>)"
    if b using that res by simp
  have "hev_wintun_open w = Some (0, w\<lparr>win_next := Suc (win_next w), win_res := rs, win_libs := win_libs w - {win_next w}\<rparr>)" if "\<not> b"
    using that res by simp
  with o show ?thesis using that(2) [of rs] that(3) [of rs] by blast
next
  case False
  then have "hev_wintun_open w = Some (0, w\<lparr>win_res := tl (win_res w)\<rparr>)" by (simp add: hev_wintun_open_def win_handle_def win_call_eq Let_def)
  then show ?thesis by (rule that(1))
qed

lemma windows_open_correct:
  assumes c: "win_closed w" "win_session w = 0" and n: "name = Some nm"
  shows "returns (windows_open wide name w) (\<lambda>(r, w'). (r = 0 \<and> win_opened w' \<or> r = -1 \<and> win_closed w') \<and> win_session w' = 0
    \<and> win_held w' = win_held w)"
proof -
  have nx: "0 < win_next w" using c(1) by (simp add: win_closed_def)
  then show ?thesis
  proof (cases rule: wintun_open_cases)
    case (1 rs)
    then show ?thesis using c by (simp add: windows_open_def win_closed_def)
  next
    case (2 rs)
    then show ?thesis using c by (auto simp: windows_open_def win_closed_def less_SucI)
  next
    case (3 rs)
    let ?w = "w\<lparr>win_next := Suc (win_next w), win_libs := insert (win_next w) (win_libs w), win_res := rs, win_tun := win_next w\<rparr>"
    have l: "loaded ?w" by (simp add: loaded_def)
    have o: "windows_open wide name w = do { (a, w) \<leftarrow> hev_wintun_adapter_create wide name ?w;
       let w = w\<lparr>win_adapter := a\<rparr>;
       if a = 0 then do { w \<leftarrow> hev_wintun_close (win_tun w) w; Some (-1, w) }
       else Some (0, w\<lparr>win_name := take (IFNAMSIZ - 1) (the name)\<rparr>) }"
      using 3 nx by (simp add: windows_open_def)
    have he: "\<forall>e\<in>set (win_held w). fst e < Suc (Suc (win_next w)) \<and> fst e < Suc (win_next w)" using c(1) by (auto simp: win_closed_def less_SucI)
    show ?thesis
    proof (cases "wide nm < 256 \<and> hd (rs @ [0]) = 0")
      case True
      then show ?thesis
        using c nx he l unfolding o unfolding n by (simp add: hev_wintun_adapter_create_def win_handle_def win_call_eq Let_def win_opened_def win_closed_def)
    next
      case False
      then show ?thesis
        using c nx he l unfolding o unfolding n
        by (cases "wide nm < 256") (auto simp: hev_wintun_adapter_create_def win_handle_def win_call_eq Let_def win_closed_def hev_wintun_close_def FreeLibrary_def)
    qed
  qed
qed

lemma windows_close_correct:
  assumes "win_opened w"
  shows "\<exists>w'. windows_close w = Some w' \<and> win_closed w' \<and> win_session w' = win_session w"
proof -
  have d: "win_adapter w \<in> dom (win_adapters w)" "(win_adapters w)(win_adapter w := None) = Map.empty"
    using assms by (auto simp: win_opened_def dom_def fun_eq_iff)
  then show ?thesis
    using assms by (cases "win_session w = 0")
      (simp_all add: windows_close_def hev_wintun_session_stop_def hev_wintun_adapter_close_def hev_wintun_close_def FreeLibrary_def
        win_defs win_closed_def)
qed

section \<open>At work\<close>

text \<open>What the tunnel does with the device between opening and closing it.\<close>

datatype win_op =
  Win_Mtu int
| Win_Ipv4 string nat
| Win_Ipv6 string nat
| Win_State int
| Win_Add_Task
| Win_Del_Task
| Win_Read bool "bool list" bool
| Win_Free nat
| Win_Write "byte list" nat "byte list list"

fun win_exec :: "(string \<Rightarrow> byte list option) \<Rightarrow> win_op \<Rightarrow> win \<Rightarrow> win option" where
  "win_exec pton (Win_Mtu m) w = map_option snd (windows_set_mtu m w)"
| "win_exec pton (Win_Ipv4 a n) w = map_option snd (windows_set_ipv4 pton a n w)"
| "win_exec pton (Win_Ipv6 a n) w = map_option snd (windows_set_ipv6 pton a n w)"
| "win_exec pton (Win_State s) w = map_option snd (windows_set_state s w)"
| "win_exec pton Win_Add_Task w = map_option snd (windows_add_task w)"
| "win_exec pton Win_Del_Task w = windows_del_task w"
| "win_exec pton (Win_Read yielder ys mem) w = map_option snd (windows_read yielder ys mem w)"
| "win_exec pton (Win_Free p) w = hev_pbuf_free p w"
| "win_exec pton (Win_Write ring n bufs) w = map_option snd (windows_write ring n bufs w)"

text \<open>The rules: one session at a time, packets only during a session, a packet is released once, and the lengths of a chain add up.\<close>

fun win_allowed :: "win_op \<Rightarrow> win \<Rightarrow> bool" where
  "win_allowed (Win_State s) w \<longleftrightarrow> (s \<noteq> 0 \<longrightarrow> win_session w = 0)"
| "win_allowed Win_Add_Task w \<longleftrightarrow> win_session w \<noteq> 0"
| "win_allowed Win_Del_Task w \<longleftrightarrow> win_session w \<noteq> 0"
| "win_allowed (Win_Read yielder ys mem) w \<longleftrightarrow> win_session w \<noteq> 0"
| "win_allowed (Win_Free p) w \<longleftrightarrow> win_session w \<noteq> 0 \<and> p \<in> fst ` set (win_held w)"
| "win_allowed (Win_Write ring n bufs) w \<longleftrightarrow> win_session w \<noteq> 0 \<and> n = sum_list (map length bufs) \<and> n \<le> length ring"
| "win_allowed _ w \<longleftrightarrow> True"

lemma set_ip_keeps:
  "win_opened w \<Longrightarrow> \<exists>r w'. hev_wintun_adapter_set_ip (win_adapter w) a n w = Some (r, w') \<and> win_opened w' \<and> win_session w' = win_session w"
  by (auto simp: hev_wintun_adapter_set_ip_def win_call_eq win_defs split: option.splits)

lemma set_mtu_keeps: "win_opened w \<Longrightarrow> \<exists>r w'. windows_set_mtu m w = Some (r, w') \<and> win_opened w'"
  by (auto simp: windows_set_mtu_def hev_wintun_adapter_set_mtu_def win_call_eq win_defs split: option.splits)

lemma set_state_keeps:
  assumes "win_opened w" "s \<noteq> 0 \<longrightarrow> win_session w = 0"
  shows "\<exists>r w'. windows_set_state s w = Some (r, w') \<and> win_opened w' \<and> (r = 0 \<longrightarrow> (win_session w' \<noteq> 0 \<longleftrightarrow> s \<noteq> 0))"
  using assms
  by (cases "s = 0"; cases "win_session w = 0")
    (auto simp: windows_set_state_def hev_wintun_session_start_def hev_wintun_session_stop_def win_handle_def win_call_eq win_defs less_SucI)

lemma copy_chain_exact:
  "length done = off \<Longrightarrow> sum_list (map length bufs) = length rest
    \<Longrightarrow> copy_chain bufs off (done @ rest) = Some (off + length rest, done @ concat bufs)"
proof (induction bufs arbitrary: off "done" rest)
  case (Cons b bufs)
  then have "copy_chain bufs (off + length b) ((done @ b) @ drop (length b) rest)
      = Some (off + length b + length (drop (length b) rest), (done @ b) @ concat bufs)"
    by (intro Cons(1)) auto
  with Cons(2,3) show ?case by simp
qed simp

section \<open>Packets\<close>

text \<open>The packets among what the driver will report.\<close>

fun packets :: "win_event list \<Rightarrow> byte list list" where
  "packets [] = []"
| "packets (Win_Packet b # evs) = b # packets evs"
| "packets (_ # evs) = packets evs"

text \<open>However long it spins or yields, a read passes over no packet.\<close>

lemma receive_no_loss:
  "windows_receive yielder spin ys evs = (p, rest) \<Longrightarrow> packets evs = (case p of None \<Rightarrow> [] | Some b \<Rightarrow> [b]) @ packets rest"
  by (induction yielder spin ys evs rule: windows_receive.induct) (auto split: if_splits list.splits)

lemma windows_read_correct:
  assumes "win_opened w" "win_session w \<noteq> 0"
  shows "\<exists>p w'. windows_read yielder ys mem w = Some (p, w') \<and> win_opened w' \<and> win_session w' = win_session w \<and> win_sent w' = win_sent w
    \<and> (\<exists>new. win_held w' = win_held w @ new \<and> length new \<le> 1 \<and> packets (win_rx w) = map snd new @ packets (win_rx w')
        \<and> (\<forall>q\<in>set (win_held w). \<forall>n\<in>set new. fst q \<noteq> fst n) \<and> p = (if mem \<and> new \<noteq> [] then Some (hd new) else None))"
proof -
  obtain p rest where r: "windows_receive yielder 0 ys (win_rx w) = (p, rest)" by force
  have s: "on_session (win_session w) w" using assms by (simp add: win_defs)
  have nl: "packets (win_rx w) = (case p of None \<Rightarrow> [] | Some b \<Rightarrow> [b]) @ packets rest" using receive_no_loss [OF r] .
  show ?thesis
  proof (cases p)
    case None
    then have "windows_read yielder ys mem w = Some (None, w\<lparr>win_rx := rest\<rparr>)" using r s by (simp add: windows_read_def)
    moreover have "win_opened (w\<lparr>win_rx := rest\<rparr>)" using assms(1) by (simp add: win_opened_def)
    ultimately show ?thesis using nl None by auto
  next
    case (Some b)
    let ?w = "w\<lparr>win_rx := rest, win_next := Suc (win_next w), win_held := win_held w @ [(win_next w, b)]\<rparr>"
    have "windows_read yielder ys mem w = Some (if mem then Some (win_next w, b) else None, ?w)"
      using r s Some by (simp add: windows_read_def Let_def)
    moreover have "win_opened ?w" "\<forall>q\<in>set (win_held w). fst q \<noteq> win_next w"
      using assms(1) by (auto simp: win_opened_def less_SucI)
    ultimately show ?thesis using nl Some by auto
  qed
qed

lemma windows_write_correct:
  assumes "win_opened w" "win_session w \<noteq> 0" "n = sum_list (map length bufs)" "n \<le> length ring"
  shows "\<exists>r w'. windows_write ring n bufs w = Some (r, w') \<and> win_opened w' \<and> win_session w' = win_session w \<and> win_rx w' = win_rx w
    \<and> win_held w' = win_held w
    \<and> (r = -1 \<and> win_sent w' = win_sent w \<or> r = int n \<and> win_sent w' = win_sent w @ [concat bufs])"
proof -
  have "copy_chain bufs 0 (take n ring) = Some (n, concat bufs)"
    using copy_chain_exact [of "[]" 0 bufs "take n ring"] assms(3,4) by simp
  moreover have "win_opened (w\<lparr>win_res := tl (win_res w), win_sent := win_sent w @ [concat bufs]\<rparr>)" using assms(1) by (simp add: win_opened_def)
  ultimately show ?thesis
    using assms(1,2) by (cases "hd (win_res w @ [0]) = 0") (simp_all add: windows_write_def win_call_eq win_defs)
qed

lemma pbuf_free_correct:
  assumes "win_opened w" "win_session w \<noteq> 0" "p \<in> fst ` set (win_held w)"
  shows "\<exists>w'. hev_pbuf_free p w = Some w' \<and> win_opened w' \<and> win_held w' = filter (\<lambda>e. fst e \<noteq> p) (win_held w)"
  using assms by (auto simp: hev_pbuf_free_def hev_wintun_session_release_def win_defs)

lemma win_exec_keeps:
  assumes o: "win_opened w" and a: "win_allowed op w"
  shows "returns (win_exec pton op w) win_opened"
proof (cases op)
  case (Win_Mtu m)
  then show ?thesis using set_mtu_keeps [OF o, of m] by (auto simp: returns_def)
next
  case (Win_Ipv4 ad n)
  then show ?thesis
    using o set_ip_keeps [OF o] by (auto simp: returns_def windows_set_ipv4_def hev_wintun_adapter_set_ipv4_def split: option.splits)
      (metis snd_conv)
next
  case (Win_Ipv6 ad n)
  then show ?thesis
    using o set_ip_keeps [OF o] by (auto simp: returns_def windows_set_ipv6_def hev_wintun_adapter_set_ipv6_def split: option.splits)
      (metis snd_conv)
next
  case (Win_State s)
  then show ?thesis using set_state_keeps [OF o, of s] a by (auto simp: returns_def)
next
  case Win_Add_Task
  then show ?thesis using o a by (simp add: windows_add_task_def win_call_eq on_session_def loaded_def Let_def win_opened_def)
next
  case Win_Del_Task
  then show ?thesis using o a by (simp add: windows_del_task_def win_call_eq on_session_def loaded_def Let_def win_opened_def)
next
  case (Win_Read y ys mem)
  then show ?thesis using windows_read_correct [OF o, of y ys mem] a by (auto simp: returns_def)
next
  case (Win_Free p)
  then show ?thesis using pbuf_free_correct [OF o, of p] a by (auto simp: returns_def)
next
  case (Win_Write ring n bufs)
  then show ?thesis using windows_write_correct [OF o, of n bufs ring] a by (auto simp: returns_def)
qed

fun win_run :: "(string \<Rightarrow> byte list option) \<Rightarrow> win_op list \<Rightarrow> win \<Rightarrow> win option" where
  "win_run pton [] w = Some w"
| "win_run pton (op # ops) w = do { w \<leftarrow> win_exec pton op w; win_run pton ops w }"

fun win_all_allowed :: "(string \<Rightarrow> byte list option) \<Rightarrow> win_op list \<Rightarrow> win \<Rightarrow> bool" where
  "win_all_allowed pton [] w \<longleftrightarrow> True"
| "win_all_allowed pton (op # ops) w \<longleftrightarrow> win_allowed op w \<and> (\<forall>w'. win_exec pton op w = Some w' \<longrightarrow> win_all_allowed pton ops w')"

lemma win_run_keeps: "win_opened w \<Longrightarrow> win_all_allowed pton ops w \<Longrightarrow> returns (win_run pton ops w) win_opened"
proof (induction ops arbitrary: w)
  case (Cons op ops)
  have "returns (win_exec pton op w) win_opened" using Cons(2,3) by (intro win_exec_keeps) auto
  then show ?case unfolding win_run.simps returns_bind using Cons(1,3) by (auto elim!: returns_mono)
qed simp

section \<open>Theorems\<close>

text \<open>
  C32. On Windows, from a first start, opening a named device gives it or fails and leaves nothing behind, whatever the driver answers. If it was opened, any sequence of
  settings, starts and stops of the session, reads, releases and writes within the rules (one session at a time, packets only during a session, a packet is released once, the
  lengths of a chain add up and fit) uses no handle that is not open and copies nothing past a packet, and closing the device then ends the session, closes
  the adapter and unloads the library.
\<close>

theorem windows_balanced:
  assumes "win_closed w" "win_session w = 0"
  shows "\<exists>r w1. windows_open wide (Some name) w = Some (r, w1)
    \<and> (r = -1 \<and> win_closed w1
       \<or> r = 0 \<and> (\<forall>ops. win_all_allowed pton ops w1 \<longrightarrow>
           (\<exists>w2 w3. win_run pton ops w1 = Some w2 \<and> windows_close w2 = Some w3 \<and> win_closed w3)))"
proof -
  obtain r w1 where o: "windows_open wide (Some name) w = Some (r, w1)" "r = 0 \<and> win_opened w1 \<or> r = -1 \<and> win_closed w1"
    using windows_open_correct [OF assms refl, of wide name] by (auto simp: returns_def)
  have "\<exists>w2 w3. win_run pton ops w1 = Some w2 \<and> windows_close w2 = Some w3 \<and> win_closed w3"
    if "win_opened w1" "win_all_allowed pton ops w1" for ops
    using win_run_keeps [OF that] windows_close_correct by (fastforce simp: returns_def)
  with o show ?thesis by blast
qed

definition win0 :: win where
  "win0 = \<lparr>win_tun = 0, win_adapter = 0, win_session = 0, win_name = [], win_next = 1, win_libs = {}, win_adapters = Map.empty,
     win_sessions = {}, win_rx = [Win_Packet [7]], win_held = [], win_sent = [], win_res = []\<rparr>"

definition win_ops0 :: "win_op list" where
  "win_ops0 = [Win_State 1, Win_Read True [] True, Win_Free 4, Win_Write [0, 0] 2 [[1], [2]]]"

lemma win0_open: "\<exists>w1. windows_open length (Some ''tun7'') win0 = Some (0, w1) \<and> win_all_allowed (\<lambda>_. None) win_ops0 w1"
  by (simp add: win0_def win_ops0_def windows_open_def hev_wintun_open_def win_handle_def win_call_def hev_wintun_adapter_create_def loaded_def
      windows_set_state_def hev_wintun_session_start_def windows_read_def on_session_def hev_pbuf_free_def hev_wintun_session_release_def Let_def
      eval_nat_numeral)

theorem windows_balanced_witness:
  "\<exists>w1 w2 w3. windows_open length (Some ''tun7'') win0 = Some (0, w1) \<and> win_run (\<lambda>_. None) win_ops0 w1 = Some w2
    \<and> windows_close w2 = Some w3 \<and> win_closed w3"
proof -
  have "win_closed win0" "win_session win0 = 0" by (auto simp: win_closed_def win0_def)
  then show ?thesis using windows_balanced [of win0 length "''tun7''" "\<lambda>_. None"] win0_open by auto
qed

text \<open>
  Packets: a write sends the bytes of the chain as one packet or nothing, and a read returns the next packet, whose memory is held until it is released, or nothing; but
  if there is no memory for its descriptor, the packet is lost and its place in the ring is never given back.
\<close>

theorem windows_packets:
  assumes "win_opened w" "win_session w \<noteq> 0"
  shows "(n = sum_list (map length bufs) \<longrightarrow> n \<le> length ring \<longrightarrow> (\<exists>r w'. windows_write ring n bufs w = Some (r, w')
      \<and> (r = -1 \<and> win_sent w' = win_sent w \<or> r = int n \<and> win_sent w' = win_sent w @ [concat bufs])))
    \<and> (\<exists>p w'. windows_read yielder ys mem w = Some (p, w') \<and> (\<exists>new. win_held w' = win_held w @ new
        \<and> packets (win_rx w) = map snd new @ packets (win_rx w') \<and> p = (if mem \<and> new \<noteq> [] then Some (hd new) else None)))"
  using windows_write_correct [OF assms, of n bufs ring] windows_read_correct [OF assms, of yielder ys mem] by blast

text \<open>
  Closing leaves the pointer to the session that it ended. After the device has been opened again, a close before the next session starts ends that session a second time.
\<close>

theorem windows_stale_session:
  assumes "win_opened w" "win_session w \<noteq> 0" "windows_close w = Some w1" "windows_open wide name w1 = Some (0, w2)"
  shows "windows_close w2 = None"
proof -
  have c: "win_closed w1" "win_session w1 = win_session w" using windows_close_correct [OF assms(1)] assms(3) by auto
  have nx: "0 < win_next w1" using c(1) by (simp add: win_closed_def)
  have "win_sessions w2 = {} \<and> win_session w2 = win_session w1"
    using assms(4) c(1) nx
    by (cases rule: wintun_open_cases [OF nx])
      (auto simp: windows_open_def hev_wintun_adapter_create_def win_handle_def win_call_eq Let_def win_closed_def hev_wintun_close_def
        split: option.splits if_splits Option.bind_splits)
  then show ?thesis
    using assms(2) c(2) by (simp add: windows_close_def hev_wintun_session_stop_def on_session_def)
qed

end
