(* ===== verification/Tunnel_Life.thy ===== *)
theory Tunnel_Life
  imports Tunnel_Device
begin

text \<open>
  From start to stop (\<open>hev-socks5-tunnel.c\<close>, \<open>hev-main.c\<close>, \<open>hev-jni.c\<close>): what the tunnel acquires when it starts, what
  it gives back when it ends or fails to start, and the two entry points of the Java side. The state is that of the program's static variables
  with what they refer to: descriptors and devices, control blocks of the TCP/IP stack, task objects.
\<close>

section \<open>State\<close>

record tunnel_stats =
  stat_tx_packets :: "64 word"
  stat_rx_packets :: "64 word"
  stat_tx_bytes :: "64 word"
  stat_rx_bytes :: "64 word"

text \<open>
  Pointers to control blocks are serial numbers, \<open>None\<close> for \<open>NULL\<close>; \<open>tn_pcbs\<close> are the blocks that are allocated. \<open>tn_tasks\<close>
  counts the references to task objects.
\<close>

record tunnel = device +
  tn_fd :: int
  tn_local :: bool
  tn_event0 :: int
  tn_event1 :: int
  tn_netif :: bool
  tn_tcp :: "nat option"
  tn_udp :: "nat option"
  tn_task_event :: bool
  tn_task_io :: bool
  tn_task_timer :: bool
  tn_dns :: "hev_mapped_dns option"
  tn_stats :: tunnel_stats
  tn_pcbs :: "nat list"
  tn_serial :: nat
  tn_tasks :: int
  tn_scripts :: "(string \<times> string \<times> bool) list"
  tn_log :: int
  tn_socks5_log :: int

definition pcb_new :: "tunnel \<Rightarrow> nat option \<times> tunnel" where
  "pcb_new w = (let (r, w) = dev_res w in
     if r < 0 then (None, w)
     else (Some (tn_serial w), w\<lparr>tn_pcbs := tn_serial w # tn_pcbs w, tn_serial := Suc (tn_serial w)\<rparr>))"

text \<open>\<open>udp_remove\<close> and \<open>tcp_close\<close> of a listening block: \<open>NULL\<close> is ignored, a block that is not allocated is freed twice.\<close>

definition pcb_remove :: "nat option \<Rightarrow> tunnel \<Rightarrow> tunnel option" where
  "pcb_remove p w = (case p of
      None \<Rightarrow> Some w
    | Some n \<Rightarrow> if n \<in> set (tn_pcbs w) then Some (w\<lparr>tn_pcbs := remove1 n (tn_pcbs w)\<rparr>) else None)"

section \<open>The device\<close>

definition hev_exec_run :: "string \<Rightarrow> string \<Rightarrow> bool \<Rightarrow> tunnel \<Rightarrow> tunnel" where
  "hev_exec_run path nm wait w =
     (let (pid, w) = dev_res w in if pid < 0 then w else w\<lparr>tn_scripts := tn_scripts w @ [(path, nm, wait)]\<rparr>)"

definition run_script :: "string option \<Rightarrow> bool \<Rightarrow> tunnel \<Rightarrow> tunnel" where
  "run_script path wait w = (case path of None \<Rightarrow> w | Some p \<Rightarrow> hev_exec_run p (hev_tunnel_get_name w) wait w)"

text \<open>An optional setting: nothing to do without a value.\<close>

definition if_set :: "string option \<Rightarrow> (string \<Rightarrow> tunnel \<Rightarrow> int \<times> tunnel) \<Rightarrow> tunnel \<Rightarrow> int \<times> tunnel" where
  "if_set a f w = (case a of None \<Rightarrow> (0, w) | Some s \<Rightarrow> f s w)"

text \<open>
  The parameters \<open>pton4\<close>, \<open>pton6\<close> are \<open>inet_pton\<close>; \<open>picked\<close> is the name that the kernel picks.
\<close>

record platform =
  pton4 :: "string \<Rightarrow> byte list option"
  pton6 :: "string \<Rightarrow> byte list option"
  picked :: string

text \<open>One setting after the other, up to the first that fails.\<close>

definition and_then :: "(tunnel \<Rightarrow> int \<times> tunnel) \<Rightarrow> (tunnel \<Rightarrow> int \<times> tunnel) \<Rightarrow> tunnel \<Rightarrow> int \<times> tunnel" where
  "and_then f g w = (let (res, w) = f w in if res < 0 then (-1, w) else g w)"

definition tunnel_settings :: "platform \<Rightarrow> hev_config \<Rightarrow> tunnel \<Rightarrow> int \<times> tunnel" where
  "tunnel_settings pl c =
     and_then (hev_tunnel_set_mtu (sint (hev_config_get_tunnel_mtu c)))
    (and_then (if_set (hev_config_get_tunnel_ipv4_address c) (\<lambda>a. hev_tunnel_set_ipv4 (pton4 pl) a 32))
    (and_then (if_set (hev_config_get_tunnel_ipv6_address c) (\<lambda>a. hev_tunnel_set_ipv6 (pton6 pl) a 128))
              (hev_tunnel_set_state 1)))"

definition tunnel_init :: "platform \<Rightarrow> hev_config \<Rightarrow> int \<Rightarrow> tunnel \<Rightarrow> int \<times> tunnel" where
  "tunnel_init pl c extern_tun_fd w =
     (if extern_tun_fd \<ge> 0 then
        let (res, w) = dev_res w in
        if res < 0 then (-1, w) else (0, w\<lparr>tn_fd := extern_tun_fd\<rparr>)
      else
        let (fd, w) = hev_tunnel_open (picked pl) (hev_config_get_tunnel_name c) (hev_config_get_tunnel_multi_queue c) w;
            w = w\<lparr>tn_fd := fd\<rparr> in
        if fd < 0 then (-1, w)
        else let (res, w) = tunnel_settings pl c w in
        if res < 0 then (-1, w)
        else (0, (run_script (hev_config_get_tunnel_post_up_script c) False w)\<lparr>tn_local := True\<rparr>))"

definition tunnel_fini :: "hev_config \<Rightarrow> tunnel \<Rightarrow> tunnel" where
  "tunnel_fini c w =
     (if \<not> tn_local w then w
      else let w = run_script (hev_config_get_tunnel_pre_down_script c) True w in
        (hev_tunnel_close (tn_fd w) w)\<lparr>tn_local := False, tn_fd := -1\<rparr>)"

section \<open>The gateway\<close>

text \<open>
  The control blocks are used without a test for \<open>NULL\<close> (\<open>None\<close>). \<open>tcp_listen\<close> makes a block of its own and frees the
  first one, or returns \<open>NULL\<close>.
\<close>

definition tcp_listen :: "nat option \<Rightarrow> tunnel \<Rightarrow> (nat option \<times> tunnel) option" where
  "tcp_listen p w =
     (let (l, w) = pcb_new w in
      case l of None \<Rightarrow> Some (None, w)
      | Some n \<Rightarrow> do { w \<leftarrow> pcb_remove p w; Some (Some n, w) })"

definition gateway_init :: "tunnel \<Rightarrow> (int \<times> tunnel) option" where
  "gateway_init w =
     (let w = w\<lparr>tn_netif := True\<rparr>;
          (p, w) = pcb_new w in
      case p of None \<Rightarrow> None
      | Some _ \<Rightarrow> do {
          (l, w) \<leftarrow> tcp_listen p w;
          let w = w\<lparr>tn_tcp := l\<rparr>;
          let (u, w) = pcb_new w;
          case u of None \<Rightarrow> None | Some _ \<Rightarrow> Some (0, w\<lparr>tn_udp := u\<rparr>) })"

definition gateway_fini :: "tunnel \<Rightarrow> tunnel option" where
  "gateway_fini w = do {
     w \<leftarrow> pcb_remove (tn_udp w) w;
     w \<leftarrow> pcb_remove (tn_tcp w) w;
     Some (w\<lparr>tn_netif := False\<rparr>) }"

section \<open>The tasks\<close>

definition hev_task_new :: "tunnel \<Rightarrow> bool \<times> tunnel" where
  "hev_task_new w = (let (r, w) = dev_res w in if r < 0 then (False, w) else (True, w\<lparr>tn_tasks := tn_tasks w + 1\<rparr>))"

definition hev_task_unref :: "tunnel \<Rightarrow> tunnel" where
  "hev_task_unref w = w\<lparr>tn_tasks := tn_tasks w - 1\<rparr>"

definition sys_socketpair :: "tunnel \<Rightarrow> int \<times> int \<times> int \<times> tunnel" where
  "sys_socketpair w =
     (let (r, w) = dev_res w in
      if r < 0 then (-1, 0, 0, w)
      else let s = dv_sys w; a = fresh_fd (open_fds s); b = fresh_fd (a # open_fds s) in
        (0, a, b, w\<lparr>dv_sys := s\<lparr>open_fds := b # a # open_fds s\<rparr>\<rparr>))"

definition event_task_init :: "tunnel \<Rightarrow> int \<times> tunnel" where
  "event_task_init w =
     (let (res, a, b, w) = sys_socketpair w in
      if res < 0 then (-1, w)
      else let w = w\<lparr>tn_event0 := a, tn_event1 := b\<rparr>;
               (res, w) = dev_res w in
      if res < 0 then (-1, w)
      else let (ok, w) = hev_task_new w; w = w\<lparr>tn_task_event := ok\<rparr> in
      if \<not> ok then (-1, w) else (0, w))"

definition event_task_fini :: "tunnel \<Rightarrow> tunnel" where
  "event_task_fini w =
     (let w = (if tn_task_event w then (hev_task_unref w)\<lparr>tn_task_event := False\<rparr> else w);
          w = (if tn_event0 w \<ge> 0 then (dev_close (tn_event0 w) w)\<lparr>tn_event0 := -1\<rparr> else w) in
      if tn_event1 w \<ge> 0 then (dev_close (tn_event1 w) w)\<lparr>tn_event1 := -1\<rparr> else w)"

definition lwip_io_task_init :: "tunnel \<Rightarrow> int \<times> tunnel" where
  "lwip_io_task_init w = (let (ok, w) = hev_task_new w; w = w\<lparr>tn_task_io := ok\<rparr> in if \<not> ok then (-1, w) else (0, w))"

definition lwip_io_task_fini :: "tunnel \<Rightarrow> tunnel" where
  "lwip_io_task_fini w = (if tn_task_io w then (hev_task_unref w)\<lparr>tn_task_io := False\<rparr> else w)"

definition lwip_timer_task_init :: "tunnel \<Rightarrow> int \<times> tunnel" where
  "lwip_timer_task_init w = (let (ok, w) = hev_task_new w; w = w\<lparr>tn_task_timer := ok\<rparr> in if \<not> ok then (-1, w) else (0, w))"

definition lwip_timer_task_fini :: "tunnel \<Rightarrow> tunnel" where
  "lwip_timer_task_fini w = (if tn_task_timer w then (hev_task_unref w)\<lparr>tn_task_timer := False\<rparr> else w)"

definition mapped_dns_init :: "hev_config \<Rightarrow> tunnel \<Rightarrow> int \<times> tunnel" where
  "mapped_dns_init c w =
     (let size = hev_config_get_mapdns_cache_size c in
      if size = 0 then (0, w)
      else let (r, w) = dev_res w in
      case hev_mapped_dns_new (0 \<le> r) (hev_config_get_mapdns_network c) (hev_config_get_mapdns_netmask c) size of
        None \<Rightarrow> (-1, w)
      | Some dns \<Rightarrow> (0, w\<lparr>tn_dns := Some dns\<rparr>))"

definition mapped_dns_fini :: "tunnel \<Rightarrow> tunnel option" where
  "mapped_dns_fini w = (case tn_dns w of
      None \<Rightarrow> Some w
    | Some dns \<Rightarrow> do { hev_mapped_dns_destruct dns; Some (w\<lparr>tn_dns := None\<rparr>) })"

section \<open>Start and end of the tunnel\<close>

definition hev_socks5_tunnel_fini :: "hev_config \<Rightarrow> tunnel \<Rightarrow> tunnel option" where
  "hev_socks5_tunnel_fini c w = do {
     w \<leftarrow> mapped_dns_fini w;
     let w = event_task_fini (lwip_io_task_fini (lwip_timer_task_fini w));
     w \<leftarrow> gateway_fini w;
     let w = tunnel_fini c w;
     Some (w\<lparr>tn_stats := \<lparr>stat_tx_packets = 0, stat_rx_packets = 0, stat_tx_bytes = 0, stat_rx_bytes = 0\<rparr>\<rparr>) }"

text \<open>The steps of the initialisation in order, up to the first that fails.\<close>

fun init_steps :: "(tunnel \<Rightarrow> (int \<times> tunnel) option) list \<Rightarrow> tunnel \<Rightarrow> (int \<times> tunnel) option" where
  "init_steps [] w = Some (0, w)"
| "init_steps (f # fs) w = do { (res, w) \<leftarrow> f w; if res < 0 then Some (-1, w) else init_steps fs w }"

definition tunnel_steps :: "platform \<Rightarrow> hev_config \<Rightarrow> int \<Rightarrow> (tunnel \<Rightarrow> (int \<times> tunnel) option) list" where
  "tunnel_steps pl c fd = [Some \<circ> tunnel_init pl c fd, gateway_init, Some \<circ> event_task_init, Some \<circ> lwip_io_task_init,
     Some \<circ> lwip_timer_task_init, Some \<circ> mapped_dns_init c]"

definition hev_socks5_tunnel_init :: "platform \<Rightarrow> hev_config \<Rightarrow> int \<Rightarrow> tunnel \<Rightarrow> (int \<times> tunnel) option" where
  "hev_socks5_tunnel_init pl c fd w = do {
     (res, w) \<leftarrow> init_steps (tunnel_steps pl c fd) w;
     if res < 0 then do { w \<leftarrow> hev_socks5_tunnel_fini c w; Some (-1, w) } else Some (0, w) }"

section \<open>Packets\<close>

text \<open>
  The task that reads the device: \<open>reads\<close> are the results of \<open>hev_tunnel_read\<close> while \<open>run\<close> holds, \<open>None\<close> where no packet came. The
  result are the packets handed to the stack.
\<close>

fun lwip_io_loop :: "byte list option list \<Rightarrow> tunnel \<Rightarrow> byte list list \<times> tunnel" where
  "lwip_io_loop [] w = ([], w)"
| "lwip_io_loop (None # reads) w = lwip_io_loop reads w"
| "lwip_io_loop (Some b # reads) w =
     (let s = tn_stats w;
          w = w\<lparr>tn_stats := s\<lparr>stat_tx_packets := stat_tx_packets s + 1, stat_tx_bytes := stat_tx_bytes s + of_nat (length b)\<rparr>\<rparr>;
          (ps, w) = lwip_io_loop reads w in (b # ps, w))"

definition lwip_io_task_entry :: "byte list option list \<Rightarrow> tunnel \<Rightarrow> byte list list \<times> tunnel" where
  "lwip_io_task_entry reads w =
     (let (res, w) = hev_tunnel_add_task (tn_fd w) w;
          (ps, w) = lwip_io_loop reads w in
      (ps, hev_tunnel_del_task (tn_fd w) w))"

text \<open>A packet of the stack, a chain of buffers, as it is written to the device: at most 512 of them.\<close>

definition hev_tunnel_write :: "byte list list \<Rightarrow> byte list" where
  "hev_tunnel_write p = (case p of [b] \<Rightarrow> b | _ \<Rightarrow> concat (take 512 p))"

text \<open>\<open>s\<close> and \<open>again\<close>: the result of the write and whether \<open>errno\<close> is \<open>EAGAIN\<close>.\<close>

definition netif_output_handler :: "int \<Rightarrow> bool \<Rightarrow> tunnel \<Rightarrow> err_t \<times> tunnel" where
  "netif_output_handler s again w =
     (if s \<le> 0 then (if again then ERR_WOULDBLOCK else ERR_IF, w)
      else let old = tn_stats w in
        (ERR_OK, w\<lparr>tn_stats := old\<lparr>stat_rx_packets := stat_rx_packets old + 1, stat_rx_bytes := stat_rx_bytes old + of_int s\<rparr>\<rparr>))"

definition hev_socks5_tunnel_stats :: "tunnel \<Rightarrow> tunnel_stats" where
  "hev_socks5_tunnel_stats w = tn_stats w"

section \<open>The program\<close>

text \<open>Both loggers make a descriptor of their own, by \<open>dup\<close> or \<open>open\<close>.\<close>

definition hev_logger_init :: "tunnel \<Rightarrow> int \<times> tunnel" where
  "hev_logger_init w = (let (fd, w) = dev_socket w in (if fd < 0 then -1 else 0, w\<lparr>tn_log := fd\<rparr>))"

definition hev_logger_fini :: "tunnel \<Rightarrow> tunnel" where
  "hev_logger_fini w = dev_close (tn_log w) w"

definition hev_socks5_logger_init :: "tunnel \<Rightarrow> int \<times> tunnel" where
  "hev_socks5_logger_init w = (let (fd, w) = dev_socket w in (if fd < 0 then -1 else 0, w\<lparr>tn_socks5_log := fd\<rparr>))"

definition hev_socks5_logger_fini :: "tunnel \<Rightarrow> tunnel" where
  "hev_socks5_logger_fini w = dev_close (tn_socks5_log w) w"

definition set_limit_nofile :: "tunnel \<Rightarrow> int \<times> tunnel" where
  "set_limit_nofile w =
     (let (res, w) = dev_res w in
      if res < 0 then (-1, w)
      else let (res, w) = dev_res w in
      if res < 0 then (-1, w)
      else dev_res w)"

definition run_as_daemon :: "tunnel \<Rightarrow> tunnel" where
  "run_as_daemon w =
     (let (fp, w) = dev_socket w in
      if fp < 0 then w
      else dev_close fp (snd (dev_res w)))"

definition config_settings :: "hev_config \<Rightarrow> tunnel \<Rightarrow> tunnel" where
  "config_settings c w = w\<lparr>dv_sys :=
     hev_socks5_set_udp_recv_buffer_size (hev_config_get_misc_udp_recv_buffer_size c)
    (hev_socks5_set_udp_timeout (hev_config_get_misc_udp_read_write_timeout c)
    (hev_socks5_set_tcp_timeout (hev_config_get_misc_tcp_read_write_timeout c)
    (hev_socks5_set_connect_timeout (hev_config_get_misc_connect_timeout c) (dv_sys w))))\<rparr>"

text \<open>
  Each of the three tasks runs with a reference of its own; \<open>tasks\<close> is what they, and the scheduler, do to the state until the last of
  them has ended.
\<close>

definition hev_socks5_tunnel_run :: "(tunnel \<Rightarrow> tunnel option) \<Rightarrow> tunnel \<Rightarrow> tunnel option" where
  "hev_socks5_tunnel_run tasks w = tasks (w\<lparr>tn_tasks := tn_tasks w + 3\<rparr>)"

text \<open>
  The main function. Of the task system and of the initialisation of the stack only the result is taken (the descriptor the task system polls with is not among those
  of the state), and \<open>hev_config_fini\<close>, whose body is empty, has no counterpart.
\<close>

definition hev_socks5_tunnel_main_inner ::
  "platform \<Rightarrow> hev_config \<Rightarrow> (tunnel \<Rightarrow> tunnel option) \<Rightarrow> int \<Rightarrow> tunnel \<Rightarrow> (int \<times> tunnel) option" where
  "hev_socks5_tunnel_main_inner pl c tasks tun_fd w =
     (let (res, w) = hev_logger_init (config_settings c w) in
      if res < 0 then Some (-2, w)
      else let (res, w) = hev_socks5_logger_init w in
      if res < 0 then Some (-3, w)
      else let w = snd (set_limit_nofile w);
               w = (case hev_config_get_misc_pid_file c of None \<Rightarrow> w | Some _ \<Rightarrow> run_as_daemon w);
               (res, w) = dev_res w in
      if res < 0 then Some (-4, w)
      else do {
        (res, w) \<leftarrow> hev_socks5_tunnel_init pl c tun_fd w;
        if res < 0 then Some (-5, w)
        else do {
          w \<leftarrow> hev_socks5_tunnel_run tasks w;
          w \<leftarrow> hev_socks5_tunnel_fini c w;
          Some (0, hev_logger_fini (hev_socks5_logger_fini w)) } })"

text \<open>
  The stop waits for the descriptor of the event socket to appear: \<open>seen i\<close> is the value of \<open>event_fds[1]\<close> when it looks for the \<open>i\<close>-th
  time. Then it writes to it, and asserts that this works.
\<close>

partial_function (option) stop_wait :: "(nat \<Rightarrow> int) \<Rightarrow> nat \<Rightarrow> int option" where
  "stop_wait seen i = (if seen i \<ge> 0 then Some (seen i) else stop_wait seen (Suc i))"

definition hev_socks5_tunnel_stop :: "(nat \<Rightarrow> int) \<Rightarrow> int \<Rightarrow> int option" where
  "hev_socks5_tunnel_stop seen res = do { fd \<leftarrow> stop_wait seen 0; if 0 < res then Some fd else None }"

text \<open>The entry points for the application: the state is \<open>is_working\<close>; starting depends on whether the thread can be created.\<close>

definition native_start_service :: "bool \<Rightarrow> bool \<Rightarrow> bool" where
  "native_start_service created is_working = (is_working \<or> created)"

definition native_stop_service :: "(nat \<Rightarrow> int) \<Rightarrow> int \<Rightarrow> bool \<Rightarrow> bool option" where
  "native_stop_service seen res is_working =
     (if \<not> is_working then Some is_working
      else do { hev_socks5_tunnel_stop seen res; Some False })"

section \<open>What is owned\<close>

lemma dev_close_open [simp]: "open_set (dev_close fd w) = open_set w - {fd}"
  by (auto simp: dev_close_def sys_close_def split: option.split)

text \<open>The device's operations do not touch the rest of the state.\<close>

lemma more_fields:
  fixes w w' :: tunnel
  assumes "device.more w' = device.more w"
  shows "tn_fd w' = tn_fd w" "tn_local w' = tn_local w" "tn_event0 w' = tn_event0 w" "tn_event1 w' = tn_event1 w" "tn_tcp w' = tn_tcp w"
    "tn_udp w' = tn_udp w" "tn_task_event w' = tn_task_event w" "tn_task_io w' = tn_task_io w" "tn_task_timer w' = tn_task_timer w"
    "tn_dns w' = tn_dns w" "tn_pcbs w' = tn_pcbs w" "tn_serial w' = tn_serial w" "tn_tasks w' = tn_tasks w"
    "tn_log w' = tn_log w" "tn_socks5_log w' = tn_socks5_log w"
  using assms by (cases w; cases w'; simp)+

lemma dev_close_more: "device.more (dev_close fd w) = device.more w"
  by (simp add: dev_close_def split: option.split)

lemma dev_res_more: "device.more (snd (dev_res w)) = device.more w" "open_set (snd (dev_res w)) = open_set w"
  "dv_nics (snd (dev_res w)) = dv_nics w" "dv_name (snd (dev_res w)) = dv_name w" "dv_tuns (snd (dev_res w)) = dv_tuns w"
  by (simp_all add: dev_res_def split_beta Let_def)

lemmas tn_fields [simp] = more_fields [OF dev_close_more] more_fields [OF dev_res_more(1)] dev_res_more(2-)

text \<open>The descriptors that the static variables name, besides those given from outside.\<close>

definition own_fds :: "tunnel \<Rightarrow> int list" where
  "own_fds w = (if tn_local w then [tn_fd w] else []) @ filter (\<lambda>f. 0 \<le> f) [tn_event0 w, tn_event1 w]"

definition own_pcbs :: "tunnel \<Rightarrow> nat list" where
  "own_pcbs w = (case tn_tcp w of None \<Rightarrow> [] | Some p \<Rightarrow> [p]) @ (case tn_udp w of None \<Rightarrow> [] | Some p \<Rightarrow> [p])"

definition own_tasks :: "tunnel \<Rightarrow> int" where
  "own_tasks w = of_bool (tn_task_event w) + of_bool (tn_task_io w) + of_bool (tn_task_timer w)"

text \<open>
  \<open>owned L w0 w\<close>: what has been acquired since \<open>w0\<close> is what the static variables of \<open>w\<close> name, and the blocks \<open>L\<close> that nothing names.
\<close>

definition owned :: "nat set \<Rightarrow> tunnel \<Rightarrow> tunnel \<Rightarrow> bool" where
  "owned L w0 w \<longleftrightarrow>
     open_set w = open_set w0 \<union> set (own_fds w) \<and> set (own_fds w) \<inter> open_set w0 = {} \<and> distinct (own_fds w)
   \<and> tn_tasks w = tn_tasks w0 + own_tasks w
   \<and> set (tn_pcbs w) = set (tn_pcbs w0) \<union> L \<union> set (own_pcbs w) \<and> set (own_pcbs w) \<inter> (set (tn_pcbs w0) \<union> L) = {}
   \<and> distinct (own_pcbs w) \<and> distinct (tn_pcbs w) \<and> (\<forall>p\<in>set (tn_pcbs w). p < tn_serial w)
   \<and> (\<forall>d. tn_dns w = Some d \<longrightarrow> (\<exists>cs. dns_inv d cs))"

text \<open>Before the first start.\<close>

definition idle :: "tunnel \<Rightarrow> bool" where
  "idle w \<longleftrightarrow> \<not> tn_local w \<and> tn_event0 w = -1 \<and> tn_event1 w = -1 \<and> tn_tcp w = None \<and> tn_udp w = None
     \<and> \<not> tn_task_event w \<and> \<not> tn_task_io w \<and> \<not> tn_task_timer w \<and> tn_dns w = None
     \<and> dev_inv w \<and> distinct (tn_pcbs w) \<and> (\<forall>p\<in>set (tn_pcbs w). p < tn_serial w)"

lemmas owns = own_fds_def own_pcbs_def own_tasks_def

lemma idle_owned: "idle w \<Longrightarrow> owned {} w w"
  by (simp add: idle_def owned_def owns)

lemma owned_cong:
  assumes "owned L w0 w" "open_set w' = open_set w" "own_fds w' = own_fds w" "tn_tasks w' - own_tasks w' = tn_tasks w - own_tasks w"
    "tn_pcbs w' = tn_pcbs w" "tn_serial w' = tn_serial w" "own_pcbs w' = own_pcbs w" "tn_dns w' = tn_dns w"
  shows "owned L w0 w'"
  using assms by (simp add: owned_def)

lemma event_task_fini_owned:
  assumes "owned L w0 w"
  shows "owned L w0 (event_task_fini w)" "tn_event0 (event_task_fini w) < 0" "tn_event1 (event_task_fini w) < 0"
    "\<not> tn_task_event (event_task_fini w)"
  using assms by (auto simp: owned_def owns event_task_fini_def hev_task_unref_def Let_def)

lemma task_fini_owned:
  assumes "owned L w0 w"
  shows "owned L w0 (lwip_io_task_fini w)" "owned L w0 (lwip_timer_task_fini w)"
  by (rule owned_cong [OF assms]; simp add: owns lwip_io_task_fini_def lwip_timer_task_fini_def hev_task_unref_def)+

lemma gateway_fini_owned:
  assumes "owned L w0 w"
  shows "\<exists>w'. gateway_fini w = Some w' \<and> set (tn_pcbs w') = set (tn_pcbs w0) \<union> L - set (own_pcbs w)
    \<and> w' = w\<lparr>tn_pcbs := tn_pcbs w', tn_netif := False\<rparr>"
  using assms
  by (cases "tn_udp w"; cases "tn_tcp w") (auto simp: owned_def own_pcbs_def gateway_fini_def pcb_remove_def)

lemma mapped_dns_fini_owned:
  assumes "owned L w0 w"
  shows "\<exists>w'. mapped_dns_fini w = Some w' \<and> w' = w\<lparr>tn_dns := None\<rparr>"
proof (cases "tn_dns w")
  case (Some d)
  then obtain cs where "dns_inv d cs" using assms by (auto simp: owned_def)
  then obtain d' where "hev_mapped_dns_destruct d = Some d'" using hev_mapped_dns_destruct_frees by blast
  then show ?thesis using Some by (simp add: mapped_dns_fini_def)
qed (simp add: mapped_dns_fini_def)

lemma run_script_keeps [simp]:
  "open_set (run_script p b w) = open_set w" "tn_fd (run_script p b w) = tn_fd w" "tn_local (run_script p b w) = tn_local w"
  "tn_tasks (run_script p b w) = tn_tasks w" "tn_pcbs (run_script p b w) = tn_pcbs w" "tn_dns (run_script p b w) = tn_dns w"
  "tn_event0 (run_script p b w) = tn_event0 w" "tn_event1 (run_script p b w) = tn_event1 w"
  "tn_tcp (run_script p b w) = tn_tcp w" "tn_udp (run_script p b w) = tn_udp w" "tn_serial (run_script p b w) = tn_serial w"
  "tn_task_event (run_script p b w) = tn_task_event w" "tn_task_io (run_script p b w) = tn_task_io w"
  "tn_task_timer (run_script p b w) = tn_task_timer w"
  "tn_log (run_script p b w) = tn_log w" "tn_socks5_log (run_script p b w) = tn_socks5_log w"
  "dv_nics (run_script p b w) = dv_nics w" "dv_name (run_script p b w) = dv_name w" "dv_tuns (run_script p b w) = dv_tuns w"
  by (simp_all add: run_script_def hev_exec_run_def split_beta Let_def split: option.split)

text \<open>What the end of the tunnel gives back.\<close>

lemma hev_socks5_tunnel_fini_owned:
  assumes "owned L w0 w"
  shows "\<exists>w'. hev_socks5_tunnel_fini c w = Some w' \<and> open_set w' = open_set w0 \<and> tn_tasks w' = tn_tasks w0
    \<and> set (tn_pcbs w') = set (tn_pcbs w0) \<union> L \<and> tn_dns w' = None \<and> \<not> tn_local w' \<and> tn_event0 w' < 0 \<and> tn_event1 w' < 0
    \<and> tn_tcp w' = tn_tcp w \<and> tn_udp w' = tn_udp w"
proof -
  let ?w1 = "w\<lparr>tn_dns := None\<rparr>"
  let ?w2 = "event_task_fini (lwip_io_task_fini (lwip_timer_task_fini ?w1))"
  have d: "mapped_dns_fini w = Some ?w1" using mapped_dns_fini_owned [OF assms] by simp
  have "owned L w0 ?w1" using assms by (simp add: owned_def owns)
  then have o: "owned L w0 (lwip_io_task_fini (lwip_timer_task_fini ?w1))" by (simp add: task_fini_owned)
  have k: "tn_dns ?w2 = None" "tn_tcp ?w2 = tn_tcp w" "tn_udp ?w2 = tn_udp w" "\<not> tn_task_io ?w2" "\<not> tn_task_timer ?w2"
    by (simp_all add: event_task_fini_def lwip_io_task_fini_def lwip_timer_task_fini_def hev_task_unref_def Let_def)
  note e = event_task_fini_owned [OF o]
  obtain w3 where w3: "gateway_fini ?w2 = Some w3" "set (tn_pcbs w3) = set (tn_pcbs w0) \<union> L - set (own_pcbs ?w2)"
    "w3 = ?w2\<lparr>tn_pcbs := tn_pcbs w3, tn_netif := False\<rparr>" using gateway_fini_owned [OF e(1)] by blast
  have "open_set (tunnel_fini c w3) = open_set w0" "tn_tasks w3 = tn_tasks w0"
    "set (tn_pcbs w3) = set (tn_pcbs w0) \<union> L" "\<not> tn_local (tunnel_fini c w3)"
    using e k w3(2) by (subst w3(3); auto simp: owned_def owns tunnel_fini_def hev_tunnel_close_def Let_def)+
  moreover have "tn_dns (tunnel_fini c w3) = None" "tn_event0 (tunnel_fini c w3) < 0" "tn_event1 (tunnel_fini c w3) < 0"
    "tn_tcp (tunnel_fini c w3) = tn_tcp w" "tn_udp (tunnel_fini c w3) = tn_udp w" "tn_tasks (tunnel_fini c w3) = tn_tasks w3"
    "tn_pcbs (tunnel_fini c w3) = tn_pcbs w3"
    using e k by (subst w3(3); simp add: tunnel_fini_def hev_tunnel_close_def Let_def)+
  ultimately show ?thesis using d w3(1) by (simp add: hev_socks5_tunnel_fini_def Let_def)
qed

section \<open>What the steps of the initialisation acquire\<close>

lemma hev_task_new_fields:
  assumes "hev_task_new w = (ok, w')"
  shows "tn_tasks w' = tn_tasks w + of_bool ok" "open_set w' = open_set w" "tn_pcbs w' = tn_pcbs w" "tn_serial w' = tn_serial w"
    "tn_fd w' = tn_fd w" "tn_local w' = tn_local w" "tn_event0 w' = tn_event0 w" "tn_event1 w' = tn_event1 w"
    "tn_tcp w' = tn_tcp w" "tn_udp w' = tn_udp w" "tn_task_event w' = tn_task_event w" "tn_task_io w' = tn_task_io w"
    "tn_task_timer w' = tn_task_timer w" "tn_dns w' = tn_dns w"
  using assms by (auto simp: hev_task_new_def split_beta Let_def split: if_splits)

lemma sys_socketpair_opens:
  assumes "sys_socketpair w = (r, a, b, w')"
  shows "device.more w' = device.more w" "r < 0 \<Longrightarrow> open_set w' = open_set w"
    "\<not> r < 0 \<Longrightarrow> open_set w' = insert a (insert b (open_set w)) \<and> a \<noteq> b \<and> a \<notin> open_set w \<and> b \<notin> open_set w \<and> 0 \<le> a \<and> 0 \<le> b"
  using assms fresh_fd_new [of "open_fds (dv_sys (snd (dev_res w)))"]
    fresh_fd_new [of "fresh_fd (open_fds (dv_sys (snd (dev_res w)))) # open_fds (dv_sys (snd (dev_res w)))"]
  by (auto simp: sys_socketpair_def split_beta Let_def dev_res_more dev_res_def split: if_splits)

lemma event_task_init_owned:
  assumes "owned L w0 w" "tn_event0 w = -1" "tn_event1 w = -1" "\<not> tn_task_event w"
  shows "owned L w0 (snd (event_task_init w))" "tn_task_io (snd (event_task_init w)) = tn_task_io w"
    "tn_task_timer (snd (event_task_init w)) = tn_task_timer w" "tn_dns (snd (event_task_init w)) = tn_dns w"
    "tn_tcp (snd (event_task_init w)) = tn_tcp w"
proof -
  obtain r a b w1 where s: "sys_socketpair w = (r, a, b, w1)" by (metis prod_cases4)
  obtain ok w2 where t: "hev_task_new (snd (dev_res (w1\<lparr>tn_event0 := a, tn_event1 := b\<rparr>))) = (ok, w2)" by fastforce
  note f = sys_socketpair_opens [OF s] more_fields [OF sys_socketpair_opens(1) [OF s]] hev_task_new_fields [OF t]
  let ?w2 = "w1\<lparr>tn_event0 := a, tn_event1 := b\<rparr>"
  show "owned L w0 (snd (event_task_init w))"
  proof (cases "r < 0")
    case True
    then show ?thesis
      using s by (simp add: event_task_init_def) (rule owned_cong [OF assms(1)]; simp add: f owns)
  next
    case False
    from f(3) [OF this] assms have o: "owned L w0 ?w2" by (auto simp: owned_def owns f(4-))
    have "snd (event_task_init w) \<in> {snd (dev_res ?w2), w2\<lparr>tn_task_event := ok\<rparr>}"
      using s t False by (simp add: event_task_init_def split_beta Let_def)
    moreover have "owned L w0 (snd (dev_res ?w2))" by (rule owned_cong [OF o]; simp add: owns)
    moreover have "owned L w0 (w2\<lparr>tn_task_event := ok\<rparr>)" by (rule owned_cong [OF o]; simp add: f owns assms)
    ultimately show ?thesis by auto
  qed
  show "tn_task_io (snd (event_task_init w)) = tn_task_io w"
    "tn_task_timer (snd (event_task_init w)) = tn_task_timer w" "tn_dns (snd (event_task_init w)) = tn_dns w"
    "tn_tcp (snd (event_task_init w)) = tn_tcp w"
    using assms s t f by (simp_all add: event_task_init_def split_beta Let_def)
qed

lemma lwip_io_task_init_owned:
  assumes "owned L w0 w" "\<not> tn_task_io w"
  shows "owned L w0 (snd (lwip_io_task_init w))" "tn_task_timer (snd (lwip_io_task_init w)) = tn_task_timer w"
    "tn_dns (snd (lwip_io_task_init w)) = tn_dns w" "tn_tcp (snd (lwip_io_task_init w)) = tn_tcp w"
proof -
  obtain ok w1 where t: "hev_task_new w = (ok, w1)" by fastforce
  note f = hev_task_new_fields [OF t]
  show "owned L w0 (snd (lwip_io_task_init w))"
    using t assms(2) by (simp add: lwip_io_task_init_def Let_def) (intro conjI impI; rule owned_cong [OF assms(1)]; simp add: f owns)
  show "tn_task_timer (snd (lwip_io_task_init w)) = tn_task_timer w"
    "tn_dns (snd (lwip_io_task_init w)) = tn_dns w" "tn_tcp (snd (lwip_io_task_init w)) = tn_tcp w"
    using t by (simp_all add: lwip_io_task_init_def f Let_def)
qed

lemma lwip_timer_task_init_owned:
  assumes "owned L w0 w" "\<not> tn_task_timer w"
  shows "owned L w0 (snd (lwip_timer_task_init w))" "tn_dns (snd (lwip_timer_task_init w)) = tn_dns w"
    "tn_tcp (snd (lwip_timer_task_init w)) = tn_tcp w"
proof -
  obtain ok w1 where t: "hev_task_new w = (ok, w1)" by fastforce
  note f = hev_task_new_fields [OF t]
  show "owned L w0 (snd (lwip_timer_task_init w))"
    using t assms(2) by (simp add: lwip_timer_task_init_def Let_def) (intro conjI impI; rule owned_cong [OF assms(1)]; simp add: f owns)
  show "tn_dns (snd (lwip_timer_task_init w)) = tn_dns w" "tn_tcp (snd (lwip_timer_task_init w)) = tn_tcp w"
    using t by (simp_all add: lwip_timer_task_init_def f Let_def)
qed

lemma mapped_dns_init_owned:
  assumes "owned L w0 w" "0 \<le> hev_config_get_mapdns_cache_size c"
  shows "owned L w0 (snd (mapped_dns_init c w))" "tn_tcp (snd (mapped_dns_init c w)) = tn_tcp w"
proof -
  let ?w = "snd (dev_res w)"
  have o: "owned L w0 ?w" by (rule owned_cong [OF assms(1)]; simp add: owns)
  have n: "owned L w0 (?w\<lparr>tn_dns := Some d\<rparr>)" if "dns_inv d []" for d
    using o that by (auto simp: owned_def own_fds_def own_pcbs_def own_tasks_def simp del: set_append)
  show "owned L w0 (snd (mapped_dns_init c w))"
    using assms o n hev_mapped_dns_new_inv by (simp add: mapped_dns_init_def split_beta Let_def split: option.split)
  show "tn_tcp (snd (mapped_dns_init c w)) = tn_tcp w"
    by (simp add: mapped_dns_init_def split_beta Let_def split: option.split)
qed

lemma pcb_new_fields:
  assumes "pcb_new w = (p, w')"
  shows "tn_tasks w' = tn_tasks w" "open_set w' = open_set w"
    "tn_fd w' = tn_fd w" "tn_local w' = tn_local w" "tn_event0 w' = tn_event0 w" "tn_event1 w' = tn_event1 w"
    "tn_tcp w' = tn_tcp w" "tn_udp w' = tn_udp w" "tn_task_event w' = tn_task_event w" "tn_task_io w' = tn_task_io w"
    "tn_task_timer w' = tn_task_timer w" "tn_dns w' = tn_dns w"
    "p = None \<Longrightarrow> tn_pcbs w' = tn_pcbs w \<and> tn_serial w' = tn_serial w"
    "p = Some n \<Longrightarrow> n = tn_serial w \<and> tn_pcbs w' = n # tn_pcbs w \<and> tn_serial w' = Suc n"
  using assms by (auto simp: pcb_new_def split_beta Let_def split: if_splits)

text \<open>The gateway loses the first TCP block if the listening one cannot be made.\<close>

lemma gateway_init_owned:
  assumes "owned {} w0 w" "tn_tcp w = None" "tn_udp w = None" "gateway_init w = Some (r, w')"
  shows "r = 0" "\<exists>p. p \<notin> set (tn_pcbs w0) \<and> owned (if tn_tcp w' = None then {p} else {}) w0 w'"
    "tn_event0 w' = tn_event0 w" "tn_event1 w' = tn_event1 w" "tn_task_event w' = tn_task_event w" "tn_task_io w' = tn_task_io w"
    "tn_task_timer w' = tn_task_timer w" "tn_dns w' = tn_dns w"
proof -
  let ?w = "w\<lparr>tn_netif := True\<rparr>"
  obtain q w1 where q: "pcb_new ?w = (q, w1)" by fastforce
  then obtain p where p: "pcb_new ?w = (Some p, w1)" using assms(4) by (cases q) (simp_all add: gateway_init_def)
  obtain l w2 where l: "pcb_new w1 = (l, w2)" by fastforce
  define w3 where "w3 = (if l = None then w2 else w2\<lparr>tn_pcbs := remove1 p (tn_pcbs w2)\<rparr>)"
  note f1 = pcb_new_fields [OF p] and f2 = pcb_new_fields [OF l]
  have li: "tcp_listen (Some p) w1 = Some (l, w3)"
    using l f1(14) f2(14) by (cases l) (auto simp: tcp_listen_def pcb_remove_def w3_def)
  obtain v w4 where v: "pcb_new (w3\<lparr>tn_tcp := l\<rparr>) = (v, w4)" by fastforce
  then obtain u where u: "pcb_new (w3\<lparr>tn_tcp := l\<rparr>) = (Some u, w4)" "w' = w4\<lparr>tn_udp := Some u\<rparr>" "r = 0"
    using assms(4) p li by (cases v) (simp_all add: gateway_init_def)
  note f4 = pcb_new_fields [OF u(1)]
  show "r = 0" by (rule u(3))
  have k: "tn_tasks w' = tn_tasks w" "open_set w' = open_set w" "own_fds w' = own_fds w" "own_tasks w' = own_tasks w"
    "tn_dns w' = tn_dns w" "tn_tcp w' = l"
    using f1(1-12) f2(1-12) f4(1-12) u(2) by (simp_all add: w3_def own_fds_def own_tasks_def)
  have pl: "p = tn_serial w" using f1(14) by simp
  have pcbs: "tn_pcbs w' = (case l of None \<Rightarrow> [u, p] | Some n \<Rightarrow> [u, n]) @ tn_pcbs w" "tn_serial w' = Suc u"
      "case l of None \<Rightarrow> u = Suc p | Some n \<Rightarrow> n = Suc p \<and> u = Suc n"
    using f1(14) f2(13,14) f4(14) u(2) by (auto simp: w3_def split: option.splits if_splits)
  have fresh: "n < tn_serial w" if "n \<in> set (tn_pcbs w0)" for n using assms(1) that by (auto simp: owned_def)
  have "owned (if l = None then {p} else {}) w0 w'"
    using assms(1-3) k pcbs pl u(2) f4(8)
    by (cases l) (auto simp: owned_def own_pcbs_def dest: fresh)
  then show "\<exists>p. p \<notin> set (tn_pcbs w0) \<and> owned (if tn_tcp w' = None then {p} else {}) w0 w'"
    using k(6) pl fresh by (intro exI [of _ p]) auto
  show "tn_event0 w' = tn_event0 w" "tn_event1 w' = tn_event1 w" "tn_task_event w' = tn_task_event w" "tn_task_io w' = tn_task_io w"
    "tn_task_timer w' = tn_task_timer w" "tn_dns w' = tn_dns w"
    using f1(1-12) f2(1-12) f4(1-12) u(2) by (simp_all add: w3_def)
qed

text \<open>The settings of the device, one after the other.\<close>

text \<open>
  \<open>configured pl c d d'\<close>: \<open>d'\<close> is the device \<open>d\<close> with the configured MTU and addresses, up. Addresses that cannot be parsed are left out.
\<close>

definition configured :: "platform \<Rightarrow> hev_config \<Rightarrow> nic \<Rightarrow> nic \<Rightarrow> bool" where
  "configured pl c =
     (\<lambda>d d'. d' = d\<lparr>nic_mtu := sint (hev_config_get_tunnel_mtu c)\<rparr>)
     OO (case hev_config_get_tunnel_ipv4_address c of None \<Rightarrow> (=) | Some a \<Rightarrow> (\<lambda>d d'. d' = with_ipv4 (pton4 pl a) d))
     OO (case hev_config_get_tunnel_ipv6_address c of None \<Rightarrow> (=) | Some a \<Rightarrow> with_ipv6 (pton6 pl a))
     OO (\<lambda>d d'. d' = d\<lparr>nic_up := True\<rparr>)"

lemma if_set_op:
  assumes "\<And>s. a = Some s \<Longrightarrow> dev_op (R s) (f s) w"
  shows "dev_op (case a of None \<Rightarrow> (=) | Some s \<Rightarrow> R s) (if_set a f) w"
  using assms by (cases a) (auto simp: if_set_def dev_op_def dev_frame_def)

lemma and_then_op:
  assumes "dev_inv w" "dev_op R f w" "\<And>w. dev_inv w \<Longrightarrow> dev_op S g w"
  shows "dev_op (R OO S) (and_then f g) w"
proof -
  obtain r w1 where f: "f w = (r, w1)" by fastforce
  obtain q w2 where g: "g w1 = (q, w2)" by fastforce
  have fr: "dev_frame {} w w1" using assms(2) f by (simp add: dev_op_def)
  note g' = assms(3) [OF dev_frame_inv [OF fr assms(1)]]
  have "dev_frame {} w w2" using dev_frame_open_trans [OF fr] g' g by (simp add: dev_op_def)
  moreover have "dv_name w1 = dv_name w" using fr by (simp add: dev_frame_def)
  ultimately show ?thesis
    using assms(2) g' f g fr by (fastforce simp: dev_op_def and_then_def relcompp_apply)
qed

lemma tunnel_settings_op:
  assumes "dev_inv w"
  shows "dev_op (configured pl c) (tunnel_settings pl c) w"
  using assms
  by (auto simp: tunnel_settings_def configured_def [abs_def] intro!: and_then_op if_set_op
      hev_tunnel_set_mtu_op hev_tunnel_set_ipv4_op hev_tunnel_set_ipv6_op hev_tunnel_set_state_op [of _ 1, simplified])

text \<open>
  The device is open: a new descriptor is attached to a device; if the settings succeed too, the descriptor counts as the tunnel's own, if not,
  it stays open and does not.
\<close>

lemma tunnel_init_local:
  assumes "tunnel_init pl c fd w = (r, w')" "fd < 0" "dev_inv w"
    and "hev_tunnel_open (picked pl) (hev_config_get_tunnel_name c) (hev_config_get_tunnel_multi_queue c) w = (f, w1)" "0 \<le> f"
  shows "f \<notin> open_set w" "open_set w' = insert f (open_set w)" "tn_fd w' = f" "r < 0 \<or> r = 0"
    "r < 0 \<Longrightarrow> device.more w' = device.more (w\<lparr>tn_fd := f\<rparr>)"
    "r = 0 \<Longrightarrow> \<exists>w2 d d'. device.more w2 = device.more (w\<lparr>tn_fd := f\<rparr>)
      \<and> w' = (run_script (hev_config_get_tunnel_post_up_script c) False w2)\<lparr>tn_local := True\<rparr>
      \<and> dv_nics w' (dv_name w') = Some d' \<and> configured pl c d d' \<and> (f, dv_name w') \<in> set (dv_tuns w')"
proof -
  let ?w1 = "w1\<lparr>tn_fd := f\<rparr>"
  have o: "open_set w1 = insert f (open_set w)" "f \<notin> open_set w" "dv_tuns w1 = (f, dv_name w1) # dv_tuns w"
    "dv_nics w1 (dv_name w1) \<noteq> None" "device.more w1 = device.more w" "dev_inv w1"
    using hev_tunnel_open_works [OF assms(4,3)] assms(5) by simp_all
  then have i: "dev_inv ?w1" by (simp add: dev_inv_def)
  obtain q w2 where s: "tunnel_settings pl c ?w1 = (q, w2)" by fastforce
  obtain d where d: "dv_nics w1 (dv_name w1) = Some d" using o(4) by blast
  have fr: "dev_frame {} ?w1 w2" "0 \<le> q \<Longrightarrow> \<exists>d'. dv_nics w2 (dv_name w1) = Some d' \<and> configured pl c d d'"
    using tunnel_settings_op [OF i, of pl c] s d by (auto simp: dev_op_def)
  have m: "device.more w2 = device.more (w\<lparr>tn_fd := f\<rparr>)"
    using fr(1) o(5) by (cases w; cases w1; simp add: dev_frame_def)
  have n: "dv_name w2 = dv_name w1" "dv_tuns w2 = dv_tuns w1" "open_set w2 = open_set w1" using fr(1) by (simp_all add: dev_frame_def)
  have res: "(r, w') = (if q < 0 then (-1, w2) else (0, (run_script (hev_config_get_tunnel_post_up_script c) False w2)\<lparr>tn_local := True\<rparr>))"
    using assms(1,2,4,5) s by (simp add: tunnel_init_def)
  show "f \<notin> open_set w" by (rule o(2))
  show "open_set w' = insert f (open_set w)" using res n o(1) by (simp split: if_splits)
  show "tn_fd w' = f" using res more_fields [OF m] by (simp split: if_splits)
  show "r < 0 \<or> r = 0" using res by (simp split: if_splits)
  show "r < 0 \<Longrightarrow> device.more w' = device.more (w\<lparr>tn_fd := f\<rparr>)" using res m by (simp split: if_splits)
  show "r = 0 \<Longrightarrow> \<exists>w2 d d'. device.more w2 = device.more (w\<lparr>tn_fd := f\<rparr>)
      \<and> w' = (run_script (hev_config_get_tunnel_post_up_script c) False w2)\<lparr>tn_local := True\<rparr>
      \<and> dv_nics w' (dv_name w') = Some d' \<and> configured pl c d d' \<and> (f, dv_name w') \<in> set (dv_tuns w')"
    using res m fr(2) n o(3) by (auto split: if_splits)
qed

lemma tunnel_init_owned:
  assumes "idle w" "tunnel_init pl c fd w = (r, w')" "\<not> r < 0"
  shows "owned {} w w' \<and> tn_tcp w' = None \<and> tn_udp w' = None \<and> tn_event0 w' = -1 \<and> tn_event1 w' = -1
    \<and> \<not> tn_task_event w' \<and> \<not> tn_task_io w' \<and> \<not> tn_task_timer w' \<and> tn_dns w' = None"
proof (cases "fd \<ge> 0")
  case True
  with assms show ?thesis
    by (auto simp: tunnel_init_def idle_def owned_def owns split_beta Let_def split: if_splits)
next
  case False
  obtain f w1 where op: "hev_tunnel_open (picked pl) (hev_config_get_tunnel_name c) (hev_config_get_tunnel_multi_queue c) w = (f, w1)"
    by fastforce
  have f: "0 \<le> f" using assms(2,3) op False by (auto simp: tunnel_init_def Let_def split: if_splits)
  have inv: "dev_inv w" using assms(1) by (simp add: idle_def)
  note t = tunnel_init_local [OF assms(2) _ inv op f]
  from t(4,6) False assms(3) obtain w2 where w2: "device.more w2 = device.more (w\<lparr>tn_fd := f\<rparr>)"
    "w' = (run_script (hev_config_get_tunnel_post_up_script c) False w2)\<lparr>tn_local := True\<rparr>" by auto
  note g = more_fields [OF w2(1)]
  show ?thesis using t(1-3) False assms(1) g w2(2) by (auto simp: idle_def owned_def owns)
qed

lemma hev_socks5_tunnel_init_owned:
  assumes "idle w" "0 \<le> hev_config_get_mapdns_cache_size c" "fst (tunnel_init pl c fd w) = 0"
    and "init_steps (tunnel_steps pl c fd) w = Some (r, w')"
  shows "\<exists>p. p \<notin> set (tn_pcbs w) \<and> owned (if tn_tcp w' = None then {p} else {}) w w'"
proof -
  obtain w1 where w1: "tunnel_init pl c fd w = (0, w1)" using assms(3) by (metis surjective_pairing)
  note t = tunnel_init_owned [OF assms(1) w1]
  obtain r2 w2 where w2: "gateway_init w1 = Some (r2, w2)" using assms(4) w1 by (auto simp: tunnel_steps_def bind_eq_Some_conv)
  note g = gateway_init_owned [OF _ _ _ w2, of w]
  obtain p where p: "p \<notin> set (tn_pcbs w)" "owned (if tn_tcp w2 = None then {p} else {}) w w2" using g(2) t by auto
  define L where "L = (if tn_tcp w2 = None then {p} else {})"
  have L: "owned L w w2" using p(2) by (simp add: L_def)
  let ?w3 = "snd (event_task_init w2)" and ?w4 = "snd (lwip_io_task_init (snd (event_task_init w2)))"
  let ?w5 = "snd (lwip_timer_task_init ?w4)"
  have e: "owned L w ?w3" "tn_task_io ?w3 = tn_task_io w2" "tn_task_timer ?w3 = tn_task_timer w2" "tn_tcp ?w3 = tn_tcp w2"
    using event_task_init_owned [OF L] g t by auto
  have i: "owned L w ?w4" "tn_task_timer ?w4 = tn_task_timer w2" "tn_tcp ?w4 = tn_tcp w2"
    using lwip_io_task_init_owned [OF e(1)] e g t by auto
  have m: "owned L w ?w5" "tn_tcp ?w5 = tn_tcp w2" using lwip_timer_task_init_owned [OF i(1)] i g t by auto
  have n: "owned L w (snd (mapped_dns_init c ?w5))" "tn_tcp (snd (mapped_dns_init c ?w5)) = tn_tcp w2"
    using mapped_dns_init_owned [OF m(1) assms(2)] m by auto
  have "w' \<in> {?w3, ?w4, ?w5, snd (mapped_dns_init c ?w5)}"
    using assms(4) w1 w2 g(1) t by (auto simp: tunnel_steps_def split_beta split: if_splits)
  then have "owned L w w'" "tn_tcp w' = tn_tcp w2" using e i m n by auto
  then show ?thesis using p(1) by (auto simp: L_def)
qed

section \<open>Waiting for the event socket\<close>

lemma stop_wait_finds: "0 \<le> seen j \<Longrightarrow> i \<le> j \<Longrightarrow> stop_wait seen i \<noteq> None"
proof (induction "j - i" arbitrary: i)
  case 0
  then show ?case by (subst stop_wait.simps) simp
next
  case (Suc n)
  then have "stop_wait seen (Suc i) \<noteq> None" by simp
  then show ?case by (subst stop_wait.simps) simp
qed

lemma stop_wait_result: "stop_wait seen i = Some fd \<Longrightarrow> \<exists>j. fd = seen j \<and> 0 \<le> seen j"
proof (induction seen i fd rule: stop_wait.raw_induct [rotated, consumes 1, case_names step])
  case (step f seen i fd)
  then show ?case by (auto split: if_splits)
qed

section \<open>The outcomes of the initialisation\<close>

lemma tunnel_init_results: "fst (tunnel_init pl c fd w) \<in> {0, -1}"
  by (auto simp: tunnel_init_def split_beta Let_def)

lemma init_steps_results: "init_steps fs w = Some (r, w') \<Longrightarrow> r = 0 \<or> r = -1"
  by (induction fs w rule: init_steps.induct) (auto simp: bind_eq_Some_conv split: if_splits)

lemma init_started:
  assumes "hev_socks5_tunnel_init pl c fd w = Some (0, w1)"
  shows "init_steps (tunnel_steps pl c fd) w = Some (0, w1)"
proof -
  obtain r w2 where i: "init_steps (tunnel_steps pl c fd) w = Some (r, w2)" using assms by (auto simp: hev_socks5_tunnel_init_def bind_eq_Some_conv)
  then show ?thesis using assms init_steps_results [OF i] by (auto simp: hev_socks5_tunnel_init_def bind_eq_Some_conv)
qed

lemma init_failed:
  assumes "hev_socks5_tunnel_init pl c fd w = Some (r, w')" "r \<noteq> 0"
  shows "r = -1 \<and> (\<exists>q w1. init_steps (tunnel_steps pl c fd) w = Some (q, w1) \<and> hev_socks5_tunnel_fini c w1 = Some w')"
  using assms unfolding hev_socks5_tunnel_init_def by (auto simp: bind_eq_Some_conv split: if_splits)

lemma task_fini_fields:
  "tn_tcp (event_task_fini (lwip_io_task_fini (lwip_timer_task_fini w))) = tn_tcp w"
  "tn_udp (event_task_fini (lwip_io_task_fini (lwip_timer_task_fini w))) = tn_udp w"
  "tn_pcbs (event_task_fini (lwip_io_task_fini (lwip_timer_task_fini w))) = tn_pcbs w"
  "tn_event1 (event_task_fini w) < 0"
  by (simp_all add: event_task_fini_def lwip_io_task_fini_def lwip_timer_task_fini_def hev_task_unref_def Let_def)

lemma pcb_remove_event1: "pcb_remove p w = Some w' \<Longrightarrow> tn_event1 w' = tn_event1 w"
  by (auto simp: pcb_remove_def split: option.splits if_splits)

lemma hev_socks5_tunnel_fini_event1: "hev_socks5_tunnel_fini c w = Some w' \<Longrightarrow> tn_event1 w' < 0"
  by (auto simp: hev_socks5_tunnel_fini_def gateway_fini_def bind_eq_Some_conv tunnel_fini_def hev_tunnel_close_def Let_def task_fini_fields
      dest!: pcb_remove_event1)

lemma stop_wait_never: "(\<And>j. seen j < 0) \<Longrightarrow> stop_wait seen i = None"
  using stop_wait_result [of seen i] by (cases "stop_wait seen i") (auto simp: not_le [symmetric])

section \<open>From start to stop\<close>

text \<open>
  C20. The end of a tunnel undoes its first start, when nothing runs between the two, whether the device was opened or passed in: the descriptors,
  the references to task objects and the control blocks are those of before, and the mapped DNS is gone. The one exception, stated in the theorem, is
  that one control block is lost when the listening block could not be made, which does not make the start fail.
\<close>

theorem tunnel_start_stop_balanced:
  assumes "idle w" "0 \<le> hev_config_get_mapdns_cache_size c" "hev_socks5_tunnel_init pl c fd w = Some (0, w1)"
  shows "\<exists>w2. hev_socks5_tunnel_fini c w1 = Some w2 \<and> open_set w2 = open_set w \<and> tn_tasks w2 = tn_tasks w
    \<and> (\<exists>p. p \<notin> set (tn_pcbs w) \<and> set (tn_pcbs w2) = set (tn_pcbs w) \<union> (if tn_tcp w1 = None then {p} else {}))
    \<and> tn_dns w2 = None \<and> tn_event1 w2 < 0"
proof -
  have i: "init_steps (tunnel_steps pl c fd) w = Some (0, w1)"
    using init_started [OF assms(3)] .
  have t: "fst (tunnel_init pl c fd w) = 0" using i tunnel_init_results [of pl c fd w] by (auto simp: tunnel_steps_def split_beta split: if_splits)
  obtain p where p: "p \<notin> set (tn_pcbs w)" "owned (if tn_tcp w1 = None then {p} else {}) w w1"
    using hev_socks5_tunnel_init_owned [OF assms(1,2) t i] by blast
  show ?thesis using hev_socks5_tunnel_fini_owned [OF p(2), of c] p(1) by auto
qed

text \<open>
  C21. So does the clean-up of a first start that fails in any step after the device has been set up; the start returns \<open>-1\<close>. Here too one control
  block is lost if the listening block could not be made, and only then.
\<close>

theorem tunnel_failed_start_balanced:
  assumes "idle w" "0 \<le> hev_config_get_mapdns_cache_size c" "fst (tunnel_init pl c fd w) = 0"
    and "hev_socks5_tunnel_init pl c fd w = Some (r, w')" "r \<noteq> 0"
  shows "r = -1 \<and> open_set w' = open_set w \<and> tn_tasks w' = tn_tasks w
    \<and> (\<exists>p. p \<notin> set (tn_pcbs w) \<and> set (tn_pcbs w') = set (tn_pcbs w) \<union> (if tn_tcp w' = None then {p} else {}))
    \<and> tn_dns w' = None \<and> tn_event1 w' < 0"
proof -
  obtain q w1 where i: "init_steps (tunnel_steps pl c fd) w = Some (q, w1)" "r = -1" "hev_socks5_tunnel_fini c w1 = Some w'"
    using init_failed [OF assms(4,5)] by blast
  obtain p where p: "p \<notin> set (tn_pcbs w)" "owned (if tn_tcp w1 = None then {p} else {}) w w1"
    using hev_socks5_tunnel_init_owned [OF assms(1-3) i(1)] by blast
  show ?thesis using hev_socks5_tunnel_fini_owned [OF p(2), of c] p(1) i(2,3) by auto
qed

text \<open>
  A device that the tunnel opens itself is up with the configured MTU and IPv4 address when the initialisation of the device returns 0, and
  attached to the descriptor, which the tunnel then owns.
\<close>

theorem tunnel_device_configured:
  assumes "dev_inv w" "fd < 0" "tunnel_init pl c fd w = (0, w')"
  shows "tn_local w' \<and> (tn_fd w', dv_name w') \<in> set (dv_tuns w') \<and> (\<exists>d. dv_nics w' (dv_name w') = Some d
    \<and> nic_up d \<and> nic_mtu d = sint (hev_config_get_tunnel_mtu c)
    \<and> (\<forall>a b. hev_config_get_tunnel_ipv4_address c = Some a \<and> pton4 pl a = Some b \<longrightarrow> nic_ipv4 d = Some (b, 32)))"
proof -
  obtain f w1 where op: "hev_tunnel_open (picked pl) (hev_config_get_tunnel_name c) (hev_config_get_tunnel_multi_queue c) w = (f, w1)"
    by fastforce
  have f: "0 \<le> f" using assms(2,3) op by (auto simp: tunnel_init_def Let_def split: if_splits)
  note t = tunnel_init_local [OF assms(3,2,1) op f]
  then obtain d d' where d: "dv_nics w' (dv_name w') = Some d'" "configured pl c d d'" "(f, dv_name w') \<in> set (dv_tuns w')" "tn_local w'"
    by auto
  have "nic_up d' \<and> nic_mtu d' = sint (hev_config_get_tunnel_mtu c)
    \<and> (\<forall>a b. hev_config_get_tunnel_ipv4_address c = Some a \<and> pton4 pl a = Some b \<longrightarrow> nic_ipv4 d' = Some (b, 32))"
    using d(2) by (auto simp: configured_def with_ipv4_def with_ipv6_def relcompp_apply split: option.splits)
  with d t(3) show ?thesis by auto
qed

text \<open>
  If a setting fails after the device has been opened, the start fails and the descriptor of the device stays open: the flag that makes
  \<open>tunnel_fini\<close> close it is set only at the end.
\<close>

theorem tunnel_failed_setting_leaks:
  assumes "idle w" "fd < 0" "fst (tunnel_init pl c fd w) < 0"
    and "hev_tunnel_open (picked pl) (hev_config_get_tunnel_name c) (hev_config_get_tunnel_multi_queue c) w = (f, w1)" "0 \<le> f"
  shows "\<exists>w'. hev_socks5_tunnel_init pl c fd w = Some (-1, w') \<and> open_set w' = insert f (open_set w) \<and> f \<notin> open_set w"
proof -
  obtain r w2 where t: "tunnel_init pl c fd w = (r, w2)" "r < 0" using assms(3) by (metis surjective_pairing)
  have "dev_inv w" using assms(1) by (simp add: idle_def)
  note l = tunnel_init_local [OF t(1) assms(2) this assms(4,5)]
  note g = more_fields [OF l(5) [OF t(2)]]
  have "owned {} w2 w2" using assms(1) g by (simp add: owned_def idle_def owns)
  from hev_socks5_tunnel_fini_owned [OF this] obtain w' where w': "hev_socks5_tunnel_fini c w2 = Some w'" "open_set w' = open_set w2"
    by blast
  have "init_steps (tunnel_steps pl c fd) w = Some (-1, w2)" using t by (simp add: tunnel_steps_def)
  then show ?thesis using w' l(1,2) by (auto simp: hev_socks5_tunnel_init_def)
qed

text \<open>
  C40. The pointers to the control blocks survive the end of the tunnel. If it is started again with a descriptor that cannot be made
  non-blocking, the start frees the blocks a second time.
\<close>

theorem failed_restart_frees_twice:
  assumes "idle w" "0 \<le> hev_config_get_mapdns_cache_size c" "hev_socks5_tunnel_init pl c fd w = Some (0, w1)" "tn_tcp w1 \<noteq> None"
    and "hev_socks5_tunnel_fini c w1 = Some w2" "0 \<le> fd'" "fst (dev_res w2) < 0"
  shows "hev_socks5_tunnel_init pl' c' fd' w2 = None"
proof -
  note i = init_started [OF assms(3)]
  have t: "fst (tunnel_init pl c fd w) = 0" using i tunnel_init_results [of pl c fd w] by (auto simp: tunnel_steps_def split_beta split: if_splits)
  have o: "owned {} w w1" using hev_socks5_tunnel_init_owned [OF assms(1,2) t i] assms(4) by auto
  obtain p where p: "tn_tcp w1 = Some p" using assms(4) by blast
  have k: "set (tn_pcbs w2) = set (tn_pcbs w)" "tn_tcp w2 = Some p" "tn_dns w2 = None"
    using hev_socks5_tunnel_fini_owned [OF o, of c] assms(5) p by auto
  have "p \<notin> set (tn_pcbs w2)" using o p k(1) by (auto simp: owned_def own_pcbs_def)
  then have g: "gateway_fini v = None" if "tn_tcp v = Some p" "tn_pcbs v = tn_pcbs w2" for v
    using that by (auto simp: gateway_fini_def pcb_remove_def split: option.splits bind_splits dest: notin_set_remove1)
  let ?v = "snd (dev_res w2)"
  have "init_steps (tunnel_steps pl' c' fd') w2 = Some (-1, ?v)"
    using assms(6,7) by (simp add: tunnel_steps_def tunnel_init_def split_beta Let_def)
  moreover have "hev_socks5_tunnel_fini c' ?v = None"
    using k by (simp add: hev_socks5_tunnel_fini_def mapped_dns_fini_def g task_fini_fields Let_def)
  ultimately show ?thesis by (simp add: hev_socks5_tunnel_init_def)
qed

text \<open>
  Whatever step of the start fails, the event socket is closed afterwards, and a request to stop then waits for it without end: the thread that was
  to run the tunnel has ended, and \<open>is_working\<close> still says that it runs.
\<close>

theorem stop_hangs_after_failed_start:
  assumes "hev_socks5_tunnel_init pl c fd w = Some (r, w')" "r \<noteq> 0"
  shows "native_stop_service (\<lambda>_. tn_event1 w') res True = None"
proof -
  have "tn_event1 w' < 0" using init_failed [OF assms] hev_socks5_tunnel_fini_event1 by blast
  then show ?thesis by (simp add: native_stop_service_def hev_socks5_tunnel_stop_def stop_wait_never)
qed

text \<open>
  A request to stop that comes before the start is complete takes effect once the event socket is there: it returns exactly if the socket appears and
  the write to it succeeds.
\<close>

theorem stop_returns_iff:
  "(\<exists>j. native_stop_service seen res True = Some j) \<longleftrightarrow> 0 < res \<and> (\<exists>i. 0 \<le> seen i)"
proof -
  have "stop_wait seen 0 \<noteq> None \<longleftrightarrow> (\<exists>i. 0 \<le> seen i)"
    using stop_wait_finds [of seen _ 0] stop_wait_result [of seen 0] by auto
  then show ?thesis by (auto simp: native_stop_service_def hev_socks5_tunnel_stop_def bind_eq_Some_conv)
qed

text \<open>
  Every packet that is read from the device is handed to the stack once, in order, and counted: the counters are the numbers of packets and bytes
  modulo \<open>2 ^ 64\<close>.
\<close>

theorem tunnel_packets_counted:
  "fst (lwip_io_task_entry reads w) = List.map_filter id reads
   \<and> stat_tx_packets (hev_socks5_tunnel_stats (snd (lwip_io_task_entry reads w)))
     = stat_tx_packets (hev_socks5_tunnel_stats w) + of_nat (length (List.map_filter id reads))
   \<and> stat_tx_bytes (hev_socks5_tunnel_stats (snd (lwip_io_task_entry reads w)))
     = stat_tx_bytes (hev_socks5_tunnel_stats w) + of_nat (length (concat (List.map_filter id reads)))"
proof -
  have "fst (lwip_io_loop reads w) = List.map_filter id reads
    \<and> stat_tx_packets (tn_stats (snd (lwip_io_loop reads w))) = stat_tx_packets (tn_stats w) + of_nat (length (List.map_filter id reads))
    \<and> stat_tx_bytes (tn_stats (snd (lwip_io_loop reads w))) = stat_tx_bytes (tn_stats w) + of_nat (length (concat (List.map_filter id reads)))" for w
    by (induction reads w rule: lwip_io_loop.induct) (simp_all add: map_filter_simps split_beta Let_def)
  then show ?thesis
    by (simp add: hev_socks5_tunnel_stats_def lwip_io_task_entry_def hev_tunnel_add_task_def hev_tunnel_del_task_def split_beta Let_def)
qed

section \<open>Witnesses\<close>

definition tunnel0 :: "int list \<Rightarrow> tunnel" where
  "tunnel0 script = \<lparr>dv_sys = sys0\<lparr>sysres := script, open_fds := [2, 1, 0]\<rparr>, dv_nics = Map.empty, dv_tuns = [], dv_name = [],
     tn_fd = -1, tn_local = False, tn_event0 = -1, tn_event1 = -1, tn_netif = False, tn_tcp = None, tn_udp = None,
     tn_task_event = False, tn_task_io = False, tn_task_timer = False, tn_dns = None,
     tn_stats = \<lparr>stat_tx_packets = 0, stat_rx_packets = 0, stat_tx_bytes = 0, stat_rx_bytes = 0\<rparr>,
     tn_pcbs = [], tn_serial = 0, tn_tasks = 0, tn_scripts = [], tn_log = -1, tn_socks5_log = -1\<rparr>"

definition platform0 :: platform where
  "platform0 = \<lparr>pton4 = (\<lambda>_. Some [10, 0, 0, 1]), pton6 = (\<lambda>_. None), picked = ''tun0''\<rparr>"

definition config0 :: hev_config where
  "config0 = config_defaults\<lparr>tun_ipv4_address := ''10.0.0.1''\<rparr>"

lemma tunnel0_idle: "idle (tunnel0 script)"
  by (simp add: idle_def tunnel0_def dev_inv_def)

lemma config0_size: "0 \<le> hev_config_get_mapdns_cache_size config0"
  by (simp add: config0_def config_defaults_def hev_config_get_mapdns_cache_size_def)

lemma fresh_fd0: "fresh_fd [2, 1, 0] = 3" "fresh_fd [3, 2, 1, 0] = 4"
  by (simp_all add: fresh_fd_def upt_rec)

lemmas start_defs = hev_socks5_tunnel_init_def tunnel_steps_def tunnel_init_def gateway_init_def tcp_listen_def pcb_new_def pcb_remove_def
  event_task_init_def sys_socketpair_def lwip_io_task_init_def lwip_timer_task_init_def hev_task_new_def mapped_dns_init_def
  dev_res_def next_res_def tunnel0_def sys0_def config0_def config_defaults_def hev_config_get_mapdns_cache_size_def
  fresh_fd0 Let_def

text \<open>A start with a descriptor from outside succeeds if every system call does; one in which no task can be made fails.\<close>

lemma start0: "\<exists>w1. hev_socks5_tunnel_init platform0 config0 9 (tunnel0 []) = Some (0, w1) \<and> tn_tcp w1 \<noteq> None"
  by (simp add: start_defs)

theorem tunnel_start_stop_balanced_witness:
  "\<exists>w1 w2. hev_socks5_tunnel_init platform0 config0 9 (tunnel0 []) = Some (0, w1) \<and> hev_socks5_tunnel_fini config0 w1 = Some w2
    \<and> open_set w2 = {2, 1, 0} \<and> tn_tasks w2 = 0 \<and> tn_pcbs w2 = []"
proof -
  obtain w1 where w1: "hev_socks5_tunnel_init platform0 config0 9 (tunnel0 []) = Some (0, w1)" "tn_tcp w1 \<noteq> None" using start0 by blast
  from tunnel_start_stop_balanced [OF tunnel0_idle config0_size w1(1)] w1 show ?thesis by (auto simp: tunnel0_def)
qed

lemma start1: "\<exists>w1. hev_socks5_tunnel_init platform0 config0 9 (tunnel0 [0, 0, 0, 0, 0, 0, -1]) = Some (-1, w1)
    \<and> fst (tunnel_init platform0 config0 9 (tunnel0 [0, 0, 0, 0, 0, 0, -1])) = 0"
  by (simp add: start_defs hev_socks5_tunnel_fini_def mapped_dns_fini_def event_task_fini_def lwip_io_task_fini_def lwip_timer_task_fini_def
      gateway_fini_def tunnel_fini_def hev_task_unref_def dev_close_def sys_close_def)

theorem tunnel_failed_start_balanced_witness:
  "\<exists>w1. hev_socks5_tunnel_init platform0 config0 9 (tunnel0 [0, 0, 0, 0, 0, 0, -1]) = Some (-1, w1)
    \<and> open_set w1 = {2, 1, 0} \<and> tn_tasks w1 = 0 \<and> tn_event1 w1 < 0"
proof -
  obtain w1 where w1: "hev_socks5_tunnel_init platform0 config0 9 (tunnel0 [0, 0, 0, 0, 0, 0, -1]) = Some (-1, w1)"
    "fst (tunnel_init platform0 config0 9 (tunnel0 [0, 0, 0, 0, 0, 0, -1])) = 0" using start1 by blast
  from tunnel_failed_start_balanced [OF tunnel0_idle config0_size w1(2,1)] w1 show ?thesis by (auto simp: tunnel0_def)
qed

theorem stop_hangs_after_failed_start_witness:
  "\<exists>w1. hev_socks5_tunnel_init platform0 config0 9 (tunnel0 [0, 0, 0, 0, 0, 0, -1]) = Some (-1, w1)
    \<and> native_stop_service (\<lambda>_. tn_event1 w1) 1 True = None"
proof -
  obtain w1 where w1: "hev_socks5_tunnel_init platform0 config0 9 (tunnel0 [0, 0, 0, 0, 0, 0, -1]) = Some (-1, w1)" using start1 by blast
  from stop_hangs_after_failed_start [OF this] w1 show ?thesis by auto
qed

lemmas device_defs = tunnel_settings_def and_then_def if_set_def hev_tunnel_open_def hev_tunnel_set_mtu_def hev_tunnel_set_ipv4_def
  hev_tunnel_set_state_def dev_with_def dev_socket_def sys_socket_def dev_ioctl_def posix_def dev_close_def sys_close_def new_nic_def
  run_script_def hev_config_get_tunnel_name_def hev_config_get_tunnel_multi_queue_def hev_config_get_tunnel_ipv4_address_def
  hev_config_get_tunnel_ipv6_address_def hev_config_get_tunnel_post_up_script_def unless_empty_def platform0_def

lemma tunnel_init0: "\<exists>w'. tunnel_init platform0 config0 (-1) (tunnel0 []) = (0, w')"
  by (simp add: start_defs device_defs)

theorem tunnel_device_configured_witness:
  "\<exists>w' d. tunnel_init platform0 config0 (-1) (tunnel0 []) = (0, w') \<and> dv_nics w' (dv_name w') = Some d
    \<and> nic_up d \<and> nic_ipv4 d = Some ([10, 0, 0, 1], 32)"
proof -
  obtain w' where w': "tunnel_init platform0 config0 (-1) (tunnel0 []) = (0, w')" using tunnel_init0 by blast
  have "dev_inv (tunnel0 [])" by (simp add: dev_inv_def tunnel0_def)
  moreover have "hev_config_get_tunnel_ipv4_address config0 = Some ''10.0.0.1''" "pton4 platform0 ''10.0.0.1'' = Some [10, 0, 0, 1]"
    by (simp_all add: device_defs config0_def config_defaults_def)
  ultimately show ?thesis using tunnel_device_configured [OF _ _ w'] w' by auto
qed

theorem tunnel_failed_setting_leaks_witness:
  "\<exists>w'. hev_socks5_tunnel_init platform0 config0 (-1) (tunnel0 [0, 0, -1]) = Some (-1, w') \<and> open_set w' = {3, 2, 1, 0}"
proof -
  have "fst (tunnel_init platform0 config0 (-1) (tunnel0 [0, 0, -1])) < 0" by (simp add: start_defs device_defs)
  moreover have "\<exists>w1. hev_tunnel_open (picked platform0) (hev_config_get_tunnel_name config0) (hev_config_get_tunnel_multi_queue config0)
      (tunnel0 [0, 0, -1]) = (3, w1)" by (simp add: start_defs device_defs)
  ultimately show ?thesis
    using tunnel_failed_setting_leaks [OF tunnel0_idle, of "-1" platform0 config0 "[0, 0, -1]" 3] by (auto simp: tunnel0_def)
qed

lemma restart0: "\<exists>w1 w2. hev_socks5_tunnel_init platform0 config0 9 (tunnel0 [0, 0, 0, 0, 0, 0, 0, 0, 0, -1]) = Some (0, w1) \<and> tn_tcp w1 \<noteq> None
    \<and> hev_socks5_tunnel_fini config0 w1 = Some w2 \<and> fst (dev_res w2) < 0"
  by (simp add: start_defs hev_socks5_tunnel_fini_def mapped_dns_fini_def event_task_fini_def lwip_io_task_fini_def lwip_timer_task_fini_def
      gateway_fini_def tunnel_fini_def hev_task_unref_def dev_close_def sys_close_def)

theorem failed_restart_frees_twice_witness:
  "\<exists>w1 w2. hev_socks5_tunnel_init platform0 config0 9 (tunnel0 [0, 0, 0, 0, 0, 0, 0, 0, 0, -1]) = Some (0, w1)
    \<and> hev_socks5_tunnel_fini config0 w1 = Some w2 \<and> hev_socks5_tunnel_init platform0 config0 9 w2 = None"
proof -
  obtain w1 w2 where w: "hev_socks5_tunnel_init platform0 config0 9 (tunnel0 [0, 0, 0, 0, 0, 0, 0, 0, 0, -1]) = Some (0, w1)" "tn_tcp w1 \<noteq> None"
    "hev_socks5_tunnel_fini config0 w1 = Some w2" "fst (dev_res w2) < 0" using restart0 by blast
  have "hev_socks5_tunnel_init platform0 config0 9 w2 = None"
    by (rule failed_restart_frees_twice [OF tunnel0_idle config0_size w(1,2,3) _ w(4)]) simp
  with w show ?thesis by blast
qed

end
