(* ===== verification/Device_Backends.thy ===== *)
theory Device_Backends
  imports Tunnel_Life
begin

text \<open>
  The network device on other systems: \<open>hev-tunnel-freebsd.c\<close>, \<open>hev-tunnel-netbsd.c\<close> and \<open>hev-tunnel-macos.c\<close> (on macOS itself). The locale
  \<open>device_backend\<close> is what the start of the tunnel needs of the operations; Linux and the three others are instances. The state is
  that of \<open>Tunnel_Device\<close>.
\<close>

section \<open>Addresses with masks\<close>

text \<open>
  The mask of an IPv6 prefix. \<open>bytes\<close> points to the 16 bytes of an address in a \<open>struct sockaddr_in6\<close>, which are followed by the four bytes of
  \<open>sin6_scope_id\<close>; an access behind these is outside the object.
\<close>

function zero_from :: "nat \<Rightarrow> byte list \<Rightarrow> byte list" where
  "zero_from i bytes = (if i < 16 then zero_from (Suc i) (bytes[i := 0]) else bytes)"
  by pat_completeness auto
termination by (relation "measure (\<lambda>(i, bytes). 16 - i)") auto

declare zero_from.simps [simp del]

definition prefixmask6 :: "nat \<Rightarrow> byte list option" where
  "prefixmask6 plen =
     (let bytes = replicate 16 0xFF @ replicate 4 0; i = plen div 8 in
      if i < length bytes then
        let bytes = bytes[i := push_bit (plen mod 8) (bytes ! i)];
            plen = plen + plen mod 8 in
        Some (take 16 (zero_from (plen div 8) bytes))
      else None)"

section \<open>Operations common to the three systems\<close>

definition bsd_set_mtu :: "int \<Rightarrow> 'a device_scheme \<Rightarrow> int \<times> 'a device_scheme" where
  "bsd_set_mtu mtu = dev_with (\<lambda>w. let (res, w) = dev_ioctl (\<lambda>d. d\<lparr>nic_mtu := mtu\<rparr>) w in (posix res, w))"

definition bsd_set_state :: "int \<Rightarrow> 'a device_scheme \<Rightarrow> int \<times> 'a device_scheme" where
  "bsd_set_state state = dev_with (\<lambda>w.
     let (res, w) = dev_ioctl id w in
     if res < 0 then (posix res, w)
     else let (res, w) = dev_ioctl (\<lambda>d. d\<lparr>nic_up := state \<noteq> 0\<rparr>) w in (posix res, w))"

text \<open>Address and mask go to the kernel in one request.\<close>

definition bsd_set_ipv4 :: "(string \<Rightarrow> byte list option) \<Rightarrow> string \<Rightarrow> nat \<Rightarrow> 'a device_scheme \<Rightarrow> int \<times> 'a device_scheme" where
  "bsd_set_ipv4 pton addr plen = dev_with (\<lambda>w. case pton addr of
      None \<Rightarrow> (0, w)
    | Some b \<Rightarrow> let (res, w) = dev_ioctl (\<lambda>d. d\<lparr>nic_ipv4 := Some (b, mask_len (prefixmask4 plen))\<rparr>) w in (posix res, w))"

definition bsd_set_ipv6 :: "(string \<Rightarrow> byte list option) \<Rightarrow> string \<Rightarrow> nat \<Rightarrow> 'a device_scheme \<Rightarrow> (int \<times> 'a device_scheme) option" where
  "bsd_set_ipv6 pton addr plen w =
     (let (fd, w) = dev_socket w in
      if fd < 0 then Some (-1, w)
      else case pton addr of
        None \<Rightarrow> Some (0, dev_close fd w)
      | Some b \<Rightarrow> do {
          mask \<leftarrow> prefixmask6 plen;
          let (res, w) = dev_ioctl (\<lambda>d. d\<lparr>nic_ipv6 := (b, mask_len mask) # nic_ipv6 d\<rparr>) w;
          Some (posix res, dev_close fd w) })"

section \<open>FreeBSD and NetBSD\<close>

text \<open>Here a device outlives its descriptor, and is destroyed by a request of its own.\<close>

definition bsd_fd_close :: "int \<Rightarrow> 'a device_scheme \<Rightarrow> 'a device_scheme" where
  "bsd_fd_close fd w = w\<lparr>dv_sys := sys_close fd (dv_sys w), dv_tuns := filter (\<lambda>e. fst e \<noteq> fd) (dv_tuns w)\<rparr>"

definition attach :: "int \<Rightarrow> string \<Rightarrow> 'a device_scheme \<Rightarrow> 'a device_scheme" where
  "attach fd n w = w\<lparr>dv_nics := (dv_nics w)(n \<mapsto> (case dv_nics w n of None \<Rightarrow> new_nic False | Some d \<Rightarrow> d)), dv_tuns := (fd, n) # dv_tuns w\<rparr>"

definition rename :: "int \<Rightarrow> string \<Rightarrow> string \<Rightarrow> 'a device_scheme \<Rightarrow> 'a device_scheme" where
  "rename fd old n w = w\<lparr>dv_nics := (dv_nics w)(old := None, n := dv_nics w old),
     dv_tuns := map (\<lambda>(f, m). if f = fd then (f, n) else (f, m)) (dv_tuns w)\<rparr>"

text \<open>
  The name of the device follows \<open>/dev/\<close> in a buffer of 256 bytes. If there is no such device, one is made, and the name that the kernel has picked for it
  is changed. Without a name the copy reads through \<open>NULL\<close> (\<open>None\<close>).
\<close>

definition freebsd_open :: "string \<Rightarrow> string option \<Rightarrow> 'a device_scheme \<Rightarrow> (int \<times> 'a device_scheme) option" where
  "freebsd_open kname name w =
     (let (tfd, w) = dev_socket w in
      if tfd \<ge> 0 then
        (case name of
           None \<Rightarrow> None
         | Some n \<Rightarrow> Some (tfd, (attach tfd (take 250 n) w)\<lparr>dv_name := take (IFNAMSIZ - 1) n\<rparr>))
      else
        let (tfd, w) = dev_socket w in
        if tfd < 0 then Some (-1, w)
        else let w = attach tfd kname w; (res, w) = dev_res w in
        if res < 0 then Some (-1, bsd_fd_close tfd w)
        else let (sfd, w) = dev_socket w in
        if sfd < 0 then Some (-1, bsd_fd_close tfd w)
        else (case name of
           None \<Rightarrow> None
         | Some n \<Rightarrow>
             let (res, w) = dev_res w; w = dev_close sfd w in
             if res < 0 then Some (-1, bsd_fd_close tfd w)
             else Some (tfd, (rename tfd kname (take 255 n) w)\<lparr>dv_name := take (IFNAMSIZ - 1) n\<rparr>)))"

definition netbsd_open :: "string option \<Rightarrow> 'a device_scheme \<Rightarrow> (int \<times> 'a device_scheme) option" where
  "netbsd_open name w =
     (let (fd, w) = dev_socket w in
      if fd < 0 then Some (-1, w)
      else let (res, w) = dev_res w in
      if res < 0 then Some (-1, bsd_fd_close fd w)
      else (case name of
         None \<Rightarrow> None
       | Some n \<Rightarrow> Some (fd, (attach fd (take 250 n) w)\<lparr>dv_name := take (IFNAMSIZ - 1) n\<rparr>)))"

definition bsd_close :: "int \<Rightarrow> 'a device_scheme \<Rightarrow> 'a device_scheme" where
  "bsd_close fd w =
     (let (sfd, w) = dev_socket (bsd_fd_close fd w) in
      if sfd < 0 then w
      else let (res, w) = dev_ioctl id w;
               w = (if res < 0 then w else w\<lparr>dv_nics := (dv_nics w)(dv_name w := None)\<rparr>) in
        dev_close sfd w)"

section \<open>macOS\<close>

text \<open>
  \<open>unit_of\<close> is what \<open>sscanf\<close> reads from a name after \<open>utun\<close>; \<open>ifname\<close> is the kernel's name for a unit, of which 0 means that it picks one.
\<close>

definition macos_open :: "(string \<Rightarrow> u32 option) \<Rightarrow> (u32 \<Rightarrow> string) \<Rightarrow> string option \<Rightarrow> 'a device_scheme \<Rightarrow> (int \<times> 'a device_scheme) option" where
  "macos_open unit_of ifname name w =
     (let (fd, w) = dev_socket w in
      if fd < 0 then Some (-1, w)
      else let (res, w) = dev_res w in
      if res < 0 then Some (posix res, dev_close fd w)
      else (case name of
         None \<Rightarrow> None
       | Some n \<Rightarrow>
           let sc_unit = (case unit_of n of None \<Rightarrow> 0 | Some u \<Rightarrow> u + 1);
               (res, w) = dev_res w in
           if res < 0 then Some (posix res, dev_close fd w)
           else let w = attach fd (ifname sc_unit) w;
                    (res, w) = dev_res w in
           if res < 0 then Some (posix res, dev_close fd w)
           else let (res, w) = dev_res w in
           if res < 0 then Some (posix res, dev_close fd w)
           else Some (fd, w\<lparr>dv_name := ifname sc_unit\<rparr>)))"

definition macos_close :: "int \<Rightarrow> 'a device_scheme \<Rightarrow> 'a device_scheme" where
  "macos_close fd w = dev_close fd w"

section \<open>The same operations in the other files\<close>

text \<open>NetBSD and macOS have the settings of FreeBSD word for word, NetBSD also the way to close; polling is as on Linux.\<close>

definition netbsd_close :: "int \<Rightarrow> 'a device_scheme \<Rightarrow> 'a device_scheme" where
  "netbsd_close = bsd_close"

definition netbsd_set_mtu :: "int \<Rightarrow> 'a device_scheme \<Rightarrow> int \<times> 'a device_scheme" where
  "netbsd_set_mtu = bsd_set_mtu"

definition netbsd_set_state :: "int \<Rightarrow> 'a device_scheme \<Rightarrow> int \<times> 'a device_scheme" where
  "netbsd_set_state = bsd_set_state"

definition netbsd_set_ipv4 :: "(string \<Rightarrow> byte list option) \<Rightarrow> string \<Rightarrow> nat \<Rightarrow> 'a device_scheme \<Rightarrow> int \<times> 'a device_scheme" where
  "netbsd_set_ipv4 = bsd_set_ipv4"

definition netbsd_set_ipv6 :: "(string \<Rightarrow> byte list option) \<Rightarrow> string \<Rightarrow> nat \<Rightarrow> 'a device_scheme \<Rightarrow> (int \<times> 'a device_scheme) option" where
  "netbsd_set_ipv6 = bsd_set_ipv6"

definition macos_set_mtu :: "int \<Rightarrow> 'a device_scheme \<Rightarrow> int \<times> 'a device_scheme" where
  "macos_set_mtu = bsd_set_mtu"

definition macos_set_state :: "int \<Rightarrow> 'a device_scheme \<Rightarrow> int \<times> 'a device_scheme" where
  "macos_set_state = bsd_set_state"

definition macos_set_ipv4 :: "(string \<Rightarrow> byte list option) \<Rightarrow> string \<Rightarrow> nat \<Rightarrow> 'a device_scheme \<Rightarrow> int \<times> 'a device_scheme" where
  "macos_set_ipv4 = bsd_set_ipv4"

definition macos_set_ipv6 :: "(string \<Rightarrow> byte list option) \<Rightarrow> string \<Rightarrow> nat \<Rightarrow> 'a device_scheme \<Rightarrow> (int \<times> 'a device_scheme) option" where
  "macos_set_ipv6 = bsd_set_ipv6"

definition freebsd_add_task :: "int \<Rightarrow> 'a device_scheme \<Rightarrow> int \<times> 'a device_scheme" where
  "freebsd_add_task = hev_tunnel_add_task"

definition freebsd_del_task :: "int \<Rightarrow> 'a device_scheme \<Rightarrow> 'a device_scheme" where
  "freebsd_del_task = hev_tunnel_del_task"

definition netbsd_add_task :: "int \<Rightarrow> 'a device_scheme \<Rightarrow> int \<times> 'a device_scheme" where
  "netbsd_add_task = hev_tunnel_add_task"

definition netbsd_del_task :: "int \<Rightarrow> 'a device_scheme \<Rightarrow> 'a device_scheme" where
  "netbsd_del_task = hev_tunnel_del_task"

definition macos_add_task :: "int \<Rightarrow> 'a device_scheme \<Rightarrow> int \<times> 'a device_scheme" where
  "macos_add_task = hev_tunnel_add_task"

definition macos_del_task :: "int \<Rightarrow> 'a device_scheme \<Rightarrow> 'a device_scheme" where
  "macos_del_task = hev_tunnel_del_task"

lemmas same_code = netbsd_set_mtu_def netbsd_set_state_def netbsd_set_ipv4_def netbsd_set_ipv6_def
  macos_set_mtu_def macos_set_state_def macos_set_ipv4_def macos_set_ipv6_def

section \<open>The settings of a start\<close>

text \<open>The part of \<open>tunnel_init\<close> that follows the opening, over any system's operations.\<close>

definition backend_settings ::
  "(int \<Rightarrow> tunnel \<Rightarrow> int \<times> tunnel) \<Rightarrow> ((string \<Rightarrow> byte list option) \<Rightarrow> string \<Rightarrow> nat \<Rightarrow> tunnel \<Rightarrow> int \<times> tunnel)
    \<Rightarrow> ((string \<Rightarrow> byte list option) \<Rightarrow> string \<Rightarrow> nat \<Rightarrow> tunnel \<Rightarrow> (int \<times> tunnel) option) \<Rightarrow> (int \<Rightarrow> tunnel \<Rightarrow> int \<times> tunnel)
    \<Rightarrow> platform \<Rightarrow> hev_config \<Rightarrow> tunnel \<Rightarrow> (int \<times> tunnel) option" where
  "backend_settings set_mtu set_ipv4 set_ipv6 set_state pl c = init_steps
     [Some \<circ> set_mtu (sint (hev_config_get_tunnel_mtu c)),
      Some \<circ> if_set (hev_config_get_tunnel_ipv4_address c) (\<lambda>a. set_ipv4 (pton4 pl) a 32),
      (\<lambda>w. case hev_config_get_tunnel_ipv6_address c of None \<Rightarrow> Some (0, w) | Some a \<Rightarrow> set_ipv6 (pton6 pl) a 128 w),
      Some \<circ> set_state 1]"

section \<open>The mask of a prefix\<close>

text \<open>The mask it should be.\<close>

definition mask6 :: "nat \<Rightarrow> byte list" where
  "mask6 plen = take 16 (replicate (plen div 8) 0xFF @ push_bit (8 - plen mod 8) 0xFF # replicate 16 0)"

lemma zero_from_eq: "i \<le> 16 \<Longrightarrow> length bytes = 20 \<Longrightarrow> zero_from i bytes = take i bytes @ replicate (16 - i) 0 @ drop 16 bytes"
proof (induction i bytes rule: zero_from.induct)
  case (1 i bytes)
  show ?case
  proof (cases "i < 16")
    case True
    have "take (Suc i) (bytes[i := 0]) = take i bytes @ [0]" using True 1(3) by (simp add: take_Suc_conv_app_nth)
    moreover have "replicate (16 - i) (0 :: byte) = 0 # replicate (16 - Suc i) 0"
      using True by (metis Suc_diff_Suc replicate_Suc)
    ultimately show ?thesis using True 1 by (subst zero_from.simps) simp
  next
    case False
    then show ?thesis using 1(2) by (subst zero_from.simps) simp
  qed
qed

text \<open>What the code computes: below a nibble the byte is cleared, and from a nibble on it is shifted the wrong way.\<close>

lemma prefixmask6_eq:
  assumes "plen \<le> 128"
  shows "prefixmask6 plen = Some (take 16 (replicate (plen div 8) 0xFF
    @ (if plen mod 8 < 4 then 0 else push_bit (plen mod 8) 0xFF) # replicate 16 0))"
proof -
  define q r where "q = plen div 8" and "r = plen mod 8"
  have p: "plen = 8 * q + r" "r < 8" "q \<le> 16" "q = 16 \<longrightarrow> r = 0" using assms unfolding q_def r_def by presburger+
  let ?b = "replicate 16 0xFF @ replicate 4 (0 :: byte)"
  let ?c = "?b[q := push_bit r (?b ! q)]"
  have i: "(plen + r) div 8 = (if r < 4 then q else Suc q)" 
    by (rule div_nat_eqI) (use p(1,2) in auto)
  have le: "(plen + r) div 8 \<le> 16" using p i by (auto split: if_splits)
  have "prefixmask6 plen = Some (take 16 (zero_from ((plen + r) div 8) ?c))"
    using p(3) by (simp add: prefixmask6_def Let_def q_def [symmetric] r_def [symmetric])
  also have "\<dots> = Some (take ((plen + r) div 8) ?c @ replicate (16 - (plen + r) div 8) 0)"
    using zero_from_eq [OF le, of ?c] le by simp
  also have "take ((plen + r) div 8) ?c @ replicate (16 - (plen + r) div 8) 0
      = take 16 (replicate q 0xFF @ (if r < 4 then 0 else push_bit r 0xFF) # replicate 16 0)"
  proof (cases "r < 4")
    case True
    have "replicate (16 - q) (0 :: byte) = 0 # replicate (15 - q) 0" if "q \<noteq> 16"
      using that p(3) replicate_Suc [of "15 - q" "0 :: byte"] by (simp add: Suc_diff_le [symmetric])
    then show ?thesis using True p(3) unfolding i by (cases "q = 16") (auto simp: take_Cons' min_def)
  next
    case False
    then have "q < 16" using p by auto
    then show ?thesis using i False by (simp add: take_Suc_conv_app_nth nth_append take_Cons' min_def)
  qed
  finally show ?thesis by (simp add: q_def r_def)
qed

text \<open>
  The mask of an IPv6 prefix is right exactly if the length of the prefix is a multiple of four: the bits of the last byte are counted from the
  wrong end.
\<close>

theorem prefixmask6_right_iff:
  assumes "plen \<le> 128"
  shows "prefixmask6 plen = Some (mask6 plen) \<longleftrightarrow> plen mod 8 = 0 \<or> plen mod 8 = 4"
proof -
  define r where "r = plen mod 8"
  have same: "take 16 (replicate (plen div 8) 0xFF @ x # replicate 16 0) = take 16 (replicate (plen div 8) 0xFF @ y # replicate 16 0)
      \<longleftrightarrow> x = y" if "plen div 8 < 16" for x y :: byte
    using that by (auto simp: take_Cons')
  have "r < 8" "plen div 8 < 16 \<or> r = 0" using assms unfolding r_def by presburger+
  moreover have "(if r < 4 then 0 else push_bit r 0xFF) = (push_bit (8 - r) 0xFF :: byte) \<longleftrightarrow> r = 0 \<or> r = 4" if "r < 8"
  proof -
    have "r \<in> {0, 1, 2, 3, 4, 5, 6, 7}" using that by auto
    then show ?thesis by (elim insertE) (simp_all add: push_bit_eq_mult)
  qed
  ultimately have final: "(if r < 4 then 0 else push_bit r 0xFF) = (push_bit (8 - r) 0xFF :: byte) \<longleftrightarrow> r = 0 \<or> r = 4"
    and q: "plen div 8 < 16 \<or> r = 0" by blast+
  show ?thesis
  proof (cases "r = 0")
    case True
    with final have e: "push_bit (8 - r) (0xFF :: byte) = (if r < 4 then 0 else push_bit r 0xFF)" by metis
    show ?thesis unfolding prefixmask6_eq [OF assms] mask6_def r_def [symmetric] e using True by simp
  next
    case False
    with q have lt: "plen div 8 < 16" by blast
    show ?thesis unfolding prefixmask6_eq [OF assms] mask6_def r_def [symmetric] option.inject same [OF lt] by (rule final)
  qed
qed

lemma concat_replicates: "concat (replicate n (replicate k x)) = replicate (n * k) x"
  by (induction n) (simp_all add: replicate_add)

lemma mask_len_128: "prefixmask6 128 = Some (replicate 16 0xFF)" "mask_len (replicate 16 0xFF) = 128"
proof -
  show "prefixmask6 128 = Some (replicate 16 0xFF)" using prefixmask6_eq [of 128] by simp
  have "map (bit (0xFF :: byte)) (rev [0..<8]) = replicate 8 True" by (simp add: upt_rec eval_nat_numeral)
  then show "mask_len (replicate 16 0xFF) = 128" by (simp only: mask_len_def map_replicate concat_replicates) simp
qed

section \<open>What a system's operations promise\<close>

text \<open>The contract of an operation that may fault: it does not.\<close>

definition dev_opt :: "(nic \<Rightarrow> nic \<Rightarrow> bool) \<Rightarrow> (tunnel \<Rightarrow> (int \<times> tunnel) option) \<Rightarrow> tunnel \<Rightarrow> bool" where
  "dev_opt R f w \<longleftrightarrow> (\<exists>r. f w = Some r \<and> dev_op R (\<lambda>_. r) w)"

lemma dev_opt_some: "dev_op R f w \<Longrightarrow> dev_opt R (Some \<circ> f) w"
  by (simp add: dev_opt_def dev_op_def)

lemma init_steps_op:
  assumes "dev_inv w" "dev_opt R f w" "\<And>w. dev_inv w \<Longrightarrow> dev_opt S (init_steps fs) w"
  shows "dev_opt (R OO S) (init_steps (f # fs)) w"
proof -
  obtain r w1 where f: "f w = Some (r, w1)" "dev_op R (\<lambda>_. (r, w1)) w" using assms(2) by (auto simp: dev_opt_def)
  have fr: "dev_frame {} w w1" using f(2) by (simp add: dev_op_def)
  obtain q w2 where g: "init_steps fs w1 = Some (q, w2)" "dev_op S (\<lambda>_. (q, w2)) w1"
    using assms(3) [OF dev_frame_inv [OF fr assms(1)]] by (auto simp: dev_opt_def)
  have "dv_name w1 = dv_name w" using fr by (simp add: dev_frame_def)
  moreover have "dev_frame {} w w2" using dev_frame_open_trans [OF fr] g(2) by (simp add: dev_op_def)
  ultimately show ?thesis using f g fr by (fastforce simp: dev_opt_def dev_op_def relcompp_apply)
qed

lemma init_steps_Nil_op: "dev_opt (=) (init_steps []) w"
  by (simp add: dev_opt_def dev_op_def dev_frame_def)

text \<open>A short name, which all buffers hold.\<close>

definition short_name :: "string option \<Rightarrow> bool" where
  "short_name name \<longleftrightarrow> (\<forall>n. name = Some n \<longrightarrow> length n < IFNAMSIZ)"

locale device_backend =
  fixes open_dev :: "string option \<Rightarrow> tunnel \<Rightarrow> (int \<times> tunnel) option"
    and set_mtu :: "int \<Rightarrow> tunnel \<Rightarrow> int \<times> tunnel"
    and set_ipv4 :: "(string \<Rightarrow> byte list option) \<Rightarrow> string \<Rightarrow> nat \<Rightarrow> tunnel \<Rightarrow> int \<times> tunnel"
    and set_ipv6 :: "(string \<Rightarrow> byte list option) \<Rightarrow> string \<Rightarrow> nat \<Rightarrow> tunnel \<Rightarrow> (int \<times> tunnel) option"
    and set_state :: "int \<Rightarrow> tunnel \<Rightarrow> int \<times> tunnel"
  assumes open_works: "open_dev name w = Some (fd, w') \<Longrightarrow> dev_inv w \<Longrightarrow> short_name name \<Longrightarrow>
      (if fd < 0 then open_set w' = open_set w \<and> device.more w' = device.more w
       else open_set w' = insert fd (open_set w) \<and> fd \<notin> open_set w \<and> dv_tuns w' = (fd, dv_name w') # dv_tuns w
         \<and> dv_nics w' (dv_name w') \<noteq> None \<and> device.more w' = device.more w \<and> dev_inv w')"
    and mtu_op: "dev_inv w \<Longrightarrow> dev_op (\<lambda>d d'. d' = d\<lparr>nic_mtu := m\<rparr>) (set_mtu m) w"
    and ipv4_op: "dev_inv w \<Longrightarrow> dev_op (\<lambda>d d'. d' = with_ipv4 (pton a) d) (set_ipv4 pton a 32) w"
    and ipv6_op: "dev_inv w \<Longrightarrow> dev_opt (with_ipv6 (pton a)) (set_ipv6 pton a 128) w"
    and state_op: "dev_inv w \<Longrightarrow> dev_op (\<lambda>d d'. d' = d\<lparr>nic_up := s \<noteq> 0\<rparr>) (set_state s) w"
begin

lemma settings_op:
  assumes "dev_inv w"
  shows "dev_opt (configured pl c) (backend_settings set_mtu set_ipv4 set_ipv6 set_state pl c) w"
proof -
  let ?R4 = "case hev_config_get_tunnel_ipv4_address c of None \<Rightarrow> (=) | Some a \<Rightarrow> (\<lambda>d d'. d' = with_ipv4 (pton4 pl a) d)"
  let ?R6 = "case hev_config_get_tunnel_ipv6_address c of None \<Rightarrow> (=) | Some a \<Rightarrow> with_ipv6 (pton6 pl a)"
  have v6: "dev_opt ?R6 (\<lambda>w. case hev_config_get_tunnel_ipv6_address c of None \<Rightarrow> Some (0, w) | Some a \<Rightarrow> set_ipv6 (pton6 pl) a 128 w) w"
    if "dev_inv w" for w
    using ipv6_op [OF that] by (cases "hev_config_get_tunnel_ipv6_address c") (auto simp: dev_opt_def dev_op_def dev_frame_def)
  have up: "dev_opt ((\<lambda>d d'. d' = d\<lparr>nic_up := True\<rparr>) OO (=)) (init_steps [Some \<circ> set_state 1]) w" if "dev_inv w" for w
    by (rule init_steps_op [OF that _ init_steps_Nil_op]) (use state_op [OF that, of 1] in \<open>auto intro: dev_opt_some\<close>)
  have v4: "dev_op ?R4 (if_set (hev_config_get_tunnel_ipv4_address c) (\<lambda>a. set_ipv4 (pton4 pl) a 32)) w" if "dev_inv w" for w
    by (rule if_set_op) (rule ipv4_op [OF that])
  have "dev_opt ((\<lambda>d d'. d' = d\<lparr>nic_mtu := sint (hev_config_get_tunnel_mtu c)\<rparr>) OO ?R4 OO ?R6 OO (\<lambda>d d'. d' = d\<lparr>nic_up := True\<rparr>) OO (=))
      (backend_settings set_mtu set_ipv4 set_ipv6 set_state pl c) w"
    unfolding backend_settings_def
    by (intro init_steps_op assms v6 up dev_opt_some mtu_op v4)
  then show ?thesis by (simp add: configured_def OO_eq)
qed

text \<open>A device that has been opened and set up is attached, up and configured.\<close>

lemma start_configures:
  assumes "dev_inv w" "short_name name" "open_dev name w = Some (fd, w1)" "0 \<le> fd"
    and "backend_settings set_mtu set_ipv4 set_ipv6 set_state pl c w1 = Some (0, w2)"
  shows "open_set w2 = insert fd (open_set w) \<and> (fd, dv_name w2) \<in> set (dv_tuns w2)
    \<and> (\<exists>d d'. dv_nics w2 (dv_name w2) = Some d' \<and> configured pl c d d')"
proof -
  have o: "open_set w1 = insert fd (open_set w)" "dv_tuns w1 = (fd, dv_name w1) # dv_tuns w" "dv_nics w1 (dv_name w1) \<noteq> None" "dev_inv w1"
    using open_works [OF assms(3,1,2)] assms(4) by simp_all
  have s: "dev_frame {} w1 w2" "\<And>d. dv_nics w1 (dv_name w1) = Some d \<Longrightarrow> \<exists>d'. dv_nics w2 (dv_name w1) = Some d' \<and> configured pl c d d'"
    using settings_op [OF o(4), of pl c] assms(5) by (auto simp: dev_opt_def dev_op_def)
  then show ?thesis using o by (auto simp: dev_frame_def)
qed

text \<open>A start that cannot configure the device does not fault.\<close>

lemma settings_return: "dev_inv w \<Longrightarrow> \<exists>r w'. backend_settings set_mtu set_ipv4 set_ipv6 set_state pl c w = Some (r, w')"
  using settings_op [of w pl c] by (auto simp: dev_opt_def)

end

subsection \<open>The systems\<close>

lemma dev_res_frame: "dev_res w = (r, w') \<Longrightarrow> dev_frame {} w w' \<and> dv_nics w' = dv_nics w"
  by (auto simp: dev_res_def dev_frame_def split_beta Let_def)

lemma hev_tunnel_ipv6_opt: "dev_inv w \<Longrightarrow> dev_opt (with_ipv6 (pton a)) (\<lambda>w. Some (hev_tunnel_set_ipv6 pton a 128 w)) w"
  using dev_opt_some [OF hev_tunnel_set_ipv6_op, of w pton a] by (simp add: dev_opt_def)

interpretation linux: device_backend "\<lambda>name w. Some (hev_tunnel_open kname name mq w)" hev_tunnel_set_mtu hev_tunnel_set_ipv4
  "\<lambda>pton a n w. Some (hev_tunnel_set_ipv6 pton a n w)" hev_tunnel_set_state for kname mq
proof unfold_locales
  fix name w fd w'
  assume "Some (hev_tunnel_open kname name mq w) = Some (fd, w')" "dev_inv w"
  then show "if fd < 0 then open_set w' = open_set w \<and> device.more w' = device.more w
       else open_set w' = insert fd (open_set w) \<and> fd \<notin> open_set w \<and> dv_tuns w' = (fd, dv_name w') # dv_tuns w
         \<and> dv_nics w' (dv_name w') \<noteq> None \<and> device.more w' = device.more w \<and> dev_inv w'"
    using hev_tunnel_open_works [of kname name mq w fd w'] by (simp split: if_splits)
qed (auto intro: hev_tunnel_set_mtu_op hev_tunnel_set_ipv4_op hev_tunnel_ipv6_opt hev_tunnel_set_state_op)

lemma bsd_set_mtu_op: "dev_inv w \<Longrightarrow> dev_op (\<lambda>d d'. d' = d\<lparr>nic_mtu := m\<rparr>) (bsd_set_mtu m) w"
  unfolding bsd_set_mtu_def by (rule dev_with_op, assumption, rule dev_ioctl_op)

lemma bsd_set_state_op: "dev_inv w \<Longrightarrow> dev_op (\<lambda>d d'. d' = d\<lparr>nic_up := s \<noteq> 0\<rparr>) (bsd_set_state s) w"
  unfolding bsd_set_state_def by (rule dev_with_op, assumption, rule dev_then_op, rule dev_ioctl_op) simp

lemma bsd_set_ipv4_op:
  assumes "dev_inv w"
  shows "dev_op (\<lambda>d d'. d' = with_ipv4 (pton a) d) (bsd_set_ipv4 pton a 32) w"
proof (cases "pton a")
  case None
  then show ?thesis unfolding bsd_set_ipv4_def with_ipv4_def by (simp add: dev_with_op [OF assms dev_skip_op])
next
  case (Some b)
  show ?thesis unfolding bsd_set_ipv4_def with_ipv4_def Some option.case prefixmask4_32 by (rule dev_with_op [OF assms], rule dev_ioctl_op)
qed

text \<open>With the length that the tunnel uses, 128, the mask is right and the request goes through a socket like the others.\<close>

lemma bsd_set_ipv6_with:
  "bsd_set_ipv6 pton a 128 w = Some (dev_with (\<lambda>w. case pton a of
      None \<Rightarrow> (0, w)
    | Some b \<Rightarrow> let (res, w) = dev_ioctl (\<lambda>d. d\<lparr>nic_ipv6 := (b, 128) # nic_ipv6 d\<rparr>) w in (posix res, w)) w)"
  by (simp add: bsd_set_ipv6_def dev_with_def mask_len_128 split_beta Let_def split: option.split)

lemma bsd_set_ipv6_op:
  assumes "dev_inv w"
  shows "dev_opt (with_ipv6 (pton a)) (bsd_set_ipv6 pton a 128) w"
proof -
  let ?body = "\<lambda>w. case pton a of None \<Rightarrow> (0, w)
    | Some b \<Rightarrow> let (res, w) = dev_ioctl (\<lambda>d. d\<lparr>nic_ipv6 := (b, 128) # nic_ipv6 d\<rparr>) w in (posix res, w)"
  have "dev_op (with_ipv6 (pton a)) ?body v" for v :: tunnel
  proof (cases "pton a")
    case None
    then show ?thesis by (simp add: with_ipv6_def dev_skip_op)
  next
    case (Some b)
    have "dev_op (\<lambda>d d'. d' = d\<lparr>nic_ipv6 := (b, 128) # nic_ipv6 d\<rparr>) ?body v" unfolding Some option.case by (rule dev_ioctl_op)
    then show ?thesis unfolding with_ipv6_def [abs_def] Some option.case by (fastforce simp: dev_op_def)
  qed
  from dev_with_op [OF assms this] show ?thesis by (simp add: dev_opt_def bsd_set_ipv6_with dev_op_def)
qed

lemmas bsd_ops = bsd_set_mtu_op bsd_set_ipv4_op bsd_set_ipv6_op bsd_set_state_op

lemma attach_facts:
  "dv_sys (attach fd n w) = dv_sys w" "dv_tuns (attach fd n w) = (fd, n) # dv_tuns w" "dv_nics (attach fd n w) n \<noteq> None"
  "device.more (attach fd n w) = device.more w" "dv_name (attach fd n w) = dv_name w"
  by (simp_all add: attach_def)

lemma bsd_fd_close_facts:
  "open_set (bsd_fd_close fd w) = open_set w - {fd}" "device.more (bsd_fd_close fd w) = device.more w"
  by (auto simp: bsd_fd_close_def sys_close_def)

lemma netbsd_open_works:
  assumes "netbsd_open name w = Some (fd, w')" "dev_inv w" "short_name name"
  shows "if fd < 0 then open_set w' = open_set w \<and> device.more w' = device.more w
       else open_set w' = insert fd (open_set w) \<and> fd \<notin> open_set w \<and> dv_tuns w' = (fd, dv_name w') # dv_tuns w
         \<and> dv_nics w' (dv_name w') \<noteq> None \<and> device.more w' = device.more w \<and> dev_inv w'"
proof -
  obtain f w1 where s: "dev_socket w = (f, w1)" by fastforce
  obtain r w2 where i: "dev_res w1 = (r, w2)" by fastforce
  note w2 = dev_frame_open_trans [OF _ conjunct1 [OF dev_res_frame [OF i]], of "{f}" w]
  show ?thesis
  proof (cases "f < 0")
    case True
    then show ?thesis using assms(1) s dev_socket_opens [OF s] by (auto simp: netbsd_open_def dev_frame_def)
  next
    case f: False
    then have fr: "dev_frame {f} w w2" using dev_socket_opens [OF s] w2 by simp
    show ?thesis
    proof (cases "r < 0")
      case True
      then show ?thesis using assms(1) s i f fr by (auto simp: netbsd_open_def dev_frame_def bsd_fd_close_facts)
    next
      case False
      then obtain n where n: "name = Some n" using assms(1) s i f by (auto simp: netbsd_open_def split: option.splits)
      then have t: "take 250 n = n" "take (IFNAMSIZ - 1) n = n" using assms(3) by (simp_all add: short_name_def IFNAMSIZ_def)
      have "fd = f" "w' = (attach f n w2)\<lparr>dv_name := n\<rparr>" using assms(1) s i f False n t by (auto simp: netbsd_open_def)
      then show ?thesis using f fr assms(2) attach_facts [of f n w2] by (auto simp: dev_frame_def dev_inv_def)
    qed
  qed
qed

interpretation netbsd: device_backend netbsd_open netbsd_set_mtu netbsd_set_ipv4 netbsd_set_ipv6 netbsd_set_state
  unfolding same_code by unfold_locales (rule netbsd_open_works bsd_ops; assumption)+

lemma dev_frame_trans_open: "dev_frame {} w w1 \<Longrightarrow> dev_frame F w1 w2 \<Longrightarrow> dev_frame F w w2"
  unfolding dev_frame_def by auto

lemma attach_inv: "dev_inv w \<Longrightarrow> fd \<in> open_set w \<Longrightarrow> dev_inv (attach fd n w)"
  by (simp add: dev_inv_def attach_def)

text \<open>A device that is made anew and renamed.\<close>

lemma freebsd_rename:
  assumes "dev_inv w" "dev_frame {f} w w1" "dev_frame {} (attach f kname w1) w2" "dv_nics w2 = dv_nics (attach f kname w1)"
  shows "let w' = (rename f kname n w2)\<lparr>dv_name := n\<rparr> in open_set w' = insert f (open_set w) \<and> f \<notin> open_set w
    \<and> dv_tuns w' = (f, n) # dv_tuns w \<and> dv_nics w' n \<noteq> None \<and> device.more w' = device.more w \<and> dev_inv w'"
proof -
  have "map (\<lambda>(g, m). if g = f then (g, n) else (g, m)) (dv_tuns w) = dv_tuns w"
    using assms(1,2) by (intro map_idI) (auto simp: dev_inv_def dev_frame_def)
  then show ?thesis using assms attach_facts [of f kname w1] by (auto simp: rename_def dev_frame_def dev_inv_def Let_def)
qed

lemma freebsd_open_works:
  assumes "freebsd_open kname name w = Some (fd, w')" "dev_inv w" "short_name name"
  shows "if fd < 0 then open_set w' = open_set w \<and> device.more w' = device.more w
       else open_set w' = insert fd (open_set w) \<and> fd \<notin> open_set w \<and> dv_tuns w' = (fd, dv_name w') # dv_tuns w
         \<and> dv_nics w' (dv_name w') \<noteq> None \<and> device.more w' = device.more w \<and> dev_inv w'"
proof -
  have short: "take 250 n = n" "take 255 n = n" "take (IFNAMSIZ - 1) n = n" if "name = Some n" for n
    using assms(3) that by (simp_all add: short_name_def IFNAMSIZ_def)
  obtain f0 w0 where s0: "dev_socket w = (f0, w0)" by fastforce
  show ?thesis
  proof (cases "f0 < 0")
    case False
    then obtain n where n: "name = Some n" using assms(1) s0 by (auto simp: freebsd_open_def split: option.splits)
    have "fd = f0" "w' = (attach f0 n w0)\<lparr>dv_name := n\<rparr>" using assms(1) s0 False n short [OF n] by (auto simp: freebsd_open_def)
    then show ?thesis using False dev_socket_opens [OF s0] assms(2) attach_facts [of f0 n w0] by (auto simp: dev_frame_def dev_inv_def)
  next
    case True
    have fr0: "dev_frame {} w w0" using dev_socket_opens [OF s0] True by simp
    obtain f w1 where s1: "dev_socket w0 = (f, w1)" by fastforce
    let ?wa = "attach f kname w1"
    obtain r w2 where r2: "dev_res ?wa = (r, w2)" by fastforce
    obtain g w3 where s3: "dev_socket w2 = (g, w3)" by fastforce
    obtain q w4 where r4: "dev_res w3 = (q, w4)" by fastforce
    show ?thesis
    proof (cases "f < 0")
      case neg: True
      then have "dev_frame {} w w1" using dev_socket_opens [OF s1] dev_frame_trans_open [OF fr0] by simp
      then show ?thesis using assms(1) s0 True s1 neg by (auto simp: freebsd_open_def dev_frame_def Let_def)
    next
      case pos: False
      have fr1: "dev_frame {f} w w1" using dev_socket_opens [OF s1] pos dev_frame_trans_open [OF fr0] by simp
      have fr2: "dev_frame {} ?wa w2" "dv_nics w2 = dv_nics ?wa" using dev_res_frame [OF r2] by simp_all
      have closed: "open_set (bsd_fd_close f v) = open_set w \<and> device.more (bsd_fd_close f v) = device.more w" if "dev_frame {} ?wa v" for v
        using that fr1 attach_facts [of f kname w1] by (auto simp: dev_frame_def bsd_fd_close_facts)
      have inv: "dev_inv w2"
        by (rule dev_frame_inv [OF fr2(1)], rule attach_inv) (use fr1 assms(2) in \<open>auto simp: dev_frame_def dev_inv_def\<close>)
      consider (early) "r < 0" | (nosock) "\<not> r < 0" "g < 0" | (sock) "\<not> r < 0" "\<not> g < 0" by blast
      then show ?thesis
      proof cases
        case early
        then have "fd = -1" "w' = bsd_fd_close f w2" using assms(1) s0 True s1 pos r2 by (simp_all add: freebsd_open_def Let_def)
        then show ?thesis using closed [OF fr2(1)] by simp
      next
        case nosock
        then have "fd = -1" "w' = bsd_fd_close f w3" using assms(1) s0 True s1 pos r2 s3 by (simp_all add: freebsd_open_def Let_def)
        moreover have "dev_frame {} ?wa w3" using dev_socket_opens [OF s3] nosock dev_frame_trans_open [OF fr2(1)] by simp
        ultimately show ?thesis using closed by simp
      next
        case sock
        then obtain n where n: "name = Some n"
          using assms(1) s0 True s1 pos r2 s3 by (auto simp: freebsd_open_def Let_def split: option.splits)
        have "dev_frame {g} w2 w3" "dv_nics w3 = dv_nics w2" using dev_socket_opens [OF s3] sock by simp_all
        then have fr5: "dev_frame {} w2 (dev_close g w4)" "dv_nics (dev_close g w4) = dv_nics w2"
          using dev_close_again [OF inv dev_frame_open_trans [of "{g}" w2 w3 w4]] dev_res_frame [OF r4] by simp_all
        note fr6 = dev_frame_trans_open [OF fr2(1) fr5(1)]
        have res: "(fd, w') = (if q < 0 then (-1, bsd_fd_close f (dev_close g w4)) else (f, (rename f kname n (dev_close g w4))\<lparr>dv_name := n\<rparr>))"
          using assms(1) s0 True s1 pos r2 s3 r4 sock n short [OF n] by (auto simp: freebsd_open_def Let_def)
        have "dv_nics (dev_close g w4) = dv_nics ?wa" using fr5(2) fr2(2) by simp
        from freebsd_rename [OF assms(2) fr1 fr6 this, of n] res closed [OF fr6] pos show ?thesis
          by (auto simp: Let_def split: if_splits)
      qed
    qed
  qed
qed

interpretation freebsd: device_backend "freebsd_open kname" bsd_set_mtu bsd_set_ipv4 bsd_set_ipv6 bsd_set_state for kname
  by unfold_locales (rule freebsd_open_works bsd_ops; assumption)+

lemma dev_close_frame:
  "dev_frame {f} w v \<Longrightarrow> open_set (dev_close f v) = open_set w \<and> device.more (dev_close f v) = device.more w"
  by (auto simp: dev_frame_def dev_close_more)

lemma macos_open_works:
  assumes "macos_open unit_of ifname name w = Some (fd, w')" "dev_inv w"
  shows "if fd < 0 then open_set w' = open_set w \<and> device.more w' = device.more w
       else open_set w' = insert fd (open_set w) \<and> fd \<notin> open_set w \<and> dv_tuns w' = (fd, dv_name w') # dv_tuns w
         \<and> dv_nics w' (dv_name w') \<noteq> None \<and> device.more w' = device.more w \<and> dev_inv w'"
proof -
  obtain f w1 where s1: "dev_socket w = (f, w1)" by fastforce
  obtain r w2 where r2: "dev_res w1 = (r, w2)" by fastforce
  obtain q w3 where r3: "dev_res w2 = (q, w3)" by fastforce
  show ?thesis
  proof (cases "f < 0")
    case True
    then show ?thesis using assms(1) s1 dev_socket_opens [OF s1] by (auto simp: macos_open_def dev_frame_def)
  next
    case f: False
    have fr2: "dev_frame {f} w w2" using dev_socket_opens [OF s1] f dev_frame_open_trans [of "{f}" w w1 w2] dev_res_frame [OF r2] by simp
    have fr3: "dev_frame {f} w w3" using dev_frame_open_trans [OF fr2] dev_res_frame [OF r3] by simp
    show ?thesis
    proof (cases "r < 0")
      case True
      then have "fd = -1" "w' = dev_close f w2" using assms(1) s1 r2 f by (simp_all add: macos_open_def posix_def)
      then show ?thesis using dev_close_frame [OF fr2] by simp
    next
      case r: False
      then obtain n where n: "name = Some n" using assms(1) s1 r2 f by (auto simp: macos_open_def split: option.splits)
      define u where "u = ifname (case unit_of n of None \<Rightarrow> 0 | Some u \<Rightarrow> u + 1)"
      let ?wa = "attach f u w3"
      obtain p w4 where r4: "dev_res ?wa = (p, w4)" by fastforce
      obtain e w5 where r5: "dev_res w4 = (e, w5)" by fastforce
      have fr5: "dev_frame {} ?wa w4" "dev_frame {} ?wa w5" "dv_nics w5 = dv_nics ?wa"
        using dev_res_frame [OF r4] dev_res_frame [OF r5] dev_frame_trans_open by auto
      have closed: "open_set (dev_close f v) = open_set w \<and> device.more (dev_close f v) = device.more w" if "dev_frame {} ?wa v" for v
        using that fr3 attach_facts [of f u w3] by (auto simp: dev_frame_def dev_close_more)
      have res: "(fd, w') = (if q < 0 then (-1, dev_close f w3) else if p < 0 then (-1, dev_close f w4)
          else if e < 0 then (-1, dev_close f w5) else (f, w5\<lparr>dv_name := u\<rparr>))"
        using assms(1) s1 r2 r3 r4 r5 f r n
        by (cases "q < 0"; cases "p < 0"; cases "e < 0") (simp_all add: macos_open_def posix_def u_def Let_def)
      show ?thesis
        using res f fr3 fr5 closed dev_close_frame [OF fr3] assms(2) attach_facts [of f u w3]
        by (auto simp: dev_frame_def dev_inv_def split: if_splits)
    qed
  qed
qed

interpretation macos: device_backend "macos_open unit_of ifname" macos_set_mtu macos_set_ipv4 macos_set_ipv6 macos_set_state for unit_of ifname
  unfolding same_code by unfold_locales (rule macos_open_works bsd_ops; assumption)+

text \<open>Closing a device gives its descriptor back and no other, and the device is gone unless the request to destroy it fails.\<close>

lemma bsd_close_gives_back:
  assumes "dev_inv w"
  shows "open_set (bsd_close fd w) = open_set w - {fd}"
proof -
  obtain s w1 where s: "dev_socket (bsd_fd_close fd w) = (s, w1)" by fastforce
  obtain r w2 where r: "dev_ioctl id w1 = (r, w2)" by fastforce
  have "open_set w2 = open_set w1" using dev_ioctl_frame(1) [OF r] by (simp add: dev_frame_def)
  moreover have "if s < 0 then open_set w1 = open_set w - {fd} else open_set w1 = insert s (open_set w - {fd}) \<and> s \<notin> open_set w - {fd}"
    using dev_socket_opens [OF s] by (auto simp: dev_frame_def bsd_fd_close_facts split: if_splits)
  ultimately show ?thesis using s r by (auto simp: bsd_close_def Let_def split: if_splits)
qed

section \<open>Properties\<close>

text \<open>
  C23. On FreeBSD, NetBSD and macOS, as on Linux, a device that has been opened and set up without an error is attached to the new descriptor, is up, has the
  configured MTU and, if an IPv4 address is configured that \<open>inet_pton\<close> accepts, this address with a mask of 32 bits; no other descriptor is left open. The name of the device is
  shorter than \<open>IFNAMSIZ\<close>. An address that \<open>inet_pton\<close> rejects is left out without an error (\<open>bad_address_accepted\<close>).
\<close>

theorem backends_configure:
  assumes "dev_inv w" "short_name name" "0 \<le> fd"
    and "freebsd_open kname name w = Some (fd, w1) \<and> backend_settings bsd_set_mtu bsd_set_ipv4 bsd_set_ipv6 bsd_set_state pl c w1 = Some (0, w2)
      \<or> netbsd_open name w = Some (fd, w1)
        \<and> backend_settings netbsd_set_mtu netbsd_set_ipv4 netbsd_set_ipv6 netbsd_set_state pl c w1 = Some (0, w2)
      \<or> macos_open unit_of ifname name w = Some (fd, w1)
        \<and> backend_settings macos_set_mtu macos_set_ipv4 macos_set_ipv6 macos_set_state pl c w1 = Some (0, w2)"
  shows "open_set w2 = insert fd (open_set w) \<and> (fd, dv_name w2) \<in> set (dv_tuns w2) \<and> (\<exists>d. dv_nics w2 (dv_name w2) = Some d
    \<and> nic_up d \<and> nic_mtu d = sint (hev_config_get_tunnel_mtu c)
    \<and> (\<forall>a b. hev_config_get_tunnel_ipv4_address c = Some a \<and> pton4 pl a = Some b \<longrightarrow> nic_ipv4 d = Some (b, 32)))"
proof -
  have "open_set w2 = insert fd (open_set w) \<and> (fd, dv_name w2) \<in> set (dv_tuns w2)
      \<and> (\<exists>d d'. dv_nics w2 (dv_name w2) = Some d' \<and> configured pl c d d')"
    using assms(4) freebsd.start_configures [OF assms(1,2) _ assms(3)] netbsd.start_configures [OF assms(1,2) _ assms(3)]
      macos.start_configures [OF assms(1,2) _ assms(3)] by blast
  moreover have "nic_up d' \<and> nic_mtu d' = sint (hev_config_get_tunnel_mtu c)
    \<and> (\<forall>a b. hev_config_get_tunnel_ipv4_address c = Some a \<and> pton4 pl a = Some b \<longrightarrow> nic_ipv4 d' = Some (b, 32))" if "configured pl c d d'" for d d'
    using that by (auto simp: configured_def with_ipv4_def with_ipv6_def relcompp_apply split: option.splits)
  ultimately show ?thesis by blast
qed

text \<open>
  Without a name for the device, which the configuration allows, the start faults on these systems as soon as the first calls have succeeded.
\<close>

theorem unnamed_device_faults:
  assumes "dev_socket w = (fd, w1)" "0 \<le> fd" "0 \<le> fst (dev_res w1)"
  shows "freebsd_open kname None w = None \<and> netbsd_open None w = None \<and> macos_open unit_of ifname None w = None"
  using assms by (simp add: freebsd_open_def netbsd_open_def macos_open_def split_beta Let_def)

section \<open>Witnesses\<close>

lemma backend_start0:
  "\<exists>w1 w2. netbsd_open (Some ''tun7'') (tunnel0 []) = Some (3, w1)
    \<and> backend_settings netbsd_set_mtu netbsd_set_ipv4 netbsd_set_ipv6 netbsd_set_state platform0 config0 w1 = Some (0, w2)"
  by (simp add: start_defs device_defs netbsd_open_def backend_settings_def same_code bsd_set_mtu_def bsd_set_ipv4_def bsd_set_state_def attach_def IFNAMSIZ_def)

theorem backends_configure_witness:
  "\<exists>w1 w2 d. netbsd_open (Some ''tun7'') (tunnel0 []) = Some (3, w1)
    \<and> backend_settings netbsd_set_mtu netbsd_set_ipv4 netbsd_set_ipv6 netbsd_set_state platform0 config0 w1 = Some (0, w2)
    \<and> dv_nics w2 (dv_name w2) = Some d \<and> nic_up d \<and> nic_ipv4 d = Some ([10, 0, 0, 1], 32)"
proof -
  obtain w1 w2 where r: "netbsd_open (Some ''tun7'') (tunnel0 []) = Some (3, w1)"
    "backend_settings netbsd_set_mtu netbsd_set_ipv4 netbsd_set_ipv6 netbsd_set_state platform0 config0 w1 = Some (0, w2)" using backend_start0 by blast
  have h: "dev_inv (tunnel0 [])" "short_name (Some ''tun7'')" "(0 :: int) \<le> 3" by (simp_all add: dev_inv_def tunnel0_def short_name_def IFNAMSIZ_def)
  have c: "hev_config_get_tunnel_ipv4_address config0 = Some ''10.0.0.1''" "pton4 platform0 ''10.0.0.1'' = Some [10, 0, 0, 1]"
    by (simp_all add: device_defs config0_def config_defaults_def)
  show ?thesis using backends_configure [OF h disjI2 [OF disjI1 [OF conjI [OF r]]]] r c by auto
qed

theorem unnamed_device_faults_witness: "netbsd_open None (tunnel0 []) = None"
  using unnamed_device_faults [of "tunnel0 []" 3] by (simp add: start_defs dev_socket_def sys_socket_def)

theorem prefixmask6_right_iff_witness: "prefixmask6 64 = Some (mask6 64) \<and> prefixmask6 57 \<noteq> Some (mask6 57)"
  using prefixmask6_right_iff [of 64] prefixmask6_right_iff [of 57] by simp

end
