(* ===== verification/Tunnel_Entry.thy ===== *)
theory Tunnel_Entry
  imports Tunnel_Life
begin

text \<open>
  The entry points of the applications (\<open>hev-main.c\<close>, \<open>hev-jni.c\<close>, \<open>olcbox_tun2socks_jni.c\<close>), and what they do to the descriptor of
  the device that the application hands over.
\<close>

section \<open>Operations\<close>

text \<open>
  \<open>init\<close>, \<open>opened\<close> and \<open>loaded\<close> are what libyaml and the file system make of the path, as for \<open>hev_config_init_from_file\<close>; the state is that of the
  configuration and of the tunnel.
\<close>

definition hev_socks5_tunnel_main_from_file ::
  "platform \<Rightarrow> bool \<Rightarrow> bool \<Rightarrow> yaml_document option \<Rightarrow> (tunnel \<Rightarrow> tunnel option) \<Rightarrow> int \<Rightarrow> hev_config \<Rightarrow> tunnel
    \<Rightarrow> (int \<times> hev_config \<times> tunnel) option" where
  "hev_socks5_tunnel_main_from_file pl init opened loaded tasks tun_fd c w =
     (let (res, c) = hev_config_init_from_file (pton4 pl) init opened loaded c in
      if res < 0 then Some (-1, c, w)
      else do { (res, w) \<leftarrow> hev_socks5_tunnel_main_inner pl c tasks tun_fd w; Some (res, c, w) })"

definition hev_socks5_tunnel_main_from_str ::
  "platform \<Rightarrow> bool \<Rightarrow> yaml_document option \<Rightarrow> (tunnel \<Rightarrow> tunnel option) \<Rightarrow> int \<Rightarrow> hev_config \<Rightarrow> tunnel
    \<Rightarrow> (int \<times> hev_config \<times> tunnel) option" where
  "hev_socks5_tunnel_main_from_str pl init loaded tasks tun_fd c w =
     (let (res, c) = hev_config_init_from_str (pton4 pl) init loaded c in
      if res < 0 then Some (-1, c, w)
      else do { (res, w) \<leftarrow> hev_socks5_tunnel_main_inner pl c tasks tun_fd w; Some (res, c, w) })"

definition hev_socks5_tunnel_main ::
  "platform \<Rightarrow> bool \<Rightarrow> bool \<Rightarrow> yaml_document option \<Rightarrow> (tunnel \<Rightarrow> tunnel option) \<Rightarrow> int \<Rightarrow> hev_config \<Rightarrow> tunnel
    \<Rightarrow> (int \<times> hev_config \<times> tunnel) option" where
  "hev_socks5_tunnel_main = hev_socks5_tunnel_main_from_file"

definition hev_socks5_tunnel_quit :: "(nat \<Rightarrow> int) \<Rightarrow> int \<Rightarrow> int option" where
  "hev_socks5_tunnel_quit seen res = hev_socks5_tunnel_stop seen res"

text \<open>The thread that \<open>native_start_service\<close> makes: it does not close the descriptor, nor does it look at the result.\<close>

definition thread_handler ::
  "platform \<Rightarrow> bool \<Rightarrow> bool \<Rightarrow> yaml_document option \<Rightarrow> (tunnel \<Rightarrow> tunnel option) \<Rightarrow> int \<Rightarrow> hev_config \<Rightarrow> tunnel
    \<Rightarrow> (hev_config \<times> tunnel) option" where
  "thread_handler pl init opened loaded tasks fd c w = do {
     (res, c, w) \<leftarrow> hev_socks5_tunnel_main pl init opened loaded tasks fd c w;
     Some (c, w) }"

text \<open>The four counters as Java sees them, \<open>size_t\<close> read as \<open>jlong\<close>.\<close>

definition native_get_stats :: "tunnel \<Rightarrow> int list" where
  "native_get_stats w = (let s = hev_socks5_tunnel_stats w in
     map sint [stat_tx_packets s, stat_tx_bytes s, stat_rx_packets s, stat_rx_bytes s])"


definition stopTun2socksNative :: "(nat \<Rightarrow> int) \<Rightarrow> int \<Rightarrow> int option" where
  "stopTun2socksNative seen res = hev_socks5_tunnel_quit seen res"

definition getTun2socksStatsNative :: "bool \<Rightarrow> tunnel \<Rightarrow> int list option" where
  "getTun2socksStatsNative alloc w = (let s = hev_socks5_tunnel_stats w;
     values = map sint [stat_tx_packets s, stat_tx_bytes s, stat_rx_packets s, stat_rx_bytes s] in
     if \<not> alloc then None else Some values)"

section \<open>Descriptors\<close>








section \<open>Properties\<close>





end
