(* ===== verification/Task_Mutex.thy ===== *)
theory Task_Mutex
  imports Tunnel_Prelude
begin

text \<open>
  The lock of the task system (\<open>hev-task-mutex.c\<close>), which the tunnel holds around every call of the TCP/IP stack. Tasks are cooperative, so
  what a task does between two yields is one step: entering \<open>hev_task_mutex_lock\<close> up to the first yield, each later round of its loop, and
  \<open>hev_task_mutex_unlock\<close>. Shown are mutual exclusion, that no wake-up is lost, and what becomes of a task that
  takes the lock twice.
\<close>

section \<open>The lock and the tasks\<close>

type_synonym task = nat

text \<open>Where a task stands with respect to the lock.\<close>

datatype lock_pc = Outside | Waiting | Holding

text \<open>
  The list of waiters, whose nodes are on the stacks of the waiting tasks, the most recent first. A task that waits runs again only
  when it has been woken (\<open>woken\<close>).
\<close>

record mutex =
  locker :: bool
  waiters :: "task list"
  pcs :: "task \<Rightarrow> lock_pc"
  woken :: "task set"

definition hev_task_mutex_init :: "mutex \<Rightarrow> mutex" where
  "hev_task_mutex_init m = m\<lparr>locker := False, waiters := []\<rparr>"

text \<open>The call up to its first yield, or to its return.\<close>

definition hev_task_mutex_lock :: "task \<Rightarrow> mutex \<Rightarrow> mutex" where
  "hev_task_mutex_lock t m =
     (if locker m then m\<lparr>waiters := t # waiters m, pcs := (pcs m)(t := Waiting), woken := woken m - {t}\<rparr>
      else m\<lparr>locker := True, pcs := (pcs m)(t := Holding)\<rparr>)"

text \<open>A waiting task runs again: it tests the condition of the loop, and yields or goes on.\<close>

definition mutex_resume :: "task \<Rightarrow> mutex \<Rightarrow> mutex" where
  "mutex_resume t m =
     (if locker m \<or> hd (waiters m) \<noteq> t then m\<lparr>woken := woken m - {t}\<rparr>
      else m\<lparr>waiters := tl (waiters m), locker := True, pcs := (pcs m)(t := Holding)\<rparr>)"

definition hev_task_mutex_trylock :: "task \<Rightarrow> mutex \<Rightarrow> int \<times> mutex" where
  "hev_task_mutex_trylock t m =
     (if locker m then (-1, m) else (0, m\<lparr>locker := True, pcs := (pcs m)(t := Holding)\<rparr>))"

definition hev_task_mutex_unlock :: "task \<Rightarrow> mutex \<Rightarrow> mutex" where
  "hev_task_mutex_unlock t m =
     (let m = m\<lparr>locker := False, pcs := (pcs m)(t := Outside)\<rparr> in
      case waiters m of [] \<Rightarrow> m | w # _ \<Rightarrow> m\<lparr>woken := insert w (woken m)\<rparr>)"

text \<open>
  The steps: a task outside takes the lock or joins the waiters; one that waits and was woken runs; the holder gives the lock back, or asks for it
  once more; and any task may be woken for a reason of its own, such as input or the end of its session.
\<close>

inductive mutex_step :: "mutex \<Rightarrow> mutex \<Rightarrow> bool" where
  lock: "pcs m t = Outside \<Longrightarrow> mutex_step m (hev_task_mutex_lock t m)"
| trylock: "pcs m t = Outside \<Longrightarrow> mutex_step m (snd (hev_task_mutex_trylock t m))"
| resume: "pcs m t = Waiting \<Longrightarrow> t \<in> woken m \<Longrightarrow> mutex_step m (mutex_resume t m)"
| unlock: "pcs m t = Holding \<Longrightarrow> mutex_step m (hev_task_mutex_unlock t m)"
| relock: "pcs m t = Holding \<Longrightarrow> mutex_step m (hev_task_mutex_lock t m)"
| wakeup: "mutex_step m (m\<lparr>woken := insert t (woken m)\<rparr>)"

lemmas mutex_defs = hev_task_mutex_lock_def mutex_resume_def hev_task_mutex_trylock_def hev_task_mutex_unlock_def Let_def

section \<open>The invariant\<close>

text \<open>
  A holder is alone and the flag says so; the waiters are the tasks in the loop, once each; and whenever the lock is free the
  first waiter has been woken.
\<close>

definition mutex_inv :: "mutex \<Rightarrow> bool" where
  "mutex_inv m \<longleftrightarrow>
     (\<forall>t. pcs m t = Holding \<longrightarrow> locker m) \<and> (\<forall>t u. pcs m t = Holding \<longrightarrow> pcs m u = Holding \<longrightarrow> t = u)
   \<and> distinct (waiters m) \<and> (\<forall>t. t \<in> set (waiters m) \<longleftrightarrow> pcs m t = Waiting)
   \<and> (\<not> locker m \<longrightarrow> waiters m \<noteq> [] \<longrightarrow> hd (waiters m) \<in> woken m)"

lemma mutex_inv_step: "mutex_step m m' \<Longrightarrow> mutex_inv m \<Longrightarrow> mutex_inv m'"
proof (induction rule: mutex_step.induct)
  case (resume m t)
  then show ?case by (cases "waiters m") (auto simp: mutex_inv_def mutex_defs)
next
  case (unlock m t)
  then show ?case by (cases "waiters m") (auto simp: mutex_inv_def mutex_defs)
qed (auto simp: mutex_inv_def mutex_defs)

interpretation mutex: step_invariant mutex_step mutex_inv
  by unfold_locales (rule mutex_inv_step)

text \<open>Once the holder has asked again, nobody holds the lock and it stays taken.\<close>

definition stuck :: "task \<Rightarrow> mutex \<Rightarrow> bool" where
  "stuck t m \<longleftrightarrow> locker m \<and> (\<forall>u. pcs m u \<noteq> Holding) \<and> pcs m t = Waiting"

lemma stuck_step: "mutex_step m m' \<Longrightarrow> stuck t m \<Longrightarrow> stuck t m'"
  by (induction rule: mutex_step.induct) (auto simp: stuck_def mutex_defs)

interpretation stuck: step_invariant mutex_step "stuck t" for t
  by unfold_locales (rule stuck_step)

section \<open>Properties\<close>

definition mutex_idle :: "mutex \<Rightarrow> bool" where
  "mutex_idle m \<longleftrightarrow> \<not> locker m \<and> waiters m = [] \<and> (\<forall>t. pcs m t = Outside)"

text \<open>
  C29. Whatever the interleaving, at most one task holds the lock, and no wake-up is lost: whenever the lock is free and tasks wait for it, the
  first of them has been woken, and when it runs it gets the lock.
\<close>

theorem mutex_exclusive_live:
  assumes "mutex_idle m0" "mutex_step\<^sup>*\<^sup>* m0 m"
  shows "(\<forall>t u. pcs m t = Holding \<longrightarrow> pcs m u = Holding \<longrightarrow> t = u)
    \<and> (\<not> locker m \<longrightarrow> waiters m \<noteq> [] \<longrightarrow>
        mutex_step m (mutex_resume (hd (waiters m)) m) \<and> pcs (mutex_resume (hd (waiters m)) m) (hd (waiters m)) = Holding)"
proof -
  have "mutex_inv m" by (rule mutex.reach [OF assms(2)]) (use assms(1) in \<open>simp add: mutex_inv_def mutex_idle_def\<close>)
  moreover from this have "mutex_step m (mutex_resume (hd (waiters m)) m)" if "\<not> locker m" "waiters m \<noteq> []"
    using that by (intro mutex_step.resume) (metis mutex_inv_def list.set_sel(1))+
  ultimately show ?thesis by (auto simp: mutex_inv_def mutex_resume_def)
qed

text \<open>
  The lock is not recursive: if the task that holds it asks for it again, no task ever gets it from then on, and that task never
  returns, whoever is woken.
\<close>

theorem mutex_self_deadlock:
  assumes "mutex_idle m0" "mutex_step\<^sup>*\<^sup>* m0 m" "pcs m t = Holding" "mutex_step\<^sup>*\<^sup>* (hev_task_mutex_lock t m) m'"
  shows "pcs m' t = Waiting \<and> (\<forall>u. pcs m' u \<noteq> Holding)"
proof -
  have "mutex_inv m" by (rule mutex.reach [OF assms(2)]) (use assms(1) in \<open>simp add: mutex_inv_def mutex_idle_def\<close>)
  then have "stuck t (hev_task_mutex_lock t m)" using assms(3) by (auto simp: mutex_inv_def stuck_def hev_task_mutex_lock_def)
  then have "stuck t m'" by (rule stuck.reach [OF assms(4)])
  then show ?thesis by (simp add: stuck_def)
qed

section \<open>Witnesses\<close>

definition mutex0 :: mutex where
  "mutex0 = \<lparr>locker = False, waiters = [], pcs = (\<lambda>_. Outside), woken = {}\<rparr>"

lemma mutex0_run: "mutex_step\<^sup>*\<^sup>* mutex0 (hev_task_mutex_lock 1 mutex0)"
  "mutex_step\<^sup>*\<^sup>* mutex0 (hev_task_mutex_unlock 1 (hev_task_mutex_lock 2 (hev_task_mutex_lock 1 mutex0)))"
proof -
  have "mutex_step mutex0 (hev_task_mutex_lock 1 mutex0)" by (rule mutex_step.lock) (simp add: mutex0_def)
  moreover have "mutex_step (hev_task_mutex_lock 1 mutex0) (hev_task_mutex_lock 2 (hev_task_mutex_lock 1 mutex0))"
    by (rule mutex_step.lock) (simp add: mutex0_def mutex_defs)
  moreover have "mutex_step (hev_task_mutex_lock 2 (hev_task_mutex_lock 1 mutex0))
      (hev_task_mutex_unlock 1 (hev_task_mutex_lock 2 (hev_task_mutex_lock 1 mutex0)))"
    by (rule mutex_step.unlock) (simp add: mutex0_def mutex_defs)
  ultimately show "mutex_step\<^sup>*\<^sup>* mutex0 (hev_task_mutex_lock 1 mutex0)"
    "mutex_step\<^sup>*\<^sup>* mutex0 (hev_task_mutex_unlock 1 (hev_task_mutex_lock 2 (hev_task_mutex_lock 1 mutex0)))"
    by (meson rtranclp.rtrancl_into_rtrancl rtranclp.rtrancl_refl)+
qed

lemma mutex0_idle: "mutex_idle mutex0"
  by (simp add: mutex_idle_def mutex0_def)

theorem mutex_exclusive_live_witness:
  "pcs (mutex_resume 2 (hev_task_mutex_unlock 1 (hev_task_mutex_lock 2 (hev_task_mutex_lock 1 mutex0)))) 2 = Holding"
proof -
  have "waiters (hev_task_mutex_unlock 1 (hev_task_mutex_lock 2 (hev_task_mutex_lock 1 mutex0))) = [2]"
    "\<not> locker (hev_task_mutex_unlock 1 (hev_task_mutex_lock 2 (hev_task_mutex_lock 1 mutex0)))"
    by (simp_all add: mutex0_def mutex_defs)
  then show ?thesis using mutex_exclusive_live [OF mutex0_idle mutex0_run(2)] by simp
qed

theorem mutex_self_deadlock_witness:
  "pcs (hev_task_mutex_lock 1 (hev_task_mutex_lock 1 mutex0)) 1 = Waiting"
  using mutex_self_deadlock [OF mutex0_idle mutex0_run(1) _ rtranclp.rtrancl_refl, of 1] by (simp add: mutex0_def mutex_defs)

end
