(* ===== verification/Tunnel_Tasks.thy ===== *)
theory Tunnel_Tasks
  imports Tunnel_Life Task_Mutex
begin

text \<open>
  The tunnel at work (\<open>hev-socks5-tunnel.c\<close>): the tasks of the sessions, the timer task and the task that waits for the stop, interleaved over the
  list of sessions.
\<close>

section \<open>The timer task\<close>

datatype timer_call = Tcp_tmr | Ip_reass_tmr | Nd6_tmr | Ip6_reass_tmr

text \<open>The calls of one round; the counter \<open>i\<close> is an \<open>unsigned int\<close>.\<close>

definition timer_round :: "u32 \<Rightarrow> timer_call list" where
  "timer_round i = Tcp_tmr # (if i AND 3 = 0 then [Ip_reass_tmr, Nd6_tmr, Ip6_reass_tmr] else [])"

text \<open>The rounds while \<open>run\<close> holds.\<close>

fun timer_rounds :: "nat \<Rightarrow> u32 \<Rightarrow> timer_call list" where
  "timer_rounds 0 i = []"
| "timer_rounds (Suc n) i = timer_round i @ timer_rounds n (i + 1)"

definition lwip_timer_task_entry :: "nat \<Rightarrow> timer_call list" where
  "lwip_timer_task_entry n = timer_rounds n 1"

text \<open>How the task waits between two rounds: \<open>Some\<close> milliseconds, or until it is woken.\<close>

definition timer_wait :: "tunnel_sessions \<Rightarrow> nat option" where
  "timer_wait t = (if hev_list_first (session_set t) \<noteq> NULL then Some 250 else None)"

section \<open>Tasks of sessions\<close>

text \<open>The end of a session's task, after its run: the session leaves the list, and its reference is dropped.\<close>

definition hev_socks5_session_task_entry :: "ptr \<Rightarrow> tunnel_sessions \<Rightarrow> tunnel_sessions option" where
  "hev_socks5_session_task_entry node t = hev_socks5_tunnel_delete_session node t"

text \<open>The tunnel while it runs: \<open>run\<close>, the list, and the sessions that have a task.\<close>

record at_work =
  aw_run :: bool
  aw_list :: tunnel_sessions
  aw_live :: "ptr set"

text \<open>
  The steps: a connection or a flow starts a session, which only happens while \<open>run\<close> holds (\<open>tcp_accept_handler\<close>, \<open>udp_recv_handler\<close>);
  a session acts (its yielder); a session's task ends; the stop arrives. A step is there when its operation returns; that the operations
  do return in each reachable state is part of the property below. The node of a new session is a block of its own that is in no list.
\<close>

inductive work_step :: "hev_config \<Rightarrow> at_work \<Rightarrow> at_work \<Rightarrow> bool" for c where
  start: "aw_run s \<Longrightarrow> n \<notin> aw_live s \<Longrightarrow> n \<noteq> NULL \<Longrightarrow> n \<in> list_allocated (session_set (aw_list s)) \<Longrightarrow>
    hev_socks5_tunnel_insert_session c n (aw_list s) = Some t \<Longrightarrow> work_step c s (s\<lparr>aw_list := t, aw_live := insert n (aw_live s)\<rparr>)"
| act: "n \<in> aw_live s \<Longrightarrow> hev_socks5_tunnel_update_session c n (aw_list s) = Some t \<Longrightarrow> work_step c s (s\<lparr>aw_list := t\<rparr>)"
| finish: "n \<in> aw_live s \<Longrightarrow> hev_socks5_session_task_entry n (aw_list s) = Some t \<Longrightarrow>
    work_step c s (s\<lparr>aw_list := t, aw_live := aw_live s - {n}\<rparr>)"
| stop: "aw_run s \<Longrightarrow> event_task_entry (aw_list s) = Some (r, t) \<Longrightarrow> work_step c s (s\<lparr>aw_run := r, aw_list := t\<rparr>)"

section \<open>The work of the tunnel\<close>

text \<open>The list holds exactly the sessions with a task, the counter counts them, and after the stop each of them has been told to end.\<close>

definition work_inv :: "at_work \<Rightarrow> bool" where
  "work_inv s \<longleftrightarrow> (\<exists>xs. list_rep (session_set (aw_list s)) xs \<and> set xs = aw_live s \<and> session_count (aw_list s) = int (length xs))
     \<and> (\<not> aw_run s \<longrightarrow> aw_live s \<subseteq> set (ts_ended (aw_list s)))"

lemma work_invI:
  assumes "list_rep (session_set (aw_list s)) xs" "set xs = aw_live s" "session_count (aw_list s) = int (length xs)"
    and "\<not> aw_run s \<Longrightarrow> aw_live s \<subseteq> set (ts_ended (aw_list s))"
  shows "work_inv s"
  using assms by (auto simp: work_inv_def)

lemma list_rep_sessions_rep:
  "list_rep (session_set t) xs \<Longrightarrow> session_count t = int (length xs) \<Longrightarrow> sessions_rep (list_allocated (session_set t)) t (xs, ts_ended t)"
  by (simp add: sessions_rep_def)

lemma work_insert:
  assumes "list_rep (session_set t) xs" "session_count t = int (length xs)" "n \<notin> set xs" "n \<noteq> NULL" "n \<in> list_allocated (session_set t)"
  shows "\<exists>t'. hev_socks5_tunnel_insert_session c n t = Some t' \<and> list_rep (session_set t') (xs @ [n]) \<and> session_count t' = int (length xs) + 1"
  using session_insert_rep [OF list_rep_sessions_rep [OF assms(1,2)] assms(3-5), of c] by (auto simp: sessions_rep_def split: if_splits)

lemma work_update:
  assumes "list_rep (session_set t) xs" "session_count t = int (length xs)" "n \<in> set xs"
  shows "\<exists>t' ys. hev_socks5_tunnel_update_session c n t = Some t' \<and> list_rep (session_set t') ys \<and> set ys = set xs
    \<and> session_count t' = int (length ys) \<and> ts_ended t' = ts_ended t"
proof -
  have "distinct xs" using assms(1) by (simp add: list_rep_def)
  then have "set (remove1 n xs @ [n]) = set xs" using assms(3) by auto
  then show ?thesis
    using session_update_rep [OF list_rep_sessions_rep [OF assms(1,2)] assms(3), of c]
    by (fastforce simp: sessions_rep_def split: if_splits)
qed

lemma work_delete:
  assumes "list_rep (session_set t) xs" "session_count t = int (length xs)" "n \<in> set xs"
  shows "\<exists>t'. hev_socks5_session_task_entry n t = Some t' \<and> list_rep (session_set t') (remove1 n xs)
    \<and> session_count t' = int (length (remove1 n xs)) \<and> ts_ended t' = ts_ended t"
  using session_delete_rep [OF list_rep_sessions_rep [OF assms(1,2)] assms(3), where mx = 0 and c = config_defaults]
  by (auto simp: sessions_rep_def hev_socks5_session_task_entry_def)

lemma terminated_list:
  assumes "list_rep (session_set t) xs"
  shows "event_task_entry t = Some (False, t\<lparr>ts_ended := ts_ended t @ xs\<rparr>)"
  using terminate_from_chain [of t NULL xs] assms by (simp add: event_task_entry_def list_rep_def hev_list_first_def)

lemma work_inv_step:
  assumes step: "work_step c s s'" and inv: "work_inv s"
  shows "work_inv s'"
proof -
  obtain xs where xs: "list_rep (session_set (aw_list s)) xs" "set xs = aw_live s" "session_count (aw_list s) = int (length xs)"
    and told: "\<not> aw_run s \<longrightarrow> aw_live s \<subseteq> set (ts_ended (aw_list s))"
    using inv unfolding work_inv_def by blast
  have d: "distinct xs" using xs(1) by (simp add: list_rep_def)
  from step show ?thesis
  proof cases
    case (start n t)
    have t: "list_rep (session_set t) (xs @ [n])" "session_count t = int (length xs) + 1"
      using work_insert [OF xs(1,3), of n c] start xs(2) by simp_all
    show ?thesis unfolding start(1) by (rule work_invI [where xs = "xs @ [n]"]) (use t xs(2) start(2) in simp_all)
  next
    case (act n t)
    obtain ys where t: "list_rep (session_set t) ys" "set ys = set xs" "session_count t = int (length ys)" "ts_ended t = ts_ended (aw_list s)"
      using work_update [OF xs(1,3), of n c] act(2,3) xs(2) by fastforce
    show ?thesis unfolding act(1) by (rule work_invI [where xs = ys]) (use t xs(2) told in simp_all)
  next
    case (finish n t)
    have t: "list_rep (session_set t) (remove1 n xs)" "session_count t = int (length (remove1 n xs))" "ts_ended t = ts_ended (aw_list s)"
      using work_delete [OF xs(1,3), of n] finish(2,3) xs(2) by simp_all
    have "set (remove1 n xs) = aw_live s - {n}" using d xs(2) by simp
    then show ?thesis unfolding finish(1)
      by (intro work_invI [where xs = "remove1 n xs"]) (use t told in \<open>simp_all add: subset_iff\<close>)
  next
    case (stop r t)
    have t: "t = (aw_list s)\<lparr>ts_ended := ts_ended (aw_list s) @ xs\<rparr>" using terminated_list [OF xs(1)] stop(3) by simp
    show ?thesis unfolding stop(1) t by (rule work_invI [where xs = xs]) (use xs in simp_all)
  qed
qed

interpretation work: step_invariant "work_step c" work_inv for c
  by unfold_locales (rule work_inv_step)

section \<open>The rounds of the timer task\<close>

lemma and_3_mod: "(i :: u32) AND 3 = 0 \<longleftrightarrow> unat i mod 4 = 0"
proof -
  have "i AND 3 = take_bit 2 i" by (simp add: take_bit_eq_mask mask_eq_exp_minus_1)
  then have "i AND 3 = 0 \<longleftrightarrow> unat (take_bit 2 i) = 0" by (simp only: unat_eq_zero)
  then show ?thesis by (simp add: take_bit_eq_mod unat_mod)
qed

lemma round_of_nat: "timer_round (of_nat k) = Tcp_tmr # (if k mod 4 = 0 then [Ip_reass_tmr, Nd6_tmr, Ip6_reass_tmr] else [])"
proof -
  have "k mod 4294967296 mod 4 = k mod 4" by (rule mod_mod_cancel) simp
  then show ?thesis by (simp add: timer_round_def and_3_mod unat_of_nat)
qed

lemma rounds_of_nat: "timer_rounds (Suc n) (of_nat k) = timer_round (of_nat k) @ timer_rounds n (of_nat (Suc k))"
  by (simp add: add.commute)

lemma count_rounds:
  "count_list (timer_rounds n (of_nat (Suc k))) Tcp_tmr = n"
  "x \<noteq> Tcp_tmr \<Longrightarrow> count_list (timer_rounds n (of_nat (Suc k))) x = (k + n) div 4 - k div 4"
proof (induction n arbitrary: k)
  case (Suc n)
  {
    case 1
    show ?case unfolding rounds_of_nat using Suc.IH(1) [of "Suc k"] by (simp add: round_of_nat del: of_nat_Suc)
  next
    case 2
    then have "count_list (timer_round (of_nat (Suc k))) x = (if Suc k mod 4 = 0 then 1 else 0)"
      by (cases x) (simp_all add: round_of_nat del: of_nat_Suc)
    moreover have "Suc k div 4 = k div 4 + (if Suc k mod 4 = 0 then 1 else 0)" by (simp add: div_Suc)
    moreover have "Suc k div 4 \<le> (Suc k + n) div 4" by (rule div_le_mono) simp
    ultimately show ?case unfolding rounds_of_nat using Suc.IH(2) [of "Suc k", OF 2] by (simp del: of_nat_Suc)
  }
qed simp_all

section \<open>Properties\<close>

text \<open>
  C24. While the tunnel runs, and after it has been stopped, the list holds exactly the sessions that have a task, once each, and the counter counts them; whoever runs next,
  neither the insertion of a new session with a block of its own, nor the activity or the end of one that is in, nor the walk of the stop faults;
  and after the stop every session that still has a task has been told to end, so that none is forgotten.
\<close>

theorem tunnel_work_invariant:
  assumes "list_rep (session_set (aw_list s0)) []" "session_count (aw_list s0) = 0" "aw_live s0 = {}" "aw_run s0"
    and "(work_step c)\<^sup>*\<^sup>* s0 s"
  shows "\<exists>xs. list_rep (session_set (aw_list s)) xs \<and> set xs = aw_live s \<and> session_count (aw_list s) = int (card (aw_live s))
    \<and> (\<not> aw_run s \<longrightarrow> aw_live s \<subseteq> set (ts_ended (aw_list s)))
    \<and> (\<forall>n\<in>aw_live s. hev_socks5_session_task_entry n (aw_list s) \<noteq> None \<and> hev_socks5_tunnel_update_session c n (aw_list s) \<noteq> None)
    \<and> (\<forall>n. n \<notin> aw_live s \<and> n \<noteq> NULL \<and> n \<in> list_allocated (session_set (aw_list s))
         \<longrightarrow> hev_socks5_tunnel_insert_session c n (aw_list s) \<noteq> None)
    \<and> event_task_entry (aw_list s) \<noteq> None"
proof -
  have "work_inv s" by (rule work.reach [OF assms(5)]) (use assms(1-4) in \<open>simp add: work_inv_def\<close>)
  then obtain xs where xs: "list_rep (session_set (aw_list s)) xs" "set xs = aw_live s" "session_count (aw_list s) = int (length xs)"
    "\<not> aw_run s \<longrightarrow> aw_live s \<subseteq> set (ts_ended (aw_list s))" by (auto simp: work_inv_def)
  have "length xs = card (aw_live s)" using xs(1,2) distinct_card [of xs] by (simp add: list_rep_def)
  moreover have "hev_socks5_tunnel_insert_session c n (aw_list s) \<noteq> None"
    if "n \<notin> aw_live s" "n \<noteq> NULL" "n \<in> list_allocated (session_set (aw_list s))" for n
    using work_insert [OF xs(1,3), of n c] that xs(2) by auto
  moreover have "hev_socks5_session_task_entry n (aw_list s) \<noteq> None \<and> hev_socks5_tunnel_update_session c n (aw_list s) \<noteq> None" if "n \<in> aw_live s" for n
    using work_delete [OF xs(1,3), of n] work_update [OF xs(1,3), of n c] that xs(2) by auto
  ultimately show ?thesis
    using xs terminated_list [OF xs(1)] by (intro exI [of _ xs]) simp
qed

text \<open>
  A session that is told to end before its task has run forgets it: its run first sets the timeout for the connection and then the one for the
  handshake, so it goes exactly as if it had not been told.
\<close>

theorem early_termination_forgotten:
  "hev_socks5_session_run R saddr c klass (hev_socks5_set_timeout self 0) w = hev_socks5_session_run R saddr c klass self w"
  by (simp add: hev_socks5_session_run_def hev_socks5_client_connect_def hev_socks5_set_timeout_def hev_socks5_get_addr_family_def)

text \<open>
  In \<open>n\<close> rounds the timer task drives the timers of TCP \<open>n\<close> times, and those of the fragments and of the neighbours once for every four
  rounds, also when the counter has wrapped.
\<close>

theorem timer_task_rounds:
  "count_list (lwip_timer_task_entry n) x = (if x = Tcp_tmr then n else n div 4)"
  using count_rounds(1) [of n 0] count_rounds(2) [of _ n 0] by (simp add: lwip_timer_task_entry_def)

section \<open>Witnesses\<close>

definition at_work0 :: at_work where
  "at_work0 = \<lparr>aw_run = True, aw_list = sessions0, aw_live = {}\<rparr>"

theorem tunnel_work_invariant_witness:
  "\<exists>s. (work_step config_defaults)\<^sup>*\<^sup>* at_work0 s \<and> \<not> aw_run s \<and> aw_live s = {1} \<and> 1 \<in> set (ts_ended (aw_list s))
    \<and> hev_socks5_session_task_entry 1 (aw_list s) \<noteq> None \<and> hev_socks5_tunnel_update_session config_defaults 1 (aw_list s) \<noteq> None"
proof -
  obtain t where t: "hev_socks5_tunnel_insert_session config_defaults 1 sessions0 = Some t" "list_rep (session_set t) [1]"
    using work_insert [of sessions0 "[]" 1 config_defaults] sessions0_facts by auto
  let ?s = "at_work0\<lparr>aw_list := t\<lparr>ts_ended := ts_ended t @ [1]\<rparr>, aw_live := {1}, aw_run := False\<rparr>"
  have "work_step config_defaults at_work0 (at_work0\<lparr>aw_list := t, aw_live := {1}\<rparr>)"
    using work_step.start [of at_work0 1 config_defaults t] t(1) sessions0_facts(4) by (simp add: at_work0_def)
  moreover have "work_step config_defaults (at_work0\<lparr>aw_list := t, aw_live := {1}\<rparr>)
      (at_work0\<lparr>aw_list := t\<lparr>ts_ended := ts_ended t @ [1]\<rparr>, aw_live := {1}, aw_run := False\<rparr>)"
    using work_step.stop [of "at_work0\<lparr>aw_list := t, aw_live := {1}\<rparr>" False _ config_defaults] terminated_list [OF t(2)]
    by (simp add: at_work0_def)
  ultimately have r: "(work_step config_defaults)\<^sup>*\<^sup>* at_work0 ?s"
    by (meson converse_rtranclp_into_rtranclp rtranclp.rtrancl_refl)
  have "aw_live ?s \<subseteq> set (ts_ended (aw_list ?s)) \<and> hev_socks5_session_task_entry 1 (aw_list ?s) \<noteq> None
      \<and> hev_socks5_tunnel_update_session config_defaults 1 (aw_list ?s) \<noteq> None"
    using tunnel_work_invariant [OF _ _ _ _ r] sessions0_facts by (auto simp: at_work0_def)
  with r show ?thesis by (intro exI [of _ ?s]) simp
qed

end
