(* ===== verification/Logger.thy ===== *)
theory Logger
  imports Config
begin

text \<open>
  The logger (\<open>misc/hev-logger.c\<close>; \<open>core/src/hev-socks5-logger.c\<close> is the same code): the line that a message becomes. \<open>None\<close> is a read outside
  the message buffer.
\<close>

record logger =
  lg_fd :: int
  req_level :: int

fun level_number :: "log_level \<Rightarrow> int" where
  "level_number HEV_LOGGER_DEBUG = 0"
| "level_number HEV_LOGGER_INFO = 1"
| "level_number HEV_LOGGER_WARN = 2"
| "level_number HEV_LOGGER_ERROR = 3"

fun level_tag :: "log_level \<Rightarrow> string" where
  "level_tag HEV_LOGGER_DEBUG = ''[D] ''"
| "level_tag HEV_LOGGER_INFO = ''[I] ''"
| "level_tag HEV_LOGGER_WARN = ''[W] ''"
| "level_tag HEV_LOGGER_ERROR = ''[E] ''"

definition hev_logger_enabled :: "logger \<Rightarrow> log_level \<Rightarrow> bool" where
  "hev_logger_enabled lg level \<longleftrightarrow> level_number level \<ge> req_level lg \<and> lg_fd lg \<ge> 0"

text \<open>
  \<open>text\<close> is the formatted message; \<open>vsnprintf\<close> puts at most 1023 characters of it and a zero into the buffer, and returns its full
  length, which becomes the length of the segment that is written.
\<close>

definition hev_logger_log :: "logger \<Rightarrow> log_level \<Rightarrow> string \<Rightarrow> string \<Rightarrow> string option option" where
  "hev_logger_log lg level stamp text =
     (if level_number level < req_level lg \<or> lg_fd lg < 0 then Some None
      else
        let msg = take 1023 text @ [CHR 0x00]; n = length text in
        if n > 1024 then None
        else Some (Some (stamp @ level_tag level @ take n msg @ [CHR 0x0A])))"

text \<open>A message is written in full if it fits, and only if its level is enabled.\<close>

theorem logger_writes_line:
  assumes "length text < 1024"
  shows "hev_logger_log lg level stamp text =
    Some (if hev_logger_enabled lg level then Some (stamp @ level_tag level @ text @ [CHR 0x0A]) else None)"
  using assms by (auto simp: hev_logger_log_def hev_logger_enabled_def Let_def)

text \<open>A message of more than 1024 characters makes the logger write what follows the buffer on the stack.\<close>

theorem logger_overread:
  assumes "1024 < length text" "hev_logger_enabled lg level"
  shows "hev_logger_log lg level stamp text = None"
  using assms by (auto simp: hev_logger_log_def hev_logger_enabled_def Let_def)

end
