(* ===== verification/Spec2Isabelle.thy ===== *)
theory Spec2Isabelle
  imports Tree_Theorems Cache_Theorems DNS_Wire RingBuffer Handshake_Both Splice Task_Steps Tunnel_Windows Device_Backends Tunnel_Entry Tunnel_Tasks Logger
begin

text \<open>
  Verification of the native tunnel of Ghostlane, the C program under
  \<open>src/androidApp/src/main/jni/hev-socks5-tunnel/src\<close>. The tunnel reads IP packets from a TUN
  device, terminates TCP and UDP in a user-space stack, and carries every flow to a SOCKS5 server.
  A DNS server inside it answers queries with addresses of a private network, one per name, and a
  flow to such an address is opened by name. The C core also contains the server side of the
  protocol with its user database.

  \<^bold>\<open>Parts and theories.\<close>

  \<^item> \<open>Tunnel_Prelude\<close>, \<open>Bytes\<close>: machine types (\<open>ptr\<close>, \<open>u32\<close>, \<open>byte\<close>), option-monad lemmas, and
    bounds-checked access to byte buffers. Throughout, \<open>None\<close> is a fault of the C program: an access
    outside an object, through NULL, or to freed memory.
  \<^item> \<open>RBTree\<close>, \<open>RBTree_Shape\<close>, \<open>RBTree_Insert\<close>, \<open>RBTree_Erase\<close>, \<open>RBTree_Unlink\<close>, \<open>RBTree_Iter\<close>,
    \<open>RBTree_Search\<close>, \<open>Tree_Theorems\<close>: \<open>core/src/hev-rbtree.c\<close>. The tree is a heap of nodes whose first
    word packs the parent pointer with the colour; the loops are \<open>partial_function (option)\<close> and are
    proved to return. The shape of the heap is related to an algebraic tree with a zipper, the
    rebalancing loops to functions on it, and these to the red-black invariants. \<open>key_order\<close> is the
    interface of a comparison; it is interpreted with \<open>strcmp\<close> and with the comparison by length and bytes.
  \<^item> \<open>Hev_List\<close>: \<open>misc/hev-list.c\<close>; the locale \<open>lru_list\<close> is what the cache needs of it.
  \<^item> \<open>LRU_Cache\<close>, \<open>MappedDNS\<close>, \<open>MappedDNS_Runs\<close>, \<open>Cache_Theorems\<close>: the cache of \<open>hev-mapped-dns.c\<close>,
    whose tree, list, records and nodes refine a list of pairs in order of use (\<open>LRU_Cache\<close>).
  \<^item> \<open>DNS_Wire\<close>: \<open>hev_mapped_dns_handle\<close>, the DNS server, over byte buffers.
  \<^item> \<open>RingBuffer\<close>: \<open>misc/hev-ring-buffer.c\<close> with \<open>size_t\<close> arithmetic, refining a bounded queue (\<open>bounded_queue\<close>).
  \<^item> \<open>Authenticator\<close>: \<open>hev-socks5-user.c\<close>, \<open>hev-socks5-authenticator.c\<close> and the counting of references of
    \<open>hev-object-atomic.c\<close>; users live in a heap and in a red-black tree, and refine a map of passwords.
  \<^item> \<open>Task_IO\<close>: the loops of \<open>hev-task-io-socket.c\<close> that receive and send with \<open>MSG_WAITALL\<close>. A peer and
    a kernel are scripts: pieces of input, waits, time-outs, errors; how many bytes each attempt to
    send may take. A script that is used up is an end of file, or a kernel that takes everything.
  \<^item> \<open>Socks5_Addr\<close>, \<open>Socks5_Base\<close>: \<open>hev-socks5-misc.c\<close> and \<open>hev-socks5.c\<close>. \<open>inet_pton\<close> and \<open>getaddrinfo\<close>
    are parameters (\<open>resolver\<close>), of which only the lengths of their results are assumed
    (\<open>resolver_ok\<close>). The world (\<open>sys\<close>) has the stream, the settings, the results of the system calls
    to come, the open and the polled descriptors and a count of heap blocks.
  \<^item> \<open>Socks5_Client\<close>: \<open>hev-socks5-client.c\<close>, \<open>-client-tcp.c\<close>, \<open>-client-udp.c\<close>. The virtual functions
    are a record (\<open>client_class\<close>), filled by the two classes.
  \<^item> \<open>Socks5_Server\<close>, \<open>Server_Auth\<close>, \<open>Server_Handshake\<close>, \<open>Handshake_Both\<close>: \<open>hev-socks5-server.c\<close> and its
    composition with the client.
  \<^item> \<open>Lwip_Addr\<close>: \<open>misc/hev-utils.c\<close>, the conversion between addresses of the TCP/IP stack and SOCKS addresses,
    with the mapped names.
  \<^item> \<open>Config\<close>: \<open>hev-config.c\<close> over the table of nodes that libyaml makes of a document. \<open>strtoul\<close> is that of a 64-bit \<open>long\<close>.
  \<^item> \<open>Session_TCP\<close>: \<open>hev-socks5-session.c\<close> and \<open>hev-socks5-session-tcp.c\<close>. The splice and the callbacks of the stack
    are the steps of \<open>session_step\<close>, cut wherever the task may yield (and at some more places); chains of buffers, the receive window and
    the send buffer are taken from lwIP's sources. The locale \<open>step_invariant\<close> carries invariants to reachable states.
  \<^item> \<open>UDP_Relay\<close>: \<open>hev-socks5-udp.c\<close>, datagrams as frames in a stream or on an associated socket, and the relay of the
    server. A datagram socket is a script like a stream: batches of datagrams, waits, errors.
  \<^item> \<open>Session_UDP\<close>: \<open>hev-socks5-session-udp.c\<close>, the queue of a flow and its two directions; arrivals and the task are the
    steps of \<open>udp_session_step\<close>, in which datagrams also arrive while a send waits.
  \<^item> \<open>Tunnel_Sessions\<close>: \<open>hev-socks5-tunnel.c\<close>, the list of sessions on \<open>Hev_List\<close> and the callbacks that start
    sessions, with the parts of lwIP that call them (\<open>udp_input\<close>, the end of \<open>tcp_process\<close>).
  \<^item> \<open>Circular_Buffer\<close>, \<open>Splice\<close>: \<open>hev-circular-buffer.c\<close>, \<open>hev-task-io.c\<close> and \<open>hev-socks5-tcp.c\<close>, the forwarding of a TCP connection between two
    descriptors. The two variants of a direction, over a pipe and over a circular buffer, refine one function on a queue
    (\<open>queue_splice\<close>); the locale \<open>splice_direction\<close> is that contract, and the loop is treated once, in it.
  \<^item> \<open>Task_Mutex\<close>: \<open>hev-task-mutex.c\<close>, the lock between the tasks; \<open>mutex_step\<close> interleaves any number of tasks.
  \<^item> \<open>Cached_Tree\<close>, \<open>Task_Timer\<close>, \<open>Task_Scheduler\<close>, \<open>Task_Steps\<close>: the task system that everything runs on (\<open>hev-task-system-schedule.c\<close>, \<open>hev-task.c\<close>,
    \<open>hev-task-timer.c\<close>, \<open>hev-rbtree-cached.c\<close>). The run queue and the sleepers are trees as in \<open>RBTree\<close>; the locale \<open>cached_queue\<close> is
    what both need of the order of their keys. \<open>task_op\<close> is what a task can do, and the result of polling for input is a parameter.
  \<^item> \<open>Tunnel_Device\<close>: \<open>hev-tunnel-linux.c\<close> over the kernel's table of devices. \<open>dev_op\<close> is the contract of an operation.
  \<^item> \<open>Device_Backends\<close>: \<open>hev-tunnel-freebsd.c\<close>, \<open>hev-tunnel-netbsd.c\<close> and \<open>hev-tunnel-macos.c\<close>; the locale \<open>device_backend\<close> is what a start needs
    of a system, with four instances.
  \<^item> \<open>Tunnel_Windows\<close>: \<open>hev-tunnel-windows.c\<close> and \<open>misc/hev-wintun.c\<close> over the handles of the driver library, whose answers are a script.
  \<^item> \<open>Tunnel_Life\<close>: the rest of \<open>hev-socks5-tunnel.c\<close>, \<open>hev-main.c\<close> and the entry points of \<open>hev-jni.c\<close>: everything that a start
    acquires and an end gives back (\<open>owned\<close>), the reading task, the stop.
  \<^item> \<open>Tunnel_Tasks\<close>: the timer task and the tasks of the sessions; \<open>work_step\<close> interleaves them with arrivals and the stop.
  \<^item> \<open>Tunnel_Entry\<close>: the main functions of \<open>hev-main.c\<close> and the bindings of \<open>hev-jni.c\<close> and \<open>olcbox_tun2socks_jni.c\<close>.
  \<^item> \<open>Logger\<close>: \<open>misc/hev-logger.c\<close>, the line that a message becomes.

  \<^bold>\<open>What is shown.\<close> The tree and the list keep their invariants and do what their names say, on the
  words in memory (\<open>Tree_Theorems\<close>); the cache refines its specification, never faults, and an
  address that was handed out leads back to its name until enough other names were used, for a network address without host bits
  (\<open>Cache_Theorems\<close>, \<open>MappedDNS_Runs\<close>); the DNS server stays within its buffers if the request is longer than a header and one more byte
  follows it, and answers well-formed queries (\<open>DNS_Wire\<close>); the ring buffer is a queue; the authenticator is a map; receiving does not depend on
  how a stream is cut (\<open>Task_IO\<close>); addresses survive encoding, names of up to 255 bytes included (\<open>Socks5_Addr\<close>); the client's two handshakes
  are exact and agree when no send is cut short (\<open>Socks5_Client\<close>); the server returns on every input and whatever fails, lets nobody
  in without valid credentials, owns what it opens and releases it, and understands the client
  (\<open>Handshake_Both\<close>); a flow to a mapped address is opened by name (\<open>Lwip_Addr\<close>); settings fit their buffers and
  limits (\<open>Config\<close>); a TCP session passes on both streams in order under any interleaving with the
  stack, without ever refusing data within the window or lacking room in the send buffer; what comes from the SOCKS side is complete as long as the stack takes what
  it is given (\<open>Session_TCP\<close>). Datagrams that fit their buffers cross the relay in both directions unchanged, in order and with their addresses, however the stream is
  cut (\<open>UDP_Relay\<close>, \<open>Session_UDP\<close>); the list of sessions stays in the order of last activity if there is a limit, otherwise of arrival, and the shutdown reaches
  every session (\<open>Tunnel_Sessions\<close>); a device is configured as the settings say, and a first start that succeeds, or fails after the device is set
  up, is undone by the end or the clean-up but for one control block when the listening block could not be made (\<open>Tunnel_Life\<close>); while it runs and after the stop, the list holds exactly the sessions that have a task, and the stop is told to each
  (\<open>Tunnel_Tasks\<close>); a start that fails leaves the descriptor of the application to the entry point, which closes it (\<open>Tunnel_Entry\<close>); the device on
  Windows is used and closed without a stale handle (\<open>Tunnel_Windows\<close>). The lock excludes and loses no wake-up
  (\<open>Task_Mutex\<close>). Tasks that keep the rules never bring the task system to fault or abort, a yield leads to a runnable task with the lowest key, every task has its turn,
  and a sleep takes the time that was asked for (\<open>Task_Steps\<close>, \<open>Task_Timer\<close>). The splice loses no byte whatever fails, ends and delivers everything if nothing fails, and its two variants agree
  (\<open>Splice\<close>).

  Some theorems state behaviour that is not intended: a read past a DNS message (\<open>dns_handle_header_overread\<close>), a lookup outside the
  mapped network (\<open>dns_lookup_ignores_network\<close>), two names with one address (\<open>dns_host_bits_ambiguous\<close>), a name whose length wraps (\<open>addr_from_name_wraps\<close>), a truncated send that counts as
  complete (\<open>client_partial_send_accepted\<close>), a negative buffer size (\<open>config_negative_buffer\<close>), messages that were never received (\<open>udp_cut_frame_faults\<close>), replies that the client refuses
  (\<open>udp_long_reply_refused\<close>), a header whose length wraps (\<open>udp_header_wraps\<close>), a message without an address (\<open>udp_short_datagram_faults\<close>), a
  task that waits for its own lock (\<open>accept_task_failure_deadlocks\<close>, \<open>mutex_self_deadlock\<close>), a session that forgets that it was told to
  end (\<open>early_termination_forgotten\<close>), a dispatch that never ends (\<open>udp_input_hangs_when_stopped\<close>), an address
  that is silently left out (\<open>bad_address_accepted\<close>), masks that are wrong and a name that is missing (\<open>prefixmask6_right_iff\<close>, \<open>unnamed_device_faults\<close>), a device that stays open (\<open>tunnel_failed_setting_leaks\<close>), control blocks that are freed
  twice (\<open>failed_restart_frees_twice\<close>), a stop that never returns (\<open>stop_hangs_after_failed_start\<close>), a
  joiner that nobody wakes (\<open>exit_strands_joiner\<close>), a time to wait that turns negative (\<open>timeout_sign\<close>), a session that is ended twice and packets
  that are never released (\<open>windows_stale_session\<close>, \<open>windows_packets\<close>), and a log message that is read past its
  buffer (\<open>logger_overread\<close>).

  \<^bold>\<open>Bounds.\<close> No fuel is used. Freshness of allocation is stated for pointers that a finite memory
  can hold (\<open>alloc_ok\<close>, \<open>fresh_ptrs\<close>). Lengths are assumed to fit the fields that hold them where the C
  code relies on it; where it does not fit, the wrap-around is modelled.

  \<^bold>\<open>Not modelled.\<close> In the theories of the tunnel the order in which the scheduler runs tasks is left open, and what the tasks do to the static variables between start and end of the
  tunnel is a parameter of the main function, of which nothing is assumed: no theorem covers a complete run from start over the work of the tasks to the end. Of the initialisation of the task system and of the stack the main function has only
  the result; its descriptors are not counted. Messages to the log have no effect on the state and are
  left out of the operations. Contexts and stacks of tasks, the reactor, libyaml and lwIP beyond the parts named above are third-party or machine code, as is the driver library
  of the device on Windows.
\<close>

end
